(* ===== verification/Prelude.thy ===== *)
theory Prelude
  imports Main "HOL-Library.Word"
begin

text \<open>
  Shared vocabulary of the development: machine integers, byte buffers with the loads and
  stores the C++ code makes through casted header pointers, byte-order conversion, the
  \<^verbatim>\<open>Vector\<close> erase loops, faults, and the actions an element performs.

  The host is little endian, the platform the repository is built for
  (\<^verbatim>\<open>CLICK_BYTE_ORDER == CLICK_LITTLE_ENDIAN\<close>).  A packet's bytes are a list; a struct
  field at a fixed offset is read and written by \<open>get8/get16/get32\<close> and
  \<open>put8/put16/put32\<close>, so a 16-bit field read by the code without \<^verbatim>\<open>ntohs\<close> is the
  byte-swapped value, as on the machine.
\<close>

unbundle bit_operations_syntax

named_theorems fields \<open>loads and stores of header fields\<close>
named_theorems swaps \<open>byte-order conversion\<close>
named_theorems element_defs \<open>definitions of element operations\<close>

type_synonym u8 = "8 word"
type_synonym u16 = "16 word"
type_synonym u32 = "32 word"
type_synonym bytes = "8 word list"

text \<open>Offsets stay numerals.\<close>

declare add_2_eq_Suc [simp del] add_2_eq_Suc' [simp del]

section \<open>Faults and results\<close>

text \<open>
  What C++ leaves undefined is a value: an access outside the packet's data, through a null
  pointer, through a packet reference the element gave up or an entry it freed, a failed
  \<^verbatim>\<open>assert\<close>, a signed overflow, a division by zero, and the use of an uninitialised local.
\<close>

datatype fault = OutOfBounds | NullDeref | UseAfterKill | UseAfterFree | AssertFail
  | SignedOverflow | DivByZero | Uninitialised

type_synonym 'a res = "fault + 'a"

definition guard :: "bool \<Rightarrow> fault \<Rightarrow> 'a res \<Rightarrow> 'a res" where
  "guard b f k = (if b then k else Inl f)"

text \<open>\<^verbatim>\<open>ErrorHandler::error_result\<close>, what reporting an error returns: \<^verbatim>\<open>-EINVAL\<close>.\<close>

definition error_result :: int where "error_result = - 22"

lemma error_result_neg [simp]: "error_result < 0" "error_result \<noteq> 0" "0 \<noteq> error_result"
  by (simp_all add: error_result_def)

definition bind_res :: "'a res \<Rightarrow> ('a \<Rightarrow> 'b res) \<Rightarrow> 'b res" where
  "bind_res r f = (case r of Inl e \<Rightarrow> Inl e | Inr x \<Rightarrow> f x)"

lemma bind_res_simps [simp]:
  "bind_res (Inl e) f = Inl e"
  "bind_res (Inr x) f = f x"
  by (simp_all add: bind_res_def)

lemma bind_res_Inr: "bind_res r f = Inr y \<longleftrightarrow> (\<exists>x. r = Inr x \<and> f x = Inr y)"
  by (cases r) auto

lemma guard_True [simp]: "b \<Longrightarrow> guard b f k = k"
  and guard_False [simp]: "\<not> b \<Longrightarrow> guard b f k = Inl f"
  by (simp_all add: guard_def)

lemma guard_Inr: "guard b f k = Inr x \<longleftrightarrow> b \<and> k = Inr x"
  by (simp add: guard_def)

text \<open>The C idiom \<^verbatim>\<open>(x >> n) & 1\<close>.\<close>

lemma bit_test: "drop_bit n x AND 1 \<noteq> 0 \<longleftrightarrow> bit x n" for x :: "'a :: len word"
  by (simp add: and_one_eq bit_iff_odd_drop_bit odd_iff_mod_2_eq_one)

text \<open>Signed 32-bit \<^verbatim>\<open>int\<close> values are kept as HOL integers in this range.\<close>

definition int32_range :: "int \<Rightarrow> bool" where
  "int32_range i \<longleftrightarrow> - 2147483648 \<le> i \<and> i \<le> 2147483647"

section \<open>Byte order\<close>

definition htons :: "u16 \<Rightarrow> u16" where
  "htons x = push_bit 8 x OR drop_bit 8 x"

abbreviation ntohs :: "u16 \<Rightarrow> u16" where
  "ntohs \<equiv> htons"

definition htonl :: "u32 \<Rightarrow> u32" where
  "htonl x = push_bit 24 x OR (push_bit 8 x AND 0x00FF0000) OR (drop_bit 8 x AND 0x0000FF00)
     OR drop_bit 24 x"

abbreviation ntohl :: "u32 \<Rightarrow> u32" where
  "ntohl \<equiv> htonl"

lemma htons_htons [simp, swaps]: "htons (htons x) = x"
  by (rule bit_word_eqI) (auto simp: htons_def bit_simps)

lemma htons_eq_iff [simp, swaps]: "htons x = htons y \<longleftrightarrow> x = y"
  by (metis htons_htons)

lemma htons_0 [simp, swaps]: "htons 0 = 0"
  by (simp add: htons_def)

lemma htons_eq_0 [simp, swaps]: "htons x = 0 \<longleftrightarrow> x = 0"
  by (metis htons_0 htons_htons)

lemma unat_u16_bound: "unat (x :: u16) < 65536"
  using unsigned_less [of x] by simp

lemma unat_u8_bound: "unat (x :: u8) < 256"
  using unsigned_less [of x] by simp

lemma unat_u32_bound: "unat (x :: u32) < 4294967296"
  using unsigned_less [of x] by simp

lemma byte_swap_bound: "n < 65536 \<Longrightarrow> (n mod 256) * 256 + n div 256 < (65536 :: nat)"
  by linarith

lemma htons_unat: "unat (htons x) = (unat x mod 256) * 256 + unat x div 256"
proof -
  have "push_bit 8 x AND drop_bit 8 x = (0 :: u16)"
    by (rule bit_word_eqI) (auto simp: bit_simps dest: bit_imp_le_length)
  then have sum: "htons x = push_bit 8 x + drop_bit 8 x"
    by (simp add: htons_def disjunctive_add_eq_or)
  have "unat (push_bit 8 x) = (unat x * 256) mod 65536"
    by (simp add: push_bit_eq_mult unat_word_ariths)
  also have "\<dots> = (unat x mod 256) * 256"
    using mult_mod_left [of "unat x" 256 256] by simp
  finally have push: "unat (push_bit 8 x) = (unat x mod 256) * 256" .
  have drop: "unat (drop_bit 8 x) = unat x div 256"
    by (simp add: drop_bit_eq_div unat_div)
  show ?thesis
    using byte_swap_bound [OF unat_u16_bound [of x]]
    by (simp add: sum unat_word_ariths push drop)
qed

text \<open>
  Every countdown of the program subtracts \<^verbatim>\<open>htons(1)\<close> from a lifetime kept in network
  order.  In terms of the lifetime in seconds this counts the low byte down and never borrows
  from the high byte.
\<close>

definition tick16 :: "u16 \<Rightarrow> u16" where
  "tick16 x = x - htons 1"

lemma htons_1 [simp]: "htons 1 = 256"
  by (simp add: htons_def)

lemma tick16_unat: "unat (tick16 x) = (if 256 \<le> unat x then unat x - 256 else unat x + 65280)"
proof (cases "256 \<le> unat x")
  case True
  then have "(256 :: u16) \<le> x" by (simp add: word_le_nat_alt)
  then show ?thesis using True by (simp add: tick16_def unat_sub)
next
  case False
  have "tick16 x = x + (- 256)" by (simp add: tick16_def)
  also have "(- 256 :: u16) = 65280" by simp
  finally have "unat (tick16 x) = unat (x + 65280)" by simp
  also have "\<dots> = unat x + 65280"
    using False by (simp add: unat_word_ariths)
  finally show ?thesis using False by simp
qed

lemma ntohs_tick16:
  "unat (ntohs (tick16 x)) =
     (if unat (ntohs x) mod 256 = 0 then unat (ntohs x) + 255 else unat (ntohs x) - 1)"
proof -
  define r where "r = unat x"
  have r: "r < 65536" unfolding r_def by (rule unat_u16_bound)
  have low: "((r mod 256) * 256 + r div 256) mod 256 = r div 256"
    using r by (simp add: less_mult_imp_div_less)
  show ?thesis
  proof (cases "256 \<le> r")
    case True
    then have "(r - 256) mod 256 = r mod 256" and "(r - 256) div 256 = r div 256 - 1"
      by (simp_all add: le_mod_geq le_div_geq)
    moreover have "r div 256 \<noteq> 0" using True by (simp add: div_eq_0_iff)
    ultimately show ?thesis
      using True low unfolding htons_unat tick16_unat r_def by simp
  next
    case False
    then have "(r + 65280) mod 256 = r" and "(r + 65280) div 256 = 255"
      using mod_mult_self1 [of r 255 256] div_mult_self1 [of 256 r 255] by simp_all
    then show ?thesis
      using False low unfolding htons_unat tick16_unat r_def by simp
  qed
qed

section \<open>Loads and stores in a byte buffer\<close>

definition get8 :: "bytes \<Rightarrow> nat \<Rightarrow> u8" where
  "get8 b k = b ! k"

definition get16 :: "bytes \<Rightarrow> nat \<Rightarrow> u16" where
  "get16 b k = ucast (b ! k) OR push_bit 8 (ucast (b ! (k + 1)))"

definition get32 :: "bytes \<Rightarrow> nat \<Rightarrow> u32" where
  "get32 b k = ucast (b ! k) OR push_bit 8 (ucast (b ! (k + 1)))
     OR push_bit 16 (ucast (b ! (k + 2))) OR push_bit 24 (ucast (b ! (k + 3)))"

definition put8 :: "bytes \<Rightarrow> nat \<Rightarrow> u8 \<Rightarrow> bytes" where
  "put8 b k v = b[k := v]"

definition put16 :: "bytes \<Rightarrow> nat \<Rightarrow> u16 \<Rightarrow> bytes" where
  "put16 b k v = b[k := ucast v, k + 1 := ucast (drop_bit 8 v)]"

definition put32 :: "bytes \<Rightarrow> nat \<Rightarrow> u32 \<Rightarrow> bytes" where
  "put32 b k v = b[k := ucast v, k + 1 := ucast (drop_bit 8 v),
     k + 2 := ucast (drop_bit 16 v), k + 3 := ucast (drop_bit 24 v)]"

text \<open>Copying bytes into a buffer.\<close>

definition put_bytes :: "bytes \<Rightarrow> nat \<Rightarrow> bytes \<Rightarrow> bytes" where
  "put_bytes b k xs = take k b @ xs @ drop (k + length xs) b"

lemma length_put_bytes [simp]: "k + length xs \<le> length b \<Longrightarrow> length (put_bytes b k xs) = length b"
  by (simp add: put_bytes_def)

lemma take_put_bytes: "j \<le> k \<Longrightarrow> k \<le> length b \<Longrightarrow> take j (put_bytes b k xs) = take j b"
  by (simp add: put_bytes_def min_absorb2)

lemma put_bytes_Nil [simp]: "put_bytes b k [] = b"
  by (simp add: put_bytes_def)

lemma put_bytes_append:
  assumes "k + length xs \<le> length b"
  shows "put_bytes (put_bytes b k xs) (k + length xs) ys = put_bytes b k (xs @ ys)"
  using assms by (simp add: put_bytes_def ac_simps)

lemma put_bytes_end: "length b = k + length xs \<Longrightarrow> put_bytes b k xs = take k b @ xs"
  by (simp add: put_bytes_def)

text \<open>
  The contract of one field width: a store keeps the length, is read back, and touches only
  its own bytes; a load depends only on its own bytes.
\<close>

locale byte_field =
  fixes get :: "bytes \<Rightarrow> nat \<Rightarrow> 'v"
    and put :: "bytes \<Rightarrow> nat \<Rightarrow> 'v \<Rightarrow> bytes"
    and w :: nat
  assumes length_put: "length (put b k v) = length b"
    and get_put: "k + w \<le> length b \<Longrightarrow> get (put b k v) k = v"
    and put_frame: "i < k \<or> k + w \<le> i \<Longrightarrow> put b k v ! i = b ! i"
    and get_local: "(\<And>i. k \<le> i \<Longrightarrow> i < k + w \<Longrightarrow> b ! i = c ! i) \<Longrightarrow> get b k = get c k"
    and put_append: "k + w \<le> length b \<Longrightarrow> put (b @ c) k v = put b k v @ c"
begin

lemma get_append: "k + w \<le> length b \<Longrightarrow> get (b @ c) k = get b k"
  by (rule get_local) (simp add: nth_append)

lemma get_take: "k + w \<le> n \<Longrightarrow> get (take n b) k = get b k"
  by (rule get_local) simp

lemma take_put_after: "n \<le> k \<Longrightarrow> take n (put b k v) = take n b"
  by (rule nth_equalityI) (simp_all add: length_put put_frame)

lemma take_put_within: "k + w \<le> n \<Longrightarrow> n \<le> length b \<Longrightarrow> take n (put b k v) = put (take n b) k v"
  using put_append [of k "take n b" "drop n b" v] by (simp add: length_put)

lemma drop_put_before: "k + w \<le> n \<Longrightarrow> drop n (put b k v) = drop n b"
  by (rule nth_equalityI) (simp_all add: length_put put_frame)

end

text \<open>Two fields side by side do not disturb each other.\<close>

locale byte_fields =
  f: byte_field get put w + g: byte_field get' put' w'
  for get :: "bytes \<Rightarrow> nat \<Rightarrow> 'v" and put w
    and get' :: "bytes \<Rightarrow> nat \<Rightarrow> 'u" and put' w'
begin

lemma get_put_other: "k + w \<le> k' \<or> k' + w' \<le> k \<Longrightarrow> get (put' b k' v) k = get b k"
  by (rule f.get_local) (auto intro: g.put_frame)

end

lemma nth_upd: "xs[k := v] ! i = (if i = k \<and> k < length xs then v else xs ! i)"
  by (cases "k < length xs") (simp_all add: nth_list_update list_update_beyond)

lemma put16_bytes: "put16 b k v ! i = (if i = k \<and> k < length b then ucast v
   else if i = k + 1 \<and> k + 1 < length b then ucast (drop_bit 8 v) else b ! i)"
  by (simp add: put16_def nth_upd)

lemma put32_bytes: "put32 b k v ! i = (if i = k \<and> k < length b then ucast v
   else if i = k + 1 \<and> k + 1 < length b then ucast (drop_bit 8 v)
   else if i = k + 2 \<and> k + 2 < length b then ucast (drop_bit 16 v)
   else if i = k + 3 \<and> k + 3 < length b then ucast (drop_bit 24 v) else b ! i)"
  by (simp add: put32_def nth_upd)

lemma get16_put16: "k + 2 \<le> length b \<Longrightarrow> get16 (put16 b k v) k = v"
  by (rule bit_word_eqI) (auto simp: get16_def put16_bytes bit_simps)

lemma get32_put32: "k + 4 \<le> length b \<Longrightarrow> get32 (put32 b k v) k = v"
proof (rule bit_word_eqI)
  fix n assume "k + 4 \<le> length b" and "n < LENGTH(32)"
  then show "bit (get32 (put32 b k v) k) n \<longleftrightarrow> bit v n"
    by (cases "n < 8"; cases "n < 16"; cases "n < 24") (auto simp: get32_def put32_bytes bit_simps)
qed

interpretation f8: byte_field get8 put8 1
  by unfold_locales (auto simp: get8_def put8_def list_update_append1)

interpretation f16: byte_field get16 put16 2
proof unfold_locales
  show "get16 b k = get16 c k" if "\<And>i. k \<le> i \<Longrightarrow> i < k + 2 \<Longrightarrow> b ! i = c ! i" for b c k
    using that [of k] that [of "k + 1"] by (simp add: get16_def)
qed (auto simp: get16_put16 put16_bytes, auto simp: put16_def list_update_append1)

interpretation f32: byte_field get32 put32 4
proof unfold_locales
  show "get32 b k = get32 c k" if "\<And>i. k \<le> i \<Longrightarrow> i < k + 4 \<Longrightarrow> b ! i = c ! i" for b c k
    using that [of k] that [of "k + 1"] that [of "k + 2"] that [of "k + 3"]
    by (simp add: get32_def)
qed (auto simp: get32_put32 put32_bytes, auto simp: put32_def list_update_append1)

interpretation f8_8: byte_fields get8 put8 1 get8 put8 1 ..
interpretation f8_16: byte_fields get8 put8 1 get16 put16 2 ..
interpretation f8_32: byte_fields get8 put8 1 get32 put32 4 ..
interpretation f16_8: byte_fields get16 put16 2 get8 put8 1 ..
interpretation f16_16: byte_fields get16 put16 2 get16 put16 2 ..
interpretation f16_32: byte_fields get16 put16 2 get32 put32 4 ..
interpretation f32_8: byte_fields get32 put32 4 get8 put8 1 ..
interpretation f32_16: byte_fields get32 put32 4 get16 put16 2 ..
interpretation f32_32: byte_fields get32 put32 4 get32 put32 4 ..

lemmas field_length [simp, fields] = f8.length_put f16.length_put f32.length_put

lemmas field_get_put [simp, fields] = f8.get_put f16.get_put f32.get_put

lemmas field_get_put_other [simp, fields] =
  f8_8.get_put_other f8_16.get_put_other f8_32.get_put_other
  f16_8.get_put_other f16_16.get_put_other f16_32.get_put_other
  f32_8.get_put_other f32_16.get_put_other f32_32.get_put_other

lemmas field_get_append [simp, fields] = f8.get_append f16.get_append f32.get_append

lemmas field_put_append [simp, fields] = f8.put_append f16.put_append f32.put_append

lemmas field_get_take [simp, fields] = f8.get_take f16.get_take f32.get_take

lemmas field_take_put [simp, fields] =
  f8.take_put_after f16.take_put_after f32.take_put_after
  f8.take_put_within f16.take_put_within f32.take_put_within

lemmas field_drop_put [simp, fields] =
  f8.drop_put_before f16.drop_put_before f32.drop_put_before

text \<open>A load from a suffix is a load at the shifted offset.\<close>

lemma get_drop [simp, fields]:
  "n + k + 1 \<le> length b \<Longrightarrow> get8 (drop n b) k = get8 b (n + k)"
  "n + k + 2 \<le> length b \<Longrightarrow> get16 (drop n b) k = get16 b (n + k)"
  "n + k + 4 \<le> length b \<Longrightarrow> get32 (drop n b) k = get32 b (n + k)"
  by (simp_all add: get8_def get16_def get32_def add.assoc)

text \<open>\<^verbatim>\<open>memset(p, 0, n)\<close>\<close>

definition zeros :: "nat \<Rightarrow> bytes" where
  "zeros n = replicate n 0"

lemma length_zeros [simp]: "length (zeros n) = n"
  by (simp add: zeros_def)

lemma get_zeros [simp, fields]:
  "k + 1 \<le> n \<Longrightarrow> get8 (zeros n) k = 0"
  "k + 2 \<le> n \<Longrightarrow> get16 (zeros n) k = 0"
  "k + 4 \<le> n \<Longrightarrow> get32 (zeros n) k = 0"
  by (simp_all add: zeros_def get8_def get16_def get32_def)

end
