(* ===== verification/HashTable.thy ===== *)
theory HashTable
  imports Prelude
begin

text \<open>
  \<^verbatim>\<open>HashMap<IPAddress, T *>\<close> (\<^verbatim>\<open>include/click/hashmap.hh\<close> and \<^verbatim>\<open>hashmap.cc\<close>, the
  pointer specialisation): an array of collision chains that doubles when it holds twice as
  many elements as buckets.  The value type stands for the object the stored pointer owns;
  every object is reached through one table entry only, so writing through the pointer is
  replacing the value.  The arena's allocation may fail, which \<^verbatim>\<open>insert\<close> ignores.

  The contract a client relies on is the locale \<open>address_map\<close>; the chained table is shown to
  be one.
\<close>

section \<open>The code\<close>

record 'v hashmap =
  hm_buckets :: "(u32 \<times> 'v) list list"
  hm_nbuckets :: nat
  hm_n :: nat
  hm_capacity :: nat

definition MAX_NBUCKETS :: nat where "MAX_NBUCKETS = 32767"

definition DEFAULT_INITIAL_NBUCKETS :: nat where "DEFAULT_INITIAL_NBUCKETS = 127"

definition DEFAULT_RESIZE_THRESHOLD :: nat where "DEFAULT_RESIZE_THRESHOLD = 2"

text \<open>\<^verbatim>\<open>IPAddress::hashcode\<close> is the address itself.\<close>

definition hashcode :: "u32 \<Rightarrow> nat" where
  "hashcode k = unat k"

definition hm_set_dynamic_resizing :: "bool \<Rightarrow> 'v hashmap \<Rightarrow> 'v hashmap" where
  "hm_set_dynamic_resizing on m = m\<lparr>hm_capacity :=
     (if \<not> on then 0x7FFFFFFF
      else if MAX_NBUCKETS \<le> hm_nbuckets m then 0x7FFFFFFE
      else DEFAULT_RESIZE_THRESHOLD * hm_nbuckets m)\<rparr>"

definition hm_dynamic_resizing :: "'v hashmap \<Rightarrow> bool" where
  "hm_dynamic_resizing m \<longleftrightarrow> hm_capacity m < 0x7FFFFFFF"

definition hm_initialize :: "nat \<Rightarrow> 'v hashmap" where
  "hm_initialize initial_nbuckets = hm_set_dynamic_resizing True
     \<lparr>hm_buckets = replicate initial_nbuckets [], hm_nbuckets = initial_nbuckets,
      hm_n = 0, hm_capacity = 0\<rparr>"

definition hm_new :: "'v hashmap" where
  "hm_new = hm_initialize DEFAULT_INITIAL_NBUCKETS"

definition hm_bucket :: "'v hashmap \<Rightarrow> u32 \<Rightarrow> nat" where
  "hm_bucket m key = hashcode key mod hm_nbuckets m"

fun chain_find :: "u32 \<Rightarrow> (u32 \<times> 'v) list \<Rightarrow> 'v option" where
  "chain_find key [] = None"
| "chain_find key (e # es) = (if fst e = key then Some (snd e) else chain_find key es)"

definition hm_find_pair :: "'v hashmap \<Rightarrow> u32 \<Rightarrow> 'v option" where
  "hm_find_pair m key = chain_find key (hm_buckets m ! hm_bucket m key)"

text \<open>Rehashing walks the old chains in order and pushes each element on the front of its
  new chain.\<close>

fun rehash :: "nat \<Rightarrow> (u32 \<times> 'v) list \<Rightarrow> (u32 \<times> 'v) list list \<Rightarrow> (u32 \<times> 'v) list list" where
  "rehash nb [] bs = bs"
| "rehash nb (e # es) bs =
     (let b = hashcode (fst e) mod nb in rehash nb es (bs[b := e # bs ! b]))"

definition hm_resize0 :: "nat \<Rightarrow> 'v hashmap \<Rightarrow> 'v hashmap" where
  "hm_resize0 new_nbuckets m =
     (let m1 = m\<lparr>hm_nbuckets := new_nbuckets,
            hm_buckets := rehash new_nbuckets (concat (hm_buckets m)) (replicate new_nbuckets [])\<rparr>
      in if hm_dynamic_resizing m1 then hm_set_dynamic_resizing True m1 else m1)"

function grow_nbuckets :: "nat \<Rightarrow> nat \<Rightarrow> nat" where
  "grow_nbuckets want new =
     (if new < want \<and> new < MAX_NBUCKETS then grow_nbuckets want (2 * (new + 1) - 1) else new)"
  by pat_completeness auto
termination
  by (relation "measure (\<lambda>(want, new). MAX_NBUCKETS - new)") auto

declare grow_nbuckets.simps [simp del]

definition hm_resize :: "nat \<Rightarrow> 'v hashmap \<Rightarrow> 'v hashmap" where
  "hm_resize want_nbuckets m =
     (let new_nbuckets = grow_nbuckets want_nbuckets 1 in
      if hm_nbuckets m \<noteq> new_nbuckets then hm_resize0 new_nbuckets m else m)"

fun chain_set :: "u32 \<Rightarrow> 'v \<Rightarrow> (u32 \<times> 'v) list \<Rightarrow> (u32 \<times> 'v) list" where
  "chain_set key v [] = []"
| "chain_set key v (e # es) = (if fst e = key then (fst e, v) # es else e # chain_set key v es)"

definition hm_set_bucket :: "nat \<Rightarrow> (u32 \<times> 'v) list \<Rightarrow> 'v hashmap \<Rightarrow> 'v hashmap" where
  "hm_set_bucket b es m = m\<lparr>hm_buckets := (hm_buckets m)[b := es]\<rparr>"

text \<open>A write through the value pointer of a pair found before.\<close>

definition hm_write :: "u32 \<Rightarrow> 'v \<Rightarrow> 'v hashmap \<Rightarrow> 'v hashmap" where
  "hm_write key v m =
     (let b = hm_bucket m key in hm_set_bucket b (chain_set key v (hm_buckets m ! b)) m)"

definition hm_add :: "u32 \<Rightarrow> 'v \<Rightarrow> 'v hashmap \<Rightarrow> 'v hashmap" where
  "hm_add key v m = (let b = hm_bucket m key in
     (hm_set_bucket b ((key, v) # hm_buckets m ! b) m)\<lparr>hm_n := hm_n m + 1\<rparr>)"

definition hm_insert :: "bool \<Rightarrow> u32 \<Rightarrow> 'v \<Rightarrow> 'v hashmap \<Rightarrow> bool \<times> 'v hashmap" where
  "hm_insert ok key v m =
     (case hm_find_pair m key of
        Some _ \<Rightarrow> (False, hm_write key v m)
      | None \<Rightarrow>
          let m1 = (if hm_capacity m \<le> hm_n m then hm_resize (hm_nbuckets m + 1) m else m)
          in (True, if ok then hm_add key v m1 else m1))"

fun chain_del :: "u32 \<Rightarrow> (u32 \<times> 'v) list \<Rightarrow> (u32 \<times> 'v) list" where
  "chain_del key [] = []"
| "chain_del key (e # es) = (if fst e = key then es else e # chain_del key es)"

definition hm_erase :: "u32 \<Rightarrow> 'v hashmap \<Rightarrow> bool \<times> 'v hashmap" where
  "hm_erase key m =
     (let b = hm_bucket m key in
      case hm_find_pair m key of
        Some _ \<Rightarrow> (True, (hm_set_bucket b (chain_del key (hm_buckets m ! b)) m)\<lparr>hm_n := hm_n m - 1\<rparr>)
      | None \<Rightarrow> (False, m))"

definition hm_clear :: "'v hashmap \<Rightarrow> 'v hashmap" where
  "hm_clear m = m\<lparr>hm_buckets := replicate (hm_nbuckets m) [], hm_n := 0\<rparr>"

section \<open>The contract\<close>

locale address_map =
  fixes find :: "'m \<Rightarrow> u32 \<Rightarrow> 'v option"
    and new :: 'm
    and ins :: "bool \<Rightarrow> u32 \<Rightarrow> 'v \<Rightarrow> 'm \<Rightarrow> 'm"
    and store :: "u32 \<Rightarrow> 'v \<Rightarrow> 'm \<Rightarrow> 'm"
    and del :: "u32 \<Rightarrow> 'm \<Rightarrow> 'm"
    and invar :: "'m \<Rightarrow> bool"
  assumes find_new: "find new k = None"
    and find_ins: "invar m \<Longrightarrow>
      find (ins ok k v m) = (if ok \<or> find m k \<noteq> None then (find m)(k := Some v) else find m)"
    and find_store: "invar m \<Longrightarrow> find m k \<noteq> None \<Longrightarrow> find (store k v m) = (find m)(k := Some v)"
    and find_del: "invar m \<Longrightarrow> find (del k m) = (find m)(k := None)"
    and invar_new: "invar new"
    and invar_ins: "invar m \<Longrightarrow> invar (ins ok k v m)"
    and invar_store: "invar m \<Longrightarrow> find m k \<noteq> None \<Longrightarrow> invar (store k v m)"
    and invar_del: "invar m \<Longrightarrow> invar (del k m)"
begin

lemma find_ins_same: "invar m \<Longrightarrow> find (ins True k v m) k = Some v"
  by (simp add: find_ins)

lemma find_ins_other: "invar m \<Longrightarrow> k' \<noteq> k \<Longrightarrow> find (ins ok k v m) k' = find m k'"
  by (simp add: find_ins)

lemma find_del_ins: "invar m \<Longrightarrow> find m k = None \<Longrightarrow> find (del k (ins ok k v m)) = find m"
  by (rule ext) (simp add: find_del find_ins invar_ins)

lemma dom_find_ins: "invar m \<Longrightarrow> dom (find (ins True k v m)) = insert k (dom (find m))"
  by (simp add: find_ins)

lemma dom_find_del: "invar m \<Longrightarrow> dom (find (del k m)) = dom (find m) - {k}"
  by (auto simp: find_del split: if_splits)

lemma dom_find_store: "invar m \<Longrightarrow> find m k \<noteq> None \<Longrightarrow> dom (find (store k v m)) = dom (find m)"
  by (auto simp: find_store)

end

section \<open>The chained table satisfies it\<close>

definition chain_ok :: "nat \<Rightarrow> nat \<Rightarrow> (u32 \<times> 'v) list \<Rightarrow> bool" where
  "chain_ok nb i es \<longleftrightarrow> distinct (map fst es) \<and> (\<forall>x \<in> set (map fst es). hashcode x mod nb = i)"

definition table_ok :: "nat \<Rightarrow> (u32 \<times> 'v) list list \<Rightarrow> bool" where
  "table_ok nb bs \<longleftrightarrow> length bs = nb \<and> 0 < nb \<and> (\<forall>i < nb. chain_ok nb i (bs ! i))"

definition hm_invar :: "'v hashmap \<Rightarrow> bool" where
  "hm_invar m \<longleftrightarrow> table_ok (hm_nbuckets m) (hm_buckets m) \<and>
     hm_n m = length (concat (hm_buckets m))"

definition table_find :: "nat \<Rightarrow> (u32 \<times> 'v) list list \<Rightarrow> u32 \<Rightarrow> 'v option" where
  "table_find nb bs k = chain_find k (bs ! (hashcode k mod nb))"

lemma hm_find_table: "hm_find_pair m = table_find (hm_nbuckets m) (hm_buckets m)"
  by (rule ext) (simp add: hm_find_pair_def table_find_def hm_bucket_def)

lemma chain_find_map_of: "chain_find k es = map_of es k"
  by (induction es) auto

lemma chain_find_None: "chain_find k es = None \<longleftrightarrow> k \<notin> fst ` set es"
  by (simp add: chain_find_map_of map_of_eq_None_iff)

lemma chain_set_keys [simp]: "map fst (chain_set k v es) = map fst es"
  by (induction es) auto

lemma chain_find_set: "chain_find k es \<noteq> None \<Longrightarrow> chain_find k' (chain_set k v es) =
    (if k' = k then Some v else chain_find k' es)"
  by (induction es) auto

lemma set_chain_del: "set (chain_del k es) \<subseteq> set es"
  by (induction es) auto

lemma distinct_chain_del: "distinct (map fst es) \<Longrightarrow> distinct (map fst (chain_del k es))"
proof (induction es)
  case (Cons e es)
  then show ?case using set_chain_del [of k es] by auto
qed simp

lemma chain_find_del: "distinct (map fst es) \<Longrightarrow>
    chain_find k' (chain_del k es) = (if k' = k then None else chain_find k' es)"
proof (induction es)
  case (Cons e es)
  then have "chain_find (fst e) es = None" by (simp add: chain_find_None)
  then show ?case using Cons by auto
qed simp

lemma length_chain_del: "chain_find k es \<noteq> None \<Longrightarrow> Suc (length (chain_del k es)) = length es"
  by (induction es) (auto split: if_splits)

lemma chain_ok_set: "chain_ok nb i es \<Longrightarrow> chain_ok nb i (chain_set k v es)"
  unfolding chain_ok_def chain_set_keys .

lemma chain_ok_del: "chain_ok nb i es \<Longrightarrow> chain_ok nb i (chain_del k es)"
  using set_chain_del [of k es] by (auto simp: chain_ok_def distinct_chain_del)

lemma chain_ok_cons:
  "chain_ok nb i es \<Longrightarrow> hashcode k mod nb = i \<Longrightarrow> chain_find k es = None \<Longrightarrow> chain_ok nb i ((k, v) # es)"
  by (auto simp: chain_ok_def chain_find_None)

lemma table_ok_update: "table_ok nb bs \<Longrightarrow> chain_ok nb i es \<Longrightarrow> table_ok nb (bs[i := es])"
  by (auto simp: table_ok_def nth_upd)

lemma table_ok_chain: "table_ok nb bs \<Longrightarrow> chain_ok nb (hashcode k mod nb) (bs ! (hashcode k mod nb))"
  by (simp add: table_ok_def)

lemma table_ok_bucket: "table_ok nb bs \<Longrightarrow> hashcode k mod nb < length bs"
  by (simp add: table_ok_def)

lemma table_find_update:
  assumes ok: "table_ok nb bs" and other: "\<And>k'. k' \<noteq> k \<Longrightarrow> chain_find k' es = chain_find k' (bs ! (hashcode k mod nb))"
  shows "table_find nb (bs[hashcode k mod nb := es]) = (table_find nb bs)(k := chain_find k es)"
proof (rule ext)
  fix k'
  show "table_find nb (bs[hashcode k mod nb := es]) k' = ((table_find nb bs)(k := chain_find k es)) k'"
    using table_ok_bucket [OF ok, of k] other [of k']
    by (cases "hashcode k' mod nb = hashcode k mod nb") (auto simp: table_find_def)
qed

lemma length_concat_update:
  "i < length bs \<Longrightarrow> length (concat (bs[i := es])) + length (bs ! i) = length (concat bs) + length es"
  by (induction bs arbitrary: i) (auto split: nat.splits simp: nth_Cons)

text \<open>All chains together: the keys are distinct and a lookup in the chain of a key is a lookup
  in the concatenation.\<close>

lemma chains_concat:
  assumes "\<forall>i < length bs. distinct (map fst (bs ! i)) \<and> (\<forall>e \<in> set (bs ! i). f (fst e) = j + i)"
  shows "distinct (map fst (concat bs)) \<and> (\<forall>e \<in> set (concat bs). j \<le> f (fst e)) \<and>
    (\<forall>k. j \<le> f k \<longrightarrow> f k < j + length bs \<longrightarrow> map_of (concat bs) k = map_of (bs ! (f k - j)) k)"
  using assms
proof (induction bs arbitrary: j)
  case (Cons b bs)
  have b: "distinct (map fst b)" "\<And>e. e \<in> set b \<Longrightarrow> f (fst e) = j"
    using Cons.prems by (force simp: All_less_Suc2)+
  have rest: "\<forall>i < length bs. distinct (map fst (bs ! i)) \<and> (\<forall>e \<in> set (bs ! i). f (fst e) = Suc j + i)"
    using Cons.prems by (auto simp: All_less_Suc2)
  note IH = Cons.IH [OF rest]
  have disj: "fst ` set b \<inter> fst ` set (concat bs) = {}"
    using b(2) IH by fastforce
  have look: "map_of (b @ concat bs) k = map_of ((b # bs) ! (f k - j)) k"
    if k: "j \<le> f k" "f k < j + length (b # bs)" for k
  proof (cases "f k = j")
    case True
    then have "k \<notin> fst ` set (concat bs)" using IH by fastforce
    then have "map_of (concat bs) k = None" by (simp add: map_of_eq_None_iff)
    then show ?thesis using True by (simp add: map_add_def split: option.splits)
  next
    case False
    then have "map_of b k = None" using b(2) by (force simp: map_of_eq_None_iff)
    moreover have "map_of (concat bs) k = map_of (bs ! (f k - Suc j)) k"
      using IH k False by simp
    moreover have "(b # bs) ! (f k - j) = bs ! (f k - Suc j)"
      using False k by (simp add: nth_Cons' Suc_diff_le)
    ultimately show ?thesis by (simp add: map_add_def split: option.splits)
  qed
  have low: "\<forall>e \<in> set (concat (b # bs)). j \<le> f (fst e)"
    using b(2) IH by (fastforce simp: Suc_le_eq)
  have dis: "distinct (map fst (concat (b # bs)))"
    using b(1) IH disj by simp
  show ?case using low dis look by simp
qed simp

lemma table_ok_concat:
  assumes "table_ok nb bs"
  shows "distinct (map fst (concat bs))" "map_of (concat bs) k = table_find nb bs k"
  using chains_concat [of bs "\<lambda>k. hashcode k mod nb" 0] assms
  by (auto simp: table_ok_def chain_ok_def table_find_def chain_find_map_of)

lemma rehash_ok:
  assumes "table_ok nb bs" "distinct (map fst es)"
    and "\<And>e. e \<in> set es \<Longrightarrow> table_find nb bs (fst e) = None"
  shows "table_ok nb (rehash nb es bs) \<and>
    table_find nb (rehash nb es bs) = table_find nb bs ++ map_of es \<and>
    length (concat (rehash nb es bs)) = length es + length (concat bs)"
  using assms
proof (induction es arbitrary: bs)
  case (Cons e es)
  define b where "b = hashcode (fst e) mod nb"
  define bs' where "bs' = bs[b := e # bs ! b]"
  have none: "chain_find (fst e) (bs ! b) = None"
    using Cons.prems(3) [of e] by (simp add: table_find_def b_def)
  have ok: "table_ok nb bs'"
    unfolding bs'_def
    using table_ok_update [OF Cons.prems(1), of b "e # bs ! b"] none
      chain_ok_cons [OF table_ok_chain [OF Cons.prems(1), of "fst e"], of "fst e" "snd e"]
    by (simp add: b_def)
  have find: "table_find nb bs' = (table_find nb bs)(fst e \<mapsto> snd e)"
    unfolding bs'_def b_def by (subst table_find_update [OF Cons.prems(1)]) auto
  have len: "length (concat bs') = Suc (length (concat bs))"
    using length_concat_update [of b bs "e # bs ! b"] table_ok_bucket [OF Cons.prems(1), of "fst e"]
    by (simp add: bs'_def b_def)
  have "table_find nb bs' (fst e') = None" if "e' \<in> set es" for e'
  proof -
    have "fst e' \<in> fst ` set es" using that by (rule imageI)
    then have "fst e' \<noteq> fst e" using Cons.prems(2) by (metis distinct.simps(2) list.map(2) set_map)
    then show ?thesis using Cons.prems(3) [of e'] that by (simp add: find)
  qed
  then have "table_ok nb (rehash nb es bs') \<and>
    table_find nb (rehash nb es bs') = table_find nb bs' ++ map_of es \<and>
    length (concat (rehash nb es bs')) = length es + length (concat bs')"
    using Cons.IH [OF ok] Cons.prems(2) by simp
  moreover have "(table_find nb bs)(fst e \<mapsto> snd e) ++ map_of es = table_find nb bs ++ map_of (e # es)"
  proof -
    have "map_of es (fst e) = None" using Cons.prems(2) by (simp add: map_of_eq_None_iff)
    then show ?thesis by (auto simp: fun_eq_iff map_add_def split: option.splits)
  qed
  ultimately show ?case by (simp add: Let_def b_def [symmetric] bs'_def [symmetric] find len fun_eq_iff map_add_def)
qed simp

lemma table_ok_empty: "0 < nb \<Longrightarrow> table_ok nb (replicate nb [])"
  by (simp add: table_ok_def chain_ok_def)

lemma table_find_empty: "0 < nb \<Longrightarrow> table_find nb (replicate nb []) = Map.empty"
  by (rule ext) (simp add: table_find_def)

lemma grow_nbuckets_pos: "0 < new \<Longrightarrow> 0 < grow_nbuckets want new"
proof (induction want new rule: grow_nbuckets.induct)
  case (1 want new)
  then show ?case by (subst grow_nbuckets.simps) auto
qed


lemma hm_invar_table: "hm_invar m \<Longrightarrow> table_ok (hm_nbuckets m) (hm_buckets m)"
  by (simp add: hm_invar_def)

lemma hm_resize0_ok:
  assumes "hm_invar m" "0 < nb"
  shows "hm_invar (hm_resize0 nb m) \<and> hm_find_pair (hm_resize0 nb m) = hm_find_pair m"
proof -
  note tab = table_ok_concat [OF hm_invar_table [OF assms(1)]]
  have "map_of (concat (hm_buckets m)) = hm_find_pair m"
    by (rule ext) (simp add: tab(2) hm_find_table)
  moreover have "length (concat (replicate nb ([] :: (u32 \<times> 'a) list))) = 0"
    by (simp add: length_concat sum_list_replicate)
  ultimately show ?thesis
    using rehash_ok [OF table_ok_empty [OF assms(2)] tab(1)] assms
    by (simp add: hm_resize0_def Let_def hm_set_dynamic_resizing_def hm_invar_def hm_find_table
      table_find_empty)
qed

lemma hm_resize_ok:
  "hm_invar m \<Longrightarrow> hm_invar (hm_resize want m) \<and> hm_find_pair (hm_resize want m) = hm_find_pair m"
  using hm_resize0_ok grow_nbuckets_pos [of 1 want] by (auto simp: hm_resize_def Let_def)

lemma hm_set_bucket_ok:
  assumes inv: "hm_invar m" and es: "chain_ok (hm_nbuckets m) (hm_bucket m k) es"
    and other: "\<And>k'. k' \<noteq> k \<Longrightarrow> chain_find k' es = chain_find k' (hm_buckets m ! hm_bucket m k)"
  shows "table_ok (hm_nbuckets m) (hm_buckets (hm_set_bucket (hm_bucket m k) es m))"
    and "hm_find_pair (hm_set_bucket (hm_bucket m k) es m) = (hm_find_pair m)(k := chain_find k es)"
    and "length (concat (hm_buckets (hm_set_bucket (hm_bucket m k) es m)))
      + length (hm_buckets m ! hm_bucket m k) = hm_n m + length es"
  using table_ok_update [OF hm_invar_table [OF inv] es]
    table_find_update [OF hm_invar_table [OF inv], of k es] other
    length_concat_update [of "hm_bucket m k" "hm_buckets m" es]
    table_ok_bucket [OF hm_invar_table [OF inv], of k] inv
  by (simp_all add: hm_set_bucket_def hm_find_table hm_bucket_def hm_invar_def)

lemma hm_chain: "hm_invar m \<Longrightarrow> chain_ok (hm_nbuckets m) (hm_bucket m k) (hm_buckets m ! hm_bucket m k)"
  using table_ok_chain [OF hm_invar_table] by (simp add: hm_bucket_def)

lemma hm_set_bucket_sel [simp]:
  "hm_nbuckets (hm_set_bucket b es m) = hm_nbuckets m" "hm_n (hm_set_bucket b es m) = hm_n m"
  by (simp_all add: hm_set_bucket_def)

lemma hm_find_pair_n [simp]: "hm_find_pair (m\<lparr>hm_n := n\<rparr>) = hm_find_pair m"
  by (simp add: hm_find_table)

lemma hm_write_ok:
  assumes "hm_invar m" "hm_find_pair m k \<noteq> None"
  shows "hm_invar (hm_write k v m)" "hm_find_pair (hm_write k v m) = (hm_find_pair m)(k := Some v)"
proof -
  let ?es = "hm_buckets m ! hm_bucket m k"
  have some: "chain_find k ?es \<noteq> None" using assms(2) by (simp add: hm_find_pair_def)
  have len: "length (chain_set k v ?es) = length ?es"
    by (rule map_eq_imp_length_eq [OF chain_set_keys])
  have other: "chain_find k' (chain_set k v ?es) = chain_find k' ?es" if "k' \<noteq> k" for k'
    using that some by (simp add: chain_find_set)
  note sb = hm_set_bucket_ok [OF assms(1) chain_ok_set [OF hm_chain [OF assms(1)]] other]
  show "hm_invar (hm_write k v m)"
    using sb(1,3) some len by (simp add: hm_write_def Let_def hm_invar_def chain_find_set)
  show "hm_find_pair (hm_write k v m) = (hm_find_pair m)(k := Some v)"
    using sb(2) some by (simp add: hm_write_def Let_def chain_find_set)
qed

lemma hm_add_ok:
  assumes "hm_invar m" "hm_find_pair m k = None"
  shows "hm_invar (hm_add k v m)" "hm_find_pair (hm_add k v m) = (hm_find_pair m)(k := Some v)"
proof -
  have "chain_find k (hm_buckets m ! hm_bucket m k) = None" using assms(2) by (simp add: hm_find_pair_def)
  then have ok: "chain_ok (hm_nbuckets m) (hm_bucket m k) ((k, v) # hm_buckets m ! hm_bucket m k)"
    using chain_ok_cons [OF hm_chain [OF assms(1)]] by (simp add: hm_bucket_def)
  note sb = hm_set_bucket_ok [OF assms(1) ok]
  show "hm_invar (hm_add k v m)"
    using sb(1,3) by (simp add: hm_add_def Let_def hm_invar_def)
  show "hm_find_pair (hm_add k v m) = (hm_find_pair m)(k := Some v)"
    using sb(2) by (simp add: hm_add_def Let_def)
qed

lemma hm_insert_ok:
  assumes "hm_invar m"
  shows "hm_invar (snd (hm_insert ok k v m))"
    "hm_find_pair (snd (hm_insert ok k v m)) =
       (if ok \<or> hm_find_pair m k \<noteq> None then (hm_find_pair m)(k := Some v) else hm_find_pair m)"
proof -
  have "hm_invar (snd (hm_insert ok k v m)) \<and> hm_find_pair (snd (hm_insert ok k v m)) =
       (if ok \<or> hm_find_pair m k \<noteq> None then (hm_find_pair m)(k := Some v) else hm_find_pair m)"
  proof (cases "hm_find_pair m k")
    case None
    let ?m1 = "if hm_capacity m \<le> hm_n m then hm_resize (hm_nbuckets m + 1) m else m"
    have "hm_invar ?m1" "hm_find_pair ?m1 = hm_find_pair m"
      using hm_resize_ok [OF assms] assms by auto
    then show ?thesis using None hm_add_ok [of ?m1 k v] by (simp add: hm_insert_def Let_def)
  next
    case (Some w)
    then show ?thesis using hm_write_ok [OF assms, of k v] by (simp add: hm_insert_def)
  qed
  then show "hm_invar (snd (hm_insert ok k v m))"
    "hm_find_pair (snd (hm_insert ok k v m)) =
       (if ok \<or> hm_find_pair m k \<noteq> None then (hm_find_pair m)(k := Some v) else hm_find_pair m)"
    by auto
qed

lemma hm_erase_ok:
  assumes "hm_invar m"
  shows "hm_invar (snd (hm_erase k m))" "hm_find_pair (snd (hm_erase k m)) = (hm_find_pair m)(k := None)"
proof -
  let ?es = "hm_buckets m ! hm_bucket m k"
  have dis: "distinct (map fst ?es)" using hm_chain [OF assms] by (simp add: chain_ok_def)
  have other: "chain_find k' (chain_del k ?es) = chain_find k' ?es" if "k' \<noteq> k" for k'
    using that by (simp add: chain_find_del [OF dis])
  note sb = hm_set_bucket_ok [OF assms chain_ok_del [OF hm_chain [OF assms]] other]
  have "hm_invar (snd (hm_erase k m)) \<and> hm_find_pair (snd (hm_erase k m)) = (hm_find_pair m)(k := None)"
  proof (cases "hm_find_pair m k")
    case None
    then show ?thesis using assms by (auto simp: hm_erase_def Let_def)
  next
    case (Some v)
    then have "Suc (length (chain_del k ?es)) = length ?es"
      by (intro length_chain_del) (simp add: hm_find_pair_def)
    then show ?thesis
      using Some sb by (simp add: hm_erase_def Let_def hm_invar_def chain_find_del [OF dis])
  qed
  then show "hm_invar (snd (hm_erase k m))" "hm_find_pair (snd (hm_erase k m)) = (hm_find_pair m)(k := None)"
    by auto
qed

lemma hm_new_ok: "hm_invar (hm_new :: 'b hashmap)" "hm_find_pair (hm_new :: 'c hashmap) = Map.empty"
proof -
  have "length (concat (replicate 127 ([] :: (u32 \<times> 'b) list))) = 0"
    by (simp add: length_concat sum_list_replicate)
  then show "hm_invar (hm_new :: 'b hashmap)"
    using table_ok_empty [of 127]
    by (simp add: hm_new_def hm_initialize_def hm_set_dynamic_resizing_def hm_invar_def
        DEFAULT_INITIAL_NBUCKETS_def)
  show "hm_find_pair (hm_new :: 'c hashmap) = Map.empty"
    using table_find_empty [of 127]
    by (simp add: hm_new_def hm_initialize_def hm_set_dynamic_resizing_def
        DEFAULT_INITIAL_NBUCKETS_def hm_find_table)
qed

lemma hm_clear_ok: "hm_invar m \<Longrightarrow> hm_invar (hm_clear m) \<and> hm_find_pair (hm_clear m) = Map.empty"
  using table_ok_empty [of "hm_nbuckets m"] table_find_empty [of "hm_nbuckets m"]
  by (auto simp: hm_clear_def hm_invar_def table_ok_def hm_find_table)

interpretation ht: address_map hm_find_pair hm_new "\<lambda>ok k v m. snd (hm_insert ok k v m)" hm_write
    "\<lambda>k m. snd (hm_erase k m)" hm_invar
  by unfold_locales (simp_all add: hm_new_ok hm_insert_ok hm_write_ok hm_erase_ok)

end
