(* ===== verification/Vectors.thy ===== *)
theory Vectors
  imports Prelude
begin

text \<open>
  \<^verbatim>\<open>Vector<T>\<close> (\<^verbatim>\<open>include/click/vector.hh\<close>, \<^verbatim>\<open>vector.cc\<close>) as a list, its
  \<^verbatim>\<open>erase\<close>, and the two index loops the elements write over it: the forward loop that either
  erases the current element or advances, and the backward loop that may erase behind itself.
  Both are shown equal to one structural pass over the list, so no element is skipped or
  visited twice although the vector shrinks under the iterator.
\<close>

section \<open>Operations\<close>

definition vec_erase :: "'a list \<Rightarrow> nat \<Rightarrow> 'a list" where
  "vec_erase xs i = (if i < length xs then take i xs @ drop (Suc i) xs else xs)"

definition vec_push_back :: "'a list \<Rightarrow> 'a \<Rightarrow> 'a list" where
  "vec_push_back xs x = xs @ [x]"

text \<open>\<^verbatim>\<open>for (it = begin(); it != end(); it++) if (P(*it)) { erase(it); break; }\<close>\<close>

function erase_first :: "('a \<Rightarrow> bool) \<Rightarrow> nat \<Rightarrow> 'a list \<Rightarrow> 'a list" where
  "erase_first P i xs = (if i < length xs
     then if P (xs ! i) then vec_erase xs i else erase_first P (Suc i) xs
     else xs)"
  by pat_completeness auto
termination
  by (relation "measure (\<lambda>(P, i, xs). length xs - i)") auto

declare erase_first.simps [simp del]

text \<open>
  \<^verbatim>\<open>for (it = begin(); it != end();) { body; if (...) erase(it); else it++; }\<close>, the body
  updating the element and a state; \<open>None\<close> asks for the erase.
\<close>

function fwd_loop ::
  "('a \<Rightarrow> 's \<Rightarrow> ('a option \<times> 's) res) \<Rightarrow> nat \<Rightarrow> 'a list \<Rightarrow> 's \<Rightarrow> ('a list \<times> 's) res" where
  "fwd_loop body i xs s = (if i < length xs
     then case body (xs ! i) s of
         Inl e \<Rightarrow> Inl e
       | Inr (None, s') \<Rightarrow> fwd_loop body i (vec_erase xs i) s'
       | Inr (Some x, s') \<Rightarrow> fwd_loop body (Suc i) (xs[i := x]) s'
     else Inr (xs, s))"
  by pat_completeness auto
termination
  by (relation "measure (\<lambda>(body, i, xs, s). length xs - i)") (auto simp: vec_erase_def)

declare fwd_loop.simps [simp del]

text \<open>
  \<^verbatim>\<open>for (it = end()-1; it != begin()-1; it--) { body; if (...) erase(it); }\<close>; the counter is
  the number of elements still to visit.
\<close>

primrec bwd_loop ::
  "('a \<Rightarrow> 's \<Rightarrow> ('a option \<times> 's) res) \<Rightarrow> nat \<Rightarrow> 'a list \<Rightarrow> 's \<Rightarrow> ('a list \<times> 's) res" where
  "bwd_loop body 0 xs s = Inr (xs, s)"
| "bwd_loop body (Suc i) xs s = (case body (xs ! i) s of
         Inl e \<Rightarrow> Inl e
       | Inr (None, s') \<Rightarrow> bwd_loop body i (vec_erase xs i) s'
       | Inr (Some x, s') \<Rightarrow> bwd_loop body i (xs[i := x]) s')"

section \<open>Reference: one pass over the list\<close>

fun sweep :: "('a \<Rightarrow> 's \<Rightarrow> ('a option \<times> 's) res) \<Rightarrow> 'a list \<Rightarrow> 's \<Rightarrow> ('a list \<times> 's) res" where
  "sweep body [] s = Inr ([], s)"
| "sweep body (x # xs) s = (case body x s of
         Inl e \<Rightarrow> Inl e
       | Inr (r, s') \<Rightarrow> (case sweep body xs s' of
             Inl e \<Rightarrow> Inl e
           | Inr (ys, t) \<Rightarrow> Inr ((case r of None \<Rightarrow> ys | Some y \<Rightarrow> y # ys), t)))"

fun del1 :: "('a \<Rightarrow> bool) \<Rightarrow> 'a list \<Rightarrow> 'a list" where
  "del1 P [] = []"
| "del1 P (x # xs) = (if P x then xs else x # del1 P xs)"

lemma vec_erase_middle [simp]: "vec_erase (pre @ x # post) (length pre) = pre @ post"
  by (simp add: vec_erase_def)

lemma set_vec_erase: "set (vec_erase xs i) \<subseteq> set xs"
  by (auto simp: vec_erase_def dest: in_set_takeD in_set_dropD)

lemma length_vec_erase: "i < length xs \<Longrightarrow> length (vec_erase xs i) = length xs - 1"
  by (simp add: vec_erase_def)

lemma fwd_loop_sweep_gen:
  "fwd_loop body (length pre) (pre @ xs) s =
     (case sweep body xs s of Inl e \<Rightarrow> Inl e | Inr (ys, t) \<Rightarrow> Inr (pre @ ys, t))"
proof (induction xs arbitrary: pre s)
  case Nil
  show ?case by (simp add: fwd_loop.simps)
next
  case (Cons x xs)
  show ?case
  proof (cases "body x s")
    case (Inl e)
    then show ?thesis by (simp add: fwd_loop.simps)
  next
    case (Inr r)
    obtain o' s' where r: "r = (o', s')" by (cases r)
    show ?thesis
    proof (cases o')
      case None
      then show ?thesis using Inr r Cons.IH [of pre s']
        by (simp add: fwd_loop.simps [of body "length pre" "pre @ x # xs" s] split: sum.splits)
    next
      case (Some y)
      have "fwd_loop body (length (pre @ [y])) ((pre @ [y]) @ xs) s' =
        (case sweep body xs s' of Inl e \<Rightarrow> Inl e | Inr (ys, t) \<Rightarrow> Inr ((pre @ [y]) @ ys, t))"
        by (rule Cons.IH)
      then show ?thesis using Inr r Some
        by (simp add: fwd_loop.simps [of body "length pre" "pre @ x # xs" s]
              split: sum.splits)
    qed
  qed
qed

theorem fwd_loop_sweep: "fwd_loop body 0 xs s = sweep body xs s"
  using fwd_loop_sweep_gen [of body "[]" xs s] by (auto split: sum.splits)

lemma bwd_loop_sweep_gen:
  "bwd_loop body (length xs) (xs @ post) s =
     (case sweep body (rev xs) s of Inl e \<Rightarrow> Inl e | Inr (ys, t) \<Rightarrow> Inr (rev ys @ post, t))"
proof (induction xs arbitrary: post s rule: rev_induct)
  case Nil
  show ?case by simp
next
  case (snoc x xs)
  show ?case
  proof (cases "body x s")
    case (Inl e)
    then show ?thesis by simp
  next
    case (Inr r)
    obtain o' s' where r: "r = (o', s')" by (cases r)
    then show ?thesis
      using Inr snoc.IH [of post s'] snoc.IH [of "the o' # post" s']
      by (cases o') (simp_all split: sum.splits)
  qed
qed

theorem bwd_loop_sweep:
  "bwd_loop body (length xs) xs s =
     (case sweep body (rev xs) s of Inl e \<Rightarrow> Inl e | Inr (ys, t) \<Rightarrow> Inr (rev ys, t))"
  using bwd_loop_sweep_gen [of body xs "[]" s] by (simp split: sum.splits)

lemma erase_first_del1_gen: "erase_first P (length pre) (pre @ xs) = pre @ del1 P xs"
proof (induction xs arbitrary: pre)
  case Nil
  show ?case by (simp add: erase_first.simps)
next
  case (Cons x xs)
  show ?case
    using Cons.IH [of "pre @ [x]"]
    by (simp add: erase_first.simps [of P "length pre" "pre @ x # xs"])
qed

theorem erase_first_del1: "erase_first P 0 xs = del1 P xs"
  using erase_first_del1_gen [of P "[]" xs] by simp

section \<open>Passes without faults\<close>

text \<open>A body that never faults and threads no state: the pass is a \<open>map_filter\<close>.\<close>

lemma sweep_pure:
  "sweep (\<lambda>x s. Inr (f x, s)) xs s = Inr (List.map_filter f xs, s)"
  by (induction xs) (auto simp: List.map_filter_simps split: option.splits)

lemma sweep_total:
  "\<exists>ys t. sweep (\<lambda>x s. Inr (f x s, g x s)) xs s = Inr (ys, t)"
  by (induction xs arbitrary: s) (auto split: sum.splits, metis Inl_Inr_False)

lemma del1_filter: "distinct xs \<Longrightarrow> del1 (\<lambda>y. y = x) xs = filter (\<lambda>y. y \<noteq> x) xs"
proof (induction xs)
  case (Cons y ys)
  then show ?case by (auto intro!: filter_True [symmetric])
qed simp

lemma set_del1_subset: "set (del1 P xs) \<subseteq> set xs"
  by (induction xs) auto

lemma length_del1: "length (del1 P xs) \<le> length xs"
  by (induction xs) auto

lemma length_del1_found: "x \<in> set xs \<Longrightarrow> P x \<Longrightarrow> length (del1 P xs) = length xs - 1"
  by (induction xs) (auto, metis One_nat_def Suc_pred length_pos_if_in_set)

lemma del1_noop: "(\<And>x. x \<in> set xs \<Longrightarrow> \<not> P x) \<Longrightarrow> del1 P xs = xs"
  by (induction xs) auto

lemma distinct_map_del1: "distinct (map f xs) \<Longrightarrow> distinct (map f (del1 P xs))"
proof (induction xs)
  case (Cons x xs)
  then show ?case using set_del1_subset [of P xs] by auto
qed simp

text \<open>A body that never faults while its state satisfies \<open>P\<close>.\<close>

lemma sweep_invariant:
  assumes "\<And>x s. x \<in> set xs \<Longrightarrow> P s \<Longrightarrow> \<exists>r s'. body x s = Inr (r, s') \<and> P s'" and "P s"
  shows "\<exists>ys t. sweep body xs s = Inr (ys, t) \<and> P t \<and> length ys \<le> length xs"
  using assms
proof (induction xs arbitrary: s)
  case (Cons x xs)
  then obtain r s' where "body x s = Inr (r, s')" "P s'" by (metis list.set_intros(1))
  moreover have "\<exists>ys t. sweep body xs s' = Inr (ys, t) \<and> P t \<and> length ys \<le> length xs"
    using Cons.IH [of s'] Cons.prems(1) calculation(2) by simp
  ultimately show ?case by (auto split: option.splits)
qed simp

text \<open>Lookup by a key the pass does not change.\<close>

lemma map_filter_elem: "y \<in> set (List.map_filter g xs) \<longleftrightarrow> (\<exists>x \<in> set xs. g x = Some y)"
proof (induction xs)
  case (Cons x xs)
  then show ?case by (cases "g x") (auto simp: List.map_filter_simps)
qed (simp add: List.map_filter_simps)

lemma map_filter_keys:
  assumes "\<And>x y. g x = Some y \<Longrightarrow> f y = f x"
  shows "f ` set (List.map_filter g xs) \<subseteq> f ` set xs"
  using assms by (fastforce simp: map_filter_elem)

lemma find_map_filter:
  assumes "distinct (map f xs)" "\<And>x y. g x = Some y \<Longrightarrow> f y = f x"
  shows "find (\<lambda>x. f x = k) (List.map_filter g xs) = Option.bind (find (\<lambda>x. f x = k) xs) g"
  using assms(1)
proof (induction xs)
  case (Cons x xs)
  have sub: "f ` set (List.map_filter g xs) \<subseteq> f ` set xs" by (rule map_filter_keys) (rule assms(2))
  have "f x \<notin> f ` set xs" using Cons.prems by simp
  then have "f x \<notin> f ` set (List.map_filter g xs)" using sub by blast
  then have none: "find (\<lambda>y. f y = k) (List.map_filter g xs) = None" if "f x = k"
    unfolding find_None_iff that [symmetric] by (metis image_eqI)
  show ?case
    using Cons none assms(2) [of x] by (cases "g x") (auto simp: List.map_filter_simps)
qed (simp add: List.map_filter_simps)

lemma distinct_map_filter:
  assumes "distinct (map f xs)" "\<And>x y. g x = Some y \<Longrightarrow> f y = f x"
  shows "distinct (map f (List.map_filter g xs))"
  using assms(1)
proof (induction xs)
  case (Cons x xs)
  have sub: "f ` set (List.map_filter g xs) \<subseteq> f ` set xs" by (rule map_filter_keys) (rule assms(2))
  have "f x \<notin> f ` set xs" using Cons.prems by simp
  then have "f x \<notin> f ` set (List.map_filter g xs)" using sub by blast
  then show ?case
    using Cons assms(2) [of x] by (cases "g x") (simp_all add: List.map_filter_simps)
qed (simp add: List.map_filter_simps)

lemma rev_map_filter: "rev (List.map_filter g xs) = List.map_filter g (rev xs)"
  by (simp add: List.map_filter_def rev_map rev_filter)

end
