(* ===== verification/Checksum.thy ===== *)
theory Checksum
  imports Prelude
begin

text \<open>
  The Internet checksum: \<^verbatim>\<open>lib/in_cksum.c\<close> and the inline functions of
  \<^verbatim>\<open>include/clicknet/ip.h\<close>.  The 32-bit accumulator is a word; the specification is
  one's-complement arithmetic on natural numbers, \<open>oc\<close> being the residue modulo 65535 in the
  range the two folds leave it.  The theorems: the computed checksum is the complement of that
  residue, a buffer into which its checksum was stored verifies (sums to zero), and the
  incremental update of RFC 1624 keeps a verifying buffer verifying.
\<close>

section \<open>The code\<close>

definition word16 :: "u8 \<Rightarrow> u8 \<Rightarrow> u16" where
  "word16 a b = ucast a OR push_bit 8 (ucast b)"

text \<open>The summing loop and the odd byte, which lands in the low half of \<^verbatim>\<open>answer\<close>.\<close>

fun cksum_loop :: "u32 \<Rightarrow> bytes \<Rightarrow> u32" where
  "cksum_loop acc (a # b # w) = cksum_loop (acc + ucast (word16 a b)) w"
| "cksum_loop acc [a] = acc + ucast a"
| "cksum_loop acc [] = acc"

text \<open>Fold the carries back and complement.\<close>

definition fold_carries :: "u32 \<Rightarrow> u16" where
  "fold_carries acc =
     (let s1 = (acc AND 0xFFFF) + drop_bit 16 acc;
          s2 = s1 + drop_bit 16 s1
      in ucast (NOT s2))"

definition click_in_cksum :: "bytes \<Rightarrow> u16" where
  "click_in_cksum b = fold_carries (cksum_loop 0 b)"

text \<open>The portable branch of the pseudo-header adjustment; \<^verbatim>\<open>packet_len\<close> is converted to
  16 bits by \<^verbatim>\<open>htons\<close>.\<close>

definition click_in_cksum_pseudohdr_raw :: "u32 \<Rightarrow> u32 \<Rightarrow> u32 \<Rightarrow> u8 \<Rightarrow> nat \<Rightarrow> u16 res" where
  "click_in_cksum_pseudohdr_raw csum src dst proto packet_len =
     guard (csum \<le> 0xFFFF) AssertFail
       (let c0 = NOT csum AND 0xFFFF;
            c1 = c0 + (src AND 0xFFFF) + drop_bit 16 src;
            c2 = c1 + (dst AND 0xFFFF) + drop_bit 16 dst;
            c3 = c2 + ucast (htons (of_nat packet_len)) + ucast (htons (ucast proto));
            c4 = (c3 AND 0xFFFF) + drop_bit 16 c3
        in Inr (ucast (NOT (c4 + drop_bit 16 c4) AND 0xFFFF)))"

definition click_update_in_cksum :: "u16 \<Rightarrow> u16 \<Rightarrow> u16 \<Rightarrow> u16" where
  "click_update_in_cksum csum old_hw new_hw =
     (let acc = (ucast (NOT csum) AND 0xFFFF) + (ucast (NOT old_hw) AND 0xFFFF) + ucast new_hw :: u32;
          acc' = (acc AND 0xFFFF) + drop_bit 16 acc
      in ucast (NOT (acc' + drop_bit 16 acc')))"

fun all_zero :: "bytes \<Rightarrow> bool" where
  "all_zero [] = True"
| "all_zero (x # xs) = (if x \<noteq> 0 then False else all_zero xs)"

definition click_update_zero_in_cksum :: "u16 \<Rightarrow> bytes \<Rightarrow> u16" where
  "click_update_zero_in_cksum csum b =
     (if csum = 0 then (if all_zero b then NOT 0 else csum) else csum)"

section \<open>Specification: one's-complement residues\<close>

fun wsum :: "bytes \<Rightarrow> nat" where
  "wsum (a # b # w) = unat (word16 a b) + wsum w"
| "wsum [a] = unat a"
| "wsum [] = 0"

definition oc :: "nat \<Rightarrow> nat" where
  "oc n = (if n = 0 then 0 else Suc ((n - 1) mod 65535))"

lemma Suc_mod_cancel: "Suc a mod m = Suc b mod m \<Longrightarrow> a mod m = b mod (m :: nat)"
  by (auto simp: mod_Suc split: if_splits)

lemma add_mod_cancel: "(a + c) mod m = (b + c) mod m \<Longrightarrow> a mod m = b mod (m :: nat)"
proof (induction c)
  case (Suc c)
  then show ?case using Suc_mod_cancel [of "a + c" m "b + c"] by simp
qed simp

lemma residue_unique:
  assumes "0 < M" "0 < m" "m \<le> M" "0 < n" "m mod M = n mod (M :: nat)"
  shows "Suc ((n - 1) mod M) = m"
proof -
  obtain m' n' where [simp]: "m = Suc m'" "n = Suc n'"
    using assms by (metis gr0_implies_Suc)
  have "m' mod M = n' mod M"
    using Suc_mod_cancel [of m' M n'] assms(5) by simp
  then show ?thesis using assms(3) by simp
qed

lemma oc_le: "oc n \<le> 65535"
  using mod_less_divisor [of 65535 "n - 1"] by (auto simp: oc_def simp del: mod_less_divisor)

lemma oc_0_iff [simp]: "oc n = 0 \<longleftrightarrow> n = 0"
  by (simp add: oc_def)

lemma oc_mod: "oc n mod 65535 = n mod 65535"
  by (cases n) (simp_all add: oc_def mod_Suc_eq)

lemma oc_add_mod: "(oc n + m) mod 65535 = (n + m) mod 65535"
  by (rule mod_add_cong) (simp_all add: oc_mod)

text \<open>The residue is characterised by its range and its class.\<close>

lemma oc_unique:
  assumes "m \<le> 65535" "m = 0 \<longleftrightarrow> n = 0" "m mod 65535 = n mod 65535"
  shows "oc n = m"
  using residue_unique [of 65535 m n] assms by (auto simp: oc_def)

lemma oc_small: "n \<le> 65535 \<Longrightarrow> oc n = n"
  by (rule oc_unique) auto

lemma oc_cong: "m = 0 \<longleftrightarrow> n = 0 \<Longrightarrow> m mod 65535 = n mod 65535 \<Longrightarrow> oc m = oc n"
  by (metis oc_0_iff oc_le oc_mod oc_unique)

lemma oc_full: "oc n = 65535 \<longleftrightarrow> n \<noteq> 0 \<and> n mod 65535 = 0"
proof
  assume full: "oc n = 65535"
  then have "n mod 65535 = 65535 mod 65535" using oc_mod [of n] by (simp only:)
  moreover have "n \<noteq> 0" using full oc_0_iff [of n] by auto
  ultimately show "n \<noteq> 0 \<and> n mod 65535 = 0" by simp
qed (simp add: oc_unique)

text \<open>One fold keeps the class; two folds of a 32-bit sum leave the residue in the low half.\<close>

lemma fold_mod: "(n mod 65536 + n div 65536) mod 65535 = n mod (65535 :: nat)"
proof -
  define l h where "l = n mod 65536" and "h = n div 65536"
  have "n = l + (h + h * 65535)"
    unfolding l_def h_def using div_mult_mod_eq [of n 65536] by simp
  then have "n mod 65535 = (l + h) mod 65535"
    by (metis add.assoc mod_mult_self1)
  then show ?thesis by (simp add: l_def h_def)
qed

lemma two_folds:
  assumes "n < 4294967296"
  defines "s \<equiv> n mod 65536 + n div 65536"
  shows "(s + s div 65536) mod 65536 = oc n"
proof -
  have s: "s mod 65535 = n mod 65535" unfolding s_def by (rule fold_mod)
  have h: "n div 65536 \<le> 65535" and l: "n mod 65536 \<le> 65535"
    using assms(1) by auto
  have s0: "s = 0 \<longleftrightarrow> n = 0"
    using div_mult_mod_eq [of n 65536] by (auto simp: s_def)
  show ?thesis
  proof (cases "s < 65536")
    case True
    then show ?thesis using oc_unique [of s n] s s0 by simp
  next
    case False
    then have b: "s \<le> 131070" "65536 \<le> s" using h l by (simp_all add: s_def)
    then have d: "s div 65536 = 1" by (simp add: div_nat_eqI)
    have "(s + 1) mod 65536 = s - 65535"
      using b le_mod_geq [of 65536 "s + 1"] by simp
    moreover have "oc n = s - 65535"
    proof (rule oc_unique)
      show "(s - 65535) mod 65535 = n mod 65535"
        using s b le_mod_geq [of 65535 s] by simp
    qed (use b s0 in auto)
    ultimately show ?thesis using d by simp
  qed
qed

section \<open>The code computes the residue\<close>

lemma unat_and_mask16: "unat ((x :: u32) AND 0xFFFF) = unat x mod 65536"
proof -
  have "x AND 0xFFFF = take_bit 16 x"
    by (rule bit_word_eqI) (auto simp: bit_simps take_bit_eq_mask mask_eq_exp_minus_1)
  then show ?thesis by (simp add: take_bit_eq_mod unat_mod)
qed

lemma unat_drop_bit16: "unat (drop_bit 16 (x :: u32)) = unat x div 65536"
  by (simp add: drop_bit_eq_div unat_div)

lemma unat_ucast16_32: "unat (ucast (x :: u16) :: u32) = unat x"
  by (simp add: unsigned_ucast_eq take_bit_nat_eq_self unat_u16_bound [THEN less_trans])

lemma unat_ucast8_32: "unat (ucast (x :: u8) :: u32) = unat x"
  by (simp add: unsigned_ucast_eq take_bit_nat_eq_self unat_u8_bound [THEN less_trans])

lemma unat_not16: "unat (NOT (y :: u16)) = 65535 - unat y"
proof -
  have "NOT y = - 1 - y" by (simp add: not_eq_complement)
  also have "(- 1 :: u16) = 65535" by simp
  finally have "unat (NOT y) = unat (65535 - y)" by simp
  also have "\<dots> = 65535 - unat y"
    using unat_u16_bound [of y] by (subst unat_sub) (auto simp: word_le_nat_alt)
  finally show ?thesis .
qed

lemma unat_ucast_not: "unat (ucast (NOT (x :: u32)) :: u16) = 65535 - unat x mod 65536"
proof -
  have "(ucast (NOT x) :: u16) = NOT (ucast x)"
    by (rule bit_word_eqI) (auto simp: bit_simps)
  moreover have "unat (ucast x :: u16) = unat x mod 65536"
    by (simp add: unsigned_ucast_eq take_bit_eq_mod)
  ultimately show ?thesis by (simp add: unat_not16)
qed

lemma unat_cksum_loop: "unat (cksum_loop acc b) = (unat acc + wsum b) mod 4294967296"
proof (induction acc b rule: cksum_loop.induct)
  case (1 acc a b w)
  then show ?case
    by (simp add: unat_word_ariths unat_ucast16_32 mod_simps add.assoc)
next
  case (2 acc a)
  then show ?case by (simp add: unat_word_ariths unat_ucast8_32)
next
  case (3 acc)
  then show ?case using unat_u32_bound [of acc] by simp
qed

lemma unat_fold_carries: "unat (fold_carries acc) = 65535 - oc (unat acc)"
proof -
  define n where "n = unat acc"
  define s where "s = n mod 65536 + n div 65536"
  have n: "n < 4294967296" unfolding n_def by (rule unat_u32_bound)
  then have s: "s \<le> 131070" unfolding s_def by linarith
  have s1: "unat ((acc AND 0xFFFF) + drop_bit 16 acc) = s"
    using s by (simp add: unat_word_ariths unat_and_mask16 unat_drop_bit16 s_def n_def)
  have "unat (((acc AND 0xFFFF) + drop_bit 16 acc) + drop_bit 16 ((acc AND 0xFFFF) + drop_bit 16 acc))
      = s + s div 65536"
    unfolding unat_word_ariths(1) [of "(acc AND 0xFFFF) + drop_bit 16 acc"] unat_drop_bit16 s1
    using s by simp
  then have "unat (fold_carries acc) = 65535 - (s + s div 65536) mod 65536"
    by (simp add: fold_carries_def Let_def unat_ucast_not)
  then show ?thesis using two_folds [OF n] by (simp add: s_def n_def)
qed

lemma wsum_bound: "wsum b \<le> 65535 * ((length b + 1) div 2)"
proof (induction b rule: wsum.induct)
  case (1 a b w)
  then show ?case using unat_u16_bound [of "word16 a b"] by simp
next
  case (2 a)
  then show ?case using unat_u8_bound [of a] by simp
qed simp

lemma wsum_less: "length b \<le> 65536 \<Longrightarrow> wsum b < 4294967296"
  using wsum_bound [of b] by linarith

theorem click_in_cksum_unat:
  "length b \<le> 65536 \<Longrightarrow> unat (click_in_cksum b) = 65535 - oc (wsum b)"
  using wsum_less [of b] by (simp add: click_in_cksum_def unat_fold_carries unat_cksum_loop)

lemma click_in_cksum_zero_iff:
  assumes "length b \<le> 65536"
  shows "click_in_cksum b = 0 \<longleftrightarrow> wsum b \<noteq> 0 \<and> wsum b mod 65535 = 0"
proof -
  have "click_in_cksum b = 0 \<longleftrightarrow> unat (click_in_cksum b) = 0"
    by (simp add: unat_eq_0)
  also have "\<dots> \<longleftrightarrow> oc (wsum b) = 65535"
    using oc_le [of "wsum b"] by (simp add: click_in_cksum_unat assms)
  also have "\<dots> \<longleftrightarrow> wsum b \<noteq> 0 \<and> wsum b mod 65535 = 0"
    by (rule oc_full)
  finally show ?thesis .
qed

section \<open>Sums of buffers\<close>

lemma wsum_append: "even (length a) \<Longrightarrow> wsum (a @ b) = wsum a + wsum b"
  by (induction a rule: wsum.induct) auto

lemma word16_0 [simp]: "word16 0 0 = 0"
  by (simp add: word16_def)

lemma wsum_zeros [simp]: "wsum (zeros n) = 0"
proof (induction n rule: less_induct)
  case (less n)
  show ?case
  proof (cases n)
    case (Suc m)
    then show ?thesis using less [of "m - 1"] by (cases m) (simp_all add: zeros_def)
  qed (simp add: zeros_def)
qed

lemma wsum_0_iff: "wsum b = 0 \<longleftrightarrow> (\<forall>x \<in> set b. x = 0)"
proof (induction b rule: wsum.induct)
  case (1 a b w)
  have "word16 a b = 0 \<longleftrightarrow> a = 0 \<and> b = 0"
  proof
    assume "word16 a b = 0"
    then have "\<And>n. \<not> bit (word16 a b) n" by simp
    note z = this
    show "a = 0 \<and> b = 0"
    proof
      show "a = 0"
      proof (rule bit_word_eqI)
        fix n assume "n < LENGTH(8)"
        then show "bit a n \<longleftrightarrow> bit 0 n" using z [of n] by (auto simp: word16_def bit_simps)
      qed
      show "b = 0"
      proof (rule bit_word_eqI)
        fix n assume "n < LENGTH(8)"
        then show "bit b n \<longleftrightarrow> bit 0 n" using z [of "n + 8"] by (auto simp: word16_def bit_simps)
      qed
    qed
  qed simp
  then show ?case using 1 by (simp add: unat_eq_0)
qed (simp_all add: unat_eq_0)

lemma word16_split [simp]: "word16 (ucast v) (ucast (drop_bit 8 v)) = v"
  by (rule bit_word_eqI) (auto simp: word16_def bit_simps)

text \<open>Storing a halfword at an even offset exchanges the old halfword for the new in the sum.\<close>

lemma wsum_put16:
  "even k \<Longrightarrow> k + 2 \<le> length b \<Longrightarrow>
   wsum (put16 b k v) + unat (get16 b k) = wsum b + unat v"
proof (induction b arbitrary: k rule: wsum.induct)
  case (1 a c w)
  show ?case
  proof (cases k)
    case 0
    then show ?thesis by (simp add: put16_def get16_def word16_def [symmetric])
  next
    case (Suc k1)
    then obtain k2 where k: "k = Suc (Suc k2)" using 1 by (cases k1) auto
    have "wsum (put16 w k2 v) + unat (get16 w k2) = wsum w + unat v"
      using 1 k by simp
    moreover have "put16 (a # c # w) k v = a # c # put16 w k2 v"
      and "get16 (a # c # w) k = get16 w k2"
      by (simp_all add: k put16_def get16_def)
    ultimately show ?thesis by simp
  qed
qed auto

section \<open>Storing a checksum makes the buffer verify\<close>

text \<open>The receiver's test is that the sum over the whole region is zero.\<close>

lemma complement_mod: "(n + (65535 - oc n)) mod 65535 = 0"
proof -
  have "(n + (65535 - oc n)) mod 65535 = (oc n + (65535 - oc n)) mod 65535"
    by (metis mod_add_left_eq oc_mod)
  then show ?thesis using oc_le [of n] by simp
qed

theorem click_in_cksum_verifies:
  assumes "even k" "k + 2 \<le> length b" "length b \<le> 65536" "get16 b k = 0"
  shows "click_in_cksum (put16 b k (click_in_cksum b)) = 0"
proof -
  define c where "c = click_in_cksum b"
  have c: "unat c = 65535 - oc (wsum b)"
    using click_in_cksum_unat assms(3) by (simp add: c_def)
  have sum: "wsum (put16 b k c) = wsum b + (65535 - oc (wsum b))"
    using wsum_put16 [OF assms(1,2), of c] assms(4) c by simp
  moreover have "wsum b + (65535 - oc (wsum b)) \<noteq> 0"
    by (cases "wsum b = 0") (simp_all add: oc_def)
  ultimately show ?thesis
    using complement_mod [of "wsum b"] assms(3)
    by (simp add: click_in_cksum_zero_iff c_def)
qed

section \<open>The pseudo-header checksum\<close>

definition halves :: "u32 \<Rightarrow> nat" where
  "halves x = unat x mod 65536 + unat x div 65536"

definition pseudo_sum :: "u32 \<Rightarrow> u32 \<Rightarrow> u8 \<Rightarrow> nat \<Rightarrow> nat" where
  "pseudo_sum src dst proto len =
     halves src + halves dst + unat (htons (of_nat len)) + unat (htons (ucast proto))"

lemma halves_le: "halves x \<le> 131070"
  using unat_u32_bound [of x] unfolding halves_def by linarith

lemma pseudo_sum_le: "pseudo_sum src dst proto len \<le> 393210"
  using halves_le [of src] halves_le [of dst] unat_u16_bound [of "htons (of_nat len)"]
    unat_u16_bound [of "htons (ucast proto)"]
  unfolding pseudo_sum_def by linarith

lemma unat_add_u32: "unat a + unat b < 4294967296 \<Longrightarrow> unat (a + b :: u32) = unat a + unat b"
  by (simp add: unat_word_ariths)

lemma unat_csum_complement: "csum \<le> 0xFFFF \<Longrightarrow> unat (NOT (csum :: u32) AND 0xFFFF) = 65535 - unat csum"
proof -
  assume le: "csum \<le> 0xFFFF"
  then have n: "unat csum \<le> 65535" by (simp add: word_le_nat_alt)
  have "unat (ucast (NOT csum) :: u16) = 65535 - unat csum"
    using n by (simp add: unat_ucast_not)
  moreover have "unat (ucast (NOT csum) :: u16) = unat (NOT csum) mod 65536"
    by (simp add: unsigned_ucast_eq take_bit_eq_mod)
  ultimately show ?thesis by (simp add: unat_and_mask16)
qed

lemma ucast_mask16: "(ucast ((x :: u32) AND 0xFFFF) :: u16) = ucast x"
  by (simp add: word_unat_eq_iff unsigned_ucast_eq take_bit_eq_mod unat_and_mask16)

lemma fold_carries_pseudo:
  "(let c4 = (c3 AND 0xFFFF) + drop_bit 16 c3
    in ucast (NOT (c4 + drop_bit 16 c4) AND 0xFFFF) :: u16) = fold_carries c3"
  by (simp add: fold_carries_def Let_def ucast_mask16)

theorem pseudohdr_raw_unat:
  fixes c :: u16
  shows "\<exists>r. click_in_cksum_pseudohdr_raw (ucast c) src dst proto len = Inr r \<and>
     unat r = 65535 - oc ((65535 - unat c) + pseudo_sum src dst proto len)"
proof -
  have le: "(ucast c :: u32) \<le> 0xFFFF"
    using unat_u16_bound [of c] by (simp add: word_le_nat_alt unat_ucast16_32)
  define n where "n = (65535 - unat c) + pseudo_sum src dst proto len"
  have n: "n < 4294967296"
    using pseudo_sum_le [of src dst proto len] unat_u16_bound [of c] unfolding n_def by linarith
  define d where "d = NOT (ucast c :: u32) AND 0xFFFF"
  have d: "unat d = 65535 - unat c"
    using unat_csum_complement [OF le] by (simp only: d_def unat_ucast16_32)
  define c3 where "c3 = d + (src AND 0xFFFF) + drop_bit 16 src
    + (dst AND 0xFFFF) + drop_bit 16 dst + ucast (htons (of_nat len)) + ucast (htons (ucast proto))"
  have "unat c3 = n mod 4294967296"
    unfolding c3_def n_def pseudo_sum_def halves_def
    by (simp add: unat_word_ariths d unat_and_mask16 unat_drop_bit16 unat_ucast16_32 mod_simps
        add.assoc)
  then have c3: "unat c3 = n" using n by simp
  have "click_in_cksum_pseudohdr_raw (ucast c) src dst proto len = Inr (fold_carries c3)"
    using le fold_carries_pseudo [of c3]
    by (simp add: click_in_cksum_pseudohdr_raw_def Let_def c3_def d_def add.assoc)
  then show ?thesis using unat_fold_carries [of c3] by (simp add: c3 n_def)
qed

text \<open>
  Storing the adjusted checksum at an even offset of a transport segment makes the segment
  verify together with its pseudo-header.
\<close>

theorem pseudohdr_verifies:
  assumes "even k" "k + 2 \<le> length b" "length b \<le> 65536" "get16 b k = 0"
    and store: "click_in_cksum_pseudohdr_raw (ucast (click_in_cksum b)) src dst proto len = Inr u"
  shows "click_in_cksum_pseudohdr_raw (ucast (click_in_cksum (put16 b k u))) src dst proto len = Inr 0"
proof -
  define P where "P = pseudo_sum src dst proto len"
  have raw: "65535 - unat (click_in_cksum x) = oc (wsum x)" if "length x \<le> 65536" for x
    using click_in_cksum_unat [OF that] oc_le [of "wsum x"] by simp
  have u: "unat u = 65535 - oc (oc (wsum b) + P)"
    using pseudohdr_raw_unat [of "click_in_cksum b" src dst proto len] store raw [OF assms(3)]
    by (auto simp: P_def)
  define b' where "b' = put16 b k u"
  have len: "length b' \<le> 65536" using assms(3) by (simp add: b'_def)
  have sum: "wsum b' = wsum b + (65535 - oc (oc (wsum b) + P))"
    using wsum_put16 [OF assms(1,2), of u] assms(4) u by (simp add: b'_def)
  obtain r where r: "click_in_cksum_pseudohdr_raw (ucast (click_in_cksum b')) src dst proto len = Inr r"
      "unat r = 65535 - oc (oc (wsum b') + P)"
    using pseudohdr_raw_unat [of "click_in_cksum b'" src dst proto len] raw [OF len]
    by (auto simp: P_def)
  define Y where "Y = 65535 - oc (oc (wsum b) + P)"
  have "(oc (wsum b') + P) mod 65535 = (wsum b + (Y + P)) mod 65535"
    by (simp add: oc_add_mod sum Y_def add.assoc)
  also have "\<dots> = (oc (wsum b) + (Y + P)) mod 65535" by (rule oc_add_mod [symmetric])
  also have "\<dots> = (oc (wsum b) + P + Y) mod 65535" by (simp add: add.commute add.left_commute)
  also have "\<dots> = 0" unfolding Y_def by (rule complement_mod)
  finally have zero: "(oc (wsum b') + P) mod 65535 = 0" .
  have "oc (wsum b') + P \<noteq> 0"
  proof
    assume "oc (wsum b') + P = 0"
    then have "wsum b' = 0" "P = 0" by simp_all
    then show False using sum by (simp add: oc_def split: if_splits)
  qed
  then have "oc (oc (wsum b') + P) = 65535" using zero by (simp add: oc_full)
  then have "r = 0" using r(2) by (simp add: unat_eq_0)
  then show ?thesis using r(1) by (simp add: b'_def)
qed

section \<open>The incremental update\<close>

lemma update_unat:
  "unat (click_update_in_cksum c old new) =
     65535 - oc ((65535 - unat c) + (65535 - unat old) + unat new)"
proof -
  define acc :: u32 where
    "acc = (ucast (NOT c) AND 0xFFFF) + (ucast (NOT old) AND 0xFFFF) + ucast new"
  have mask: "unat ((ucast (NOT x) :: u32) AND 0xFFFF) = 65535 - unat x" for x :: u16
    using unat_u16_bound [of "NOT x"]
    by (simp add: unat_and_mask16 unat_ucast16_32 unat_not16)
  have "unat acc = (65535 - unat c) + (65535 - unat old) + unat new"
    using unat_u16_bound [of new]
    by (simp add: acc_def unat_word_ariths mask unat_ucast16_32)
  moreover have "click_update_in_cksum c old new = fold_carries acc"
    by (simp add: click_update_in_cksum_def fold_carries_def Let_def acc_def)
  ultimately show ?thesis by (simp add: unat_fold_carries)
qed

lemma oc_complement_add:
  assumes "c \<le> 65535" "old \<le> 65535"
  shows "(new + (65535 - oc ((65535 - c) + (65535 - old) + new))) mod 65535 = (c + old) mod 65535"
proof -
  define X where "X = (65535 - c) + (65535 - old) + new"
  have "(X + (65535 - oc X)) mod 65535 = 0" by (rule complement_mod)
  then have "(X + (65535 - oc X) + (c + old)) mod 65535 = (c + old) mod 65535"
    by (metis add_0 mod_add_left_eq)
  moreover have "X + (65535 - oc X) + (c + old) = new + (65535 - oc X) + 2 * 65535"
    using assms by (simp add: X_def)
  ultimately show ?thesis unfolding X_def by (metis mod_mult_self1)
qed

theorem click_update_keeps_verifying:
  assumes k: "even k" "k + 2 \<le> length b" and j: "even j" "j + 2 \<le> length b"
    and jk: "j \<noteq> k" and len: "length b \<le> 65536"
    and valid: "click_in_cksum b = 0"
    and b': "b' = put16 (put16 b j new) k (click_update_in_cksum (get16 b k) (get16 b j) new)"
    and nonzero: "\<exists>x \<in> set b'. x \<noteq> 0"
  shows "click_in_cksum b' = 0"
proof -
  define c old where "c = get16 b k" and "old = get16 b j"
  define c' where "c' = click_update_in_cksum c old new"
  have apart: "k + 2 \<le> j \<or> j + 2 \<le> k" using k(1) j(1) jk by presburger
  have s1: "wsum (put16 b j new) + unat old = wsum b + unat new"
    using wsum_put16 [OF j, of new] by (simp add: old_def)
  have s2: "wsum b' + unat c = wsum (put16 b j new) + unat c'"
    using wsum_put16 [of k "put16 b j new" c'] k apart
    by (simp add: b' c_def old_def c'_def)
  have c': "unat c' = 65535 - oc ((65535 - unat c) + (65535 - unat old) + unat new)"
    by (simp add: c'_def update_unat)
  have bounds: "unat c \<le> 65535" "unat old \<le> 65535"
    using unat_u16_bound [of c] unat_u16_bound [of old] by simp_all
  have eq: "(unat new + unat c') mod 65535 = (unat c + unat old) mod 65535"
    using oc_complement_add [OF bounds, of "unat new"] c' by simp
  have "wsum b' + (unat c + unat old) = wsum b + (unat new + unat c')"
    using s1 s2 by simp
  moreover have "(wsum b + (unat new + unat c')) mod 65535 = (wsum b + (unat c + unat old)) mod 65535"
    by (rule mod_add_cong [OF refl eq])
  ultimately have "wsum b' mod 65535 = wsum b mod 65535"
    by (metis add_mod_cancel)
  moreover have "wsum b' \<noteq> 0" using nonzero by (simp add: wsum_0_iff)
  ultimately show ?thesis
    using valid len by (simp add: click_in_cksum_zero_iff b')
qed

end
