(* ===== verification/Headers.thy ===== *)
theory Headers
  imports Checksum
begin

text \<open>
  Layouts of the headers the elements overlay on packet data: \<^verbatim>\<open>click_ip\<close>
  (\<^verbatim>\<open>include/clicknet/ip.h\<close>), \<^verbatim>\<open>click_udp\<close> (\<^verbatim>\<open>udp.h\<close>) and the four
  messages of the Mobile IP elements.  Each field is the load or store at its offset; the
  argument \<open>h\<close> is where the header begins.  All structs are naturally aligned, so there is no
  padding: \<^verbatim>\<open>sizeof\<close> is 20 for \<^verbatim>\<open>click_ip\<close>, 8 for \<^verbatim>\<open>click_udp\<close>, 28 for the
  advertisement, 8 for the solicitation, 24 for the request and 20 for the reply.
\<close>

section \<open>IP and UDP\<close>

definition sizeof_ip :: nat where "sizeof_ip = 20"

definition sizeof_udp :: nat where "sizeof_udp = 8"

definition sizeof_ether :: nat where "sizeof_ether = 14"

definition sizeof_crc :: nat where "sizeof_crc = 4"

lemmas sizeofs [simp] = sizeof_ip_def sizeof_udp_def sizeof_ether_def sizeof_crc_def

definition ip_hl :: "bytes \<Rightarrow> nat \<Rightarrow> u8" where
  "ip_hl b h = get8 b h AND 0x0F"

definition ip_v :: "bytes \<Rightarrow> nat \<Rightarrow> u8" where
  "ip_v b h = drop_bit 4 (get8 b h)"

definition set_ip_hl :: "bytes \<Rightarrow> nat \<Rightarrow> u8 \<Rightarrow> bytes" where
  "set_ip_hl b h x = put8 b h ((get8 b h AND 0xF0) OR (x AND 0x0F))"

definition set_ip_v :: "bytes \<Rightarrow> nat \<Rightarrow> u8 \<Rightarrow> bytes" where
  "set_ip_v b h x = put8 b h ((get8 b h AND 0x0F) OR push_bit 4 (x AND 0x0F))"

abbreviation "ip_tos b h \<equiv> get8 b (h + 1)"
abbreviation "ip_len b h \<equiv> get16 b (h + 2)"
abbreviation "ip_id b h \<equiv> get16 b (h + 4)"
abbreviation "ip_off b h \<equiv> get16 b (h + 6)"
abbreviation "ip_ttl b h \<equiv> get8 b (h + 8)"
abbreviation "ip_p b h \<equiv> get8 b (h + 9)"
abbreviation "ip_sum b h \<equiv> get16 b (h + 10)"
abbreviation "ip_src b h \<equiv> get32 b (h + 12)"
abbreviation "ip_dst b h \<equiv> get32 b (h + 16)"

abbreviation "set_ip_len b h x \<equiv> put16 b (h + 2) x"
abbreviation "set_ip_id b h x \<equiv> put16 b (h + 4) x"
abbreviation "set_ip_off b h x \<equiv> put16 b (h + 6) x"
abbreviation "set_ip_ttl b h x \<equiv> put8 b (h + 8) x"
abbreviation "set_ip_p b h x \<equiv> put8 b (h + 9) x"
abbreviation "set_ip_sum b h x \<equiv> put16 b (h + 10) x"
abbreviation "set_ip_src b h x \<equiv> put32 b (h + 12) x"
abbreviation "set_ip_dst b h x \<equiv> put32 b (h + 16) x"

abbreviation "uh_sport b h \<equiv> get16 b h"
abbreviation "uh_dport b h \<equiv> get16 b (h + 2)"
abbreviation "uh_ulen b h \<equiv> get16 b (h + 4)"
abbreviation "uh_sum b h \<equiv> get16 b (h + 6)"
abbreviation "set_uh_sport b h x \<equiv> put16 b h x"
abbreviation "set_uh_dport b h x \<equiv> put16 b (h + 2) x"
abbreviation "set_uh_ulen b h x \<equiv> put16 b (h + 4) x"
abbreviation "set_uh_sum b h x \<equiv> put16 b (h + 6) x"

text \<open>Protocol and option constants of \<^verbatim>\<open>ip.h\<close>.\<close>

definition IP_PROTO_ICMP :: u8 where "IP_PROTO_ICMP = 1"
definition IP_PROTO_IPIP :: u8 where "IP_PROTO_IPIP = 4"
definition IP_PROTO_UDP :: u8 where "IP_PROTO_UDP = 17"
definition IPOPT_EOL :: u8 where "IPOPT_EOL = 0"
definition IPOPT_NOP :: u8 where "IPOPT_NOP = 1"
definition IPOPT_RR :: u8 where "IPOPT_RR = 7"
definition IPOPT_TS :: u8 where "IPOPT_TS = 68"
definition IPOPT_LSRR :: u8 where "IPOPT_LSRR = 131"
definition IPOPT_SSRR :: u8 where "IPOPT_SSRR = 137"

lemmas ip_constants [simp] =
  IP_PROTO_ICMP_def IP_PROTO_IPIP_def IP_PROTO_UDP_def IPOPT_EOL_def IPOPT_NOP_def
  IPOPT_RR_def IPOPT_TS_def IPOPT_LSRR_def IPOPT_SSRR_def

section \<open>Checksums over headers\<close>

text \<open>
  The option walk of \<^verbatim>\<open>click_in_cksum_pseudohdr_hard\<close>: it looks for a source-routing
  option and returns its final destination.  Offsets are relative to the packet data.
\<close>

function pseudohdr_opts :: "bytes \<Rightarrow> nat \<Rightarrow> nat \<Rightarrow> u32 option res" where
  "pseudohdr_opts b opt end_opt =
     (if opt < end_opt then
        guard (opt < length b) OutOfBounds
          (if b ! opt = IPOPT_NOP then pseudohdr_opts b (opt + 1) end_opt
           else if b ! opt = IPOPT_EOL then Inr None
           else if end_opt \<le> opt + 1 then Inr None
           else guard (opt + 1 < length b) OutOfBounds
             (let l = unat (b ! (opt + 1)) in
              if l < 2 \<or> end_opt < opt + l then Inr None
              else if (b ! opt = IPOPT_SSRR \<or> b ! opt = IPOPT_LSRR) \<and> 7 \<le> l
                then guard (opt + l \<le> length b) OutOfBounds (Inr (Some (get32 b (opt + l - 4))))
              else pseudohdr_opts b (opt + l) end_opt))
      else Inr None)"
  by pat_completeness auto
termination
  by (relation "measure (\<lambda>(b, opt, end_opt). end_opt - opt)") auto

declare pseudohdr_opts.simps [simp del]

definition click_in_cksum_pseudohdr_hard :: "u32 \<Rightarrow> bytes \<Rightarrow> nat \<Rightarrow> nat \<Rightarrow> u16 res" where
  "click_in_cksum_pseudohdr_hard csum b h packet_len =
     bind_res (pseudohdr_opts b (h + 20) (h + 4 * unat (ip_hl b h))) (\<lambda>final.
       click_in_cksum_pseudohdr_raw csum (ip_src b h)
         (case final of Some daddr \<Rightarrow> daddr | None \<Rightarrow> ip_dst b h) (ip_p b h) packet_len)"

definition click_in_cksum_pseudohdr :: "u32 \<Rightarrow> bytes \<Rightarrow> nat \<Rightarrow> nat \<Rightarrow> u16 res" where
  "click_in_cksum_pseudohdr data_csum b h transport_len =
     (if ip_hl b h = 5
      then click_in_cksum_pseudohdr_raw data_csum (ip_src b h) (ip_dst b h) (ip_p b h) transport_len
      else click_in_cksum_pseudohdr_hard data_csum b h transport_len)"

section \<open>Mobile IP messages\<close>

definition sizeof_adv :: nat where "sizeof_adv = 28"
definition sizeof_soli :: nat where "sizeof_soli = 8"
definition sizeof_req :: nat where "sizeof_req = 24"
definition sizeof_reply :: nat where "sizeof_reply = 20"

lemmas sizeof_messages [simp] = sizeof_adv_def sizeof_soli_def sizeof_req_def sizeof_reply_def

text \<open>The advertisement as a record, with its encoding at an offset.\<close>

record AdvertisementPacketheader =
  ah_type :: u8
  ah_code :: u8
  ah_checksum :: u16
  ah_addressNumbers :: u8
  ah_addrEntrySize :: u8
  ah_lifetime :: u16
  ah_address :: u32
  ah_pref :: u32
  ah_typeEx :: u8
  ah_length :: u8
  ah_sequenceNum :: u16
  ah_lifetimeEx :: u16
  ah_flagsReserved :: u16
  ah_addressEx :: u32

definition read_adv :: "bytes \<Rightarrow> nat \<Rightarrow> AdvertisementPacketheader" where
  "read_adv b h = \<lparr>ah_type = get8 b h, ah_code = get8 b (h + 1), ah_checksum = get16 b (h + 2),
     ah_addressNumbers = get8 b (h + 4), ah_addrEntrySize = get8 b (h + 5),
     ah_lifetime = get16 b (h + 6), ah_address = get32 b (h + 8), ah_pref = get32 b (h + 12),
     ah_typeEx = get8 b (h + 16), ah_length = get8 b (h + 17), ah_sequenceNum = get16 b (h + 18),
     ah_lifetimeEx = get16 b (h + 20), ah_flagsReserved = get16 b (h + 22),
     ah_addressEx = get32 b (h + 24)\<rparr>"

record SolicitationPacketheader =
  sh_type :: u8
  sh_code :: u8
  sh_checksum :: u16
  sh_res :: u32

definition read_soli :: "bytes \<Rightarrow> nat \<Rightarrow> SolicitationPacketheader" where
  "read_soli b h = \<lparr>sh_type = get8 b h, sh_code = get8 b (h + 1), sh_checksum = get16 b (h + 2),
     sh_res = get32 b (h + 4)\<rparr>"

record RegistrationRequestPacketheader =
  rq_type :: u8
  rq_flags :: u8
  rq_lifetime :: u16
  rq_homeAddr :: u32
  rq_homeAgent :: u32
  rq_coAddr :: u32
  rq_id1 :: u32
  rq_id2 :: u32

definition read_req :: "bytes \<Rightarrow> nat \<Rightarrow> RegistrationRequestPacketheader" where
  "read_req b h = \<lparr>rq_type = get8 b h, rq_flags = get8 b (h + 1), rq_lifetime = get16 b (h + 2),
     rq_homeAddr = get32 b (h + 4), rq_homeAgent = get32 b (h + 8), rq_coAddr = get32 b (h + 12),
     rq_id1 = get32 b (h + 16), rq_id2 = get32 b (h + 20)\<rparr>"

record RegistrationRequestReplyPacketheader =
  rp_type :: u8
  rp_code :: u8
  rp_lifetime :: u16
  rp_homeAddr :: u32
  rp_homeAgent :: u32
  rp_id1 :: u32
  rp_id2 :: u32

definition read_reply :: "bytes \<Rightarrow> nat \<Rightarrow> RegistrationRequestReplyPacketheader" where
  "read_reply b h = \<lparr>rp_type = get8 b h, rp_code = get8 b (h + 1), rp_lifetime = get16 b (h + 2),
     rp_homeAddr = get32 b (h + 4), rp_homeAgent = get32 b (h + 8),
     rp_id1 = get32 b (h + 12), rp_id2 = get32 b (h + 16)\<rparr>"

lemmas message_reads = read_adv_def read_soli_def read_req_def read_reply_def

section \<open>Facts about header fields\<close>

lemma set_ip_v_hl_byte:
  "h < length b \<Longrightarrow> get8 b h = 0 \<Longrightarrow> set_ip_hl (set_ip_v b h 4) h 5 = put8 b h 0x45"
  by (simp add: set_ip_v_def set_ip_hl_def put8_def get8_def)

lemma set_ip_hl_v_byte:
  "h < length b \<Longrightarrow> get8 b h = 0 \<Longrightarrow> set_ip_v (set_ip_hl b h 5) h 4 = put8 b h 0x45"
  by (simp add: set_ip_v_def set_ip_hl_def put8_def get8_def)

lemma length_set_ip_hl [simp]: "length (set_ip_hl b h x) = length b"
  and length_set_ip_v [simp]: "length (set_ip_v b h x) = length b"
  by (simp_all add: set_ip_hl_def set_ip_v_def)

text \<open>The option walk stays inside a header that lies inside the packet.\<close>

lemma pseudohdr_opts_total: "end_opt \<le> length b \<Longrightarrow> \<exists>r. pseudohdr_opts b opt end_opt = Inr r"
proof (induction b opt end_opt rule: pseudohdr_opts.induct)
  case (1 b opt end_opt)
  show ?case
    using 1 by (subst pseudohdr_opts.simps) (auto simp: guard_def Let_def)
qed

lemma click_in_cksum_pseudohdr_total:
  fixes c :: u16
  assumes "h + 4 * unat (ip_hl b h) \<le> length b"
  shows "\<exists>r. click_in_cksum_pseudohdr (ucast c) b h n = Inr r"
proof -
  obtain d where "pseudohdr_opts b (h + 20) (h + 4 * unat (ip_hl b h)) = Inr d"
    using pseudohdr_opts_total [OF assms] by blast
  then show ?thesis
    using pseudohdr_raw_unat [of c]
    by (simp add: click_in_cksum_pseudohdr_def click_in_cksum_pseudohdr_hard_def) blast
qed

end
