(* ===== verification/Packets.thy ===== *)
theory Packets
  imports Headers
begin

text \<open>
  The \<^verbatim>\<open>Packet\<close> class at user level (\<^verbatim>\<open>include/click/packet.hh\<close>,
  \<^verbatim>\<open>lib/packet.cc\<close>).  A packet is its buffer split at \<^verbatim>\<open>_data\<close> and
  \<^verbatim>\<open>_tail\<close>: the headroom bytes and the data bytes are kept, the tailroom only as a count,
  since nothing reads it before it is written.  Header pointers are offsets from the start of
  the buffer.  \<open>pk_use_count\<close> and \<open>pk_clone\<close> are \<^verbatim>\<open>_use_count\<close> and
  \<^verbatim>\<open>_data_packet != 0\<close>, on which \<^verbatim>\<open>shared()\<close> depends.  What lies outside the program
  is a parameter: whether an allocation succeeds and what fresh memory holds.
\<close>

datatype PacketType = HOST | BROADCAST | MULTICAST | OTHERHOST | OUTGOING | LOOPBACK | FASTROUTE

record packet =
  pk_head :: bytes
  pk_data :: bytes
  pk_tailroom :: nat
  pk_use_count :: nat
  pk_clone :: bool
  pk_dst_ip :: u32
  pk_paint :: u8
  pk_paramprob :: u8
  pk_fix_ip_src :: u8
  pk_type :: PacketType
  pk_mac :: "nat option"
  pk_nh :: "nat option"
  pk_h :: "nat option"

text \<open>
  The outside world during one call: the contents of fresh memory, which allocations succeed
  (packets by the number of the request within the call, copies made by \<^verbatim>\<open>uniqueify\<close>,
  hash-table elements), and the successive results of \<^verbatim>\<open>rand()\<close>.
\<close>

record environ =
  env_mem :: "nat \<Rightarrow> u8"
  env_packet :: "nat \<Rightarrow> bool"
  env_copy :: bool
  env_elt :: bool
  env_rand :: "nat \<Rightarrow> nat"

section \<open>Accessors\<close>

definition pk_length :: "packet \<Rightarrow> nat" where
  "pk_length p = length (pk_data p)"

definition pk_headroom :: "packet \<Rightarrow> nat" where
  "pk_headroom p = length (pk_head p)"

definition shared :: "packet \<Rightarrow> bool" where
  "shared p \<longleftrightarrow> pk_clone p \<or> 1 < pk_use_count p"

definition CLICK_PACKET_POOL_BUFSIZ :: nat where
  "CLICK_PACKET_POOL_BUFSIZ = 2048"

definition min_buffer_length :: nat where
  "min_buffer_length = 64"

section \<open>Creation\<close>

text \<open>\<^verbatim>\<open>WritablePacket::initialize\<close> and \<^verbatim>\<open>clear_annotations\<close>.\<close>

definition fresh_packet :: "bytes \<Rightarrow> bytes \<Rightarrow> nat \<Rightarrow> packet" where
  "fresh_packet hb dt tr = \<lparr>pk_head = hb, pk_data = dt, pk_tailroom = tr, pk_use_count = 1,
     pk_clone = False, pk_dst_ip = 0, pk_paint = 0, pk_paramprob = 0, pk_fix_ip_src = 0,
     pk_type = HOST, pk_mac = None, pk_nh = None, pk_h = None\<rparr>"

definition default_headroom :: nat where
  "default_headroom = 28"

text \<open>\<^verbatim>\<open>Packet::make\<close> through the packet pool: the buffer has at least
  \<^verbatim>\<open>CLICK_PACKET_POOL_BUFSIZ\<close> bytes, the surplus becoming tailroom.\<close>

definition packet_make ::
  "environ \<Rightarrow> nat \<Rightarrow> nat \<Rightarrow> bytes option \<Rightarrow> nat \<Rightarrow> nat \<Rightarrow> packet option" where
  "packet_make env i headroom src len tailroom =
     (if env_packet env i
      then let n = max (headroom + len + tailroom) CLICK_PACKET_POOL_BUFSIZ in
        Some (fresh_packet (map (env_mem env) [0..<headroom])
          (case src of Some b \<Rightarrow> take len b | None \<Rightarrow> map (env_mem env) [headroom..<headroom + len])
          (n - headroom - len))
      else None)"

section \<open>Copying and moving the data window\<close>

definition shift_anno :: "nat \<Rightarrow> nat option \<Rightarrow> nat option" where
  "shift_anno n = map_option (\<lambda>k. k + n)"

text \<open>
  \<^verbatim>\<open>expensive_uniqueify\<close> for non-negative extra headroom: a private copy of the whole
  buffer.  A packet other references share survives (the caller's reference is dropped).
\<close>

definition expensive_uniqueify :: "environ \<Rightarrow> nat \<Rightarrow> nat \<Rightarrow> packet \<Rightarrow> packet option" where
  "expensive_uniqueify env extra_headroom extra_tailroom p =
     (if env_copy env
      then let hr = pk_headroom p + extra_headroom;
               tr = pk_tailroom p + extra_tailroom;
               n = pk_length p + hr + tr;
               tr' = (if n < min_buffer_length then min_buffer_length - pk_length p - hr else tr)
           in Some (p\<lparr>pk_head := map (env_mem env) [0..<extra_headroom] @ pk_head p,
                pk_tailroom := tr', pk_use_count := 1, pk_clone := False,
                pk_mac := shift_anno extra_headroom (pk_mac p),
                pk_nh := shift_anno extra_headroom (pk_nh p),
                pk_h := shift_anno extra_headroom (pk_h p)\<rparr>)
      else None)"

definition uniqueify :: "environ \<Rightarrow> packet \<Rightarrow> packet option" where
  "uniqueify env p = (if \<not> shared p then Some p else expensive_uniqueify env 0 0 p)"

definition move_data_left :: "nat \<Rightarrow> packet \<Rightarrow> packet" where
  "move_data_left n p = (let k = pk_headroom p - n in
     p\<lparr>pk_head := take k (pk_head p), pk_data := drop k (pk_head p) @ pk_data p\<rparr>)"

definition expensive_push :: "environ \<Rightarrow> nat \<Rightarrow> packet \<Rightarrow> packet option" where
  "expensive_push env nbytes p =
     map_option (move_data_left nbytes) (expensive_uniqueify env ((nbytes + 128) div 4 * 4) 0 p)"

definition packet_push :: "environ \<Rightarrow> nat \<Rightarrow> packet \<Rightarrow> packet option" where
  "packet_push env len p =
     (if len \<le> pk_headroom p \<and> \<not> shared p then Some (move_data_left len p)
      else expensive_push env len p)"

definition nonunique_push :: "environ \<Rightarrow> nat \<Rightarrow> packet \<Rightarrow> packet option" where
  "nonunique_push env len p =
     (if len \<le> pk_headroom p then Some (move_data_left len p) else expensive_push env len p)"

definition packet_pull :: "nat \<Rightarrow> packet \<Rightarrow> packet" where
  "packet_pull len p = (let n = (if pk_length p < len then pk_length p else len) in
     p\<lparr>pk_head := pk_head p @ take n (pk_data p), pk_data := drop n (pk_data p)\<rparr>)"

definition move_tail_right :: "environ \<Rightarrow> nat \<Rightarrow> packet \<Rightarrow> packet" where
  "move_tail_right env n p = p\<lparr>pk_data := pk_data p @ map (env_mem env) [0..<n],
     pk_tailroom := pk_tailroom p - n\<rparr>"

definition packet_put :: "environ \<Rightarrow> nat \<Rightarrow> packet \<Rightarrow> packet option" where
  "packet_put env len p =
     (if len \<le> pk_tailroom p \<and> \<not> shared p then Some (move_tail_right env len p)
      else map_option (move_tail_right env len) (expensive_uniqueify env 0 (len + 128) p))"

definition packet_take :: "nat \<Rightarrow> packet \<Rightarrow> packet" where
  "packet_take len p = (let n = (if pk_length p < len then pk_length p else len) in
     p\<lparr>pk_data := take (pk_length p - n) (pk_data p), pk_tailroom := pk_tailroom p + n\<rparr>)"

definition packet_clone :: "packet \<Rightarrow> packet" where
  "packet_clone p = p\<lparr>pk_use_count := 1, pk_clone := True\<rparr>"

section \<open>Annotations\<close>

definition set_dst_ip_anno :: "u32 \<Rightarrow> packet \<Rightarrow> packet" where
  "set_dst_ip_anno a p = p\<lparr>pk_dst_ip := a\<rparr>"

text \<open>\<^verbatim>\<open>set_network_header\<close>; the offsets count from \<^verbatim>\<open>data()\<close>.\<close>

definition set_network_header :: "nat \<Rightarrow> nat \<Rightarrow> packet \<Rightarrow> packet" where
  "set_network_header off len p =
     p\<lparr>pk_nh := Some (pk_headroom p + off), pk_h := Some (pk_headroom p + off + len)\<rparr>"

definition set_mac_header :: "nat \<Rightarrow> nat \<Rightarrow> packet \<Rightarrow> packet" where
  "set_mac_header off len p =
     p\<lparr>pk_mac := Some (pk_headroom p + off), pk_nh := Some (pk_headroom p + off + len)\<rparr>"

text \<open>Replacing the data in place (a write through \<^verbatim>\<open>WritablePacket::data()\<close>).\<close>

definition with_data :: "packet \<Rightarrow> (bytes \<Rightarrow> bytes) \<Rightarrow> packet" where
  "with_data p f = p\<lparr>pk_data := f (pk_data p)\<rparr>"

section \<open>What an element does\<close>

text \<open>
  The visible acts of a handler, in order: a packet pushed to an output port, a packet killed,
  a timer armed (\<^verbatim>\<open>schedule_after_msec\<close> from now, \<^verbatim>\<open>reschedule_after_msec\<close> from its
  last expiry; the delay is a \<^verbatim>\<open>uint32_t\<close>).
\<close>

datatype action =
    Emit nat packet
  | Kill packet
  | Schedule nat u32
  | Reschedule nat u32

fun emitted :: "action list \<Rightarrow> (nat \<times> packet) list" where
  "emitted [] = []"
| "emitted (Emit n p # as) = (n, p) # emitted as"
| "emitted (a # as) = emitted as"

lemma emitted_append [simp]: "emitted (as @ bs) = emitted as @ emitted bs"
  by (induction as rule: emitted.induct) auto

section \<open>Laws of the packet operations\<close>

lemma pk_length_pull: "n \<le> pk_length p \<Longrightarrow> pk_length (packet_pull n p) = pk_length p - n"
  by (simp add: packet_pull_def pk_length_def)

lemma fresh_packet_sel [simp]:
  "pk_head (fresh_packet hb dt tr) = hb" "pk_data (fresh_packet hb dt tr) = dt"
  "pk_tailroom (fresh_packet hb dt tr) = tr" "pk_use_count (fresh_packet hb dt tr) = 1"
  "pk_clone (fresh_packet hb dt tr) = False" "pk_dst_ip (fresh_packet hb dt tr) = 0"
  "pk_length (fresh_packet hb dt tr) = length dt" "pk_headroom (fresh_packet hb dt tr) = length hb"
  "\<not> shared (fresh_packet hb dt tr)"
  by (simp_all add: fresh_packet_def pk_length_def pk_headroom_def shared_def)

lemma expensive_uniqueify_data:
  "expensive_uniqueify env eh et p = Some q \<Longrightarrow>
     pk_data q = pk_data p \<and> pk_headroom q = pk_headroom p + eh \<and> \<not> shared q \<and>
     drop eh (pk_head q) = pk_head p"
  by (auto simp: expensive_uniqueify_def pk_headroom_def shared_def Let_def split: if_splits)

text \<open>\<^verbatim>\<open>uniqueify\<close> returns an unshared packet with the same data, or fails to allocate.\<close>

lemma uniqueify_Some:
  "uniqueify env p = Some q \<Longrightarrow> pk_data q = pk_data p \<and> \<not> shared q"
  by (auto simp: uniqueify_def dest: expensive_uniqueify_data split: if_splits)

lemma uniqueify_unshared [simp]: "\<not> shared p \<Longrightarrow> uniqueify env p = Some p"
  by (simp add: uniqueify_def)

lemma uniqueify_None: "uniqueify env p = None \<longleftrightarrow> shared p \<and> \<not> env_copy env"
  by (simp add: uniqueify_def expensive_uniqueify_def Let_def)

lemma move_data_left_data:
  "n \<le> pk_headroom p \<Longrightarrow>
     \<exists>pre. length pre = n \<and> pk_data (move_data_left n p) = pre @ pk_data p \<and>
       pk_head p = pk_head (move_data_left n p) @ pre"
  by (rule exI [of _ "drop (pk_headroom p - n) (pk_head p)"])
    (simp add: move_data_left_def Let_def pk_headroom_def)

text \<open>\<^verbatim>\<open>push\<close> prepends exactly the requested bytes, whichever branch it takes.\<close>

theorem packet_push_data:
  assumes "packet_push env n p = Some q"
  shows "\<exists>pre. length pre = n \<and> pk_data q = pre @ pk_data p"
proof (cases "n \<le> pk_headroom p \<and> \<not> shared p")
  case True
  then show ?thesis
    using assms move_data_left_data [of n p] by (auto simp: packet_push_def)
next
  case False
  then obtain r where r: "expensive_uniqueify env ((n + 128) div 4 * 4) 0 p = Some r"
    and q: "q = move_data_left n r"
    using assms by (auto simp: packet_push_def expensive_push_def simp del: split_paired_Ex)
  have "n \<le> (n + 128) div 4 * 4" by presburger
  then have "n \<le> pk_headroom r"
    using expensive_uniqueify_data [OF r] by simp
  then show ?thesis
    using move_data_left_data [of n r] expensive_uniqueify_data [OF r] q by auto
qed

text \<open>\<^verbatim>\<open>pull\<close> undoes \<^verbatim>\<open>push\<close> on the data.\<close>

theorem pull_push:
  assumes "packet_push env n p = Some q"
  shows "pk_data (packet_pull n q) = pk_data p"
  using packet_push_data [OF assms] by (auto simp: packet_pull_def pk_length_def Let_def)

end
