(* ===== verification/Messages.thy ===== *)
theory Messages
  imports Packets
begin

text \<open>
  How the Mobile IP elements build packets: \<^verbatim>\<open>memset\<close>, an IP header with its checksum, and
  either a UDP header with a registration message behind it or an ICMP message.  The stores are
  those of the source; the facts proved here are that the headers' checksums verify at the
  receiver and that every field is read back as it was written.
\<close>

section \<open>Stores of whole messages\<close>

definition put_req :: "bytes \<Rightarrow> nat \<Rightarrow> RegistrationRequestPacketheader \<Rightarrow> bytes" where
  "put_req b h m =
     (let b1 = put8 b h (rq_type m);
          b2 = put8 b1 (h + 1) (rq_flags m);
          b3 = put16 b2 (h + 2) (rq_lifetime m);
          b4 = put32 b3 (h + 4) (rq_homeAddr m);
          b5 = put32 b4 (h + 8) (rq_homeAgent m);
          b6 = put32 b5 (h + 12) (rq_coAddr m);
          b7 = put32 b6 (h + 16) (rq_id1 m)
      in put32 b7 (h + 20) (rq_id2 m))"

definition put_reply :: "bytes \<Rightarrow> nat \<Rightarrow> RegistrationRequestReplyPacketheader \<Rightarrow> bytes" where
  "put_reply b h m =
     (let b1 = put8 b h (rp_type m);
          b2 = put8 b1 (h + 1) (rp_code m);
          b3 = put16 b2 (h + 2) (rp_lifetime m);
          b4 = put32 b3 (h + 4) (rp_homeAddr m);
          b5 = put32 b4 (h + 8) (rp_homeAgent m);
          b6 = put32 b5 (h + 12) (rp_id1 m)
      in put32 b6 (h + 16) (rp_id2 m))"

lemma length_put_req [simp]: "length (put_req b h m) = length b"
  and length_put_reply [simp]: "length (put_reply b h r) = length b"
  by (simp_all add: put_req_def put_reply_def)

lemma read_put_req [simp]: "h + 24 \<le> length b \<Longrightarrow> read_req (put_req b h m) h = m"
  by (simp add: read_req_def put_req_def Let_def)

lemma read_put_reply [simp]: "h + 20 \<le> length b \<Longrightarrow> read_reply (put_reply b h m) h = m"
  by (simp add: read_reply_def put_reply_def Let_def)

lemma take_put_message [simp]:
  "n \<le> h \<Longrightarrow> take n (put_req b h m) = take n b"
  "n \<le> h \<Longrightarrow> take n (put_reply b h r) = take n b"
  by (simp_all add: put_req_def put_reply_def)

lemma get_take_eq:
  assumes "take n b = take n c"
  shows "k + 1 \<le> n \<Longrightarrow> get8 b k = get8 c k" "k + 2 \<le> n \<Longrightarrow> get16 b k = get16 c k"
    "k + 4 \<le> n \<Longrightarrow> get32 b k = get32 c k"
  by (metis f8.get_take assms, metis f16.get_take assms, metis f32.get_take assms)

lemma get_put_message [simp]:
  "k + 1 \<le> h \<Longrightarrow> get8 (put_req b h m) k = get8 b k"
  "k + 2 \<le> h \<Longrightarrow> get16 (put_req b h m) k = get16 b k"
  "k + 4 \<le> h \<Longrightarrow> get32 (put_req b h m) k = get32 b k"
  "k + 1 \<le> h \<Longrightarrow> get8 (put_reply b h r) k = get8 b k"
  "k + 2 \<le> h \<Longrightarrow> get16 (put_reply b h r) k = get16 b k"
  "k + 4 \<le> h \<Longrightarrow> get32 (put_reply b h r) k = get32 b k"
  by (simp_all add: put_req_def put_reply_def)

lemma read_put_before [simp]:
  "k + 2 \<le> h \<Longrightarrow> read_req (put16 b k v) h = read_req b h"
  "k + 2 \<le> h \<Longrightarrow> read_reply (put16 b k v) h = read_reply b h"
  "k + 4 \<le> h \<Longrightarrow> read_req (put32 b k w) h = read_req b h"
  "k + 4 \<le> h \<Longrightarrow> read_reply (put32 b k w) h = read_reply b h"
  by (simp_all add: read_req_def read_reply_def)

section \<open>Headers\<close>

text \<open>The stores into the zeroed \<^verbatim>\<open>click_ip\<close> at the start of the data; \<open>n\<close> is the length of
  the block the checksum is taken over.\<close>

definition ip_stores :: "bytes \<Rightarrow> nat \<Rightarrow> u16 \<Rightarrow> u8 \<Rightarrow> u8 \<Rightarrow> u32 \<Rightarrow> u32 \<Rightarrow> bytes" where
  "ip_stores b len ident proto ttl src dst =
     (let b1 = set_ip_v b 0 4;
          b2 = set_ip_hl b1 0 5;
          b3 = set_ip_len b2 0 (htons (of_nat len));
          b4 = set_ip_id b3 0 ident;
          b5 = set_ip_p b4 0 proto;
          b6 = set_ip_ttl b5 0 ttl;
          b7 = set_ip_src b6 0 src
      in set_ip_dst b7 0 dst)"

definition put_ip_sum :: "nat \<Rightarrow> bytes \<Rightarrow> bytes" where
  "put_ip_sum n b = set_ip_sum b 0 (click_in_cksum (take n b))"

definition udp_stores :: "bytes \<Rightarrow> u16 \<Rightarrow> u16 \<Rightarrow> u16 \<Rightarrow> bytes" where
  "udp_stores b sport dport ulen =
     (let b1 = set_uh_sport b 20 sport;
          b2 = set_uh_dport b1 20 dport
      in set_uh_ulen b2 20 ulen)"

text \<open>\<^verbatim>\<open>udph->uh_sum = click_in_cksum_pseudohdr(click_in_cksum(udph, n), iph, n)\<close>\<close>

definition put_udp_sum :: "nat \<Rightarrow> bytes \<Rightarrow> bytes res" where
  "put_udp_sum n b =
     bind_res (click_in_cksum_pseudohdr (ucast (click_in_cksum (take n (drop 20 b)))) b 0 n)
       (\<lambda>s. Inr (set_uh_sum b 20 s))"

text \<open>A registration message of \<open>n\<close> bytes from zeroed memory.\<close>

definition make_udp_message ::
  "nat \<Rightarrow> u8 \<Rightarrow> u32 \<Rightarrow> u32 \<Rightarrow> u16 \<Rightarrow> u16 \<Rightarrow> (bytes \<Rightarrow> bytes) \<Rightarrow> bytes res" where
  "make_udp_message n ttl src dst sport dport body =
     (let b1 = put_ip_sum 20 (ip_stores (zeros n) n (htons 1) 17 ttl src dst);
          b2 = udp_stores b1 sport dport (htons (of_nat (n - 20)))
      in put_udp_sum (n - 20) (body b2))"

section \<open>What a receiver checks\<close>

definition ip_sum_ok :: "bytes \<Rightarrow> bool" where
  "ip_sum_ok b \<longleftrightarrow> click_in_cksum (take 20 b) = 0"

definition udp_sum_ok :: "bytes \<Rightarrow> bool" where
  "udp_sum_ok b \<longleftrightarrow>
     click_in_cksum_pseudohdr (ucast (click_in_cksum (drop 20 b))) b 0 (length b - 20) = Inr 0"

section \<open>Their correctness\<close>

lemma length_ip_stores [simp]: "length (ip_stores b len ident proto ttl src dst) = length b"
  by (simp add: ip_stores_def)

lemma length_put_ip_sum [simp]: "length (put_ip_sum n b) = length b"
  by (simp add: put_ip_sum_def)

lemma length_udp_stores [simp]: "length (udp_stores b s d u) = length b"
  by (simp add: udp_stores_def)

lemma set_ip_vhl_fields [simp]:
  "1 \<le> k \<Longrightarrow> get8 (set_ip_v b 0 x) k = get8 b k" "1 \<le> k \<Longrightarrow> get16 (set_ip_v b 0 x) k = get16 b k"
  "1 \<le> k \<Longrightarrow> get32 (set_ip_v b 0 x) k = get32 b k" "1 \<le> k \<Longrightarrow> get8 (set_ip_hl b 0 x) k = get8 b k"
  "1 \<le> k \<Longrightarrow> get16 (set_ip_hl b 0 x) k = get16 b k" "1 \<le> k \<Longrightarrow> get32 (set_ip_hl b 0 x) k = get32 b k"
  by (simp_all add: set_ip_v_def set_ip_hl_def)

lemma set_ip_vhl_get:
  assumes "20 \<le> length b"
  shows "ip_hl (set_ip_hl b 0 5) 0 = 5" "ip_v (set_ip_hl b 0 x) 0 = ip_v b 0" "ip_v (set_ip_v b 0 4) 0 = 4"
proof -
  have 5: "((w AND 0xF0) OR 5) AND 0x0F = (5 :: u8)" for w :: u8
  proof -
    have "(w AND 0xF0) AND 0x0F = (0 :: u8)" by (simp add: and.assoc)
    then show ?thesis by (simp add: bit.conj_disj_distrib2)
  qed
  have v: "drop_bit 4 ((w AND 0xF0) OR (x AND 0x0F)) = drop_bit 4 w" for w :: u8
  proof -
    have m: "(0x0F :: u8) = mask 4" "(0xF0 :: u8) = push_bit 4 (mask 4)"
      by (simp_all add: mask_eq_exp_minus_1)
    show ?thesis unfolding m
      by (rule bit_word_eqI) (auto simp: bit_simps dest: bit_imp_le_length)
  qed
  have 4: "drop_bit 4 ((w AND 0x0F) OR push_bit 4 (4 AND 0x0F)) = (4 :: u8)" for w :: u8
  proof -
    have "drop_bit 4 (w AND 0x0F) = drop_bit 4 w AND (0 :: u8)"
      by (simp only: drop_bit_and) simp
    then have "drop_bit 4 (w AND 0x0F) = (0 :: u8)" by simp
    then show ?thesis by (simp add: drop_bit_or)
  qed
  have "0 < length b" using assms by linarith
  note assms = assms this
  show "ip_hl (set_ip_hl b 0 5) 0 = 5" using assms 5 by (simp add: ip_hl_def set_ip_hl_def)
  show "ip_v (set_ip_hl b 0 x) 0 = ip_v b 0" using assms v by (simp add: ip_v_def set_ip_hl_def)
  show "ip_v (set_ip_v b 0 4) 0 = 4" using assms 4 by (simp add: ip_v_def set_ip_v_def)
qed

lemma ip_vhl_put [simp]:
  "1 \<le> k \<Longrightarrow> ip_hl (put8 b k x) 0 = ip_hl b 0" "1 \<le> k \<Longrightarrow> ip_v (put8 b k x) 0 = ip_v b 0"
  "1 \<le> k \<Longrightarrow> ip_hl (put16 b k y) 0 = ip_hl b 0" "1 \<le> k \<Longrightarrow> ip_v (put16 b k y) 0 = ip_v b 0"
  "1 \<le> k \<Longrightarrow> ip_hl (put32 b k z) 0 = ip_hl b 0" "1 \<le> k \<Longrightarrow> ip_v (put32 b k z) 0 = ip_v b 0"
  by (simp_all add: ip_hl_def ip_v_def)

lemma ip_stores_get:
  assumes "20 \<le> length b"
  fixes len ident proto ttl src dst
  defines "c \<equiv> ip_stores b len ident proto ttl src dst"
  shows "ip_v c 0 = 4" "ip_hl c 0 = 5" "get16 c 2 = htons (of_nat len)" "get16 c 4 = ident"
    "get16 c 6 = get16 b 6" "get8 c 8 = ttl" "get8 c 9 = proto" "get16 c 10 = get16 b 10"
    "get32 c 12 = src" "get32 c 16 = dst"
  using assms(1) by (simp_all add: c_def ip_stores_def set_ip_vhl_get)

lemma drop_ip_stores: "20 \<le> n \<Longrightarrow> drop n (ip_stores b len ident proto ttl src dst) = drop n b"
  by (simp add: ip_stores_def set_ip_v_def set_ip_hl_def Let_def)

lemma put_ip_sum_get [simp]:
  "k + 1 \<le> 10 \<or> 12 \<le> k \<Longrightarrow> get8 (put_ip_sum n b) k = get8 b k"
  "k + 2 \<le> 10 \<or> 12 \<le> k \<Longrightarrow> get16 (put_ip_sum n b) k = get16 b k"
  "k + 4 \<le> 10 \<or> 12 \<le> k \<Longrightarrow> get32 (put_ip_sum n b) k = get32 b k"
  "ip_v (put_ip_sum n b) 0 = ip_v b 0" "ip_hl (put_ip_sum n b) 0 = ip_hl b 0"
  by (simp_all add: put_ip_sum_def)

lemma put_ip_sum_ok:
  assumes "20 \<le> length b" "get16 b 10 = 0"
  shows "ip_sum_ok (put_ip_sum 20 b)"
  using click_in_cksum_verifies [of 10 "take 20 b"] assms
  by (simp add: ip_sum_ok_def put_ip_sum_def)

lemma ip_sum_ok_cong: "take 20 b = take 20 c \<Longrightarrow> ip_sum_ok b = ip_sum_ok c"
  by (simp add: ip_sum_ok_def)

lemma udp_stores_get:
  assumes "28 \<le> length b"
  fixes s d u
  defines "c \<equiv> udp_stores b s d u"
  shows "get16 c 20 = s" "get16 c 22 = d" "get16 c 24 = u" "get16 c 26 = get16 b 26"
    "take 20 c = take 20 b"
  using assms(1) by (simp_all add: c_def udp_stores_def)

lemma ip_hl_take: "1 \<le> n \<Longrightarrow> ip_hl (take n b) 0 = ip_hl b 0"
  by (simp add: ip_hl_def)

text \<open>With a header of 20 bytes the checksum is computed, stored, and verifies.\<close>

lemma put_udp_sum_ok:
  assumes len: "28 \<le> length b" "length b \<le> 65535" and hl: "ip_hl b 0 = 5" and z: "get16 b 26 = 0"
  shows "\<exists>s. put_udp_sum (length b - 20) b = Inr (put16 b 26 s) \<and> udp_sum_ok (put16 b 26 s)"
proof -
  let ?d = "drop 20 b" and ?n = "length b - 20"
  let ?raw = "\<lambda>c. click_in_cksum_pseudohdr_raw c (get32 b 12) (get32 b 16) (get8 b 9) ?n"
  obtain s where s: "?raw (ucast (click_in_cksum ?d)) = Inr s"
    using pseudohdr_raw_unat [of "click_in_cksum ?d"] by blast
  have "get16 ?d 6 = 0" using z len by simp
  then have "?raw (ucast (click_in_cksum (put16 ?d 6 s))) = Inr 0"
    using pseudohdr_verifies [of 6 ?d] s len by simp
  moreover have "drop 20 (put16 b 26 s) = put16 ?d 6 s"
    using f16.put_append by (simp add: put16_def drop_update_swap)
  ultimately show ?thesis
    using s hl by (intro exI [of _ s])
      (simp add: put_udp_sum_def click_in_cksum_pseudohdr_def udp_sum_ok_def)
qed

text \<open>The generic contract of a built registration message.\<close>

lemma make_udp_message_ok:
  assumes n: "28 \<le> n" "n \<le> 65535"
    and body: "\<And>b. length (body b) = length b" "\<And>b. take 28 (body b) = take 28 b"
  shows "\<exists>b s. make_udp_message n ttl src dst sport dport body = Inr (put16 (body b) 26 s) \<and>
    length b = n \<and> ip_sum_ok (put16 (body b) 26 s) \<and> udp_sum_ok (put16 (body b) 26 s) \<and>
    ip_v (body b) 0 = 4 \<and> ip_hl (body b) 0 = 5 \<and> get16 (body b) 2 = htons (of_nat n) \<and>
    get8 (body b) 8 = ttl \<and> get8 (body b) 9 = 17 \<and> get32 (body b) 12 = src \<and>
    get32 (body b) 16 = dst \<and> get16 (body b) 20 = sport \<and> get16 (body b) 22 = dport \<and>
    get16 (body b) 24 = htons (of_nat (n - 20))"
proof -
  let ?i = "ip_stores (zeros n) n (htons 1) 17 ttl src dst"
  define b where "b = udp_stores (put_ip_sum 20 ?i) sport dport (htons (of_nat (n - 20)))"
  have n20: "20 \<le> n" using n by linarith
  note [simp] = get_take_eq [OF body(2)] n n20
  have len: "length b = n" by (simp add: b_def)
  have fields: "ip_v b 0 = 4" "ip_hl b 0 = 5" "get16 b 2 = htons (of_nat n)" "get8 b 8 = ttl"
      "get8 b 9 = 17" "get32 b 12 = src" "get32 b 16 = dst"
    by (simp_all add: b_def udp_stores_def ip_stores_get)
  have ports: "get16 b 20 = sport" "get16 b 22 = dport" "get16 b 24 = htons (of_nat (n - 20))"
    by (simp_all add: b_def udp_stores_get)
  have "get16 ?i 26 = get16 (drop 20 ?i) 6" by simp
  also have "\<dots> = 0" by (simp only: drop_ip_stores order_refl) simp
  finally have z: "get16 b 26 = 0" by (simp add: b_def udp_stores_get)
  have hl: "ip_hl (body b) 0 = 5" "ip_v (body b) 0 = 4" using fields by (simp_all add: ip_hl_def ip_v_def)
  obtain s where s: "put_udp_sum (n - 20) (body b) = Inr (put16 (body b) 26 s)"
      "udp_sum_ok (put16 (body b) 26 s)"
    using put_udp_sum_ok [of "body b"] hl z len by (auto simp: body(1))
  have sum: "ip_sum_ok (put_ip_sum 20 ?i)"
    using n by (intro put_ip_sum_ok) (simp_all add: ip_stores_get del: n)
  have "take 20 (put16 (body b) 26 s) = take 20 (take 28 (body b))" by simp
  also have "\<dots> = take 20 (put_ip_sum 20 ?i)"
    by (simp only: body(2)) (simp add: b_def udp_stores_get)
  finally have "ip_sum_ok (put16 (body b) 26 s)"
    using sum by (simp only: ip_sum_ok_def)
  then show ?thesis
    using s len hl fields ports
    unfolding make_udp_message_def Let_def b_def [symmetric]
    by (intro exI [of _ b] exI [of _ s]) simp
qed

end
