(* ===== verification/Lifetimes.thy ===== *)
theory Lifetimes
  imports Prelude
begin

text \<open>
  The one-second countdowns.  Bindings, visitor entries, pending requests and advertisements
  all carry a lifetime in network byte order that a timer lowers by \<^verbatim>\<open>htons(1)\<close>.  Two orders
  occur: lower and then drop at zero, or drop at zero and else lower.  The locale \<open>expiring\<close> is
  the contract of a store whose timer does this to each entry; its consequences, exact expiry
  below 256 seconds and none at or above, are proved once.
\<close>

definition dec_drop :: "u16 \<Rightarrow> u16 option" where
  "dec_drop l = (let l' = tick16 l in if l' = 0 then None else Some l')"

definition drop_dec :: "u16 \<Rightarrow> u16 option" where
  "drop_dec l = (if l = 0 then None else Some (tick16 l))"

definition seconds :: "u16 \<Rightarrow> nat" where
  "seconds l = unat (ntohs l)"

primrec life_after :: "(u16 \<Rightarrow> u16 option) \<Rightarrow> nat \<Rightarrow> u16 \<Rightarrow> u16 option" where
  "life_after f 0 l = Some l"
| "life_after f (Suc n) l = (case f l of None \<Rightarrow> None | Some l' \<Rightarrow> life_after f n l')"

lemma seconds_0 [simp]: "seconds 0 = 0"
  by (simp add: seconds_def)

lemma seconds_eq_0 [simp]: "seconds l = 0 \<longleftrightarrow> l = 0"
  by (simp add: seconds_def unat_eq_0)

lemma seconds_inject [simp]: "seconds l = seconds l' \<longleftrightarrow> l = l'"
  unfolding seconds_def by (metis htons_htons unsigned_word_eqI)

lemma seconds_bound: "seconds l < 65536"
  using unat_u16_bound [of "ntohs l"] by (simp add: seconds_def)

lemma seconds_htons [simp]: "n < 65536 \<Longrightarrow> seconds (htons (of_nat n)) = n"
  by (simp add: seconds_def unat_of_nat)

lemma seconds_tick:
  "seconds (tick16 l) = (if seconds l mod 256 = 0 then seconds l + 255 else seconds l - 1)"
  using ntohs_tick16 [of l] by (simp add: seconds_def)

lemma seconds_tick_small: "0 < seconds l \<Longrightarrow> seconds l < 256 \<Longrightarrow> seconds (tick16 l) = seconds l - 1"
  by (auto simp: seconds_tick)

text \<open>The high byte never changes.\<close>

lemma seconds_tick_high: "seconds (tick16 l) div 256 = seconds l div 256"
proof (cases "seconds l mod 256 = 0")
  case True
  then obtain q where "seconds l = q * 256" by (metis mod_0_imp_dvd dvd_mult_div_cancel mult.commute)
  then show ?thesis by (simp add: seconds_tick)
next
  case False
  then have "seconds l = seconds l div 256 * 256 + seconds l mod 256" and "0 < seconds l mod 256"
    by simp_all
  then have "seconds l - 1 = seconds l div 256 * 256 + (seconds l mod 256 - 1)"
    and "seconds l mod 256 - 1 < 256" by linarith+
  then have "(seconds l - 1) div 256 = seconds l div 256"
    by (metis add.commute add_eq_0_iff_both_eq_0 div_less div_mult_self1 mult.commute nat.simps(3)
      numeral_eq_Suc add_cancel_left_left)
  then show ?thesis using False by (simp add: seconds_tick)
qed

lemma unat_seconds: "unat l = (seconds l mod 256) * 256 + seconds l div 256"
  using htons_unat [of "htons l"] by (simp add: seconds_def)

lemma tick_long: "256 \<le> seconds l \<Longrightarrow> 256 \<le> seconds (tick16 l)"
  using seconds_tick_high [of l] div_le_mono [of 256 "seconds l" 256]
  by (metis div_less less_numeral_extra(3) linorder_not_le zero_less_one div_self not_one_le_zero
      zero_neq_numeral)

lemma tick_not_0: "256 \<le> seconds l \<Longrightarrow> tick16 l \<noteq> 0"
  using tick_long [of l] by (metis not_numeral_le_zero seconds_0)

lemma dec_drop_small:
  assumes "0 < seconds l" "seconds l < 256"
  shows "dec_drop l = (if seconds l = 1 then None else Some (tick16 l))"
  using seconds_tick_small [OF assms] assms by (auto simp: dec_drop_def Let_def simp flip: seconds_eq_0)

theorem life_after_dec_drop:
  assumes "0 < seconds l" "seconds l < 256"
  shows "map_option seconds (life_after dec_drop n l) = (if n < seconds l then Some (seconds l - n) else None)"
  using assms
proof (induction n arbitrary: l)
  case (Suc n)
  show ?case
  proof (cases "seconds l = 1")
    case True
    then show ?thesis using Suc.prems by (simp add: dec_drop_small)
  next
    case False
    then show ?thesis
      using Suc.prems Suc.IH [of "tick16 l"] by (auto simp: dec_drop_small seconds_tick_small)
  qed
qed simp

theorem life_after_drop_dec:
  assumes "seconds l < 256"
  shows "map_option seconds (life_after drop_dec n l) = (if n \<le> seconds l then Some (seconds l - n) else None)"
  using assms
proof (induction n arbitrary: l)
  case (Suc n)
  show ?case
  proof (cases "l = 0")
    case True
    then show ?thesis by (simp add: drop_dec_def)
  next
    case False
    then have "0 < seconds l" by (metis gr0I seconds_eq_0)
    then show ?thesis
      using False Suc.prems Suc.IH [of "tick16 l"] by (auto simp: drop_dec_def seconds_tick_small)
  qed
qed simp

theorem life_after_long:
  assumes "256 \<le> seconds l"
  shows "life_after dec_drop n l \<noteq> None" "life_after drop_dec n l \<noteq> None"
  using assms
proof (induction n arbitrary: l)
  case (Suc n)
  {
    case 1
    then show ?case using Suc.IH(1) [OF tick_long] tick_not_0 by (simp add: dec_drop_def Let_def)
  next
    case 2
    then have "l \<noteq> 0" by auto
    then show ?case using 2 Suc.IH(2) [OF tick_long] by (simp add: drop_dec_def)
  }
qed simp_all

section \<open>The contract of an expiring store\<close>

text \<open>Successive runs of a timer handler.\<close>

primrec run_ticks :: "('e \<Rightarrow> 's \<Rightarrow> 's res) \<Rightarrow> 'e list \<Rightarrow> 's \<Rightarrow> 's res" where
  "run_ticks tick [] s = Inr s"
| "run_ticks tick (e # es) s = bind_res (tick e s) (run_ticks tick es)"

text \<open>
  \<open>tick e s\<close> is one run of the timer handler; \<open>e\<close> is what it takes from outside, \<open>good\<close> what it
  needs of it.
\<close>

locale expiring =
  fixes life :: "'s \<Rightarrow> 'k \<Rightarrow> u16 option"
    and tick :: "'e \<Rightarrow> 's \<Rightarrow> 's res"
    and good :: "'e \<Rightarrow> bool"
    and inv :: "'s \<Rightarrow> bool"
    and step :: "u16 \<Rightarrow> u16 option"
  assumes tick_ok: "inv s \<Longrightarrow> good e \<Longrightarrow>
      \<exists>s'. tick e s = Inr s' \<and> inv s' \<and> (\<forall>k. life s' k = Option.bind (life s k) step)"
begin

lemma ticks_life:
  assumes "inv s" "list_all good es"
  shows "\<exists>s'. run_ticks tick es s = Inr s' \<and> inv s' \<and>
    (\<forall>k. life s' k = Option.bind (life s k) (life_after step (length es)))"
  using assms
proof (induction es arbitrary: s)
  case Nil
  then show ?case by (auto split: Option.bind_splits)
next
  case (Cons e es)
  then obtain s1 where s1: "tick e s = Inr s1" "inv s1" "\<forall>k. life s1 k = Option.bind (life s k) step"
    using tick_ok by (metis list.pred_inject(2))
  moreover obtain s' where "run_ticks tick es s1 = Inr s'" "inv s'"
      "\<forall>k. life s' k = Option.bind (life s1 k) (life_after step (length es))"
    using Cons.IH [OF s1(2)] Cons.prems(2) by auto
  ultimately show ?case by (auto split: option.splits Option.bind_splits)
qed

end

end
