(* ===== verification/AgentBase.thy ===== *)
theory AgentBase
  imports HashTable Vectors Messages Lifetimes
begin

text \<open>
  \<^verbatim>\<open>agentBase.hh/.cc\<close>: the state a home and a foreign agent share.  All elements of one
  router hold a pointer to the same \<^verbatim>\<open>AgentBase\<close>; here the record is passed through every
  handler.  The invariant \<open>agent_inv\<close> ties the binding table to the address list the timer walks
  and bounds the pending requests.
\<close>

section \<open>Data\<close>

type_synonym ether_addr = "48 word"

record listItem =
  li_ethSrc :: ether_addr
  li_ipSrc :: u32
  li_ipDst :: u32
  li_udpSrc :: u16
  li_udpDst :: u16
  li_homeAgent :: u32
  li_id1 :: u32
  li_id2 :: u32
  li_lifetimeReq :: u16
  li_lifetimeRem :: u16

record HARegistrationEntry =
  mobile_node_homadress :: u32
  mobile_node_coa :: u32
  re_lifetime :: u16
  re_id1 :: u32
  re_id2 :: u32

type_synonym RegistrationTable = "HARegistrationEntry hashmap"

record AgentBase =
  maxRequests :: int
  lifetimeReg :: int
  public_addr :: u32
  private_addr :: u32
  registrationReq :: "listItem list"
  visitorMap :: "listItem list"
  reg_table :: RegistrationTable
  reg_list :: "u32 list"

text \<open>The constructor leaves the numbers indeterminate: \<open>m\<close> and \<open>l\<close> stand for what they hold.\<close>

definition AgentBase_new :: "int \<Rightarrow> int \<Rightarrow> AgentBase" where
  "AgentBase_new m l = \<lparr>maxRequests = m, lifetimeReg = l, public_addr = 0, private_addr = 0,
     registrationReq = [], visitorMap = [], reg_table = hm_new, reg_list = []\<rparr>"

section \<open>Operations\<close>

text \<open>\<^verbatim>\<open>configure\<close> on the values \<^verbatim>\<open>Args\<close> read from the configuration string, \<open>None\<close> when it
  rejects it.\<close>

definition AgentBase_configure :: "(u32 \<times> u32 \<times> int) option \<Rightarrow> AgentBase \<Rightarrow> int \<times> AgentBase" where
  "AgentBase_configure conf a = (case conf of
       None \<Rightarrow> (- 1, a)
     | Some (pubaddr, privaddr, lfreg) \<Rightarrow>
         (0, a\<lparr>public_addr := pubaddr, private_addr := privaddr, lifetimeReg := lfreg,
               maxRequests := 5\<rparr>))"

fun any_item :: "(listItem \<Rightarrow> bool) \<Rightarrow> listItem list \<Rightarrow> bool" where
  "any_item P [] = False"
| "any_item P (it # its) = (if P it then True else any_item P its)"

definition inMapHome :: "AgentBase \<Rightarrow> u32 \<Rightarrow> bool" where
  "inMapHome a home = any_item (\<lambda>it. li_homeAgent it = home) (visitorMap a)"

definition inPendingHome :: "AgentBase \<Rightarrow> u32 \<Rightarrow> bool" where
  "inPendingHome a home = any_item (\<lambda>it. li_homeAgent it = home) (registrationReq a)"

definition inMapNode :: "AgentBase \<Rightarrow> u32 \<Rightarrow> bool" where
  "inMapNode a node = any_item (\<lambda>it. li_ipSrc it = node) (visitorMap a)"

definition inPendingNode :: "AgentBase \<Rightarrow> u32 \<Rightarrow> bool" where
  "inPendingNode a node = any_item (\<lambda>it. li_ipSrc it = node) (registrationReq a)"

definition isHome :: "AgentBase \<Rightarrow> u32 \<Rightarrow> bool" where
  "isHome a addr = (case hm_find_pair (reg_table a) addr of None \<Rightarrow> True | Some _ \<Rightarrow> False)"

section \<open>Abstraction and invariant\<close>

text \<open>What the agent knows: the bindings of absent nodes and the visitors present.\<close>

definition bindings :: "AgentBase \<Rightarrow> u32 \<Rightarrow> HARegistrationEntry option" where
  "bindings a = hm_find_pair (reg_table a)"

definition bindings_inv :: "AgentBase \<Rightarrow> bool" where
  "bindings_inv a \<longleftrightarrow> hm_invar (reg_table a) \<and> distinct (reg_list a) \<and>
     set (reg_list a) = dom (bindings a) \<and>
     (\<forall>k e. bindings a k = Some e \<longrightarrow> mobile_node_homadress e = k)"

definition visitors_inv :: "AgentBase \<Rightarrow> bool" where
  "visitors_inv a \<longleftrightarrow> distinct (map li_ipSrc (visitorMap a)) \<and>
     int (length (registrationReq a)) \<le> maxRequests a"

definition agent_inv :: "AgentBase \<Rightarrow> bool" where
  "agent_inv a \<longleftrightarrow> bindings_inv a \<and> visitors_inv a"

lemma any_item_iff: "any_item P its \<longleftrightarrow> (\<exists>it \<in> set its. P it)"
  by (induction its) auto

lemma inMapNode_iff: "inMapNode a n \<longleftrightarrow> n \<in> li_ipSrc ` set (visitorMap a)"
  by (auto simp: inMapNode_def any_item_iff)

lemma inPendingNode_iff: "inPendingNode a n \<longleftrightarrow> n \<in> li_ipSrc ` set (registrationReq a)"
  by (auto simp: inPendingNode_def any_item_iff)

lemma isHome_iff: "isHome a k \<longleftrightarrow> bindings a k = None"
  by (simp add: isHome_def bindings_def split: option.splits)

lemma bindings_invD:
  assumes "bindings_inv a"
  shows "hm_invar (reg_table a)" "distinct (reg_list a)" "set (reg_list a) = dom (bindings a)"
    "bindings a k = Some e \<Longrightarrow> mobile_node_homadress e = k"
  using assms by (auto simp: bindings_inv_def)

lemma agent_inv_configured:
  "snd (AgentBase_configure (Some conf) (AgentBase_new m l)) = a \<Longrightarrow>
     agent_inv a \<and> bindings a = Map.empty \<and> maxRequests a = 5"
  by (cases conf)
    (auto simp: AgentBase_configure_def AgentBase_new_def agent_inv_def bindings_inv_def visitors_inv_def
      bindings_def hm_new_ok)

text \<open>A configured agent and an environment in which every allocation succeeds.\<close>

definition configured :: "u32 \<Rightarrow> u32 \<Rightarrow> int \<Rightarrow> AgentBase" where
  "configured pub priv lfreg = snd (AgentBase_configure (Some (pub, priv, lfreg)) (AgentBase_new 0 0))"

lemma configured_inv: "agent_inv (configured pub priv l)" "maxRequests (configured pub priv l) = 5"
  using agent_inv_configured [of "(pub, priv, l)" 0 0] by (simp_all add: configured_def)

lemma configured_sel [simp]:
  "registrationReq (configured p q l) = []" "visitorMap (configured p q l) = []"
  "public_addr (configured p q l) = p" "private_addr (configured p q l) = q"
  "lifetimeReg (configured p q l) = l" "maxRequests (configured p q l) = 5"
  "bindings (configured p q l) = Map.empty" "reg_list (configured p q l) = []"
  by (simp_all add: configured_def AgentBase_configure_def AgentBase_new_def bindings_def hm_new_ok)

definition sample_env :: environ where
  "sample_env = \<lparr>env_mem = (\<lambda>_. 0), env_packet = (\<lambda>_. True), env_copy = True, env_elt = True,
     env_rand = (\<lambda>n. n + 7)\<rparr>"

lemma sample_env_sel [simp]:
  "env_packet sample_env = (\<lambda>_. True)" "env_copy sample_env" "env_elt sample_env"
  by (simp_all add: sample_env_def)

text \<open>A packet without options around a registration request.\<close>

definition request_packet :: "RegistrationRequestPacketheader \<Rightarrow> packet" where
  "request_packet m = fresh_packet [] (put_req (put8 (zeros 52) 0 0x45) 28 m) 0"

lemma request_packet_sel [simp]:
  "pk_length (request_packet m) = 52" "length (pk_data (request_packet m)) = 52"
  "read_req (pk_data (request_packet m)) 28 = m" "\<not> shared (request_packet m)"
  "ip_hl (pk_data (request_packet m)) 0 = 5"
  by (simp_all add: request_packet_def ip_hl_def)

end
