(* ===== verification/HomeAgent.thy ===== *)
theory HomeAgent
  imports AgentBase
begin

text \<open>
  \<^verbatim>\<open>registrationRequestReply.cc\<close>: the home agent's registration handler and its
  one-second timer.  A handler takes the shared agent and returns it updated with its actions,
  or the fault the C++ would run into.  The bindings of the agent refine a map: registration,
  deregistration and the timer act on it as \<open>ha_register\<close>, \<open>ha_deregister\<close> and \<open>ha_expire\<close>.
\<close>

section \<open>The code\<close>

definition RegistrationRequestReply_configure :: "bool \<Rightarrow> int \<times> action list" where
  "RegistrationRequestReply_configure args_ok =
     (if \<not> args_ok then (- 1, []) else (0, [Reschedule 0 1000]))"

definition ha_validatePacket :: "AgentBase \<Rightarrow> bytes \<Rightarrow> u16" where
  "ha_validatePacket a b =
     (let format = read_req b 28; flags = rq_flags format in
      if flags AND 1 \<noteq> 0 \<or> drop_bit 2 flags AND 1 \<noteq> 0 then 134
      else if drop_bit 5 flags AND 1 \<noteq> 0 then 128
      else if rq_homeAgent format \<noteq> public_addr a then 136
      else 0)"

text \<open>Whether the request repeats the binding held, and that binding's lifetime.\<close>

definition ha_duplicate :: "AgentBase \<Rightarrow> RegistrationRequestPacketheader \<Rightarrow> u16 option res" where
  "ha_duplicate a format =
     (if \<not> isHome a (rq_homeAddr format)
      then case hm_find_pair (reg_table a) (rq_homeAddr format) of
          None \<Rightarrow> Inl NullDeref
        | Some v \<Rightarrow> Inr (if re_id1 v = rq_id1 format \<and> re_id2 v = rq_id2 format \<and>
              mobile_node_homadress v = rq_homeAddr format \<and> mobile_node_coa v = rq_coAddr format
            then Some (re_lifetime v) else None)
      else Inr None)"

definition ha_reply_data :: "bytes \<Rightarrow> u16 \<Rightarrow> u16 option \<Rightarrow> bytes res" where
  "ha_reply_data b code dup =
     (let format = read_req b 28 in
      make_udp_message 48 64 (ip_dst b 0) (ip_src b 0) (uh_dport b 20) (uh_sport b 20)
        (\<lambda>c. put_reply c 28
           \<lparr>rp_type = 3, rp_code = ucast code,
            rp_lifetime = (case dup of Some l \<Rightarrow> l | None \<Rightarrow> rq_lifetime format),
            rp_homeAddr = rq_homeAddr format, rp_homeAgent = rq_homeAgent format,
            rp_id1 = rq_id1 format, rp_id2 = rq_id2 format\<rparr>))"

definition ha_entry :: "RegistrationRequestPacketheader \<Rightarrow> HARegistrationEntry" where
  "ha_entry format = \<lparr>mobile_node_homadress = rq_homeAddr format,
     mobile_node_coa = rq_coAddr format, re_lifetime = rq_lifetime format,
     re_id1 = rq_id1 format, re_id2 = rq_id2 format\<rparr>"

fun ip_found :: "u32 \<Rightarrow> u32 list \<Rightarrow> bool" where
  "ip_found x [] = False"
| "ip_found x (y # ys) = (if y = x then True else ip_found x ys)"

definition ha_update :: "environ \<Rightarrow> RegistrationRequestPacketheader \<Rightarrow> AgentBase \<Rightarrow> AgentBase" where
  "ha_update env format a =
     (if 0 < rq_lifetime format
      then let a1 = a\<lparr>reg_table :=
                 snd (hm_insert (env_elt env) (rq_homeAddr format) (ha_entry format) (reg_table a))\<rparr>
           in if \<not> ip_found (rq_homeAddr format) (reg_list a1)
              then a1\<lparr>reg_list := vec_push_back (reg_list a1) (rq_homeAddr format)\<rparr>
              else a1
      else if \<not> isHome a (rq_homeAddr format)
        then a\<lparr>reg_table := snd (hm_erase (rq_homeAddr format) (reg_table a)),
               reg_list := erase_first (\<lambda>y. y = rq_homeAddr format) 0 (reg_list a)\<rparr>
        else a)"

definition RegistrationRequestReply_push ::
  "environ \<Rightarrow> AgentBase \<Rightarrow> packet \<Rightarrow> (AgentBase \<times> action list) res" where
  "RegistrationRequestReply_push env a p =
     (if pk_length p < sizeof_ip + sizeof_udp + sizeof_req then Inr (a, [Kill p])
      else let b = pk_data p; format = read_req b 28 in
        if rq_type format \<noteq> 1 then Inr (a, [Kill p])
        else let code = ha_validatePacket a b in
          bind_res (ha_duplicate a format) (\<lambda>dup.
            case packet_make env 0 (sizeof_ether + sizeof_crc) None (sizeof_reply + sizeof_ip + sizeof_udp) 0 of
              None \<Rightarrow> Inr (a, [])
            | Some packet \<Rightarrow> bind_res (ha_reply_data b code dup) (\<lambda>d.
                let packet1 = set_dst_ip_anno (ip_src b 0) (with_data packet (\<lambda>_. d)) in
                if code = 0 \<or> code = 1
                then Inr (ha_update env format a,
                  [Emit (if 0 < rq_lifetime format then 0 else 1) packet1])
                else Inr (a, []))))"

definition ha_timer_body ::
  "u32 \<Rightarrow> RegistrationTable \<Rightarrow> (u32 option \<times> RegistrationTable) res" where
  "ha_timer_body k t = (case hm_find_pair t k of
       None \<Rightarrow> Inl NullDeref
     | Some v \<Rightarrow>
         let v1 = v\<lparr>re_lifetime := tick16 (re_lifetime v)\<rparr>; t1 = hm_write k v1 t in
         if re_lifetime v1 = 0 then Inr (None, snd (hm_erase k t1)) else Inr (Some k, t1))"

definition RegistrationRequestReply_run_timer :: "AgentBase \<Rightarrow> (AgentBase \<times> action list) res" where
  "RegistrationRequestReply_run_timer a =
     bind_res (fwd_loop ha_timer_body 0 (reg_list a) (reg_table a)) (\<lambda>(l, t).
       Inr (a\<lparr>reg_list := l, reg_table := t\<rparr>, [Reschedule 0 1000]))"

section \<open>The abstract binding store\<close>

type_synonym binding_map = "u32 \<Rightarrow> HARegistrationEntry option"

definition ha_register :: "RegistrationRequestPacketheader \<Rightarrow> binding_map \<Rightarrow> binding_map" where
  "ha_register r m = (if rq_lifetime r = 0 then m(rq_homeAddr r := None)
     else m(rq_homeAddr r := Some (ha_entry r)))"

definition ha_expire_entry :: "HARegistrationEntry \<Rightarrow> HARegistrationEntry option" where
  "ha_expire_entry e = map_option (\<lambda>l. e\<lparr>re_lifetime := l\<rparr>) (dec_drop (re_lifetime e))"

definition ha_expire :: "binding_map \<Rightarrow> binding_map" where
  "ha_expire m = (\<lambda>k. Option.bind (m k) ha_expire_entry)"

section \<open>Refinement\<close>

lemma ip_found_iff: "ip_found x ys \<longleftrightarrow> x \<in> set ys"
  by (induction ys) auto

lemma ha_duplicate_total:
  "ha_duplicate a f = Inr (case bindings a (rq_homeAddr f) of
     None \<Rightarrow> None
   | Some v \<Rightarrow> if re_id1 v = rq_id1 f \<and> re_id2 v = rq_id2 f \<and>
        mobile_node_homadress v = rq_homeAddr f \<and> mobile_node_coa v = rq_coAddr f
      then Some (re_lifetime v) else None)"
  by (simp add: ha_duplicate_def isHome_iff bindings_def split: option.splits)

text \<open>The updates keep what they do not concern.\<close>

lemma ha_update_frame [simp]:
  "public_addr (ha_update env f a) = public_addr a" "private_addr (ha_update env f a) = private_addr a"
  "maxRequests (ha_update env f a) = maxRequests a" "lifetimeReg (ha_update env f a) = lifetimeReg a"
  "registrationReq (ha_update env f a) = registrationReq a"
  "visitorMap (ha_update env f a) = visitorMap a"
  by (simp_all add: ha_update_def Let_def)

lemma ha_update_refines:
  assumes inv: "bindings_inv a" and ok: "env_elt env"
  shows "bindings_inv (ha_update env f a)" "bindings (ha_update env f a) = ha_register f (bindings a)"
proof -
  note I = bindings_invD [OF inv]
  have "bindings_inv (ha_update env f a) \<and> bindings (ha_update env f a) = ha_register f (bindings a)"
  proof (cases "rq_lifetime f = 0")
    case True
    show ?thesis
    proof (cases "isHome a (rq_homeAddr f)")
      case True
      then show ?thesis
        using inv \<open>rq_lifetime f = 0\<close> by (auto simp: ha_update_def ha_register_def isHome_iff fun_upd_idem)
    next
      case False
      then show ?thesis
        using True I ht.find_del [OF I(1)] hm_erase_ok [OF I(1)]
        by (auto simp: ha_update_def ha_register_def bindings_inv_def bindings_def
          erase_first_del1 del1_filter)
    qed
  next
    case False
    then show ?thesis
      using ok I hm_insert_ok [OF I(1), of True "rq_homeAddr f" "ha_entry f"]
      by (auto simp: ha_update_def ha_register_def bindings_inv_def bindings_def Let_def
        word_neq_0_conv ip_found_iff vec_push_back_def ha_entry_def insert_absorb)
  qed
  then show "bindings_inv (ha_update env f a)"
    "bindings (ha_update env f a) = ha_register f (bindings a)" by auto
qed

text \<open>One pass of the timer over the listed addresses.\<close>

lemma ha_timer_body_ok:
  assumes inv: "hm_invar t" and v: "hm_find_pair t k = Some v"
  shows "\<exists>t'. ha_timer_body k t = Inr (if ha_expire_entry v = None then None else Some k, t') \<and>
    hm_invar t' \<and> hm_find_pair t' = (hm_find_pair t)(k := ha_expire_entry v)"
proof -
  let ?v1 = "v\<lparr>re_lifetime := tick16 (re_lifetime v)\<rparr>"
  have w: "hm_invar (hm_write k ?v1 t)" "hm_find_pair (hm_write k ?v1 t) = (hm_find_pair t)(k \<mapsto> ?v1)"
    using hm_write_ok [OF inv] v by simp_all
  show ?thesis
    using v w hm_erase_ok [OF w(1), of k]
    by (auto simp: ha_timer_body_def ha_expire_entry_def dec_drop_def Let_def)
qed

lemma ha_timer_sweep:
  assumes "hm_invar t" "distinct ks" "\<forall>k \<in> set ks. hm_find_pair t k \<noteq> None"
  shows "\<exists>t'. sweep ha_timer_body ks t =
      Inr (filter (\<lambda>k. ha_expire (hm_find_pair t) k \<noteq> None) ks, t') \<and> hm_invar t' \<and>
    hm_find_pair t' = (\<lambda>k. if k \<in> set ks then ha_expire (hm_find_pair t) k else hm_find_pair t k)"
  using assms
proof (induction ks arbitrary: t)
  case Nil
  then show ?case by simp
next
  case (Cons k ks)
  then obtain v where v: "hm_find_pair t k = Some v" by auto
  obtain t1 where t1: "ha_timer_body k t = Inr (if ha_expire_entry v = None then None else Some k, t1)"
      "hm_invar t1" "hm_find_pair t1 = (hm_find_pair t)(k := ha_expire_entry v)"
    using ha_timer_body_ok [OF Cons.prems(1) v] by blast
  have same: "hm_find_pair t1 j = hm_find_pair t j" if "j \<in> set ks" for j
    using that Cons.prems(2) t1(3) by auto
  have fil: "filter (\<lambda>j. ha_expire (hm_find_pair t1) j \<noteq> None) ks =
      filter (\<lambda>j. ha_expire (hm_find_pair t) j \<noteq> None) ks"
    by (rule filter_cong) (simp_all add: ha_expire_def same)
  have dis: "distinct ks" and pre: "\<forall>j \<in> set ks. hm_find_pair t1 j \<noteq> None"
    using Cons.prems same by simp_all
  obtain t' where t': "sweep ha_timer_body ks t1 =
        Inr (filter (\<lambda>j. ha_expire (hm_find_pair t) j \<noteq> None) ks, t')" "hm_invar t'"
      "hm_find_pair t' = (\<lambda>j. if j \<in> set ks then ha_expire (hm_find_pair t1) j else hm_find_pair t1 j)"
    using Cons.IH [OF t1(2)] dis pre unfolding fil by blast
  have "hm_find_pair t' = (\<lambda>j. if j \<in> set (k # ks) then ha_expire (hm_find_pair t) j else hm_find_pair t j)"
    using t'(3) t1(3) v Cons.prems(2) by (auto simp: fun_eq_iff ha_expire_def)
  then show ?case
    using t'(1,2) t1(1) v by (auto simp: ha_expire_def split: option.splits)
qed

lemma ha_run_timer_ok:
  assumes inv: "bindings_inv a"
  shows "\<exists>l t. RegistrationRequestReply_run_timer a =
      Inr (a\<lparr>reg_list := l, reg_table := t\<rparr>, [Reschedule 0 1000]) \<and>
    bindings_inv (a\<lparr>reg_list := l, reg_table := t\<rparr>) \<and> hm_find_pair t = ha_expire (bindings a)"
proof -
  note I = bindings_invD [OF inv]
  have all: "\<forall>k \<in> set (reg_list a). hm_find_pair (reg_table a) k \<noteq> None"
    using I(3) by (auto simp: bindings_def)
  obtain t where t: "sweep ha_timer_body (reg_list a) (reg_table a) =
        Inr (filter (\<lambda>k. ha_expire (bindings a) k \<noteq> None) (reg_list a), t)" "hm_invar t"
      "hm_find_pair t = (\<lambda>k. if k \<in> set (reg_list a) then ha_expire (bindings a) k else bindings a k)"
    using ha_timer_sweep [OF I(1,2) all] unfolding bindings_def [symmetric] by blast
  have f: "hm_find_pair t = ha_expire (bindings a)"
    using t(3) I(3) by (auto simp: fun_eq_iff ha_expire_def)
  have hom: "mobile_node_homadress e = k" if "ha_expire (bindings a) k = Some e" for k e
    using that I(4) by (auto simp: ha_expire_def ha_expire_entry_def bind_eq_Some_conv)
  have dom: "dom (ha_expire (bindings a)) \<subseteq> set (reg_list a)"
    unfolding I(3) by (auto simp: ha_expire_def bind_eq_Some_conv)
  show ?thesis
    using t(1,2) f hom dom I(2)
    by (intro exI [of _ "filter (\<lambda>k. ha_expire (bindings a) k \<noteq> None) (reg_list a)"] exI [of _ t])
      (auto simp: RegistrationRequestReply_run_timer_def fwd_loop_sweep bindings_inv_def bindings_def)
qed

section \<open>The reply\<close>

lemma ha_reply_data_ok:
  "\<exists>d. ha_reply_data b code dup = Inr d \<and> length d = 48 \<and> ip_sum_ok d \<and> udp_sum_ok d \<and>
     ip_v d 0 = 4 \<and> ip_hl d 0 = 5 \<and> get16 d 2 = htons 48 \<and> get8 d 9 = 17 \<and>
     get32 d 12 = get32 b 16 \<and> get32 d 16 = get32 b 12 \<and>
     get16 d 20 = get16 b 22 \<and> get16 d 22 = get16 b 20 \<and> get16 d 24 = htons 28 \<and>
     read_reply d 28 = \<lparr>rp_type = 3, rp_code = ucast code,
       rp_lifetime = (case dup of Some l \<Rightarrow> l | None \<Rightarrow> rq_lifetime (read_req b 28)),
       rp_homeAddr = rq_homeAddr (read_req b 28), rp_homeAgent = rq_homeAgent (read_req b 28),
       rp_id1 = rq_id1 (read_req b 28), rp_id2 = rq_id2 (read_req b 28)\<rparr>"
proof -
  define r where "r = \<lparr>rp_type = 3, rp_code = ucast code,
       rp_lifetime = (case dup of Some l \<Rightarrow> l | None \<Rightarrow> rq_lifetime (read_req b 28)),
       rp_homeAddr = rq_homeAddr (read_req b 28), rp_homeAgent = rq_homeAgent (read_req b 28),
       rp_id1 = rq_id1 (read_req b 28), rp_id2 = rq_id2 (read_req b 28)\<rparr>"
  show ?thesis
    using make_udp_message_ok [of 48 "\<lambda>c. put_reply c 28 r" 64 "get32 b 16" "get32 b 12"
        "get16 b 22" "get16 b 20"]
    by (auto simp: ha_reply_data_def r_def [symmetric] Let_def)
qed

lemma ha_validate_0: "ha_validatePacket a b = 0 \<Longrightarrow> rq_homeAgent (read_req b 28) = public_addr a"
  by (simp add: ha_validatePacket_def Let_def split: if_splits)

lemma ha_validate_not_1: "ha_validatePacket a b \<noteq> 1"
  by (simp add: ha_validatePacket_def Let_def)

section \<open>The handler as a whole\<close>

text \<open>The packet handed to the output for data \<open>d\<close>.\<close>

definition ha_packet :: "environ \<Rightarrow> u32 \<Rightarrow> bytes \<Rightarrow> packet" where
  "ha_packet env dst d = set_dst_ip_anno dst
     (fresh_packet (map (env_mem env) [0..<18]) d (2048 - 66))"

lemma ha_make: "env_packet env 0 \<Longrightarrow> \<exists>q. packet_make env 0 18 None 48 0 = Some q \<and>
    set_dst_ip_anno dst (with_data q (\<lambda>_. d)) = ha_packet env dst d"
  by (simp add: packet_make_def ha_packet_def with_data_def set_dst_ip_anno_def fresh_packet_def
      CLICK_PACKET_POOL_BUFSIZ_def Let_def)

lemma pk_data_ha_packet [simp]: "pk_data (ha_packet env dst d) = d"
  and pk_dst_ha_packet [simp]: "pk_dst_ip (ha_packet env dst d) = dst"
  and shared_ha_packet [simp]: "\<not> shared (ha_packet env dst d)"
  by (simp_all add: ha_packet_def set_dst_ip_anno_def fresh_packet_def shared_def)

text \<open>A well-formed request: long enough and of type 1.\<close>

definition is_request :: "packet \<Rightarrow> bool" where
  "is_request p \<longleftrightarrow> 52 \<le> pk_length p \<and> rq_type (read_req (pk_data p) 28) = 1"

lemma ha_push_accept:
  assumes "is_request p" "ha_validatePacket a (pk_data p) = 0" "env_packet env 0"
    and d: "ha_reply_data (pk_data p) 0 dup = Inr d"
    and dup: "ha_duplicate a (read_req (pk_data p) 28) = Inr dup"
  shows "RegistrationRequestReply_push env a p =
    Inr (ha_update env (read_req (pk_data p) 28) a,
      [Emit (if rq_lifetime (read_req (pk_data p) 28) = 0 then 1 else 0)
         (ha_packet env (ip_src (pk_data p) 0) d)])"
proof -
  obtain q where q: "packet_make env 0 18 None 48 0 = Some q"
      "set_dst_ip_anno (ip_src (pk_data p) 0) (with_data q (\<lambda>_. d)) = ha_packet env (ip_src (pk_data p) 0) d"
    using ha_make [OF assms(3)] by blast
  then show ?thesis
    using assms by (auto simp: RegistrationRequestReply_push_def is_request_def Let_def word_neq_0_conv)
qed

lemma ha_push_deny:
  assumes "ha_validatePacket a (pk_data p) \<noteq> 0"
  shows "\<exists>as. RegistrationRequestReply_push env a p = Inr (a, as) \<and> emitted as = []"
proof -
  obtain dup where "ha_duplicate a (read_req (pk_data p) 28) = Inr dup"
    using ha_duplicate_total by blast
  moreover obtain d where "ha_reply_data (pk_data p) (ha_validatePacket a (pk_data p)) dup = Inr d"
    using ha_reply_data_ok by blast
  ultimately show ?thesis
    using assms ha_validate_not_1 [of a "pk_data p"]
    by (simp add: RegistrationRequestReply_push_def Let_def split: option.splits)
qed

lemma ha_push_cases:
  obtains (ignored) as where "RegistrationRequestReply_push env a p = Inr (a, as)" "emitted as = []"
  | (accepted) n q where "is_request p" "ha_validatePacket a (pk_data p) = 0"
      "RegistrationRequestReply_push env a p = Inr (ha_update env (read_req (pk_data p) 28) a, [Emit n q])"
proof (cases "is_request p \<and> ha_validatePacket a (pk_data p) = 0 \<and> env_packet env 0")
  case True
  obtain dup where dup: "ha_duplicate a (read_req (pk_data p) 28) = Inr dup"
    using ha_duplicate_total by blast
  obtain d where "ha_reply_data (pk_data p) 0 dup = Inr d" using ha_reply_data_ok by blast
  then show ?thesis using ha_push_accept [of p a env] dup True accepted by blast
next
  case False
  then consider (short) "\<not> is_request p" | (deny) "ha_validatePacket a (pk_data p) \<noteq> 0"
    | (mem) "\<not> env_packet env 0" by blast
  then show ?thesis
  proof cases
    case short
    then have "RegistrationRequestReply_push env a p = Inr (a, [Kill p])"
      by (auto simp: RegistrationRequestReply_push_def is_request_def Let_def)
    then show ?thesis using ignored by simp
  next
    case deny
    then show ?thesis using ha_push_deny ignored by blast
  next
    case mem
    obtain dup where "ha_duplicate a (read_req (pk_data p) 28) = Inr dup"
      using ha_duplicate_total by blast
    then have "\<exists>as. RegistrationRequestReply_push env a p = Inr (a, as) \<and> emitted as = []"
      using mem by (simp add: RegistrationRequestReply_push_def Let_def packet_make_def)
    then show ?thesis using ignored by blast
  qed
qed

text \<open>
  What holds of the bindings even when a table element cannot be allocated: every binding is listed, but a listed address may have
  none.  Only a failed allocation makes such an address, and it makes the timer follow a null pair.
\<close>

definition bindings_listed :: "AgentBase \<Rightarrow> bool" where
  "bindings_listed a \<longleftrightarrow> hm_invar (reg_table a) \<and> distinct (reg_list a) \<and> dom (bindings a) \<subseteq> set (reg_list a) \<and>
     (\<forall>k e. bindings a k = Some e \<longrightarrow> mobile_node_homadress e = k)"

definition unbound :: "AgentBase \<Rightarrow> u32 set" where
  "unbound a = set (reg_list a) - dom (bindings a)"

lemma bindings_inv_listed: "bindings_inv a \<longleftrightarrow> bindings_listed a \<and> unbound a = {}"
  by (auto simp: bindings_inv_def bindings_listed_def unbound_def)

lemma ha_update_listed:
  assumes "bindings_listed a"
  shows "bindings_listed (ha_update env f a)" "env_elt env \<Longrightarrow> unbound (ha_update env f a) \<subseteq> unbound a"
proof -
  have I: "hm_invar (reg_table a)" "distinct (reg_list a)" "dom (bindings a) \<subseteq> set (reg_list a)"
    "\<And>k e. bindings a k = Some e \<Longrightarrow> mobile_node_homadress e = k"
    using assms by (auto simp: bindings_listed_def)
  have "bindings_listed (ha_update env f a) \<and> (env_elt env \<longrightarrow> unbound (ha_update env f a) \<subseteq> unbound a)"
  proof (cases "rq_lifetime f = 0")
    case True
    show ?thesis
    proof (cases "isHome a (rq_homeAddr f)")
      case True
      then show ?thesis using assms \<open>rq_lifetime f = 0\<close> by (simp add: ha_update_def)
    next
      case False
      then show ?thesis
        using True I ht.find_del [OF I(1)] hm_erase_ok [OF I(1)]
        by (auto simp: ha_update_def bindings_listed_def bindings_def unbound_def erase_first_del1 del1_filter split: if_splits)
    qed
  next
    case False
    then show ?thesis
      using I hm_insert_ok [OF I(1), of "env_elt env" "rq_homeAddr f" "ha_entry f"]
      by (auto simp: ha_update_def bindings_listed_def bindings_def unbound_def Let_def word_neq_0_conv ip_found_iff
          vec_push_back_def ha_entry_def split: if_splits)
  qed
  then show "bindings_listed (ha_update env f a)" "env_elt env \<Longrightarrow> unbound (ha_update env f a) \<subseteq> unbound a" by auto
qed

lemma ha_push_listed:
  assumes "bindings_listed a"
  obtains a' as where "RegistrationRequestReply_push env a p = Inr (a', as)" "bindings_listed a'"
    "env_elt env \<Longrightarrow> unbound a' \<subseteq> unbound a" "visitorMap a' = visitorMap a" "registrationReq a' = registrationReq a"
    "maxRequests a' = maxRequests a"
proof (cases rule: ha_push_cases [of env a p])
  case ignored
  then show ?thesis using that assms by blast
next
  case accepted
  then show ?thesis using that ha_update_listed [OF assms] by auto
qed

lemma ha_timer_null:
  assumes "hm_invar t" "distinct ks" "\<exists>k \<in> set ks. hm_find_pair t k = None"
  shows "sweep ha_timer_body ks t = Inl NullDeref"
  using assms
proof (induction ks arbitrary: t)
  case (Cons k ks)
  show ?case
  proof (cases "hm_find_pair t k")
    case None
    then show ?thesis by (simp add: ha_timer_body_def)
  next
    case (Some v)
    obtain r t' where t': "ha_timer_body k t = Inr (r, t')" "hm_invar t'" "hm_find_pair t' = (hm_find_pair t)(k := ha_expire_entry v)"
      using ha_timer_body_ok [OF Cons.prems(1) Some] by blast
    then have "\<exists>j \<in> set ks. hm_find_pair t' j = None" using Cons.prems(2,3) Some by auto
    then show ?thesis using Cons.IH [OF t'(2)] Cons.prems(2) t'(1) by simp
  qed
qed simp

lemma ha_timer_listed:
  assumes "bindings_listed a"
  shows "unbound a \<noteq> {} \<Longrightarrow> RegistrationRequestReply_run_timer a = Inl NullDeref"
    and "unbound a = {} \<Longrightarrow> \<exists>l t. RegistrationRequestReply_run_timer a = Inr (a\<lparr>reg_list := l, reg_table := t\<rparr>, [Reschedule 0 1000]) \<and>
      bindings_listed (a\<lparr>reg_list := l, reg_table := t\<rparr>) \<and> unbound (a\<lparr>reg_list := l, reg_table := t\<rparr>) = {}"
proof -
  assume "unbound a \<noteq> {}"
  then have "\<exists>k \<in> set (reg_list a). hm_find_pair (reg_table a) k = None" by (auto simp: unbound_def bindings_def)
  then show "RegistrationRequestReply_run_timer a = Inl NullDeref"
    using ha_timer_null [of "reg_table a" "reg_list a"] assms
    by (simp add: RegistrationRequestReply_run_timer_def fwd_loop_sweep bindings_listed_def)
next
  assume "unbound a = {}"
  then have "bindings_inv a" using assms by (simp add: bindings_inv_listed)
  then show "\<exists>l t. RegistrationRequestReply_run_timer a = Inr (a\<lparr>reg_list := l, reg_table := t\<rparr>, [Reschedule 0 1000]) \<and>
      bindings_listed (a\<lparr>reg_list := l, reg_table := t\<rparr>) \<and> unbound (a\<lparr>reg_list := l, reg_table := t\<rparr>) = {}"
    using ha_run_timer_ok [of a] bindings_inv_listed by fastforce
qed

lemma ha_timer_inv:
  assumes "agent_inv a"
  shows "\<exists>a' as. RegistrationRequestReply_run_timer a = Inr (a', as) \<and> agent_inv a' \<and>
    bindings a' = ha_expire (bindings a) \<and> maxRequests a' = maxRequests a"
  using ha_run_timer_ok [of a] assms
  by (auto simp: agent_inv_def visitors_inv_def bindings_def)

section \<open>Bindings expire\<close>

definition binding_life :: "AgentBase \<Rightarrow> u32 \<Rightarrow> u16 option" where
  "binding_life a k = map_option re_lifetime (bindings a k)"

definition ha_tick :: "unit \<Rightarrow> AgentBase \<Rightarrow> AgentBase res" where
  "ha_tick u a = bind_res (RegistrationRequestReply_run_timer a) (\<lambda>(a', as). Inr a')"

interpretation ha_bindings: expiring binding_life ha_tick "\<lambda>_. True" agent_inv dec_drop
proof
  fix a :: AgentBase and e :: unit
  assume "agent_inv a"
  then obtain a' as where a': "RegistrationRequestReply_run_timer a = Inr (a', as)" "agent_inv a'"
      "bindings a' = ha_expire (bindings a)"
    using ha_timer_inv by blast
  have "binding_life a' k = Option.bind (binding_life a k) dec_drop" for k
    by (cases "bindings a k"; cases "dec_drop (re_lifetime (the (bindings a k)))")
      (simp_all add: binding_life_def a'(3) ha_expire_def ha_expire_entry_def)
  then show "\<exists>s'. ha_tick e a = Inr s' \<and> agent_inv s' \<and>
      (\<forall>k. binding_life s' k = Option.bind (binding_life a k) dec_drop)"
    using a' by (simp add: ha_tick_def)
qed

section \<open>Properties\<close>

text \<open>(C11) An accepted request (type 1, no unsupported flag, addressed to this home agent) is answered
  on output 0, or on output 1 for a deregistration, with a reply of code 0 that repeats its
  identification, goes back to its sender and has valid checksums; the binding map becomes the
  one with the new binding, or without the node's binding for lifetime 0.\<close>

theorem ha_accepts_request:
  assumes "bindings_inv a" "env_elt env" "env_packet env 0" "is_request p"
    "ha_validatePacket a (pk_data p) = 0"
  shows "\<exists>a' q. RegistrationRequestReply_push env a p =
      Inr (a', [Emit (if rq_lifetime (read_req (pk_data p) 28) = 0 then 1 else 0) q]) \<and>
    bindings a' = ha_register (read_req (pk_data p) 28) (bindings a) \<and>
    ip_sum_ok (pk_data q) \<and> udp_sum_ok (pk_data q) \<and> get32 (pk_data q) 16 = ip_src (pk_data p) 0 \<and>
    rp_type (read_reply (pk_data q) 28) = 3 \<and> rp_code (read_reply (pk_data q) 28) = 0 \<and>
    rp_id1 (read_reply (pk_data q) 28) = rq_id1 (read_req (pk_data p) 28) \<and>
    rp_id2 (read_reply (pk_data q) 28) = rq_id2 (read_req (pk_data p) 28)"
proof -
  obtain dup where dup: "ha_duplicate a (read_req (pk_data p) 28) = Inr dup"
    using ha_duplicate_total by blast
  obtain d where d: "ha_reply_data (pk_data p) 0 dup = Inr d" "ip_sum_ok d" "udp_sum_ok d"
      "get32 d 16 = get32 (pk_data p) 12" "rp_type (read_reply d 28) = 3" "rp_code (read_reply d 28) = 0"
      "rp_id1 (read_reply d 28) = rq_id1 (read_req (pk_data p) 28)"
      "rp_id2 (read_reply d 28) = rq_id2 (read_req (pk_data p) 28)"
    using ha_reply_data_ok [of "pk_data p" 0 dup] by auto
  from ha_push_accept [OF assms(4,5,3) d(1) dup] show ?thesis
    using d ha_update_refines(2) [OF assms(1,2)] by auto
qed

definition sample_request :: RegistrationRequestPacketheader where
  "sample_request = \<lparr>rq_type = 1, rq_flags = 0, rq_lifetime = htons 25, rq_homeAddr = 12,
     rq_homeAgent = 10, rq_coAddr = 20, rq_id1 = 5, rq_id2 = 6\<rparr>"

lemma sample_request_ok:
  "is_request (request_packet sample_request)"
  "ha_validatePacket (configured 10 11 25) (pk_data (request_packet sample_request)) = 0"
  by (simp_all add: is_request_def ha_validatePacket_def Let_def) (simp_all add: sample_request_def)

theorem ha_accepts_request_witness:
  "\<exists>a' q. RegistrationRequestReply_push sample_env (configured 10 11 25) (request_packet sample_request) =
      Inr (a', [Emit 0 q]) \<and> bindings a' = ha_register sample_request Map.empty"
  using ha_accepts_request [of "configured 10 11 25" sample_env "request_packet sample_request"]
    sample_request_ok configured_inv(1) [of 10 11 25]
  by (auto simp: agent_inv_def) (simp add: sample_request_def htons_def)

text \<open>(C14) A request the home agent rejects (codes 134, 128 and 136) is never answered and changes
  nothing: the reply is built but not sent.\<close>

theorem ha_denial_is_silent:
  assumes "ha_validatePacket a (pk_data p) \<noteq> 0"
  shows "\<exists>as. RegistrationRequestReply_push env a p = Inr (a, as) \<and> emitted as = []"
  by (rule ha_push_deny [OF assms])

theorem ha_denial_is_silent_witness:
  "\<exists>as. RegistrationRequestReply_push sample_env (configured 99 11 25) (request_packet sample_request) =
     Inr (configured 99 11 25, as) \<and> emitted as = []"
  by (rule ha_denial_is_silent) (simp add: ha_validatePacket_def sample_request_def Let_def)

text \<open>The codes the home agent assigns, in the order of its tests.\<close>

theorem ha_validation_codes:
  "ha_validatePacket a b = (let r = read_req b 28 in
     if bit (rq_flags r) 0 \<or> bit (rq_flags r) 2 then 134
     else if bit (rq_flags r) 5 then 128
     else if rq_homeAgent r \<noteq> public_addr a then 136 else 0)"
  using bit_test [of 0 "rq_flags (read_req b 28)"]
  by (simp only: ha_validatePacket_def bit_test Let_def drop_bit_0 id_apply)

text \<open>(C12) One run of the home agent's timer takes every binding one tick forward and drops those that
  reach zero; it touches no other state and arms itself again.\<close>

theorem ha_timer_refines:
  assumes "agent_inv a"
  shows "\<exists>a'. RegistrationRequestReply_run_timer a = Inr (a', [Reschedule 0 1000]) \<and>
    bindings a' = ha_expire (bindings a) \<and> agent_inv a' \<and>
    visitorMap a' = visitorMap a \<and> registrationReq a' = registrationReq a"
  using ha_run_timer_ok [of a] assms
  by (auto simp: agent_inv_def bindings_def visitors_inv_def)

text \<open>A binding registered for fewer than 256 seconds lives exactly that many timer runs: after \<open>n\<close>
  runs \<open>seconds - n\<close> are left, and from run number \<open>seconds\<close> on it is gone.\<close>

theorem binding_expires_exactly:
  assumes "agent_inv a" "binding_life a k = Some l" "l \<noteq> 0" "seconds l < 256"
  shows "\<exists>a'. run_ticks ha_tick (replicate n ()) a = Inr a' \<and>
    map_option seconds (binding_life a' k) = (if n < seconds l then Some (seconds l - n) else None)"
proof -
  obtain a' where a': "run_ticks ha_tick (replicate n ()) a = Inr a'"
      "binding_life a' k = Option.bind (Some l) (life_after dec_drop n)"
    using ha_bindings.ticks_life [OF assms(1), of "replicate n ()"] assms(2) by (auto simp: list_all_iff)
  have "0 < seconds l" using assms(3) by (metis gr0I seconds_eq_0)
  then show ?thesis using a' life_after_dec_drop [OF _ assms(4), of n] by simp
qed

definition sample_bound :: "u16 \<Rightarrow> AgentBase" where
  "sample_bound l = ha_update sample_env (sample_request\<lparr>rq_lifetime := l\<rparr>) (configured 10 11 25)"

lemma sample_bound_ok:
  assumes "l \<noteq> 0"
  shows "agent_inv (sample_bound l)" "binding_life (sample_bound l) 12 = Some l"
    "bindings (sample_bound l) 12 = Some \<lparr>mobile_node_homadress = 12, mobile_node_coa = 20,
       re_lifetime = l, re_id1 = 5, re_id2 = 6\<rparr>"
  using ha_update_refines [of "configured 10 11 25" sample_env "sample_request\<lparr>rq_lifetime := l\<rparr>"]
    configured_inv(1) [of 10 11 25] assms
  by (simp_all add: sample_bound_def agent_inv_def visitors_inv_def binding_life_def ha_register_def
      ha_entry_def sample_request_def)

theorem ha_timer_refines_witness:
  "\<exists>a'. RegistrationRequestReply_run_timer (sample_bound (htons 25)) = Inr (a', [Reschedule 0 1000]) \<and>
    binding_life a' 12 = Some (htons 24)"
proof -
  have nz: "htons 25 \<noteq> 0" by simp
  obtain a' where "RegistrationRequestReply_run_timer (sample_bound (htons 25)) = Inr (a', [Reschedule 0 1000])"
      "bindings a' = ha_expire (bindings (sample_bound (htons 25)))"
    using ha_timer_refines [OF sample_bound_ok(1) [OF nz]] by blast
  then show ?thesis
    using sample_bound_ok(3) [OF nz] by (simp add: binding_life_def ha_expire_def ha_expire_entry_def dec_drop_def tick16_def htons_def)
qed

theorem binding_expires_exactly_witness:
  "\<exists>a'. run_ticks ha_tick (replicate 3 ()) (sample_bound (htons 3)) = Inr a' \<and>
    map_option seconds (binding_life a' 12) = None"
proof -
  have 3: "seconds (htons 3) = 3" using seconds_htons [of 3] by simp
  have nz: "htons 3 \<noteq> 0" by simp
  show ?thesis
    using binding_expires_exactly [OF sample_bound_ok(1,2) [OF nz] nz, of 3] 3 by simp
qed

text \<open>(C13) A binding registered for 256 seconds or more never expires: the timer lowers the network-order
  lifetime without a borrow from its high byte.\<close>

theorem binding_never_expires:
  assumes "agent_inv a" "binding_life a k = Some l" "256 \<le> seconds l"
  shows "\<exists>a'. run_ticks ha_tick (replicate n ()) a = Inr a' \<and> binding_life a' k \<noteq> None"
proof -
  obtain a' where a': "run_ticks ha_tick (replicate n ()) a = Inr a'"
      "binding_life a' k = Option.bind (Some l) (life_after dec_drop n)"
    using ha_bindings.ticks_life [OF assms(1), of "replicate n ()"] assms(2) by (auto simp: list_all_iff)
  then show ?thesis using life_after_long(1) [OF assms(3), of n] by simp
qed

theorem binding_never_expires_witness:
  "\<exists>a'. run_ticks ha_tick (replicate 1000 ()) (sample_bound (htons 300)) = Inr a' \<and> binding_life a' 12 \<noteq> None"
proof -
  have 300: "seconds (htons 300) = 300" using seconds_htons [of 300] by simp
  have nz: "htons 300 \<noteq> 0" by simp
  show ?thesis
    by (rule binding_never_expires [OF sample_bound_ok(1,2) [OF nz]]) (simp add: 300)
qed

text \<open>When the table cannot allocate an element, an accepted request for a new node leaves its
  address in the list without a binding, and the next timer run dereferences a null pair.\<close>

theorem ha_insert_failure_faults:
  assumes "agent_inv a" "\<not> env_elt env" "isHome a (rq_homeAddr f)" "rq_lifetime f \<noteq> 0"
    "reg_list a = []"
  shows "RegistrationRequestReply_run_timer (ha_update env f a) = Inl NullDeref"
proof -
  have none: "hm_find_pair (reg_table a) (rq_homeAddr f) = None"
    using assms(3) by (simp add: isHome_iff bindings_def)
  have "hm_invar (reg_table a)" using assms(1) by (simp add: agent_inv_def bindings_inv_def)
  from hm_insert_ok(2) [OF this, of False "rq_homeAddr f" "ha_entry f"] none assms(2)
  have "hm_find_pair (snd (hm_insert (env_elt env) (rq_homeAddr f) (ha_entry f) (reg_table a))) (rq_homeAddr f) = None"
    by simp
  then show ?thesis
    using assms(4,5) by (simp add: RegistrationRequestReply_run_timer_def ha_update_def Let_def
      word_neq_0_conv vec_push_back_def fwd_loop_sweep ha_timer_body_def)
qed

theorem ha_insert_failure_faults_witness:
  "RegistrationRequestReply_run_timer (ha_update (sample_env\<lparr>env_elt := False\<rparr>) sample_request (configured 10 11 25))
     = Inl NullDeref"
  by (rule ha_insert_failure_faults [OF configured_inv(1)])
    (simp_all add: sample_env_def isHome_iff sample_request_def htons_def)

end
