(* ===== verification/ForeignAgent.thy ===== *)
theory ForeignAgent
  imports HomeAgent
begin

text \<open>
  \<^verbatim>\<open>foreignAgentReqProcess.cc\<close> and \<^verbatim>\<open>foreignAgentReplyProcess.cc\<close>: the foreign agent
  relays a registration request to the home agent, keeps it pending for at most seven seconds,
  and turns the home agent's acceptance into a visitor entry while relaying the reply.
\<close>

section \<open>Relaying a request\<close>

definition ForeignAgentReqProcess_configure :: "bool \<Rightarrow> int \<times> action list" where
  "ForeignAgentReqProcess_configure args_ok =
     (if \<not> args_ok then (- 1, []) else (0, [Schedule 0 1000]))"

definition fa_pending_item :: "bytes \<Rightarrow> listItem" where
  "fa_pending_item b =
     (let format = read_req b 28 in
      \<lparr>li_ethSrc = 0, li_ipSrc = rq_homeAddr format, li_ipDst = ip_dst b 0,
       li_udpSrc = uh_sport b 20, li_udpDst = uh_dport b 20, li_homeAgent = rq_homeAgent format,
       li_id1 = rq_id1 format, li_id2 = rq_id2 format,
       li_lifetimeReq = rq_lifetime format, li_lifetimeRem = rq_lifetime format\<rparr>)"

definition fa_validatePacket :: "AgentBase \<Rightarrow> bytes \<Rightarrow> u16 \<times> AgentBase" where
  "fa_validatePacket a b =
     (let format = read_req b 28; flags = rq_flags format in
      if lifetimeReg a < int (unat (ntohs (rq_lifetime format))) then (69, a)
      else if flags AND 1 \<noteq> 0 \<or> drop_bit 2 flags AND 1 \<noteq> 0 then (70, a)
      else if drop_bit 3 flags AND 1 \<noteq> 0 \<or> drop_bit 4 flags AND 1 \<noteq> 0 then (72, a)
      else if int (length (registrationReq a)) = maxRequests a then (66, a)
      else (1, if int (length (registrationReq a)) < maxRequests a
               then a\<lparr>registrationReq := vec_push_back (registrationReq a) (fa_pending_item b)\<rparr>
               else a))"

text \<open>Rewriting the addresses of a relayed message of \<open>n\<close> UDP bytes, with both checksums.\<close>

definition fa_rewrite :: "nat \<Rightarrow> u32 \<Rightarrow> u32 \<Rightarrow> bytes \<Rightarrow> bytes res" where
  "fa_rewrite n src dst b =
     (let b1 = set_ip_sum b 0 (htons 0);
          b2 = set_ip_src b1 0 src;
          b3 = set_ip_dst b2 0 dst;
          b4 = put_ip_sum sizeof_ip b3;
          b5 = set_uh_sum b4 20 (htons 0)
      in put_udp_sum n b5)"

definition fa_deny_data :: "AgentBase \<Rightarrow> bytes \<Rightarrow> u16 \<Rightarrow> bytes res" where
  "fa_deny_data a b code =
     (let format = read_req b 28 in
      make_udp_message 52 12 (ip_dst b 0) (ip_src b 0) (uh_dport b 20) (uh_sport b 20)
        (\<lambda>c. put_reply c 28
           \<lparr>rp_type = 3, rp_code = ucast code,
            rp_lifetime = (if code = 69 then htons (of_int (lifetimeReg a)) else rq_lifetime format),
            rp_homeAddr = rq_homeAddr format, rp_homeAgent = rq_homeAgent format,
            rp_id1 = rq_id1 format, rp_id2 = rq_id2 format\<rparr>))"

definition ForeignAgentReqProcess_push ::
  "environ \<Rightarrow> AgentBase \<Rightarrow> packet \<Rightarrow> (AgentBase \<times> action list) res" where
  "ForeignAgentReqProcess_push env a pt =
     (if pk_length pt < sizeof_ip + sizeof_udp + sizeof_req then Inr (a, [Kill pt])
      else case uniqueify env pt of
          None \<Rightarrow> Inl NullDeref
        | Some p \<Rightarrow>
            let b = pk_data p; format = read_req b 28 in
            if rq_type format \<noteq> 1
            then guard (\<not> shared pt) UseAfterKill (Inr (a, [Kill pt]))
            else case fa_validatePacket a b of (code, a1) \<Rightarrow>
              if code = 1
              then bind_res (fa_rewrite 32 (public_addr a1) (rq_homeAgent format) b) (\<lambda>d.
                Inr (a1, [Emit 1 (set_dst_ip_anno (rq_homeAgent format) (with_data p (\<lambda>_. d)))]))
              else case packet_make env 0 (sizeof_ether + sizeof_crc) None
                      (sizeof_req + sizeof_ip + sizeof_udp) 0 of
                  None \<Rightarrow> Inr (a1, [])
                | Some packet \<Rightarrow> bind_res (fa_deny_data a1 b code) (\<lambda>d.
                    Inr (a1, [Emit 0 (set_dst_ip_anno (ip_src b 0) (with_data packet (\<lambda>_. d)))])))"

section \<open>The timer\<close>

definition fa_timeout_data :: "listItem \<Rightarrow> bytes res" where
  "fa_timeout_data it =
     make_udp_message 48 12 (li_ipDst it) (li_ipSrc it) (li_udpDst it) (li_udpSrc it)
       (\<lambda>c. put_reply c 28
          \<lparr>rp_type = 3, rp_code = 78, rp_lifetime = li_lifetimeReq it, rp_homeAddr = li_ipSrc it,
           rp_homeAgent = li_homeAgent it, rp_id1 = li_id1 it, rp_id2 = li_id2 it\<rparr>)"

text \<open>One step of the first loop.  The state holds whether the handler has returned, how many
  packets it asked for, and its actions.\<close>

type_synonym fa_loop = "bool \<times> nat \<times> action list"

definition fa_waited_too_long :: "listItem \<Rightarrow> bool" where
  "fa_waited_too_long it \<longleftrightarrow>
     int (unat (li_lifetimeReq it)) - int (unat (li_lifetimeRem it)) = int (unat (htons 7))"

definition fa_pending_body :: "environ \<Rightarrow> listItem \<Rightarrow> fa_loop \<Rightarrow> (listItem option \<times> fa_loop) res" where
  "fa_pending_body env it s = (case s of (returned, i, as) \<Rightarrow>
     if returned then Inr (Some it, s)
     else let it1 = it\<lparr>li_lifetimeRem := tick16 (li_lifetimeRem it)\<rparr> in
       if li_lifetimeRem it1 = 0 then Inr (None, s)
       else if fa_waited_too_long it1
         then case packet_make env i (sizeof_ether + sizeof_crc) None
                (sizeof_reply + sizeof_ip + sizeof_udp) 0 of
             None \<Rightarrow> Inr (Some it1, (True, i + 1, as))
           | Some packet \<Rightarrow> bind_res (fa_timeout_data it1) (\<lambda>d.
               Inr (None, (False, i + 1,
                 as @ [Emit 0 (set_dst_ip_anno (li_ipSrc it1) (with_data packet (\<lambda>_. d)))])))
         else Inr (Some it1, s))"

definition fa_visitor_body :: "listItem \<Rightarrow> unit \<Rightarrow> (listItem option \<times> unit) res" where
  "fa_visitor_body it s =
     Inr (if li_lifetimeRem it = 0 then None
          else Some (it\<lparr>li_lifetimeRem := tick16 (li_lifetimeRem it)\<rparr>), s)"

definition ForeignAgentReqProcess_run_timer ::
  "environ \<Rightarrow> AgentBase \<Rightarrow> (AgentBase \<times> action list) res" where
  "ForeignAgentReqProcess_run_timer env a =
     bind_res (bwd_loop (fa_pending_body env) (length (registrationReq a)) (registrationReq a)
         (False, 0, [])) (\<lambda>(reqs, returned, i, as).
       let a1 = a\<lparr>registrationReq := reqs\<rparr> in
       if returned then Inr (a1, as)
       else bind_res (fwd_loop fa_visitor_body 0 (visitorMap a1) ()) (\<lambda>(vis, u).
         Inr (a1\<lparr>visitorMap := vis\<rparr>, as @ [Schedule 0 1000])))"

section \<open>Relaying a reply\<close>

definition ForeignAgentReplyProcess_configure :: "bool \<Rightarrow> int" where
  "ForeignAgentReplyProcess_configure args_ok = (if \<not> args_ok then - 1 else 0)"

text \<open>The visitor entry; its \<^verbatim>\<open>udpDst\<close> is never assigned and holds whatever the stack held.\<close>

definition fa_visitor_item ::
  "u16 \<Rightarrow> RegistrationRequestReplyPacketheader \<Rightarrow> listItem \<Rightarrow> listItem" where
  "fa_visitor_item junk format it =
     (let l = (if li_lifetimeReq it < rp_lifetime format then li_lifetimeReq it else rp_lifetime format)
      in \<lparr>li_ethSrc = li_ethSrc it, li_ipSrc = li_ipSrc it, li_ipDst = li_ipDst it,
          li_udpSrc = li_udpSrc it, li_udpDst = junk, li_homeAgent = li_homeAgent it,
          li_id1 = li_id1 it, li_id2 = li_id2 it, li_lifetimeReq = l, li_lifetimeRem = l\<rparr>)"

definition same_ids :: "RegistrationRequestReplyPacketheader \<Rightarrow> listItem \<Rightarrow> bool" where
  "same_ids format it \<longleftrightarrow> li_id1 it = rp_id1 format \<and> li_id2 it = rp_id2 format"

definition visitor_erase :: "u32 \<Rightarrow> listItem list \<Rightarrow> listItem list res" where
  "visitor_erase ip vis =
     bind_res (fwd_loop (\<lambda>it s. Inr (if li_ipSrc it = ip then None else Some it, s)) 0 vis ())
       (\<lambda>(vis', u). Inr vis')"

definition fa_accept ::
  "u16 \<Rightarrow> RegistrationRequestReplyPacketheader \<Rightarrow> AgentBase \<Rightarrow> AgentBase res" where
  "fa_accept junk format a =
     (case find (same_ids format) (registrationReq a) of
        None \<Rightarrow> Inr a
      | Some it \<Rightarrow>
          let item = fa_visitor_item junk format it;
              a1 = a\<lparr>registrationReq := erase_first (same_ids format) 0 (registrationReq a)\<rparr>
          in bind_res (visitor_erase (li_ipSrc item) (visitorMap a1)) (\<lambda>vis.
            Inr (a1\<lparr>visitorMap := vec_push_back vis item\<rparr>)))"

definition fa_denied :: "RegistrationRequestReplyPacketheader \<Rightarrow> AgentBase \<Rightarrow> AgentBase" where
  "fa_denied format a =
     a\<lparr>registrationReq := erase_first (same_ids format) 0 (registrationReq a)\<rparr>"

definition ForeignAgentReplyProcess_push ::
  "environ \<Rightarrow> AgentBase \<Rightarrow> packet \<Rightarrow> (AgentBase \<times> action list) res" where
  "ForeignAgentReplyProcess_push env a p =
     (if pk_length p < sizeof_ip + sizeof_udp + sizeof_reply then Inr (a, [Kill p])
      else case uniqueify env p of
          None \<Rightarrow> Inl NullDeref
        | Some q \<Rightarrow>
            let b = pk_data q; format = read_reply b 28 in
            if rp_type format \<noteq> 3 then Inr (a, [Kill q])
            else bind_res
              (if rp_code format = 0 \<or> rp_code format = 1
               then fa_accept (get16 (map (env_mem env) [0..<2]) 0) format a
               else Inr (fa_denied format a)) (\<lambda>a1.
              bind_res (fa_rewrite 28 (private_addr a1) (rp_homeAddr format) b) (\<lambda>d.
                Inr (a1, [Emit 0 (set_dst_ip_anno (rp_homeAddr format) (with_data q (\<lambda>_. d)))]))))"

section \<open>The rewritten message\<close>

lemma fa_rewrite_total:
  assumes "28 \<le> length b" "4 * unat (ip_hl b 0) \<le> length b"
  shows "\<exists>d. fa_rewrite n src dst b = Inr d \<and> length d = length b"
proof -
  define b5 where "b5 = put16 (put_ip_sum 20 (put32 (put32 (put16 b 10 0) 12 src) 16 dst)) 26 0"
  have "ip_hl b5 0 = ip_hl b 0" "length b5 = length b" by (simp_all add: b5_def)
  then obtain s where "click_in_cksum_pseudohdr (ucast (click_in_cksum (take n (drop 20 b5)))) b5 0 n = Inr s"
    using click_in_cksum_pseudohdr_total [of 0 b5] assms by auto
  then show ?thesis by (simp add: fa_rewrite_def put_udp_sum_def Let_def b5_def)
qed

text \<open>Only the walk over the IP options can fault, by leaving the packet.\<close>

lemma pseudohdr_opts_fault: "pseudohdr_opts b opt end_opt = Inl f \<Longrightarrow> f = OutOfBounds"
proof (induction b opt end_opt rule: pseudohdr_opts.induct)
  case (1 b opt end_opt)
  have walk: "pseudohdr_opts b (opt + unat (b ! Suc opt)) end_opt = Inl f \<Longrightarrow> opt < end_opt \<Longrightarrow> b ! opt \<noteq> IPOPT_NOP \<Longrightarrow> b ! opt \<noteq> IPOPT_EOL
      \<Longrightarrow> \<not> end_opt \<le> opt + 1 \<Longrightarrow> \<not> (unat (b ! Suc opt) < 2 \<or> end_opt < opt + unat (b ! Suc opt))
      \<Longrightarrow> \<not> ((b ! opt = IPOPT_SSRR \<or> b ! opt = IPOPT_LSRR) \<and> 7 \<le> unat (b ! Suc opt)) \<Longrightarrow> f = OutOfBounds"
    using 1(2) by simp
  from 1(3) show ?case
    by (subst (asm) pseudohdr_opts.simps) (auto simp: guard_def Let_def dest: 1(1) walk split: if_splits)
qed

lemma fa_rewrite_fault: "fa_rewrite n src dst b = Inl f \<Longrightarrow> f = OutOfBounds"
proof -
  define b5 where "b5 = set_uh_sum (put_ip_sum sizeof_ip (set_ip_dst (set_ip_src (set_ip_sum b 0 (htons 0)) 0 src) 0 dst)) 20 (htons 0)"
  define c where "c = click_in_cksum (take n (drop 20 b5))"
  have raw: "\<exists>r. click_in_cksum_pseudohdr_raw (ucast c) s d p m = Inr r" for s d p m
    using pseudohdr_raw_unat [of c] by blast
  assume "fa_rewrite n src dst b = Inl f"
  then have "click_in_cksum_pseudohdr (ucast c) b5 0 n = Inl f"
    by (cases "click_in_cksum_pseudohdr (ucast c) b5 0 n") (simp_all add: fa_rewrite_def put_udp_sum_def b5_def c_def Let_def)
  then show ?thesis
    using raw pseudohdr_opts_fault [of b5 20 "4 * unat (ip_hl b5 0)"]
    by (cases "pseudohdr_opts b5 20 (4 * unat (ip_hl b5 0))")
      (auto simp: click_in_cksum_pseudohdr_def click_in_cksum_pseudohdr_hard_def split: if_splits, (metis sum.distinct(1))+)
qed

text \<open>On a message without IP options whose UDP part is exactly \<open>n\<close> bytes both checksums
  verify afterwards, the addresses are the new ones and nothing else changes.\<close>

lemma fa_rewrite_ok:
  assumes "length b = n + 20" "8 \<le> n" "n < 65516" "ip_hl b 0 = 5"
  shows "\<exists>d. fa_rewrite n src dst b = Inr d \<and> length d = length b \<and> ip_sum_ok d \<and> udp_sum_ok d \<and>
    get32 d 12 = src \<and> get32 d 16 = dst \<and> take 10 d = take 10 b \<and>
    take 6 (drop 20 d) = take 6 (drop 20 b) \<and> drop 28 d = drop 28 b"
proof -
  define b3 where "b3 = put32 (put32 (put16 b 10 0) 12 src) 16 dst"
  define b5 where "b5 = put16 (put_ip_sum 20 b3) 26 0"
  have len: "length b5 = n + 20" "length b3 = n + 20" "28 \<le> length b5" "length b5 \<le> 65535"
    using assms by (simp_all add: b5_def b3_def)
  have "ip_hl b5 0 = 5" "get16 b5 26 = 0"
    using assms len by (simp_all add: b5_def b3_def)
  then obtain s where s: "put_udp_sum n b5 = Inr (put16 b5 26 s)" "udp_sum_ok (put16 b5 26 s)"
    using put_udp_sum_ok [of b5] len by auto
  have "ip_sum_ok (put_ip_sum 20 b3)"
    by (rule put_ip_sum_ok) (use assms len in \<open>simp_all add: b3_def\<close>)
  then have ip: "ip_sum_ok (put16 b5 26 s)" by (simp add: ip_sum_ok_def b5_def)
  have "fa_rewrite n src dst b = Inr (put16 b5 26 s)"
    using s(1) by (simp add: fa_rewrite_def Let_def b5_def b3_def)
  moreover have "take 10 (put16 b5 26 s) = take 10 b" "drop 28 (put16 b5 26 s) = drop 28 b"
    by (simp_all add: b5_def b3_def put_ip_sum_def)
  moreover have "take 6 (drop 20 (put16 b5 26 s)) = take 6 (drop 20 b)"
  proof -
    have "take 6 (drop 20 x) = drop 20 (take 26 x)" for x :: bytes by (simp add: take_drop)
    then show ?thesis
      using f16.drop_put_before [of 10 20] assms
      by (simp add: b5_def b3_def put_ip_sum_def)
  qed
  moreover have "get32 (put16 b5 26 s) 12 = src" "get32 (put16 b5 26 s) 16 = dst"
    using assms by (simp_all add: b5_def b3_def)
  ultimately show ?thesis using s(2) ip len assms by auto
qed

lemma read_drop:
  "28 + 24 \<le> length b \<Longrightarrow> read_req b 28 = read_req (drop 28 b) 0"
  "28 + 20 \<le> length b \<Longrightarrow> read_reply b 28 = read_reply (drop 28 b) 0"
  by (simp_all add: read_req_def read_reply_def)

lemma get_drop_eq:
  assumes "take n (drop k d) = take n (drop k b)" "i + 2 \<le> n" "k + n \<le> length d" "k + n \<le> length b"
  shows "get16 d (k + i) = get16 b (k + i)"
  using get_take_eq(2) [OF assms(1,2)] assms(2-4) by simp

text \<open>What a relayed message looks like at the receiver.\<close>

definition relayed :: "u32 \<Rightarrow> u32 \<Rightarrow> bytes \<Rightarrow> packet \<Rightarrow> bool" where
  "relayed src dst b q \<longleftrightarrow> (let d = pk_data q in
     \<not> shared q \<and> pk_dst_ip q = dst \<and> length d = length b \<and> ip_sum_ok d \<and> udp_sum_ok d \<and>
     ip_hl d 0 = ip_hl b 0 \<and> get32 d 12 = src \<and> get32 d 16 = dst \<and>
     get16 d 20 = get16 b 20 \<and> get16 d 22 = get16 b 22 \<and> drop 28 d = drop 28 b)"

lemma fa_rewrite_relayed:
  assumes "length b = n + 20" "8 \<le> n" "n < 65516" "ip_hl b 0 = 5" "\<not> shared p"
  shows "\<exists>d. fa_rewrite n src dst b = Inr d \<and>
    relayed src dst b (set_dst_ip_anno dst (with_data p (\<lambda>_. d)))"
proof -
  obtain d where d: "fa_rewrite n src dst b = Inr d" "length d = length b" "ip_sum_ok d" "udp_sum_ok d"
      "get32 d 12 = src" "get32 d 16 = dst" "take 10 d = take 10 b"
      "take 6 (drop 20 d) = take 6 (drop 20 b)" "drop 28 d = drop 28 b"
    using fa_rewrite_ok [OF assms(1-4)] by blast
  have "get16 d 20 = get16 b 20" "get16 d 22 = get16 b 22"
    using get_drop_eq [OF d(8), of 0] get_drop_eq [OF d(8), of 2] assms(1,2) d(2) by simp_all
  moreover have "ip_hl d 0 = ip_hl b 0"
    using get_take_eq(1) [OF d(7), of 0] by (simp add: ip_hl_def)
  ultimately show ?thesis
    using d assms(5)
    by (auto simp: relayed_def set_dst_ip_anno_def with_data_def shared_def Let_def)
qed

lemma relayed_read:
  assumes "relayed src dst b q"
  shows "52 \<le> length b \<Longrightarrow> read_req (pk_data q) 28 = read_req b 28"
    "48 \<le> length b \<Longrightarrow> read_reply (pk_data q) 28 = read_reply b 28"
  using assms by (simp_all add: relayed_def read_drop Let_def)

section \<open>What the handlers keep\<close>

lemma fa_validate_result:
  "fa_validatePacket a b = (code, a') \<Longrightarrow>
     code \<in> {1, 66, 69, 70, 72} \<and> (code \<noteq> 1 \<longrightarrow> a' = a) \<and>
     (code = 1 \<longrightarrow> int (seconds (rq_lifetime (read_req b 28))) \<le> lifetimeReg a)"
  by (auto simp: fa_validatePacket_def Let_def seconds_def split: if_splits)

lemma fa_validate_accept:
  assumes "visitors_inv a" "fa_validatePacket a b = (1, a')"
  shows "a' = a\<lparr>registrationReq := registrationReq a @ [fa_pending_item b]\<rparr>"
  using assms by (auto simp: fa_validatePacket_def Let_def visitors_inv_def vec_push_back_def split: if_splits)

text \<open>No handler of the foreign agent touches the bindings.\<close>

definition same_bindings :: "AgentBase \<Rightarrow> AgentBase \<Rightarrow> bool" where
  "same_bindings a a' \<longleftrightarrow> reg_list a' = reg_list a \<and> reg_table a' = reg_table a \<and> maxRequests a' = maxRequests a \<and> visitors_inv a'"

lemma same_bindings_refl: "visitors_inv a \<Longrightarrow> same_bindings a a"
  by (simp add: same_bindings_def)

lemma same_bindings_inv:
  assumes "same_bindings a a'"
  shows "bindings_listed a' = bindings_listed a" "unbound a' = unbound a" "bindings a' = bindings a" "agent_inv a \<Longrightarrow> agent_inv a'"
  using assms by (simp_all add: same_bindings_def bindings_listed_def unbound_def bindings_def agent_inv_def bindings_inv_def)

lemma fa_validate_keeps:
  assumes "visitors_inv a" "fa_validatePacket a b = (code, a')"
  shows "same_bindings a a'"
  using assms by (auto simp: fa_validatePacket_def Let_def same_bindings_def visitors_inv_def vec_push_back_def split: if_splits)

lemma fa_deny_data_ok:
  "\<exists>d. fa_deny_data a b code = Inr d \<and> length d = 52 \<and> ip_sum_ok d \<and> udp_sum_ok d \<and>
     get32 d 12 = get32 b 16 \<and> get32 d 16 = get32 b 12 \<and>
     get16 d 20 = get16 b 22 \<and> get16 d 22 = get16 b 20 \<and>
     read_reply d 28 = \<lparr>rp_type = 3, rp_code = ucast code,
       rp_lifetime = (if code = 69 then htons (of_int (lifetimeReg a)) else rq_lifetime (read_req b 28)),
       rp_homeAddr = rq_homeAddr (read_req b 28), rp_homeAgent = rq_homeAgent (read_req b 28),
       rp_id1 = rq_id1 (read_req b 28), rp_id2 = rq_id2 (read_req b 28)\<rparr>"
proof -
  define r where "r = \<lparr>rp_type = 3, rp_code = ucast code,
       rp_lifetime = (if code = 69 then htons (of_int (lifetimeReg a)) else rq_lifetime (read_req b 28)),
       rp_homeAddr = rq_homeAddr (read_req b 28), rp_homeAgent = rq_homeAgent (read_req b 28),
       rp_id1 = rq_id1 (read_req b 28), rp_id2 = rq_id2 (read_req b 28)\<rparr>"
  show ?thesis
    using make_udp_message_ok [of 52 "\<lambda>c. put_reply c 28 r" 12 "get32 b 16" "get32 b 12"
        "get16 b 22" "get16 b 20"]
    by (auto simp: fa_deny_data_def r_def [symmetric] Let_def)
qed

text \<open>What the elements in front of the agent guarantee of a packet: its IP header lies inside
  the data, and the packet can be made writable.\<close>

definition header_fits :: "packet \<Rightarrow> bool" where
  "header_fits p \<longleftrightarrow> 4 * unat (ip_hl (pk_data p) 0) \<le> pk_length p"

definition writable :: "environ \<Rightarrow> packet \<Rightarrow> bool" where
  "writable env p \<longleftrightarrow> env_copy env \<or> \<not> shared p"

lemma writable_uniqueify: "writable env p \<Longrightarrow> \<exists>q. uniqueify env p = Some q \<and> pk_data q = pk_data p"
  using uniqueify_None [of env p] uniqueify_Some [of env p]
  by (cases "uniqueify env p") (auto simp: writable_def)

text \<open>How the handler of requests ends: normally, or with one of three faults.\<close>

lemma fa_push_result:
  assumes inv: "visitors_inv a"
  shows "case ForeignAgentReqProcess_push env a p of
      Inr (a', as) \<Rightarrow> same_bindings a a'
    | Inl f \<Rightarrow> 52 \<le> pk_length p \<and> (f = NullDeref \<and> \<not> writable env p \<or> f = UseAfterKill \<and> shared p \<and> \<not> is_request p \<and> writable env p
        \<or> f = OutOfBounds \<and> \<not> header_fits p)"
proof (cases "52 \<le> pk_length p \<and> writable env p \<and> is_request p")
  case True
  obtain q where q: "uniqueify env p = Some q" "pk_data q = pk_data p" using writable_uniqueify True by blast
  obtain code a' where v: "fa_validatePacket a (pk_data p) = (code, a')" by fastforce
  have keep: "same_bindings a a'" using fa_validate_keeps [OF inv v] .
  obtain d where deny: "fa_deny_data a' (pk_data p) code = Inr d" using fa_deny_data_ok by blast
  let ?r = "fa_rewrite 32 (public_addr a') (rq_homeAgent (read_req (pk_data p) 28)) (pk_data p)"
  have fits: "header_fits p \<Longrightarrow> \<exists>d. ?r = Inr d"
    using fa_rewrite_total [of "pk_data p" 32] True by (auto simp: header_fits_def pk_length_def)
  show ?thesis
    using True q v deny keep fits fa_rewrite_fault [of 32 _ _ "pk_data p"]
    by (cases ?r) (auto simp: ForeignAgentReqProcess_push_def is_request_def Let_def split: option.splits)
next
  case False
  then show ?thesis
    using same_bindings_refl [OF inv] uniqueify_None [of env p] uniqueify_Some [of env p]
    by (cases "uniqueify env p") (auto simp: ForeignAgentReqProcess_push_def is_request_def writable_def guard_def Let_def)
qed

lemma fa_push_faults:
  assumes "52 \<le> pk_length p" "shared p"
  shows "\<not> env_copy env \<Longrightarrow> ForeignAgentReqProcess_push env a p = Inl NullDeref"
    and "env_copy env \<Longrightarrow> rq_type (read_req (pk_data p) 28) \<noteq> 1 \<Longrightarrow> ForeignAgentReqProcess_push env a p = Inl UseAfterKill"
proof -
  assume "\<not> env_copy env"
  then have "uniqueify env p = None" using assms(2) by (simp add: uniqueify_None)
  then show "ForeignAgentReqProcess_push env a p = Inl NullDeref" using assms(1) by (simp add: ForeignAgentReqProcess_push_def)
next
  assume *: "env_copy env" "rq_type (read_req (pk_data p) 28) \<noteq> 1"
  then obtain q where "uniqueify env p = Some q" "pk_data q = pk_data p" using writable_uniqueify [of env p] by (auto simp: writable_def)
  then show "ForeignAgentReqProcess_push env a p = Inl UseAfterKill"
    using assms * by (simp add: ForeignAgentReqProcess_push_def guard_def Let_def)
qed

text \<open>A request that passes validation is relayed and becomes pending.\<close>

lemma fa_push_relay:
  assumes "visitors_inv a" "length (pk_data p) = 52" "rq_type (read_req (pk_data p) 28) = 1"
    "\<not> shared p" "ip_hl (pk_data p) 0 = 5" "fst (fa_validatePacket a (pk_data p)) = 1"
  shows "\<exists>q. ForeignAgentReqProcess_push env a p =
      Inr (a\<lparr>registrationReq := registrationReq a @ [fa_pending_item (pk_data p)]\<rparr>, [Emit 1 q]) \<and>
    relayed (public_addr a) (rq_homeAgent (read_req (pk_data p) 28)) (pk_data p) q"
proof -
  define b where "b = pk_data p"
  obtain a' where v: "fa_validatePacket a b = (1, a')"
    using assms(6) by (cases "fa_validatePacket a b") (simp add: b_def)
  have a': "a' = a\<lparr>registrationReq := registrationReq a @ [fa_pending_item b]\<rparr>"
    by (rule fa_validate_accept [OF assms(1) v])
  obtain d where d: "fa_rewrite 32 (public_addr a) (rq_homeAgent (read_req b 28)) b = Inr d"
      "relayed (public_addr a) (rq_homeAgent (read_req b 28)) b
         (set_dst_ip_anno (rq_homeAgent (read_req b 28)) (with_data p (\<lambda>_. d)))"
    using fa_rewrite_relayed [of b 32 p] assms by (auto simp: b_def)
  show ?thesis
    using assms v a' d
    by (auto simp: ForeignAgentReqProcess_push_def pk_length_def Let_def b_def [symmetric])
qed

section \<open>Acceptance and denial\<close>

lemma visitor_erase_filter: "visitor_erase ip vis = Inr (filter (\<lambda>it. li_ipSrc it \<noteq> ip) vis)"
proof -
  have "List.map_filter (\<lambda>it. if li_ipSrc it = ip then None else Some it) vis =
      filter (\<lambda>it. li_ipSrc it \<noteq> ip) vis"
    by (induction vis) (auto simp: List.map_filter_simps)
  then show ?thesis by (simp only: visitor_erase_def fwd_loop_sweep sweep_pure) simp
qed

lemma fa_accept_eq:
  "fa_accept junk r a = Inr (case find (same_ids r) (registrationReq a) of
     None \<Rightarrow> a
   | Some it \<Rightarrow> a\<lparr>registrationReq := del1 (same_ids r) (registrationReq a),
       visitorMap := filter (\<lambda>v. li_ipSrc v \<noteq> li_ipSrc it) (visitorMap a) @ [fa_visitor_item junk r it]\<rparr>)"
  by (simp add: fa_accept_def visitor_erase_filter erase_first_del1 vec_push_back_def Let_def
      fa_visitor_item_def split: option.splits)

lemma fa_accept_keeps:
  assumes "visitors_inv a" "fa_accept junk r a = Inr a'"
  shows "same_bindings a a'"
  using assms length_del1 [of "same_ids r" "registrationReq a"]
  by (auto simp: fa_accept_eq same_bindings_def visitors_inv_def fa_visitor_item_def Let_def distinct_map inj_on_def split: option.splits)

lemma fa_denied_keeps: "visitors_inv a \<Longrightarrow> same_bindings a (fa_denied r a)"
  using length_del1 [of "same_ids r" "registrationReq a"]
  by (auto simp: fa_denied_def same_bindings_def visitors_inv_def erase_first_del1)

lemma fa_reply_relay:
  assumes "length (pk_data p) = 48" "rp_type (read_reply (pk_data p) 28) = 3"
    "rp_code (read_reply (pk_data p) 28) = 0" "\<not> shared p" "ip_hl (pk_data p) 0 = 5"
    and acc: "fa_accept (get16 (map (env_mem env) [0..<2]) 0) (read_reply (pk_data p) 28) a = Inr a'"
  shows "\<exists>q. ForeignAgentReplyProcess_push env a p = Inr (a', [Emit 0 q]) \<and>
    relayed (private_addr a') (rp_homeAddr (read_reply (pk_data p) 28)) (pk_data p) q"
proof -
  define b where "b = pk_data p"
  obtain d where d: "fa_rewrite 28 (private_addr a') (rp_homeAddr (read_reply b 28)) b = Inr d"
      "relayed (private_addr a') (rp_homeAddr (read_reply b 28)) b
         (set_dst_ip_anno (rp_homeAddr (read_reply b 28)) (with_data p (\<lambda>_. d)))"
    using fa_rewrite_relayed [of b 28 p] assms(1,4,5) by (auto simp: b_def)
  show ?thesis
    using assms d
    by (auto simp: ForeignAgentReplyProcess_push_def pk_length_def Let_def b_def [symmetric])
qed

text \<open>How the handler of replies ends.\<close>

lemma fa_reply_result:
  assumes inv: "visitors_inv a"
  shows "case ForeignAgentReplyProcess_push env a p of
      Inr (a', as) \<Rightarrow> same_bindings a a'
    | Inl f \<Rightarrow> 48 \<le> pk_length p \<and> (f = NullDeref \<and> \<not> writable env p \<or> f = OutOfBounds \<and> \<not> header_fits p)"
proof (cases "48 \<le> pk_length p \<and> writable env p")
  case True
  obtain q where q: "uniqueify env p = Some q" "pk_data q = pk_data p" using writable_uniqueify True by blast
  define r where "r = read_reply (pk_data p) 28"
  define junk where "junk = get16 (map (env_mem env) [0..<2]) 0"
  obtain c where c: "fa_accept junk r a = Inr c" using fa_accept_eq by blast
  obtain a' where a': "(if rp_code r = 0 \<or> rp_code r = 1 then fa_accept junk r a else Inr (fa_denied r a)) = Inr a'" "same_bindings a a'"
    using that fa_accept_keeps [OF inv c] fa_denied_keeps [OF inv, of r] c by (cases "rp_code r = 0 \<or> rp_code r = 1") simp_all
  let ?w = "fa_rewrite 28 (private_addr a') (rp_homeAddr r) (pk_data p)"
  have fits: "header_fits p \<Longrightarrow> \<exists>d. ?w = Inr d"
    using fa_rewrite_total [of "pk_data p" 28] True by (auto simp: header_fits_def pk_length_def)
  have "ForeignAgentReplyProcess_push env a p = (if rp_type r \<noteq> 3 then Inr (a, [Kill q])
      else bind_res ?w (\<lambda>d. Inr (a', [Emit 0 (set_dst_ip_anno (rp_homeAddr r) (with_data q (\<lambda>_. d)))])))"
    using True q a'(1)
    by (cases "rp_code r = 0 \<or> rp_code r = 1") (simp_all add: ForeignAgentReplyProcess_push_def Let_def r_def [symmetric] junk_def [symmetric])
  then show ?thesis
    using True a'(2) same_bindings_refl [OF inv] fits fa_rewrite_fault [of 28 _ _ "pk_data p"] by (cases ?w) auto
next
  case False
  then show ?thesis
    using same_bindings_refl [OF inv] uniqueify_None [of env p] by (auto simp: ForeignAgentReplyProcess_push_def writable_def)
qed

lemma fa_reply_fault: "48 \<le> pk_length p \<Longrightarrow> shared p \<Longrightarrow> \<not> env_copy env \<Longrightarrow> ForeignAgentReplyProcess_push env a p = Inl NullDeref"
  using uniqueify_None [of env p] by (simp add: ForeignAgentReplyProcess_push_def)

section \<open>The timer\<close>

definition fa_visitor_step :: "listItem \<Rightarrow> listItem option" where
  "fa_visitor_step it = map_option (\<lambda>l. it\<lparr>li_lifetimeRem := l\<rparr>) (drop_dec (li_lifetimeRem it))"

lemma fa_visitor_loop:
  "fwd_loop fa_visitor_body 0 vis () = Inr (List.map_filter fa_visitor_step vis, ())"
proof -
  have body: "fa_visitor_body = (\<lambda>it s. Inr (fa_visitor_step it, s))"
    by (intro ext) (simp add: fa_visitor_body_def fa_visitor_step_def drop_dec_def)
  show ?thesis unfolding fwd_loop_sweep body by (rule sweep_pure)
qed

lemma fa_timeout_data_ok:
  "\<exists>d. fa_timeout_data it = Inr d \<and> length d = 48 \<and> ip_sum_ok d \<and> udp_sum_ok d \<and>
     get32 d 12 = li_ipDst it \<and> get32 d 16 = li_ipSrc it \<and>
     get16 d 20 = li_udpDst it \<and> get16 d 22 = li_udpSrc it \<and>
     read_reply d 28 = \<lparr>rp_type = 3, rp_code = 78, rp_lifetime = li_lifetimeReq it,
       rp_homeAddr = li_ipSrc it, rp_homeAgent = li_homeAgent it, rp_id1 = li_id1 it, rp_id2 = li_id2 it\<rparr>"
proof -
  define r where "r = \<lparr>rp_type = 3, rp_code = 78, rp_lifetime = li_lifetimeReq it,
       rp_homeAddr = li_ipSrc it, rp_homeAgent = li_homeAgent it, rp_id1 = li_id1 it, rp_id2 = li_id2 it\<rparr>"
  show ?thesis
    using make_udp_message_ok [of 48 "\<lambda>c. put_reply c 28 r" 12 "li_ipDst it" "li_ipSrc it"
        "li_udpDst it" "li_udpSrc it"]
    by (auto simp: fa_timeout_data_def r_def [symmetric])
qed

lemma fa_pending_body_total: "\<exists>r s'. fa_pending_body env it s = Inr (r, s')"
proof -
  obtain d where "fa_timeout_data (it\<lparr>li_lifetimeRem := tick16 (li_lifetimeRem it)\<rparr>) = Inr d"
    using fa_timeout_data_ok by blast
  then show ?thesis by (auto simp: fa_pending_body_def Let_def split: prod.splits option.splits)
qed

lemma fa_pending_loop_total:
  "\<exists>ys t. bwd_loop (fa_pending_body env) (length xs) xs s = Inr (ys, t) \<and> length ys \<le> length xs"
  using sweep_invariant [of "rev xs" "\<lambda>_. True" "fa_pending_body env" s] fa_pending_body_total
  by (fastforce simp: bwd_loop_sweep)

lemma fa_timer_keeps:
  assumes "visitors_inv a"
  obtains a' as where "ForeignAgentReqProcess_run_timer env a = Inr (a', as)" "same_bindings a a'"
proof -
  obtain ys t where l: "bwd_loop (fa_pending_body env) (length (registrationReq a)) (registrationReq a)
      (False, 0, []) = Inr (ys, t)" "length ys \<le> length (registrationReq a)"
    using fa_pending_loop_total by blast
  obtain stop i as where t: "t = (stop, i, as)" by (cases t) auto
  have "distinct (map li_ipSrc (List.map_filter fa_visitor_step (visitorMap a)))"
    using assms by (intro distinct_map_filter) (auto simp: visitors_inv_def fa_visitor_step_def)
  then have "\<exists>a' as. ForeignAgentReqProcess_run_timer env a = Inr (a', as) \<and> same_bindings a a'"
    using l t assms
    by (cases stop) (auto simp: ForeignAgentReqProcess_run_timer_def fa_visitor_loop same_bindings_def visitors_inv_def Let_def)
  then show ?thesis using that by blast
qed

text \<open>What a run does to one pending request when packets can be allocated.\<close>

definition fa_ticked :: "listItem \<Rightarrow> listItem" where
  "fa_ticked it = it\<lparr>li_lifetimeRem := tick16 (li_lifetimeRem it)\<rparr>"

definition fa_timed_out :: "listItem \<Rightarrow> bool" where
  "fa_timed_out it \<longleftrightarrow> li_lifetimeRem (fa_ticked it) \<noteq> 0 \<and> fa_waited_too_long (fa_ticked it)"

definition fa_pending_step :: "listItem \<Rightarrow> listItem option" where
  "fa_pending_step it =
     (if li_lifetimeRem (fa_ticked it) = 0 \<or> fa_timed_out it then None else Some (fa_ticked it))"

text \<open>The denial with code 78 for a request: its message, address and checksums.\<close>

definition fa_timeout_reply :: "listItem \<Rightarrow> nat \<times> packet \<Rightarrow> bool" where
  "fa_timeout_reply it e \<longleftrightarrow> (let q = snd e; d = pk_data q in
     fst e = 0 \<and> pk_dst_ip q = li_ipSrc it \<and> length d = 48 \<and> ip_sum_ok d \<and> udp_sum_ok d \<and>
     get32 d 16 = li_ipSrc it \<and> get16 d 22 = li_udpSrc it \<and>
     read_reply d 28 = \<lparr>rp_type = 3, rp_code = 78, rp_lifetime = li_lifetimeReq it,
       rp_homeAddr = li_ipSrc it, rp_homeAgent = li_homeAgent it, rp_id1 = li_id1 it, rp_id2 = li_id2 it\<rparr>)"

lemma fa_pending_body_step:
  assumes "env_packet env i"
  shows "\<exists>as'. fa_pending_body env it (False, i, as) =
      Inr (fa_pending_step it, (False, if fa_timed_out it then i + 1 else i, as @ as')) \<and>
    list_all2 fa_timeout_reply (filter fa_timed_out [it]) (emitted as')"
proof (cases "fa_timed_out it")
  case True
  obtain d where d: "fa_timeout_data (fa_ticked it) = Inr d" "length d = 48" "ip_sum_ok d" "udp_sum_ok d"
      "get32 d 16 = li_ipSrc it" "get16 d 22 = li_udpSrc it"
      "read_reply d 28 = \<lparr>rp_type = 3, rp_code = 78, rp_lifetime = li_lifetimeReq it,
       rp_homeAddr = li_ipSrc it, rp_homeAgent = li_homeAgent it, rp_id1 = li_id1 it, rp_id2 = li_id2 it\<rparr>"
    using fa_timeout_data_ok [of "fa_ticked it"] by (auto simp: fa_ticked_def)
  obtain q where "packet_make env i 18 None 48 0 = Some q"
    using assms by (simp add: packet_make_def Let_def)
  then show ?thesis
    using True d
    by (auto simp: fa_pending_body_def fa_timed_out_def fa_pending_step_def fa_ticked_def Let_def
      fa_timeout_reply_def set_dst_ip_anno_def with_data_def)
next
  case False
  then show ?thesis
    by (auto simp: fa_pending_body_def fa_timed_out_def fa_pending_step_def fa_ticked_def Let_def)
qed

lemma fa_pending_sweep:
  assumes "\<forall>i. env_packet env i"
  shows "\<exists>j as'. sweep (fa_pending_body env) xs (False, i, as) =
      Inr (List.map_filter fa_pending_step xs, (False, j, as @ as')) \<and>
    list_all2 fa_timeout_reply (filter fa_timed_out xs) (emitted as')"
proof (induction xs arbitrary: i as)
  case Nil
  show ?case by (auto simp: List.map_filter_simps)
next
  case (Cons x xs)
  obtain as1 where 1: "fa_pending_body env x (False, i, as) =
      Inr (fa_pending_step x, (False, if fa_timed_out x then i + 1 else i, as @ as1))"
      "list_all2 fa_timeout_reply (filter fa_timed_out [x]) (emitted as1)"
    using fa_pending_body_step assms by blast
  obtain j as2 where 2: "sweep (fa_pending_body env) xs (False, if fa_timed_out x then i + 1 else i, as @ as1) =
      Inr (List.map_filter fa_pending_step xs, (False, j, (as @ as1) @ as2))"
      "list_all2 fa_timeout_reply (filter fa_timed_out xs) (emitted as2)"
    using Cons.IH by blast
  have "list_all2 fa_timeout_reply (filter fa_timed_out [x] @ filter fa_timed_out xs) (emitted (as1 @ as2))"
    using 1(2) 2(2) by (simp add: list_all2_appendI)
  moreover have "filter fa_timed_out [x] @ filter fa_timed_out xs = filter fa_timed_out (x # xs)" by simp
  ultimately have "list_all2 fa_timeout_reply (filter fa_timed_out (x # xs)) (emitted (as1 @ as2))"
    by (simp only:)
  then show ?case
    using 1(1) 2(1)
    by (intro exI [of _ j] exI [of _ "as1 @ as2"])
      (cases "fa_pending_step x"; simp add: List.map_filter_simps)
qed

lemma fa_timer_exact:
  assumes "\<forall>i. env_packet env i"
  shows "\<exists>as. ForeignAgentReqProcess_run_timer env a =
      Inr (a\<lparr>registrationReq := List.map_filter fa_pending_step (registrationReq a),
             visitorMap := List.map_filter fa_visitor_step (visitorMap a)\<rparr>, as @ [Schedule 0 1000]) \<and>
    list_all2 fa_timeout_reply (filter fa_timed_out (rev (registrationReq a))) (emitted as)"
proof -
  obtain j as where s: "sweep (fa_pending_body env) (rev (registrationReq a)) (False, 0, []) =
      Inr (List.map_filter fa_pending_step (rev (registrationReq a)), (False, j, [] @ as))"
      "list_all2 fa_timeout_reply (filter fa_timed_out (rev (registrationReq a))) (emitted as)"
    using fa_pending_sweep [OF assms] by blast
  then show ?thesis
    by (intro exI [of _ as])
      (simp add: ForeignAgentReqProcess_run_timer_def bwd_loop_sweep fa_visitor_loop rev_map_filter Let_def)
qed

section \<open>How long a request stays pending\<close>

primrec pending_after :: "nat \<Rightarrow> listItem \<Rightarrow> listItem option" where
  "pending_after 0 it = Some it"
| "pending_after (Suc n) it = Option.bind (pending_after n it) fa_pending_step"

lemma fa_waited_iff:
  assumes "seconds (li_lifetimeRem it) div 256 = seconds (li_lifetimeReq it) div 256"
  shows "fa_waited_too_long it \<longleftrightarrow>
    seconds (li_lifetimeReq it) mod 256 = seconds (li_lifetimeRem it) mod 256 + 7"
proof -
  define r l where "r = seconds (li_lifetimeReq it) mod 256" and "l = seconds (li_lifetimeRem it) mod 256"
  define h where "h = seconds (li_lifetimeReq it) div 256"
  have seven: "unat (htons 7) = 1792" by (simp add: htons_unat)
  have "unat (li_lifetimeReq it) = r * 256 + h" "unat (li_lifetimeRem it) = l * 256 + h"
    using assms unat_seconds [of "li_lifetimeReq it"] unat_seconds [of "li_lifetimeRem it"]
    by (simp_all only: r_def l_def h_def)
  then have "fa_waited_too_long it \<longleftrightarrow> int (r * 256 + h) - int (l * 256 + h) = 1792"
    unfolding fa_waited_too_long_def by (simp only: seven of_nat_numeral)
  also have "\<dots> \<longleftrightarrow> r = l + 7" by auto
  finally show ?thesis by (simp only: r_def l_def)
qed

lemma fa_ticked_sel [simp]:
  "li_lifetimeRem (fa_ticked it) = tick16 (li_lifetimeRem it)"
  "li_lifetimeReq (fa_ticked it) = li_lifetimeReq it"
  by (simp_all add: fa_ticked_def)

lemma pending_after_small:
  assumes fresh: "li_lifetimeRem it = li_lifetimeReq it" and L: "seconds (li_lifetimeReq it) < 256"
    and n: "n < 7" "n < seconds (li_lifetimeReq it)"
  shows "\<exists>it'. pending_after n it = Some it' \<and> li_lifetimeReq it' = li_lifetimeReq it \<and>
    seconds (li_lifetimeRem it') = seconds (li_lifetimeReq it) - n"
  using n
proof (induction n)
  case 0
  then show ?case using fresh by simp
next
  case (Suc n)
  then obtain it' where it': "pending_after n it = Some it'" "li_lifetimeReq it' = li_lifetimeReq it"
      "seconds (li_lifetimeRem it') = seconds (li_lifetimeReq it) - n" by auto
  have s: "seconds (tick16 (li_lifetimeRem it')) = seconds (li_lifetimeReq it) - Suc n"
    using Suc.prems L it'(3) by (subst seconds_tick_small) auto
  have nz: "tick16 (li_lifetimeRem it') \<noteq> 0"
    using s Suc.prems by (metis diff_is_0_eq linorder_not_le seconds_0)
  have "\<not> fa_waited_too_long (fa_ticked it')"
    using s Suc.prems L it'(2) by (subst fa_waited_iff) auto
  then show ?case using it' s nz by (simp add: fa_pending_step_def fa_timed_out_def)
qed

lemma pending_times_out:
  assumes fresh: "li_lifetimeRem it = li_lifetimeReq it"
    and L: "7 < seconds (li_lifetimeReq it)" "seconds (li_lifetimeReq it) < 256"
  shows "\<exists>it'. pending_after 6 it = Some it' \<and> fa_timed_out it' \<and> pending_after 7 it = None"
proof -
  obtain it' where it': "pending_after 6 it = Some it'" "li_lifetimeReq it' = li_lifetimeReq it"
      "seconds (li_lifetimeRem it') = seconds (li_lifetimeReq it) - 6"
    using pending_after_small [OF fresh L(2), of 6] L by auto
  have s: "seconds (tick16 (li_lifetimeRem it')) = seconds (li_lifetimeReq it) - 7"
    using L it'(3) by (subst seconds_tick_small) auto
  have "tick16 (li_lifetimeRem it') \<noteq> 0"
    using s L by (metis diff_is_0_eq linorder_not_le seconds_0)
  moreover have "fa_waited_too_long (fa_ticked it')"
    using s L it'(2) by (subst fa_waited_iff) auto
  ultimately have "fa_timed_out it'" by (simp add: fa_timed_out_def)
  moreover from this have "pending_after (Suc 6) it = None"
    by (simp only: pending_after.simps it'(1)) (simp add: fa_pending_step_def)
  moreover have "Suc 6 = (7 :: nat)" by simp
  ultimately show ?thesis using it'(1) by (metis)
qed

text \<open>A request for 256 seconds or more whose low byte is below seven is never dropped.\<close>

lemma pending_stuck:
  assumes fresh: "li_lifetimeRem it = li_lifetimeReq it"
    and L: "256 \<le> seconds (li_lifetimeReq it)" "seconds (li_lifetimeReq it) mod 256 < 7"
  shows "\<exists>it'. pending_after n it = Some it' \<and> li_lifetimeReq it' = li_lifetimeReq it \<and>
    seconds (li_lifetimeRem it') div 256 = seconds (li_lifetimeReq it) div 256 \<and>
    256 \<le> seconds (li_lifetimeRem it')"
proof (induction n)
  case 0
  then show ?case using assms by simp
next
  case (Suc n)
  then obtain it' where it': "pending_after n it = Some it'" "li_lifetimeReq it' = li_lifetimeReq it"
    "seconds (li_lifetimeRem it') div 256 = seconds (li_lifetimeReq it) div 256"
    "256 \<le> seconds (li_lifetimeRem it')" by blast
  have "\<not> fa_waited_too_long (fa_ticked it')"
    using it'(2,3) L(2) seconds_tick_high [of "li_lifetimeRem it'"] by (subst fa_waited_iff) auto
  then show ?case
    using it' tick_not_0 [OF it'(4)] tick_long [OF it'(4)] seconds_tick_high [of "li_lifetimeRem it'"]
    by (simp add: fa_pending_step_def fa_timed_out_def)
qed

section \<open>Visitor entries expire\<close>

definition visitor_life :: "AgentBase \<Rightarrow> u32 \<Rightarrow> u16 option" where
  "visitor_life a k = map_option li_lifetimeRem (find (\<lambda>it. li_ipSrc it = k) (visitorMap a))"

definition fa_tick :: "environ \<Rightarrow> AgentBase \<Rightarrow> AgentBase res" where
  "fa_tick env a = bind_res (ForeignAgentReqProcess_run_timer env a) (\<lambda>(a', as). Inr a')"

interpretation fa_visitors: expiring visitor_life fa_tick "\<lambda>env. \<forall>i. env_packet env i" agent_inv drop_dec
proof
  fix a :: AgentBase and env :: environ
  assume inv: "agent_inv a" and good: "\<forall>i. env_packet env i"
  define a' where "a' = a\<lparr>registrationReq := List.map_filter fa_pending_step (registrationReq a),
             visitorMap := List.map_filter fa_visitor_step (visitorMap a)\<rparr>"
  have t: "fa_tick env a = Inr a'"
    using fa_timer_exact [OF good, of a] by (auto simp: fa_tick_def a'_def)
  have "visitors_inv a" using inv by (simp add: agent_inv_def)
  then obtain a2 as where "ForeignAgentReqProcess_run_timer env a = Inr (a2, as)" "same_bindings a a2" by (rule fa_timer_keeps)
  then have "agent_inv a'" using t same_bindings_inv(4) [of a a2] inv by (simp add: fa_tick_def)
  moreover have "visitor_life a' k = Option.bind (visitor_life a k) drop_dec" for k
  proof -
    have "find (\<lambda>it. li_ipSrc it = k) (visitorMap a') =
        Option.bind (find (\<lambda>it. li_ipSrc it = k) (visitorMap a)) fa_visitor_step"
      unfolding a'_def using inv
      by (simp, intro find_map_filter) (auto simp: agent_inv_def visitors_inv_def fa_visitor_step_def)
    then show ?thesis
      by (auto simp: visitor_life_def fa_visitor_step_def drop_dec_def split: Option.bind_splits)
  qed
  ultimately show "\<exists>s'. fa_tick env a = Inr s' \<and> agent_inv s' \<and>
      (\<forall>k. visitor_life s' k = Option.bind (visitor_life a k) drop_dec)"
    using t by blast
qed

section \<open>Properties\<close>

text \<open>The foreign agent's verdict on a request, in the order of its tests: too long a lifetime,
  flags that must be zero, an encapsulation it lacks, no room; otherwise the request is accepted
  and becomes the last pending one.\<close>

theorem fa_validation_codes:
  assumes "visitors_inv a"
  shows "fa_validatePacket a b = (let r = read_req b 28 in
     if lifetimeReg a < int (seconds (rq_lifetime r)) then (69, a)
     else if bit (rq_flags r) 0 \<or> bit (rq_flags r) 2 then (70, a)
     else if bit (rq_flags r) 3 \<or> bit (rq_flags r) 4 then (72, a)
     else if int (length (registrationReq a)) = maxRequests a then (66, a)
     else (1, a\<lparr>registrationReq := registrationReq a @ [fa_pending_item b]\<rparr>))"
  using assms bit_test [of 0 "rq_flags (read_req b 28)"] bit_test [of _ "rq_flags (read_req b 28)"]
  by (simp add: fa_validatePacket_def seconds_def vec_push_back_def visitors_inv_def Let_def)

theorem fa_validation_codes_witness:
  "fa_validatePacket (configured 20 21 25) (pk_data (request_packet sample_request)) =
     (1, (configured 20 21 25)\<lparr>registrationReq := [fa_pending_item (pk_data (request_packet sample_request))]\<rparr>)"
proof -
  have "seconds (htons 25) = 25" using seconds_htons [of 25] by simp
  then show ?thesis
    using fa_validation_codes [of "configured 20 21 25" "pk_data (request_packet sample_request)"]
      configured_inv(1) [of 20 21 25]
    by (simp add: agent_inv_def sample_request_def Let_def)
qed

text \<open>(C15) An accepted request leaves on output 1 for the home agent it names, from the foreign agent's
  public address, with the message and the UDP ports unchanged and both checksums valid, and it
  is pending afterwards.\<close>

theorem fa_relays_request:
  assumes "visitors_inv a" "length (pk_data p) = 52" "rq_type (read_req (pk_data p) 28) = 1"
    "\<not> shared p" "ip_hl (pk_data p) 0 = 5" "fst (fa_validatePacket a (pk_data p)) = 1"
  shows "\<exists>q. ForeignAgentReqProcess_push env a p =
      Inr (a\<lparr>registrationReq := registrationReq a @ [fa_pending_item (pk_data p)]\<rparr>, [Emit 1 q]) \<and>
    pk_dst_ip q = rq_homeAgent (read_req (pk_data p) 28) \<and>
    get32 (pk_data q) 12 = public_addr a \<and> get32 (pk_data q) 16 = rq_homeAgent (read_req (pk_data p) 28) \<and>
    get16 (pk_data q) 20 = get16 (pk_data p) 20 \<and> get16 (pk_data q) 22 = get16 (pk_data p) 22 \<and>
    read_req (pk_data q) 28 = read_req (pk_data p) 28 \<and> ip_sum_ok (pk_data q) \<and> udp_sum_ok (pk_data q)"
proof -
  obtain q where q: "ForeignAgentReqProcess_push env a p =
      Inr (a\<lparr>registrationReq := registrationReq a @ [fa_pending_item (pk_data p)]\<rparr>, [Emit 1 q])"
      "relayed (public_addr a) (rq_homeAgent (read_req (pk_data p) 28)) (pk_data p) q"
    using fa_push_relay [OF assms] by blast
  show ?thesis using q relayed_read(1) [OF q(2)] assms(2) by (auto simp: relayed_def Let_def)
qed

lemma sample_validates: "fst (fa_validatePacket (configured 20 21 25) (pk_data (request_packet sample_request))) = 1"
proof -
  have "seconds (htons 25) = 25" using seconds_htons [of 25] by simp
  then show ?thesis by (simp add: fa_validatePacket_def sample_request_def seconds_def Let_def)
qed

theorem fa_relays_request_witness:
  "\<exists>a' q. ForeignAgentReqProcess_push sample_env (configured 20 21 25) (request_packet sample_request) =
     Inr (a', [Emit 1 q]) \<and> read_req (pk_data q) 28 = sample_request \<and> udp_sum_ok (pk_data q)"
proof -
  have "rq_type sample_request = 1" by (simp add: sample_request_def)
  then show ?thesis
    using fa_relays_request [of "configured 20 21 25" "request_packet sample_request" sample_env]
      sample_validates configured_inv(1) [of 20 21 25] by (auto simp: agent_inv_def)
qed

text \<open>(C16) A request the foreign agent rejects is answered on output 0, to its sender and with the
  code, and the agent is unchanged; code 69 carries the longest lifetime the agent offers.\<close>

theorem fa_denies_request:
  assumes "is_request p" "\<not> shared p" "fst (fa_validatePacket a (pk_data p)) = code" "code \<noteq> 1"
    "env_packet env 0"
  shows "\<exists>q. ForeignAgentReqProcess_push env a p = Inr (a, [Emit 0 q]) \<and>
    get32 (pk_data q) 16 = ip_src (pk_data p) 0 \<and> ip_sum_ok (pk_data q) \<and> udp_sum_ok (pk_data q) \<and>
    rp_code (read_reply (pk_data q) 28) = ucast code \<and>
    (code = 69 \<longrightarrow> rp_lifetime (read_reply (pk_data q) 28) = htons (of_int (lifetimeReg a)))"
proof -
  define b where "b = pk_data p"
  have v: "fa_validatePacket a b = (code, a)"
    using assms(3,4) fa_validate_result [of a b]
    by (cases "fa_validatePacket a b") (auto simp: b_def)
  obtain d where d: "fa_deny_data a b code = Inr d" "get32 d 16 = get32 b 12" "ip_sum_ok d" "udp_sum_ok d"
      "rp_code (read_reply d 28) = ucast code"
      "code = 69 \<longrightarrow> rp_lifetime (read_reply d 28) = htons (of_int (lifetimeReg a))"
    using fa_deny_data_ok [of a b code] by auto
  obtain q where "packet_make env 0 18 None 52 0 = Some q"
    using assms(5) by (simp add: packet_make_def Let_def)
  then show ?thesis
    using assms(1,2,4) v d
    by (simp add: ForeignAgentReqProcess_push_def is_request_def b_def [symmetric] Let_def
        set_dst_ip_anno_def with_data_def)
qed

theorem fa_denies_request_witness:
  "\<exists>q. ForeignAgentReqProcess_push sample_env (configured 20 21 10) (request_packet sample_request) =
     Inr (configured 20 21 10, [Emit 0 q]) \<and> rp_code (read_reply (pk_data q) 28) = 69"
proof -
  have "seconds (htons 25) = 25" using seconds_htons [of 25] by simp
  then have "fst (fa_validatePacket (configured 20 21 10) (pk_data (request_packet sample_request))) = 69"
    by (simp add: fa_validatePacket_def sample_request_def seconds_def Let_def)
  then show ?thesis
    using fa_denies_request [of "request_packet sample_request" "configured 20 21 10" 69 sample_env]
      sample_request_ok(1) by auto
qed

text \<open>When packets can be allocated, one timer run gives every pending request exactly one of
  three fates: it stays with its lifetime lowered, it disappears because the lifetime ran out, or
  it disappears and its sender gets a reply with code 78; no other packet is sent.\<close>

theorem fa_timer_pending:
  assumes "\<forall>i. env_packet env i"
  shows "\<exists>a' as. ForeignAgentReqProcess_run_timer env a = Inr (a', as @ [Schedule 0 1000]) \<and>
    registrationReq a' = List.map_filter fa_pending_step (registrationReq a) \<and>
    list_all2 fa_timeout_reply (filter fa_timed_out (rev (registrationReq a))) (emitted as)"
  using fa_timer_exact [OF assms, of a] by auto

theorem fa_timer_pending_witness:
  "\<exists>a' as. ForeignAgentReqProcess_run_timer sample_env (configured 20 21 25) = Inr (a', as @ [Schedule 0 1000]) \<and>
     registrationReq a' = []"
  using fa_timer_pending [of sample_env "configured 20 21 25"] by (auto simp: List.map_filter_simps)

text \<open>A request asking for more than 7 and fewer than 256 seconds that gets no reply waits six timer
  runs and is denied with code 78 in the seventh.\<close>

theorem pending_request_times_out:
  assumes "li_lifetimeRem it = li_lifetimeReq it"
    "7 < seconds (li_lifetimeReq it)" "seconds (li_lifetimeReq it) < 256"
  shows "\<exists>it'. pending_after 6 it = Some it' \<and> fa_timed_out it' \<and> pending_after 7 it = None"
  by (rule pending_times_out [OF assms])

definition sample_item :: "u16 \<Rightarrow> listItem" where
  "sample_item l = \<lparr>li_ethSrc = 0, li_ipSrc = 12, li_ipDst = 21, li_udpSrc = 1, li_udpDst = 1,
     li_homeAgent = 10, li_id1 = 5, li_id2 = 6, li_lifetimeReq = l, li_lifetimeRem = l\<rparr>"

theorem pending_request_times_out_witness:
  "\<exists>it'. pending_after 6 (sample_item (htons 25)) = Some it' \<and> fa_timed_out it' \<and>
     pending_after 7 (sample_item (htons 25)) = None"
proof -
  have "seconds (htons 25) = 25" using seconds_htons [of 25] by simp
  then show ?thesis by (intro pending_request_times_out) (simp_all add: sample_item_def)
qed

text \<open>A request for 256 seconds or more whose low-order byte is below seven is never answered and
  never dropped by the timer: it occupies one of the five slots for good.\<close>

theorem pending_request_stuck:
  assumes "li_lifetimeRem it = li_lifetimeReq it"
    "256 \<le> seconds (li_lifetimeReq it)" "seconds (li_lifetimeReq it) mod 256 < 7"
  shows "pending_after n it \<noteq> None"
  using pending_stuck [OF assms, of n] by auto

theorem pending_request_stuck_witness:
  "pending_after 1000 (sample_item (htons 256)) \<noteq> None"
proof -
  have "seconds (htons 256) = 256" using seconds_htons [of 256] by simp
  then show ?thesis by (intro pending_request_stuck) (simp_all add: sample_item_def)
qed

text \<open>A reply with code 0 or 1 that carries the identification of a pending request takes the first
  such request off the list and leaves exactly one visitor entry for its node, with the smaller
  of the two raw lifetimes; the other visitors stay.\<close>

theorem fa_accept_makes_visitor:
  assumes "find (same_ids r) (registrationReq a) = Some it"
  shows "\<exists>a' v. fa_accept junk r a = Inr a' \<and> registrationReq a' = del1 (same_ids r) (registrationReq a) \<and>
    filter (\<lambda>x. li_ipSrc x = li_ipSrc it) (visitorMap a') = [v] \<and>
    li_lifetimeRem v = min (li_lifetimeReq it) (rp_lifetime r) \<and>
    filter (\<lambda>x. li_ipSrc x \<noteq> li_ipSrc it) (visitorMap a') = filter (\<lambda>x. li_ipSrc x \<noteq> li_ipSrc it) (visitorMap a)"
  using assms by (auto simp: fa_accept_eq fa_visitor_item_def min_def Let_def order_less_imp_le)

theorem fa_accept_makes_visitor_witness:
  "\<exists>a'. fa_accept 0 \<lparr>rp_type = 3, rp_code = 0, rp_lifetime = 9, rp_homeAddr = 12, rp_homeAgent = 10,
       rp_id1 = 5, rp_id2 = 6\<rparr> ((configured 20 21 25)\<lparr>registrationReq := [sample_item 9]\<rparr>) = Inr a' \<and>
     length (filter (\<lambda>x. li_ipSrc x = 12) (visitorMap a')) = 1"
  using fa_accept_makes_visitor [of "\<lparr>rp_type = 3, rp_code = 0, rp_lifetime = 9, rp_homeAddr = 12,
      rp_homeAgent = 10, rp_id1 = 5, rp_id2 = 6\<rparr>"
      "(configured 20 21 25)\<lparr>registrationReq := [sample_item 9]\<rparr>" "sample_item 9" 0]
  by (auto simp: same_ids_def sample_item_def)

text \<open>A visitor entry of fewer than 256 seconds survives exactly that many timer runs and is erased
  in the one after; a longer one is never erased.\<close>

theorem visitor_expires_exactly:
  assumes "agent_inv a" "visitor_life a k = Some l" "list_all (\<lambda>env. \<forall>i. env_packet env i) envs"
  shows "\<exists>a'. run_ticks fa_tick envs a = Inr a' \<and>
    (if seconds l < 256
     then map_option seconds (visitor_life a' k) =
       (if length envs \<le> seconds l then Some (seconds l - length envs) else None)
     else visitor_life a' k \<noteq> None)"
proof -
  obtain a' where a': "run_ticks fa_tick envs a = Inr a'"
      "visitor_life a' k = Option.bind (Some l) (life_after drop_dec (length envs))"
    using fa_visitors.ticks_life [OF assms(1,3)] assms(2) by auto
  then show ?thesis
    using life_after_drop_dec [of l "length envs"] life_after_long(2) [of l "length envs"] by auto
qed

theorem visitor_expires_exactly_witness:
  "\<exists>a'. run_ticks fa_tick [sample_env, sample_env] ((configured 20 21 25)\<lparr>visitorMap := [sample_item (htons 1)]\<rparr>) = Inr a' \<and>
     visitor_life a' 12 = None"
proof -
  have 1: "seconds (htons 1) = 1" using seconds_htons [of 1] by simp
  have "agent_inv ((configured 20 21 25)\<lparr>visitorMap := [sample_item (htons 1)]\<rparr>)"
    using configured_inv(1) [of 20 21 25]
    by (simp add: agent_inv_def bindings_inv_def bindings_def visitors_inv_def)
  moreover have "list_all (\<lambda>env. \<forall>i. env_packet env i) [sample_env, sample_env]"
    by simp
  ultimately show ?thesis
    using visitor_expires_exactly [of "(configured 20 21 25)\<lparr>visitorMap := [sample_item (htons 1)]\<rparr>"
        12 "htons 1" "[sample_env, sample_env]"] 1
    by (simp add: visitor_life_def sample_item_def)
qed

text \<open>When the first allocation of a timer run fails on a request that has waited too long, the
  handler returns early: the visitors are not aged and the timer is not armed again.\<close>

theorem fa_timer_stops_on_failure:
  assumes "registrationReq a = [it]" "fa_timed_out it" "\<not> env_packet env 0"
  shows "ForeignAgentReqProcess_run_timer env a = Inr (a\<lparr>registrationReq := [fa_ticked it]\<rparr>, [])"
  using assms
  by (simp add: ForeignAgentReqProcess_run_timer_def bwd_loop_sweep fa_pending_body_def fa_timed_out_def
      packet_make_def fa_ticked_def Let_def)

definition sample_waiting :: listItem where
  "sample_waiting = (sample_item (htons 25))\<lparr>li_lifetimeRem := htons 19\<rparr>"

theorem fa_timer_stops_on_failure_witness:
  "ForeignAgentReqProcess_run_timer (sample_env\<lparr>env_packet := \<lambda>_. False\<rparr>)
     ((configured 20 21 25)\<lparr>registrationReq := [sample_waiting]\<rparr>) =
   Inr ((configured 20 21 25)\<lparr>registrationReq := [fa_ticked sample_waiting]\<rparr>, [])"
proof -
  have s: "seconds (htons 25) = 25" "seconds (htons 19) = 19"
    using seconds_htons [of 25] seconds_htons [of 19] by simp_all
  then have t: "seconds (tick16 (htons 19)) = 18" by (simp add: seconds_tick)
  then have "tick16 (htons 19) \<noteq> 0" by (metis seconds_0 zero_neq_numeral)
  then have "fa_timed_out sample_waiting"
    using s t by (simp add: fa_timed_out_def fa_waited_iff sample_waiting_def sample_item_def)
  then show ?thesis
    using fa_timer_stops_on_failure [of "(configured 20 21 25)\<lparr>registrationReq := [sample_waiting]\<rparr>"
        sample_waiting "sample_env\<lparr>env_packet := \<lambda>_. False\<rparr>"] by simp
qed

end
