(* ===== verification/Tunnel.thy ===== *)
theory Tunnel
  imports ForeignAgent
begin

text \<open>
  The data path of the agents: \<^verbatim>\<open>ipEncapsulation.cc\<close> sends a packet for an absent node
  through an IP-in-IP tunnel to its care-of address, \<^verbatim>\<open>ipDecap.cc\<close> unpacks it for a visitor,
  \<^verbatim>\<open>mobileIPfilter.cc\<close> sorts registration messages.  None of them looks at the packet's
  length before reading headers, so a short packet is a fault here.
\<close>

section \<open>Encapsulation\<close>

definition IpEncapsulation_configure :: "bool \<Rightarrow> int" where
  "IpEncapsulation_configure args_ok = (if \<not> args_ok then - 1 else 0)"

definition getDesitination :: "AgentBase \<Rightarrow> u32 \<Rightarrow> u32 res" where
  "getDesitination a MN = (case hm_find_pair (reg_table a) MN of
       None \<Rightarrow> Inl NullDeref
     | Some v \<Rightarrow> Inr (mobile_node_coa v))"

text \<open>The outer header over the 20 pushed bytes.\<close>

definition outer_header :: "u32 \<Rightarrow> u32 \<Rightarrow> bytes \<Rightarrow> bytes" where
  "outer_header src dst b =
     (let b1 = zeros 20 @ drop 20 b in
      put_ip_sum sizeof_ip (ip_stores b1 (length b1) (htons 1) 4 20 src dst))"

definition IpEncapsulation_push :: "environ \<Rightarrow> AgentBase \<Rightarrow> packet \<Rightarrow> action list res" where
  "IpEncapsulation_push env a p =
     guard (20 \<le> pk_length p) OutOfBounds
       (let dst = ip_dst (pk_data p) 0 in
        if isHome a dst then Inr [Emit 0 p]
        else bind_res (getDesitination a dst) (\<lambda>careOff.
          case packet_make env 0 (sizeof_ether + sizeof_ip + sizeof_crc) None (pk_length p) 0 of
            None \<Rightarrow> Inr []
          | Some packet \<Rightarrow>
              let packet1 = with_data packet (\<lambda>_. pk_data p) in
              case packet_push env sizeof_ip packet1 of
                None \<Rightarrow> Inl NullDeref
              | Some packet2 \<Rightarrow>
                  let packet3 = with_data packet2 (outer_header (public_addr a) careOff)
                  in Inr [Kill p, Emit 1 (set_dst_ip_anno careOff packet3)]))"

section \<open>Decapsulation\<close>

definition IpDecap_configure :: "bool \<Rightarrow> int" where
  "IpDecap_configure args_ok = (if \<not> args_ok then - 1 else 0)"

definition IpDecap_push :: "environ \<Rightarrow> AgentBase \<Rightarrow> packet \<Rightarrow> action list res" where
  "IpDecap_push env a p =
     guard (10 \<le> pk_length p) OutOfBounds
       (if ip_p (pk_data p) 0 = 4
        then guard (40 \<le> pk_length p) OutOfBounds
          (if inMapNode a (ip_dst (pk_data p) 20)
           then case uniqueify env p of
               None \<Rightarrow> Inl NullDeref
             | Some q \<Rightarrow> Inr [Emit 1 (packet_pull sizeof_ip q)]
           else Inr [Emit 0 p])
        else Inr [Emit 0 p])"

section \<open>Sorting registration messages\<close>

definition MobileIPFilter_configure :: "bool \<Rightarrow> int" where
  "MobileIPFilter_configure args_ok = (if \<not> args_ok then - 1 else 0)"

definition MobileIPFilter_push :: "AgentBase \<Rightarrow> packet \<Rightarrow> action list res" where
  "MobileIPFilter_push a p =
     guard (29 \<le> pk_length p) OutOfBounds
       (if get8 (pk_data p) 28 = 3 then Inr [Emit 1 p]
        else if get8 (pk_data p) 28 = 1
          then guard (40 \<le> pk_length p) OutOfBounds
            (if rq_homeAgent (read_req (pk_data p) 28) = public_addr a then Inr [Emit 2 p]
             else Inr [Emit 3 p])
        else Inr [Emit 0 p])"

section \<open>The tunnel\<close>

lemma outer_header_ok:
  assumes "length b = 20 + n" "n < 65516"
  fixes src dst
  defines "d \<equiv> outer_header src dst b"
  shows "length d = length b" "drop 20 d = drop 20 b" "ip_sum_ok d" "ip_v d 0 = 4" "ip_hl d 0 = 5"
    "unat (ntohs (get16 d 2)) = length b" "get8 d 8 = 20" "get8 d 9 = 4"
    "get32 d 12 = src" "get32 d 16 = dst"
proof -
  let ?z = "zeros 20 @ drop 20 b"
  let ?i = "ip_stores ?z (length ?z) (htons 1) 4 20 src dst"
  have len: "length ?z = length b" using assms by simp
  note get = ip_stores_get [of ?z "length ?z" "htons 1" 4 20 src dst]
  show "length d = length b" using len by (simp add: d_def outer_header_def)
  show "drop 20 d = drop 20 b"
    by (simp add: d_def outer_header_def Let_def put_ip_sum_def drop_ip_stores)
  have "get16 ?i 10 = 0" using get(8) by simp
  then show "ip_sum_ok d" using put_ip_sum_ok [of ?i] assms by (simp add: d_def outer_header_def Let_def)
  show "ip_v d 0 = 4" "ip_hl d 0 = 5" "get8 d 8 = 20" "get8 d 9 = 4" "get32 d 12 = src" "get32 d 16 = dst"
    using get by (simp_all add: d_def outer_header_def Let_def)
  have "get16 d 2 = htons (of_nat (length b))"
    using get(3) assms(1) unfolding len by (simp add: d_def outer_header_def Let_def len del: length_append)
  moreover have "length b < 65536" using assms(1,2) by linarith
  ultimately show "unat (ntohs (get16 d 2)) = length b" by (simp add: unat_of_nat)
qed

text \<open>An absent node's packet leaves on output 1 with the outer header in front.\<close>

lemma encap_push_ok:
  assumes len: "20 \<le> pk_length p" "pk_length p < 65516"
    and bound: "bindings a (ip_dst (pk_data p) 0) = Some e" and mem: "env_packet env 0"
  shows "\<exists>q. IpEncapsulation_push env a p = Inr [Kill p, Emit 1 q] \<and> \<not> shared q \<and>
    pk_dst_ip q = mobile_node_coa e \<and> drop 20 (pk_data q) = pk_data p \<and>
    pk_length q = pk_length p + 20 \<and> ip_sum_ok (pk_data q) \<and>
    ip_v (pk_data q) 0 = 4 \<and> ip_hl (pk_data q) 0 = 5 \<and> unat (ntohs (get16 (pk_data q) 2)) = pk_length q \<and>
    get8 (pk_data q) 9 = 4 \<and> get32 (pk_data q) 12 = public_addr a \<and>
    get32 (pk_data q) 16 = mobile_node_coa e"
proof -
  obtain q0 where q0: "packet_make env 0 38 None (pk_length p) 0 = Some q0" "\<not> shared q0" "pk_headroom q0 = 38"
    using mem by (auto simp: packet_make_def Let_def)
  define q1 where "q1 = with_data q0 (\<lambda>_. pk_data p)"
  have q1: "\<not> shared q1" "pk_headroom q1 = 38" "pk_data q1 = pk_data p"
    using q0 by (simp_all add: q1_def with_data_def shared_def pk_headroom_def)
  define q2 where "q2 = move_data_left 20 q1"
  have push: "packet_push env 20 q1 = Some q2" using q1 by (simp add: packet_push_def q2_def)
  obtain pre where pre: "length pre = 20" "pk_data q2 = pre @ pk_data p"
    using packet_push_data [OF push] q1(3) by auto
  have sh: "\<not> shared q2" using q1(1) by (simp add: q2_def move_data_left_def shared_def Let_def)
  have l2: "length (pk_data q2) = 20 + pk_length p" using pre by (simp add: pk_length_def)
  note oh = outer_header_ok [OF l2 len(2), of "public_addr a" "mobile_node_coa e"]
  define q where "q = set_dst_ip_anno (mobile_node_coa e)
      (with_data q2 (outer_header (public_addr a) (mobile_node_coa e)))"
  have "IpEncapsulation_push env a p = Inr [Kill p, Emit 1 q]"
    using len(1) bound q0(1) push
    by (simp add: IpEncapsulation_push_def isHome_iff getDesitination_def bindings_def q1_def q_def)
  moreover have "pk_data q = outer_header (public_addr a) (mobile_node_coa e) (pk_data q2)"
    "pk_dst_ip q = mobile_node_coa e" "\<not> shared q"
    using sh by (simp_all add: q_def set_dst_ip_anno_def with_data_def shared_def)
  ultimately show ?thesis
    using oh l2 pre by (intro exI [of _ q]) (simp add: pk_length_def)
qed

lemma decap_push_ok:
  assumes "40 \<le> pk_length q" "get8 (pk_data q) 9 = 4" "inMapNode a (get32 (pk_data q) 36)" "\<not> shared q"
  shows "\<exists>r. IpDecap_push env a q = Inr [Emit 1 r] \<and> pk_data r = drop 20 (pk_data q)"
  using assms by (simp add: IpDecap_push_def packet_pull_def pk_length_def Let_def)

section \<open>Properties\<close>

text \<open>The registration filter sends a message to the handler that is meant to process it: replies to
  output 1, requests for this agent as home agent to output 2, other requests to output 3, all
  other packets to output 0, provided the packet is long enough for the message.\<close>

theorem filter_routes:
  assumes "52 \<le> pk_length p"
  shows "MobileIPFilter_push a p = Inr [Emit
    (if get8 (pk_data p) 28 = 3 then 1
     else if get8 (pk_data p) 28 = 1
       then if rq_homeAgent (read_req (pk_data p) 28) = public_addr a then 2 else 3
     else 0) p]"
  using assms by (simp add: MobileIPFilter_push_def)

theorem filter_routes_witness:
  "MobileIPFilter_push (configured 10 11 25) (request_packet sample_request) =
     Inr [Emit 2 (request_packet sample_request)]"
proof -
  have "get8 (pk_data (request_packet sample_request)) 28 = rq_type (read_req (pk_data (request_packet sample_request)) 28)"
    by (simp only: read_req_def RegistrationRequestPacketheader.simps)
  then have "get8 (pk_data (request_packet sample_request)) 28 = 1" by (simp add: sample_request_def)
  then show ?thesis
    using filter_routes [of "request_packet sample_request" "configured 10 11 25"]
    by (simp add: sample_request_def)
qed

text \<open>The filter reads headers without looking at the length: it runs past the data exactly on a
  packet shorter than an IP and UDP header with one byte of message, or on a request cut off
  before its home-agent field.\<close>

theorem filter_reads_past_short_packet:
  "MobileIPFilter_push a p = Inl OutOfBounds \<longleftrightarrow>
     pk_length p < 29 \<or> get8 (pk_data p) 28 = 1 \<and> pk_length p < 40"
  by (auto simp: MobileIPFilter_push_def guard_def)

text \<open>A packet for a node that is at home passes the encapsulator untouched on output 0.\<close>

theorem encap_passes_home_traffic:
  assumes "20 \<le> pk_length p" "bindings a (ip_dst (pk_data p) 0) = None"
  shows "IpEncapsulation_push env a p = Inr [Emit 0 p]"
  using assms by (simp add: IpEncapsulation_push_def isHome_iff)

theorem encap_passes_home_traffic_witness:
  "IpEncapsulation_push sample_env (configured 10 11 25) (request_packet sample_request) =
     Inr [Emit 0 (request_packet sample_request)]"
  by (rule encap_passes_home_traffic) simp_all

end
