(* ===== verification/Discovery.thy ===== *)
theory Discovery
  imports AgentBase
begin

text \<open>
  Agent discovery: \<^verbatim>\<open>agentAdvertisements.cc\<close> (the agents' periodic advertisements),
  \<^verbatim>\<open>agentSolicitation.cc\<close> (the mobile node's solicitations) and the filters
  \<^verbatim>\<open>advFilter.cc\<close> and \<^verbatim>\<open>solicitationfilter.cc\<close> that pick these ICMP messages out of the
  traffic.
\<close>

section \<open>Advertising\<close>

record AgentAdvertiser =
  aa_HA :: bool
  aa_FA :: bool
  aa_lifetimeAdv :: int
  aa_interval :: int
  aa_sequenceNum :: u16

definition AgentAdvertiser_configure ::
  "(bool \<times> bool \<times> int \<times> int) option \<Rightarrow> AgentAdvertiser \<Rightarrow> (int \<times> AgentAdvertiser \<times> action list) res" where
  "AgentAdvertiser_configure conf s = (case conf of
       None \<Rightarrow> Inr (- 1, s, [])
     | Some (fa, ha, ltadv, intv) \<Rightarrow>
         let s1 = s\<lparr>aa_FA := fa, aa_HA := ha, aa_lifetimeAdv := ltadv, aa_interval := intv\<rparr> in
         guard (int32_range (intv * 3) \<and> int32_range (ltadv * 1000)) SignedOverflow
           (if intv * 3 > ltadv * 1000 then Inr (- 1, s1, [])
            else if \<not> ha \<and> \<not> fa then Inr (- 1, s1, [])
            else Inr (0, s1\<lparr>aa_sequenceNum := htons 0\<rparr>, [Schedule 0 1])))"

definition bit16 :: "bool \<Rightarrow> nat \<Rightarrow> u16" where
  "bit16 x n = push_bit n (if x then 1 else 0)"

definition adv_flags :: "AgentAdvertiser \<Rightarrow> u16" where
  "adv_flags s = bit16 (aa_FA s) 7 + bit16 (aa_HA s) 5 + bit16 (aa_FA s) 4 + 0"

text \<open>The stores into the ICMP advertisement at offset 20.\<close>

definition adv_stores :: "AgentBase \<Rightarrow> AgentAdvertiser \<Rightarrow> bytes \<Rightarrow> bytes" where
  "adv_stores a s b =
     (let b1 = put8 b 20 9;
          b2 = put8 b1 21 0;
          b3 = put16 b2 26 (htons (of_int (aa_lifetimeAdv s)));
          b4 = put8 b3 24 1;
          b5 = put8 b4 25 2;
          b6 = put32 b5 28 (public_addr a);
          b7 = put32 b6 32 0;
          b8 = put8 b7 36 16;
          b9 = put8 b8 37 10;
          b10 = put16 b9 38 (aa_sequenceNum s);
          b11 = put16 b10 40 (htons (of_int (lifetimeReg a)));
          b12 = put16 b11 42 (adv_flags s)
      in put32 b12 44 (public_addr a))"

definition BROADCAST_ADDR :: u32 where "BROADCAST_ADDR = 0xFFFFFFFF"

definition adv_data :: "AgentBase \<Rightarrow> AgentAdvertiser \<Rightarrow> bytes" where
  "adv_data a s =
     (let b1 = put_ip_sum 48
            (ip_stores (zeros 48) 48 (htons (aa_sequenceNum s)) 1 1 (private_addr a) BROADCAST_ADDR);
          b2 = adv_stores a s b1
      in put16 b2 22 (click_in_cksum (drop 20 b2)))"

definition next_seq :: "u16 \<Rightarrow> u16" where
  "next_seq n = (if n = 0xFFFF then htons 256 else n + htons 1)"

definition createPacket ::
  "environ \<Rightarrow> AgentBase \<Rightarrow> AgentAdvertiser \<Rightarrow> AgentAdvertiser \<times> packet option" where
  "createPacket env a s =
     (case packet_make env 0 (sizeof_ether + sizeof_crc) None (sizeof_ip + sizeof_adv) 0 of
        None \<Rightarrow> (s, None)
      | Some packet \<Rightarrow>
          (s\<lparr>aa_sequenceNum := next_seq (aa_sequenceNum s)\<rparr>,
           Some (set_dst_ip_anno BROADCAST_ADDR (with_data packet (\<lambda>_. adv_data a s)))))"

text \<open>\<^verbatim>\<open>interval+((rand()%70)-35)\<close> as the \<^verbatim>\<open>uint32_t\<close> delay.\<close>

definition adv_delay :: "environ \<Rightarrow> AgentAdvertiser \<Rightarrow> u32 res" where
  "adv_delay env s =
     (let d = aa_interval s + (int (env_rand env 0 mod 70) - 35) in
      guard (int32_range d) SignedOverflow (Inr (of_int d)))"

definition AgentAdvertiser_push ::
  "environ \<Rightarrow> AgentBase \<Rightarrow> AgentAdvertiser \<Rightarrow> packet \<Rightarrow> (AgentAdvertiser \<times> action list) res" where
  "AgentAdvertiser_push env a s p =
     (case createPacket env a s of (s1, newP) \<Rightarrow>
        let out = (case newP of Some q \<Rightarrow> [Emit 0 q] | None \<Rightarrow> []) in
        bind_res (adv_delay env s1) (\<lambda>d. Inr (s1, out @ [Kill p, Reschedule 0 d])))"

definition AgentAdvertiser_run_timer ::
  "environ \<Rightarrow> AgentBase \<Rightarrow> AgentAdvertiser \<Rightarrow> (AgentAdvertiser \<times> action list) res" where
  "AgentAdvertiser_run_timer env a s =
     (case createPacket env a s of (s1, newP) \<Rightarrow>
        let out = (case newP of Some q \<Rightarrow> [Emit 0 q] | None \<Rightarrow> []) in
        bind_res (adv_delay env s1) (\<lambda>d. Inr (s1, out @ [Reschedule 0 d])))"

section \<open>Soliciting\<close>

record AgentSolicitation =
  so_transmissions :: int
  so_maxRetransmissions :: int

definition AgentSolicitation_configure ::
  "int option \<Rightarrow> AgentSolicitation \<Rightarrow> int \<times> AgentSolicitation \<times> action list" where
  "AgentSolicitation_configure conf s = (case conf of
       None \<Rightarrow> (- 1, s, [])
     | Some maxr \<Rightarrow>
         let s1 = s\<lparr>so_maxRetransmissions := maxr\<rparr> in
         if maxr < 1 then (- 1, s1, [])
         else (0, s1\<lparr>so_transmissions := 0\<rparr>, [Schedule 0 1]))"

definition soli_data :: "u32 \<Rightarrow> bytes" where
  "soli_data myAddress =
     (let b1 = put_ip_sum 28 (ip_stores (zeros 28) 28 0 1 1 myAddress BROADCAST_ADDR);
          b2 = put8 b1 20 10;
          b3 = put8 b2 21 0
      in put16 b3 22 (click_in_cksum (drop 20 b3)))"

definition soli_makePacket :: "environ \<Rightarrow> u32 \<Rightarrow> packet option" where
  "soli_makePacket env myAddress =
     (case packet_make env 0 (sizeof_ether + sizeof_crc) None (sizeof_ip + sizeof_soli) 0 of
        None \<Rightarrow> None
      | Some packet \<Rightarrow>
          Some (set_dst_ip_anno BROADCAST_ADDR (with_data packet (\<lambda>_. soli_data myAddress))))"

definition AgentSolicitation_run_timer ::
  "environ \<Rightarrow> u32 \<Rightarrow> AgentSolicitation \<Rightarrow> (AgentSolicitation \<times> action list) res" where
  "AgentSolicitation_run_timer env myAddress s =
     (if so_transmissions s = so_maxRetransmissions s
      then Inr (s\<lparr>so_transmissions := 0\<rparr>, [Schedule 0 1])
      else guard (int32_range (so_transmissions s + 1)) SignedOverflow
        (Inr (s\<lparr>so_transmissions := so_transmissions s + 1\<rparr>,
          (case soli_makePacket env myAddress of Some p \<Rightarrow> [Emit 0 p] | None \<Rightarrow> []) @
          [Reschedule 0 5000])))"

definition AgentSolicitation_push :: "packet \<Rightarrow> action list" where
  "AgentSolicitation_push p = [Emit 0 p]"

section \<open>Filters\<close>

definition AdvFilter_push :: "packet \<Rightarrow> action list" where
  "AdvFilter_push p =
     (let b = pk_data p; ah = read_adv b 20 in
      if pk_length p = sizeof_ip + sizeof_adv \<and> ip_p b 0 = 1 \<and> ip_dst b 0 = BROADCAST_ADDR
      then if ah_typeEx ah = 16 \<and> ah_type ah = 9 \<and> ah_code ah = 0 then [Emit 1 p] else [Kill p]
      else [Emit 0 p])"

definition SolicitationFilter_push :: "packet \<Rightarrow> action list" where
  "SolicitationFilter_push p =
     (let b = pk_data p; sh = read_soli b 20 in
      if pk_length p = sizeof_ip + sizeof_soli \<and> ip_p b 0 = 1 \<and> ip_dst b 0 = BROADCAST_ADDR
      then if sh_type sh = 10 \<and> sh_code sh = 0 \<and> ip_dst b 0 = BROADCAST_ADDR then [Emit 1 p] else [Kill p]
      else [Emit 0 p])"

definition filter_configure :: "bool \<Rightarrow> int" where
  "filter_configure args_ok = (if \<not> args_ok then - 1 else 0)"

section \<open>The messages are well formed\<close>

definition icmp_sum_ok :: "bytes \<Rightarrow> bool" where
  "icmp_sum_ok b \<longleftrightarrow> click_in_cksum (drop 20 b) = 0"

text \<open>Taking the IP checksum over the whole zeroed packet gives the header's checksum.\<close>

lemma cksum_trailing_zeros:
  assumes "even (length b)" "length b + n \<le> 65536"
  shows "click_in_cksum (b @ zeros n) = click_in_cksum b"
proof -
  have "wsum (b @ zeros n) = wsum b" using assms(1) by (simp add: wsum_append wsum_zeros)
  then have "unat (click_in_cksum (b @ zeros n)) = unat (click_in_cksum b)"
    using assms(2) by (simp add: click_in_cksum_unat)
  then show ?thesis by (simp add: unsigned_word_eqI)
qed

lemma ip_sum_over_zeros:
  assumes "20 \<le> n" "n \<le> 65536"
  shows "ip_sum_ok (put_ip_sum n (ip_stores (zeros n) n ident proto ttl src dst))"
proof -
  let ?i = "ip_stores (zeros n) n ident proto ttl src dst"
  have "?i = take 20 ?i @ drop 20 ?i" by simp
  also have "drop 20 ?i = zeros (n - 20)" by (simp add: drop_ip_stores) (simp add: zeros_def)
  finally have "click_in_cksum ?i = click_in_cksum (take 20 ?i @ zeros (n - 20))" by simp
  also have "\<dots> = click_in_cksum (take 20 ?i)"
    using assms by (intro cksum_trailing_zeros) auto
  finally have "put_ip_sum n ?i = put_ip_sum 20 ?i" by (simp add: put_ip_sum_def)
  moreover have "ip_sum_ok (put_ip_sum 20 ?i)"
    using assms ip_stores_get(8) [of "zeros n"] by (intro put_ip_sum_ok) auto
  ultimately show ?thesis by simp
qed

text \<open>The ICMP checksum stored at offset 22 makes the message verify.\<close>

lemma icmp_sum_stored:
  assumes "get16 b 22 = 0" "24 \<le> length b" "length b \<le> 65536"
  shows "icmp_sum_ok (put16 b 22 (click_in_cksum (drop 20 b)))"
proof -
  have "drop 20 (put16 b 22 v) = put16 (drop 20 b) 2 v" for v
    by (simp add: put16_def drop_update_swap)
  moreover have "get16 (drop 20 b) 2 = 0" using assms by simp
  ultimately show ?thesis
    using click_in_cksum_verifies [of 2 "drop 20 b"] assms by (simp add: icmp_sum_ok_def)
qed

lemma length_adv_stores [simp]: "length (adv_stores a s b) = length b"
  by (simp add: adv_stores_def)

lemma take_adv_stores [simp]: "take 20 (adv_stores a s b) = take 20 b"
  by (simp add: adv_stores_def)

lemma adv_data_ok:
  "length (adv_data a s) = 48 \<and> ip_sum_ok (adv_data a s) \<and> icmp_sum_ok (adv_data a s)"
proof -
  let ?b1 = "put_ip_sum 48
      (ip_stores (zeros 48) 48 (htons (aa_sequenceNum s)) 1 1 (private_addr a) BROADCAST_ADDR)"
  let ?b2 = "adv_stores a s ?b1"
  have "drop 20 ?b1 = drop 20 (zeros 48)"
    by (simp add: put_ip_sum_def drop_ip_stores)
  then have "get16 (drop 20 ?b1) 2 = 0" by simp
  then have "get16 ?b2 22 = 0" by (simp add: adv_stores_def)
  then have "icmp_sum_ok (adv_data a s)"
    unfolding adv_data_def Let_def by (intro icmp_sum_stored) auto
  moreover have "ip_sum_ok (adv_data a s)"
    using ip_sum_over_zeros [of 48] by (simp add: adv_data_def Let_def ip_sum_ok_def)
  ultimately show ?thesis by (simp add: adv_data_def Let_def)
qed

lemma adv_data_fields:
  defines "d \<equiv> \<lambda>a s. adv_data a s"
  shows "ip_v (d a s) 0 = 4" "ip_hl (d a s) 0 = 5" "get16 (d a s) 2 = htons 48" "get8 (d a s) 8 = 1"
    "get8 (d a s) 9 = 1" "get32 (d a s) 12 = private_addr a" "get32 (d a s) 16 = BROADCAST_ADDR"
    "read_adv (d a s) 20 = \<lparr>ah_type = 9, ah_code = 0, ah_checksum = get16 (d a s) 22,
       ah_addressNumbers = 1, ah_addrEntrySize = 2, ah_lifetime = htons (of_int (aa_lifetimeAdv s)),
       ah_address = public_addr a, ah_pref = 0, ah_typeEx = 16, ah_length = 10,
       ah_sequenceNum = aa_sequenceNum s, ah_lifetimeEx = htons (of_int (lifetimeReg a)),
       ah_flagsReserved = adv_flags s, ah_addressEx = public_addr a\<rparr>"
  by (simp_all add: d_def adv_data_def adv_stores_def read_adv_def ip_stores_get Let_def)

lemma soli_data_ok:
  "length (soli_data m) = 28 \<and> ip_sum_ok (soli_data m) \<and> icmp_sum_ok (soli_data m)"
proof -
  let ?b1 = "put_ip_sum 28 (ip_stores (zeros 28) 28 0 1 1 m BROADCAST_ADDR)"
  have "drop 20 ?b1 = drop 20 (zeros 28)"
    by (simp add: put_ip_sum_def drop_ip_stores)
  then have "get16 (drop 20 ?b1) 2 = 0" by simp
  then have "get16 (put8 (put8 ?b1 20 10) 21 0) 22 = 0" by simp
  then have "icmp_sum_ok (soli_data m)"
    unfolding soli_data_def Let_def by (intro icmp_sum_stored) auto
  moreover have "ip_sum_ok (soli_data m)"
    using ip_sum_over_zeros [of 28] by (simp add: soli_data_def Let_def ip_sum_ok_def)
  ultimately show ?thesis by (simp add: soli_data_def Let_def)
qed

lemma soli_data_fields:
  "ip_v (soli_data m) 0 = 4" "ip_hl (soli_data m) 0 = 5" "get16 (soli_data m) 2 = htons 28"
  "get8 (soli_data m) 9 = 1" "get32 (soli_data m) 12 = m" "get32 (soli_data m) 16 = BROADCAST_ADDR"
  "get8 (soli_data m) 20 = 10" "get8 (soli_data m) 21 = 0"
  by (simp_all add: soli_data_def ip_stores_get Let_def)

section \<open>Sequence numbers\<close>

primrec seq_after :: "nat \<Rightarrow> u16" where
  "seq_after 0 = htons 0"
| "seq_after (Suc n) = next_seq (seq_after n)"

text \<open>The number of the \<open>n\<close>-th advertisement after configuration, as a receiver reads it.\<close>

lemma next_seq_small:
  assumes "unat (ntohs x) = k" "k < 256"
  shows "unat (ntohs (next_seq x)) = (k + 1) mod 256"
proof -
  have x: "unat x = k * 256"
    using htons_unat [of "htons x"] assms by simp
  have "x \<noteq> 0xFFFF"
  proof
    assume "x = 0xFFFF"
    then have "unat x = 65535" by simp
    then show False using x by presburger
  qed
  then have n: "next_seq x = x + 256" by (simp add: next_seq_def)
  have "unat (x + 256) = (k * 256 + 256) mod 65536" by (simp add: unat_word_ariths x)
  also have "\<dots> = ((k + 1) mod 256) * 256"
    using mult_mod_left [of "k + 1" 256 256] by (simp add: algebra_simps)
  finally show ?thesis by (simp add: htons_unat n)
qed

lemma seq_after_mod: "unat (ntohs (seq_after n)) = n mod 256"
proof (induction n)
  case (Suc n)
  then show ?case using next_seq_small [of "seq_after n" "n mod 256"] by (simp add: mod_Suc_eq)
qed simp

section \<open>Properties\<close>

definition advert_packet :: "environ \<Rightarrow> bytes \<Rightarrow> packet" where
  "advert_packet env d = set_dst_ip_anno BROADCAST_ADDR
     (fresh_packet (map (env_mem env) [0..<18]) d (2048 - 18 - length d))"

lemma advert_packet_sel [simp]:
  "pk_data (advert_packet env d) = d" "pk_dst_ip (advert_packet env d) = BROADCAST_ADDR"
  "pk_length (advert_packet env d) = length d" "\<not> shared (advert_packet env d)"
  by (simp_all add: advert_packet_def set_dst_ip_anno_def fresh_packet_def pk_length_def shared_def)

lemma createPacket_ok:
  assumes "env_packet env 0"
  shows "createPacket env a s =
    (s\<lparr>aa_sequenceNum := next_seq (aa_sequenceNum s)\<rparr>, Some (advert_packet env (adv_data a s)))"
  using assms adv_data_ok [of a s]
  by (simp add: createPacket_def packet_make_def advert_packet_def with_data_def set_dst_ip_anno_def
      fresh_packet_def CLICK_PACKET_POOL_BUFSIZ_def Let_def)

text \<open>(C17) Every advertisement sent is a well-formed one: valid IP and ICMP checksums, time to live 1,
  broadcast, carrying the agent's address and the offered registration lifetime; the filter in
  the receiving node recognises it.\<close>

theorem advertisement_well_formed:
  assumes "env_packet env 0"
  shows "\<exists>s' q. createPacket env a s = (s', Some q) \<and>
    ip_sum_ok (pk_data q) \<and> icmp_sum_ok (pk_data q) \<and> get8 (pk_data q) 8 = 1 \<and>
    ip_src (pk_data q) 0 = private_addr a \<and> ah_addressEx (read_adv (pk_data q) 20) = public_addr a \<and>
    ah_lifetimeEx (read_adv (pk_data q) 20) = htons (of_int (lifetimeReg a)) \<and>
    ah_sequenceNum (read_adv (pk_data q) 20) = aa_sequenceNum s \<and> AdvFilter_push q = [Emit 1 q]"
  using createPacket_ok [OF assms, of a s] adv_data_ok [of a s]
  by (simp add: adv_data_fields AdvFilter_push_def)

theorem advertisement_well_formed_witness:
  "\<exists>s' q. createPacket sample_env (configured 10 11 25)
      \<lparr>aa_HA = True, aa_FA = True, aa_lifetimeAdv = 9, aa_interval = 3000, aa_sequenceNum = 0\<rparr> = (s', Some q) \<and>
    ip_sum_ok (pk_data q) \<and> icmp_sum_ok (pk_data q) \<and> AdvFilter_push q = [Emit 1 q]"
  using advertisement_well_formed [of sample_env "configured 10 11 25"
      "\<lparr>aa_HA = True, aa_FA = True, aa_lifetimeAdv = 9, aa_interval = 3000, aa_sequenceNum = 0\<rparr>"] by auto

text \<open>The sequence number a receiver reads in the \<open>n\<close>-th advertisement after configuration is
  \<open>n mod 256\<close>: it wraps to 0 after 255 and never takes the values 256 to 65535 that tell a
  running agent from one that was restarted.\<close>

theorem sequence_number_wraps: "unat (ntohs (seq_after n)) = n mod 256"
  by (rule seq_after_mod)

text \<open>Configuration accepts exactly an agent that is home or foreign agent and whose interval in
  milliseconds is at most a third of the advertised lifetime, and then starts the timer.\<close>

theorem advertiser_configure_accepts:
  assumes "int32_range (intv * 3)" "int32_range (lt * 1000)"
  shows "\<exists>rc s' as. AgentAdvertiser_configure (Some (fa, ha, lt, intv)) s = Inr (rc, s', as) \<and>
    (if (ha \<or> fa) \<and> 3 * intv \<le> 1000 * lt
     then rc = 0 \<and> as = [Schedule 0 1] \<and> aa_sequenceNum s' = 0 else rc = - 1 \<and> as = [])"
  using assms by (auto simp: AgentAdvertiser_configure_def Let_def mult.commute)

theorem advertiser_configure_accepts_witness:
  "\<exists>s' as. AgentAdvertiser_configure (Some (True, True, 9, 3000))
     \<lparr>aa_HA = False, aa_FA = False, aa_lifetimeAdv = 0, aa_interval = 0, aa_sequenceNum = 5\<rparr> = Inr (0, s', as) \<and>
     as = [Schedule 0 1]"
  using advertiser_configure_accepts [of 3000 9 True True
      "\<lparr>aa_HA = False, aa_FA = False, aa_lifetimeAdv = 0, aa_interval = 0, aa_sequenceNum = 5\<rparr>"]
  by (auto simp: int32_range_def)

text \<open>Every solicitation sent has valid checksums and is recognised by the agents' filter.\<close>

theorem solicitation_well_formed:
  "ip_sum_ok (soli_data m) \<and> icmp_sum_ok (soli_data m) \<and> ip_src (soli_data m) 0 = m \<and>
   SolicitationFilter_push (advert_packet env (soli_data m)) = [Emit 1 (advert_packet env (soli_data m))]"
  using soli_data_ok [of m] by (simp add: SolicitationFilter_push_def soli_data_fields read_soli_def)

end
