(* ===== verification/MobileNode.thy ===== *)
theory MobileNode
  imports Discovery Vectors
begin

text \<open>
  The mobile node: \<^verbatim>\<open>mobileinfolist\<close> (its shared state), \<^verbatim>\<open>registrationRequestSource.cc\<close>
  (sends requests, reads replies, two timers), \<^verbatim>\<open>advertisementsHandler.cc\<close> (decides from the
  advertisements heard when to register) and \<^verbatim>\<open>setgateway.cc\<close>.  The record \<open>mobile\<close> holds the
  \<^verbatim>\<open>MobileInfoList\<close> all of them point to and the source's \<^verbatim>\<open>currentRequests\<close>.
\<close>

section \<open>State\<close>

record Advertisement =
  adv_lifetime :: u16
  adv_reg_lifetime :: u16
  adv_sequenceNum :: u16
  adv_COA :: u32
  adv_private_addr :: u32
  adv_ha :: bool
  adv_fa :: bool

record MobileInfoList =
  home :: bool
  connected :: bool
  advertisementReady :: bool
  remainingConnectionTime :: u16
  curr_coa :: u32
  curr_private_addr :: u32
  home_public_addr :: u32
  home_private_addr :: u32
  myAddress :: u32
  current_advertisements :: "Advertisement list"

record Request =
  rs_ipDst :: u32
  rs_COA :: u32
  rs_id1 :: u32
  rs_id2 :: u32
  rs_requestedLifetime :: u16
  rs_remainingLifetime :: u16
  rs_port :: u16

record mobile =
  mobileNode :: MobileInfoList
  currentRequests :: "Request list"

text \<open>\<^verbatim>\<open>MobileInfoList::configure\<close>; the arguments are MYADDR, PRADDR and PADDR.\<close>

definition MobileInfoList_configure ::
  "(u32 \<times> u32 \<times> u32) option \<Rightarrow> MobileInfoList \<Rightarrow> int \<times> MobileInfoList" where
  "MobileInfoList_configure conf m = (case conf of
       None \<Rightarrow> (- 1, m)
     | Some (myaddr, praddr, paddr) \<Rightarrow>
         (0, m\<lparr>myAddress := myaddr, home_private_addr := praddr, home_public_addr := paddr,
               connected := False, remainingConnectionTime := 0, advertisementReady := False,
               curr_private_addr := praddr, curr_coa := paddr, home := True\<rparr>))"

section \<open>RegistrationRequestSource\<close>

definition RegistrationRequestSource_configure :: "bool \<Rightarrow> int \<times> action list" where
  "RegistrationRequestSource_configure args_ok =
     (if \<not> args_ok then (- 1, []) else (0, [Schedule 0 1000]))"

definition makePacket ::
  "environ \<Rightarrow> nat \<Rightarrow> Advertisement \<Rightarrow> mobile \<Rightarrow> (mobile \<times> action list) res" where
  "makePacket env i a s =
     (case packet_make env i (sizeof_ether + sizeof_crc) None (sizeof_req + sizeof_ip + sizeof_udp) 0 of
        None \<Rightarrow> Inr (s, [])
      | Some packet \<Rightarrow>
          let m = mobileNode s;
              p = htons (of_nat (1000 + (env_rand env (3 * i) mod 2000 + 1)));
              at_home = (adv_private_addr a = home_private_addr m);
              m1 = (if at_home
                    then m\<lparr>curr_private_addr := home_private_addr m, curr_coa := adv_COA a,
                           remainingConnectionTime := 0\<rparr>
                    else m);
              id1 = htonl (of_nat (env_rand env (3 * i + 1) mod 2147483647));
              id2 = htonl (of_nat (env_rand env (3 * i + 2) mod 2147483647));
              newReq = \<lparr>rs_ipDst = adv_private_addr a, rs_COA = adv_COA a, rs_id1 = id1, rs_id2 = id2,
                        rs_requestedLifetime = adv_reg_lifetime a,
                        rs_remainingLifetime = adv_reg_lifetime a, rs_port = p\<rparr>
          in bind_res
            (make_udp_message 52 20 (myAddress m) (adv_private_addr a) p (htons 434)
               (\<lambda>c. put_req c 28
                  \<lparr>rq_type = 1, rq_flags = 0,
                   rq_lifetime = (if at_home then 0 else adv_reg_lifetime a),
                   rq_homeAddr = myAddress m, rq_homeAgent = home_public_addr m,
                   rq_coAddr = adv_COA a, rq_id1 = id1, rq_id2 = id2\<rparr>))
            (\<lambda>d. Inr (\<lparr>mobileNode = m1, currentRequests = vec_push_back (currentRequests s) newReq\<rparr>,
               [Emit 0 (set_dst_ip_anno (adv_private_addr a) (with_data packet (\<lambda>_. d)))])))"

definition reply_matches :: "MobileInfoList \<Rightarrow> bytes \<Rightarrow> Request \<Rightarrow> bool" where
  "reply_matches m b it \<longleftrightarrow>
     (let format = read_reply b 28 in
      rp_id1 format = rs_id1 it \<and> rp_id2 format = rs_id2 it \<and> uh_dport b 20 = rs_port it \<and>
      rp_homeAgent format = home_public_addr m)"

text \<open>One iteration of the loop over \<^verbatim>\<open>currentRequests\<close>, which does not stop at a match.\<close>

definition source_reply_body ::
  "bytes \<Rightarrow> MobileInfoList \<times> action list \<Rightarrow> Request \<Rightarrow> MobileInfoList \<times> action list" where
  "source_reply_body b s it = (case s of (m, as) \<Rightarrow>
     let lifetime = rp_lifetime (read_reply b 28) in
     if reply_matches m b it
     then if lifetime = 0
       then (m\<lparr>home := True, remainingConnectionTime := 0, curr_private_addr := rs_ipDst it,
               curr_coa := rs_COA it\<rparr>, as)
       else let diff = rs_requestedLifetime it - lifetime in
         (m\<lparr>home := False, connected := True, curr_private_addr := rs_ipDst it,
            curr_coa := rs_COA it, remainingConnectionTime := rs_remainingLifetime it - diff\<rparr>,
          as @ [Reschedule 1 1000])
     else (m, as))"

definition RegistrationRequestSource_push :: "mobile \<Rightarrow> packet \<Rightarrow> mobile \<times> action list" where
  "RegistrationRequestSource_push s p =
     (if pk_length p < sizeof_ip + sizeof_udp + sizeof_reply then (s, [Kill p])
      else let b = pk_data p; format = read_reply b 28 in
        if rp_type format = 3 \<and> (rp_code format = 0 \<or> rp_code format = 1)
        then case foldl (source_reply_body b) (mobileNode s, []) (currentRequests s) of
          (m, as) \<Rightarrow> (s\<lparr>mobileNode := m\<rparr>, as @ [Kill p])
        else (s, [Kill p]))"

definition request_body :: "Request \<Rightarrow> unit \<Rightarrow> (Request option \<times> unit) res" where
  "request_body it u =
     (let it1 = it\<lparr>rs_remainingLifetime := tick16 (rs_remainingLifetime it)\<rparr> in
      Inr (if rs_remainingLifetime it1 = 0 then None else Some it1, u))"

text \<open>Timer 0 counts the requests down, timer 1 the connection.\<close>

definition RegistrationRequestSource_run_timer ::
  "environ \<Rightarrow> nat \<Rightarrow> mobile \<Rightarrow> (mobile \<times> action list) res" where
  "RegistrationRequestSource_run_timer env timer s =
     (if timer = 0
      then bind_res (bwd_loop request_body (length (currentRequests s)) (currentRequests s) ())
        (\<lambda>(rs, u). Inr (s\<lparr>currentRequests := rs\<rparr>, [Reschedule 0 1000]))
      else let m = mobileNode s in
        if remainingConnectionTime m = 0
        then Inr (s\<lparr>mobileNode := m\<lparr>connected := False\<rparr>\<rparr>, [Reschedule timer 1000])
        else let m1 = m\<lparr>remainingConnectionTime := tick16 (remainingConnectionTime m)\<rparr>;
                 s1 = s\<lparr>mobileNode := m1\<rparr> in
          bind_res
            (if remainingConnectionTime m1 = htons 2 \<and> connected m1 \<and> \<not> home m1
             then case find (\<lambda>it. adv_private_addr it = curr_private_addr m1 \<and> adv_COA it = curr_coa m1)
                    (current_advertisements m1) of
                 Some it \<Rightarrow> makePacket env 0 it s1
               | None \<Rightarrow> Inr (s1, [])
             else Inr (s1, []))
            (\<lambda>(s2, as). Inr (s2, as @ [Reschedule timer 1000])))"

section \<open>AdvertisementsHandler\<close>

definition AdvertisementsHandler_configure :: "bool \<Rightarrow> int \<times> action list" where
  "AdvertisementsHandler_configure args_ok =
     (if \<not> args_ok then (- 1, []) else (0, [Schedule 0 1000]))"

definition adv_struct :: "bytes \<Rightarrow> Advertisement" where
  "adv_struct b =
     (let advh = read_adv b 20; flags = ucast (ah_flagsReserved advh) :: u32 in
      \<lparr>adv_lifetime = ah_lifetime advh, adv_reg_lifetime = ah_lifetimeEx advh,
       adv_sequenceNum = ah_sequenceNum advh, adv_COA = ah_addressEx advh,
       adv_private_addr = ip_src b 0,
       adv_ha = (drop_bit 5 flags AND 1 \<noteq> 0),
       adv_fa = (drop_bit 7 flags AND 1 \<noteq> 0 \<and> push_bit 4 flags AND 1 \<noteq> 0)\<rparr>)"

definition same_agent :: "Advertisement \<Rightarrow> Advertisement \<Rightarrow> bool" where
  "same_agent adv it \<longleftrightarrow> adv_private_addr it = adv_private_addr adv \<and> adv_COA it = adv_COA adv"

text \<open>One iteration of the update loop; the state is the node, the \<^verbatim>\<open>found\<close> flag, the number
  of requests made and the actions.\<close>

type_synonym adv_loop = "mobile \<times> bool \<times> nat \<times> action list"

definition adv_update_body ::
  "environ \<Rightarrow> Advertisement \<Rightarrow> Advertisement \<Rightarrow> adv_loop \<Rightarrow> (Advertisement option \<times> adv_loop) res" where
  "adv_update_body env adv it st = (case st of (s, found, i, as) \<Rightarrow>
     if same_agent adv it
     then if adv_sequenceNum adv < 256 \<and> adv_sequenceNum adv \<le> adv_sequenceNum it
       then bind_res
         (if curr_private_addr (mobileNode s) = adv_private_addr it
          then bind_res (makePacket env i adv s) (\<lambda>(s1, as1). Inr (s1, i + 1, as @ as1))
          else Inr (s, i, as))
         (\<lambda>(s1, i1, as1).
           Inr (Some (it\<lparr>adv_lifetime := adv_lifetime adv, adv_reg_lifetime := adv_reg_lifetime adv,
                         adv_sequenceNum := adv_sequenceNum adv\<rparr>), (s1, True, i1, as1)))
       else Inr (Some it, (s, True, i, as))
     else Inr (Some it, st))"

definition set_advs :: "Advertisement list \<Rightarrow> mobile \<Rightarrow> mobile" where
  "set_advs its s = s\<lparr>mobileNode := (mobileNode s)\<lparr>current_advertisements := its\<rparr>\<rparr>"

definition adv_update :: "environ \<Rightarrow> bytes \<Rightarrow> mobile \<Rightarrow> (mobile \<times> nat \<times> action list) res" where
  "adv_update env b s =
     (if ah_address (read_adv b 20) \<noteq> home_private_addr (mobileNode s)
      then bind_res (fwd_loop (adv_update_body env (adv_struct b)) 0
             (current_advertisements (mobileNode s)) (s, False, 0, []))
        (\<lambda>(its, s1, found, i, as).
          Inr (set_advs (if \<not> found then vec_push_back its (adv_struct b) else its) s1, i, as))
      else Inr (s, 0, []))"

definition AdvertisementsHandler_push ::
  "environ \<Rightarrow> mobile \<Rightarrow> packet \<Rightarrow> (mobile \<times> action list) res" where
  "AdvertisementsHandler_push env s p =
     guard (48 \<le> pk_length p) OutOfBounds
       (let b = pk_data p; advh = read_adv b 20; flags = ucast (ah_flagsReserved advh) :: u32;
            adv = adv_struct b in
        if adv_ha adv = False \<and> adv_fa adv = False then Inr (s, [])
        else if drop_bit 6 flags AND 1 = 1
          then Inr (set_advs (erase_first (same_agent adv) 0 (current_advertisements (mobileNode s))) s, [])
        else bind_res (adv_update env b s) (\<lambda>(s1, i1, as1).
          let advFromHome = (ah_address advh = home_public_addr (mobileNode s1)) in
          bind_res
            (if \<not> home (mobileNode s1) \<and> \<not> connected (mobileNode s1) \<and> \<not> advFromHome
             then bind_res (makePacket env i1 adv s1) (\<lambda>(s2, as2). Inr (s2, i1 + 1, as1 @ as2))
             else Inr (s1, i1, as1))
            (\<lambda>(s2, i2, as2).
              if home (mobileNode s2) \<and> \<not> advFromHome \<or> \<not> home (mobileNode s2) \<and> advFromHome
              then bind_res (makePacket env i2 adv s2) (\<lambda>(s3, as3). Inr (s3, as2 @ as3))
              else Inr (s2, as2))))"

definition adv_timer_body ::
  "bool \<Rightarrow> u32 \<Rightarrow> Advertisement \<Rightarrow> bool \<times> bool \<Rightarrow> (Advertisement option \<times> bool \<times> bool) res" where
  "adv_timer_body wasConnected host it st = (case st of (conn, lost) \<Rightarrow>
     if adv_lifetime it = 0
     then Inr (None, if wasConnected \<and> adv_private_addr it = host then (False, True) else (conn, lost))
     else Inr (Some (it\<lparr>adv_lifetime := tick16 (adv_lifetime it)\<rparr>), (conn, lost)))"

definition AdvertisementsHandler_run_timer ::
  "environ \<Rightarrow> mobile \<Rightarrow> (mobile \<times> action list) res" where
  "AdvertisementsHandler_run_timer env s =
     (let m = mobileNode s in
      bind_res (fwd_loop (adv_timer_body (connected m) (curr_private_addr m)) 0
          (current_advertisements m) (connected m, False)) (\<lambda>(its, conn, lost).
        let m1 = m\<lparr>current_advertisements := its, connected := conn\<rparr>;
            m2 = (if its = [] then m1\<lparr>advertisementReady := False\<rparr> else m1);
            s2 = s\<lparr>mobileNode := m2\<rparr> in
        bind_res (case its of a # _ \<Rightarrow> if lost then makePacket env 0 a s2 else Inr (s2, [])
                  | [] \<Rightarrow> Inr (s2, []))
          (\<lambda>(s3, as). Inr (s3, as @ [Reschedule 0 1000]))))"

section \<open>SetGateway\<close>

definition SetGateway_push :: "MobileInfoList \<Rightarrow> packet \<Rightarrow> action list" where
  "SetGateway_push m p = [Emit 0 (set_dst_ip_anno (curr_private_addr m) p)]"

section \<open>The request\<close>

text \<open>What a request made for advertisement \<open>a\<close> says, and the entry kept for it.\<close>

definition request_for :: "MobileInfoList \<Rightarrow> Advertisement \<Rightarrow> Request \<Rightarrow> RegistrationRequestPacketheader" where
  "request_for m a r = \<lparr>rq_type = 1, rq_flags = 0,
     rq_lifetime = (if adv_private_addr a = home_private_addr m then 0 else adv_reg_lifetime a),
     rq_homeAddr = myAddress m, rq_homeAgent = home_public_addr m, rq_coAddr = adv_COA a,
     rq_id1 = rs_id1 r, rq_id2 = rs_id2 r\<rparr>"

definition after_request :: "Advertisement \<Rightarrow> MobileInfoList \<Rightarrow> MobileInfoList" where
  "after_request a m =
     (if adv_private_addr a = home_private_addr m
      then m\<lparr>curr_private_addr := home_private_addr m, curr_coa := adv_COA a, remainingConnectionTime := 0\<rparr>
      else m)"

lemma makePacket_ok:
  assumes "env_packet env i"
  shows "\<exists>q r. makePacket env i a s =
      Inr (\<lparr>mobileNode = after_request a (mobileNode s), currentRequests = currentRequests s @ [r]\<rparr>, [Emit 0 q]) \<and>
    rs_ipDst r = adv_private_addr a \<and> rs_COA r = adv_COA a \<and>
    rs_requestedLifetime r = adv_reg_lifetime a \<and> rs_remainingLifetime r = adv_reg_lifetime a \<and>
    rs_id1 r = htonl (of_nat (env_rand env (3 * i + 1) mod 2147483647)) \<and>
    \<not> shared q \<and> pk_dst_ip q = adv_private_addr a \<and> length (pk_data q) = 52 \<and>
    ip_sum_ok (pk_data q) \<and> udp_sum_ok (pk_data q) \<and> ip_v (pk_data q) 0 = 4 \<and> ip_hl (pk_data q) 0 = 5 \<and>
    get16 (pk_data q) 2 = htons 52 \<and> get8 (pk_data q) 9 = 17 \<and>
    get32 (pk_data q) 12 = myAddress (mobileNode s) \<and> get32 (pk_data q) 16 = adv_private_addr a \<and>
    get16 (pk_data q) 20 = rs_port r \<and> get16 (pk_data q) 22 = htons 434 \<and>
    read_req (pk_data q) 28 = request_for (mobileNode s) a r"
proof -
  define r where "r = \<lparr>rs_ipDst = adv_private_addr a, rs_COA = adv_COA a,
    rs_id1 = htonl (of_nat (env_rand env (3 * i + 1) mod 2147483647)),
    rs_id2 = htonl (of_nat (env_rand env (3 * i + 2) mod 2147483647)),
    rs_requestedLifetime = adv_reg_lifetime a, rs_remainingLifetime = adv_reg_lifetime a,
    rs_port = htons (of_nat (1000 + (env_rand env (3 * i) mod 2000 + 1)))\<rparr>"
  obtain q0 where q0: "packet_make env i 18 None 52 0 = Some q0" "\<not> shared q0"
    using assms by (auto simp: packet_make_def Let_def)
  define m where "m = mobileNode s"
  let ?body = "\<lambda>c. put_req c 28 (request_for m a r)"
  obtain b t where b: "make_udp_message 52 20 (myAddress m) (adv_private_addr a) (rs_port r) (htons 434) ?body
        = Inr (put16 (?body b) 26 t)" "length b = 52" "ip_sum_ok (put16 (?body b) 26 t)"
      "udp_sum_ok (put16 (?body b) 26 t)" "ip_v (?body b) 0 = 4" "ip_hl (?body b) 0 = 5"
      "get16 (?body b) 2 = htons (of_nat 52)" "get8 (?body b) 9 = 17" "get32 (?body b) 12 = myAddress m"
      "get32 (?body b) 16 = adv_private_addr a" "get16 (?body b) 20 = rs_port r" "get16 (?body b) 22 = htons 434"
    using make_udp_message_ok [of 52 ?body 20 "myAddress m" "adv_private_addr a" "rs_port r" "htons 434"]
    by auto
  define q where "q = set_dst_ip_anno (adv_private_addr a) (with_data q0 (\<lambda>_. put16 (?body b) 26 t))"
  have req: "\<lparr>rq_type = 1, rq_flags = 0,
       rq_lifetime = (if adv_private_addr a = home_private_addr m then 0 else adv_reg_lifetime a),
       rq_homeAddr = myAddress m, rq_homeAgent = home_public_addr m, rq_coAddr = adv_COA a,
       rq_id1 = htonl (of_nat (env_rand env (3 * i + 1) mod 2147483647)),
       rq_id2 = htonl (of_nat (env_rand env (3 * i + 2) mod 2147483647))\<rparr> = request_for m a r"
    by (simp add: request_for_def r_def)
  have port: "htons (of_nat (1000 + (env_rand env (3 * i) mod 2000 + 1))) = rs_port r"
    by (simp add: r_def)
  have "makePacket env i a s =
      Inr (\<lparr>mobileNode = after_request a m, currentRequests = currentRequests s @ [r]\<rparr>, [Emit 0 q])"
    unfolding makePacket_def Let_def m_def [symmetric] req port
    by (simp add: q0(1) b(1) q_def after_request_def vec_push_back_def) (simp add: r_def)
  moreover have "pk_data q = put16 (?body b) 26 t" "pk_dst_ip q = adv_private_addr a" "\<not> shared q"
    using q0(2) by (simp_all add: q_def set_dst_ip_anno_def with_data_def shared_def)
  ultimately show ?thesis
    using b(2-)
    by (intro exI [of _ q] exI [of _ r]) (simp add: m_def [symmetric], simp add: r_def)
qed

lemma makePacket_none: "\<not> env_packet env i \<Longrightarrow> makePacket env i a s = Inr (s, [])"
  by (simp add: makePacket_def packet_make_def)

lemma after_request_frame [simp]:
  "home (after_request a m) = home m" "connected (after_request a m) = connected m"
  "myAddress (after_request a m) = myAddress m" "home_public_addr (after_request a m) = home_public_addr m"
  "home_private_addr (after_request a m) = home_private_addr m"
  "current_advertisements (after_request a m) = current_advertisements m"
  "advertisementReady (after_request a m) = advertisementReady m"
  by (simp_all add: after_request_def)

text \<open>A request never faults and changes only where the node believes to be.\<close>

definition same_node :: "mobile \<Rightarrow> mobile \<Rightarrow> bool" where
  "same_node s s' \<longleftrightarrow> (let m = mobileNode s; m' = mobileNode s' in
     home m' = home m \<and> connected m' = connected m \<and> myAddress m' = myAddress m \<and>
     home_public_addr m' = home_public_addr m \<and> home_private_addr m' = home_private_addr m \<and>
     current_advertisements m' = current_advertisements m \<and> advertisementReady m' = advertisementReady m)"

lemma same_node_refl [simp]: "same_node s s"
  by (simp add: same_node_def)

lemma same_node_trans: "same_node s t \<Longrightarrow> same_node t u \<Longrightarrow> same_node s u"
  by (simp add: same_node_def Let_def)

lemma makePacket_total: "\<exists>s' as. makePacket env i a s = Inr (s', as) \<and> same_node s s'"
proof (cases "env_packet env i")
  case True
  then show ?thesis using makePacket_ok [OF True, of a s] by (force simp: same_node_def Let_def)
next
  case False
  then show ?thesis by (simp add: makePacket_none)
qed

section \<open>Advertisements heard\<close>

lemma adv_fa_never: "\<not> adv_fa (adv_struct b)"
proof -
  have "push_bit 4 x AND 1 = 0" for x :: u32
    by (rule bit_word_eqI) (auto simp: bit_simps)
  then show ?thesis by (simp add: adv_struct_def Let_def)
qed

definition agent_key :: "Advertisement \<Rightarrow> u32 \<times> u32" where
  "agent_key a = (adv_private_addr a, adv_COA a)"

definition mobile_inv :: "mobile \<Rightarrow> bool" where
  "mobile_inv s \<longleftrightarrow> distinct (map agent_key (current_advertisements (mobileNode s)))"

lemma same_agent_key: "same_agent a b \<longleftrightarrow> agent_key b = agent_key a"
  by (simp add: same_agent_def agent_key_def)

lemma adv_update_body_total:
  "\<exists>it' s' found' i' as'. adv_update_body env adv it (s, found, i, as) = Inr (Some it', (s', found', i', as')) \<and>
     agent_key it' = agent_key it \<and> same_node s s' \<and>
     (found' \<longleftrightarrow> found \<or> agent_key it = agent_key adv)"
proof -
  obtain s1 as1 where "makePacket env i adv s = Inr (s1, as1)" "same_node s s1"
    using makePacket_total by blast
  then show ?thesis
    by (auto simp: adv_update_body_def same_agent_key agent_key_def)
qed

lemma adv_update_sweep:
  "\<exists>its' s' found' i' as'. sweep (adv_update_body env adv) its (s, found, i, as) =
       Inr (its', (s', found', i', as')) \<and>
     map agent_key its' = map agent_key its \<and> same_node s s' \<and>
     (found' \<longleftrightarrow> found \<or> agent_key adv \<in> agent_key ` set its)"
proof (induction its arbitrary: s found i as)
  case (Cons it its)
  obtain it' s1 f1 i1 as1 where 1: "adv_update_body env adv it (s, found, i, as) = Inr (Some it', (s1, f1, i1, as1))"
      "agent_key it' = agent_key it" "same_node s s1" "f1 \<longleftrightarrow> found \<or> agent_key it = agent_key adv"
    using adv_update_body_total by blast
  obtain its' s2 f2 i2 as2 where 2: "sweep (adv_update_body env adv) its (s1, f1, i1, as1) = Inr (its', (s2, f2, i2, as2))"
      "map agent_key its' = map agent_key its" "same_node s1 s2" "f2 \<longleftrightarrow> f1 \<or> agent_key adv \<in> agent_key ` set its"
    using Cons.IH by blast
  have "same_node s s2" by (rule same_node_trans [OF 1(3) 2(3)])
  then show ?case
    using 1(1,2,4) 2(1,2,4)
    by (intro exI [of _ "it' # its'"] exI [of _ s2] exI [of _ f2] exI [of _ i2] exI [of _ as2]) auto
qed auto

lemma adv_update_total:
  assumes "mobile_inv s"
  shows "\<exists>s' i' as'. adv_update env b s = Inr (s', i', as') \<and> mobile_inv s' \<and>
    home (mobileNode s') = home (mobileNode s) \<and> connected (mobileNode s') = connected (mobileNode s)"
proof -
  let ?adv = "adv_struct b"
  obtain its' s1 found i as where sw: "sweep (adv_update_body env ?adv)
        (current_advertisements (mobileNode s)) (s, False, 0, []) = Inr (its', (s1, found, i, as))"
      "map agent_key its' = map agent_key (current_advertisements (mobileNode s))" "same_node s s1"
      "found \<longleftrightarrow> agent_key ?adv \<in> agent_key ` set (current_advertisements (mobileNode s))"
    using adv_update_sweep by blast
  have d: "distinct (map agent_key its')" using assms sw(2) by (simp add: mobile_inv_def)
  have k: "agent_key ` set its' = agent_key ` set (current_advertisements (mobileNode s))"
    using arg_cong [OF sw(2), of set] by simp
  show ?thesis
    using sw(1,3,4) assms d k
    by (auto simp: adv_update_def fwd_loop_sweep set_advs_def mobile_inv_def vec_push_back_def
      same_node_def Let_def)
qed

lemma mobile_inv_same: "same_node s s' \<Longrightarrow> mobile_inv s' = mobile_inv s"
  by (simp add: same_node_def mobile_inv_def Let_def)

lemma adv_push_total:
  assumes inv: "mobile_inv s" and len: "48 \<le> pk_length p"
  shows "\<exists>s' as. AdvertisementsHandler_push env s p = Inr (s', as) \<and> mobile_inv s'"
proof -
  let ?adv = "adv_struct (pk_data p)" and ?b = "pk_data p"
  obtain s1 i1 as1 where u: "adv_update env ?b s = Inr (s1, i1, as1)" "mobile_inv s1"
    using adv_update_total [OF inv] by blast
  define h where "h = (ah_address (read_adv ?b 20) = home_public_addr (mobileNode s1))"
  have step1: "\<exists>s2 i2 as2. (if \<not> home (mobileNode s1) \<and> \<not> connected (mobileNode s1) \<and> \<not> h
       then bind_res (makePacket env i1 ?adv s1) (\<lambda>(s2, as2). Inr (s2, i1 + 1, as1 @ as2))
       else Inr (s1, i1, as1)) = Inr (s2, i2, as2) \<and> mobile_inv s2"
    using makePacket_total [of env i1 ?adv s1] mobile_inv_same u(2) by auto
  then obtain s2 i2 as2 where s2: "(if \<not> home (mobileNode s1) \<and> \<not> connected (mobileNode s1) \<and> \<not> h
       then bind_res (makePacket env i1 ?adv s1) (\<lambda>(s2, as2). Inr (s2, i1 + 1, as1 @ as2))
       else Inr (s1, i1, as1)) = Inr (s2, i2, as2)" "mobile_inv s2" by blast
  have step2: "\<exists>s3 as3. (if home (mobileNode s2) \<and> \<not> h \<or> \<not> home (mobileNode s2) \<and> h
       then bind_res (makePacket env i2 ?adv s2) (\<lambda>(s3, as3). Inr (s3, as2 @ as3))
       else Inr (s2, as2)) = Inr (s3, as3) \<and> mobile_inv s3"
    using makePacket_total [of env i2 ?adv s2] mobile_inv_same s2(2) by auto
  have busy: "mobile_inv (set_advs (erase_first (same_agent ?adv) 0 (current_advertisements (mobileNode s))) s)"
    using inv by (simp add: mobile_inv_def set_advs_def erase_first_del1 distinct_map_del1)
  show ?thesis
    using len inv busy step2
    unfolding AdvertisementsHandler_push_def Let_def
    by (simp only: guard_True u(1) bind_res_simps prod.case h_def [symmetric] s2(1)) auto
qed

lemma adv_push_ignores:
  assumes "48 \<le> pk_length p" "\<not> adv_ha (adv_struct (pk_data p))"
  shows "AdvertisementsHandler_push env s p = Inr (s, [])"
  using assms adv_fa_never by (simp add: AdvertisementsHandler_push_def Let_def)

section \<open>Advertisements expire\<close>

definition adv_step :: "Advertisement \<Rightarrow> Advertisement option" where
  "adv_step it = map_option (\<lambda>l. it\<lparr>adv_lifetime := l\<rparr>) (drop_dec (adv_lifetime it))"

text \<open>The advertisement of the agent the node is connected to runs out.\<close>

definition adv_hit :: "bool \<Rightarrow> u32 \<Rightarrow> Advertisement \<Rightarrow> bool" where
  "adv_hit wasConnected host it \<longleftrightarrow> adv_lifetime it = 0 \<and> wasConnected \<and> adv_private_addr it = host"

lemma adv_timer_sweep:
  "sweep (adv_timer_body w host) its (conn, lost) =
     Inr (List.map_filter adv_step its,
       (conn \<and> \<not> list_ex (adv_hit w host) its, lost \<or> list_ex (adv_hit w host) its))"
proof (induction its arbitrary: conn lost)
  case Nil
  show ?case by (simp add: List.map_filter_simps)
next
  case (Cons it its)
  have "adv_timer_body w host it (conn, lost) =
      Inr (adv_step it, if adv_hit w host it then (False, True) else (conn, lost))"
    by (simp add: adv_timer_body_def adv_step_def drop_dec_def adv_hit_def)
  then show ?case
    by (cases "adv_hit w host it"; cases "adv_step it") (simp_all add: Cons.IH List.map_filter_simps)
qed

lemma adv_timer_ok:
  "\<exists>s' as. AdvertisementsHandler_run_timer env s = Inr (s', as @ [Reschedule 0 1000]) \<and>
     current_advertisements (mobileNode s') =
       List.map_filter adv_step (current_advertisements (mobileNode s)) \<and>
     home (mobileNode s') = home (mobileNode s)"
proof -
  define m where "m = mobileNode s"
  let ?its = "List.map_filter adv_step (current_advertisements m)"
  obtain conn lost where sw: "sweep (adv_timer_body (connected m) (curr_private_addr m))
      (current_advertisements m) (connected m, False) = Inr (?its, (conn, lost))"
    using adv_timer_sweep by blast
  define m2 where "m2 = (if ?its = [] then m\<lparr>current_advertisements := ?its, connected := conn\<rparr>\<lparr>advertisementReady := False\<rparr>
     else m\<lparr>current_advertisements := ?its, connected := conn\<rparr>)"
  have m2: "current_advertisements m2 = ?its" "home m2 = home m" by (simp_all add: m2_def)
  have "\<exists>s3 as. (case ?its of [] \<Rightarrow> Inr (s\<lparr>mobileNode := m2\<rparr>, [])
      | a # x \<Rightarrow> if lost then makePacket env 0 a (s\<lparr>mobileNode := m2\<rparr>) else Inr (s\<lparr>mobileNode := m2\<rparr>, []))
      = Inr (s3, as) \<and> current_advertisements (mobileNode s3) = ?its \<and> home (mobileNode s3) = home m"
  proof (cases ?its)
    case Nil
    then show ?thesis using m2 by simp
  next
    case (Cons a x)
    obtain s3 as where "makePacket env 0 a (s\<lparr>mobileNode := m2\<rparr>) = Inr (s3, as)"
        "same_node (s\<lparr>mobileNode := m2\<rparr>) s3"
      using makePacket_total by blast
    then show ?thesis using m2 Cons by (cases lost) (auto simp: same_node_def Let_def)
  qed
  then obtain s3 as where s3: "(case ?its of [] \<Rightarrow> Inr (s\<lparr>mobileNode := m2\<rparr>, [])
      | a # x \<Rightarrow> if lost then makePacket env 0 a (s\<lparr>mobileNode := m2\<rparr>) else Inr (s\<lparr>mobileNode := m2\<rparr>, []))
      = Inr (s3, as)" "current_advertisements (mobileNode s3) = ?its" "home (mobileNode s3) = home m"
    by blast
  have "AdvertisementsHandler_run_timer env s = Inr (s3, as @ [Reschedule 0 1000])"
    unfolding AdvertisementsHandler_run_timer_def Let_def m_def [symmetric] fwd_loop_sweep sw
      bind_res_simps prod.case m2_def [symmetric] s3(1) ..
  then show ?thesis using s3(2,3) by (auto simp: m_def)
qed

definition adv_life :: "mobile \<Rightarrow> u32 \<times> u32 \<Rightarrow> u16 option" where
  "adv_life s k = map_option adv_lifetime
     (find (\<lambda>a. agent_key a = k) (current_advertisements (mobileNode s)))"

definition adv_tick :: "environ \<Rightarrow> mobile \<Rightarrow> mobile res" where
  "adv_tick env s = bind_res (AdvertisementsHandler_run_timer env s) (\<lambda>(s', as). Inr s')"

lemma adv_step_key: "adv_step a = Some b \<Longrightarrow> agent_key b = agent_key a"
  by (auto simp: adv_step_def agent_key_def)

interpretation mn_adverts: expiring adv_life adv_tick "\<lambda>_. True" mobile_inv drop_dec
proof
  fix s :: mobile and env :: environ
  assume inv: "mobile_inv s"
  obtain s' as where s': "AdvertisementsHandler_run_timer env s = Inr (s', as @ [Reschedule 0 1000])"
      "current_advertisements (mobileNode s') = List.map_filter adv_step (current_advertisements (mobileNode s))"
    using adv_timer_ok by blast
  have dis: "distinct (map agent_key (current_advertisements (mobileNode s)))"
    using inv by (simp add: mobile_inv_def)
  have "mobile_inv s'"
    using distinct_map_filter [OF dis adv_step_key] s'(2) by (simp add: mobile_inv_def)
  moreover have "adv_life s' k = Option.bind (adv_life s k) drop_dec" for k
  proof -
    have "find (\<lambda>a. agent_key a = k) (current_advertisements (mobileNode s')) =
        Option.bind (find (\<lambda>a. agent_key a = k) (current_advertisements (mobileNode s))) adv_step"
      unfolding s'(2) by (rule find_map_filter [OF dis adv_step_key])
    then show ?thesis
      by (auto simp: adv_life_def adv_step_def drop_dec_def split: Option.bind_splits)
  qed
  ultimately show "\<exists>s''. adv_tick env s = Inr s'' \<and> mobile_inv s'' \<and>
      (\<forall>k. adv_life s'' k = Option.bind (adv_life s k) drop_dec)"
    using s'(1) by (simp add: adv_tick_def)
qed

section \<open>Replies and the connection timer\<close>

text \<open>A reply that answers exactly one of the outstanding requests.\<close>

lemma foldl_reply_none:
  assumes "\<forall>r \<in> set rs. \<not> reply_matches m b r"
  shows "foldl (source_reply_body b) (m, as) rs = (m, as)"
  using assms by (induction rs) (auto simp: source_reply_body_def)

lemma reply_matches_cong:
  "home_public_addr m' = home_public_addr m \<Longrightarrow> reply_matches m' b r = reply_matches m b r"
  by (simp add: reply_matches_def Let_def)

lemma foldl_reply_one:
  assumes "\<forall>r' \<in> set (xs @ ys). \<not> reply_matches m b r'" "reply_matches m b r"
  shows "foldl (source_reply_body b) (m, []) (xs @ r # ys) = source_reply_body b (m, []) r"
proof -
  obtain m' as where b1: "source_reply_body b (m, []) r = (m', as)" by fastforce
  have "home_public_addr m' = home_public_addr m"
    using b1 assms(2) by (auto simp: source_reply_body_def Let_def split: if_splits)
  then have "\<forall>r' \<in> set ys. \<not> reply_matches m' b r'"
    using assms(1) reply_matches_cong [of m' m b] by auto
  then show ?thesis using assms b1 by (simp add: foldl_reply_none)
qed

lemma request_loop:
  "bwd_loop request_body (length rs) rs () =
     Inr (List.map_filter (\<lambda>r. map_option (\<lambda>l. r\<lparr>rs_remainingLifetime := l\<rparr>)
       (dec_drop (rs_remainingLifetime r))) rs, ())"
proof -
  have body: "request_body = (\<lambda>r u. Inr (map_option (\<lambda>l. r\<lparr>rs_remainingLifetime := l\<rparr>)
       (dec_drop (rs_remainingLifetime r)), u))"
    by (intro ext) (simp add: request_body_def dec_drop_def Let_def)
  show ?thesis unfolding bwd_loop_sweep body sweep_pure by (simp add: rev_map_filter)
qed

section \<open>Properties\<close>

text \<open>(C18) Every registration request the node sends is well formed and remembered: valid IP and UDP
  checksums, to the agent's private address and port 434, lifetime 0 exactly at home, and the
  new entry in the request list has the identification, port and lifetime of the message.\<close>

theorem request_well_formed:
  assumes "env_packet env i"
  shows "\<exists>s' q r. makePacket env i a s = Inr (s', [Emit 0 q]) \<and> currentRequests s' = currentRequests s @ [r] \<and>
    ip_sum_ok (pk_data q) \<and> udp_sum_ok (pk_data q) \<and> pk_dst_ip q = adv_private_addr a \<and>
    get16 (pk_data q) 20 = rs_port r \<and> get16 (pk_data q) 22 = htons 434 \<and>
    rq_id1 (read_req (pk_data q) 28) = rs_id1 r \<and> rq_id2 (read_req (pk_data q) 28) = rs_id2 r \<and>
    rq_coAddr (read_req (pk_data q) 28) = adv_COA a \<and> rs_remainingLifetime r = adv_reg_lifetime a \<and>
    rq_lifetime (read_req (pk_data q) 28) =
      (if adv_private_addr a = home_private_addr (mobileNode s) then 0 else adv_reg_lifetime a)"
  using makePacket_ok [OF assms, of a s] by (force simp: request_for_def)

definition sample_mobile :: mobile where
  "sample_mobile = \<lparr>mobileNode = \<lparr>home = True, connected = False, advertisementReady = False,
     remainingConnectionTime = 0, curr_coa = 10, curr_private_addr = 11, home_public_addr = 10,
     home_private_addr = 11, myAddress = 12, current_advertisements = []\<rparr>, currentRequests = []\<rparr>"

definition sample_adv :: Advertisement where
  "sample_adv = \<lparr>adv_lifetime = htons 9, adv_reg_lifetime = htons 25, adv_sequenceNum = 0,
     adv_COA = 20, adv_private_addr = 21, adv_ha = True, adv_fa = False\<rparr>"

theorem request_well_formed_witness:
  "\<exists>s' q. makePacket sample_env 0 sample_adv sample_mobile = Inr (s', [Emit 0 q]) \<and>
     length (currentRequests s') = 1 \<and> udp_sum_ok (pk_data q)"
  using request_well_formed [of sample_env 0 sample_adv sample_mobile] by (auto simp: sample_mobile_def)

text \<open>(C19) The handler never sees an agent as a foreign agent: the test of the flag shifts it the wrong
  way, so an advertisement without the home-agent flag is ignored, whatever its other flags.\<close>

theorem foreign_only_advertisement_ignored:
  assumes "48 \<le> pk_length p" "\<not> bit (ah_flagsReserved (read_adv (pk_data p) 20)) 5"
  shows "\<not> adv_fa (adv_struct (pk_data p)) \<and> AdvertisementsHandler_push env s p = Inr (s, [])"
proof -
  have "\<not> adv_ha (adv_struct (pk_data p))"
    using assms(2) by (simp only: adv_struct_def Let_def Advertisement.simps bit_test) (simp add: bit_simps)
  then show ?thesis using adv_push_ignores [OF assms(1)] adv_fa_never by blast
qed

theorem foreign_only_advertisement_ignored_witness:
  "AdvertisementsHandler_push sample_env sample_mobile (fresh_packet [] (put16 (zeros 48) 42 0x90) 0) =
     Inr (sample_mobile, [])"
  using foreign_only_advertisement_ignored [of "fresh_packet [] (put16 (zeros 48) 42 0x90) 0"
      sample_env sample_mobile] by (simp add: read_adv_def)

text \<open>(C20) Handling an advertisement never faults once it has the advertisement's length, and keeps one
  entry per agent in the list of advertisements heard.\<close>

theorem advertisement_handled:
  assumes "mobile_inv s" "48 \<le> pk_length p"
  shows "\<exists>s' as. AdvertisementsHandler_push env s p = Inr (s', as) \<and>
    distinct (map agent_key (current_advertisements (mobileNode s')))"
  using adv_push_total [OF assms, of env] by (simp add: mobile_inv_def)

theorem advertisement_handled_witness:
  "\<exists>s' as. AdvertisementsHandler_push sample_env sample_mobile (fresh_packet [] (put16 (zeros 48) 42 0xB0) 0) =
     Inr (s', as)"
  using advertisement_handled [of sample_mobile "fresh_packet [] (put16 (zeros 48) 42 0xB0) 0" sample_env]
  by (auto simp: mobile_inv_def sample_mobile_def)

text \<open>An agent whose advertisement announced fewer than 256 seconds is forgotten after exactly that
  many timer runs and one more; with a longer lifetime it is never forgotten.\<close>

theorem advertisement_expires_exactly:
  assumes "mobile_inv s" "adv_life s k = Some l"
  shows "\<exists>s'. run_ticks adv_tick envs s = Inr s' \<and>
    (if seconds l < 256
     then map_option seconds (adv_life s' k) =
       (if length envs \<le> seconds l then Some (seconds l - length envs) else None)
     else adv_life s' k \<noteq> None)"
proof -
  obtain s' where s': "run_ticks adv_tick envs s = Inr s'"
      "adv_life s' k = Option.bind (Some l) (life_after drop_dec (length envs))"
    using mn_adverts.ticks_life [OF assms(1), of envs] assms(2)
    by (cases k) (auto simp: list_all_iff)
  then show ?thesis
    using life_after_drop_dec [of l "length envs"] life_after_long(2) [of l "length envs"] by auto
qed

theorem advertisement_expires_exactly_witness:
  "\<exists>s'. run_ticks adv_tick (replicate 10 sample_env) (set_advs [sample_adv] sample_mobile) = Inr s' \<and>
     map_option seconds (adv_life s' (21, 20)) = None"
proof -
  have 9: "seconds (htons 9) = 9" using seconds_htons [of 9] by simp
  have "mobile_inv (set_advs [sample_adv] sample_mobile)" by (simp add: mobile_inv_def set_advs_def)
  from advertisement_expires_exactly [OF this, of "(21, 20)" "htons 9" "replicate 10 sample_env"] 9
  show ?thesis by (auto simp: adv_life_def set_advs_def sample_adv_def agent_key_def)
qed

text \<open>The node counts a registration request of fewer than 256 seconds down to its removal: one run
  of the first timer keeps exactly the requests with more than one second left, lowered by one.\<close>

theorem request_timer_removes_expired:
  assumes "\<forall>r \<in> set (currentRequests s). 0 < seconds (rs_remainingLifetime r) \<and> seconds (rs_remainingLifetime r) < 256"
  shows "\<exists>rs. RegistrationRequestSource_run_timer env 0 s = Inr (s\<lparr>currentRequests := rs\<rparr>, [Reschedule 0 1000]) \<and>
    map (\<lambda>r. seconds (rs_remainingLifetime r)) rs =
      map (\<lambda>x. x - 1) (filter (\<lambda>x. x \<noteq> 1) (map (\<lambda>r. seconds (rs_remainingLifetime r)) (currentRequests s)))"
proof -
  let ?g = "\<lambda>r. map_option (\<lambda>l. r\<lparr>rs_remainingLifetime := l\<rparr>) (dec_drop (rs_remainingLifetime r))"
  have "map (\<lambda>r. seconds (rs_remainingLifetime r)) (List.map_filter ?g rs) =
      map (\<lambda>x. x - 1) (filter (\<lambda>x. x \<noteq> 1) (map (\<lambda>r. seconds (rs_remainingLifetime r)) rs))"
    if "\<forall>r \<in> set rs. 0 < seconds (rs_remainingLifetime r) \<and> seconds (rs_remainingLifetime r) < 256" for rs
    using that
    by (induction rs) (auto simp: List.map_filter_simps dec_drop_small seconds_tick_small)
  then show ?thesis
    using assms by (auto simp: RegistrationRequestSource_run_timer_def request_loop)
qed

theorem request_timer_removes_expired_witness:
  "\<exists>rs. RegistrationRequestSource_run_timer sample_env 0 (sample_mobile\<lparr>currentRequests :=
      [\<lparr>rs_ipDst = 1, rs_COA = 2, rs_id1 = 3, rs_id2 = 4, rs_requestedLifetime = htons 1,
        rs_remainingLifetime = htons 1, rs_port = 5\<rparr>]\<rparr>) =
     Inr (sample_mobile\<lparr>currentRequests := rs\<rparr>, [Reschedule 0 1000]) \<and> rs = []"
proof -
  have "seconds (htons 1) = 1" using seconds_htons [of 1] by simp
  then show ?thesis
    using request_timer_removes_expired [of "sample_mobile\<lparr>currentRequests :=
      [\<lparr>rs_ipDst = 1, rs_COA = 2, rs_id1 = 3, rs_id2 = 4, rs_requestedLifetime = htons 1,
        rs_remainingLifetime = htons 1, rs_port = 5\<rparr>]\<rparr>" sample_env] by simp
qed

end
