(* ===== verification/Registration.thy ===== *)
theory Registration
  imports Tunnel MobileNode
begin

text \<open>
  The registration protocol across routers: the agent as a state machine over its handlers and
  timers, and the message sequence mobile node, foreign agent, home agent and back.  A packet
  emitted by one handler is the input of the next; what lies between them (framing, ARP,
  routing) does not change its data.
\<close>

section \<open>The agent as a state machine\<close>

datatype agent_event =
    HA_request environ packet
  | HA_timer
  | FA_request environ packet
  | FA_reply environ packet
  | FA_timer environ

fun agent_handle :: "agent_event \<Rightarrow> AgentBase \<Rightarrow> (AgentBase \<times> action list) res" where
  "agent_handle (HA_request env p) a = RegistrationRequestReply_push env a p"
| "agent_handle HA_timer a = RegistrationRequestReply_run_timer a"
| "agent_handle (FA_request env p) a = ForeignAgentReqProcess_push env a p"
| "agent_handle (FA_reply env p) a = ForeignAgentReplyProcess_push env a p"
| "agent_handle (FA_timer env) a = ForeignAgentReqProcess_run_timer env a"

text \<open>Any event may come; a run goes on as long as no handler faults.\<close>

inductive agent_reaches :: "AgentBase \<Rightarrow> agent_event list \<Rightarrow> AgentBase \<Rightarrow> bool" where
  start: "agent_reaches a [] a"
| event: "agent_reaches a evs b \<Longrightarrow> agent_handle ev b = Inr (c, as) \<Longrightarrow> agent_reaches a (evs @ [ev]) c"

text \<open>An event during which the table of bindings cannot allocate an element.\<close>

fun table_exhausted :: "agent_event \<Rightarrow> bool" where
  "table_exhausted (HA_request env p) \<longleftrightarrow> \<not> env_elt env"
| "table_exhausted _ \<longleftrightarrow> False"

text \<open>The faults of a handler, apart from reading an IP header that is longer than its packet.\<close>

fun agent_fault :: "agent_event \<Rightarrow> AgentBase \<Rightarrow> fault option" where
  "agent_fault (HA_request env p) a = None"
| "agent_fault HA_timer a = (if \<exists>k \<in> set (reg_list a). bindings a k = None then Some NullDeref else None)"
| "agent_fault (FA_request env p) a =
     (if pk_length p < 52 \<or> \<not> shared p then None
      else if \<not> env_copy env then Some NullDeref
      else if rq_type (read_req (pk_data p) 28) \<noteq> 1 then Some UseAfterKill else None)"
| "agent_fault (FA_reply env p) a = (if 48 \<le> pk_length p \<and> shared p \<and> \<not> env_copy env then Some NullDeref else None)"
| "agent_fault (FA_timer env) a = None"

fun header_inside :: "agent_event \<Rightarrow> bool" where
  "header_inside (FA_request env p) \<longleftrightarrow> 4 * unat (ip_hl (pk_data p) 0) \<le> pk_length p"
| "header_inside (FA_reply env p) \<longleftrightarrow> 4 * unat (ip_hl (pk_data p) 0) \<le> pk_length p"
| "header_inside _ \<longleftrightarrow> True"

definition agent_ok :: "AgentBase \<Rightarrow> bool" where
  "agent_ok a \<longleftrightarrow> bindings_listed a \<and> visitors_inv a \<and> maxRequests a = 5"

lemma agent_ok_same: "agent_ok a \<Longrightarrow> same_bindings a a' \<Longrightarrow> agent_ok a'"
  using same_bindings_inv(1) [of a a'] by (simp add: agent_ok_def same_bindings_def)

text \<open>One event: what it keeps, and how it can fault.\<close>

lemma agent_handle_result:
  assumes "agent_ok a"
  shows "case agent_handle ev a of
      Inr (a', as) \<Rightarrow> agent_ok a' \<and> (unbound a' \<subseteq> unbound a \<or> table_exhausted ev) \<and> agent_fault ev a = None
    | Inl f \<Rightarrow> agent_fault ev a = Some f \<or> f = OutOfBounds \<and> \<not> header_inside ev \<and> agent_fault ev a = None"
proof (cases ev)
  case (HA_request env p)
  have "bindings_listed a" using assms by (simp add: agent_ok_def)
  then obtain a' as where "RegistrationRequestReply_push env a p = Inr (a', as)" "bindings_listed a'"
    "env_elt env \<Longrightarrow> unbound a' \<subseteq> unbound a" "visitorMap a' = visitorMap a" "registrationReq a' = registrationReq a"
    "maxRequests a' = maxRequests a"
    using ha_push_listed [of a env p] by blast
  then show ?thesis using HA_request assms by (auto simp: agent_ok_def visitors_inv_def)
next
  case HA_timer
  have listed: "bindings_listed a" using assms by (simp add: agent_ok_def)
  have unbound: "unbound a = {} \<longleftrightarrow> \<not> (\<exists>k \<in> set (reg_list a). bindings a k = None)" by (auto simp: unbound_def)
  show ?thesis
  proof (cases "unbound a = {}")
    case True
    then show ?thesis
      using HA_timer assms ha_timer_listed(2) [OF listed] unbound by (fastforce simp: agent_ok_def visitors_inv_def)
  next
    case False
    then show ?thesis using HA_timer ha_timer_listed(1) [OF listed] unbound by simp
  qed
next
  case (FA_request env p)
  have "visitors_inv a" using assms by (simp add: agent_ok_def)
  note result = fa_push_result [OF this, of p env]
  show ?thesis
  proof (cases "agent_fault ev a")
    case None
    then show ?thesis
      using result FA_request agent_ok_same [OF assms] same_bindings_inv(2) [of a]
      by (auto simp: writable_def header_fits_def is_request_def split: sum.splits if_splits)
  next
    case (Some f)
    then have "ForeignAgentReqProcess_push env a p = Inl f" using FA_request fa_push_faults [of p env a] by (auto split: if_splits)
    then show ?thesis using Some FA_request by simp
  qed
next
  case (FA_reply env p)
  have "visitors_inv a" using assms by (simp add: agent_ok_def)
  note result = fa_reply_result [OF this, of p env]
  show ?thesis
  proof (cases "agent_fault ev a")
    case None
    then show ?thesis
      using result FA_reply agent_ok_same [OF assms] same_bindings_inv(2) [of a]
      by (auto simp: writable_def header_fits_def split: sum.splits if_splits)
  next
    case (Some f)
    then have "ForeignAgentReplyProcess_push env a p = Inl f" using FA_reply fa_reply_fault [of p env a] by (auto split: if_splits)
    then show ?thesis using Some FA_reply by simp
  qed
next
  case (FA_timer env)
  have "visitors_inv a" using assms by (simp add: agent_ok_def)
  then obtain a' as where "ForeignAgentReqProcess_run_timer env a = Inr (a', as)" "same_bindings a a'" by (rule fa_timer_keeps)
  then show ?thesis using FA_timer agent_ok_same [OF assms] same_bindings_inv(2) [of a a'] by simp
qed

lemma agent_reaches_ok:
  assumes "agent_reaches (configured pub priv lfreg) evs a"
  shows "agent_ok a" "\<not> list_ex table_exhausted evs \<Longrightarrow> unbound a = {}"
proof -
  have "agent_ok a \<and> (unbound a = {} \<or> list_ex table_exhausted evs)"
    using assms
  proof (induction "configured pub priv lfreg" evs a rule: agent_reaches.induct)
    case start
    then show ?case
      using configured_inv [of pub priv lfreg] by (simp add: agent_ok_def agent_inv_def bindings_inv_listed)
  next
    case (event evs b ev c as)
    then show ?case using agent_handle_result [of b ev] by auto
  qed
  then show "agent_ok a" "\<not> list_ex table_exhausted evs \<Longrightarrow> unbound a = {}" by auto
qed

text \<open>(C3) From a configured agent, after any sequence of requests, replies and timer runs none of which
  faulted, whatever the packets and whichever allocations failed: every binding is listed once and
  stored under its own home address, a visiting node has one entry, and no more than five requests are
  pending.  If no request met a table that could not allocate an element, the list holds exactly the
  addresses with a binding.\<close>

theorem agent_invariant_reachable:
  assumes "agent_reaches (configured pub priv lfreg) evs a"
  shows "distinct (reg_list a) \<and> dom (bindings a) \<subseteq> set (reg_list a) \<and>
    (\<not> list_ex table_exhausted evs \<longrightarrow> set (reg_list a) = dom (bindings a)) \<and>
    (\<forall>k e. bindings a k = Some e \<longrightarrow> mobile_node_homadress e = k) \<and>
    distinct (map li_ipSrc (visitorMap a)) \<and> length (registrationReq a) \<le> 5"
  using agent_reaches_ok [OF assms] by (auto simp: agent_ok_def bindings_listed_def visitors_inv_def unbound_def)

text \<open>A home agent that accepts a request, and whose timer then runs.\<close>

lemma sample_accepted:
  "\<exists>as. agent_handle (HA_request env (request_packet sample_request)) (configured 10 11 25) = Inr (ha_update env sample_request (configured 10 11 25), as)"
  if "env_packet env 0"
proof -
  obtain dup where dup: "ha_duplicate (configured 10 11 25) (read_req (pk_data (request_packet sample_request)) 28) = Inr dup"
    using ha_duplicate_total by blast
  obtain d where d: "ha_reply_data (pk_data (request_packet sample_request)) 0 dup = Inr d" using ha_reply_data_ok by blast
  show ?thesis using ha_push_accept [OF sample_request_ok that d dup] by simp
qed

theorem agent_invariant_reachable_witness:
  "\<exists>a. agent_reaches (configured 10 11 25) [HA_request sample_env (request_packet sample_request), HA_timer] a \<and>
    reg_list a = [12] \<and> dom (bindings a) = {12} \<and> length (registrationReq a) \<le> 5"
proof -
  let ?a = "sample_bound (htons 25)"
  have nz: "htons 25 \<noteq> 0" by simp
  have upd: "ha_update sample_env sample_request (configured 10 11 25) = ?a"
    by (simp add: sample_bound_def sample_request_def)
  obtain as where "agent_handle (HA_request sample_env (request_packet sample_request)) (configured 10 11 25) = Inr (?a, as)"
    using sample_accepted [of sample_env] unfolding upd by (auto simp: sample_env_def)
  then have 1: "agent_reaches (configured 10 11 25) [HA_request sample_env (request_packet sample_request)] ?a"
    using agent_reaches.event [OF agent_reaches.start] by fastforce
  have inv: "bindings_inv ?a" using sample_bound_ok(1) [OF nz] by (simp add: agent_inv_def)
  obtain l t where lt: "RegistrationRequestReply_run_timer ?a = Inr (?a\<lparr>reg_list := l, reg_table := t\<rparr>, [Reschedule 0 1000])"
      "hm_find_pair t = ha_expire (bindings ?a)"
    using ha_run_timer_ok [OF inv] by blast
  let ?b = "?a\<lparr>reg_list := l, reg_table := t\<rparr>"
  have 2: "agent_reaches (configured 10 11 25) [HA_request sample_env (request_packet sample_request), HA_timer] ?b"
    using agent_reaches.event [OF 1, of HA_timer] lt(1) by simp
  have one: "dom (bindings ?a) = {12}"
    using ha_update_refines(2) [of "configured 10 11 25" sample_env "sample_request\<lparr>rq_lifetime := htons 25\<rparr>"] configured_inv(1) [of 10 11 25]
    by (auto simp: sample_bound_def agent_inv_def ha_register_def sample_request_def sample_env_def split: if_splits)
  have "dec_drop (htons 25) \<noteq> None" by (simp add: dec_drop_def tick16_def htons_def)
  then have "dom (bindings ?b) = {12}"
    using one sample_bound_ok(3) [OF nz] lt(2) by (auto simp: bindings_def ha_expire_def ha_expire_entry_def dom_def bind_eq_Some_conv)
  moreover have "distinct (reg_list ?b) \<and> set (reg_list ?b) = dom (bindings ?b) \<and> length (registrationReq ?b) \<le> 5"
    using agent_invariant_reachable [OF 2] by (simp add: sample_env_def)
  ultimately have "reg_list ?b = [12]" by (cases "reg_list ?b"; cases "tl (reg_list ?b)") auto
  then show ?thesis using 2 \<open>dom (bindings ?b) = {12}\<close> \<open>distinct (reg_list ?b) \<and> _\<close> by blast
qed



section \<open>A registration through a foreign agent\<close>

definition request_id1 :: "environ \<Rightarrow> u32" where
  "request_id1 env = htonl (of_nat (env_rand env 1 mod 2147483647))"

text \<open>The four messages of a successful registration, each handler's output being the next
  handler's input, and the mobile node's reaction to the reply.\<close>

definition registers ::
  "environ \<Rightarrow> mobile \<Rightarrow> Advertisement \<Rightarrow> AgentBase \<Rightarrow> AgentBase \<Rightarrow>
   mobile \<Rightarrow> AgentBase \<Rightarrow> AgentBase \<Rightarrow> packet list \<Rightarrow> bool" where
  "registers env mn adv fa ha mn' fa' ha' ps \<longleftrightarrow>
     (\<exists>mn1 fa1 p1 p2 p3 p4. ps = [p1, p2, p3, p4] \<and>
        makePacket env 0 adv mn = Inr (mn1, [Emit 0 p1]) \<and>
        ForeignAgentReqProcess_push env fa p1 = Inr (fa1, [Emit 1 p2]) \<and>
        RegistrationRequestReply_push env ha p2 = Inr (ha', [Emit 0 p3]) \<and>
        ForeignAgentReplyProcess_push env fa1 p3 = Inr (fa', [Emit 0 p4]) \<and>
        fst (RegistrationRequestSource_push mn1 p4) = mn')"

text \<open>What the parties bring to it.\<close>

definition can_register :: "environ \<Rightarrow> mobile \<Rightarrow> Advertisement \<Rightarrow> AgentBase \<Rightarrow> AgentBase \<Rightarrow> bool" where
  "can_register env mn adv fa ha \<longleftrightarrow>
     env_packet env 0 \<and> env_elt env \<and>
     adv_private_addr adv \<noteq> home_private_addr (mobileNode mn) \<and>
     adv_reg_lifetime adv \<noteq> 0 \<and> int (seconds (adv_reg_lifetime adv)) \<le> lifetimeReg fa \<and>
     visitors_inv fa \<and> int (length (registrationReq fa)) < maxRequests fa \<and>
     list_all (\<lambda>it. li_id1 it \<noteq> request_id1 env) (registrationReq fa) \<and>
     list_all (\<lambda>r. rs_id1 r \<noteq> request_id1 env) (currentRequests mn) \<and>
     bindings_inv ha \<and> isHome ha (myAddress (mobileNode mn)) \<and>
     home_public_addr (mobileNode mn) = public_addr ha"

lemma fa_validate_1:
  assumes "visitors_inv a" "int (length (registrationReq a)) < maxRequests a"
    "rq_flags (read_req b 28) = 0" "int (seconds (rq_lifetime (read_req b 28))) \<le> lifetimeReg a"
  shows "fst (fa_validatePacket a b) = 1"
  using assms by (auto simp: fa_validatePacket_def seconds_def Let_def)

lemma ha_validate_ok:
  assumes "rq_flags (read_req b 28) = 0" "rq_homeAgent (read_req b 28) = public_addr a"
  shows "ha_validatePacket a b = 0"
  using assms by (simp add: ha_validatePacket_def Let_def)

lemma ha_push_fresh:
  assumes "length (pk_data p) = 52" "rq_type (read_req (pk_data p) 28) = 1"
    "ha_validatePacket a (pk_data p) = 0" "env_packet env 0"
    "isHome a (rq_homeAddr (read_req (pk_data p) 28))" "rq_lifetime (read_req (pk_data p) 28) \<noteq> 0"
  shows "\<exists>d. RegistrationRequestReply_push env a p =
      Inr (ha_update env (read_req (pk_data p) 28) a, [Emit 0 (ha_packet env (get32 (pk_data p) 12) d)]) \<and>
    length d = 48 \<and> ip_sum_ok d \<and> udp_sum_ok d \<and> ip_hl d 0 = 5 \<and>
    get16 d 22 = get16 (pk_data p) 20 \<and>
    read_reply d 28 = \<lparr>rp_type = 3, rp_code = 0, rp_lifetime = rq_lifetime (read_req (pk_data p) 28),
       rp_homeAddr = rq_homeAddr (read_req (pk_data p) 28), rp_homeAgent = rq_homeAgent (read_req (pk_data p) 28),
       rp_id1 = rq_id1 (read_req (pk_data p) 28), rp_id2 = rq_id2 (read_req (pk_data p) 28)\<rparr>"
proof -
  have dup: "ha_duplicate a (read_req (pk_data p) 28) = Inr None"
    using assms(5) by (simp add: ha_duplicate_total isHome_iff)
  obtain d where d: "ha_reply_data (pk_data p) 0 None = Inr d" "length d = 48" "ip_sum_ok d" "udp_sum_ok d"
      "ip_hl d 0 = 5" "get16 d 22 = get16 (pk_data p) 20"
      "read_reply d 28 = \<lparr>rp_type = 3, rp_code = 0, rp_lifetime = rq_lifetime (read_req (pk_data p) 28),
       rp_homeAddr = rq_homeAddr (read_req (pk_data p) 28), rp_homeAgent = rq_homeAgent (read_req (pk_data p) 28),
       rp_id1 = rq_id1 (read_req (pk_data p) 28), rp_id2 = rq_id2 (read_req (pk_data p) 28)\<rparr>"
    using ha_reply_data_ok [of "pk_data p" 0 None] by auto
  have "is_request p" using assms(1,2) by (simp add: is_request_def pk_length_def)
  from ha_push_accept [OF this assms(3,4) d(1) dup] show ?thesis
    using assms(6) d by auto
qed

lemma find_last:
  assumes "list_all (\<lambda>x. \<not> P x) xs" "P y"
  shows "find P (xs @ [y]) = Some y" "del1 P (xs @ [y]) = xs"
  using assms by (induction xs) auto

text \<open>The reply of the home agent reaches the node's own request and no other.\<close>

lemma source_push_match:
  assumes "length (pk_data p) = 48" "rp_type (read_reply (pk_data p) 28) = 3"
    "rp_code (read_reply (pk_data p) 28) = 0" "rp_lifetime (read_reply (pk_data p) 28) \<noteq> 0"
    "reply_matches (mobileNode s) (pk_data p) r" "currentRequests s = rs @ [r]"
    "\<forall>r' \<in> set rs. \<not> reply_matches (mobileNode s) (pk_data p) r'"
  shows "fst (RegistrationRequestSource_push s p) = s\<lparr>mobileNode := (mobileNode s)
     \<lparr>home := False, connected := True, curr_private_addr := rs_ipDst r, curr_coa := rs_COA r,
      remainingConnectionTime := rs_remainingLifetime r -
        (rs_requestedLifetime r - rp_lifetime (read_reply (pk_data p) 28))\<rparr>\<rparr>"
  using assms foldl_reply_one [of rs "[]" "mobileNode s" "pk_data p" r]
  by (simp add: RegistrationRequestSource_push_def pk_length_def source_reply_body_def Let_def)

text \<open>What everyone knows afterwards.\<close>

definition registered :: "mobile \<Rightarrow> Advertisement \<Rightarrow> AgentBase \<Rightarrow> mobile \<Rightarrow> AgentBase \<Rightarrow> AgentBase \<Rightarrow> bool" where
  "registered mn adv fa mn' fa' ha' \<longleftrightarrow>
     (let node = myAddress (mobileNode mn) in
      connected (mobileNode mn') \<and> \<not> home (mobileNode mn') \<and>
      curr_coa (mobileNode mn') = adv_COA adv \<and> curr_private_addr (mobileNode mn') = adv_private_addr adv \<and>
      remainingConnectionTime (mobileNode mn') = adv_reg_lifetime adv \<and>
      inMapNode fa' node \<and> visitor_life fa' node = Some (adv_reg_lifetime adv) \<and>
      registrationReq fa' = registrationReq fa \<and>
      map_option mobile_node_coa (bindings ha' node) = Some (adv_COA adv) \<and>
      binding_life ha' node = Some (adv_reg_lifetime adv))"

text \<open>The foreign agent's half: relaying the reply turns the last pending request into a visitor.\<close>

lemma fa_accept_last:
  assumes "list_all (\<lambda>x. \<not> same_ids r x) (registrationReq fa)" "same_ids r it"
    "rp_lifetime r = li_lifetimeReq it"
  defines "fa1 \<equiv> fa\<lparr>registrationReq := registrationReq fa @ [it]\<rparr>"
  shows "\<exists>fa'. fa_accept junk r fa1 = Inr fa' \<and> registrationReq fa' = registrationReq fa \<and>
    private_addr fa' = private_addr fa \<and> inMapNode fa' (li_ipSrc it) \<and>
    visitor_life fa' (li_ipSrc it) = Some (rp_lifetime r)"
proof -
  have none: "find (\<lambda>v. li_ipSrc v = ip) (filter (\<lambda>v. li_ipSrc v \<noteq> ip) xs) = None" for ip xs
    by (simp add: find_None_iff)
  have app: "find P (xs @ [y]) = (case find P xs of None \<Rightarrow> if P y then Some y else None | Some z \<Rightarrow> Some z)"
    for P and xs :: "listItem list" and y
    by (induction xs) auto
  show ?thesis
    using find_last [OF assms(1,2)] assms(3)
    by (simp add: fa1_def fa_accept_eq inMapNode_iff visitor_life_def app none fa_visitor_item_def Let_def)
qed

text \<open>(C1) Registration works end to end.  A mobile node that hears a foreign agent, with room and an
  offered lifetime there, and whose home agent holds no binding for it, sends a request; the
  foreign agent relays it, the home agent accepts, the foreign agent relays the reply, and the
  node ends up connected: the home agent is bound to the care-of address, the foreign agent has
  exactly this visitor with the agreed lifetime and no request left pending, and all four
  messages carry valid IP and UDP checksums.\<close>

theorem registration_succeeds:
  assumes "can_register env mn adv fa ha"
  shows "\<exists>mn' fa' ha' ps. registers env mn adv fa ha mn' fa' ha' ps \<and> registered mn adv fa mn' fa' ha' \<and>
    (\<forall>p \<in> set ps. ip_sum_ok (pk_data p) \<and> udp_sum_ok (pk_data p))"
proof -
  define m where "m = mobileNode mn"
  note H = assms [unfolded can_register_def m_def [symmetric]]
  have aft: "after_request adv m = m" using H by (simp add: after_request_def)
  obtain p1 r where mk: "makePacket env 0 adv mn =
        Inr (\<lparr>mobileNode = m, currentRequests = currentRequests mn @ [r]\<rparr>, [Emit 0 p1])"
      and r: "rs_ipDst r = adv_private_addr adv" "rs_COA r = adv_COA adv"
        "rs_requestedLifetime r = adv_reg_lifetime adv" "rs_remainingLifetime r = adv_reg_lifetime adv"
        "rs_id1 r = request_id1 env"
      and p1: "\<not> shared p1" "length (pk_data p1) = 52" "ip_sum_ok (pk_data p1)" "udp_sum_ok (pk_data p1)"
        "ip_hl (pk_data p1) 0 = 5" "get16 (pk_data p1) 20 = rs_port r"
        "read_req (pk_data p1) 28 = request_for m adv r"
    using makePacket_ok [of env 0 adv mn] H aft by (auto simp: m_def [symmetric] request_id1_def)
  have rq: "rq_type (read_req (pk_data p1) 28) = 1" "rq_flags (read_req (pk_data p1) 28) = 0"
      "rq_lifetime (read_req (pk_data p1) 28) = adv_reg_lifetime adv"
      "rq_homeAddr (read_req (pk_data p1) 28) = myAddress m"
      "rq_homeAgent (read_req (pk_data p1) 28) = public_addr ha"
      "rq_coAddr (read_req (pk_data p1) 28) = adv_COA adv"
      "rq_id1 (read_req (pk_data p1) 28) = rs_id1 r" "rq_id2 (read_req (pk_data p1) 28) = rs_id2 r"
    using H by (simp_all add: p1(7) request_for_def)
  define it where "it = fa_pending_item (pk_data p1)"
  have it: "li_ipSrc it = myAddress m" "li_id1 it = rs_id1 r" "li_id2 it = rs_id2 r"
      "li_lifetimeReq it = adv_reg_lifetime adv"
    using rq by (simp_all add: it_def fa_pending_item_def Let_def)
  have "fst (fa_validatePacket fa (pk_data p1)) = 1"
    using H rq by (intro fa_validate_1) simp_all
  then obtain p2 where p2: "ForeignAgentReqProcess_push env fa p1 =
        Inr (fa\<lparr>registrationReq := registrationReq fa @ [it]\<rparr>, [Emit 1 p2])"
      "relayed (public_addr fa) (public_addr ha) (pk_data p1) p2"
    using fa_push_relay [of fa p1 env] H p1 rq by (auto simp: it_def)
  note rd2 = relayed_read(1) [OF p2(2), unfolded p1(2), simplified]
  have l2: "length (pk_data p2) = 52" "get16 (pk_data p2) 20 = rs_port r"
    using p2(2) p1(2,6) by (simp_all add: relayed_def Let_def)
  have "ha_validatePacket ha (pk_data p2) = 0" using rq rd2 by (intro ha_validate_ok) simp_all
  then obtain d where ha: "RegistrationRequestReply_push env ha p2 =
      Inr (ha_update env (read_req (pk_data p2) 28) ha, [Emit 0 (ha_packet env (get32 (pk_data p2) 12) d)])"
      and d: "length d = 48" "ip_sum_ok d" "udp_sum_ok d" "ip_hl d 0 = 5" "get16 d 22 = rs_port r"
      "read_reply d 28 = \<lparr>rp_type = 3, rp_code = 0, rp_lifetime = adv_reg_lifetime adv,
       rp_homeAddr = myAddress m, rp_homeAgent = public_addr ha, rp_id1 = rs_id1 r, rp_id2 = rs_id2 r\<rparr>"
    using ha_push_fresh [of p2 ha env] H rq rd2 l2 by auto
  define ha' p3 where "ha' = ha_update env (read_req (pk_data p2) 28) ha"
    and "p3 = ha_packet env (get32 (pk_data p2) 12) d"
  have p3: "pk_data p3 = d" "\<not> shared p3" by (simp_all add: p3_def)
  have "list_all (\<lambda>x. \<not> same_ids (read_reply d 28) x) (registrationReq fa)"
    using H r(5) d(6) by (auto simp: same_ids_def list_all_iff)
  moreover have "same_ids (read_reply d 28) it" "rp_lifetime (read_reply d 28) = li_lifetimeReq it"
    using d(6) it by (simp_all add: same_ids_def)
  ultimately obtain fa' where fa': "fa_accept (get16 (map (env_mem env) [0..<2]) 0) (read_reply d 28)
        (fa\<lparr>registrationReq := registrationReq fa @ [it]\<rparr>) = Inr fa'"
      "registrationReq fa' = registrationReq fa" "private_addr fa' = private_addr fa"
      "inMapNode fa' (myAddress m)" "visitor_life fa' (myAddress m) = Some (adv_reg_lifetime adv)"
    using fa_accept_last [of "read_reply d 28" fa it] it d(6) by auto
  obtain p4 where p4: "ForeignAgentReplyProcess_push env (fa\<lparr>registrationReq := registrationReq fa @ [it]\<rparr>) p3 =
        Inr (fa', [Emit 0 p4])" "relayed (private_addr fa') (myAddress m) d p4"
    using fa_reply_relay [of p3 env "fa\<lparr>registrationReq := registrationReq fa @ [it]\<rparr>" fa'] d p3 fa'(1) by auto
  have rd4: "read_reply (pk_data p4) 28 = read_reply d 28" "length (pk_data p4) = 48"
      "get16 (pk_data p4) 22 = rs_port r"
    using relayed_read(2) [OF p4(2)] p4(2) d by (simp_all add: relayed_def Let_def)
  define mn1 where "mn1 = \<lparr>mobileNode = m, currentRequests = currentRequests mn @ [r]\<rparr>"
  have match: "reply_matches m (pk_data p4) r" "\<forall>r' \<in> set (currentRequests mn). \<not> reply_matches m (pk_data p4) r'"
    using rd4 d(6) H r(5) by (auto simp: reply_matches_def list_all_iff Let_def)
  have mn': "fst (RegistrationRequestSource_push mn1 p4) = mn1\<lparr>mobileNode := m
     \<lparr>home := False, connected := True, curr_private_addr := adv_private_addr adv, curr_coa := adv_COA adv,
      remainingConnectionTime := adv_reg_lifetime adv\<rparr>\<rparr>"
    using source_push_match [of p4 mn1 r "currentRequests mn"] match rd4 d(6) H r by (simp add: mn1_def)
  have up: "bindings ha' = (bindings ha)(myAddress m \<mapsto> ha_entry (read_req (pk_data p1) 28))"
    using ha_update_refines(2) [of ha env "read_req (pk_data p2) 28"] H rq rd2
    by (simp add: ha'_def ha_register_def)
  have "registers env mn adv fa ha (fst (RegistrationRequestSource_push mn1 p4)) fa' ha' [p1, p2, p3, p4]"
    using mk p2(1) ha p4(1) by (simp add: registers_def mn1_def ha'_def p3_def)
  moreover have "registered mn adv fa (fst (RegistrationRequestSource_push mn1 p4)) fa' ha'"
    using fa' up rq by (simp add: registered_def mn' m_def [symmetric] binding_life_def ha_entry_def Let_def)
  moreover have "\<forall>p \<in> set [p1, p2, p3, p4]. ip_sum_ok (pk_data p) \<and> udp_sum_ok (pk_data p)"
    using p1 p2(2) p3 d p4(2) by (simp add: relayed_def Let_def)
  ultimately show ?thesis by blast
qed

lemma sample_can_register:
  "can_register sample_env sample_mobile sample_adv (configured 20 21 25) (configured 10 11 25)"
proof -
  have "seconds (htons (of_nat 25)) = 25" by (rule seconds_htons) simp
  then have "seconds (htons 25) = 25" by simp
  then show ?thesis
    using configured_inv(1) [of 20 21 25] configured_inv(1) [of 10 11 25]
    by (simp add: can_register_def sample_env_def sample_mobile_def sample_adv_def isHome_iff
        agent_inv_def)
qed

theorem registration_succeeds_witness:
  "\<exists>mn' fa' ha' ps. registers sample_env sample_mobile sample_adv (configured 20 21 25)
     (configured 10 11 25) mn' fa' ha' ps \<and>
     registered sample_mobile sample_adv (configured 20 21 25) mn' fa' ha'"
  using registration_succeeds [OF sample_can_register] by blast

section \<open>The tunnel\<close>

text \<open>(C2) A packet for an absent node is delivered unchanged: the home agent puts it behind an
  outer header to the care-of address, and the foreign agent that has the node as a visitor
  takes exactly this header off again and hands the original bytes to its network.\<close>

theorem tunnel_delivers:
  assumes "20 \<le> pk_length p" "pk_length p < 65516" "env_packet env 0"
    "bindings ha (ip_dst (pk_data p) 0) = Some e" "inMapNode fa (ip_dst (pk_data p) 0)"
  shows "\<exists>q r. IpEncapsulation_push env ha p = Inr [Kill p, Emit 1 q] \<and>
    pk_dst_ip q = mobile_node_coa e \<and> ip_dst (pk_data q) 0 = mobile_node_coa e \<and>
    ip_sum_ok (pk_data q) \<and> IpDecap_push env' fa q = Inr [Emit 1 r] \<and> pk_data r = pk_data p"
proof -
  obtain q where q: "IpEncapsulation_push env ha p = Inr [Kill p, Emit 1 q]" "\<not> shared q"
      "pk_dst_ip q = mobile_node_coa e" "drop 20 (pk_data q) = pk_data p" "pk_length q = pk_length p + 20"
      "ip_sum_ok (pk_data q)" "get8 (pk_data q) 9 = 4" "get32 (pk_data q) 16 = mobile_node_coa e"
    using encap_push_ok [OF assms(1,2,4,3)] by blast
  have "get32 (pk_data q) 36 = get32 (drop 20 (pk_data q)) 16"
    using q(5) assms(1) by (simp add: pk_length_def)
  then have "inMapNode fa (get32 (pk_data q) 36)" using assms(5) q(4) by simp
  then obtain r where "IpDecap_push env' fa q = Inr [Emit 1 r]" "pk_data r = drop 20 (pk_data q)"
    using decap_push_ok [of q fa env'] q assms(1) by auto
  then show ?thesis using q by auto
qed

definition sample_visitor :: listItem where
  "sample_visitor = \<lparr>li_ethSrc = 0, li_ipSrc = 12, li_ipDst = 21, li_udpSrc = 1, li_udpDst = 1,
     li_homeAgent = 10, li_id1 = 1, li_id2 = 2, li_lifetimeReq = 1, li_lifetimeRem = 1\<rparr>"

theorem tunnel_delivers_witness:
  "\<exists>q r. IpEncapsulation_push sample_env (sample_bound 1) (fresh_packet [] (put32 (zeros 20) 16 12) 0) =
      Inr [Kill (fresh_packet [] (put32 (zeros 20) 16 12) 0), Emit 1 q] \<and>
    IpDecap_push sample_env ((configured 20 21 25)\<lparr>visitorMap := [sample_visitor]\<rparr>) q = Inr [Emit 1 r] \<and>
    pk_data r = put32 (zeros 20) 16 12"
  using tunnel_delivers [of "fresh_packet [] (put32 (zeros 20) 16 12) 0" sample_env "sample_bound 1" _
      "(configured 20 21 25)\<lparr>visitorMap := [sample_visitor]\<rparr>" sample_env] sample_bound_ok(3) [of 1]
  by (auto simp: inMapNode_iff sample_visitor_def)

end
