(* ===== verification/Elements.thy ===== *)
theory Elements
  imports Messages
begin

text \<open>
  Standard elements of the configurations that look at annotations and Ethernet headers:
  Strip, Paint, PaintTee, CheckPaint, Tee, Discard, DropBroadcasts, HostEtherFilter and
  EtherEncap.  An element built on \<^verbatim>\<open>simple_action\<close> returns the packet to go out on output 0,
  if any, besides its own actions; \<open>simple_push\<close> is \<^verbatim>\<open>Element::push\<close> around it.
\<close>

section \<open>Element\<close>

type_synonym simple_result = "packet option \<times> action list"

definition simple_push :: "simple_result \<Rightarrow> action list" where
  "simple_push r = (case r of (q, as) \<Rightarrow> as @ (case q of Some p \<Rightarrow> [Emit 0 p] | None \<Rightarrow> []))"

definition checked_output_push :: "nat \<Rightarrow> nat \<Rightarrow> packet \<Rightarrow> action list" where
  "checked_output_push noutputs port p = (if port < noutputs then [Emit port p] else [Kill p])"

text \<open>The packet whose \<^verbatim>\<open>clone\<close> was taken: the buffer's owner gains a reference.\<close>

definition after_clone :: "packet \<Rightarrow> packet" where
  "after_clone p = (if pk_clone p then p else p\<lparr>pk_use_count := pk_use_count p + 1\<rparr>)"

section \<open>Annotations\<close>

definition Strip_simple_action :: "nat \<Rightarrow> packet \<Rightarrow> simple_result" where
  "Strip_simple_action nbytes p = (Some (packet_pull nbytes p), [])"

definition Paint_simple_action :: "u8 \<Rightarrow> packet \<Rightarrow> simple_result" where
  "Paint_simple_action color p = (Some (p\<lparr>pk_paint := color\<rparr>), [])"

definition PaintTee_simple_action :: "environ \<Rightarrow> u8 \<Rightarrow> packet \<Rightarrow> simple_result res" where
  "PaintTee_simple_action env color p =
     (if pk_paint p = color
      then guard (env_packet env 0) NullDeref (Inr (Some (after_clone p), [Emit 1 (packet_clone p)]))
      else Inr (Some p, []))"

definition CheckPaint_push :: "nat \<Rightarrow> u8 \<Rightarrow> packet \<Rightarrow> action list" where
  "CheckPaint_push noutputs color p =
     (if pk_paint p \<noteq> color then checked_output_push noutputs 1 p else [Emit 0 p])"

text \<open>\<^verbatim>\<open>Tee\<close> clones for all outputs but the last; a clone that cannot be made is skipped.\<close>

primrec tee_loop :: "environ \<Rightarrow> nat \<Rightarrow> nat \<Rightarrow> packet \<Rightarrow> packet \<times> action list" where
  "tee_loop env i 0 p = (p, [])"
| "tee_loop env i (Suc n) p =
     (if env_packet env i
      then case tee_loop env (i + 1) n (after_clone p) of (q, as) \<Rightarrow> (q, Emit i (packet_clone p) # as)
      else tee_loop env (i + 1) n p)"

definition Tee_push :: "environ \<Rightarrow> nat \<Rightarrow> packet \<Rightarrow> action list" where
  "Tee_push env noutputs p =
     (case tee_loop env 0 (noutputs - 1) p of (q, as) \<Rightarrow> as @ [Emit (noutputs - 1) q])"

definition Discard_push :: "u32 \<Rightarrow> packet \<Rightarrow> u32 \<times> action list" where
  "Discard_push count p = (count + 1, [Kill p])"

definition DropBroadcasts_drop_it :: "nat \<Rightarrow> packet \<Rightarrow> action list" where
  "DropBroadcasts_drop_it noutputs p = (if noutputs = 2 then [Emit 1 p] else [Kill p])"

definition DropBroadcasts_simple_action :: "nat \<Rightarrow> u32 \<Rightarrow> packet \<Rightarrow> u32 \<times> simple_result" where
  "DropBroadcasts_simple_action noutputs drops p =
     (if pk_type p = BROADCAST \<or> pk_type p = MULTICAST
      then (drops + 1, None, DropBroadcasts_drop_it noutputs p)
      else (drops, Some p, []))"

section \<open>Ethernet\<close>

record HostEtherFilter =
  hf_addr :: bytes
  hf_drop_own :: bool
  hf_drop_other :: bool
  hf_offset :: nat

definition ether_dhost :: "bytes \<Rightarrow> nat \<Rightarrow> bytes" where
  "ether_dhost b h = take 6 (drop h b)"

definition ether_shost :: "bytes \<Rightarrow> nat \<Rightarrow> bytes" where
  "ether_shost b h = take 6 (drop (h + 6) b)"

text \<open>DROP_OWN and DROP_OTHER default to false and true, OFFSET to 0.\<close>

definition HostEtherFilter_configure ::
  "(bytes \<times> bool option \<times> bool option \<times> nat option) option \<Rightarrow> HostEtherFilter \<Rightarrow> int \<times> HostEtherFilter" where
  "HostEtherFilter_configure conf f = (case conf of
       None \<Rightarrow> (- 1, f)
     | Some (addr, own, other, offset) \<Rightarrow>
         (0, f\<lparr>hf_addr := addr,
               hf_offset := (case offset of None \<Rightarrow> 0 | Some n \<Rightarrow> n),
               hf_drop_own := (case own of None \<Rightarrow> False | Some b \<Rightarrow> b),
               hf_drop_other := (case other of None \<Rightarrow> True | Some b \<Rightarrow> b)\<rparr>))"

definition HostEtherFilter_simple_action :: "nat \<Rightarrow> HostEtherFilter \<Rightarrow> packet \<Rightarrow> simple_result res" where
  "HostEtherFilter_simple_action noutputs f p =
     (let b = pk_data p; h = hf_offset f in
      guard (h + (if hf_drop_own f then 12 else 6) \<le> pk_length p) OutOfBounds (Inr
        (if hf_drop_own f \<and> ether_shost b h = hf_addr f
         then (None, checked_output_push noutputs 1 p)
         else if ether_dhost b h = hf_addr f then (Some (p\<lparr>pk_type := HOST\<rparr>), [])
         else if get16 b h = 0xFFFF \<and> get16 b (h + 2) = 0xFFFF \<and> get16 b (h + 4) = 0xFFFF
           then (Some (p\<lparr>pk_type := BROADCAST\<rparr>), [])
         else if get8 b h AND 1 \<noteq> 0 then (Some (p\<lparr>pk_type := MULTICAST\<rparr>), [])
         else if hf_drop_other f
           then (None, checked_output_push noutputs 1 (p\<lparr>pk_type := OTHERHOST\<rparr>))
         else (Some (p\<lparr>pk_type := OTHERHOST\<rparr>), []))))"

definition push_mac_header :: "environ \<Rightarrow> nat \<Rightarrow> packet \<Rightarrow> packet option" where
  "push_mac_header env len p =
     map_option (set_mac_header 0 len)
       (if len \<le> pk_headroom p \<and> \<not> shared p then Some (move_data_left len p)
        else expensive_push env len p)"

text \<open>\<open>ethh\<close> is the 14-byte header built by \<^verbatim>\<open>configure\<close>.\<close>

definition EtherEncap_configure :: "(u16 \<times> bytes \<times> bytes) option \<Rightarrow> bytes \<Rightarrow> int \<times> bytes" where
  "EtherEncap_configure conf ethh = (case conf of
       None \<Rightarrow> (- 1, ethh)
     | Some (ether_type, shost, dhost) \<Rightarrow> (0, dhost @ shost @ put16 (zeros 2) 0 (htons ether_type)))"

definition EtherEncap_smaction :: "environ \<Rightarrow> bytes \<Rightarrow> packet \<Rightarrow> packet option" where
  "EtherEncap_smaction env ethh p =
     map_option (\<lambda>q. with_data q (\<lambda>b. take 14 ethh @ drop 14 b)) (push_mac_header env 14 p)"

definition EtherEncap_push :: "environ \<Rightarrow> bytes \<Rightarrow> packet \<Rightarrow> action list" where
  "EtherEncap_push env ethh p =
     (case EtherEncap_smaction env ethh p of Some q \<Rightarrow> [Emit 0 q] | None \<Rightarrow> [])"

section \<open>Their laws\<close>

lemma packet_clone_data [simp]:
  "pk_data (packet_clone p) = pk_data p" "pk_data (after_clone p) = pk_data p"
  by (simp_all add: packet_clone_def after_clone_def)

lemma tee_loop_emits:
  assumes "\<And>j. env_packet env j"
  shows "\<exists>q as. tee_loop env i n p = (q, as) \<and> pk_data q = pk_data p \<and>
    map (\<lambda>(j, r). (j, pk_data r)) (emitted as) = map (\<lambda>j. (j, pk_data p)) [i..<i + n]"
proof (induction n arbitrary: i p)
  case (Suc n)
  have "[i..<i + Suc n] = i # [i + 1..<i + 1 + n]" by (simp add: upt_rec)
  then show ?case using Suc.IH [of "i + 1" "after_clone p"] assms by auto
qed simp

lemma push_mac_data:
  assumes "push_mac_header env 14 p = Some q"
  shows "\<exists>pre. length pre = 14 \<and> pk_data q = pre @ pk_data p"
proof -
  obtain r where r: "packet_push env 14 p = Some r" "q = set_mac_header 0 14 r"
    using assms by (auto simp: push_mac_header_def packet_push_def split: if_splits)
  then show ?thesis using packet_push_data [OF r(1)] by (simp add: set_mac_header_def)
qed

text \<open>Putting an Ethernet header on and stripping 14 bytes off returns the packet's data, whether
  the header fitted the headroom or the packet had to be copied.\<close>

theorem ether_encap_strip:
  assumes "length ethh = 14" "EtherEncap_smaction env ethh p = Some q"
  shows "take 14 (pk_data q) = ethh \<and> pk_data (packet_pull 14 q) = pk_data p"
proof -
  obtain r where r: "push_mac_header env 14 p = Some r" "q = with_data r (\<lambda>b. take 14 ethh @ drop 14 b)"
    using assms(2) by (auto simp: EtherEncap_smaction_def)
  then show ?thesis
    using push_mac_data [OF r(1)] assms(1)
    by (auto simp: with_data_def packet_pull_def pk_length_def Let_def)
qed

theorem ether_encap_strip_witness:
  "\<exists>q. EtherEncap_smaction \<lparr>env_mem = \<lambda>_. 0, env_packet = \<lambda>_. True, env_copy = True, env_elt = True, env_rand = \<lambda>_. 0\<rparr>
      (zeros 14) (fresh_packet [] [1, 2, 3] 0) = Some q \<and> pk_data (packet_pull 14 q) = [1, 2, 3]"
proof -
  let ?env = "\<lparr>env_mem = \<lambda>_. 0, env_packet = \<lambda>_. True, env_copy = True, env_elt = True, env_rand = \<lambda>_. 0\<rparr>"
  obtain q where q: "EtherEncap_smaction ?env (zeros 14) (fresh_packet [] [1, 2, 3] 0) = Some q"
    by (simp add: EtherEncap_smaction_def push_mac_header_def expensive_push_def expensive_uniqueify_def Let_def)
  then show ?thesis using ether_encap_strip [of "zeros 14", OF _ q] by simp
qed

text \<open>When clones can be made, a tee with \<open>n\<close> outputs sends the packet's data exactly once to each
  of them, in order.\<close>

theorem tee_copies_to_all:
  assumes "\<forall>j. env_packet env j" "0 < n"
  shows "map (\<lambda>(j, r). (j, pk_data r)) (emitted (Tee_push env n p)) = map (\<lambda>j. (j, pk_data p)) [0..<n]"
proof -
  obtain q as where t: "tee_loop env 0 (n - 1) p = (q, as)" "pk_data q = pk_data p"
      "map (\<lambda>(j, r). (j, pk_data r)) (emitted as) = map (\<lambda>j. (j, pk_data p)) [0..<n - 1]"
    using tee_loop_emits [of env 0 "n - 1" p] assms(1) by auto
  have "[0..<n] = [0..<n - 1] @ [n - 1]" using assms(2) by (metis Suc_diff_1 upt_Suc_append zero_le)
  then show ?thesis using t by (simp add: Tee_push_def)
qed

theorem tee_copies_to_all_witness:
  "map (\<lambda>(j, r). (j, pk_data r)) (emitted (Tee_push
      \<lparr>env_mem = \<lambda>_. 0, env_packet = \<lambda>_. True, env_copy = True, env_elt = True, env_rand = \<lambda>_. 0\<rparr> 2
      (fresh_packet [] [7] 0))) = [(0, [7]), (1, [7])]"
  using tee_copies_to_all [of "\<lparr>env_mem = \<lambda>_. 0, env_packet = \<lambda>_. True, env_copy = True, env_elt = True, env_rand = \<lambda>_. 0\<rparr>"
      2 "fresh_packet [] [7] 0"] by (simp add: upt_rec)

text \<open>How the host filter classifies a frame long enough for an Ethernet header: its own address
  is HOST, all ones BROADCAST, an odd first byte MULTICAST, anything else OTHERHOST; only frames
  it drops (its own when so configured, other hosts' by default) do not go on to output 0.\<close>

theorem host_filter_classifies:
  assumes "hf_offset f + 12 \<le> pk_length p" "\<not> hf_drop_own f" "hf_drop_other f"
  defines "d \<equiv> ether_dhost (pk_data p) (hf_offset f)"
  shows "HostEtherFilter_simple_action n f p = Inr
    (if d = hf_addr f then (Some (p\<lparr>pk_type := HOST\<rparr>), [])
     else if d = replicate 6 0xFF then (Some (p\<lparr>pk_type := BROADCAST\<rparr>), [])
     else if bit (d ! 0) 0 then (Some (p\<lparr>pk_type := MULTICAST\<rparr>), [])
     else (None, checked_output_push n 1 (p\<lparr>pk_type := OTHERHOST\<rparr>)))"
proof -
  let ?b = "pk_data p" and ?h = "hf_offset f"
  have len: "?h + 12 \<le> length ?b" using assms(1) by (simp add: pk_length_def)
  have nth: "d ! i = ?b ! (?h + i)" if "i < 6" for i using that len by (simp add: d_def ether_dhost_def)
  have ld: "length d = 6" using len by (simp add: d_def ether_dhost_def)
  have ff: "get16 ?b k = 0xFFFF \<longleftrightarrow> ?b ! k = 0xFF \<and> ?b ! (k + 1) = 0xFF" for k
  proof
    assume a: "get16 ?b k = 0xFFFF"
    have "?b ! k = ucast (get16 ?b k)" "?b ! (k + 1) = ucast (drop_bit 8 (get16 ?b k))"
      by (rule bit_word_eqI, auto simp: get16_def bit_simps dest: bit_imp_le_length)+
    then show "?b ! k = 0xFF \<and> ?b ! (k + 1) = 0xFF" by (simp add: a)
  qed (simp add: get16_def)
  have "d = replicate 6 0xFF \<longleftrightarrow> (\<forall>i < 6. d ! i = 0xFF)" using ld by (auto simp: list_eq_iff_nth_eq)
  also have "\<dots> \<longleftrightarrow> get16 ?b ?h = 0xFFFF \<and> get16 ?b (?h + 2) = 0xFFFF \<and> get16 ?b (?h + 4) = 0xFFFF"
    using nth by (simp add: ff eval_nat_numeral All_less_Suc) auto
  finally have bc: "get16 ?b ?h = 0xFFFF \<and> get16 ?b (?h + 2) = 0xFFFF \<and> get16 ?b (?h + 4) = 0xFFFF \<longleftrightarrow> d = replicate 6 0xFF" ..
  have odd: "get8 ?b ?h AND 1 \<noteq> 0 \<longleftrightarrow> bit (d ! 0) 0"
    using nth [of 0] bit_test [of 0 "?b ! ?h"] by (simp only: get8_def drop_bit_0 id_apply) simp
  show ?thesis
    unfolding HostEtherFilter_simple_action_def Let_def bc odd d_def [symmetric]
    using assms(1-3) by simp
qed

theorem host_filter_classifies_witness:
  "HostEtherFilter_simple_action 1 \<lparr>hf_addr = zeros 6, hf_drop_own = False, hf_drop_other = True, hf_offset = 0\<rparr>
     (fresh_packet [] (zeros 14) 0) = Inr (Some ((fresh_packet [] (zeros 14) 0)\<lparr>pk_type := HOST\<rparr>), [])"
  using host_filter_classifies [of "\<lparr>hf_addr = zeros 6, hf_drop_own = False, hf_drop_other = True, hf_offset = 0\<rparr>"
      "fresh_packet [] (zeros 14) 0" 1] by (simp add: ether_dhost_def zeros_def)

end
