(* ===== verification/ConfText.thy ===== *)
theory ConfText
  imports Prelude
begin

text \<open>
  The text of configurations and handler arguments (\<^verbatim>\<open>lib/confparse.cc\<close>): comments, quoting, and the
  separation into arguments at commas or spaces.  A pointer into a string is the rest of the string from
  there on, and the end is the empty rest.  The comment skipper can return a pointer behind the end, for a comment that is cut off; this is
  \<open>None\<close>, kept where the code would take a substring up to it, which is empty then, and read as the end
  (\<open>rest_from\<close>) where the code only compares it.  \<open>substring left right\<close> is the text between two pointers.

  Shown: every scan ends; \<^verbatim>\<open>cp_spacevec\<close> gives what \<^verbatim>\<open>cp_shift_spacevec\<close> shifts off word by word,
  and a word is empty only if nothing but spaces and comments is left, or if it ends behind the end.
\<close>

section \<open>Skipping\<close>

definition is_space :: "char \<Rightarrow> bool" where
  "is_space c \<longleftrightarrow> c = CHR '' '' \<or> 9 \<le> (of_char c :: nat) \<and> (of_char c :: nat) \<le> 13"

type_synonym pointer = "string option"

definition rest_from :: "pointer \<Rightarrow> string" where "rest_from t = (case t of None \<Rightarrow> [] | Some s \<Rightarrow> s)"

definition substring :: "string \<Rightarrow> pointer \<Rightarrow> string" where
  "substring left right = (case right of None \<Rightarrow> [] | Some r \<Rightarrow> take (length left - length r) left)"

lemma rest_from_simps [simp]: "rest_from None = []" "rest_from (Some s) = s" by (simp_all add: rest_from_def)

fun starts_comment :: "string \<Rightarrow> bool" where
  "starts_comment (a # b # s) \<longleftrightarrow> a = CHR ''/'' \<and> (b = CHR ''/'' \<or> b = CHR ''*'')"
| "starts_comment _ \<longleftrightarrow> False"

text \<open>The two loops of \<^verbatim>\<open>skip_comment\<close>, from behind the two characters that open the comment.\<close>

fun skip_line :: "string \<Rightarrow> pointer" where
  "skip_line (c # d # s) =
     (if c = CHR 0x0A then Some (d # s) else if c = CHR 0x0D then Some (if d = CHR 0x0A then s else d # s) else skip_line (d # s))"
| "skip_line [c] = Some []"
| "skip_line [] = None"

fun skip_block :: "string \<Rightarrow> pointer" where
  "skip_block (c # d # e # s) = (if c = CHR ''*'' \<and> d = CHR ''/'' then Some (e # s) else skip_block (d # e # s))"
| "skip_block [c, d] = Some []"
| "skip_block _ = None"

definition skip_comment :: "string \<Rightarrow> pointer" where
  "skip_comment s = (if s ! 1 = CHR ''/'' then skip_line (drop 2 s) else skip_block (drop 2 s))"

lemma skip_line_length: "length (rest_from (skip_line s)) \<le> length s"
  by (induction s rule: skip_line.induct) auto

lemma skip_block_length: "length (rest_from (skip_block s)) \<le> length s"
  by (induction s rule: skip_block.induct) auto

lemma skip_comment_length: "starts_comment s \<Longrightarrow> length (rest_from (skip_comment s)) < length s"
  using skip_line_length [of "drop 2 s"] skip_block_length [of "drop 2 s"]
  by (cases s rule: starts_comment.cases) (auto simp: skip_comment_def)

lemma skip_comment_less: "starts_comment s \<Longrightarrow> skip_comment s = Some r \<Longrightarrow> length r < length s"
  using skip_comment_length [of s] by simp

function skip_angle :: "string \<Rightarrow> pointer" where
  "skip_angle s =
     (if s = [] then Some []
      else if hd s = CHR ''>'' then Some (tl s)
      else if starts_comment s then (case skip_comment s of None \<Rightarrow> None | Some r \<Rightarrow> skip_angle r)
      else skip_angle (tl s))"
  by pat_completeness auto
termination by (relation "measure length") (auto simp: skip_comment_less)

declare skip_angle.simps [simp del]

lemma skip_angle_length: "length (rest_from (skip_angle s)) \<le> length s"
proof (induction s rule: skip_angle.induct)
  case (1 s)
  then show ?case
    using skip_comment_less [of s] by (subst skip_angle.simps) (auto split: option.split intro: order_trans less_imp_le)
qed

fun skip_backslash :: "string \<Rightarrow> pointer" where
  "skip_backslash (b # c # s) =
     (if c = CHR ''<'' then skip_angle s
      else if c = CHR 0x0D \<and> s \<noteq> [] \<and> hd s = CHR 0x0A then Some (tl s)
      else Some s)"
| "skip_backslash _ = Some []"

lemma skip_backslash_length: "s \<noteq> [] \<Longrightarrow> length (rest_from (skip_backslash s)) < length s"
proof (cases s rule: skip_backslash.cases)
  case (1 b c r)
  then show ?thesis using skip_angle_length [of r] by (auto simp: less_Suc_eq_le)
qed auto

text \<open>The loops behind the opening quote.\<close>

function in_double_quote :: "string \<Rightarrow> string" where
  "in_double_quote s =
     (if s = [] then []
      else if hd s = CHR 0x5C then in_double_quote (rest_from (skip_backslash s))
      else if hd s = CHR 0x22 then tl s
      else in_double_quote (tl s))"
  by pat_completeness auto
termination by (relation "measure length") (auto simp: skip_backslash_length)

declare in_double_quote.simps [simp del]

definition cp_skip_double_quote :: "string \<Rightarrow> string" where
  "cp_skip_double_quote s = in_double_quote (tl s)"

definition skip_single_quote :: "string \<Rightarrow> string" where
  "skip_single_quote s = tl (dropWhile (\<lambda>c. c \<noteq> CHR 0x27) (tl s))"

lemma in_double_quote_length: "length (in_double_quote s) \<le> length s"
proof (induction s rule: in_double_quote.induct)
  case (1 s)
  then show ?case using skip_backslash_length [of s] by (subst in_double_quote.simps) (auto intro: order_trans)
qed

lemma skip_quotes_length:
  assumes "s \<noteq> []"
  shows "length (cp_skip_double_quote s) < length s" "length (skip_single_quote s) < length s"
proof -
  have "length (tl s) < length s" using assms by simp
  then show "length (cp_skip_double_quote s) < length s" "length (skip_single_quote s) < length s"
    using in_double_quote_length [of "tl s"] length_dropWhile_le [of "\<lambda>c. c \<noteq> CHR 0x27" "tl s"]
    unfolding cp_skip_double_quote_def skip_single_quote_def length_tl by linarith+
qed

function cp_skip_comment_space :: "string \<Rightarrow> string" where
  "cp_skip_comment_space s =
     (if s = [] then []
      else if is_space (hd s) then cp_skip_comment_space (tl s)
      else if starts_comment s then cp_skip_comment_space (rest_from (skip_comment s))
      else s)"
  by pat_completeness auto
termination by (relation "measure length") (auto simp: skip_comment_length)

declare cp_skip_comment_space.simps [simp del]

lemma skip_comment_space_length: "length (cp_skip_comment_space s) \<le> length s"
proof (induction s rule: cp_skip_comment_space.induct)
  case (1 s)
  then show ?case using skip_comment_length [of s] by (subst cp_skip_comment_space.simps) (auto intro: order_trans)
qed

section \<open>Uncommenting and arguments\<close>

text \<open>One character or quoted part of the text, as both scanners below take it.\<close>

definition skip_part :: "string \<Rightarrow> pointer" where
  "skip_part s =
     (if hd s = CHR 0x27 then Some (skip_single_quote s)
      else if hd s = CHR 0x22 then Some (cp_skip_double_quote s)
      else if hd s = CHR 0x5C \<and> tl s \<noteq> [] \<and> s ! 1 = CHR ''<'' then skip_backslash s
      else Some (tl s))"

lemma skip_part_length: "s \<noteq> [] \<Longrightarrow> length (rest_from (skip_part s)) < length s"
  using skip_quotes_length [of s] skip_backslash_length [of s] by (simp add: skip_part_def)

lemma skip_part_less: "s \<noteq> [] \<Longrightarrow> skip_part s = Some r \<Longrightarrow> length r < length s"
  using skip_part_length [of s] by simp

text \<open>
  The loop of \<^verbatim>\<open>partial_uncomment\<close>; \<open>comma\<close> says whether a comma ends the text.  The result is
  the text and the place where the loop stopped.
\<close>

function uncomment_loop :: "bool \<Rightarrow> string \<Rightarrow> string \<Rightarrow> pointer \<Rightarrow> bool \<Rightarrow> string \<Rightarrow> string \<times> string" where
  "uncomment_loop comma s left right closed sa =
     (if s = [] then (sa @ substring left right, s)
      else if is_space (hd s) then uncomment_loop comma (tl s) left right closed sa
      else if starts_comment s then uncomment_loop comma (rest_from (skip_comment s)) left right True sa
      else if hd s = CHR '','' \<and> comma then (sa @ substring left right, s)
      else
        let sa' = (if closed then sa @ substring left right @ '' '' else sa);
            left' = (if closed then s else left);
            s' = skip_part s
        in uncomment_loop comma (rest_from s') left' s' False sa')"
  by pat_completeness auto
termination
  by (relation "measure (\<lambda>(comma, s, left, right, closed, sa). length s)") (auto simp: skip_comment_length skip_part_length)

declare uncomment_loop.simps [simp del]

definition partial_uncomment :: "bool \<Rightarrow> string \<Rightarrow> string \<times> string" where
  "partial_uncomment comma str = (let s = cp_skip_comment_space str in uncomment_loop comma s s (Some s) False [])"

definition cp_uncomment :: "string \<Rightarrow> string" where
  "cp_uncomment str = fst (partial_uncomment False str)"

lemma uncomment_loop_length: "length (snd (uncomment_loop comma s left right closed sa)) \<le> length s"
proof (induction comma s left right closed sa rule: uncomment_loop.induct)
  case (1 comma s left right closed sa)
  show ?case
    using 1(1,2) 1(3) [OF _ _ _ _ refl refl refl] skip_comment_length [of s] skip_part_length [of s]
    by (subst uncomment_loop.simps) (auto simp: Let_def intro: order_trans)
qed

function cp_argvec :: "string \<Rightarrow> string list" where
  "cp_argvec str =
     (if str = [] then []
      else case partial_uncomment True str of (arg, s) \<Rightarrow>
        (if arg \<noteq> [] \<or> s \<noteq> [] then [arg] else []) @ cp_argvec (tl s))"
  by pat_completeness auto
termination
proof (relation "measure length", goal_cases)
  case (2 str arg s)
  then have "length s \<le> length (cp_skip_comment_space str)"
    using uncomment_loop_length [of True "cp_skip_comment_space str" "cp_skip_comment_space str" "Some (cp_skip_comment_space str)" False "[]"]
    by (simp add: partial_uncomment_def Let_def) (metis snd_conv)
  then show ?case using 2(1) skip_comment_space_length [of str] by (cases s) auto
qed simp

declare cp_argvec.simps [simp del]

section \<open>Words\<close>

function skip_spacevec_item :: "string \<Rightarrow> pointer" where
  "skip_spacevec_item s =
     (if s = [] \<or> starts_comment s \<or> is_space (hd s) then Some s
      else case skip_part s of None \<Rightarrow> None | Some r \<Rightarrow> skip_spacevec_item r)"
  by pat_completeness auto
termination by (relation "measure length") (auto simp: skip_part_less)

declare skip_spacevec_item.simps [simp del]

lemma skip_item_length: "length (rest_from (skip_spacevec_item s)) \<le> length s"
proof (induction s rule: skip_spacevec_item.induct)
  case (1 s)
  then show ?case
    using skip_part_less [of s] by (subst skip_spacevec_item.simps) (auto split: option.split intro: order_trans less_imp_le)
qed

text \<open>An item is not empty: what is not skipped as space or comment belongs to one.\<close>

lemma skip_comment_space_stops:
  "cp_skip_comment_space s \<noteq> [] \<Longrightarrow> \<not> is_space (hd (cp_skip_comment_space s)) \<and> \<not> starts_comment (cp_skip_comment_space s)"
proof (induction s rule: cp_skip_comment_space.induct)
  case (1 s)
  then show ?case using cp_skip_comment_space.simps [of s] by (auto split: if_splits)
qed

lemma skip_item_less:
  assumes "cp_skip_comment_space s \<noteq> []"
  shows "length (rest_from (skip_spacevec_item (cp_skip_comment_space s))) < length (cp_skip_comment_space s)"
proof (cases "skip_part (cp_skip_comment_space s)")
  case None
  then show ?thesis
    using assms skip_comment_space_stops [OF assms] skip_spacevec_item.simps [of "cp_skip_comment_space s"] by simp
next
  case (Some r)
  then show ?thesis
    using assms skip_comment_space_stops [OF assms] skip_spacevec_item.simps [of "cp_skip_comment_space s"]
      skip_part_less [OF assms Some] skip_item_length [of r] by simp
qed

function cp_spacevec :: "string \<Rightarrow> string list" where
  "cp_spacevec str =
     (let s = cp_skip_comment_space str in
      if s = [] then [] else let t = skip_spacevec_item s in substring s t # cp_spacevec (rest_from t))"
  by pat_completeness auto
termination
proof (relation "measure length")
  fix str s :: string and t :: pointer
  assume "s = cp_skip_comment_space str" "s \<noteq> []" "t = skip_spacevec_item s"
  then show "(rest_from t, str) \<in> measure length" using skip_item_less [of str] skip_comment_space_length [of str] by simp
qed simp

declare cp_spacevec.simps [simp del]

text \<open>The word and what is left of the string.\<close>

definition cp_shift_spacevec :: "string \<Rightarrow> string \<times> string" where
  "cp_shift_spacevec str =
     (let item = cp_skip_comment_space str; item_end = skip_spacevec_item item in
      (substring item item_end, cp_skip_comment_space (rest_from item_end)))"

section \<open>What the scanners give\<close>

lemma skip_comment_space_idem [simp]: "cp_skip_comment_space (cp_skip_comment_space s) = cp_skip_comment_space s"
  using skip_comment_space_stops [of s] cp_skip_comment_space.simps [of "cp_skip_comment_space s"] by (cases "cp_skip_comment_space s = []") simp_all

lemma shift_word_empty:
  "fst (cp_shift_spacevec s) = [] \<longleftrightarrow> cp_skip_comment_space s = [] \<or> skip_spacevec_item (cp_skip_comment_space s) = None"
  using skip_item_less [of s] by (cases "cp_skip_comment_space s = []") (auto simp: cp_shift_spacevec_def substring_def Let_def split: option.split)

lemma spacevec_skip: "cp_spacevec (cp_skip_comment_space s) = cp_spacevec s"
  by (simp add: cp_spacevec.simps [of s] cp_spacevec.simps [of "cp_skip_comment_space s"] Let_def)

text \<open>Separating at once and shifting off word by word give the same words, as long as there is one.\<close>

theorem spacevec_shifts:
  "cp_spacevec s =
     (if cp_skip_comment_space s = [] then [] else fst (cp_shift_spacevec s) # cp_spacevec (snd (cp_shift_spacevec s)))"
  by (simp add: cp_spacevec.simps [of s] Let_def cp_shift_spacevec_def spacevec_skip)

text \<open>A word that ends in a comment that is cut off, inside a backslash escape in angle brackets, is lost.\<close>

lemma cut_comment_loses_word: "cp_spacevec (''10/8 '' @ [CHR 0x5C] @ ''<0A//'') = [''10/8'', []]"
  by code_simp

end
