(* ===== verification/Routing.thy ===== *)
theory Routing
  imports Elements ConfText
begin

text \<open>
  Routes and the commands of every routing table: IPRoute and IPRouteTable.  IPRouteTable
  calls the table's virtual \<^verbatim>\<open>add_route\<close>, \<^verbatim>\<open>remove_route\<close> and
  \<^verbatim>\<open>lookup_route\<close>, so its commands take these as arguments.  Routes and commands
  are text; the argument parsers for prefixes, addresses and integers, which read single words of it, come as functions.
\<close>

section \<open>Addresses and masks\<close>

definition matches_prefix :: "u32 \<Rightarrow> u32 \<Rightarrow> u32 \<Rightarrow> bool" where
  "matches_prefix a addr msk \<longleftrightarrow> (a XOR addr) AND msk = 0"

definition mask_as_specific :: "u32 \<Rightarrow> u32 \<Rightarrow> bool" where
  "mask_as_specific m msk \<longleftrightarrow> m AND msk = msk"

text \<open>For a prefix length of at most 32, which the code asserts.\<close>

definition make_prefix :: "nat \<Rightarrow> u32" where
  "make_prefix prefix_len = htonl (if 0 < prefix_len then push_bit (32 - prefix_len) 0xFFFFFFFF else 0)"

section \<open>IPRoute\<close>

record IPRoute =
  rt_addr :: u32
  rt_mask :: u32
  rt_gw :: u32
  rt_port :: int
  rt_extra :: nat

text \<open>The constructor leaves \<^verbatim>\<open>extra\<close> unset; it is written before it is read.\<close>

definition IPRoute_new :: IPRoute where
  "IPRoute_new = \<lparr>rt_addr = 0, rt_mask = 0, rt_gw = 0, rt_port = - 1, rt_extra = 0\<rparr>"

definition real_route :: "IPRoute \<Rightarrow> bool" where
  "real_route r \<longleftrightarrow> - 0x80000000 < rt_port r"

definition kill_route :: "IPRoute \<Rightarrow> IPRoute" where
  "kill_route r = r\<lparr>rt_addr := 0, rt_mask := 0xFFFFFFFF, rt_port := - 0x80000000\<rparr>"

definition contains_addr :: "IPRoute \<Rightarrow> u32 \<Rightarrow> bool" where
  "contains_addr r a = matches_prefix a (rt_addr r) (rt_mask r)"

definition contains_route :: "IPRoute \<Rightarrow> IPRoute \<Rightarrow> bool" where
  "contains_route s r \<longleftrightarrow>
     matches_prefix (rt_addr r) (rt_addr s) (rt_mask s) \<and> mask_as_specific (rt_mask r) (rt_mask s)"

definition match_route :: "IPRoute \<Rightarrow> IPRoute \<Rightarrow> bool" where
  "match_route s r \<longleftrightarrow> rt_addr s = rt_addr r \<and> rt_mask s = rt_mask r \<and>
     (rt_port s < 0 \<or> (rt_gw s = rt_gw r \<and> rt_port s = rt_port r))"

section \<open>The text of a route\<close>

record parsers =
  parse_prefix :: "string \<Rightarrow> (u32 \<times> u32) option"
  parse_addr :: "string \<Rightarrow> u32 option"
  parse_int :: "string \<Rightarrow> int option"

definition cp_ip_route :: "parsers \<Rightarrow> string \<Rightarrow> bool \<Rightarrow> IPRoute option" where
  "cp_ip_route ps s remove_route =
     (let (w0, s0) = cp_shift_spacevec s in
      case parse_prefix ps w0 of
        None \<Rightarrow> None
      | Some (addr, msk) \<Rightarrow>
          let (word, s1) = cp_shift_spacevec s0;
              (gw, word', s2) =
                (if word = ''-'' then (0, cp_shift_spacevec s1)
                 else case parse_addr ps word of
                     Some g \<Rightarrow> (g, cp_shift_spacevec s1)
                   | None \<Rightarrow> (0, word, s1));
              r = IPRoute_new\<lparr>rt_addr := addr AND msk, rt_mask := msk, rt_gw := gw\<rparr>;
              port = (case parse_int ps word' of
                  Some i \<Rightarrow> Some i
                | None \<Rightarrow> if word' = [] \<and> remove_route then Some (- 1) else None)
          in case port of
               None \<Rightarrow> None
             | Some i \<Rightarrow> if fst (cp_shift_spacevec s2) = [] then Some (r\<lparr>rt_port := i\<rparr>) else None)"

section \<open>IPRouteTable\<close>

datatype errno = EEXIST | ENOENT | ENOMEM | EINVAL

datatype route_command = CMD_ADD | CMD_SET | CMD_REMOVE

primrec cmd_code :: "route_command \<Rightarrow> nat" where
  "cmd_code CMD_ADD = 0"
| "cmd_code CMD_SET = 1"
| "cmd_code CMD_REMOVE = 2"

text \<open>What \<^verbatim>\<open>add_route\<close> and \<^verbatim>\<open>remove_route\<close> return: the error, if any, the route they
  store through the pointer, if they do, and the new table.\<close>

type_synonym 's table_result = "errno option \<times> IPRoute option \<times> 's"
type_synonym 's adder = "IPRoute \<Rightarrow> bool \<Rightarrow> 's \<Rightarrow> 's table_result"
type_synonym 's remover = "IPRoute \<Rightarrow> 's \<Rightarrow> 's table_result res"

definition log_old :: "route_command \<Rightarrow> IPRoute \<Rightarrow> IPRoute option \<Rightarrow> IPRoute" where
  "log_old command route stored =
     (let old_route = (case stored of None \<Rightarrow> IPRoute_new | Some o' \<Rightarrow> o') in
      if rt_port old_route < 0 then route\<lparr>rt_extra := cmd_code CMD_ADD\<rparr>
      else old_route\<lparr>rt_extra := cmd_code command\<rparr>)"

definition run_command ::
  "'s adder \<Rightarrow> 's remover \<Rightarrow> parsers \<Rightarrow> nat \<Rightarrow> route_command \<Rightarrow> string \<Rightarrow> IPRoute list option \<Rightarrow> 's
    \<Rightarrow> (errno option \<times> IPRoute list option \<times> 's) res" where
  "run_command add rem ps noutputs command str old_routes s =
     (case cp_ip_route ps str (command = CMD_REMOVE) of
        None \<Rightarrow> Inr (Some EINVAL, old_routes, s)
      | Some route \<Rightarrow>
          if rt_port route < (if command = CMD_REMOVE then - 1 else 0) \<or> int noutputs \<le> rt_port route
          then Inr (Some EINVAL, old_routes, s)
          else bind_res (case command of
                 CMD_ADD \<Rightarrow> Inr (add route False s)
               | CMD_SET \<Rightarrow> Inr (add route True s)
               | CMD_REMOVE \<Rightarrow> rem route s) (\<lambda>(r, stored, s'). Inr
              (r, if r = None then map_option (\<lambda>rs. rs @ [log_old command route stored]) old_routes
                  else old_routes, s')))"

definition add_route_handler ::
  "'s adder \<Rightarrow> 's remover \<Rightarrow> parsers \<Rightarrow> nat \<Rightarrow> bool \<Rightarrow> string \<Rightarrow> 's \<Rightarrow> (errno option \<times> 's) res" where
  "add_route_handler add rem ps noutputs thunk conf s =
     bind_res (run_command add rem ps noutputs (if thunk then CMD_SET else CMD_ADD) conf None s)
       (\<lambda>(r, _, s'). Inr (r, s'))"

definition remove_route_handler ::
  "'s adder \<Rightarrow> 's remover \<Rightarrow> parsers \<Rightarrow> nat \<Rightarrow> string \<Rightarrow> 's \<Rightarrow> (errno option \<times> 's) res" where
  "remove_route_handler add rem ps noutputs conf s =
     bind_res (run_command add rem ps noutputs CMD_REMOVE conf None s) (\<lambda>(r, _, s'). Inr (r, s'))"

text \<open>Undoing a transaction, last command first: \<open>old_routes\<close> is given newest first.\<close>

definition undo :: "'s adder \<Rightarrow> 's remover \<Rightarrow> IPRoute \<Rightarrow> 's \<Rightarrow> 's table_result res" where
  "undo add rem rt s =
     (if rt_extra rt = cmd_code CMD_REMOVE then Inr (add rt False s)
      else if rt_extra rt = cmd_code CMD_ADD then rem rt s
      else Inr (add rt True s))"

primrec rollback :: "'s adder \<Rightarrow> 's remover \<Rightarrow> IPRoute list \<Rightarrow> 's \<Rightarrow> 's res" where
  "rollback add rem [] s = Inr s"
| "rollback add rem (rt # old_routes) s =
     bind_res (undo add rem rt s) (\<lambda>(_, _, s'). rollback add rem old_routes s')"

definition command_of :: "string \<Rightarrow> route_command option" where
  "command_of first_word =
     (if first_word = ''add'' then Some CMD_ADD
      else if first_word = ''remove'' then Some CMD_REMOVE
      else if first_word = ''set'' then Some CMD_SET
      else None)"

text \<open>
  The \<^verbatim>\<open>ctrl\<close> write handler: \<open>s\<close> is the text from the current line on.  For a line without a word the
  code goes on without advancing to the next line, so it does not return: the value is \<open>None\<close>.
\<close>

abbreviation newline :: char where "newline \<equiv> CHR 0x0A"

definition first_line :: "string \<Rightarrow> string" where "first_line s = takeWhile (\<lambda>c. c \<noteq> newline) s"

definition next_line :: "string \<Rightarrow> string" where "next_line s = drop (length (first_line s) + 1) s"

partial_function (option) ctrl_loop ::
  "'s adder \<Rightarrow> 's remover \<Rightarrow> parsers \<Rightarrow> nat \<Rightarrow> string \<Rightarrow> IPRoute list \<Rightarrow> 's
    \<Rightarrow> (errno option \<times> 's) res option" where
  "ctrl_loop add rem ps noutputs conf old_routes s =
     (if conf = [] then Some (Inr (None, s))
      else
        let (first_word, str) = cp_shift_spacevec (first_line conf);
            failed = (\<lambda>e s'. Some (bind_res (rollback add rem (rev old_routes) s') (\<lambda>s2. Inr (Some e, s2)))) in
        case command_of first_word of
          None \<Rightarrow> if first_word = [] then ctrl_loop add rem ps noutputs conf old_routes s else failed EINVAL s
        | Some command \<Rightarrow>
            (case run_command add rem ps noutputs command str (Some old_routes) s of
               Inl f \<Rightarrow> Some (Inl f)
             | Inr (r, old', s') \<Rightarrow>
                 (case r of
                    Some e \<Rightarrow> failed e s'
                  | None \<Rightarrow> ctrl_loop add rem ps noutputs (next_line conf) (case old' of Some os \<Rightarrow> os | None \<Rightarrow> []) s')))"

declare ctrl_loop.simps [code]

definition ctrl_handler ::
  "'s adder \<Rightarrow> 's remover \<Rightarrow> parsers \<Rightarrow> nat \<Rightarrow> string \<Rightarrow> 's \<Rightarrow> (errno option \<times> 's) res option" where
  "ctrl_handler add rem ps noutputs conf_in s = ctrl_loop add rem ps noutputs (cp_uncomment conf_in) [] s"

text \<open>The initial routes; a route that is already there is only counted.\<close>

primrec IPRouteTable_configure ::
  "'s adder \<Rightarrow> parsers \<Rightarrow> nat \<Rightarrow> string list \<Rightarrow> errno option \<Rightarrow> nat \<Rightarrow> 's \<Rightarrow> errno option \<times> nat \<times> 's" where
  "IPRouteTable_configure add ps noutputs [] r eexist s = (r, eexist, s)"
| "IPRouteTable_configure add ps noutputs (str # conf) r eexist s =
     (case cp_ip_route ps str False of
        None \<Rightarrow> IPRouteTable_configure add ps noutputs conf (Some EINVAL) eexist s
      | Some route \<Rightarrow>
          if rt_port route < 0 \<or> int noutputs \<le> rt_port route
          then IPRouteTable_configure add ps noutputs conf (Some EINVAL) eexist s
          else case add route False s of
              (None, _, s') \<Rightarrow> IPRouteTable_configure add ps noutputs conf r eexist s'
            | (Some e, _, s') \<Rightarrow>
                if e = EEXIST then IPRouteTable_configure add ps noutputs conf r (eexist + 1) s'
                else IPRouteTable_configure add ps noutputs conf (Some e) eexist s')"

text \<open>\<^verbatim>\<open>output(port)\<close> asserts that the port exists.\<close>

definition output_push :: "nat \<Rightarrow> int \<Rightarrow> packet \<Rightarrow> action list res" where
  "output_push noutputs port p =
     guard (0 \<le> port \<and> port < int noutputs) AssertFail (Inr [Emit (nat port) p])"

definition IPRouteTable_push ::
  "(u32 \<Rightarrow> (int \<times> u32) option) \<Rightarrow> nat \<Rightarrow> packet \<Rightarrow> action list res" where
  "IPRouteTable_push lookup_route noutputs p =
     (case lookup_route (pk_dst_ip p) of
        Some (port, gw) \<Rightarrow>
          if 0 \<le> port then output_push noutputs port (if gw \<noteq> 0 then set_dst_ip_anno gw p else p)
          else Inr [Kill p]
      | None \<Rightarrow> Inr [Kill p])"

section \<open>Transactions over any table\<close>

text \<open>
  What a table promises of \<^verbatim>\<open>add_route\<close> and \<^verbatim>\<open>remove_route\<close>, in terms of the map from
  prefixes to gateway and port it stands for.  A removal may report success without a route to
  remove only for a route without a port, and then stores no real route.
\<close>

abbreviation route_key :: "IPRoute \<Rightarrow> u32 \<times> u32" where
  "route_key r \<equiv> (rt_addr r, rt_mask r)"

abbreviation route_val :: "IPRoute \<Rightarrow> u32 \<times> int" where
  "route_val r \<equiv> (rt_gw r, rt_port r)"

definition selects :: "IPRoute \<Rightarrow> (u32 \<times> int) option \<Rightarrow> bool" where
  "selects r v \<longleftrightarrow> v \<noteq> None \<and> (rt_port r < 0 \<or> v = Some (route_val r))"

text \<open>
  What the commands mean for that map: when one may succeed, when one may fail, and its effect.  A removal that names no
  port may succeed without a route to remove.
\<close>

type_synonym route_map = "u32 \<times> u32 \<Rightarrow> (u32 \<times> int) option"

fun applies :: "route_command \<times> IPRoute \<Rightarrow> route_map \<Rightarrow> bool" where
  "applies (CMD_ADD, r) m \<longleftrightarrow> m (route_key r) = None"
| "applies (CMD_SET, r) m \<longleftrightarrow> True"
| "applies (CMD_REMOVE, r) m \<longleftrightarrow> selects r (m (route_key r))"

fun permitted :: "route_command \<times> IPRoute \<Rightarrow> route_map \<Rightarrow> bool" where
  "permitted (c, r) m \<longleftrightarrow> applies (c, r) m \<or> c = CMD_REMOVE \<and> rt_port r < 0"

fun apply_command :: "route_command \<times> IPRoute \<Rightarrow> route_map \<Rightarrow> route_map" where
  "apply_command (CMD_REMOVE, r) m = (if selects r (m (route_key r)) then m(route_key r := None) else m)"
| "apply_command (c, r) m = m(route_key r \<mapsto> route_val r)"

text \<open>The lines of a transaction, the commands they are, and what the whole transaction means.\<close>

function ctrl_lines :: "string \<Rightarrow> string list" where
  "ctrl_lines s = (if s = [] then [] else first_line s # ctrl_lines (next_line s))"
  by pat_completeness auto
termination by (relation "measure length") (auto simp: next_line_def)

declare ctrl_lines.simps [simp del]

definition line_command :: "parsers \<Rightarrow> nat \<Rightarrow> string \<Rightarrow> (route_command \<times> IPRoute) option" where
  "line_command ps noutputs line = (case cp_shift_spacevec line of (w, str) \<Rightarrow>
     Option.bind (command_of w) (\<lambda>c. Option.bind (cp_ip_route ps str (c = CMD_REMOVE)) (\<lambda>r.
       if rt_port r < (if c = CMD_REMOVE then - 1 else 0) \<or> int noutputs \<le> rt_port r then None else Some (c, r))))"

text \<open>All commands succeed, one after the other, from one map to another; or one of them fails.\<close>

fun accepted :: "(route_command \<times> IPRoute) option list \<Rightarrow> route_map \<Rightarrow> route_map \<Rightarrow> bool" where
  "accepted [] m m' \<longleftrightarrow> m' = m"
| "accepted (None # cs) m m' \<longleftrightarrow> False"
| "accepted (Some c # cs) m m' \<longleftrightarrow> permitted c m \<and> accepted cs (apply_command c m) m'"

fun rejected :: "(route_command \<times> IPRoute) option list \<Rightarrow> route_map \<Rightarrow> bool" where
  "rejected [] m \<longleftrightarrow> False"
| "rejected (None # cs) m \<longleftrightarrow> True"
| "rejected (Some c # cs) m \<longleftrightarrow> \<not> applies c m \<or> permitted c m \<and> rejected cs (apply_command c m)"

locale route_table =
  fixes inv :: "'s \<Rightarrow> bool" and routes :: "'s \<Rightarrow> u32 \<times> u32 \<Rightarrow> (u32 \<times> int) option"
    and add :: "'s adder" and rem :: "'s remover"
  assumes port_real: "inv s \<Longrightarrow> routes s k = Some (g, p) \<Longrightarrow> 0 \<le> p"
    and add_new: "inv s \<Longrightarrow> 0 \<le> rt_port r \<Longrightarrow> routes s (route_key r) = None \<Longrightarrow>
      \<exists>s'. add r b s = (None, None, s') \<and> inv s' \<and> routes s' = (routes s)(route_key r \<mapsto> route_val r)"
    and add_old: "inv s \<Longrightarrow> 0 \<le> rt_port r \<Longrightarrow> routes s (route_key r) = Some v \<Longrightarrow>
      \<exists>s' old. add r b s = (if b then None else Some EEXIST, Some old, s') \<and> inv s' \<and>
        route_key old = route_key r \<and> route_val old = v \<and>
        routes s' = (if b then (routes s)(route_key r \<mapsto> route_val r) else routes s)"
    and rem_hit: "inv s \<Longrightarrow> selects r (routes s (route_key r)) \<Longrightarrow>
      \<exists>s' old. rem r s = Inr (None, Some old, s') \<and> inv s' \<and> route_key old = route_key r \<and>
        routes s (route_key r) = Some (route_val old) \<and> routes s' = (routes s)(route_key r := None)"
    and rem_miss: "inv s \<Longrightarrow> \<not> selects r (routes s (route_key r)) \<Longrightarrow>
      \<exists>s' e stored. rem r s = Inr (e, stored, s') \<and> inv s' \<and> routes s' = routes s \<and>
        (e = None \<longrightarrow> rt_port r < 0 \<and> (\<exists>old. stored = Some old \<and> rt_port old < 0))"
begin

text \<open>An entry of the log undoes its command.\<close>

definition undoes :: "IPRoute \<Rightarrow> (u32 \<times> u32 \<Rightarrow> (u32 \<times> int) option) \<Rightarrow> (u32 \<times> u32 \<Rightarrow> (u32 \<times> int) option) \<Rightarrow> bool" where
  "undoes x m' m \<longleftrightarrow> (\<forall>s. inv s \<and> routes s = m' \<longrightarrow>
     (\<exists>r st s2. undo add rem x s = Inr (r, st, s2) \<and> inv s2 \<and> routes s2 = m))"

lemma undoes_remove:
  assumes "m (route_key x) = Some (route_val x)" "0 \<le> rt_port x" "rt_extra x = 2"
  shows "undoes x (m(route_key x := None)) m"
proof -
  have "m(route_key x \<mapsto> route_val x) = m" using assms(1) by (rule map_upd_triv)
  then show ?thesis
    using add_new [of _ x False] assms(2,3) by (fastforce simp: undoes_def undo_def)
qed

lemma undoes_set:
  assumes "m (route_key x) = Some (route_val x)" "0 \<le> rt_port x" "rt_extra x = 1"
  shows "undoes x (m(route_key x \<mapsto> w)) m"
proof -
  have "m(route_key x \<mapsto> route_val x) = m" using assms(1) by (rule map_upd_triv)
  then show ?thesis
    using add_old [of _ x w True] assms(2,3) by (fastforce simp: undoes_def undo_def)
qed

lemma undoes_add:
  assumes "m (route_key x) = None" "rt_extra x = 0"
  shows "undoes x (m(route_key x \<mapsto> route_val x)) m"
proof -
  have "m(route_key x := None) = m" using assms(1) by (metis fun_upd_triv)
  then show ?thesis
    using rem_hit [of _ x] assms(2) by (fastforce simp: undoes_def undo_def selects_def)
qed

lemma undoes_nothing:
  assumes "\<not> selects x (m (route_key x))" "rt_extra x = 0"
  shows "undoes x m m"
  using rem_miss [of _ x] assms by (fastforce simp: undoes_def undo_def)

text \<open>A command that fails changes no route, one that succeeds has its effect and logs how to undo it.\<close>

definition command_effect ::
  "route_command \<times> IPRoute \<Rightarrow> route_map \<Rightarrow> IPRoute list option \<Rightarrow> (errno option \<times> IPRoute list option \<times> 's) res \<Rightarrow> bool" where
  "command_effect c m old out \<longleftrightarrow> (\<exists>r old' s'. out = Inr (r, old', s') \<and> inv s' \<and>
     (if r = None then permitted c m \<and> routes s' = apply_command c m \<and> (\<exists>x. old' = map_option (\<lambda>os. os @ [x]) old \<and> undoes x (routes s') m)
      else \<not> applies c m \<and> old' = old \<and> routes s' = m))"

lemma add_effect:
  assumes "inv s" "0 \<le> rt_port route" "cmd = (if b then CMD_SET else CMD_ADD)"
  shows "command_effect (cmd, route) (routes s) old (case add route b s of (r, stored, s') \<Rightarrow> Inr
    (r, if r = None then map_option (\<lambda>rs. rs @ [log_old cmd route stored]) old else old, s'))"
proof (cases "routes s (route_key route)")
  case None
  obtain s' where s': "add route b s = (None, None, s')" "inv s'"
      "routes s' = (routes s)(route_key route \<mapsto> route_val route)"
    using add_new [OF assms(1,2) None] by blast
  then show ?thesis
    using undoes_add [of "routes s" "route\<lparr>rt_extra := 0\<rparr>"] None assms(3)
    by (cases b) (auto simp: command_effect_def log_old_def IPRoute_new_def)
next
  case (Some v)
  then have port: "0 \<le> snd v" using port_real [OF assms(1)] by (cases v) auto
  obtain s' old_r where s': "add route b s = (if b then None else Some EEXIST, Some old_r, s')" "inv s'"
      "route_key old_r = route_key route" "route_val old_r = v"
      "routes s' = (if b then (routes s)(route_key route \<mapsto> route_val route) else routes s)"
    using add_old [OF assms(1,2) Some, of b] by blast
  then show ?thesis
    using undoes_set [of "routes s" "old_r\<lparr>rt_extra := 1\<rparr>" "route_val route"] Some port assms(3)
    by (cases b) (auto simp: command_effect_def log_old_def)
qed

lemma remove_effect:
  assumes "inv s"
  shows "command_effect (CMD_REMOVE, route) (routes s) old (bind_res (rem route s) (\<lambda>(r, stored, s'). Inr
    (r, if r = None then map_option (\<lambda>rs. rs @ [log_old CMD_REMOVE route stored]) old else old, s')))"
proof (cases "selects route (routes s (route_key route))")
  case True
  obtain s' old_r where s': "rem route s = Inr (None, Some old_r, s')" "inv s'"
      "route_key old_r = route_key route" "routes s (route_key route) = Some (route_val old_r)"
      "routes s' = (routes s)(route_key route := None)"
    using rem_hit [OF assms True] by blast
  then have "0 \<le> rt_port old_r" using port_real [OF assms] by blast
  then show ?thesis
    using s' True undoes_remove [of "routes s" "old_r\<lparr>rt_extra := 2\<rparr>"]
    by (auto simp: command_effect_def log_old_def)
next
  case False
  obtain s' e stored where s': "rem route s = Inr (e, stored, s')" "inv s'" "routes s' = routes s"
      "e = None \<longrightarrow> rt_port route < 0 \<and> (\<exists>old. stored = Some old \<and> rt_port old < 0)"
    using rem_miss [OF assms False] by blast
  then show ?thesis
    using undoes_nothing [of "route\<lparr>rt_extra := 0\<rparr>" "routes s"] False
    by (auto simp: command_effect_def log_old_def selects_def)
qed

lemma run_command_parse:
  assumes "cp_shift_spacevec line = (w, str)" "command_of w = Some cmd"
  shows "line_command ps n line = None \<Longrightarrow> run_command add rem ps n cmd str old s = Inr (Some EINVAL, old, s)"
    and "inv s \<Longrightarrow> line_command ps n line = Some c \<Longrightarrow> command_effect c (routes s) old (run_command add rem ps n cmd str old s)"
proof -
  assume "line_command ps n line = None"
  then show "run_command add rem ps n cmd str old s = Inr (Some EINVAL, old, s)"
    using assms by (auto simp: line_command_def run_command_def split: option.splits if_splits bind_splits)
next
  assume "inv s" and c: "line_command ps n line = Some c"
  then obtain route where r: "cp_ip_route ps str (cmd = CMD_REMOVE) = Some route" "c = (cmd, route)"
      "\<not> (rt_port route < (if cmd = CMD_REMOVE then - 1 else 0) \<or> int n \<le> rt_port route)"
    using assms by (auto simp: line_command_def split: option.splits if_splits bind_splits)
  then show "command_effect c (routes s) old (run_command add rem ps n cmd str old s)"
    using add_effect [OF \<open>inv s\<close>, where route = route and cmd = cmd and old = old] remove_effect [OF \<open>inv s\<close>, where old = old and route = route]
    by (cases cmd) (auto simp: run_command_def)
qed

text \<open>The log as a whole restores the state before the transaction.\<close>

primrec restores :: "IPRoute list \<Rightarrow> (u32 \<times> u32 \<Rightarrow> (u32 \<times> int) option) \<Rightarrow> (u32 \<times> u32 \<Rightarrow> (u32 \<times> int) option) \<Rightarrow> bool" where
  "restores [] m m0 \<longleftrightarrow> m = m0"
| "restores (x # xs) m m0 \<longleftrightarrow> (\<exists>m1. undoes x m m1 \<and> restores xs m1 m0)"

lemma rollback_restores:
  "inv s \<Longrightarrow> restores xs (routes s) m0 \<Longrightarrow> \<exists>s'. rollback add rem xs s = Inr s' \<and> inv s' \<and> routes s' = m0"
proof (induction xs arbitrary: s)
  case (Cons x xs)
  then obtain m1 where "undoes x (routes s) m1" "restores xs m1 m0" by auto
  then obtain r st s2 where "undo add rem x s = Inr (r, st, s2)" "inv s2" "routes s2 = m1"
    using Cons.prems(1) by (auto simp: undoes_def)
  then show ?case using Cons.IH [of s2] \<open>restores xs m1 m0\<close> by auto
qed simp

text \<open>A transaction without blank lines: all commands, or none.\<close>

lemma ctrl_loop_atomic:
  assumes "inv s" "restores (rev old) (routes s) m0" "\<And>line. line \<in> set (ctrl_lines conf) \<Longrightarrow> fst (cp_shift_spacevec line) \<noteq> []"
  shows "\<exists>r s'. ctrl_loop add rem ps n conf old s = Some (Inr (r, s')) \<and> inv s' \<and>
    (if r = None then accepted (map (line_command ps n) (ctrl_lines conf)) (routes s) (routes s')
     else rejected (map (line_command ps n) (ctrl_lines conf)) (routes s) \<and> routes s' = m0)"
  using assms
proof (induction conf arbitrary: old s rule: ctrl_lines.induct)
  case (1 conf)
  show ?case
  proof (cases "conf = []")
    case True
    then show ?thesis using 1(2) by (simp add: ctrl_loop.simps ctrl_lines.simps)
  next
    case False
    let ?line = "first_line conf"
    have lines: "ctrl_lines conf = ?line # ctrl_lines (next_line conf)" using False by (simp add: ctrl_lines.simps [of conf])
    obtain w str where w: "cp_shift_spacevec ?line = (w, str)" "w \<noteq> []"
      using 1(4) [of ?line] lines by (cases "cp_shift_spacevec ?line") auto
    have failed: "\<exists>s3. rollback add rem (rev old) s2 = Inr s3 \<and> inv s3 \<and> routes s3 = m0"
      if "inv s2" "routes s2 = routes s" for s2
      using rollback_restores [of s2 "rev old" m0] that 1(3) by simp
    show ?thesis
    proof (cases "command_of w")
      case None
      then show ?thesis
        using w lines False failed [OF 1(2)] by (auto simp: ctrl_loop.simps [of _ _ _ _ conf] line_command_def)
    next
      case (Some cmd)
      show ?thesis
      proof (cases "line_command ps n ?line")
        case None
        then show ?thesis
          using w Some lines False failed [OF 1(2)] run_command_parse(1) [OF w(1) Some None]
          by (auto simp: ctrl_loop.simps [of _ _ _ _ conf])
      next
        case (Some c)
        obtain r old' s' where run: "run_command add rem ps n cmd str (Some old) s = Inr (r, old', s')" "inv s'"
            "if r = None then permitted c (routes s) \<and> routes s' = apply_command c (routes s)
               \<and> (\<exists>x. old' = Some (old @ [x]) \<and> undoes x (routes s') (routes s))
             else \<not> applies c (routes s) \<and> old' = Some old \<and> routes s' = routes s"
          using run_command_parse(2) [OF w(1) \<open>command_of w = Some cmd\<close> 1(2) Some, of "Some old"]
          unfolding command_effect_def option.map by blast
        show ?thesis
        proof (cases r)
          case None
          then obtain x where x: "old' = Some (old @ [x])" "undoes x (routes s') (routes s)" "permitted c (routes s)"
              "routes s' = apply_command c (routes s)" using run(3) by auto
          have "restores (rev (old @ [x])) (routes s') m0" using 1(3) x(2) by auto
          moreover have "fst (cp_shift_spacevec line) \<noteq> []" if "line \<in> set (ctrl_lines (next_line conf))" for line
            using 1(4) lines that by simp
          ultimately obtain r' t where "ctrl_loop add rem ps n (next_line conf) (old @ [x]) s' = Some (Inr (r', t))" "inv t"
              "if r' = None then accepted (map (line_command ps n) (ctrl_lines (next_line conf))) (routes s') (routes t)
               else rejected (map (line_command ps n) (ctrl_lines (next_line conf))) (routes s') \<and> routes t = m0"
            using 1(1) [OF False run(2)] by blast
          then show ?thesis
            using w \<open>command_of w = Some cmd\<close> Some None run(1) False lines x by (auto simp: ctrl_loop.simps [of _ _ _ _ conf])
        next
          case (Some e)
          then show ?thesis
            using w \<open>command_of w = Some cmd\<close> \<open>line_command ps n ?line = Some c\<close> run False lines failed [OF run(2)]
            by (intro exI [of _ "Some e"]) (auto simp: ctrl_loop.simps [of _ _ _ _ conf])
        qed
      qed
    qed
  qed
qed

lemma ctrl_atomic:
  assumes "inv s" "\<And>line. line \<in> set (ctrl_lines (cp_uncomment conf)) \<Longrightarrow> fst (cp_shift_spacevec line) \<noteq> []"
  shows "\<exists>r s'. ctrl_handler add rem ps n conf s = Some (Inr (r, s')) \<and> inv s' \<and>
    (if r = None then accepted (map (line_command ps n) (ctrl_lines (cp_uncomment conf))) (routes s) (routes s')
     else rejected (map (line_command ps n) (ctrl_lines (cp_uncomment conf))) (routes s) \<and> routes s' = routes s)"
  unfolding ctrl_handler_def using ctrl_loop_atomic [of s "[]" "routes s" "cp_uncomment conf" ps n] assms by simp

end

end
