(* ===== verification/LinearLookup.thy ===== *)
theory LinearLookup
  imports Routing
begin

text \<open>
  The linear routing table of the mobile node (LinearIPLookup) and its read-only variant on the
  agents (StaticIPLookup).  The table keeps the promises of \<open>route_table\<close>; its scan with next
  pointers is longest-prefix match, and its caches agree with it.
\<close>

section \<open>LinearIPLookup\<close>

record LinearIPLookup =
  li_t :: "IPRoute list"
  li_zero_route :: int
  li_last_addr :: u32
  li_last_entry :: nat
  li_last_addr2 :: u32
  li_last_entry2 :: nat

definition LinearIPLookup_new :: LinearIPLookup where
  "LinearIPLookup_new = \<lparr>li_t = [], li_zero_route = - 1, li_last_addr = 0, li_last_entry = 0,
     li_last_addr2 = 0, li_last_entry2 = 0\<rparr>"

definition LinearIPLookup_initialize :: "LinearIPLookup \<Rightarrow> LinearIPLookup" where
  "LinearIPLookup_initialize l = l\<lparr>li_last_addr := 0, li_last_addr2 := 0\<rparr>"

text \<open>\<^verbatim>\<open>lookup_entry\<close>: the first route that contains the address, then from its \<^verbatim>\<open>extra\<close>
  index on every one at least as specific.\<close>

definition lookup_from :: "IPRoute list \<Rightarrow> u32 \<Rightarrow> nat \<Rightarrow> nat \<Rightarrow> nat" where
  "lookup_from t a start i =
     fold (\<lambda>j found. if contains_addr (t ! j) a \<and> mask_as_specific (rt_mask (t ! j)) (rt_mask (t ! found))
        then j else found) [start..<length t] i"

definition lookup_entry :: "IPRoute list \<Rightarrow> u32 \<Rightarrow> nat option" where
  "lookup_entry t a =
     (case find (\<lambda>i. contains_addr (t ! i) a) [0..<length t] of
        None \<Rightarrow> None
      | Some i \<Rightarrow> Some (lookup_from t a (rt_extra (t ! i)) i))"

definition LinearIPLookup_lookup_route :: "LinearIPLookup \<Rightarrow> u32 \<Rightarrow> (int \<times> u32) option" where
  "LinearIPLookup_lookup_route l a =
     map_option (\<lambda>ei. (rt_port (li_t l ! ei), rt_gw (li_t l ! ei))) (lookup_entry (li_t l) a)"

text \<open>The self check.\<close>

definition next_ok :: "IPRoute list \<Rightarrow> bool" where
  "next_ok t \<longleftrightarrow> (\<forall>i < length t. \<forall>j < length t. real_route (t ! i) \<and> i < j \<and> j < rt_extra (t ! i) \<longrightarrow>
     \<not> (contains_route (t ! i) (t ! j) \<and> real_route (t ! j)))"

definition no_duplicates :: "IPRoute list \<Rightarrow> bool" where
  "no_duplicates t \<longleftrightarrow> (\<forall>i < length t. \<forall>j < length t. i < j \<longrightarrow>
     \<not> (rt_addr (t ! i) = rt_addr (t ! j) \<and> rt_mask (t ! i) = rt_mask (t ! j) \<and>
        real_route (t ! i) \<and> real_route (t ! j)))"

definition caches_ok :: "LinearIPLookup \<Rightarrow> bool" where
  "caches_ok l \<longleftrightarrow>
     (li_last_addr l \<noteq> 0 \<longrightarrow> lookup_entry (li_t l) (li_last_addr l) = Some (li_last_entry l)) \<and>
     (li_last_addr2 l \<noteq> 0 \<longrightarrow> lookup_entry (li_t l) (li_last_addr2 l) = Some (li_last_entry2 l))"

definition LinearIPLookup_check :: "LinearIPLookup \<Rightarrow> bool" where
  "LinearIPLookup_check l \<longleftrightarrow> next_ok (li_t l) \<and> no_duplicates (li_t l) \<and> caches_ok l"

definition forget_caches :: "LinearIPLookup \<Rightarrow> LinearIPLookup" where
  "forget_caches l = l\<lparr>li_last_addr := 0, li_last_addr2 := 0\<rparr>"

text \<open>The new route in its slot, with the next pointers of the routes before it that contain it
  lowered to it and its own set to the first later route it contains.\<close>

definition patch_next :: "nat \<Rightarrow> IPRoute \<Rightarrow> IPRoute list \<Rightarrow> IPRoute list" where
  "patch_next found r t =
     map (\<lambda>i. if i = found
         then r\<lparr>rt_extra := (case find (\<lambda>j. contains_route r (t ! j) \<and> real_route (t ! j)) [found + 1..<length t] of
                 None \<Rightarrow> 0x7FFFFFFF
               | Some j \<Rightarrow> j)\<rparr>
       else if i < found \<and> contains_route (t ! i) r \<and> found < rt_extra (t ! i)
         then (t ! i)\<lparr>rt_extra := found\<rparr>
       else t ! i) [0..<length t]"

definition LinearIPLookup_add_route :: "LinearIPLookup adder" where
  "LinearIPLookup_add_route r allow_replace l =
     (let t = li_t l in
      case find (\<lambda>i. real_route (t ! i) \<and> rt_addr (t ! i) = rt_addr r \<and> rt_mask (t ! i) = rt_mask r) [0..<length t] of
        Some i \<Rightarrow>
          if \<not> allow_replace then (Some EEXIST, Some (t ! i), l)
          else (None, Some (t ! i), l\<lparr>li_t := t[i := (t ! i)\<lparr>rt_gw := rt_gw r, rt_port := rt_port r\<rparr>]\<rparr>)
      | None \<Rightarrow>
          let found = (case find (\<lambda>i. \<not> real_route (t ! i)) [0..<length t] of None \<Rightarrow> length t | Some i \<Rightarrow> i);
              t1 = (if found = length t then t @ [r] else t[found := r]);
              l1 = l\<lparr>li_t := patch_next found r t1\<rparr>;
              l2 = (if rt_addr r = 0 \<and> rt_mask r = 0xFFFFFFFF then l1\<lparr>li_zero_route := int found\<rparr> else l1)
          in (None, None, forget_caches l2))"

text \<open>Removing a route before the route for 0.0.0.0/32 moves that one forward, so that it is found
  before the removed ones; the assertion on the way is a fault.\<close>

definition move_zero :: "nat \<Rightarrow> LinearIPLookup \<Rightarrow> LinearIPLookup res" where
  "move_zero i l =
     (if int i = li_zero_route l then Inr (l\<lparr>li_zero_route := - 1\<rparr>)
      else if int i < li_zero_route l then
        let z = nat (li_zero_route l); zero = li_t l ! z in
        (case LinearIPLookup_add_route zero False (l\<lparr>li_t := (li_t l)[z := kill_route zero]\<rparr>) of
           (None, _, l') \<Rightarrow> Inr l'
         | (Some e, _, l') \<Rightarrow> Inl AssertFail)
      else Inr l)"

definition LinearIPLookup_remove_route :: "IPRoute \<Rightarrow> LinearIPLookup \<Rightarrow> LinearIPLookup table_result res" where
  "LinearIPLookup_remove_route route l =
     (let t = li_t l in
      case find (\<lambda>i. match_route route (t ! i)) [0..<length t] of
        None \<Rightarrow> Inr (Some ENOENT, None, l)
      | Some i \<Rightarrow> bind_res (move_zero i (l\<lparr>li_t := t[i := kill_route (t ! i)]\<rparr>))
          (\<lambda>l'. Inr (None, Some (t ! i), forget_caches l')))"

definition LinearIPLookup_push :: "nat \<Rightarrow> LinearIPLookup \<Rightarrow> packet \<Rightarrow> (LinearIPLookup \<times> action list) res" where
  "LinearIPLookup_push noutputs l p =
     (let a = pk_dst_ip p;
          send = (\<lambda>l' ei. let e = li_t l' ! ei in
            bind_res (output_push noutputs (rt_port e) (if rt_gw e \<noteq> 0 then set_dst_ip_anno (rt_gw e) p else p))
              (\<lambda>as. Inr (l', as))) in
      if a \<noteq> 0 \<and> a = li_last_addr l then send l (li_last_entry l)
      else if a \<noteq> 0 \<and> a = li_last_addr2 l then send l (li_last_entry2 l)
      else case lookup_entry (li_t l) a of
          Some ei \<Rightarrow> send (l\<lparr>li_last_addr2 := li_last_addr l, li_last_entry2 := li_last_entry l,
                             li_last_addr := a, li_last_entry := ei\<rparr>) ei
        | None \<Rightarrow> Inr (l, [Kill p]))"

section \<open>StaticIPLookup\<close>

definition StaticIPLookup_add_route :: "bool \<Rightarrow> LinearIPLookup adder" where
  "StaticIPLookup_add_route initialized route set_it l =
     (if initialized then (Some EINVAL, None, l) else LinearIPLookup_add_route route set_it l)"

definition StaticIPLookup_remove_route ::
  "bool \<Rightarrow> IPRoute \<Rightarrow> LinearIPLookup \<Rightarrow> LinearIPLookup table_result res" where
  "StaticIPLookup_remove_route initialized r l =
     (if initialized then Inr (Some EINVAL, None, l) else LinearIPLookup_remove_route r l)"

section \<open>The linear table as a map\<close>

definition table_routes :: "IPRoute list \<Rightarrow> u32 \<times> u32 \<Rightarrow> (u32 \<times> int) option" where
  "table_routes t k = map_option route_val (find (\<lambda>r. real_route r \<and> route_key r = k) t)"

definition table_inv :: "IPRoute list \<Rightarrow> bool" where
  "table_inv t \<longleftrightarrow> next_ok t \<and> no_duplicates t \<and>
     (\<forall>r \<in> set t. if real_route r then 0 \<le> rt_port r else route_key r = (0, 0xFFFFFFFF))"

lemma option_eqI: "(\<And>v. x = Some v \<longleftrightarrow> y = Some v) \<Longrightarrow> x = y"
  by (cases x; cases y) auto

lemma find_upt_Some:
  "find P [a..<b] = Some i \<longleftrightarrow> a \<le> i \<and> i < b \<and> P i \<and> (\<forall>j. a \<le> j \<and> j < i \<longrightarrow> \<not> P j)"
proof
  assume "find P [a..<b] = Some i"
  then obtain n where n: "n < b - a" "P (a + n)" "i = a + n" "\<forall>j < n. \<not> P (a + j)"
    by (auto simp: find_Some_iff)
  have "\<not> P j" if "a \<le> j" "j < i" for j
    using n(4) [rule_format, of "j - a"] that n(3) by simp
  with n show "a \<le> i \<and> i < b \<and> P i \<and> (\<forall>j. a \<le> j \<and> j < i \<longrightarrow> \<not> P j)" by auto
next
  assume r: "a \<le> i \<and> i < b \<and> P i \<and> (\<forall>j. a \<le> j \<and> j < i \<longrightarrow> \<not> P j)"
  then show "find P [a..<b] = Some i"
    unfolding find_Some_iff by (intro exI [of _ "i - a"]) auto
qed

lemma find_upt_None: "find P [a..<b] = None \<longleftrightarrow> (\<forall>j. a \<le> j \<and> j < b \<longrightarrow> \<not> P j)"
  by (auto simp: find_None_iff)

text \<open>The live entries of a table.\<close>

definition entry :: "IPRoute list \<Rightarrow> nat \<Rightarrow> u32 \<times> u32 \<Rightarrow> u32 \<times> int \<Rightarrow> bool" where
  "entry t i k v \<longleftrightarrow> i < length t \<and> real_route (t ! i) \<and> route_key (t ! i) = k \<and> route_val (t ! i) = v"

lemma no_duplicates_iff: "no_duplicates t \<longleftrightarrow> (\<forall>i j k v w. entry t i k v \<longrightarrow> entry t j k w \<longrightarrow> i = j)"
proof
  assume nd: "no_duplicates t"
  show "\<forall>i j k v w. entry t i k v \<longrightarrow> entry t j k w \<longrightarrow> i = j"
  proof (intro allI impI)
    fix i j k v w assume a: "entry t i k v" "entry t j k w"
    then show "i = j"
      using nd [unfolded no_duplicates_def, rule_format, of i j] nd [unfolded no_duplicates_def, rule_format, of j i]
      by (cases i j rule: linorder_cases) (auto simp: entry_def)
  qed
next
  assume R: "\<forall>i j k v w. entry t i k v \<longrightarrow> entry t j k w \<longrightarrow> i = j"
  show "no_duplicates t"
    unfolding no_duplicates_def
  proof (intro allI impI notI)
    fix i j assume "i < length t" "j < length t" "i < j" "rt_addr (t ! i) = rt_addr (t ! j) \<and>
      rt_mask (t ! i) = rt_mask (t ! j) \<and> real_route (t ! i) \<and> real_route (t ! j)"
    then show False using R [rule_format, of i "route_key (t ! i)" "route_val (t ! i)" j "route_val (t ! j)"]
      by (simp add: entry_def)
  qed
qed

lemma find_entry:
  "find (\<lambda>r. real_route r \<and> route_key r = k) t = Some r \<Longrightarrow> \<exists>i. entry t i k (route_val r)"
  by (auto simp: find_Some_iff entry_def)

lemma table_routes_iff:
  assumes "no_duplicates t"
  shows "table_routes t k = Some v \<longleftrightarrow> (\<exists>i. entry t i k v)"
proof
  assume "table_routes t k = Some v"
  then show "\<exists>i. entry t i k v"
    unfolding table_routes_def using find_entry [of k t] by blast
next
  assume "\<exists>i. entry t i k v"
  then obtain i where i: "entry t i k v" by blast
  then have "t ! i \<in> set t" "real_route (t ! i) \<and> route_key (t ! i) = k" by (auto simp: entry_def)
  then obtain r where r: "find (\<lambda>r. real_route r \<and> route_key r = k) t = Some r"
    by (cases "find (\<lambda>r. real_route r \<and> route_key r = k) t") (auto simp: find_None_iff)
  then obtain j where j: "entry t j k (route_val r)" using find_entry by blast
  then have "j = i" using assms i unfolding no_duplicates_iff by blast
  then show "table_routes t k = Some v" using r i j by (auto simp: table_routes_def entry_def)
qed

lemma table_routes_None: "table_routes t k = None \<longleftrightarrow> (\<forall>i v. \<not> entry t i k v)"
  by (auto simp: table_routes_def find_None_iff in_set_conv_nth entry_def)

text \<open>Changing one slot.\<close>

lemma change_slot:
  assumes nd: "no_duplicates t"
    and slot: "\<And>j k v. entry t' j k v \<longleftrightarrow> (if j = i then new = Some (k, v) else entry t j k v)"
    and fresh: "\<And>j k v w. new = Some (k, v) \<Longrightarrow> entry t j k w \<Longrightarrow> j = i"
  shows "no_duplicates t'"
    and "table_routes t' = (\<lambda>k. case new of
        Some (k', v) \<Rightarrow> if k = k' then Some v else if \<exists>w. entry t i k w then None else table_routes t k
      | None \<Rightarrow> if \<exists>w. entry t i k w then None else table_routes t k)"
proof -
  have uniq: "j = j'" if "entry t j k v" "entry t j' k w" for j j' k v w
    using nd that unfolding no_duplicates_iff by blast
  show nd': "no_duplicates t'"
    unfolding no_duplicates_iff slot
  proof (intro allI impI)
    fix j j' k v w
    assume "if j = i then new = Some (k, v) else entry t j k v" "if j' = i then new = Some (k, w) else entry t j' k w"
    then consider "j = i" "j' = i" | "new = Some (k, v)" "entry t j' k w" "j' \<noteq> i"
      | "new = Some (k, w)" "entry t j k v" "j \<noteq> i" | "entry t j k v" "entry t j' k w"
      by presburger
    then show "j = j'"
    proof cases
      case 2 then show ?thesis using fresh by blast
    next
      case 3 then show ?thesis using fresh by blast
    next
      case 4 then show ?thesis by (rule uniq)
    qed simp
  qed
  have old: "table_routes t k = Some v \<longleftrightarrow> (\<exists>j. entry t j k v)" for k v by (rule table_routes_iff [OF nd])
  let ?R = "\<lambda>k. case new of
        Some (k', v) \<Rightarrow> if k = k' then Some v else if \<exists>w. entry t i k w then None else table_routes t k
      | None \<Rightarrow> if \<exists>w. entry t i k w then None else table_routes t k"
  have "?R k = Some v \<longleftrightarrow> (\<exists>j. entry t' j k v)" for k v
  proof -
    have e': "(\<exists>j. entry t' j k v) \<longleftrightarrow> new = Some (k, v) \<or> (\<exists>j. j \<noteq> i \<and> entry t j k v)"
      unfolding slot by metis
    have o: "(\<exists>j. j \<noteq> i \<and> entry t j k v) \<longleftrightarrow> \<not> (\<exists>w. entry t i k w) \<and> table_routes t k = Some v"
      unfolding old using uniq by metis
    have n: "\<not> (\<exists>j. j \<noteq> i \<and> entry t j k v)" if "new = Some (k, v')" for v'
      using fresh [OF that] by blast
    show ?thesis
    proof (cases new)
      case None
      then show ?thesis unfolding e' o by simp
    next
      case (Some kv)
      then obtain k' v' where kv: "new = Some (k', v')" by (cases kv) auto
      show ?thesis
      proof (cases "k' = k")
        case True
        then show ?thesis using n [of v'] kv unfolding e' by auto
      next
        case False
        then show ?thesis using kv unfolding e' o by auto
      qed
    qed
  qed
  then have "table_routes t' k = Some v \<longleftrightarrow> ?R k = Some v" for k v by (simp add: table_routes_iff [OF nd'])
  then show "table_routes t' = ?R" by (intro ext option_eqI)
qed

text \<open>Killing a route takes it out of the map.\<close>

lemma kill_route_simps [simp]:
  "\<not> real_route (kill_route r)" "rt_addr (kill_route r) = 0" "rt_mask (kill_route r) = 0xFFFFFFFF"
  by (simp_all add: kill_route_def real_route_def)

lemma entry_kill: "i < length t \<Longrightarrow> entry (t[i := kill_route r]) j k v \<longleftrightarrow> j \<noteq> i \<and> entry t j k v"
  by (auto simp: entry_def nth_list_update)

lemma kill_inv:
  assumes "table_inv t" "i < length t"
  shows "table_inv (t[i := kill_route (t ! i)])"
    and "table_routes (t[i := kill_route (t ! i)]) =
      (if real_route (t ! i) then (table_routes t)(route_key (t ! i) := None) else table_routes t)"
proof -
  let ?t = "t[i := kill_route (t ! i)]"
  have nd: "no_duplicates t" and nx: "next_ok t" using assms(1) by (simp_all add: table_inv_def)
  note c = change_slot [OF nd, of ?t i None]
  have nd': "no_duplicates ?t" using c(1) entry_kill [OF assms(2)] by simp
  moreover have "next_ok ?t"
    unfolding next_ok_def
  proof (intro allI impI notI)
    fix j k assume a: "j < length ?t" "k < length ?t" "real_route (?t ! j) \<and> j < k \<and> k < rt_extra (?t ! j)"
      "contains_route (?t ! j) (?t ! k) \<and> real_route (?t ! k)"
    then have "j \<noteq> i" "k \<noteq> i" using assms(2) by auto
    then show False using a nx [unfolded next_ok_def, rule_format, of j k] by simp
  qed
  moreover have "if real_route r then 0 \<le> rt_port r else route_key r = (0, 0xFFFFFFFF)" if "r \<in> set ?t" for r
    using set_update_subset_insert [THEN subsetD, OF that] assms(1) by (auto simp: table_inv_def)
  ultimately show "table_inv ?t" by (simp add: table_inv_def)
  have "table_routes ?t = (\<lambda>k. if \<exists>w. entry t i k w then None else table_routes t k)"
    using c(2) entry_kill [OF assms(2)] by simp
  moreover have "(\<exists>w. entry t i k w) \<longleftrightarrow> real_route (t ! i) \<and> k = route_key (t ! i)" for k
    using assms(2) by (auto simp: entry_def)
  ultimately show "table_routes ?t =
      (if real_route (t ! i) then (table_routes t)(route_key (t ! i) := None) else table_routes t)"
    by (auto simp: fun_eq_iff)
qed

text \<open>Putting a route into a free slot adds it to the map.\<close>

definition placed :: "nat \<Rightarrow> IPRoute \<Rightarrow> IPRoute list \<Rightarrow> IPRoute list" where
  "placed found r t = patch_next found r (if found = length t then t @ [r] else t[found := r])"

definition free_slot :: "nat \<Rightarrow> IPRoute list \<Rightarrow> bool" where
  "free_slot found t \<longleftrightarrow> found = length t \<or> (found < length t \<and> \<not> real_route (t ! found))"

lemma patch_next_nth:
  "i < length t \<Longrightarrow> patch_next found r t ! i = (if i = found
     then r\<lparr>rt_extra := (case find (\<lambda>j. contains_route r (t ! j) \<and> real_route (t ! j)) [found + 1..<length t] of
             None \<Rightarrow> 0x7FFFFFFF | Some j \<Rightarrow> j)\<rparr>
   else if i < found \<and> contains_route (t ! i) r \<and> found < rt_extra (t ! i) then (t ! i)\<lparr>rt_extra := found\<rparr>
   else t ! i)"
  by (simp add: patch_next_def)

lemma length_placed [simp]: "length (placed found r t) = (if found = length t then length t + 1 else length t)"
  by (simp add: placed_def patch_next_def)

lemma placed_other:
  assumes "free_slot found t" "i \<noteq> found" "i < length (placed found r t)"
  shows "i < length t" "placed found r t ! i =
    (if i < found \<and> contains_route (t ! i) r \<and> found < rt_extra (t ! i) then (t ! i)\<lparr>rt_extra := found\<rparr> else t ! i)"
  using assms by (auto simp: placed_def patch_next_def free_slot_def nth_append split: if_splits)

lemma placed_other_sel:
  assumes "free_slot found t" "i \<noteq> found" "i < length (placed found r t)"
  shows "real_route (placed found r t ! i) = real_route (t ! i)"
    "route_key (placed found r t ! i) = route_key (t ! i)" "route_val (placed found r t ! i) = route_val (t ! i)"
    "contains_route (placed found r t ! i) x = contains_route (t ! i) x"
    "contains_route x (placed found r t ! i) = contains_route x (t ! i)"
    "rt_extra (placed found r t ! i) \<le> rt_extra (t ! i)"
    "i < found \<Longrightarrow> contains_route (t ! i) r \<Longrightarrow> rt_extra (placed found r t ! i) \<le> found"
  unfolding placed_other(2) [OF assms] by (simp_all add: real_route_def contains_route_def)

lemma placed_found:
  assumes "free_slot found t"
  obtains x where "placed found r t ! found = r\<lparr>rt_extra := x\<rparr>"
    "\<And>j. found < j \<Longrightarrow> j < length t \<Longrightarrow> j < x \<Longrightarrow> \<not> (contains_route r (t ! j) \<and> real_route (t ! j))"
proof -
  let ?t = "if found = length t then t @ [r] else t[found := r]"
  let ?P = "\<lambda>j. contains_route r (?t ! j) \<and> real_route (?t ! j)"
  define x where "x = (case find ?P [found + 1..<length ?t] of None \<Rightarrow> 0x7FFFFFFF | Some j \<Rightarrow> j)"
  have "placed found r t ! found = r\<lparr>rt_extra := x\<rparr>"
    using assms unfolding placed_def free_slot_def x_def
    by (subst patch_next_nth) auto
  moreover have "\<not> (contains_route r (t ! j) \<and> real_route (t ! j))" if "found < j" "j < length t" "j < x" for j
  proof -
    have "\<not> ?P j"
    proof (cases "find ?P [found + 1..<length ?t]")
      case None
      then show ?thesis unfolding find_upt_None using that by auto
    next
      case (Some y)
      then have "x = y" by (simp add: x_def)
      moreover have "\<forall>j. found + 1 \<le> j \<and> j < y \<longrightarrow> \<not> ?P j"
        using Some unfolding find_upt_Some by blast
      ultimately show ?thesis using that by auto
    qed
    then show ?thesis using that by simp
  qed
  ultimately show thesis using that by blast
qed

lemma placed_inv:
  assumes inv: "table_inv t" and free: "free_slot found t" and port: "0 \<le> rt_port r"
    and new: "table_routes t (route_key r) = None"
  shows "table_inv (placed found r t)"
    and "table_routes (placed found r t) = (table_routes t)(route_key r \<mapsto> route_val r)"
proof -
  let ?t = "placed found r t"
  obtain x where x: "?t ! found = r\<lparr>rt_extra := x\<rparr>"
    and next_x: "\<And>j. found < j \<Longrightarrow> j < length t \<Longrightarrow> j < x \<Longrightarrow> \<not> (contains_route r (t ! j) \<and> real_route (t ! j))"
    using placed_found [OF free] by blast
  have f: "found < length ?t" using free by (auto simp: free_slot_def)
  have rr: "real_route (?t ! found)" "route_key (?t ! found) = route_key r" "route_val (?t ! found) = route_val r"
      "contains_route (?t ! found) y = contains_route r y" "contains_route y (?t ! found) = contains_route y r" for y
    using port by (simp_all add: x real_route_def contains_route_def)
  note other = placed_other(1) [OF free] placed_other_sel [OF free]
  have nd: "no_duplicates t" and nx: "next_ok t" using inv by (simp_all add: table_inv_def)
  have slot: "entry ?t j k v \<longleftrightarrow> (if j = found then Some (route_key r, route_val r) = Some (k, v) else entry t j k v)" for j k v
  proof (cases "j = found")
    case True then show ?thesis using f rr by (auto simp: entry_def)
  next
    case False
    have "j < length ?t \<longleftrightarrow> j < length t" using False free by (auto simp: free_slot_def)
    then show ?thesis using False other(2,3,4) [of j r] by (auto simp: entry_def)
  qed
  have "\<not> entry t found k v" for k v using free by (auto simp: free_slot_def entry_def)
  note c = change_slot [OF nd slot] table_routes_None [THEN iffD1, OF new] this
  have nd': "no_duplicates ?t" by (rule c(1)) (use c(3) in auto)
  moreover have "next_ok ?t"
    unfolding next_ok_def
  proof (intro allI impI notI)
    fix i j assume a: "i < length ?t" "j < length ?t" "real_route (?t ! i) \<and> i < j \<and> j < rt_extra (?t ! i)"
      "contains_route (?t ! i) (?t ! j) \<and> real_route (?t ! j)"
    consider "i = found" | "j = found" | "i \<noteq> found" "j \<noteq> found" by blast
    then show False
    proof cases
      case 1
      then have "j \<noteq> found" using a by simp
      then show False using 1 a next_x [of j] other(1,2,6) [of j r] rr(4) x by auto
    next
      case 2
      then have "i < found" "i \<noteq> found" using a by auto
      then show False using 2 a other(5,8) [of i r] rr(5) by auto
    next
      case 3
      then show False
        using a other(1,2,5,7) [of i r] other(1,2,6) [of j r] nx [unfolded next_ok_def, rule_format, of i j] by auto
    qed
  qed
  moreover have "if real_route y then 0 \<le> rt_port y else route_key y = (0, 0xFFFFFFFF)" if y: "y \<in> set ?t" for y
  proof -
    obtain i where i: "i < length ?t" "y = ?t ! i" using y unfolding in_set_conv_nth by blast
    show ?thesis
    proof (cases "i = found")
      case True then show ?thesis using i rr port by simp
    next
      case False
      then have "if real_route (t ! i) then 0 \<le> rt_port (t ! i) else route_key (t ! i) = (0, 0xFFFFFFFF)"
        using inv other(1) [OF _ i(1)] by (simp add: table_inv_def)
      then show ?thesis using i False other(2,3,4) [of i r] by auto
    qed
  qed
  ultimately show "table_inv ?t" by (simp add: table_inv_def)
  show "table_routes ?t = (table_routes t)(route_key r \<mapsto> route_val r)"
    by (rule trans [OF c(2)]) (use c(3,4) in \<open>auto simp: fun_eq_iff\<close>)
qed

text \<open>Changing the gateway and port of a route.\<close>

lemma lookup_entry_cong:
  assumes "length t' = length t" "\<And>i. i < length t \<Longrightarrow> route_key (t' ! i) = route_key (t ! i) \<and> rt_extra (t' ! i) = rt_extra (t ! i)"
  shows "lookup_entry t' a = lookup_entry t a"
proof -
  have c: "contains_addr (t' ! i) a = contains_addr (t ! i) a" if "i < length t" for i
    using assms(2) [OF that] by (simp add: contains_addr_def)
  have "find (\<lambda>i. contains_addr (t' ! i) a) [0..<length t'] = find (\<lambda>i. contains_addr (t ! i) a) [0..<length t]"
    using assms(1) c by (intro find_cong) auto
  moreover have "lookup_from t' a start i = lookup_from t a start i" if "i < length t" for start i
  proof -
    have "fold (\<lambda>j found. if contains_addr (t' ! j) a \<and> mask_as_specific (rt_mask (t' ! j)) (rt_mask (t' ! found)) then j else found) js i
        = fold (\<lambda>j found. if contains_addr (t ! j) a \<and> mask_as_specific (rt_mask (t ! j)) (rt_mask (t ! found)) then j else found) js i"
      if "set js \<subseteq> {..<length t}" "i < length t" for js i
      using that by (induction js arbitrary: i) (use c assms(2) in auto)
    then show ?thesis using that assms(1) by (simp add: lookup_from_def subset_eq)
  qed
  moreover have "i < length t" if "find (\<lambda>i. contains_addr (t ! i) a) [0..<length t] = Some i" for i
    using that unfolding find_upt_Some by simp
  ultimately show ?thesis
    using assms(2)
    by (cases "find (\<lambda>i. contains_addr (t ! i) a) [0..<length t]") (simp_all add: lookup_entry_def)
qed

lemma replace_inv:
  fixes g :: u32
  assumes inv: "table_inv t" and i: "i < length t" "real_route (t ! i)" and port: "0 \<le> p"
  defines "t' \<equiv> t[i := (t ! i)\<lparr>rt_gw := g, rt_port := p\<rparr>]"
  shows "table_inv t'" "table_routes t' = (table_routes t)(route_key (t ! i) \<mapsto> (g, p))"
    "lookup_entry t' a = lookup_entry t a"
proof -
  have nd: "no_duplicates t" and nx: "next_ok t" using inv by (simp_all add: table_inv_def)
  have same: "route_key (t' ! j) = route_key (t ! j) \<and> rt_extra (t' ! j) = rt_extra (t ! j)"
      "real_route (t' ! j) = real_route (t ! j)" if "j < length t" for j
    using that i port by (auto simp: t'_def nth_list_update real_route_def)
  have len: "length t' = length t" by (simp add: t'_def)
  show "lookup_entry t' a = lookup_entry t a" by (rule lookup_entry_cong [OF len same(1)])
  have slot: "entry t' j k v \<longleftrightarrow> (if j = i then Some (route_key (t ! i), (g, p)) = Some (k, v) else entry t j k v)" for j k v
    using i port by (auto simp: entry_def t'_def nth_list_update real_route_def)
  have self: "entry t i (route_key (t ! i)) (route_val (t ! i))" using i by (simp add: entry_def)
  have fresh: "j = i" if "entry t j (route_key (t ! i)) w" for j w
    using that self nd unfolding no_duplicates_iff by blast
  note c = change_slot [OF nd slot]
  have "no_duplicates t'" by (rule c(1)) (use fresh in auto)
  moreover have "next_ok t'"
    unfolding next_ok_def
  proof (intro allI impI notI)
    fix j k assume "j < length t'" "k < length t'" "real_route (t' ! j) \<and> j < k \<and> k < rt_extra (t' ! j)"
      "contains_route (t' ! j) (t' ! k) \<and> real_route (t' ! k)"
    then show False
      using nx [unfolded next_ok_def, rule_format, of j k] same [of j] same [of k] len
      by (simp add: contains_route_def)
  qed
  moreover have "if real_route r then 0 \<le> rt_port r else route_key r = (0, 0xFFFFFFFF)" if "r \<in> set t'" for r
    using set_update_subset_insert [THEN subsetD, OF that [unfolded t'_def]] inv i port
    by (auto simp: table_inv_def real_route_def)
  ultimately show "table_inv t'" by (simp add: table_inv_def)
  have "table_routes t' = (\<lambda>k. if k = route_key (t ! i) then Some (g, p) else if \<exists>w. entry t i k w then None else table_routes t k)"
    by (rule trans [OF c(2)]) (use fresh in auto)
  moreover have "(\<exists>w. entry t i k w) \<longleftrightarrow> k = route_key (t ! i)" for k using i by (auto simp: entry_def)
  ultimately show "table_routes t' = (table_routes t)(route_key (t ! i) \<mapsto> (g, p))" by (auto simp: fun_eq_iff)
qed

section \<open>The linear table keeps its promises\<close>

definition zero_at :: "IPRoute list \<Rightarrow> nat \<Rightarrow> bool" where
  "zero_at t i \<longleftrightarrow> i < length t \<and> real_route (t ! i) \<and> route_key (t ! i) = (0, 0xFFFFFFFF)"

text \<open>\<^verbatim>\<open>_zero_route\<close> is the index of the route for 0.0.0.0/32, if there is one, and no removed
  route precedes it.\<close>

definition zero_ok :: "IPRoute list \<Rightarrow> int \<Rightarrow> bool" where
  "zero_ok t z \<longleftrightarrow> (if z = - 1 then \<forall>i. \<not> zero_at t i
     else \<exists>i. z = int i \<and> zero_at t i \<and> (\<forall>j < i. real_route (t ! j)))"

definition lin_inv :: "LinearIPLookup \<Rightarrow> bool" where
  "lin_inv l \<longleftrightarrow> table_inv (li_t l) \<and> caches_ok l \<and> zero_ok (li_t l) (li_zero_route l)"

definition lin_routes :: "LinearIPLookup \<Rightarrow> u32 \<times> u32 \<Rightarrow> (u32 \<times> int) option" where
  "lin_routes l = table_routes (li_t l)"

lemma find_slot:
  "free_slot (case find (\<lambda>i. \<not> real_route (t ! i)) [0..<length t] of None \<Rightarrow> length t | Some i \<Rightarrow> i) t"
  "j < (case find (\<lambda>i. \<not> real_route (t ! i)) [0..<length t] of None \<Rightarrow> length t | Some i \<Rightarrow> i) \<Longrightarrow> real_route (t ! j)"
  by (auto simp: free_slot_def find_upt_Some find_upt_None split: option.splits)

lemma find_key_None:
  "find (\<lambda>i. real_route (t ! i) \<and> rt_addr (t ! i) = rt_addr r \<and> rt_mask (t ! i) = rt_mask r) [0..<length t] = None \<longleftrightarrow>
     table_routes t (route_key r) = None"
  by (auto simp: find_upt_None table_routes_None entry_def)

lemma add_route_new:
  assumes inv: "table_inv (li_t l)" and port: "0 \<le> rt_port r" and new: "table_routes (li_t l) (route_key r) = None"
    and zero: "route_key r = (0, 0xFFFFFFFF) \<or> zero_ok (li_t l) (li_zero_route l)"
  shows "\<exists>l'. LinearIPLookup_add_route r b l = (None, None, l') \<and> lin_inv l' \<and>
    lin_routes l' = (table_routes (li_t l))(route_key r \<mapsto> route_val r)"
proof -
  let ?t = "li_t l"
  define f where "f = (case find (\<lambda>i. \<not> real_route (?t ! i)) [0..<length ?t] of None \<Rightarrow> length ?t | Some i \<Rightarrow> i)"
  have free: "free_slot f ?t" and before: "\<And>j. j < f \<Longrightarrow> real_route (?t ! j)"
    using find_slot(1) [of ?t] find_slot(2) [of _ ?t] by (simp_all add: f_def)
  define z where "z = (if route_key r = (0, 0xFFFFFFFF) then int f else li_zero_route l)"
  define l' where "l' = forget_caches (l\<lparr>li_t := placed f r ?t, li_zero_route := z\<rparr>)"
  have act: "LinearIPLookup_add_route r b l = (None, None, l')"
    using find_key_None [of ?t r] new
    by (simp add: LinearIPLookup_add_route_def Let_def f_def [symmetric] l'_def z_def placed_def)
  note p = placed_inv [OF inv free port new]
  have real_f: "f < length (placed f r ?t)" "real_route (placed f r ?t ! f)" "route_key (placed f r ?t ! f) = route_key r"
  proof -
    obtain x where "placed f r ?t ! f = r\<lparr>rt_extra := x\<rparr>" by (rule placed_found [OF free])
    then show "f < length (placed f r ?t)" "real_route (placed f r ?t ! f)" "route_key (placed f r ?t ! f) = route_key r"
      using free port by (auto simp: free_slot_def real_route_def)
  qed
  have len: "i < length (placed f r ?t) \<longleftrightarrow> i < length ?t" if "i \<noteq> f" for i
    using that free by (auto simp: free_slot_def)
  have other: "zero_at (placed f r ?t) i \<longleftrightarrow> zero_at ?t i" if "i \<noteq> f" for i
    using len [OF that] placed_other_sel(1,2) [OF free that, of r] by (auto simp: zero_at_def)
  have kept: "real_route (placed f r ?t ! j)" if "j < length ?t" "real_route (?t ! j) \<or> j = f" for j
  proof (cases "j = f")
    case True then show ?thesis using real_f(2) by simp
  next
    case False
    then have "j < length (placed f r ?t)" using len that(1) by blast
    then show ?thesis using placed_other_sel(1) [OF free False] that(2) False by blast
  qed
  have "zero_ok (placed f r ?t) z"
  proof (cases "route_key r = (0, 0xFFFFFFFF)")
    case True
    moreover have "j < length ?t" if "j < f" for j using that free by (auto simp: free_slot_def)
    ultimately show ?thesis
      using real_f kept before by (auto simp: zero_ok_def z_def zero_at_def)
  next
    case False
    then have z: "zero_ok ?t z" and nf: "\<not> zero_at (placed f r ?t) f"
      using zero real_f(3) by (auto simp: z_def zero_at_def)
    have "\<not> zero_at ?t f" using free by (auto simp: free_slot_def zero_at_def)
    then show ?thesis
      using z nf other kept unfolding zero_ok_def by (metis less_trans zero_at_def)
  qed
  then have "lin_inv l'" using p(1) by (simp add: lin_inv_def l'_def forget_caches_def caches_ok_def)
  then show ?thesis using act p(2) by (simp add: lin_routes_def l'_def forget_caches_def)
qed

lemma zero_ok_cong:
  assumes "zero_ok t z" "\<And>j. zero_at t' j \<longleftrightarrow> zero_at t j" "\<And>j. j < length t \<Longrightarrow> real_route (t ! j) \<Longrightarrow> real_route (t' ! j)"
  shows "zero_ok t' z"
proof (cases "z = - 1")
  case True then show ?thesis using assms(1,2) by (simp add: zero_ok_def)
next
  case False
  then obtain k where k: "z = int k" "zero_at t k" "\<forall>j < k. real_route (t ! j)"
    using assms(1) by (auto simp: zero_ok_def)
  then have "\<forall>j < k. real_route (t' ! j)" using assms(3) by (auto simp: zero_at_def)
  then show ?thesis using False k assms(2) unfolding zero_ok_def by auto
qed

lemma add_route_old:
  assumes inv: "lin_inv l" and port: "0 \<le> rt_port r" and old: "lin_routes l (route_key r) = Some v"
  shows "\<exists>l' o'. LinearIPLookup_add_route r b l = (if b then None else Some EEXIST, Some o', l') \<and> lin_inv l' \<and>
    route_key o' = route_key r \<and> route_val o' = v \<and>
    lin_routes l' = (if b then (lin_routes l)(route_key r \<mapsto> route_val r) else lin_routes l)"
proof -
  let ?t = "li_t l"
  let ?P = "\<lambda>i. real_route (?t ! i) \<and> rt_addr (?t ! i) = rt_addr r \<and> rt_mask (?t ! i) = rt_mask r"
  have ti: "table_inv ?t" and nd: "no_duplicates ?t" using inv by (simp_all add: lin_inv_def table_inv_def)
  obtain i where find: "find ?P [0..<length ?t] = Some i"
    using old find_key_None [of ?t r] by (cases "find ?P [0..<length ?t]") (simp_all add: lin_routes_def)
  then have i: "i < length ?t" "real_route (?t ! i)" "route_key (?t ! i) = route_key r"
    unfolding find_upt_Some by simp_all
  then have val: "route_val (?t ! i) = v"
    using old table_routes_iff [OF nd, of "route_key r" "route_val (?t ! i)"] by (auto simp: lin_routes_def entry_def)
  define t' where "t' = ?t[i := (?t ! i)\<lparr>rt_gw := rt_gw r, rt_port := rt_port r\<rparr>]"
  note rep = replace_inv [OF ti i(1,2) port, of "rt_gw r", folded t'_def]
  have "zero_at t' j \<longleftrightarrow> zero_at ?t j" "j < length ?t \<Longrightarrow> real_route (t' ! j) = real_route (?t ! j)" for j
    using i port by (auto simp: t'_def zero_at_def nth_list_update real_route_def)
  then have "zero_ok t' (li_zero_route l)"
    using inv by (auto simp: lin_inv_def intro: zero_ok_cong)
  then have "lin_inv (l\<lparr>li_t := t'\<rparr>)" using inv rep by (simp add: lin_inv_def caches_ok_def)
  then show ?thesis
    using find i val inv rep(2)
    by (cases b) (auto simp: LinearIPLookup_add_route_def t'_def lin_routes_def Let_def)
qed

lemma zero_at_unique: "no_duplicates t \<Longrightarrow> zero_at t i \<Longrightarrow> zero_at t j \<Longrightarrow> i = j"
  unfolding no_duplicates_iff zero_at_def entry_def by blast

lemma zero_ok_kill:
  assumes "zero_ok t z" "no_duplicates t" "i < length t" "z \<le> int i"
  shows "zero_ok (t[i := kill_route (t ! i)]) (if z = int i then - 1 else z)"
proof -
  have at: "zero_at (t[i := kill_route (t ! i)]) j \<longleftrightarrow> j \<noteq> i \<and> zero_at t j" for j
    using assms(3) by (auto simp: zero_at_def nth_list_update)
  show ?thesis
  proof (cases "z = - 1")
    case True then show ?thesis using assms(1) at by (auto simp: zero_ok_def)
  next
    case False
    then obtain k where k: "z = int k" "zero_at t k" "\<forall>j < k. real_route (t ! j)"
      using assms(1) by (auto simp: zero_ok_def)
    show ?thesis
    proof (cases "k = i")
      case True
      have "\<not> zero_at (t[i := kill_route (t ! i)]) j" for j
        using at zero_at_unique [OF assms(2) k(2), of j] True by blast
      then show ?thesis using True k(1) by (simp add: zero_ok_def)
    next
      case False
      then show ?thesis using at k assms(4) by (auto simp: zero_ok_def nth_list_update)
    qed
  qed
qed

lemma move_zero_ok:
  assumes inv: "lin_inv l" and i: "i < length (li_t l)" "real_route (li_t l ! i)"
  shows "\<exists>l'. move_zero i (l\<lparr>li_t := (li_t l)[i := kill_route (li_t l ! i)]\<rparr>) = Inr l' \<and> table_inv (li_t l') \<and>
    zero_ok (li_t l') (li_zero_route l') \<and>
    lin_routes l' = (lin_routes l)(route_key (li_t l ! i) := None)"
proof -
  define t z where "t = li_t l" and "z = li_zero_route l"
  define t1 where "t1 = t[i := kill_route (t ! i)]"
  have ti: "table_inv t" and nd: "no_duplicates t" and zo: "zero_ok t z"
    using inv by (simp_all add: lin_inv_def table_inv_def t_def z_def)
  have i': "i < length t" "real_route (t ! i)" using i by (simp_all add: t_def)
  note k1 = kill_inv [OF ti i'(1), folded t1_def]
  show ?thesis
  proof (cases "z \<le> int i")
    case True
    then show ?thesis
      using zero_ok_kill [OF zo nd i'(1)] k1 i'
      by (auto simp: move_zero_def z_def [symmetric] t_def [symmetric] t1_def [symmetric] lin_routes_def)
  next
    case False
    then obtain k where k: "z = int k" "zero_at t k" "i < k"
      using zo by (auto simp: zero_ok_def split: if_splits)
    define zr where "zr = t ! k"
    have zr: "t1 ! k = zr" "k < length t1" "real_route zr" "route_key zr = (0, 0xFFFFFFFF)"
      using k by (auto simp: zr_def t1_def zero_at_def)
    define t2 where "t2 = t1[k := kill_route zr]"
    note k2 = kill_inv [OF k1(1) zr(2), unfolded zr(1), folded t2_def]
    have port: "0 \<le> rt_port zr"
      using ti k(2) zr(3) by (auto simp: table_inv_def zr_def zero_at_def)
    have r2: "table_routes t2 = (table_routes t)(route_key (t ! i) := None, route_key zr := None)"
      using k1(2) k2(2) zr(3) i' by simp
    obtain l' where l': "LinearIPLookup_add_route zr False (l\<lparr>li_t := t2\<rparr>) = (None, None, l')" "lin_inv l'"
        "lin_routes l' = (table_routes t2)(route_key zr \<mapsto> route_val zr)"
      using add_route_new [of "l\<lparr>li_t := t2\<rparr>" zr False] k2(1) port r2 zr(4) by auto
    have "table_routes t (route_key zr) = Some (route_val zr)"
      using k(2) table_routes_iff [OF nd] by (auto simp: entry_def zero_at_def zr_def)
    moreover have "route_key (t ! i) \<noteq> route_key zr"
      using zero_at_unique [OF nd k(2), of i] i' k(3) zr(4) by (auto simp: zero_at_def)
    ultimately have "lin_routes l' = (table_routes t)(route_key (t ! i) := None)"
      unfolding l'(3) r2 by (auto simp: fun_eq_iff)
    then show ?thesis
      using l' False k zr
      by (auto simp: move_zero_def z_def [symmetric] t_def [symmetric] t1_def [symmetric] t2_def [symmetric]
          lin_routes_def lin_inv_def Let_def)
  qed
qed

lemma remove_route_hit:
  assumes inv: "lin_inv l" and sel: "selects r (lin_routes l (route_key r))"
  shows "\<exists>l' o'. LinearIPLookup_remove_route r l = Inr (None, Some o', l') \<and> lin_inv l' \<and> route_key o' = route_key r \<and>
    lin_routes l (route_key r) = Some (route_val o') \<and> lin_routes l' = (lin_routes l)(route_key r := None)"
proof -
  let ?t = "li_t l"
  have nd: "no_duplicates ?t" and zo: "zero_ok ?t (li_zero_route l)"
    using inv by (simp_all add: lin_inv_def table_inv_def)
  obtain v j where j: "lin_routes l (route_key r) = Some v" "entry ?t j (route_key r) v"
    using sel table_routes_iff [OF nd] unfolding selects_def lin_routes_def by blast
  have "match_route r (?t ! j)" "j < length ?t"
    using j sel by (auto simp: match_route_def selects_def entry_def)
  then obtain i where find: "find (\<lambda>i. match_route r (?t ! i)) [0..<length ?t] = Some i"
    by (cases "find (\<lambda>i. match_route r (?t ! i)) [0..<length ?t]") (auto simp: find_upt_None)
  then have i: "i < length ?t" "match_route r (?t ! i)" "i \<le> j"
    using \<open>match_route r (?t ! j)\<close> unfolding find_upt_Some by (auto simp: not_less [symmetric])
  have "i = j"
  proof (rule ccontr)
    assume "i \<noteq> j"
    have key: "route_key (?t ! i) = route_key r" using i(2) by (simp add: match_route_def)
    then have dead: "\<not> real_route (?t ! i)"
      using \<open>i \<noteq> j\<close> j(2) i(1) nd unfolding no_duplicates_iff entry_def by blast
    then have "route_key r = (0, 0xFFFFFFFF)"
      using inv i(1) key by (auto simp: lin_inv_def table_inv_def)
    then have "zero_at ?t j" using j(2) by (simp add: zero_at_def entry_def)
    then have "\<forall>m < j. real_route (?t ! m)"
      using zo zero_at_unique [OF nd] by (auto simp: zero_ok_def split: if_splits)
    then show False using dead i(3) \<open>i \<noteq> j\<close> by auto
  qed
  then have e: "real_route (?t ! i)" "route_key (?t ! i) = route_key r" "route_val (?t ! i) = v"
    using j(2) by (auto simp: entry_def)
  obtain l' where l': "move_zero i (l\<lparr>li_t := ?t[i := kill_route (?t ! i)]\<rparr>) = Inr l'" "table_inv (li_t l')"
      "zero_ok (li_t l') (li_zero_route l')" "lin_routes l' = (lin_routes l)(route_key r := None)"
    using move_zero_ok [OF inv i(1) e(1)] e(2) by auto
  then have "lin_inv (forget_caches l')" "lin_routes (forget_caches l') = (lin_routes l)(route_key r := None)"
    by (simp_all add: lin_inv_def forget_caches_def caches_ok_def lin_routes_def)
  then show ?thesis
    using find l'(1) e j(1) by (auto simp: LinearIPLookup_remove_route_def)
qed

lemma remove_route_miss:
  assumes inv: "lin_inv l" and sel: "\<not> selects r (lin_routes l (route_key r))"
  shows "\<exists>l' e stored. LinearIPLookup_remove_route r l = Inr (e, stored, l') \<and> lin_inv l' \<and> lin_routes l' = lin_routes l \<and>
    (e = None \<longrightarrow> rt_port r < 0 \<and> (\<exists>o'. stored = Some o' \<and> rt_port o' < 0))"
proof -
  let ?t = "li_t l"
  have ti: "table_inv ?t" and nd: "no_duplicates ?t" and zo: "zero_ok ?t (li_zero_route l)"
    using inv by (simp_all add: lin_inv_def table_inv_def)
  show ?thesis
  proof (cases "find (\<lambda>i. match_route r (?t ! i)) [0..<length ?t]")
    case None then show ?thesis using inv by (simp add: LinearIPLookup_remove_route_def)
  next
    case (Some i)
    then have i: "i < length ?t" "match_route r (?t ! i)" unfolding find_upt_Some by auto
    have dead: "\<not> real_route (?t ! i)"
    proof
      assume "real_route (?t ! i)"
      then have "lin_routes l (route_key r) = Some (route_val (?t ! i))"
        using i table_routes_iff [OF nd] by (auto simp: lin_routes_def entry_def match_route_def)
      then show False using sel i(2) by (auto simp: selects_def match_route_def)
    qed
    then have port: "rt_port r < 0" "rt_port (?t ! i) < 0"
      using i(2) by (auto simp: match_route_def real_route_def)
    have "\<not> int i \<le> li_zero_route l"
      using zo dead unfolding zero_ok_def zero_at_def
      by (auto split: if_splits) (metis le_less)
    then have z: "li_zero_route l \<le> int i" "li_zero_route l \<noteq> int i" "\<not> int i < li_zero_route l" by auto
    define l' where "l' = forget_caches (l\<lparr>li_t := ?t[i := kill_route (?t ! i)]\<rparr>)"
    have "LinearIPLookup_remove_route r l = Inr (None, Some (?t ! i), l')"
      using Some z by (simp add: LinearIPLookup_remove_route_def move_zero_def l'_def Let_def)
    moreover have "lin_inv l'" "lin_routes l' = lin_routes l"
      using kill_inv [OF ti i(1)] zero_ok_kill [OF zo nd i(1) z(1)] z dead
      by (simp_all add: l'_def lin_inv_def forget_caches_def caches_ok_def lin_routes_def)
    ultimately show ?thesis using port by blast
  qed
qed

interpretation lin: route_table lin_inv lin_routes LinearIPLookup_add_route LinearIPLookup_remove_route
proof
  fix s :: LinearIPLookup and k g p assume "lin_inv s" "lin_routes s k = Some (g, p)"
  then show "0 \<le> p"
    using table_routes_iff [of "li_t s" k "(g, p)"]
    by (auto simp: lin_inv_def table_inv_def lin_routes_def entry_def)
next
  fix s :: LinearIPLookup and r b
  assume "lin_inv s" "0 \<le> rt_port r" "lin_routes s (route_key r) = None"
  then show "\<exists>s'. LinearIPLookup_add_route r b s = (None, None, s') \<and> lin_inv s' \<and>
      lin_routes s' = (lin_routes s)(route_key r \<mapsto> route_val r)"
    using add_route_new [of s r b] by (simp add: lin_inv_def lin_routes_def)
qed (rule add_route_old remove_route_hit remove_route_miss; assumption)+

section \<open>Longest prefix\<close>

lemma bit_htonl:
  "bit (htonl x) n \<longleftrightarrow> n < 32 \<and>
     bit x (if n < 8 then n + 24 else if n < 16 then n + 8 else if n < 24 then n - 8 else n - 24)"
proof -
  have m: "(0x00FF0000 :: u32) = push_bit 16 (mask 8)" "(0x0000FF00 :: u32) = push_bit 8 (mask 8)"
    by (simp_all add: mask_eq_exp_minus_1 push_bit_eq_mult)
  show ?thesis
    unfolding htonl_def m by (auto simp: bit_simps add.commute dest: bit_imp_le_length)
qed

lemma htonl_and: "htonl (x AND y) = htonl x AND htonl y"
  by (rule bit_word_eqI) (simp add: bit_htonl bit_and_iff)

lemma make_prefix_specific: "n \<le> m \<Longrightarrow> m \<le> 32 \<Longrightarrow> mask_as_specific (make_prefix m) (make_prefix n)"
proof -
  assume n: "n \<le> m" "m \<le> 32"
  have ones: "(0xFFFFFFFF :: u32) = - 1" by simp
  let ?u = "\<lambda>k. if 0 < k then push_bit (32 - k) (- 1) else 0 :: u32"
  have "?u m AND ?u n = ?u n"
    using n by (intro bit_word_eqI) (auto simp: bit_simps)
  then show ?thesis
    unfolding mask_as_specific_def make_prefix_def ones htonl_and [symmetric] by simp
qed

definition is_prefix :: "u32 \<Rightarrow> bool" where
  "is_prefix m \<longleftrightarrow> m \<in> set (map make_prefix [0..<33])"

lemma prefixes_comparable:
  assumes "is_prefix x" "is_prefix y"
  shows "mask_as_specific x y \<or> mask_as_specific y x"
proof -
  obtain m n where "x = make_prefix m" "m \<le> 32" "y = make_prefix n" "n \<le> 32"
    using assms by (auto simp: is_prefix_def)
  then show ?thesis using make_prefix_specific [of m n] make_prefix_specific [of n m] by (cases "m \<le> n") auto
qed

text \<open>Masks and prefixes bit by bit.\<close>

lemma bit_u32: "bit (x :: u32) n \<Longrightarrow> n < 32"
  using bit_imp_le_length [of x n] by simp

lemma ones32: "(0xFFFFFFFF :: u32) = - 1"
  by simp

lemma is_prefix_32: "is_prefix 0xFFFFFFFF"
proof -
  have "make_prefix 32 = - 1"
    by (rule bit_word_eqI) (auto simp: make_prefix_def bit_htonl ones32 bit_simps)
  then have "- 1 \<in> set (map make_prefix [0..<33])"
    unfolding set_map using imageI [of 32 "set [0..<33]" make_prefix] by simp
  then show ?thesis by (simp add: is_prefix_def ones32)
qed

lemma specific_bits: "mask_as_specific x y \<longleftrightarrow> (\<forall>n. bit y n \<longrightarrow> bit x n)"
  by (auto simp: mask_as_specific_def bit_eq_iff bit_and_iff dest: bit_u32)

lemma matches_bits: "matches_prefix a x y \<longleftrightarrow> (\<forall>n. bit y n \<longrightarrow> bit a n = bit x n)"
  by (auto simp: matches_prefix_def bit_eq_iff bit_and_iff bit_xor_iff dest: bit_u32)

lemma contains_specific:
  assumes "contains_addr r a" "contains_addr s a" "mask_as_specific (rt_mask s) (rt_mask r)"
  shows "contains_route r s"
  using assms by (auto simp: contains_route_def contains_addr_def matches_bits specific_bits)

lemma specific_trans: "mask_as_specific a b \<Longrightarrow> mask_as_specific b c \<Longrightarrow> mask_as_specific a c"
  by (simp add: specific_bits)

lemma dead_key: "table_inv t \<Longrightarrow> j < length t \<Longrightarrow> \<not> real_route (t ! j) \<Longrightarrow> route_key (t ! j) = (0, 0xFFFFFFFF)"
  by (auto simp: table_inv_def)

lemma contains_live:
  assumes "table_inv t" "a \<noteq> 0" "j < length t" "contains_addr (t ! j) a"
  shows "real_route (t ! j)" "0 \<le> rt_port (t ! j)"
proof -
  show "real_route (t ! j)"
    using dead_key [OF assms(1,3)] assms(2,4)
    by (cases "real_route (t ! j)") (auto simp: contains_addr_def matches_prefix_def ones32)
  then show "0 \<le> rt_port (t ! j)" using assms(1,3) by (auto simp: table_inv_def)
qed

text \<open>The scan from index \<open>s\<close> ends at a route as specific as every one it passed.\<close>

lemma lookup_from_best:
  assumes "i < length t" "contains_addr (t ! i) a"
    and cmp: "\<And>j k. j < length t \<Longrightarrow> k < length t \<Longrightarrow> mask_as_specific (rt_mask (t ! j)) (rt_mask (t ! k)) \<or>
      mask_as_specific (rt_mask (t ! k)) (rt_mask (t ! j))"
  shows "lookup_from t a s i < length t \<and> contains_addr (t ! lookup_from t a s i) a \<and>
    mask_as_specific (rt_mask (t ! lookup_from t a s i)) (rt_mask (t ! i)) \<and>
    (\<forall>j. s \<le> j \<and> j < length t \<and> contains_addr (t ! j) a \<longrightarrow>
       mask_as_specific (rt_mask (t ! lookup_from t a s i)) (rt_mask (t ! j)))"
proof -
  let ?f = "\<lambda>j found. if contains_addr (t ! j) a \<and> mask_as_specific (rt_mask (t ! j)) (rt_mask (t ! found)) then j else found"
  have "fold ?f js i < length t \<and> contains_addr (t ! fold ?f js i) a \<and>
      mask_as_specific (rt_mask (t ! fold ?f js i)) (rt_mask (t ! i)) \<and>
      (\<forall>j \<in> set js. contains_addr (t ! j) a \<longrightarrow> mask_as_specific (rt_mask (t ! fold ?f js i)) (rt_mask (t ! j)))"
    if "set js \<subseteq> {..<length t}" "i < length t" "contains_addr (t ! i) a" for js i
    using that
  proof (induction js arbitrary: i)
    case (Cons j js)
    define i' where "i' = ?f j i"
    have i': "i' < length t" "contains_addr (t ! i') a" "mask_as_specific (rt_mask (t ! i')) (rt_mask (t ! i))"
        "contains_addr (t ! j) a \<Longrightarrow> mask_as_specific (rt_mask (t ! i')) (rt_mask (t ! j))"
      using Cons.prems cmp [of i j] by (auto simp: i'_def specific_bits)
    have "fold ?f (j # js) i = fold ?f js i'" by (simp add: i'_def)
    then show ?case using Cons.IH [OF _ i'(1,2)] Cons.prems(1) i'(3,4) specific_trans by auto
  qed (simp add: specific_bits)
  from this [of "[s..<length t]" i] show ?thesis
    using assms(1,2) by (simp add: lookup_from_def subset_eq)
qed

lemma lookup_entry_best:
  assumes inv: "table_inv t" and prefixes: "\<And>r. r \<in> set t \<Longrightarrow> real_route r \<Longrightarrow> is_prefix (rt_mask r)" and a: "a \<noteq> 0"
  shows "case lookup_entry t a of
      None \<Rightarrow> \<forall>j < length t. \<not> contains_addr (t ! j) a
    | Some e \<Rightarrow> e < length t \<and> real_route (t ! e) \<and> contains_addr (t ! e) a \<and>
        (\<forall>j < length t. contains_addr (t ! j) a \<longrightarrow> mask_as_specific (rt_mask (t ! e)) (rt_mask (t ! j)))"
proof (cases "find (\<lambda>i. contains_addr (t ! i) a) [0..<length t]")
  case None
  then have "\<forall>j < length t. \<not> contains_addr (t ! j) a" unfolding find_upt_None by simp
  then show ?thesis using None by (simp add: lookup_entry_def)
next
  case (Some i)
  then have i: "i < length t" "contains_addr (t ! i) a" "\<And>j. j < i \<Longrightarrow> \<not> contains_addr (t ! j) a"
    unfolding find_upt_Some by auto
  note live = contains_live(1) [OF inv a]
  have "is_prefix (rt_mask (t ! j))" if "j < length t" for j
    using prefixes [of "t ! j"] dead_key [OF inv that] that is_prefix_32 by (cases "real_route (t ! j)") auto
  then have cmp: "mask_as_specific (rt_mask (t ! j)) (rt_mask (t ! k)) \<or> mask_as_specific (rt_mask (t ! k)) (rt_mask (t ! j))"
    if "j < length t" "k < length t" for j k using prefixes_comparable that by blast
  define e where "e = lookup_from t a (rt_extra (t ! i)) i"
  note best = lookup_from_best [OF i(1,2) cmp, of "rt_extra (t ! i)", folded e_def]
  have "mask_as_specific (rt_mask (t ! e)) (rt_mask (t ! j))" if j: "j < length t" "contains_addr (t ! j) a" for j
  proof -
    consider "j = i" | "i < j" "j < rt_extra (t ! i)" | "rt_extra (t ! i) \<le> j"
      using i(3) [of j] j(2) by (metis leI nat_neq_iff)
    then show ?thesis
    proof cases
      case 2
      have "\<not> contains_route (t ! i) (t ! j)"
        using inv [unfolded table_inv_def next_ok_def, THEN conjunct1, rule_format, of i j] i(1) j(1)
          live [OF i(1,2)] live [OF j] 2 by blast
      then have "\<not> mask_as_specific (rt_mask (t ! j)) (rt_mask (t ! i))"
        using contains_specific [OF i(2) j(2)] by blast
      then show ?thesis using cmp [OF i(1) j(1)] best specific_trans by blast
    qed (use best j in auto)
  qed
  then show ?thesis using Some best live by (simp add: lookup_entry_def e_def [symmetric])
qed

text \<open>Whatever the masks, a lookup returns a route that contains the address.\<close>

lemma lookup_entry_contains:
  assumes "lookup_entry t a = Some e"
  shows "e < length t \<and> contains_addr (t ! e) a"
proof -
  obtain i where i: "find (\<lambda>i. contains_addr (t ! i) a) [0..<length t] = Some i" "e = lookup_from t a (rt_extra (t ! i)) i"
    using assms by (auto simp: lookup_entry_def split: option.splits)
  have "fold (\<lambda>j found. if contains_addr (t ! j) a \<and> mask_as_specific (rt_mask (t ! j)) (rt_mask (t ! found)) then j else found) js i
      \<in> {k. k < length t \<and> contains_addr (t ! k) a}"
    if "set js \<subseteq> {..<length t}" "i < length t" "contains_addr (t ! i) a" for js i
    using that by (induction js arbitrary: i) auto
  from this [of "[rt_extra (t ! i)..<length t]" i] show ?thesis
    using i by (auto simp: lookup_from_def find_upt_Some subset_eq)
qed

section \<open>Reachable tables\<close>

inductive lin_reaches :: "LinearIPLookup \<Rightarrow> bool" where
  start: "lin_reaches LinearIPLookup_new"
| init: "lin_reaches l \<Longrightarrow> lin_reaches (LinearIPLookup_initialize l)"
| add: "lin_reaches l \<Longrightarrow> 0 \<le> rt_port r \<Longrightarrow> LinearIPLookup_add_route r b l = (e, stored, l') \<Longrightarrow> lin_reaches l'"
| remove: "lin_reaches l \<Longrightarrow> LinearIPLookup_remove_route r l = Inr (e, stored, l') \<Longrightarrow> lin_reaches l'"
| push: "lin_reaches l \<Longrightarrow> LinearIPLookup_push n l p = Inr (l', as) \<Longrightarrow> lin_reaches l'"

lemma push_inv:
  assumes "lin_inv l" "LinearIPLookup_push n l p = Inr (l', as)"
  shows "lin_inv l'"
  using assms
  by (auto simp: LinearIPLookup_push_def Let_def bind_res_Inr lin_inv_def caches_ok_def split: if_splits option.splits)

lemma add_inv: "lin_inv l \<Longrightarrow> 0 \<le> rt_port r \<Longrightarrow> LinearIPLookup_add_route r b l = (e, stored, l') \<Longrightarrow> lin_inv l'"
  using lin.add_new [of l r b] lin.add_old [of l r _ b] by (cases "lin_routes l (route_key r)") fastforce+

lemma remove_total: "lin_inv l \<Longrightarrow> \<exists>e stored l'. LinearIPLookup_remove_route r l = Inr (e, stored, l') \<and> lin_inv l'"
  using lin.rem_hit [of l r] lin.rem_miss [of l r] by blast

lemma reaches_inv: "lin_reaches l \<Longrightarrow> lin_inv l"
proof (induction rule: lin_reaches.induct)
  case start
  show ?case
    by (simp add: LinearIPLookup_new_def lin_inv_def table_inv_def next_ok_def no_duplicates_def caches_ok_def zero_ok_def zero_at_def)
next
  case (init l)
  then show ?case by (simp add: LinearIPLookup_initialize_def lin_inv_def caches_ok_def)
next
  case (add l r b e stored l') then show ?case by (blast intro: add_inv)
next
  case (remove l r e stored l') then show ?case using remove_total [of l r] by auto
next
  case (push l n p l' as) then show ?case by (blast intro: push_inv)
qed

lemma lin_routes_iff: "lin_inv l \<Longrightarrow> lin_routes l k = Some v \<longleftrightarrow> (\<exists>i. entry (li_t l) i k v)"
  by (simp add: lin_routes_def table_routes_iff lin_inv_def table_inv_def)

section \<open>Properties\<close>

text \<open>(C25) Whatever sequence of additions, replacements, removals and forwarded packets, the table passes
  its own check (next pointers, no duplicate route, caches) and removing a route never fails the
  assertion on the route for 0.0.0.0/32.\<close>

theorem linear_table_consistent:
  assumes "lin_reaches l"
  shows "LinearIPLookup_check l \<and> (\<exists>x. LinearIPLookup_remove_route r l = Inr x)"
  using reaches_inv [OF assms] remove_total [of l r]
  by (auto simp: LinearIPLookup_check_def lin_inv_def table_inv_def)

text \<open>(C24) The scan with next pointers is longest-prefix match: for a destination other than 0.0.0.0, and
  routes whose masks are prefixes, the lookup gives the gateway and port of a route that contains
  the destination and is at least as specific as every other one, and fails only without one.\<close>

theorem lookup_longest_prefix:
  assumes "lin_reaches l" "a \<noteq> 0" "\<forall>k v. lin_routes l k = Some v \<longrightarrow> is_prefix (snd k)"
  shows "case LinearIPLookup_lookup_route l a of
      None \<Rightarrow> \<forall>k v. lin_routes l k = Some v \<longrightarrow> \<not> matches_prefix a (fst k) (snd k)
    | Some (port, gw) \<Rightarrow> \<exists>k. lin_routes l k = Some (gw, port) \<and> matches_prefix a (fst k) (snd k) \<and>
        (\<forall>k' v. lin_routes l k' = Some v \<and> matches_prefix a (fst k') (snd k') \<longrightarrow> mask_as_specific (snd k) (snd k'))"
proof -
  let ?t = "li_t l"
  have inv: "lin_inv l" "table_inv ?t" using reaches_inv [OF assms(1)] by (simp_all add: lin_inv_def)
  have "is_prefix (rt_mask r)" if "r \<in> set ?t" "real_route r" for r
    using that assms(3) [rule_format, of "route_key r" "route_val r"] lin_routes_iff [OF inv(1)]
    by (auto simp: in_set_conv_nth entry_def)
  note best = lookup_entry_best [OF inv(2) this assms(2)]
  have live: "(\<exists>i < length ?t. route_key (?t ! i) = k \<and> contains_addr (?t ! i) a)"
    if "lin_routes l k = Some v" "matches_prefix a (fst k) (snd k)" for k v
    using that lin_routes_iff [OF inv(1)] by (auto simp: entry_def contains_addr_def)
  show ?thesis
  proof (cases "lookup_entry ?t a")
    case None
    then show ?thesis using best live by (fastforce simp: LinearIPLookup_lookup_route_def)
  next
    case (Some e)
    then have e: "e < length ?t" "real_route (?t ! e)" "contains_addr (?t ! e) a"
        "\<And>j. j < length ?t \<Longrightarrow> contains_addr (?t ! j) a \<Longrightarrow> mask_as_specific (rt_mask (?t ! e)) (rt_mask (?t ! j))"
      using best by auto
    have "lin_routes l (route_key (?t ! e)) = Some (route_val (?t ! e))"
      using e(1,2) lin_routes_iff [OF inv(1)] by (auto simp: entry_def)
    moreover have "mask_as_specific (rt_mask (?t ! e)) (snd k')"
      if "lin_routes l k' = Some v" "matches_prefix a (fst k') (snd k')" for k' v
      using live [OF that] e(4) by force
    ultimately show ?thesis
      using Some e(3)
      by (auto simp: LinearIPLookup_lookup_route_def contains_addr_def simp del: split_paired_Ex split_paired_All
          intro!: exI [of _ "route_key (?t ! e)"])
  qed
qed

definition default_route :: IPRoute where
  "default_route = \<lparr>rt_addr = 0, rt_mask = 0, rt_gw = 9, rt_port = 2, rt_extra = 0x7FFFFFFF\<rparr>"

definition default_table :: LinearIPLookup where
  "default_table = LinearIPLookup_new\<lparr>li_t := [default_route]\<rparr>"

lemma default_reaches: "lin_reaches default_table"
proof (rule lin_reaches.add [OF lin_reaches.start])
  show "LinearIPLookup_add_route default_route False LinearIPLookup_new = (None, None, default_table)"
    by (simp add: LinearIPLookup_add_route_def LinearIPLookup_new_def default_table_def default_route_def patch_next_def
        forget_caches_def Let_def)
qed (simp add: default_route_def)

lemma default_routes: "lin_routes default_table k = (if k = (0, 0) then Some (9, 2) else None)"
  by (auto simp: lin_routes_def table_routes_def default_table_def default_route_def real_route_def)

theorem lookup_longest_prefix_witness: "LinearIPLookup_lookup_route default_table 5 = Some (2, 9)"
proof -
  have p: "is_prefix (0 :: u32)" unfolding is_prefix_def
    using imageI [of 0 "set [0..<33]" make_prefix] by (simp add: make_prefix_def htonl_def)
  have "\<forall>k v. lin_routes default_table k = Some v \<longrightarrow> is_prefix (snd k)"
    using p by (auto simp: default_routes split: if_splits)
  from lookup_longest_prefix [OF default_reaches _ this, of 5]
  have "case LinearIPLookup_lookup_route default_table 5 of
      None \<Rightarrow> \<forall>k v. lin_routes default_table k = Some v \<longrightarrow> \<not> matches_prefix 5 (fst k) (snd k)
    | Some (port, gw) \<Rightarrow> \<exists>k. lin_routes default_table k = Some (gw, port)"
    by (auto split: option.splits)
  then show ?thesis
    by (auto simp: default_routes matches_prefix_def split: option.splits if_splits)
qed

text \<open>(C27) Forwarding through the two caches does what the plain lookup of IPRouteTable does, for every
  destination but 0.0.0.0: same output, same gateway annotation, same drop.\<close>

theorem cached_push_equals_lookup:
  assumes "lin_reaches l" "pk_dst_ip p \<noteq> 0"
  shows "bind_res (LinearIPLookup_push n l p) (\<lambda>(l', as). Inr as) =
    IPRouteTable_push (LinearIPLookup_lookup_route l) n p"
proof -
  have inv: "table_inv (li_t l)" "caches_ok l" using reaches_inv [OF assms(1)] by (simp_all add: lin_inv_def)
  have port: "0 \<le> rt_port (li_t l ! e)" if "lookup_entry (li_t l) (pk_dst_ip p) = Some e" for e
    using lookup_entry_contains [OF that] contains_live(2) [OF inv(1) assms(2)] by blast
  have ret: "bind_res (bind_res x (\<lambda>as. Inr (l', as))) (\<lambda>(l', as). Inr as) = x" for x :: "action list res" and l' :: LinearIPLookup
    by (cases x) auto
  show ?thesis
    using port inv(2) assms(2)
    by (auto simp: LinearIPLookup_push_def IPRouteTable_push_def LinearIPLookup_lookup_route_def Let_def caches_ok_def ret
        split: option.splits)
qed

theorem cached_push_equals_lookup_witness:
  "bind_res (LinearIPLookup_push 3 default_table (set_dst_ip_anno 5 (fresh_packet [] [] 0))) (\<lambda>(l', as). Inr as) =
     IPRouteTable_push (LinearIPLookup_lookup_route default_table) 3 (set_dst_ip_anno 5 (fresh_packet [] [] 0))"
  by (rule cached_push_equals_lookup [OF default_reaches]) (simp add: set_dst_ip_anno_def)


definition ten_route :: IPRoute where
  "ten_route = \<lparr>rt_addr = 10, rt_mask = 0xFF, rt_gw = 0, rt_port = 1, rt_extra = 0\<rparr>"

definition sample_parsers :: parsers where
  "sample_parsers = \<lparr>parse_prefix = (\<lambda>w. if w = ''0/0'' then Some (0, 0) else if w = ''10/8'' then Some (10, 0xFF) else None),
     parse_addr = (\<lambda>_. None), parse_int = (\<lambda>w. if w = ''1'' then Some 1 else None)\<rparr>"


lemma ctrl_loop_returns:
  assumes "ctrl_loop add rem ps n conf old s = Some y"
  shows "conf = [] \<or> fst (cp_shift_spacevec (first_line conf)) \<noteq> []"
proof (rule ctrl_loop.raw_induct
    [where P = "\<lambda>add rem ps n conf old s y. conf = [] \<or> fst (cp_shift_spacevec (first_line conf)) \<noteq> []", OF _ assms], goal_cases)
  case (1 cl add rem ps n conf old s y)
  show ?case
  proof (rule ccontr)
    assume blank: "\<not> (conf = [] \<or> fst (cp_shift_spacevec (first_line conf)) \<noteq> [])"
    then have "cl add rem ps n conf old s = Some y"
      using 1(2) by (auto simp: Let_def command_of_def split: prod.splits)
    then show False using 1(1) blank by blast
  qed
qed

text \<open>The text up to a line that was accepted, followed by more lines.\<close>

lemma first_line_append:
  assumes "pre \<noteq> []" "last pre \<noteq> newline"
  shows "first_line (pre @ newline # rest) = first_line pre"
    and "next_line (pre @ newline # rest) = (if next_line pre = [] then rest else next_line pre @ newline # rest)"
    and "next_line pre \<noteq> [] \<Longrightarrow> last (next_line pre) \<noteq> newline"
proof -
  show first: "first_line (pre @ newline # rest) = first_line pre"
    by (induction pre) (auto simp: first_line_def)
  have dw: "drop (length (first_line pre)) pre = dropWhile (\<lambda>c. c \<noteq> newline) pre"
    by (simp add: first_line_def dropWhile_eq_drop)
  show "next_line (pre @ newline # rest) = (if next_line pre = [] then rest else next_line pre @ newline # rest)"
  proof (cases "newline \<in> set pre")
    case True
    then obtain xs ys where pre: "pre = xs @ newline # ys" "newline \<notin> set xs" by (metis split_list_first)
    have "ys \<noteq> []" using assms(2) pre(1) by auto
    moreover have "takeWhile (\<lambda>c. c \<noteq> newline) (xs @ newline # ys) = xs" using pre(2) by (subst takeWhile_append2) auto
    then have "first_line pre = xs" using pre(1) by (simp add: first_line_def)
    ultimately show ?thesis using pre(1) first by (simp add: next_line_def)
  next
    case False
    then have "first_line pre = pre" by (auto simp: first_line_def takeWhile_eq_all_conv)
    then show ?thesis by (simp add: next_line_def first)
  qed
  show "next_line pre \<noteq> [] \<Longrightarrow> last (next_line pre) \<noteq> newline" using assms(2) by (simp add: next_line_def last_drop)
qed

lemma ctrl_loop_continues:
  assumes "pre \<noteq> []" "last pre \<noteq> newline" "ctrl_loop add rem ps n pre old s = Some (Inr (None, s'))"
  shows "\<exists>old'. ctrl_loop add rem ps n (pre @ newline # rest) old s = ctrl_loop add rem ps n rest old' s'"
  using assms
proof (induction pre arbitrary: old s rule: ctrl_lines.induct)
  case (1 pre)
  note fl = first_line_append(1,2) [OF 1(2,3), of rest] first_line_append(3) [OF 1(2,3)]
  obtain w str where w: "cp_shift_spacevec (first_line pre) = (w, str)" by fastforce
  have "w \<noteq> []" using ctrl_loop_returns [OF 1(4)] 1(2) w by simp
  then obtain cmd where cmd: "command_of w = Some cmd"
    using 1(2,4) w by (cases "command_of w") (auto simp: ctrl_loop.simps [of _ _ _ _ pre] bind_res_def split: sum.splits)
  then obtain old1 s1 where run: "run_command add rem ps n cmd str (Some old) s = Inr (None, old1, s1)"
      "ctrl_loop add rem ps n (next_line pre) (case old1 of Some os \<Rightarrow> os | None \<Rightarrow> []) s1 = Some (Inr (None, s'))"
    using 1(2,4) w by (auto simp: ctrl_loop.simps [of _ _ _ _ pre] bind_res_def split: sum.splits option.splits prod.splits)
  have step: "ctrl_loop add rem ps n (pre @ newline # rest) old s =
      ctrl_loop add rem ps n (next_line (pre @ newline # rest)) (case old1 of Some os \<Rightarrow> os | None \<Rightarrow> []) s1"
    using w cmd run(1) fl(1) by (subst ctrl_loop.simps) simp
  show ?case
  proof (cases "next_line pre = []")
    case True
    then have "s1 = s'" using run(2) by (simp add: ctrl_loop.simps)
    then show ?thesis using step fl(2) True by auto
  next
    case False
    then show ?thesis using 1(1) [OF 1(2) False fl(3) [OF False] run(2)] step fl(2) by simp
  qed
qed

text \<open>(C28) A blank line inside a transaction is never passed: when the lines before it have been accepted and the line
  that follows them holds no word, the handler does not return, whatever the table.\<close>

theorem ctrl_blank_line_hangs:
  assumes "cp_uncomment conf = pre @ newline # rest" "pre \<noteq> []" "last pre \<noteq> newline" "rest \<noteq> []"
    "ctrl_loop add rem ps n pre [] s = Some (Inr (None, s'))" "fst (cp_shift_spacevec (first_line rest)) = []"
  shows "ctrl_handler add rem ps n conf s = None"
proof -
  obtain old where "ctrl_handler add rem ps n conf s = ctrl_loop add rem ps n rest old s'"
    using ctrl_loop_continues [OF assms(2,3,5), of rest] assms(1) by (auto simp: ctrl_handler_def)
  then show ?thesis using ctrl_loop_returns [of add rem ps n rest old s'] assms(4,6) by fastforce
qed

definition two_table :: LinearIPLookup where
  "two_table = default_table\<lparr>li_t := [default_route\<lparr>rt_extra := 1\<rparr>, ten_route\<lparr>rt_extra := 0x7FFFFFFF\<rparr>]\<rparr>"

definition removed_table :: LinearIPLookup where
  "removed_table = default_table\<lparr>li_t := [default_route\<lparr>rt_extra := 1\<rparr>, kill_route (ten_route\<lparr>rt_extra := 0x7FFFFFFF\<rparr>)]\<rparr>"

lemmas table_evals = default_table_def default_route_def ten_route_def LinearIPLookup_new_def real_route_def
  contains_route_def matches_prefix_def mask_as_specific_def kill_route_def contains_addr_def upt_rec

lemma add_ten_route: "LinearIPLookup_add_route ten_route False default_table = (None, None, two_table)"
  by (simp add: LinearIPLookup_add_route_def two_table_def patch_next_def forget_caches_def Let_def table_evals)

text \<open>Adding a route, a blank line, and another command.\<close>

theorem ctrl_blank_line_hangs_witness:
  "ctrl_handler LinearIPLookup_add_route LinearIPLookup_remove_route sample_parsers 3
     (''add 10/8 1'' @ [newline, newline] @ ''remove 0/0'') default_table = None"
proof (rule ctrl_blank_line_hangs)
  show "cp_uncomment (''add 10/8 1'' @ [newline, newline] @ ''remove 0/0'') = ''add 10/8 1'' @ newline # (newline # ''remove 0/0'')"
    by code_simp
  have "cp_shift_spacevec (first_line ''add 10/8 1'') = (''add'', ''10/8 1'')" "next_line ''add 10/8 1'' = []" by code_simp+
  moreover have "cp_ip_route sample_parsers ''10/8 1'' False = Some ten_route" by code_simp
  then have "run_command LinearIPLookup_add_route LinearIPLookup_remove_route sample_parsers 3 CMD_ADD ''10/8 1'' (Some []) default_table
      = Inr (None, Some [ten_route], two_table)"
    by (simp add: run_command_def add_ten_route log_old_def IPRoute_new_def) (simp add: ten_route_def)
  moreover have "command_of ''add'' = Some CMD_ADD" by (simp add: command_of_def)
  ultimately show "ctrl_loop LinearIPLookup_add_route LinearIPLookup_remove_route sample_parsers 3 ''add 10/8 1'' [] default_table
      = Some (Inr (None, two_table))"
    by (subst ctrl_loop.simps) (simp add: ctrl_loop.simps [of _ _ _ _ "[]"])
  show "fst (cp_shift_spacevec (first_line (newline # ''remove 0/0''))) = []" by code_simp
qed simp_all

lemma removed_reaches: "lin_reaches removed_table"
proof -
  have "lin_reaches two_table"
    using lin_reaches.add [OF default_reaches _ add_ten_route] by (simp add: ten_route_def)
  moreover have "LinearIPLookup_remove_route ten_route two_table =
      Inr (None, Some (ten_route\<lparr>rt_extra := 0x7FFFFFFF\<rparr>), removed_table)"
    by (simp add: LinearIPLookup_remove_route_def two_table_def removed_table_def move_zero_def match_route_def
        forget_caches_def Let_def table_evals)
  ultimately show ?thesis using lin_reaches.remove by blast
qed

theorem linear_table_consistent_witness:
  "LinearIPLookup_check removed_table \<and> (\<exists>x. LinearIPLookup_remove_route default_route removed_table = Inr x)"
  using linear_table_consistent [OF removed_reaches] .

text \<open>After a removal the slot of the removed route still matches 0.0.0.0 with the longest mask: with a
  default route in the table, a packet to 0.0.0.0 is sent to the port of the removed route, which
  fails the assertion on the port number.\<close>

theorem removed_route_catches_zero:
  "\<exists>l p. lin_reaches l \<and> lin_routes l (0, 0) = Some (9, 2) \<and> LinearIPLookup_push 3 l p = Inl AssertFail"
proof (intro exI conjI)
  show "lin_reaches removed_table" by (rule removed_reaches)
  show "lin_routes removed_table (0, 0) = Some (9, 2)"
    by (simp add: lin_routes_def table_routes_def removed_table_def table_evals)
  show "LinearIPLookup_push 3 removed_table (set_dst_ip_anno 0 (fresh_packet [] [] 0)) = Inl AssertFail"
    by (simp add: LinearIPLookup_push_def lookup_entry_def lookup_from_def removed_table_def output_push_def
        set_dst_ip_anno_def Let_def table_evals)
qed

end
