(* ===== verification/IPPath.thy ===== *)
theory IPPath
  imports Elements ForeignAgent Discovery
begin

text \<open>
  The IP path of the configurations: CheckIPHeader, CheckICMPHeader, DecIPTTL, FixIPSrc and
  IPGWOptions.  They find the IP header through the network-header pointer, an offset into the
  whole buffer (headroom and data).  Counters are 32-bit; chatter and read handlers are left out.
\<close>

section \<open>The buffer behind the header pointers\<close>

definition pk_buffer :: "packet \<Rightarrow> bytes" where
  "pk_buffer p = pk_head p @ pk_data p"

definition set_buffer :: "bytes \<Rightarrow> packet \<Rightarrow> packet" where
  "set_buffer b p = p\<lparr>pk_head := take (pk_headroom p) b, pk_data := drop (pk_headroom p) b\<rparr>"

definition is_multicast :: "u32 \<Rightarrow> bool" where
  "is_multicast a \<longleftrightarrow> a AND htonl 0xF0000000 = htonl 0xE0000000"

section \<open>CheckIPHeader\<close>

datatype ip_reason = MINISCULE_PACKET | BAD_VERSION | BAD_HLEN | BAD_IP_LEN | BAD_CHECKSUM | BAD_SADDR

record CheckIPHeader =
  ch_bad_src :: "u32 list"
  ch_good_dst :: "u32 list"
  ch_offset :: nat
  ch_checksum :: bool
  ch_drops :: u32
  ch_reason_drops :: "(ip_reason \<Rightarrow> u32) option"

definition CheckIPHeader_drop ::
  "nat \<Rightarrow> CheckIPHeader \<Rightarrow> ip_reason \<Rightarrow> packet \<Rightarrow> CheckIPHeader \<times> simple_result" where
  "CheckIPHeader_drop noutputs c reason p =
     (c\<lparr>ch_drops := ch_drops c + 1,
        ch_reason_drops := map_option (\<lambda>r. r(reason := r reason + 1)) (ch_reason_drops c)\<rparr>,
      None, if noutputs = 2 then [Emit 1 p] else [Kill p])"

definition CheckIPHeader_simple_action ::
  "nat \<Rightarrow> CheckIPHeader \<Rightarrow> packet \<Rightarrow> CheckIPHeader \<times> simple_result" where
  "CheckIPHeader_simple_action noutputs c p =
     (let b = pk_data p; h = ch_offset c; plen = pk_length p - h in
      if pk_length p < h + sizeof_ip then CheckIPHeader_drop noutputs c MINISCULE_PACKET p
      else if ip_v b h \<noteq> 4 then CheckIPHeader_drop noutputs c BAD_VERSION p
      else let hlen = 4 * unat (ip_hl b h) in
        if hlen < sizeof_ip then CheckIPHeader_drop noutputs c BAD_HLEN p
        else let len = unat (ntohs (ip_len b h)) in
          if plen < len \<or> len < hlen then CheckIPHeader_drop noutputs c BAD_IP_LEN p
          else if ch_checksum c \<and> click_in_cksum (take hlen (drop h b)) \<noteq> 0
            then CheckIPHeader_drop noutputs c BAD_CHECKSUM p
          else if ip_src b h \<in> set (ch_bad_src c) \<and> ip_dst b h \<notin> set (ch_good_dst c)
            then CheckIPHeader_drop noutputs c BAD_SADDR p
          else let p1 = set_network_header h hlen p;
                   p2 = (if len < plen then packet_take (plen - len) p1 else p1)
            in (c, Some (set_dst_ip_anno (ip_dst b h) p2), []))"

section \<open>CheckICMPHeader\<close>

datatype icmp_reason = NOT_ICMP | BAD_LENGTH | BAD_ICMP_CHECKSUM

record CheckICMPHeader =
  ci_drops :: u32
  ci_reason_drops :: "(icmp_reason \<Rightarrow> u32) option"

definition CheckICMPHeader_drop ::
  "nat \<Rightarrow> CheckICMPHeader \<Rightarrow> icmp_reason \<Rightarrow> packet \<Rightarrow> CheckICMPHeader \<times> simple_result" where
  "CheckICMPHeader_drop noutputs c reason p =
     (c\<lparr>ci_drops := ci_drops c + 1,
        ci_reason_drops := map_option (\<lambda>r. r(reason := r reason + 1)) (ci_reason_drops c)\<rparr>,
      None, if noutputs = 2 then [Emit 1 p] else [Kill p])"

text \<open>The length test by ICMP type: unreachable, source quench, redirect, time exceeded and parameter
  problem carry 28 more bytes, timestamps have 20 bytes, information requests 8.\<close>

definition icmp_length_ok :: "u8 \<Rightarrow> nat \<Rightarrow> bool" where
  "icmp_length_ok type icmp_len =
     (if type = 3 \<or> type = 11 \<or> type = 12 \<or> type = 4 \<or> type = 5 then 8 + 28 \<le> icmp_len
      else if type = 13 \<or> type = 14 then icmp_len = 20
      else if type = 15 \<or> type = 16 then icmp_len = 8
      else True)"

text \<open>\<^verbatim>\<open>length() - transport_header_offset()\<close> wraps when the transport header lies past the end.\<close>

definition CheckICMPHeader_simple_action ::
  "nat \<Rightarrow> CheckICMPHeader \<Rightarrow> packet \<Rightarrow> (CheckICMPHeader \<times> simple_result) res" where
  "CheckICMPHeader_simple_action noutputs c p =
     (case (pk_nh p, pk_h p) of
        (Some n, Some t) \<Rightarrow>
          let b = pk_buffer p in
          guard (n + 20 \<le> length b) OutOfBounds
            (if ip_p b n \<noteq> IP_PROTO_ICMP then Inr (CheckICMPHeader_drop noutputs c NOT_ICMP p)
             else guard (t \<le> length b) OutOfBounds
               (let icmp_len = length b - t in
                if icmp_len < 8 then Inr (CheckICMPHeader_drop noutputs c BAD_LENGTH p)
                else if \<not> icmp_length_ok (b ! t) icmp_len
                  then Inr (CheckICMPHeader_drop noutputs c BAD_LENGTH p)
                else if click_in_cksum (take icmp_len (drop t b)) \<noteq> 0
                  then Inr (CheckICMPHeader_drop noutputs c BAD_ICMP_CHECKSUM p)
                else Inr (c, Some p, [])))
      | _ \<Rightarrow> Inr (CheckICMPHeader_drop noutputs c NOT_ICMP p))"

section \<open>DecIPTTL\<close>

record DecIPTTL =
  dt_drops :: u32
  dt_active :: bool
  dt_multicast :: bool

text \<open>The incremental update; the sum is an \<^verbatim>\<open>unsigned long\<close>, the conversion back to 16 bits is
  the one of \<^verbatim>\<open>htons\<close>.\<close>

definition dec_sum :: "u16 \<Rightarrow> u16" where
  "dec_sum c = (let s = (ucast (NOT (ntohs c)) AND 0xFFFF) + 0xFEFF :: u32
     in NOT (htons (ucast (s + drop_bit 16 s))))"

definition DecIPTTL_simple_action ::
  "environ \<Rightarrow> nat \<Rightarrow> DecIPTTL \<Rightarrow> packet \<Rightarrow> (DecIPTTL \<times> simple_result) res" where
  "DecIPTTL_simple_action env noutputs s p =
     (case pk_nh p of
        None \<Rightarrow> Inl AssertFail
      | Some n \<Rightarrow>
          if \<not> dt_active s then Inr (s, Some p, [])
          else let b = pk_buffer p in
            guard (n + 20 \<le> length b) OutOfBounds
              (if \<not> dt_multicast s \<and> is_multicast (ip_dst b n) then Inr (s, Some p, [])
               else if ip_ttl b n \<le> 1
                 then Inr (s\<lparr>dt_drops := dt_drops s + 1\<rparr>, None, checked_output_push noutputs 1 p)
               else case uniqueify env p of
                   None \<Rightarrow> Inr (s, None, [])
                 | Some q \<Rightarrow>
                     let b1 = set_ip_ttl (pk_buffer q) n (ip_ttl b n - 1);
                         b2 = set_ip_sum b1 n (dec_sum (ip_sum b1 n))
                     in Inr (s, Some (set_buffer b2 q), [])))"

section \<open>FixIPSrc\<close>

definition fix_it :: "environ \<Rightarrow> u32 \<Rightarrow> nat \<Rightarrow> packet \<Rightarrow> packet res" where
  "fix_it env my_ip n p_in =
     (case uniqueify env p_in of
        None \<Rightarrow> Inl NullDeref
      | Some p \<Rightarrow>
          guard (n + 4 * unat (ip_hl (pk_buffer p) n) \<le> length (pk_buffer p) \<and> n + 20 \<le> length (pk_buffer p)) OutOfBounds
            (let p1 = p\<lparr>pk_fix_ip_src := 0\<rparr>;
                 b1 = set_ip_src (pk_buffer p1) n my_ip;
                 hlen = 4 * unat (ip_hl b1 n);
                 b2 = set_ip_sum b1 n 0;
                 b3 = set_ip_sum b2 n (click_in_cksum (take hlen (drop n b2)))
             in Inr (set_buffer b3 p1)))"

definition FixIPSrc_simple_action :: "environ \<Rightarrow> u32 \<Rightarrow> packet \<Rightarrow> simple_result res" where
  "FixIPSrc_simple_action env my_ip p =
     (if pk_fix_ip_src p \<noteq> 0
      then case pk_nh p of
          Some n \<Rightarrow> bind_res (fix_it env my_ip n p) (\<lambda>q. Inr (Some q, []))
        | None \<Rightarrow> Inr (Some p, [])
      else Inr (Some p, []))"

section \<open>IPGWOptions\<close>

record IPGWOptions =
  gw_drops :: u32
  gw_preferred_addr :: u32
  gw_my_addrs :: "u32 list"

datatype gw_outcome = GwDone bytes bool | GwError nat bytes bool | GwNoMemory

text \<open>
  One option that the gateway processes, at index \<open>oi\<close> of the header at \<open>n\<close>: the changed buffer,
  or the index for the parameter problem.  \<open>ms\<close> is the time stamp in network order.
\<close>

definition gw_record_route :: "u32 \<Rightarrow> nat \<Rightarrow> nat \<Rightarrow> nat \<Rightarrow> bytes \<Rightarrow> nat + bytes" where
  "gw_record_route pref n oi xlen b =
     (let ptr = int (unat (b ! (n + oi + 2))) - 1 in
      if 3 \<le> ptr \<and> ptr + 4 \<le> int xlen
      then let b1 = put32 b (n + oi + nat ptr) pref
           in Inr (put8 b1 (n + oi + 2) (get8 b1 (n + oi + 2) + 4))
      else if ptr \<noteq> int xlen then Inl (oi + 2)
      else Inr b)"

definition gw_overflow :: "nat \<Rightarrow> nat \<Rightarrow> bytes \<Rightarrow> nat + bytes" where
  "gw_overflow n oi b =
     (let oflw = drop_bit 4 (b ! (n + oi + 3)); flg = b ! (n + oi + 3) AND 0x0F in
      if oflw < 15 then Inr (put8 b (n + oi + 3) (push_bit 4 (oflw + 1) OR flg))
      else Inl (oi + 3))"

definition gw_timestamp ::
  "u32 \<Rightarrow> u32 list \<Rightarrow> u32 \<Rightarrow> nat \<Rightarrow> nat \<Rightarrow> nat \<Rightarrow> bytes \<Rightarrow> nat + bytes" where
  "gw_timestamp pref mine ms n oi xlen b =
     (let ptr = int (unat (b ! (n + oi + 2))) - 1;
          flg = b ! (n + oi + 3) AND 0x0F;
          bump = (\<lambda>c k. put8 c (n + oi + 2) (get8 c (n + oi + 2) + k)) in
      if ptr < 4 then Inl (oi + 2)
      else if flg = 0
        then if ptr + 4 \<le> int xlen then Inr (bump (put32 b (n + oi + nat ptr) ms) 4)
             else gw_overflow n oi b
      else if flg = 1
        then if ptr + 8 \<le> int xlen
             then Inr (bump (put32 (put32 b (n + oi + nat ptr) pref) (n + oi + nat ptr + 4) ms) 8)
             else gw_overflow n oi b
      else if flg = 3 \<and> ptr + 8 \<le> int xlen
        then if get32 b (n + oi + nat ptr) \<in> set mine
             then Inr (bump (put32 b (n + oi + nat ptr + 4) ms) 8)
             else Inr b
      else Inl (oi + 3))"

text \<open>The walk over the options; \<open>can\<close> says whether the packet can be made writable, \<open>w\<close> whether it
  has been.\<close>

function gw_loop ::
  "bool \<Rightarrow> u32 \<Rightarrow> u32 list \<Rightarrow> u32 \<Rightarrow> nat \<Rightarrow> nat \<Rightarrow> bytes \<Rightarrow> nat \<Rightarrow> bool \<Rightarrow> gw_outcome res" where
  "gw_loop can pref mine ms n hlen b oi w =
     (if oi < hlen then
        guard (n + oi < length b) OutOfBounds
          (let type = b ! (n + oi) in
           if type = IPOPT_NOP then gw_loop can pref mine ms n hlen b (oi + 1) w
           else if type = IPOPT_EOL then Inr (GwDone b w)
           else guard (n + oi + 1 < length b) OutOfBounds
             (let xlen = unat (b ! (n + oi + 1)) in
              if xlen < 2 \<or> hlen < oi + xlen then Inr (GwError (oi + 1) b w)
              else if type \<noteq> IPOPT_RR \<and> type \<noteq> IPOPT_TS
                then gw_loop can pref mine ms n hlen b (oi + xlen) w
              else if \<not> w \<and> \<not> can then Inr GwNoMemory
              else guard (n + oi + (if type = IPOPT_RR then 2 else 3) < length b) OutOfBounds
                (case (if type = IPOPT_RR then gw_record_route pref n oi xlen b
                       else gw_timestamp pref mine ms n oi xlen b) of
                   Inl e \<Rightarrow> Inr (GwError e b True)
                 | Inr b1 \<Rightarrow> gw_loop can pref mine ms n hlen b1 (oi + xlen) True)))
      else Inr (GwDone b w))"
  by pat_completeness auto
termination
  by (relation "measure (\<lambda>(can, pref, mine, ms, n, hlen, b, oi, w). hlen - oi)") auto

declare gw_loop.simps [simp del]

text \<open>After the first write the code goes on using \<^verbatim>\<open>p\<close> although \<^verbatim>\<open>uniqueify\<close> may have given
  it up: for the checksum and for the error output.\<close>

definition handle_options ::
  "environ \<Rightarrow> u32 \<Rightarrow> nat \<Rightarrow> IPGWOptions \<Rightarrow> packet \<Rightarrow> (IPGWOptions \<times> simple_result) res" where
  "handle_options env ms noutputs g p =
     (case (pk_nh p, pk_h p) of
        (Some n, Some t) \<Rightarrow>
          let hlen = t - n in
          bind_res (gw_loop (uniqueify env p \<noteq> None) (gw_preferred_addr g) (gw_my_addrs g) ms n hlen
              (pk_buffer p) sizeof_ip False) (\<lambda>out.
            case out of
              GwNoMemory \<Rightarrow> Inr (g, None, [])
            | GwError oi b w \<Rightarrow> guard (w \<longrightarrow> \<not> shared p) UseAfterKill
                (Inr (g\<lparr>gw_drops := gw_drops g + 1\<rparr>, None,
                   checked_output_push noutputs 1 ((set_buffer b p)\<lparr>pk_paramprob := of_nat oi\<rparr>)))
            | GwDone b w \<Rightarrow>
                if w then guard (\<not> shared p) UseAfterKill
                  (let b1 = set_ip_sum b n 0;
                       b2 = set_ip_sum b1 n (click_in_cksum (take hlen (drop n b1)))
                   in Inr (g, Some (set_buffer b2 p), []))
                else Inr (g, Some p, []))
      | _ \<Rightarrow> Inl AssertFail)"

definition IPGWOptions_simple_action ::
  "environ \<Rightarrow> u32 \<Rightarrow> nat \<Rightarrow> IPGWOptions \<Rightarrow> packet \<Rightarrow> (IPGWOptions \<times> simple_result) res" where
  "IPGWOptions_simple_action env ms noutputs g p =
     (case pk_nh p of
        None \<Rightarrow> Inl AssertFail
      | Some n \<Rightarrow> guard (n < length (pk_buffer p)) OutOfBounds
          (if 4 * unat (ip_hl (pk_buffer p) n) \<le> sizeof_ip then Inr (g, Some p, [])
           else handle_options env ms noutputs g p))"

section \<open>Headers at the start of the data\<close>

lemma get_append_right [simp]:
  "get8 (a @ b) (length a + k) = get8 b k" "get16 (a @ b) (length a + k) = get16 b k"
  "get32 (a @ b) (length a + k) = get32 b k"
  by (simp_all add: get8_def get16_def get32_def nth_append add.assoc)

lemma put_append_right [simp]:
  "put8 (a @ b) (length a + k) v = a @ put8 b k v" "put16 (a @ b) (length a + k) w = a @ put16 b k w"
  "put32 (a @ b) (length a + k) x = a @ put32 b k x"
  by (simp_all add: put8_def put16_def put32_def list_update_append add.assoc)

lemma ip_vhl_append_right [simp]:
  "ip_hl (a @ b) (length a) = ip_hl b 0" "ip_v (a @ b) (length a) = ip_v b 0"
  using get_append_right(1) [of a b 0] by (simp_all add: ip_hl_def ip_v_def)

lemma set_buffer_data [simp]:
  "pk_data (set_buffer (pk_head p @ d) p) = d" "pk_head (set_buffer (pk_head p @ d) p) = pk_head p"
  "pk_nh (set_buffer b p) = pk_nh p"
  by (simp_all add: set_buffer_def pk_headroom_def)

definition at_start :: "packet \<Rightarrow> bool" where
  "at_start p \<longleftrightarrow> pk_nh p = Some (length (pk_head p))"

section \<open>What CheckIPHeader lets through\<close>

lemma check_ip_accepted:
  assumes "CheckIPHeader_simple_action n c p = (c', Some q, as)"
  shows "c' = c \<and> as = [] \<and> ch_offset c + 20 \<le> pk_length p \<and> ip_v (pk_data p) (ch_offset c) = 4 \<and>
    20 \<le> 4 * unat (ip_hl (pk_data p) (ch_offset c)) \<and>
    4 * unat (ip_hl (pk_data p) (ch_offset c)) \<le> unat (ntohs (ip_len (pk_data p) (ch_offset c))) \<and>
    ch_offset c + unat (ntohs (ip_len (pk_data p) (ch_offset c))) \<le> pk_length p \<and>
    pk_data q = take (ch_offset c + unat (ntohs (ip_len (pk_data p) (ch_offset c)))) (pk_data p) \<and>
    pk_nh q = Some (pk_headroom p + ch_offset c) \<and> pk_head q = pk_head p \<and>
    pk_h q = Some (pk_headroom p + ch_offset c + 4 * unat (ip_hl (pk_data p) (ch_offset c))) \<and>
    pk_dst_ip q = ip_dst (pk_data p) (ch_offset c) \<and>
    (ch_checksum c \<longrightarrow> click_in_cksum (take (4 * unat (ip_hl (pk_data p) (ch_offset c)))
       (drop (ch_offset c) (pk_data p))) = 0)"
  using assms
  by (auto simp: CheckIPHeader_simple_action_def CheckIPHeader_drop_def Let_def packet_take_def
      set_network_header_def set_dst_ip_anno_def pk_length_def split: if_splits)

text \<open>A well-formed packet without options passes unchanged.\<close>

lemma check_ip_passes:
  assumes "ch_offset c = 0" "20 \<le> pk_length p" "pk_length p < 65536" "ip_v (pk_data p) 0 = 4"
    "ip_hl (pk_data p) 0 = 5" "get16 (pk_data p) 2 = htons (of_nat (pk_length p))"
    "ip_sum_ok (pk_data p)" "ip_src (pk_data p) 0 \<notin> set (ch_bad_src c)"
  shows "CheckIPHeader_simple_action n c p =
    (c, Some (set_dst_ip_anno (ip_dst (pk_data p) 0) (set_network_header 0 20 p)), [])"
proof -
  have "unat (ntohs (get16 (pk_data p) 2)) = pk_length p"
    using assms(3,6) by (simp add: unat_of_nat)
  then show ?thesis
    using assms by (simp add: CheckIPHeader_simple_action_def ip_sum_ok_def Let_def)
qed

section \<open>Decrementing the time to live\<close>

text \<open>Swapping the bytes is multiplication by 256 modulo 65535.\<close>

lemma htons_mod: "(256 * unat x) mod 65535 = unat (htons x) mod 65535"
proof -
  have "256 * unat x = unat (htons x) + 65535 * (unat x div 256)"
  proof -
    have "unat x = 256 * (unat x div 256) + unat x mod 256" by simp
    then have "256 * unat x = 65536 * (unat x div 256) + 256 * (unat x mod 256)" by linarith
    then show ?thesis by (simp add: htons_unat)
  qed
  then show ?thesis by simp
qed

lemma unat_htons_not: "unat (NOT (htons y)) = unat (htons (NOT y))"
proof -
  have "NOT (htons y) = htons (NOT y)"
    by (rule bit_word_eqI) (auto simp: htons_def bit_simps dest: bit_imp_le_length)
  then show ?thesis by simp
qed

text \<open>In host order the new checksum is the old one plus 0x0100, modulo 65535.\<close>

lemma dec_sum_host:
  "\<exists>R. unat (ntohs (dec_sum c)) = R \<and> R mod 65535 = (unat (ntohs c) + 256) mod 65535"
proof -
  define S where "S = unat (ntohs c)"
  have S: "S \<le> 65535" using unat_u16_bound [of "ntohs c"] by (simp add: S_def)
  define s :: u32 where "s = (ucast (NOT (ntohs c)) AND 0xFFFF) + 0xFEFF"
  have "unat (ucast (NOT (ntohs c)) AND 0xFFFF :: u32) = 65535 - S"
    by (simp add: unat_and_mask16 unat_ucast16_32 unat_not16 S_def)
  then have s: "unat s = (65535 - S) + 65279"
    unfolding s_def by (subst unat_add_u32) simp_all
  define f :: u16 where "f = ucast (s + drop_bit 16 s)"
  have d: "unat (drop_bit 16 s) = (if 65536 \<le> unat s then 1 else 0)"
    using s by (auto simp: unat_drop_bit16 div_eq_0_iff intro: div_nat_eqI)
  have "unat (s + drop_bit 16 s) = unat s + (if 65536 \<le> unat s then 1 else 0)"
    using s d by (subst unat_add_u32) auto
  then have "unat f = (unat s + (if 65536 \<le> unat s then 1 else 0)) mod 65536"
    by (simp add: f_def unsigned_ucast_eq take_bit_eq_mod)
  also have "\<dots> = (if 65536 \<le> unat s then unat s - 65535 else unat s)"
    using s by (auto simp: le_mod_geq)
  finally have f: "unat f = (if 65536 \<le> unat s then unat s - 65535 else unat s)" .
  have "ntohs (dec_sum c) = NOT f"
    unfolding dec_sum_def Let_def s_def [symmetric] f_def [symmetric]
    by (metis htons_htons unat_htons_not unsigned_word_eqI)
  then have R: "unat (ntohs (dec_sum c)) = 65535 - unat f" by (simp add: unat_not16)
  have "65535 - unat f = (if S + 256 \<le> 65535 then S + 256 else S + 256 - 65535) \<or>
     65535 - unat f + 65535 = S + 256"
    using f s S by (auto split: if_splits)
  then have "(65535 - unat f) mod 65535 = (S + 256) mod 65535"
    by (auto split: if_splits simp: le_mod_geq)
  then show ?thesis using R by (auto simp: S_def)
qed

lemma dec_sum_raw: "unat (dec_sum c) mod 65535 = (unat c + 1) mod 65535"
proof -
  have "unat (dec_sum c) mod 65535 = (256 * unat (ntohs (dec_sum c))) mod 65535"
    using htons_mod [of "ntohs (dec_sum c)"] by simp
  also have "\<dots> = (256 * (unat (ntohs c) + 256)) mod 65535"
    using dec_sum_host [of c] by (metis mod_mult_right_eq)
  also have "\<dots> = (256 * unat (ntohs c) + 1 + 65535) mod 65535"
    by (simp add: algebra_simps)
  also have "\<dots> = (256 * unat (ntohs c) + 1) mod 65535" by (rule mod_add_self2)
  also have "\<dots> = (unat c + 1) mod 65535"
    using htons_mod [of "ntohs c"] by (metis htons_htons mod_add_left_eq)
  finally show ?thesis .
qed

lemma unat_ucast8_16: "unat (ucast (x :: u8) :: u16) = unat x"
  by (simp add: unsigned_ucast_eq take_bit_nat_eq_self unat_u8_bound [THEN less_trans])

lemma unat_get16: "unat (get16 b k) = unat (b ! k) + 256 * unat (b ! (k + 1))"
proof -
  have "ucast (b ! k) AND push_bit 8 (ucast (b ! (k + 1)) :: u16) = 0"
    by (rule bit_word_eqI) (auto simp: bit_simps dest: bit_imp_le_length)
  then have "get16 b k = ucast (b ! k) + push_bit 8 (ucast (b ! (k + 1)))"
    by (simp add: get16_def disjunctive_add_eq_or)
  moreover have "unat (push_bit 8 (ucast (b ! (k + 1)) :: u16)) = 256 * unat (b ! (k + 1))"
    using unat_u8_bound [of "b ! (k + 1)"]
    by (simp add: push_bit_eq_mult unat_word_ariths unat_ucast8_16)
  ultimately show ?thesis
    using unat_u8_bound [of "b ! (k + 1)"] unat_u8_bound [of "b ! k"]
    by (simp add: unat_word_ariths unat_ucast8_16)
qed

lemma wsum_put8:
  assumes "even k" "k + 2 \<le> length b"
  shows "wsum (put8 b k v) + unat (b ! k) = wsum b + unat v"
proof -
  define w where "w = get16 (put8 b k v) k"
  have "put8 b k v = put16 b k w"
  proof (rule nth_equalityI)
    fix i assume "i < length (put8 b k v)"
    have w: "w = ucast v OR push_bit 8 (ucast (b ! (k + 1)))"
      using assms by (simp add: w_def get16_def put8_def)
    have hi: "\<not> bit v (8 + m)" for m using bit_imp_le_length [of v "8 + m"] by auto
    have "ucast w = v"
      unfolding w by (rule bit_word_eqI) (auto simp: bit_simps)
    moreover have "ucast (drop_bit 8 w) = b ! (k + 1)"
      unfolding w by (rule bit_word_eqI) (auto simp: bit_simps hi)
    ultimately show "put8 b k v ! i = put16 b k w ! i"
      using assms by (auto simp: put16_bytes put8_def nth_upd)
  qed simp
  moreover have "unat w = unat v + 256 * unat (b ! (k + 1))"
    using assms by (simp add: w_def unat_get16 put8_def)
  ultimately show ?thesis
    using wsum_put16 [OF assms, of w] by (simp add: unat_get16)
qed

lemma dec_ttl_verifies:
  assumes len: "12 \<le> length x" "length x \<le> 65536" and valid: "click_in_cksum x = 0"
    and ttl: "1 < unat (x ! 8)"
  shows "click_in_cksum (put16 (put8 x 8 (x ! 8 - 1)) 10 (dec_sum (get16 x 10))) = 0"
proof -
  define x1 x2 where "x1 = put8 x 8 (x ! 8 - 1)" and "x2 = put16 x1 10 (dec_sum (get16 x 10))"
  have v: "unat (x ! 8 - 1) = unat (x ! 8) - 1"
    using ttl by (subst unat_sub) (simp_all add: word_le_nat_alt)
  have 1: "wsum x1 + 1 = wsum x"
    using wsum_put8 [of 8 x "x ! 8 - 1"] len v ttl by (simp add: x1_def)
  have c: "get16 x1 10 = get16 x 10" by (simp add: x1_def)
  have 2: "wsum x2 + (unat (get16 x 10) + 1) = wsum x + unat (dec_sum (get16 x 10))"
    using wsum_put16 [of 10 x1 "dec_sum (get16 x 10)"] len 1 c by (simp add: x2_def x1_def)
  have x: "wsum x \<noteq> 0" "wsum x mod 65535 = 0"
    using valid click_in_cksum_zero_iff [OF len(2)] by simp_all
  have "(wsum x2 + (unat (get16 x 10) + 1)) mod 65535 = (wsum x + (unat (get16 x 10) + 1)) mod 65535"
    unfolding 2 using dec_sum_raw [of "get16 x 10"] by (metis mod_add_right_eq)
  then have "wsum x2 mod 65535 = 0" using add_mod_cancel x(2) by metis
  moreover have "x2 ! 8 = x ! 8 - 1" "8 < length x2"
    using len by (simp_all add: x2_def x1_def put16_bytes put8_def)
  then have "wsum x2 \<noteq> 0"
    unfolding wsum_0_iff using v ttl by (metis nth_mem unat_0 zero_less_diff less_numeral_extra(3))
  ultimately show ?thesis
    using click_in_cksum_zero_iff [of x2] len by (simp add: x2_def x1_def)
qed

section \<open>Properties\<close>

text \<open>(C36) A packet CheckIPHeader lets through, with the default OFFSET 0, has version 4, a header of at least 20 bytes inside the
  data, a verifying header checksum when that is checked, and ends where its total length says;
  the network header pointer and the destination annotation are set from it.\<close>

theorem check_ip_header_sound:
  assumes "CheckIPHeader_simple_action n c p = (c', Some q, as)" "ch_offset c = 0"
  shows "c' = c \<and> as = [] \<and> at_start q \<and> header_fits q \<and> 20 \<le> pk_length q \<and>
    ip_v (pk_data q) 0 = 4 \<and> pk_length q = unat (ntohs (get16 (pk_data q) 2)) \<and>
    pk_dst_ip q = get32 (pk_data q) 16 \<and>
    (ch_checksum c \<longrightarrow> click_in_cksum (take (4 * unat (ip_hl (pk_data q) 0)) (pk_data q)) = 0)"
proof -
  note a = check_ip_accepted [OF assms(1), unfolded assms(2), simplified]
  define L where "L = unat (ntohs (get16 (pk_data p) 2))"
  have q: "pk_data q = take L (pk_data p)" and L: "20 \<le> L" "L \<le> length (pk_data p)"
    using a by (auto simp: L_def pk_length_def)
  have hl: "ip_hl (pk_data q) 0 = ip_hl (pk_data p) 0" "ip_v (pk_data q) 0 = ip_v (pk_data p) 0"
    using L q by (simp_all add: ip_hl_def ip_v_def)
  have "pk_length q = L" using q L by (simp add: pk_length_def)
  moreover have "get16 (pk_data q) 2 = get16 (pk_data p) 2" "get32 (pk_data q) 16 = get32 (pk_data p) 16"
    using L q by simp_all
  moreover have "take (4 * unat (ip_hl (pk_data p) 0)) (pk_data q) = take (4 * unat (ip_hl (pk_data p) 0)) (pk_data p)"
    using a q by (simp add: L_def min_def)
  ultimately show ?thesis
    using a hl L by (auto simp: at_start_def header_fits_def L_def pk_headroom_def)
qed

definition sample_check :: CheckIPHeader where
  "sample_check = \<lparr>ch_bad_src = [0xFFFFFFFF], ch_good_dst = [], ch_offset = 0, ch_checksum = True,
     ch_drops = 0, ch_reason_drops = None\<rparr>"

lemma soli_passes:
  "CheckIPHeader_simple_action 2 sample_check (advert_packet sample_env (soli_data 7)) =
     (sample_check, Some (set_dst_ip_anno BROADCAST_ADDR (set_network_header 0 20 (advert_packet sample_env (soli_data 7)))), [])"
  using check_ip_passes [of sample_check "advert_packet sample_env (soli_data 7)" 2] soli_data_ok [of 7]
  by (simp add: soli_data_fields sample_check_def)

theorem check_ip_header_sound_witness:
  "header_fits (set_dst_ip_anno BROADCAST_ADDR (set_network_header 0 20 (advert_packet sample_env (soli_data 7))))"
  using check_ip_header_sound [OF soli_passes] by (simp add: sample_check_def)

text \<open>An agent advertisement passes CheckIPHeader and CheckICMPHeader of the receiving node with its
  data unchanged, unless the agent's address is one of the configured bad sources.\<close>

theorem advertisement_passes_check:
  assumes "ch_offset c = 0" "private_addr a \<notin> set (ch_bad_src c)"
  shows "\<exists>q. CheckIPHeader_simple_action n c (advert_packet env (adv_data a s)) = (c, Some q, []) \<and>
    pk_data q = adv_data a s \<and> at_start q \<and>
    CheckICMPHeader_simple_action m ci q = Inr (ci, Some q, [])"
proof -
  let ?p = "advert_packet env (adv_data a s)"
  define q where "q = set_dst_ip_anno (ip_dst (pk_data ?p) 0) (set_network_header 0 20 ?p)"
  have len: "length (adv_data a s) = 48" using adv_data_ok [of a s] by simp
  have c: "CheckIPHeader_simple_action n c ?p = (c, Some q, [])"
    unfolding q_def using assms len adv_data_ok [of a s]
    by (intro check_ip_passes) (simp_all add: adv_data_fields)
  have d: "pk_data q = adv_data a s" "pk_head q = pk_head ?p" "pk_nh q = Some (length (pk_head ?p))"
      "pk_h q = Some (length (pk_head ?p) + 20)"
    by (simp_all add: q_def set_dst_ip_anno_def set_network_header_def pk_headroom_def)
  have icmp: "click_in_cksum (drop 20 (adv_data a s)) = 0" using adv_data_ok [of a s] by (simp add: icmp_sum_ok_def)
  have type: "adv_data a s ! 20 = 9"
    using adv_data_fields(8) [of a s] by (simp add: read_adv_def get8_def)
  have "CheckICMPHeader_simple_action m ci q = Inr (ci, Some q, [])"
    using len icmp type adv_data_fields(5) [of a s]
    by (simp add: CheckICMPHeader_simple_action_def pk_buffer_def d nth_append icmp_length_ok_def Let_def)
  then show ?thesis using c d by (auto simp: at_start_def)
qed

theorem advertisement_passes_check_witness:
  "\<exists>q. CheckIPHeader_simple_action 2 sample_check (advert_packet sample_env (adv_data (configured 10 11 25)
      \<lparr>aa_HA = True, aa_FA = True, aa_lifetimeAdv = 9, aa_interval = 3000, aa_sequenceNum = 0\<rparr>)) =
     (sample_check, Some q, [])"
proof -
  have "ch_offset sample_check = 0" "private_addr (configured 10 11 25) \<notin> set (ch_bad_src sample_check)"
    by (simp_all add: sample_check_def)
  then show ?thesis using advertisement_passes_check by blast
qed

text \<open>(C35) DecIPTTL on a packet whose header checksum verifies and whose time to live exceeds 1 lowers it
  by one and keeps the checksum verifying without summing the header again; at 1 or 0 the packet
  leaves on the error output and the drop is counted.\<close>

theorem dec_ip_ttl_correct:
  assumes "dt_active s" "dt_multicast s" "at_start p" "\<not> shared p" "20 \<le> pk_length p"
    "20 \<le> hlen" "hlen \<le> pk_length p" "hlen \<le> 60" "click_in_cksum (take hlen (pk_data p)) = 0"
  shows "if unat (get8 (pk_data p) 8) \<le> 1
    then DecIPTTL_simple_action env n s p =
      Inr (s\<lparr>dt_drops := dt_drops s + 1\<rparr>, None, checked_output_push n 1 p)
    else \<exists>q. DecIPTTL_simple_action env n s p = Inr (s, Some q, []) \<and>
      get8 (pk_data q) 8 = get8 (pk_data p) 8 - 1 \<and> drop 12 (pk_data q) = drop 12 (pk_data p) \<and>
      click_in_cksum (take hlen (pk_data q)) = 0"
proof -
  define b d where "b = pk_buffer p" and "d = pk_data p"
  define N where "N = length (pk_head p)"
  have b: "b = pk_head p @ d" by (simp add: b_def d_def pk_buffer_def)
  have len: "20 \<le> length d" "hlen \<le> length d" using assms(5,7) by (simp_all add: d_def pk_length_def)
  have nh: "pk_nh p = Some N" using assms(3) by (simp add: at_start_def N_def)
  have ttl: "get8 b (N + 8) = get8 d 8" "N + 20 \<le> length b" using len by (simp_all add: b N_def)
  define x where "x = take hlen d"
  have x8: "x ! 8 = get8 d 8" "get16 x 10 = get16 d 10"
    using len assms(6) by (simp_all add: x_def get8_def)
  show ?thesis
  proof (cases "unat (get8 d 8) \<le> 1")
    case True
    then have "get8 d 8 \<le> 1" by (simp add: word_le_nat_alt)
    then show ?thesis
      using True assms(1,2) nh ttl
      by (simp add: DecIPTTL_simple_action_def b_def [symmetric] d_def [symmetric] Let_def)
  next
    case False
    then have "\<not> get8 d 8 \<le> 1" by (simp add: word_le_nat_alt)
    define d2 where "d2 = put16 (put8 d 8 (get8 d 8 - 1)) 10 (dec_sum (get16 d 10))"
    have "put16 (put8 b (N + 8) (get8 d 8 - 1)) (N + 10) (dec_sum (get16 (put8 b (N + 8) (get8 d 8 - 1)) (N + 10)))
        = pk_head p @ d2"
      by (simp add: b N_def d2_def)
    then have act: "DecIPTTL_simple_action env n s p = Inr (s, Some (set_buffer (pk_head p @ d2) p), [])"
      using assms(1,2,4) nh ttl \<open>\<not> get8 d 8 \<le> 1\<close>
      by (simp add: DecIPTTL_simple_action_def b_def [symmetric] Let_def)
    have "take hlen d2 = put16 (put8 x 8 (x ! 8 - 1)) 10 (dec_sum (get16 x 10))"
      unfolding d2_def x8 using len assms(6) by (simp add: x_def get8_def)
    moreover have "click_in_cksum x = 0" using assms(9) by (simp add: x_def d_def)
    ultimately have "click_in_cksum (take hlen d2) = 0"
      using dec_ttl_verifies [of x] False x8 len assms(6,8) by (simp add: x_def)
    then show ?thesis
      using False act len by (auto simp: d_def [symmetric]) (simp_all add: d2_def)
  qed
qed

theorem dec_ip_ttl_correct_witness:
  "DecIPTTL_simple_action sample_env 2 \<lparr>dt_drops = 0, dt_active = True, dt_multicast = True\<rparr>
     (set_network_header 0 20 (advert_packet sample_env (soli_data 7))) =
   Inr (\<lparr>dt_drops = 1, dt_active = True, dt_multicast = True\<rparr>, None,
     checked_output_push 2 1 (set_network_header 0 20 (advert_packet sample_env (soli_data 7))))"
proof -
  let ?p = "set_network_header 0 20 (advert_packet sample_env (soli_data 7))"
  have p: "pk_data ?p = soli_data 7" "at_start ?p" "\<not> shared ?p" "pk_length ?p = 28"
    using soli_data_ok [of 7] advert_packet_sel(4) [of sample_env "soli_data 7"]
    by (simp_all add: set_network_header_def at_start_def pk_headroom_def shared_def pk_length_def)
  have ttl: "get8 (soli_data 7) 8 = 1" by (simp add: soli_data_def ip_stores_get Let_def)
  show ?thesis
    using dec_ip_ttl_correct [of "\<lparr>dt_drops = 0, dt_active = True, dt_multicast = True\<rparr>" ?p 20 sample_env 2]
      p ttl soli_data_ok [of 7] by (simp add: ip_sum_ok_def)
qed

end
