(* ===== verification/Fragmenter.thy ===== *)
theory Fragmenter
  imports IPPath
begin

text \<open>
  IPFragmenter: packets longer than the MTU are cut at multiples of eight bytes.  The first
  fragment is a clone of the packet with its header rewritten, the others are new packets with
  the header and the options that are to be copied.  Lengths are \<^verbatim>\<open>int\<close>s; the MTU is below
  \<^verbatim>\<open>2^31\<close>.  Chatter and the read handlers are left out.
\<close>

definition IP_DF :: u16 where "IP_DF = 0x4000"
definition IP_MF :: u16 where "IP_MF = 0x2000"

record IPFragmenter =
  fr_honor_df :: bool
  fr_mtu :: nat
  fr_headroom :: nat
  fr_drops :: u32
  fr_fragments :: u32


definition IPFragmenter_configure ::
  "(nat \<times> bool option \<times> nat option) option \<Rightarrow> IPFragmenter \<Rightarrow> int \<times> IPFragmenter" where
  "IPFragmenter_configure conf s = (case conf of
       None \<Rightarrow> (- 1, s\<lparr>fr_headroom := default_headroom\<rparr>)
     | Some (mtu, df, headroom) \<Rightarrow>
         let s' = s\<lparr>fr_mtu := mtu,
               fr_honor_df := (case df of Some d \<Rightarrow> d | None \<Rightarrow> fr_honor_df s),
               fr_headroom := (case headroom of Some h \<Rightarrow> h | None \<Rightarrow> default_headroom)\<rparr>
         in (if mtu < 8 then error_result else 0, s'))"

section \<open>Options\<close>

text \<open>The options of the header, up to its end, from the current one on.\<close>

function optcopy_loop :: "bytes \<Rightarrow> bytes" where
  "optcopy_loop oin =
     (if oin = [] then []
      else if oin ! 0 = IPOPT_NOP then optcopy_loop (drop 1 oin)
      else if oin ! 0 = IPOPT_EOL \<or> length oin = 1 \<or> oin ! 1 < 2 \<or> length oin < unat (oin ! 1) then []
      else (if oin ! 0 AND 0x80 \<noteq> 0 then take (unat (oin ! 1)) oin else []) @
        optcopy_loop (drop (unat (oin ! 1)) oin))"
  by pat_completeness auto
termination
  by (relation "measure length") (auto simp: word_le_nat_alt not_less)

declare optcopy_loop.simps [simp del]

text \<open>The bytes written after the new header, padded; their number is what \<^verbatim>\<open>optcopy\<close> returns.\<close>

definition optcopy :: "bytes \<Rightarrow> bytes" where
  "optcopy opts = (let out = optcopy_loop opts in out @ replicate ((4 - length out mod 4) mod 4) IPOPT_EOL)"

section \<open>Fragments\<close>

text \<open>The header of the packet after the rewriting for the first fragment.\<close>

definition frag_first :: "environ \<Rightarrow> nat \<Rightarrow> int \<Rightarrow> nat \<Rightarrow> bytes \<Rightarrow> bytes" where
  "frag_first env hlen first_dlen n b =
     (let b1 = (if ip_off b n AND htons IP_DF \<noteq> 0
           then let b0 = set_ip_id b n (of_nat (env_rand env 0))
                in set_ip_off b0 n (ip_off b0 n AND NOT (htons IP_DF))
           else b);
          b2 = set_ip_len b1 n (htons (of_int (int hlen + first_dlen)));
          b3 = set_ip_off b2 n (ip_off b2 n OR htons IP_MF);
          b4 = set_ip_sum b3 n 0
      in set_ip_sum b4 n (click_in_cksum (take hlen (drop n b4))))"

text \<open>The data of a later fragment: \<open>b\<close> is the rewritten packet, \<open>t\<close> its transport header.\<close>

definition frag_data :: "bytes \<Rightarrow> nat \<Rightarrow> nat \<Rightarrow> bytes \<Rightarrow> bool \<Rightarrow> int \<Rightarrow> int \<Rightarrow> int \<Rightarrow> bytes" where
  "frag_data b n t opts had_mf in_dlen off out_dlen =
     (let out_hlen = 20 + length opts;
          d0 = take 20 (drop n b) @ opts @ take (nat out_dlen) (drop (t + nat off) b);
          d1 = set_ip_hl d0 0 (of_nat (out_hlen div 4));
          d2 = set_ip_off d1 0 (htons (ntohs (ip_off b n) + of_int (off div 8)));
          d3 = (if in_dlen \<le> out_dlen + off \<and> \<not> had_mf
             then set_ip_off d2 0 (ip_off d2 0 AND NOT (htons IP_MF)) else d2);
          d4 = set_ip_len d3 0 (htons (of_int (int out_hlen + out_dlen)));
          d5 = set_ip_sum d4 0 0
      in set_ip_sum d5 0 (click_in_cksum (take out_hlen d5)))"

definition copy_annotations :: "packet \<Rightarrow> packet \<Rightarrow> packet" where
  "copy_annotations p q = q\<lparr>pk_dst_ip := pk_dst_ip p, pk_paint := pk_paint p,
     pk_paramprob := pk_paramprob p, pk_fix_ip_src := pk_fix_ip_src p, pk_type := pk_type p\<rparr>"

text \<open>The loop over the remaining fragments; \<open>i\<close> counts the allocations.\<close>

partial_function (option) frag_loop ::
  "environ \<Rightarrow> IPFragmenter \<Rightarrow> packet \<Rightarrow> bytes \<Rightarrow> nat \<Rightarrow> nat \<Rightarrow> bytes \<Rightarrow> bool \<Rightarrow> int \<Rightarrow> nat \<Rightarrow> int \<Rightarrow> action list
    \<Rightarrow> (IPFragmenter \<times> action list) option" where
  "frag_loop env s p b n t opts had_mf in_dlen i off acts =
     (if off < in_dlen
      then let out_hlen = 20 + length opts;
               d = (int (fr_mtu s) - int out_hlen) div 8 * 8;
               out_dlen = (if in_dlen < d + off then in_dlen - off else d)
           in case packet_make env i (fr_headroom s) None (nat (int out_hlen + out_dlen)) 0 of
                None \<Rightarrow> frag_loop env s p b n t opts had_mf in_dlen (i + 1) (off + out_dlen) acts
              | Some q \<Rightarrow>
                  let q1 = set_network_header 0 out_hlen q;
                      q2 = with_data q1 (\<lambda>_. frag_data b n t opts had_mf in_dlen off out_dlen)
                  in frag_loop env (s\<lparr>fr_fragments := fr_fragments s + 1\<rparr>) p b n t opts had_mf in_dlen
                       (i + 1) (off + out_dlen) (acts @ [Emit 0 (copy_annotations p q2)])
      else Some (s, acts))"

text \<open>\<^verbatim>\<open>fragment\<close>; the whole header and the payload that the length field promises must be in the
  buffer.\<close>

definition fragment :: "environ \<Rightarrow> nat \<Rightarrow> IPFragmenter \<Rightarrow> packet \<Rightarrow> (IPFragmenter \<times> action list) res option" where
  "fragment env noutputs s p_in =
     (case (pk_nh p_in, pk_h p_in) of
        (Some n, Some t) \<Rightarrow>
          let b_in = pk_buffer p_in;
              hlen = 4 * unat (ip_hl b_in n);
              first_dlen = (int (fr_mtu s) - int hlen) div 8 * 8;
              in_dlen = int (unat (ntohs (ip_len b_in n))) - int hlen in
          if length b_in < n + 20 then Some (Inl OutOfBounds)
          else if (ip_off b_in n AND htons IP_DF \<noteq> 0 \<and> fr_honor_df s) \<or> first_dlen < 8
          then Some (Inr (s\<lparr>fr_drops := fr_drops s + 1\<rparr>, checked_output_push noutputs 1 p_in))
          else (case uniqueify env p_in of
              None \<Rightarrow> Some (Inr (s, []))
            | Some p \<Rightarrow>
                if length (pk_buffer p) < n + hlen \<or> int (length (pk_buffer p)) < int t + in_dlen then Some (Inl OutOfBounds)
                else
                  let had_mf = (ip_off (pk_buffer p) n AND htons IP_MF \<noteq> 0);
                      b = frag_first env hlen first_dlen n (pk_buffer p);
                      p1 = set_buffer b p
                  in if \<not> env_packet env 0 then Some (Inl NullDeref)
                  else
                    let first_fragment =
                          packet_take (nat (int (length b) - int n - int hlen - first_dlen)) (packet_clone p1);
                        opts = optcopy (take (hlen - 20) (drop (n + 20) b))
                    in map_option (\<lambda>(s', acts). Inr (s', acts @ [Kill (after_clone p1)]))
                         (frag_loop env (s\<lparr>fr_fragments := fr_fragments s + 1\<rparr>) p1 b n t opts had_mf in_dlen
                            1 first_dlen [Emit 0 first_fragment]))
      | _ \<Rightarrow> Some (Inl NullDeref))"

definition IPFragmenter_push :: "environ \<Rightarrow> nat \<Rightarrow> IPFragmenter \<Rightarrow> packet \<Rightarrow> (IPFragmenter \<times> action list) res option" where
  "IPFragmenter_push env noutputs s p =
     (case pk_nh p of
        None \<Rightarrow> Some (Inl NullDeref)
      | Some n \<Rightarrow>
          if int (length (pk_buffer p)) - int n \<le> int (fr_mtu s) then Some (Inr (s, [Emit 0 p]))
          else fragment env noutputs s p)"

section \<open>Where the packet is cut\<close>

function cuts :: "nat \<Rightarrow> nat \<Rightarrow> nat \<Rightarrow> (nat \<times> nat) list" where
  "cuts d n off = (if off < n \<and> 0 < d then (off, min d (n - off)) # cuts d n (off + min d (n - off)) else [])"
  by pat_completeness auto
termination
  by (relation "measure (\<lambda>(d, n, off). n - off)") auto

declare cuts.simps [simp del]

text \<open>A list of adjacent, non-empty intervals from \<open>off\<close> to \<open>n\<close>.\<close>

fun chained :: "nat \<Rightarrow> nat \<Rightarrow> (nat \<times> nat) list \<Rightarrow> bool" where
  "chained n off [] \<longleftrightarrow> off = n"
| "chained n off ((o', l) # cs) \<longleftrightarrow> o' = off \<and> 0 < l \<and> off + l \<le> n \<and> chained n (off + l) cs"

lemma cuts_chained: "0 < d \<Longrightarrow> off \<le> n \<Longrightarrow> chained n off (cuts d n off)"
proof (induction d n off rule: cuts.induct)
  case (1 d n off)
  then show ?case by (subst cuts.simps) auto
qed

lemma cuts_bounds: "8 dvd d \<Longrightarrow> 8 dvd off \<Longrightarrow> (o', l) \<in> set (cuts d n off) \<Longrightarrow> 8 dvd o' \<and> l \<le> d \<and> o' + l \<le> n \<and> 0 < l"
proof (induction d n off rule: cuts.induct)
  case (1 d n off)
  show ?case
  proof (cases "off < n \<and> 0 < d")
    case True
    then consider "(o', l) = (off, min d (n - off))" | "(o', l) \<in> set (cuts d n (off + min d (n - off)))"
      using 1(4) by (subst (asm) cuts.simps) auto
    then show ?thesis
    proof cases
      case 1
      then show ?thesis using True \<open>8 dvd off\<close> by auto
    next
      case 2
      show ?thesis
      proof (cases "d \<le> n - off")
        case True
        then show ?thesis using 1(1) [OF \<open>off < n \<and> 0 < d\<close> 1(2)] 1(2,3) 2 by (simp add: min_def)
      next
        case False
        then show ?thesis using 2 True by (simp add: cuts.simps [of d n n])
      qed
    qed
  next
    case False
    then show ?thesis using 1(4) by (simp add: cuts.simps [of d n off])
  qed
qed

lemma chained_payload:
  "chained (length xs) off cs \<Longrightarrow> concat (map (\<lambda>(o', l). take l (drop o' xs)) cs) = drop off xs"
proof (induction cs arbitrary: off)
  case (Cons c cs)
  obtain o' l where c: "c = (o', l)" by (cases c)
  have "take l (drop off xs) @ drop (off + l) xs = drop off xs"
    by (metis append_take_drop_id drop_drop add.commute)
  then show ?case using Cons.IH [of "off + l"] Cons.prems c by simp
qed simp

lemma chained_nth:
  assumes "chained (length xs) off cs" "i < length cs"
  shows "fst (cs ! i) = off + length (concat (map (\<lambda>(o', l). take l (drop o' xs)) (take i cs))) \<and>
    (fst (cs ! i) + snd (cs ! i) < length xs \<longleftrightarrow> Suc i < length cs)"
  using assms
proof (induction cs arbitrary: off i)
  case (Cons c cs)
  obtain o' l where c: "c = (o', l)" by (cases c)
  show ?case
  proof (cases i)
    case 0
    then show ?thesis using Cons.prems c by (cases cs) auto
  next
    case (Suc j)
    then show ?thesis using Cons.IH [of "off + l" j] Cons.prems c by auto
  qed
qed simp

section \<open>Options are copied in place\<close>

lemma optcopy_loop_length: "length (optcopy_loop oin) \<le> length oin"
proof (induction oin rule: optcopy_loop.induct)
  case (1 oin)
  then show ?case by (subst optcopy_loop.simps) (auto simp: not_less)
qed

lemma optcopy_length:
  "length (optcopy opts) mod 4 = 0" "4 dvd length opts \<Longrightarrow> length (optcopy opts) \<le> length opts"
proof -
  define k where "k = length (optcopy_loop opts)"
  have len: "length (optcopy opts) = k + (4 - k mod 4) mod 4" by (simp add: optcopy_def Let_def k_def)
  have pad: "k + (4 - k mod 4) mod 4 = (k + 3) div 4 * 4"
  proof -
    define q where "q = k div 4"
    have "k = 4 * q \<or> k = 4 * q + 1 \<or> k = 4 * q + 2 \<or> k = 4 * q + 3" unfolding q_def by linarith
    then show ?thesis by (elim disjE) simp_all
  qed
  show "length (optcopy opts) mod 4 = 0" unfolding len pad by simp
  assume "4 dvd length opts"
  then obtain m where m: "length opts = 4 * m" by (elim dvdE)
  have "k \<le> 4 * m" using optcopy_loop_length [of opts] m by (simp add: k_def)
  then have "(k + 3) div 4 \<le> m" by linarith
  then show "length (optcopy opts) \<le> length opts" unfolding len pad m by simp
qed

section \<open>The loop\<close>

definition later_fragment :: "environ \<Rightarrow> IPFragmenter \<Rightarrow> packet \<Rightarrow> bytes \<Rightarrow> nat \<Rightarrow> nat \<Rightarrow> bytes \<Rightarrow> bool \<Rightarrow> nat \<Rightarrow> nat \<times> nat \<Rightarrow> packet" where
  "later_fragment env s p b n t opts had_mf dlen c =
     copy_annotations p (with_data (set_network_header 0 (20 + length opts)
       (the (packet_make (env\<lparr>env_packet := \<lambda>_. True\<rparr>) 0 (fr_headroom s) None (20 + length opts + snd c) 0)))
       (\<lambda>_. frag_data b n t opts had_mf (int dlen) (int (fst c)) (int (snd c))))"

lemma later_fragment_data [simp]:
  "pk_data (later_fragment env s p b n t opts had_mf dlen c) = frag_data b n t opts had_mf (int dlen) (int (fst c)) (int (snd c))"
  by (simp add: later_fragment_def copy_annotations_def with_data_def)

lemma frag_loop_cuts:
  assumes "\<And>i. env_packet env i" "d = (fr_mtu s - (20 + length opts)) div 8 * 8" "20 + length opts \<le> fr_mtu s" "0 < d"
  shows "\<exists>s'. frag_loop env s p b n t opts had_mf (int dlen) i (int off) acts =
    Some (s', acts @ map (\<lambda>c. Emit 0 (later_fragment env s p b n t opts had_mf dlen c)) (cuts d dlen off))"
  using assms
proof (induction d dlen off arbitrary: s i acts rule: cuts.induct)
  case (1 d dlen off)
  have d: "(int (fr_mtu s) - int (20 + length opts)) div 8 * 8 = int d"
    using 1(3,4) by (simp add: zdiv_int of_nat_diff)
  show ?case
  proof (cases "off < dlen")
    case False
    then show ?thesis by (simp add: frag_loop.simps cuts.simps)
  next
    case True
    define l where "l = min d (dlen - off)"
    have l: "(if int dlen < int d + int off then int dlen - int off else int d) = int l"
      using True by (auto simp: l_def min_def)
    define s1 where "s1 = s\<lparr>fr_fragments := fr_fragments s + 1\<rparr>"
    have q: "packet_make env i (fr_headroom s) None (20 + length opts + l) 0 =
        packet_make (env\<lparr>env_packet := \<lambda>_. True\<rparr>) 0 (fr_headroom s) None (20 + length opts + l) 0"
      using 1(2) by (simp add: packet_make_def Let_def fresh_packet_def)
    have step: "frag_loop env s p b n t opts had_mf (int dlen) i (int off) acts =
        frag_loop env s1 p b n t opts had_mf (int dlen) (i + 1) (int (off + l))
          (acts @ [Emit 0 (later_fragment env s p b n t opts had_mf dlen (off, l))])"
      using True 1(2)
      by (subst frag_loop.simps)
        (simp only: Let_def d l if_True, simp add: q [simplified packet_make_def Let_def] later_fragment_def s1_def packet_make_def Let_def nat_add_distrib)
    have same: "later_fragment env s1 p b n t opts had_mf dlen = later_fragment env s p b n t opts had_mf dlen"
      by (simp add: later_fragment_def s1_def fun_eq_iff)
    have "cuts d dlen off = (off, l) # cuts d dlen (off + l)"
      using True 1(5) by (subst cuts.simps) (simp add: l_def)
    moreover have "\<exists>s'. frag_loop env s1 p b n t opts had_mf (int dlen) (i + 1) (int (off + l))
          (acts @ [Emit 0 (later_fragment env s p b n t opts had_mf dlen (off, l))]) =
        Some (s', (acts @ [Emit 0 (later_fragment env s p b n t opts had_mf dlen (off, l))]) @
          map (\<lambda>c. Emit 0 (later_fragment env s1 p b n t opts had_mf dlen c)) (cuts d dlen (off + l)))"
      unfolding l_def
      by (rule 1(1)) (use True 1(2-5) in \<open>auto simp: s1_def\<close>)
    ultimately show ?thesis unfolding step same by auto
  qed
qed

section \<open>A fragment as the receiver reads it\<close>

abbreviation header_bytes :: "bytes \<Rightarrow> nat" where
  "header_bytes d \<equiv> 4 * unat (ip_hl d 0)"

definition frag_payload :: "packet \<Rightarrow> bytes" where
  "frag_payload f = drop (header_bytes (pk_data f)) (pk_data f)"

definition frag_offset :: "packet \<Rightarrow> nat" where
  "frag_offset f = 8 * unat (ntohs (get16 (pk_data f) 6) AND 0x1FFF)"

definition more_fragments :: "packet \<Rightarrow> bool" where
  "more_fragments f \<longleftrightarrow> ntohs (get16 (pk_data f) 6) AND IP_MF \<noteq> 0"

definition header_verifies :: "packet \<Rightarrow> bool" where
  "header_verifies f \<longleftrightarrow> click_in_cksum (take (header_bytes (pk_data f)) (pk_data f)) = 0"

lemma htons_bitwise: "htons (x AND y) = htons x AND htons y" "htons (NOT x) = NOT (htons x)" "htons (x OR y) = htons x OR htons y"
  by (rule bit_word_eqI, auto simp: htons_def bit_simps dest: bit_imp_le_length)+

lemma offset_word:
  assumes "m < 8192"
  defines "x \<equiv> IP_MF + of_nat m :: u16"
  shows "unat (x AND 0x1FFF) = m" "x AND IP_MF \<noteq> 0" "unat ((x AND NOT IP_MF) AND 0x1FFF) = m" "(x AND NOT IP_MF) AND IP_MF = 0"
proof -
  have ux: "unat x = 8192 + m"
    using assms(1) by (simp add: x_def IP_MF_def unat_word_ariths unat_of_nat)
  have "(0x1FFF :: u16) = mask 13" by (simp add: mask_eq_exp_minus_1)
  then have "unat (x AND 0x1FFF) = take_bit 13 (unat x)" by (simp only: take_bit_eq_mask [symmetric] unsigned_take_bit_eq)
  then show low: "unat (x AND 0x1FFF) = m" using assms(1) ux by (simp add: take_bit_eq_mod)
  have "(8192 + m) div 8192 = 1" using assms(1) by simp
  then have "bit (unat x) 13" using ux by (simp add: bit_iff_odd)
  then have b: "bit x 13" by (simp add: bit_unsigned_iff)
  have "bit IP_MF 13" by (simp add: IP_MF_def bit_iff_odd_drop_bit)
  then have "bit (x AND IP_MF) 13" using b by (simp add: bit_and_iff)
  then show "x AND IP_MF \<noteq> 0" by auto
  have "NOT IP_MF AND 0x1FFF = 0x1FFF" by (simp add: IP_MF_def)
  then show "unat ((x AND NOT IP_MF) AND 0x1FFF) = m" using low by (simp add: and.assoc)
  show "(x AND NOT IP_MF) AND IP_MF = 0" by (simp add: and.assoc)
qed

lemma ip_hl_stable [simp]: "2 \<le> k \<Longrightarrow> ip_hl (put16 b k v) 0 = ip_hl b 0"
  by (simp add: ip_hl_def)

lemma ip_hl_set: "0 < length b \<Longrightarrow> m \<le> 15 \<Longrightarrow> unat (ip_hl (set_ip_hl b 0 (of_nat m)) 0) = m"
proof -
  assume a: "0 < length b" "m \<le> 15"
  have "ip_hl (set_ip_hl b 0 (of_nat m)) 0 = of_nat m AND 0x0F"
    using a(1) by (simp add: ip_hl_def set_ip_hl_def put8_def get8_def bit.conj_disj_distrib2 and.assoc)
  moreover have "(0x0F :: u8) = mask 4" by (simp add: mask_eq_exp_minus_1)
  ultimately show ?thesis
    using a(2) by (simp only: take_bit_eq_mask [symmetric] unsigned_take_bit_eq) (simp add: take_bit_eq_mod unat_of_nat)
qed

lemma set_ip_hl_fields [simp]:
  "0 < k \<Longrightarrow> get16 (set_ip_hl b 0 x) k = get16 b k" "0 < k \<Longrightarrow> drop k (set_ip_hl b 0 x) = drop k b"
  by (simp_all add: set_ip_hl_def)

lemma frag_data_view:
  assumes b: "n + 20 \<le> length b" "t + off + l \<le> length b" and opts: "4 dvd length opts" "length opts \<le> 40"
    and mf: "ntohs (get16 b (n + 6)) = IP_MF" and off: "8 dvd off" "off + l \<le> dlen" "dlen < 65536" "0 < l"
  defines "f \<equiv> frag_data b n t opts False (int dlen) (int off) (int l)"
  shows "length f = 20 + length opts + l" "header_bytes f = 20 + length opts"
    "drop (20 + length opts) f = take l (drop (t + off) b)"
    "click_in_cksum (take (20 + length opts) f) = 0"
    "8 * unat (ntohs (get16 f 6) AND 0x1FFF) = off" "ntohs (get16 f 6) AND IP_MF \<noteq> 0 \<longleftrightarrow> off + l < dlen"
proof -
  define h where "h = 20 + length opts"
  obtain m where m: "length opts = 4 * m" "m \<le> 10" using opts by (elim dvdE) auto
  obtain k where k: "off = 8 * k" using off(1) by (elim dvdE)
  have k': "k < 8192" using k off by linarith
  define x where "x = IP_MF + of_nat k"
  define d1 where "d1 = set_ip_hl (take 20 (drop n b) @ opts @ take l (drop (t + off) b)) 0 (of_nat (h div 4))"
  have len1: "length d1 = h + l" using b by (simp add: d1_def h_def)
  define d3 where "d3 = put16 d1 6 (htons (if dlen \<le> off + l then x AND NOT IP_MF else x))"
  have put: "put16 (put16 c 6 u) 6 w = put16 c 6 w" for c u w by (simp add: put16_def list_update_swap)
  define d5 where "d5 = put16 (put16 d3 2 (htons (of_nat (h + l)))) 10 0"
  have f: "f = put16 d5 10 (click_in_cksum (take h d5))"
  proof -
    have kd: "int off div 8 = int k" and cmp: "int dlen \<le> int l + int off \<longleftrightarrow> dlen \<le> off + l" using k by auto
    show ?thesis
      unfolding f_def frag_data_def Let_def d5_def d3_def d1_def h_def
      using mf len1 [unfolded d1_def h_def]
      by (simp add: x_def htons_bitwise put kd cmp)
  qed
  have len5: "length d5 = h + l" by (simp add: d5_def d3_def len1)
  show "length f = 20 + length opts + l" by (simp add: f len5 h_def)
  have "header_bytes f = 4 * unat (ip_hl d1 0)" by (simp add: f d5_def d3_def)
  also have "\<dots> = h"
  proof -
    have "h div 4 \<le> 15" "4 * (h div 4) = h" using m by (simp_all add: h_def)
    moreover have "0 < length (take 20 (drop n b) @ opts @ take l (drop (t + off) b))" using b by simp
    ultimately show ?thesis unfolding d1_def by (simp only: ip_hl_set)
  qed
  finally show "header_bytes f = 20 + length opts" by (simp add: h_def)
  show "drop (20 + length opts) f = take l (drop (t + off) b)"
    using b by (simp add: f d5_def d3_def d1_def)
  have "take h f = put16 (take h d5) 10 (click_in_cksum (take h d5))"
    using len5 by (simp add: f h_def)
  moreover have "get16 (take h d5) 10 = 0" using len5 by (simp add: d5_def d3_def len1 h_def)
  ultimately show "click_in_cksum (take (20 + length opts) f) = 0"
    using click_in_cksum_verifies [of 10 "take h d5"] len5 opts(2) by (simp add: h_def)
  have g: "ntohs (get16 f 6) = (if dlen \<le> off + l then x AND NOT IP_MF else x)"
    using len1 by (simp add: f d5_def d3_def h_def)
  note w = offset_word [OF k', folded x_def]
  show "8 * unat (ntohs (get16 f 6) AND 0x1FFF) = off" unfolding g using w(1,3) k by simp
  show "ntohs (get16 f 6) AND IP_MF \<noteq> 0 \<longleftrightarrow> off + l < dlen" unfolding g using w(2,4) by simp
qed

text \<open>The packet after the rewriting for the first fragment, for a packet that was whole.\<close>

lemma frag_first_view:
  assumes len: "20 \<le> hlen" "hlen \<le> length d" "hlen \<le> 60" and off: "get16 d 6 = 0"
    and F: "0 \<le> F" "int hlen + F < 65536"
  shows "\<exists>e. frag_first env hlen F (length hd') (hd' @ d) = hd' @ e \<and> length e = length d \<and> ip_hl e 0 = ip_hl d 0 \<and> drop 20 e = drop 20 d \<and>
    click_in_cksum (take hlen e) = 0 \<and> ntohs (get16 e 6) = IP_MF"
proof -
  define e4 where "e4 = put16 (put16 (put16 d 2 (htons (of_int (int hlen + F)))) 6 (htons IP_MF)) 10 0"
  define e where "e = put16 e4 10 (click_in_cksum (take hlen e4))"
  have "frag_first env hlen F (length hd') (hd' @ d) = hd' @ e"
    unfolding frag_first_def e_def e4_def using off len by (simp add: Let_def)
  moreover have "take hlen e = put16 (take hlen e4) 10 (click_in_cksum (take hlen e4))"
    using len by (simp add: e_def e4_def)
  moreover have "click_in_cksum (put16 (take hlen e4) 10 (click_in_cksum (take hlen e4))) = 0"
    using len by (intro click_in_cksum_verifies) (simp_all add: e4_def)
  moreover have "ntohs (get16 e 6) = IP_MF" using len by (simp add: e_def e4_def)
  ultimately show ?thesis by (intro exI [of _ e]) (simp add: e_def e4_def)
qed

text \<open>The receiver's view: the payloads in order are the original, every offset field is the number of
  bytes before the fragment, and only the last one has the more-fragments bit clear.\<close>

definition reassembles :: "bytes \<Rightarrow> packet list \<Rightarrow> bool" where
  "reassembles pl fs \<longleftrightarrow> concat (map frag_payload fs) = pl \<and>
     (\<forall>i < length fs. frag_offset (fs ! i) = length (concat (map frag_payload (take i fs))) \<and>
        (more_fragments (fs ! i) \<longleftrightarrow> Suc i < length fs))"

definition fragment_of :: "nat \<Rightarrow> bytes \<Rightarrow> nat \<times> nat \<Rightarrow> packet \<Rightarrow> bool" where
  "fragment_of mtu pl c f \<longleftrightarrow> pk_length f \<le> mtu \<and> header_verifies f \<and>
     frag_payload f = take (snd c) (drop (fst c) pl) \<and> frag_offset f = fst c \<and>
     (more_fragments f \<longleftrightarrow> fst c + snd c < length pl)"

lemma fragments_of_chain:
  assumes "list_all2 (fragment_of mtu pl) cs fs" "chained (length pl) 0 cs"
  shows "reassembles pl fs \<and> (\<forall>f \<in> set fs. pk_length f \<le> mtu \<and> header_verifies f)"
proof -
  have len: "length cs = length fs" using assms(1) by (rule list_all2_lengthD)
  have nth: "fragment_of mtu pl (cs ! i) (fs ! i)" if "i < length fs" for i
    using assms(1) that len by (simp add: list_all2_nthD)
  have pay: "map frag_payload fs = map (\<lambda>(o', l). take l (drop o' pl)) cs"
    using len nth by (auto simp: list_eq_iff_nth_eq fragment_of_def case_prod_beta)
  have "concat (map frag_payload fs) = pl" using chained_payload [OF assms(2)] by (simp add: pay)
  moreover have "frag_offset (fs ! i) = length (concat (map frag_payload (take i fs))) \<and>
      (more_fragments (fs ! i) \<longleftrightarrow> Suc i < length fs)" if "i < length fs" for i
  proof -
    have "map frag_payload (take i fs) = map (\<lambda>(o', l). take l (drop o' pl)) (take i cs)"
      using pay by (metis take_map)
    then show ?thesis
      using chained_nth [OF assms(2), of i] nth [OF that] that len unfolding fragment_of_def by (metis add_0)
  qed
  moreover have "pk_length f \<le> mtu \<and> header_verifies f" if "f \<in> set fs" for f
    using that nth by (auto simp: in_set_conv_nth fragment_of_def)
  ultimately show ?thesis by (simp add: reassembles_def)
qed

lemma round8:
  fixes h m :: nat
  assumes "h + 8 \<le> m"
  shows "8 dvd (m - h) div 8 * 8" "8 \<le> (m - h) div 8 * 8" "h + (m - h) div 8 * 8 \<le> m"
    "(int m - int h) div 8 * 8 = int ((m - h) div 8 * 8)"
proof -
  obtain x where x: "m = h + x" "8 \<le> x" using assms by (auto simp: le_iff_add)
  have "1 \<le> x div 8" "x div 8 * 8 \<le> x" using x(2) by (simp_all add: div_greater_zero_iff Suc_le_eq)
  then show "8 dvd (m - h) div 8 * 8" "8 \<le> (m - h) div 8 * 8" "h + (m - h) div 8 * 8 \<le> m"
      "(int m - int h) div 8 * 8 = int ((m - h) div 8 * 8)"
    using x(1) by (simp_all add: zdiv_int)
qed

lemma ip_hl_bound: "unat (ip_hl b h) \<le> 15"
proof -
  have "(0x0F :: u8) = mask 4" by (simp add: mask_eq_exp_minus_1)
  then have "unat (ip_hl b h) = unat (get8 b h) mod 16"
    unfolding ip_hl_def by (simp only: take_bit_eq_mask [symmetric] unsigned_take_bit_eq) (simp add: take_bit_eq_mod)
  then show ?thesis by simp
qed

text \<open>The rewritten packet \<open>e\<close> of the original \<open>d\<close>.\<close>

definition rewritten :: "nat \<Rightarrow> bytes \<Rightarrow> bytes \<Rightarrow> bool" where
  "rewritten hlen d e \<longleftrightarrow> length e = length d \<and> ip_hl e 0 = ip_hl d 0 \<and> drop 20 e = drop 20 d \<and>
     click_in_cksum (take hlen e) = 0 \<and> ntohs (get16 e 6) = IP_MF"

lemma rewritten_drop: "rewritten hlen d e \<Longrightarrow> 20 \<le> k \<Longrightarrow> drop k e = drop k d"
  unfolding rewritten_def by (metis drop_drop le_add_diff_inverse2)

lemma first_fragment_of:
  assumes r: "rewritten hlen d e" and hlen: "hlen = header_bytes d" "20 \<le> hlen"
    and F: "hlen + F \<le> mtu" "mtu < length d" and f: "pk_data f = take (hlen + F) e"
  shows "fragment_of mtu (drop hlen d) (0, F) f"
proof -
  have len: "length e = length d" and mf: "ntohs (get16 e 6) = IP_MF" and hl: "ip_hl e 0 = ip_hl d 0"
    using r by (simp_all add: rewritten_def)
  have hb: "header_bytes (pk_data f) = hlen" using hl hlen by (simp add: f ip_hl_def)
  have off: "get16 (pk_data f) 6 = get16 e 6" using hlen by (simp add: f)
  have "pk_length f = hlen + F" using F len by (simp add: pk_length_def f)
  moreover have "header_verifies f"
    unfolding header_verifies_def hb using r F len by (simp add: f rewritten_def)
  moreover have "frag_payload f = take F (drop hlen d)"
    unfolding frag_payload_def hb using rewritten_drop [OF r hlen(2)] by (simp add: f drop_take)
  moreover have "frag_offset f = 0" "more_fragments f"
    using offset_word(1,2) [of 0] by (simp_all add: frag_offset_def more_fragments_def off mf)
  ultimately show ?thesis using F by (simp add: fragment_of_def)
qed

lemma later_fragment_of:
  assumes r: "rewritten hlen d e" and hlen: "20 \<le> hlen" "hlen \<le> length d" "length d < 65536"
    and opts: "4 dvd length opts" "length opts \<le> 40" "20 + length opts + l \<le> mtu"
    and c: "8 dvd off" "off + l \<le> length d - hlen" "0 < l"
    and f: "pk_data f = frag_data (hd' @ e) (length hd') (length hd' + hlen) opts False (int (length d - hlen)) (int off) (int l)"
  shows "fragment_of mtu (drop hlen d) (off, l) f"
proof -
  have len: "length e = length d" and mf: "ntohs (get16 (hd' @ e) (length hd' + 6)) = IP_MF"
    using r by (simp_all add: rewritten_def)
  have b: "length hd' + 20 \<le> length (hd' @ e)" "length hd' + hlen + off + l \<le> length (hd' @ e)"
    using hlen c(2) len by simp_all
  note v = frag_data_view [OF b opts(1,2) mf c(1,2) _ c(3), folded f]
  have "take l (drop (length hd' + hlen + off) (hd' @ e)) = take l (drop off (drop hlen d))"
    using rewritten_drop [OF r, of "hlen + off"] hlen(1) by (simp add: add.commute)
  then show ?thesis
    using v hlen(3) opts(3) hlen(2)
    by (simp add: fragment_of_def pk_length_def header_verifies_def frag_payload_def frag_offset_def more_fragments_def)
qed

section \<open>Properties\<close>

text \<open>(C21) A packet longer than the MTU that was not itself a fragment is sent as fragments of at most
  the MTU with verifying header checksums that reassemble to its payload; the loop over the
  fragments ends.  This is for an unshared packet that starts with its IP header, whose flags and fragment
  offset are all zero (so fragmenting it is not forbidden) and whose length field is its length, an MTU
  with room for its header and eight bytes, and memory for every fragment.\<close>

theorem fragments_reassemble:
  assumes start: "at_start p" "pk_h p = Some (length (pk_head p) + hlen)" "hlen = header_bytes (pk_data p)" "20 \<le> hlen"
    and len: "unat (ntohs (get16 (pk_data p) 2)) = pk_length p" "hlen + 8 \<le> fr_mtu s" "fr_mtu s < pk_length p"
    and whole: "get16 (pk_data p) 6 = 0" and own: "\<not> shared p" and mem: "\<And>i. env_packet env i"
  shows "\<exists>s' fs q. IPFragmenter_push env n s p = Some (Inr (s', map (Emit 0) fs @ [Kill q])) \<and>
    reassembles (drop hlen (pk_data p)) fs \<and> (\<forall>f \<in> set fs. pk_length f \<le> fr_mtu s \<and> header_verifies f)"
proof -
  define d hd' mtu where "d = pk_data p" and "hd' = pk_head p" and "mtu = fr_mtu s"
  define F where "F = (mtu - hlen) div 8 * 8"
  have ld: "length d < 65536" "length d = pk_length p" "mtu < length d"
    using len unat_u16_bound [of "ntohs (get16 (pk_data p) 2)"] by (simp_all add: d_def pk_length_def mtu_def)
  have hl: "hlen = header_bytes d" "hlen \<le> 60" "hlen \<le> length d" "4 dvd hlen - 20"
    using start(3,4) ip_hl_bound [of d 0] len(2) ld by (auto simp: d_def mtu_def intro: dvd_diff_nat)
  have F: "8 dvd F" "8 \<le> F" "hlen + F \<le> mtu" "(int mtu - int hlen) div 8 * 8 = int F"
    using round8 [OF len(2)] by (simp_all add: F_def mtu_def)
  obtain e where e: "frag_first env hlen (int F) (length hd') (hd' @ d) = hd' @ e" "rewritten hlen d e"
    using frag_first_view [of hlen d "int F" env hd'] start(4) hl(2,3) whole F(3) ld by (auto simp: d_def rewritten_def)
  define opts where "opts = optcopy (take (hlen - 20) (drop 20 e))"
  have lo: "length opts \<le> hlen - 20" "4 dvd length opts"
    using optcopy_length [of "take (hlen - 20) (drop 20 e)"] hl(3,4) e(2)
    by (auto simp: opts_def rewritten_def mod_0_imp_dvd)
  define D where "D = (mtu - (20 + length opts)) div 8 * 8"
  have D: "0 < D" "8 dvd D" "20 + length opts + D \<le> mtu" "20 + length opts \<le> mtu"
  proof -
    have o: "20 + length opts + 8 \<le> mtu" using lo(1) len(2) start(4) by (simp add: mtu_def)
    show "0 < D" "8 dvd D" "20 + length opts + D \<le> mtu" "20 + length opts \<le> mtu"
      using round8 [OF o] o by (simp_all add: D_def)
  qed
  define N where "N = length d - hlen"
  define p1 where "p1 = set_buffer (hd' @ e) p"
  define s1 where "s1 = s\<lparr>fr_fragments := fr_fragments s + 1\<rparr>"
  define first where "first = packet_take (length d - hlen - F) (packet_clone p1)"
  define later where "later = later_fragment env s1 p1 (hd' @ e) (length hd') (length hd' + hlen) opts False N"
  obtain s' where loop: "frag_loop env s1 p1 (hd' @ e) (length hd') (length hd' + hlen) opts False (int N) 1 (int F) [Emit 0 first] =
      Some (s', [Emit 0 first] @ map (\<lambda>c. Emit 0 (later c)) (cuts D N F))"
    using frag_loop_cuts [of env D s1 opts p1 "hd' @ e" "length hd'" "length hd' + hlen" False N 1 F "[Emit 0 first]"] mem D
    by (auto simp: later_def D_def mtu_def s1_def)
  define fs where "fs = first # map later (cuts D N F)"
  have p1: "pk_data p1 = e" "pk_head p1 = hd'"
    by (simp_all add: p1_def hd'_def)
  have "pk_data first = take (hlen + F) e"
    using p1 F(3) ld(3) e(2) by (auto simp: first_def packet_take_def packet_clone_def pk_length_def rewritten_def)
  then have "fragment_of mtu (drop hlen d) (0, F) first"
    using first_fragment_of [OF e(2) hl(1) start(4) F(3) ld(3)] by simp
  moreover have "fragment_of mtu (drop hlen d) c (later c)" if "c \<in> set (cuts D N F)" for c
    using cuts_bounds [OF D(2) F(1), of "fst c" "snd c" N] that lo hl(2) D(3)
    by (intro later_fragment_of [OF e(2) start(4) hl(3) ld(1) lo(2), of "snd c" mtu "fst c", simplified])
      (auto simp: later_def N_def)
  ultimately have "list_all2 (fragment_of mtu (drop hlen d)) ((0, F) # cuts D N F) fs"
    by (simp add: fs_def list_all2_map2 list_all2_same)
  moreover have "chained (length (drop hlen d)) 0 ((0, F) # cuts D N F)"
    using cuts_chained [OF D(1), of F N] F ld(3) by (simp add: N_def)
  ultimately have good: "reassembles (drop hlen d) fs \<and> (\<forall>f \<in> set fs. pk_length f \<le> mtu \<and> header_verifies f)"
    by (rule fragments_of_chain)
  have buf: "pk_buffer p = hd' @ d" "pk_nh p = Some (length hd')" "pk_h p = Some (length hd' + hlen)"
    using start by (simp_all add: pk_buffer_def hd'_def d_def at_start_def)
  have "IPFragmenter_push env n s p = Some (Inr (s', map (Emit 0) fs @ [Kill (after_clone p1)]))"
  proof -
    have c: "\<not> int (length (hd' @ d)) - int (length hd') \<le> int (fr_mtu s)" "\<not> int F < 8" "\<not> length (hd' @ d) < length hd' + 20"
        "\<not> (length (hd' @ d) < length hd' + hlen \<or> int (length (hd' @ d)) < int (length hd' + hlen) + int N)"
      using ld F(2) hl(3) start(4) by (simp_all add: mtu_def N_def)
    have x: "unat (ntohs (ip_len (hd' @ d) (length hd'))) = length d" "ip_off (hd' @ d) (length hd') = 0"
        "4 * unat (ip_hl (hd' @ d) (length hd')) = hlen" "int (length d) - int hlen = int N"
        "drop (length hd' + 20) (hd' @ e) = drop 20 e"
      using len(1) ld whole hl e(2) F(3) by (simp_all add: d_def N_def rewritten_def mtu_def)
    have y: "packet_take (nat (int (length e) - int hlen - int F)) (packet_clone p1) = first"
    proof -
      have "nat (int (length e) - int hlen - int F) = length d - hlen - F"
        using e(2) F(3) ld(3) by (simp add: rewritten_def nat_diff_distrib)
      then show ?thesis by (simp add: first_def)
    qed
    show ?thesis
      unfolding IPFragmenter_push_def fragment_def buf option.case prod.case Let_def x F(4) [unfolded mtu_def] c(1)
      using c x(2) own mem loop
      by (simp add: buf F(4) [unfolded mtu_def] e(1) p1_def [symmetric] opts_def [symmetric] s1_def [symmetric] x y fs_def comp_def)
  qed
  then show ?thesis using good unfolding d_def mtu_def by blast
qed

text \<open>A packet of 40 bytes cut at an MTU of 28.\<close>

definition forty :: packet where
  "forty = set_network_header 0 20 (fresh_packet [] (0x45 # 0 # 0 # 40 # zeros 36) 0)"

definition cutter :: "nat \<Rightarrow> IPFragmenter" where
  "cutter mtu = \<lparr>fr_honor_df = True, fr_mtu = mtu, fr_headroom = 28, fr_drops = 0, fr_fragments = 0\<rparr>"

lemma forty_facts:
  "pk_data forty = 0x45 # 0 # 0 # 40 # zeros 36" "pk_head forty = []" "\<not> shared forty" "pk_length forty = 40"
  "at_start forty" "pk_h forty = Some 20"
  by (simp_all add: forty_def set_network_header_def fresh_packet_def shared_def pk_length_def at_start_def pk_headroom_def)

theorem fragments_reassemble_witness:
  "\<exists>s' fs q. IPFragmenter_push sample_env 2 (cutter 28) forty = Some (Inr (s', map (Emit 0) fs @ [Kill q])) \<and>
     reassembles (drop 20 (pk_data forty)) fs"
proof -
  have h: "pk_h forty = Some (length (pk_head forty) + 20)" using forty_facts by simp
  have hl: "20 = header_bytes (pk_data forty)" by (simp add: forty_facts ip_hl_def get8_def)
  have len: "unat (ntohs (get16 (pk_data forty) 2)) = pk_length forty" "get16 (pk_data forty) 6 = 0"
    by (simp_all add: forty_facts get16_def htons_def zeros_def)
  have mtu: "20 + 8 \<le> fr_mtu (cutter 28)" "fr_mtu (cutter 28) < pk_length forty" by (simp_all add: cutter_def forty_facts)
  have mem: "env_packet sample_env i" for i by (simp add: sample_env_def)
  show ?thesis
    using fragments_reassemble [OF forty_facts(5) h hl _ len(1) mtu len(2) forty_facts(3) mem] by blast
qed

text \<open>A packet that fits, or that must not be cut, is left alone: it goes on unchanged, or with its
  don't-fragment bit honoured, or no room for eight bytes after the header, to the error output with
  the drop counted.\<close>

theorem unfragmented_packets:
  assumes "at_start p" "pk_h p = Some t" "20 \<le> pk_length p"
    "pk_length p \<le> fr_mtu s \<or> (get16 (pk_data p) 6 AND htons IP_DF \<noteq> 0 \<and> fr_honor_df s) \<or>
     fr_mtu s < header_bytes (pk_data p) + 8"
  shows "IPFragmenter_push env n s p =
    (if pk_length p \<le> fr_mtu s then Some (Inr (s, [Emit 0 p]))
     else Some (Inr (s\<lparr>fr_drops := fr_drops s + 1\<rparr>, checked_output_push n 1 p)))"
proof -
  have buf: "pk_buffer p = pk_head p @ pk_data p" "pk_nh p = Some (length (pk_head p))"
    using assms(1) by (simp_all add: pk_buffer_def at_start_def)
  have small: "(int (fr_mtu s) - int h) div 8 * 8 < 8" if "fr_mtu s < h + 8" for h
    using that by presburger
  show ?thesis
  proof (cases "pk_length p \<le> fr_mtu s")
    case True
    then show ?thesis by (simp add: IPFragmenter_push_def buf pk_length_def)
  next
    case False
    have push: "IPFragmenter_push env n s p = fragment env n s p"
      using False by (simp add: IPFragmenter_push_def buf pk_length_def)
    have cond: "(ip_off (pk_head p @ pk_data p) (length (pk_head p)) AND htons IP_DF \<noteq> 0 \<and> fr_honor_df s) \<or>
        (int (fr_mtu s) - int (4 * unat (ip_hl (pk_head p @ pk_data p) (length (pk_head p))))) div 8 * 8 < 8"
      using assms(4) False small [of "header_bytes (pk_data p)"] by (simp only: get_append_right ip_vhl_append_right) blast
    have len: "\<not> length (pk_head p @ pk_data p) < length (pk_head p) + 20" using assms(3) by (simp add: pk_length_def)
    show ?thesis
      unfolding push fragment_def buf assms(2) Let_def prod.case option.case using cond len False by (simp only: if_True if_False)
  qed
qed

theorem unfragmented_packets_witness:
  "IPFragmenter_push sample_env 2 (cutter 1500) forty = Some (Inr (cutter 1500, [Emit 0 forty]))"
  using unfragmented_packets [OF forty_facts(5,6), of "cutter 1500" sample_env 2] forty_facts(4)
  by (simp add: cutter_def)

end
