(* ===== verification/LinkedList.thy ===== *)
theory LinkedList
  imports Prelude
begin

text \<open>
  \<^verbatim>\<open>List<T, member>\<close> (\<^verbatim>\<open>include/click/list.hh\<close>): the doubly linked list whose links are
  stored in its elements.  The links of all elements are a store from elements to pointers, so
  that every pointer assignment of the source is an update of that store; the list proper is the
  head and tail pointer.  \<open>dl_rep d xs\<close> says that the links represent the list \<open>xs\<close>: the next
  pointers run through it, the previous pointers run back, and no other element carries a link.

  What a client relies on is the locale \<open>linked_list\<close>: each operation acts on the represented
  list, and an element on a list can be moved to its end or to another place.  The ARP table
  keeps its entries in the order of their age on such a list.
\<close>

section \<open>The code\<close>

record 'a dlist =
  dl_next :: "'a \<Rightarrow> 'a option"
  dl_prev :: "'a \<Rightarrow> 'a option"
  dl_head :: "'a option"
  dl_tail :: "'a option"

definition dl_new :: "'a dlist" where
  "dl_new = \<lparr>dl_next = (\<lambda>_. None), dl_prev = (\<lambda>_. None), dl_head = None, dl_tail = None\<rparr>"

definition dl_isolated :: "'a \<Rightarrow> 'a dlist \<Rightarrow> bool" where
  "dl_isolated x d \<longleftrightarrow> dl_next d x = None \<and> dl_prev d x = None \<and> dl_head d \<noteq> Some x"

definition set_next :: "'a \<Rightarrow> 'a option \<Rightarrow> 'a dlist \<Rightarrow> 'a dlist" where
  "set_next x p d = d\<lparr>dl_next := (dl_next d)(x := p)\<rparr>"

definition set_prev :: "'a \<Rightarrow> 'a option \<Rightarrow> 'a dlist \<Rightarrow> 'a dlist" where
  "set_prev x p d = d\<lparr>dl_prev := (dl_prev d)(x := p)\<rparr>"

definition dl_push_front :: "'a \<Rightarrow> 'a dlist \<Rightarrow> 'a dlist res" where
  "dl_push_front x d =
     guard (dl_isolated x d) AssertFail
       (let d1 = set_next x (dl_head d) d;
            d2 = (case dl_head d of Some h \<Rightarrow> set_prev h (Some x) d1
                    | None \<Rightarrow> d1\<lparr>dl_tail := Some x\<rparr>)
        in Inr (set_prev x None (d2\<lparr>dl_head := Some x\<rparr>)))"

definition dl_push_back :: "'a \<Rightarrow> 'a dlist \<Rightarrow> 'a dlist res" where
  "dl_push_back x d =
     guard (dl_next d x = None \<and> dl_prev d x = None) AssertFail
       (let d1 = set_prev x (dl_tail d) d;
            d2 = (case dl_tail d of Some t \<Rightarrow> set_next t (Some x) d1
                    | None \<Rightarrow> set_prev x None (d1\<lparr>dl_head := Some x\<rparr>))
        in Inr (d2\<lparr>dl_tail := Some x\<rparr>))"

definition dl_pop_front :: "'a dlist \<Rightarrow> 'a dlist res" where
  "dl_pop_front d = (case dl_head d of
       None \<Rightarrow> Inl AssertFail
     | Some x \<Rightarrow>
         let d1 = d\<lparr>dl_head := dl_next d x\<rparr>;
             d2 = (case dl_head d1 of Some h \<Rightarrow> set_prev h None d1
                     | None \<Rightarrow> d1\<lparr>dl_head := None, dl_tail := None\<rparr>)
         in Inr (set_next x None (set_prev x None d2)))"

definition dl_pop_back :: "'a dlist \<Rightarrow> 'a dlist res" where
  "dl_pop_back d = (case dl_head d of
       None \<Rightarrow> Inl AssertFail
     | Some _ \<Rightarrow> (case dl_tail d of
           None \<Rightarrow> Inl NullDeref
         | Some x \<Rightarrow>
             let d1 = d\<lparr>dl_tail := dl_prev d x\<rparr>;
                 d2 = (case dl_tail d1 of Some t \<Rightarrow> set_next t None d1
                         | None \<Rightarrow> d1\<lparr>dl_head := None, dl_tail := None\<rparr>)
             in Inr (set_next x None (set_prev x None d2))))"

text \<open>\<^verbatim>\<open>insert\<close> before an element, or at the end for a null position: \<^verbatim>\<open>pprev\<close> points
  to the previous pointer of that element, or to the tail.\<close>

definition dl_insert :: "'a option \<Rightarrow> 'a \<Rightarrow> 'a dlist \<Rightarrow> 'a dlist res" where
  "dl_insert pos x d =
     guard (dl_isolated x d) AssertFail
       (let before = (case pos of Some p \<Rightarrow> dl_prev d p | None \<Rightarrow> dl_tail d);
            d1 = set_prev x before d;
            d2 = (case before of Some b \<Rightarrow> set_next b (Some x) d1 | None \<Rightarrow> d1\<lparr>dl_head := Some x\<rparr>);
            d3 = (case pos of Some p \<Rightarrow> set_prev p (Some x) d2 | None \<Rightarrow> d2\<lparr>dl_tail := Some x\<rparr>)
        in Inr (set_next x pos d3))"

definition dl_erase :: "'a \<Rightarrow> 'a dlist \<Rightarrow> 'a dlist" where
  "dl_erase x d =
     (let n = dl_next d x; p = dl_prev d x;
          d1 = (case n of Some n' \<Rightarrow> set_prev n' p d | None \<Rightarrow> d\<lparr>dl_tail := p\<rparr>);
          d2 = (case p of Some p' \<Rightarrow> set_next p' n d1 | None \<Rightarrow> d1\<lparr>dl_head := n\<rparr>)
      in set_next x None (set_prev x None d2))"

text \<open>\<^verbatim>\<open>size\<close> and \<^verbatim>\<open>clear\<close> follow the next pointers for as long as there is one.\<close>

partial_function (option) dl_count :: "('a \<Rightarrow> 'a option) \<Rightarrow> 'a option \<Rightarrow> nat \<Rightarrow> nat option" where
  "dl_count f p n = (case p of None \<Rightarrow> Some n | Some x \<Rightarrow> dl_count f (f x) (n + 1))"

definition dl_size :: "'a dlist \<Rightarrow> nat option" where
  "dl_size d = dl_count (dl_next d) (dl_head d) 0"

partial_function (option) dl_clear :: "'a dlist \<Rightarrow> 'a dlist option" where
  "dl_clear d = (case dl_head d of
       None \<Rightarrow> Some (d\<lparr>dl_tail := None\<rparr>)
     | Some x \<Rightarrow> dl_clear (set_next x None (set_prev x None (d\<lparr>dl_head := dl_next d x\<rparr>))))"

section \<open>The represented list\<close>

definition first_of :: "'a list \<Rightarrow> 'a option" where
  "first_of xs = (case xs of [] \<Rightarrow> None | x # _ \<Rightarrow> Some x)"

lemma first_of_simps [simp]: "first_of [] = None" "first_of (x # xs) = Some x"
  by (simp_all add: first_of_def)

primrec chain :: "('a \<Rightarrow> 'a option) \<Rightarrow> 'a option \<Rightarrow> 'a list \<Rightarrow> 'a option \<Rightarrow> bool" where
  "chain f p [] q \<longleftrightarrow> p = q"
| "chain f p (x # xs) q \<longleftrightarrow> p = Some x \<and> chain f (f x) xs q"

lemma chain_append [simp]: "chain f p (xs @ ys) q \<longleftrightarrow> (\<exists>r. chain f p xs r \<and> chain f r ys q)"
  by (induction xs arbitrary: p) auto

lemma chain_upd [simp]: "x \<notin> set xs \<Longrightarrow> chain (f(x := v)) p xs q \<longleftrightarrow> chain f p xs q"
  by (induction xs arbitrary: p) auto

lemma chain_if [simp]:
  "x \<notin> set xs \<Longrightarrow> chain (\<lambda>a. if a = x then v else f a) p xs q \<longleftrightarrow> chain f p xs q"
  by (induction xs arbitrary: p) auto

lemma chain_None [simp]: "chain f None xs q \<longleftrightarrow> xs = [] \<and> q = None"
  by (cases xs) auto

definition dl_rep :: "'a dlist \<Rightarrow> 'a list \<Rightarrow> bool" where
  "dl_rep d xs \<longleftrightarrow> distinct xs \<and> chain (dl_next d) (dl_head d) xs None
     \<and> chain (dl_prev d) (dl_tail d) (rev xs) None
     \<and> (\<forall>x. x \<notin> set xs \<longrightarrow> dl_next d x = None \<and> dl_prev d x = None)"

lemmas dl_update_defs = set_next_def set_prev_def Let_def

lemma dl_rep_new: "dl_rep dl_new []"
  by (simp add: dl_rep_def dl_new_def)

lemma dl_rep_head: "dl_rep d xs \<Longrightarrow> dl_head d = first_of xs"
  by (cases xs) (auto simp: dl_rep_def)

lemma dl_rep_tail: "dl_rep d xs \<Longrightarrow> dl_tail d = (if xs = [] then None else Some (last xs))"
  by (cases xs rule: rev_cases) (auto simp: dl_rep_def)

lemma dl_rep_next: "dl_rep d (xs @ x # ys) \<Longrightarrow> dl_next d x = first_of ys"
  by (cases ys) (auto simp: dl_rep_def)

lemma dl_rep_prev: "dl_rep d (xs @ x # ys) \<Longrightarrow> dl_prev d x = (if xs = [] then None else Some (last xs))"
  by (cases xs rule: rev_cases) (auto simp: dl_rep_def)

lemma dl_rep_isolated: "dl_rep d xs \<Longrightarrow> x \<notin> set xs \<Longrightarrow> dl_isolated x d"
  by (cases xs) (auto simp: dl_isolated_def dl_rep_def)

lemma dl_push_front_rep:
  assumes "dl_rep d xs" "x \<notin> set xs"
  shows "\<exists>d'. dl_push_front x d = Inr d' \<and> dl_rep d' (x # xs)"
  using assms dl_rep_isolated [OF assms]
  by (cases xs) (auto simp: dl_push_front_def dl_update_defs dl_rep_def)

lemma dl_push_back_rep:
  assumes "dl_rep d xs" "x \<notin> set xs"
  shows "\<exists>d'. dl_push_back x d = Inr d' \<and> dl_rep d' (xs @ [x])"
  using assms dl_rep_isolated [OF assms]
  by (cases xs rule: rev_cases) (auto simp: dl_push_back_def dl_update_defs dl_rep_def dl_isolated_def)

lemma dl_insert_rep:
  assumes "dl_rep d (xs @ ys)" "x \<notin> set (xs @ ys)"
  shows "\<exists>d'. dl_insert (first_of ys) x d = Inr d' \<and> dl_rep d' (xs @ x # ys)"
  using assms dl_rep_isolated [OF assms]
  by (cases xs rule: rev_cases; cases ys) (auto simp: dl_insert_def dl_update_defs dl_rep_def)

lemma dl_erase_rep:
  assumes "dl_rep d (xs @ x # ys)"
  shows "dl_rep (dl_erase x d) (xs @ ys)"
  using assms dl_rep_next [OF assms] dl_rep_prev [OF assms]
  by (cases xs rule: rev_cases; cases ys) (auto simp: dl_erase_def dl_update_defs dl_rep_def)

lemma dl_pop_front_rep:
  assumes "dl_rep d (x # xs)"
  shows "\<exists>d'. dl_pop_front d = Inr d' \<and> dl_rep d' xs"
  using assms by (cases xs) (auto simp: dl_pop_front_def dl_update_defs dl_rep_def)

lemma dl_pop_back_rep:
  assumes "dl_rep d (xs @ [x])"
  shows "\<exists>d'. dl_pop_back d = Inr d' \<and> dl_rep d' xs"
proof -
  obtain h where "dl_head d = Some h"
    using dl_rep_head [OF assms] by (cases xs) simp_all
  then show ?thesis
    using assms by (cases xs rule: rev_cases) (auto simp: dl_pop_back_def dl_update_defs dl_rep_def)
qed

lemma dl_count_chain: "chain f p xs None \<Longrightarrow> dl_count f p n = Some (n + length xs)"
  by (induction xs arbitrary: p n) (simp_all add: dl_count.simps)

lemma dl_size_rep: "dl_rep d xs \<Longrightarrow> dl_size d = Some (length xs)"
  using dl_count_chain [of "dl_next d" "dl_head d" xs 0] by (simp add: dl_size_def dl_rep_def)

lemma dl_clear_chain:
  assumes "distinct xs" "chain (dl_next d) (dl_head d) xs None"
    and "\<And>x. x \<notin> set xs \<Longrightarrow> dl_next d x = None \<and> dl_prev d x = None"
  shows "\<exists>d'. dl_clear d = Some d' \<and> dl_rep d' []"
  using assms
proof (induction xs arbitrary: d)
  case Nil
  then show ?case by (subst dl_clear.simps) (simp add: dl_rep_def)
next
  case (Cons x xs)
  then have "\<exists>d'. dl_clear (set_next x None (set_prev x None (d\<lparr>dl_head := dl_next d x\<rparr>))) = Some d'
      \<and> dl_rep d' []"
    by (intro Cons.IH) (auto simp: dl_update_defs)
  with Cons.prems show ?case by (subst dl_clear.simps) simp
qed

lemma dl_clear_rep: "dl_rep d xs \<Longrightarrow> \<exists>d'. dl_clear d = Some d' \<and> dl_rep d' []"
  by (rule dl_clear_chain [of xs]) (auto simp: dl_rep_def)

section \<open>What a client relies on\<close>

locale linked_list =
  fixes rep :: "'s \<Rightarrow> 'a list \<Rightarrow> bool"
    and front :: "'s \<Rightarrow> 'a option"
    and succ :: "'s \<Rightarrow> 'a \<Rightarrow> 'a option"
    and append :: "'a \<Rightarrow> 's \<Rightarrow> 's res"
    and insert_before :: "'a option \<Rightarrow> 'a \<Rightarrow> 's \<Rightarrow> 's res"
    and remove :: "'a \<Rightarrow> 's \<Rightarrow> 's"
  assumes rep_distinct: "rep d xs \<Longrightarrow> distinct xs"
    and rep_front: "rep d xs \<Longrightarrow> front d = first_of xs"
    and rep_succ: "rep d (xs @ x # ys) \<Longrightarrow> succ d x = first_of ys"
    and rep_append: "rep d xs \<Longrightarrow> x \<notin> set xs \<Longrightarrow> \<exists>d'. append x d = Inr d' \<and> rep d' (xs @ [x])"
    and rep_insert: "rep d (xs @ ys) \<Longrightarrow> x \<notin> set (xs @ ys) \<Longrightarrow>
      \<exists>d'. insert_before (first_of ys) x d = Inr d' \<and> rep d' (xs @ x # ys)"
    and rep_remove: "rep d (xs @ x # ys) \<Longrightarrow> rep (remove x d) (xs @ ys)"
begin

lemma move_to_back:
  assumes "rep d (xs @ x # ys)"
  shows "\<exists>d'. append x (remove x d) = Inr d' \<and> rep d' (xs @ ys @ [x])"
  using rep_append [OF rep_remove [OF assms], of x] rep_distinct [OF assms] by simp

lemma move_before:
  assumes "rep d (xs @ x # ys @ zs)"
  shows "\<exists>d'. insert_before (first_of zs) x (remove x d) = Inr d' \<and> rep d' (xs @ ys @ x # zs)"
  using rep_insert [of "remove x d" "xs @ ys" zs x] rep_remove [OF assms] rep_distinct [OF assms] by simp

end

interpretation dl: linked_list dl_rep dl_head dl_next dl_push_back dl_insert dl_erase
  by unfold_locales
    (auto simp: dl_rep_head dl_rep_next dl_rep_def [THEN iffD1, THEN conjunct1]
      intro: dl_push_back_rep dl_insert_rep dl_erase_rep)

section \<open>Operation sequences\<close>

datatype 'a list_op =
    PushFront 'a
  | PushBack 'a
  | PopFront
  | PopBack
  | InsertBefore "'a option" 'a
  | Erase 'a
  | Clear

fun dl_step :: "'a list_op \<Rightarrow> 'a dlist \<Rightarrow> 'a dlist res option" where
  "dl_step (PushFront x) d = Some (dl_push_front x d)"
| "dl_step (PushBack x) d = Some (dl_push_back x d)"
| "dl_step PopFront d = Some (dl_pop_front d)"
| "dl_step PopBack d = Some (dl_pop_back d)"
| "dl_step (InsertBefore p x) d = Some (dl_insert p x d)"
| "dl_step (Erase x) d = Some (Inr (dl_erase x d))"
| "dl_step Clear d = map_option Inr (dl_clear d)"

text \<open>The same on lists, with the preconditions the source documents.\<close>

fun list_step :: "'a list_op \<Rightarrow> 'a list \<Rightarrow> 'a list option" where
  "list_step (PushFront x) xs = (if x \<in> set xs then None else Some (x # xs))"
| "list_step (PushBack x) xs = (if x \<in> set xs then None else Some (xs @ [x]))"
| "list_step PopFront xs = (if xs = [] then None else Some (tl xs))"
| "list_step PopBack xs = (if xs = [] then None else Some (butlast xs))"
| "list_step (InsertBefore None x) xs = (if x \<in> set xs then None else Some (xs @ [x]))"
| "list_step (InsertBefore (Some p) x) xs =
     (if x \<in> set xs \<or> p \<notin> set xs then None
      else Some (takeWhile (\<lambda>y. y \<noteq> p) xs @ x # dropWhile (\<lambda>y. y \<noteq> p) xs))"
| "list_step (Erase x) xs = (if x \<in> set xs then Some (remove1 x xs) else None)"
| "list_step Clear xs = Some []"

fun dl_run :: "'a list_op list \<Rightarrow> 'a dlist \<Rightarrow> 'a dlist res option" where
  "dl_run [] d = Some (Inr d)"
| "dl_run (c # cs) d = (case dl_step c d of
       None \<Rightarrow> None
     | Some (Inl e) \<Rightarrow> Some (Inl e)
     | Some (Inr d') \<Rightarrow> dl_run cs d')"

fun list_run :: "'a list_op list \<Rightarrow> 'a list \<Rightarrow> 'a list option" where
  "list_run [] xs = Some xs"
| "list_run (c # cs) xs = (case list_step c xs of None \<Rightarrow> None | Some ys \<Rightarrow> list_run cs ys)"

lemma dl_insert_before_rep:
  assumes "dl_rep d xs" "x \<notin> set xs" "p \<in> set xs"
  shows "\<exists>d'. dl_insert (Some p) x d = Inr d'
    \<and> dl_rep d' (takeWhile (\<lambda>y. y \<noteq> p) xs @ x # dropWhile (\<lambda>y. y \<noteq> p) xs)"
proof -
  have "first_of (dropWhile (\<lambda>y. y \<noteq> p) xs) = Some p"
    using assms(3) by (induction xs) auto
  then show ?thesis
    using dl.rep_insert [of d "takeWhile (\<lambda>y. y \<noteq> p) xs" "dropWhile (\<lambda>y. y \<noteq> p) xs" x] assms by simp
qed

lemma dl_erase_remove1:
  assumes "dl_rep d xs" "x \<in> set xs"
  shows "dl_rep (dl_erase x d) (remove1 x xs)"
proof -
  obtain as bs where xs: "xs = as @ x # bs" "x \<notin> set as"
    using assms(2) by (meson split_list_first)
  then show ?thesis using dl_erase_rep [of d as x bs] assms(1) by (simp add: remove1_append)
qed

lemma dl_step_rep:
  assumes "dl_rep d xs" "list_step c xs = Some ys"
  shows "\<exists>d'. dl_step c d = Some (Inr d') \<and> dl_rep d' ys"
proof (cases c)
  case (PushFront x)
  then show ?thesis using assms dl_push_front_rep [of d xs x] by (auto split: if_splits)
next
  case (PushBack x)
  then show ?thesis using assms dl_push_back_rep [of d xs x] by (auto split: if_splits)
next
  case PopFront
  then show ?thesis using assms by (cases xs) (auto dest: dl_pop_front_rep)
next
  case PopBack
  then show ?thesis using assms by (cases xs rule: rev_cases) (auto dest: dl_pop_back_rep)
next
  case (InsertBefore p x)
  then show ?thesis
    using assms dl_insert_before_rep [of d xs x] dl.rep_insert [of d xs "[]" x]
    by (cases p) (auto split: if_splits)
next
  case (Erase x)
  then show ?thesis using assms dl_erase_remove1 [of d xs x] by (auto split: if_splits)
next
  case Clear
  then show ?thesis using assms dl_clear_rep [of d xs] by auto
qed

lemma dl_run_rep:
  "dl_rep d xs \<Longrightarrow> list_run cs xs = Some ys \<Longrightarrow> \<exists>d'. dl_run cs d = Some (Inr d') \<and> dl_rep d' ys"
proof (induction cs arbitrary: d xs)
  case (Cons c cs)
  then obtain zs where zs: "list_step c xs = Some zs" "list_run cs zs = Some ys"
    by (auto split: option.splits)
  then show ?case using dl_step_rep [OF Cons.prems(1) zs(1)] Cons.IH by fastforce
qed simp

text \<open>(C37) Any sequence of operations that keeps to the documented preconditions runs on the links
  without a failed assertion or a loop that does not end, and leaves links that represent the
  list the same operations make: in particular \<^verbatim>\<open>size\<close> returns its length, \<^verbatim>\<open>front\<close> and
  \<^verbatim>\<open>back\<close> its first and last element, and the links of every other element are clear.
\<close>

theorem linked_list_refines:
  assumes "list_run cs [] = Some xs"
  shows "\<exists>d. dl_run cs dl_new = Some (Inr d) \<and> dl_rep d xs \<and> dl_size d = Some (length xs)
    \<and> dl_head d = first_of xs \<and> dl_tail d = first_of (rev xs)
    \<and> (\<forall>x. x \<notin> set xs \<longrightarrow> dl_isolated x d)"
proof -
  obtain d where d: "dl_run cs dl_new = Some (Inr d)" "dl_rep d xs"
    using dl_run_rep [OF dl_rep_new assms] by blast
  have "dl_tail d = first_of (rev xs)"
    using dl_rep_tail [OF d(2)] by (cases xs rule: rev_cases) simp_all
  then show ?thesis
    using d dl_size_rep [OF d(2)] dl.rep_front [OF d(2)] dl_rep_isolated [OF d(2)] by blast
qed

theorem linked_list_refines_witness:
  "\<exists>d. dl_run [PushBack 1, PushBack 2, PushFront 3, Erase 1, InsertBefore (Some 2) 4, PopBack]
      (dl_new :: nat dlist) = Some (Inr d) \<and> dl_size d = Some 2 \<and> dl_head d = Some 3 \<and> dl_tail d = Some 4"
  using linked_list_refines [of "[PushBack 1, PushBack 2, PushFront 3, Erase 1, InsertBefore (Some 2) 4, PopBack]"
      "[3, 4 :: nat]"] by auto

end
