(* ===== verification/ARPTable.thy ===== *)
theory ARPTable
  imports Packets LinkedList
begin

text \<open>
  \<^verbatim>\<open>elements/ethernet/arptable.hh\<close> and \<^verbatim>\<open>arptable.cc\<close>: the ARP cache with its packets
  waiting for an address.  An \<^verbatim>\<open>ARPEntry\<close> is named by its \<^verbatim>\<open>_ip\<close>; the hash container is the
  map from names to entries, the age list the list of names, oldest first (its links are the
  subject of the theory \<open>LinkedList\<close>), and following a name that is no longer in the map is a use
  after free.  The packets of an entry, a chain through \<^verbatim>\<open>Packet::next\<close>, are a list.  Time is
  the 32-bit \<^verbatim>\<open>click_jiffies\<close> in milliseconds, compared by signed difference; each operation
  reads the clock once and takes the reading as its argument.  The lock is left out: the elements
  run on one thread.

  Shown: the counters are the sizes of what they count and the age list holds exactly the entries
  of the map; eviction never runs past the last entry, whatever the capacities; a new packet is
  queued last on its entry or refused without a change to any queue.
\<close>

section \<open>Ethernet addresses\<close>

definition is_broadcast :: "bytes \<Rightarrow> bool" where
  "is_broadcast e \<longleftrightarrow> unat (get16 e 0) + unat (get16 e 2) + unat (get16 e 4) = 0x2FFFD"

definition is_group :: "bytes \<Rightarrow> bool" where
  "is_group e \<longleftrightarrow> get8 e 0 AND 1 \<noteq> 0"

definition make_broadcast :: bytes where
  "make_broadcast = replicate 6 0xFF"

section \<open>Entries\<close>

definition CLICK_HZ :: u32 where
  "CLICK_HZ = 1000"

definition click_jiffies_less :: "u32 \<Rightarrow> u32 \<Rightarrow> bool" where
  "click_jiffies_less a b \<longleftrightarrow> sint (a - b) < 0"

record ARPEntry =
  ae_eth :: bytes
  ae_known :: bool
  ae_num_polls_since_reply :: u8
  ae_live_at_j :: u32
  ae_polled_at_j :: u32
  ae_queue :: "packet list"
  ae_entry_packet_count :: u32

definition ARPEntry_new :: "u32 \<Rightarrow> u32 \<Rightarrow> ARPEntry" where
  "ARPEntry_new live_at_j polled_at_j = \<lparr>ae_eth = make_broadcast, ae_known = False,
     ae_num_polls_since_reply = 0, ae_live_at_j = live_at_j, ae_polled_at_j = polled_at_j,
     ae_queue = [], ae_entry_packet_count = 0\<rparr>"

definition expired :: "ARPEntry \<Rightarrow> u32 \<Rightarrow> u32 \<Rightarrow> bool" where
  "expired ae now timeout_j \<longleftrightarrow> click_jiffies_less (ae_live_at_j ae + timeout_j) now \<and> timeout_j \<noteq> 0"

definition known :: "ARPEntry \<Rightarrow> u32 \<Rightarrow> u32 \<Rightarrow> bool" where
  "known ae now timeout_j \<longleftrightarrow> ae_known ae \<and> \<not> expired ae now timeout_j"

definition allow_poll :: "ARPEntry \<Rightarrow> u32 \<Rightarrow> bool" where
  "allow_poll ae now =
     (let thresh_j = ae_polled_at_j ae
        + (if 10 \<le> ae_num_polls_since_reply ae then CLICK_HZ * 2 else CLICK_HZ div 10)
      in \<not> click_jiffies_less now thresh_j)"

definition mark_poll :: "u32 \<Rightarrow> ARPEntry \<Rightarrow> ARPEntry" where
  "mark_poll now ae = ae\<lparr>ae_polled_at_j := now,
     ae_num_polls_since_reply := (if ae_num_polls_since_reply ae < 255
        then ae_num_polls_since_reply ae + 1 else ae_num_polls_since_reply ae)\<rparr>"

section \<open>The table\<close>

record ARPTable =
  at_table :: "u32 \<rightharpoonup> ARPEntry"
  at_age :: "u32 list"
  at_entry_count :: u32
  at_packet_count :: u32
  at_entry_capacity :: u32
  at_packet_capacity :: u32
  at_entry_packet_capacity :: u32
  at_capacity_slim_factor :: u32
  at_timeout_j :: u32
  at_drops :: u32

text \<open>The constructor; \<^verbatim>\<open>_timeout_j\<close> is uninitialised until \<^verbatim>\<open>configure\<close> sets it.\<close>

definition ARPTable_new :: "u32 \<Rightarrow> ARPTable" where
  "ARPTable_new junk = \<lparr>at_table = Map.empty, at_age = [], at_entry_count = 0, at_packet_count = 0,
     at_entry_capacity = 0, at_packet_capacity = 2048, at_entry_packet_capacity = 0,
     at_capacity_slim_factor = 2, at_timeout_j = junk, at_drops = 0\<rparr>"

text \<open>A timestamp is given by its seconds and the milliseconds of its fraction.\<close>

type_synonym timestamp = "u32 \<times> u32"

definition timeout_jiffies :: "timestamp \<Rightarrow> u32" where
  "timeout_jiffies ts = (case ts of (sec, msec) \<Rightarrow>
     if 0xFFFFFFFF div CLICK_HZ \<le> sec then 0 else sec * CLICK_HZ + msec)"

definition set_timeout :: "timestamp \<Rightarrow> ARPTable \<Rightarrow> ARPTable" where
  "set_timeout ts t = t\<lparr>at_timeout_j := timeout_jiffies ts\<rparr>"

text \<open>The keyword arguments, each absent or parsed, or a failed parse.\<close>

record arp_conf =
  cf_capacity :: "u32 option"
  cf_entry_capacity :: "u32 option"
  cf_entry_packet_capacity :: "u32 option"
  cf_capacity_slim_factor :: "u32 option"
  cf_timeout :: "timestamp option"

definition with_default :: "'a \<Rightarrow> 'a option \<Rightarrow> 'a" where
  "with_default d x = (case x of None \<Rightarrow> d | Some y \<Rightarrow> y)"

text \<open>\<^verbatim>\<open>Timer::schedule_after_sec\<close>: the timer number 0 armed after that many thousand
  milliseconds.\<close>

definition ARPTable_configure ::
  "arp_conf option \<Rightarrow> ARPTable \<Rightarrow> int \<times> ARPTable \<times> action list" where
  "ARPTable_configure conf t = (case conf of
       None \<Rightarrow> (- 1, t, [])
     | Some c \<Rightarrow>
         let t1 = t\<lparr>at_packet_capacity := with_default (at_packet_capacity t) (cf_capacity c),
               at_entry_capacity := with_default (at_entry_capacity t) (cf_entry_capacity c),
               at_entry_packet_capacity :=
                 with_default (at_entry_packet_capacity t) (cf_entry_packet_capacity c),
               at_capacity_slim_factor :=
                 with_default (at_capacity_slim_factor t) (cf_capacity_slim_factor c)\<rparr>
         in if at_capacity_slim_factor t1 = 0 then (error_result, t1, [])
            else let t2 = set_timeout (with_default (300, 0) (cf_timeout c)) t1
              in (0, t2, if at_timeout_j t2 \<noteq> 0
                         then [Schedule 0 (at_timeout_j t2 div CLICK_HZ * 1000)] else []))"

definition deref :: "ARPTable \<Rightarrow> u32 \<Rightarrow> ARPEntry res" where
  "deref t k = (case at_table t k of None \<Rightarrow> Inl UseAfterFree | Some ae \<Rightarrow> Inr ae)"

definition put_entry :: "u32 \<Rightarrow> ARPEntry \<Rightarrow> ARPTable \<Rightarrow> ARPTable" where
  "put_entry k ae t = t\<lparr>at_table := (at_table t)(k \<mapsto> ae)\<rparr>"

text \<open>\<^verbatim>\<open>clear\<close> walks the container in its own order, which is the argument.\<close>

fun clear_loop :: "u32 list \<Rightarrow> ARPTable \<Rightarrow> (ARPTable \<times> action list) res" where
  "clear_loop [] t = Inr (t, [])"
| "clear_loop (k # ks) t = bind_res (deref t k) (\<lambda>ae.
     bind_res (clear_loop ks (t\<lparr>at_table := (at_table t)(k := None),
         at_drops := at_drops t + of_nat (length (ae_queue ae))\<rparr>))
       (\<lambda>(t', as). Inr (t', map Kill (ae_queue ae) @ as)))"

definition ARPTable_clear :: "u32 list \<Rightarrow> ARPTable \<Rightarrow> (ARPTable \<times> action list) res" where
  "ARPTable_clear order t = bind_res (clear_loop order t) (\<lambda>(t', as).
     Inr (t'\<lparr>at_entry_count := 0, at_packet_count := 0, at_age := []\<rparr>, as))"

text \<open>\<^verbatim>\<open>slim\<close>, first loop: \<^verbatim>\<open>_age.front()\<close> is removed for as long as it has expired or
  there are too many entries.\<close>

definition free_entry :: "u32 \<Rightarrow> ARPEntry \<Rightarrow> ARPTable \<Rightarrow> ARPTable" where
  "free_entry k ae t = t\<lparr>at_table := (at_table t)(k := None),
     at_packet_count := at_packet_count t - of_nat (length (ae_queue ae)),
     at_drops := at_drops t + of_nat (length (ae_queue ae)),
     at_entry_count := at_entry_count t - 1\<rparr>"

fun slim_entries :: "u32 \<Rightarrow> u32 list \<Rightarrow> ARPTable \<Rightarrow> (ARPTable \<times> action list) res" where
  "slim_entries now [] t = Inr (t\<lparr>at_age := []\<rparr>, [])"
| "slim_entries now (k # age) t = bind_res (deref t k) (\<lambda>ae.
     if expired ae now (at_timeout_j t)
       \<or> (at_entry_capacity t \<noteq> 0 \<and> at_entry_capacity t < at_entry_count t)
     then bind_res (slim_entries now age (free_entry k ae t))
            (\<lambda>(t', as). Inr (t', map Kill (ae_queue ae) @ as))
     else Inr (t\<lparr>at_age := k # age\<rparr>, []))"

text \<open>Second loop: packets are dropped, oldest entry first, down to the slim capacity.\<close>

fun pop_packets :: "u32 \<Rightarrow> u32 \<Rightarrow> packet list \<Rightarrow> packet list \<times> packet list" where
  "pop_packets cap n [] = ([], [])"
| "pop_packets cap n (p # ps) =
     (if cap < n then case pop_packets cap (n - 1) ps of (dead, left) \<Rightarrow> (p # dead, left)
      else ([], p # ps))"

fun slim_packets :: "u32 \<Rightarrow> u32 list \<Rightarrow> ARPTable \<Rightarrow> (ARPTable \<times> action list) res" where
  "slim_packets cap [] t = (if cap < at_packet_count t then Inl NullDeref else Inr (t, []))"
| "slim_packets cap (k # age) t =
     (if cap < at_packet_count t
      then bind_res (deref t k) (\<lambda>ae.
        case pop_packets cap (at_packet_count t) (ae_queue ae) of (dead, left) \<Rightarrow>
          let n = of_nat (length dead);
              t1 = put_entry k (ae\<lparr>ae_queue := left,
                ae_entry_packet_count := ae_entry_packet_count ae - n\<rparr>) t
          in bind_res (slim_packets cap age
                 (t1\<lparr>at_packet_count := at_packet_count t - n, at_drops := at_drops t + n\<rparr>))
               (\<lambda>(t', as). Inr (t', map Kill dead @ as)))
      else Inr (t, []))"

definition slim :: "u32 \<Rightarrow> ARPTable \<Rightarrow> (ARPTable \<times> action list) res" where
  "slim now t = bind_res (slim_entries now (at_age t) t) (\<lambda>(t1, as).
     if at_packet_capacity t1 \<noteq> 0 \<and> at_packet_capacity t1 < at_packet_count t1
     then guard (at_capacity_slim_factor t1 \<noteq> 0) DivByZero
       (let cap = at_packet_capacity t1 - at_packet_capacity t1 div at_capacity_slim_factor t1;
            slim_capacity = (if cap = 0 then 1 else cap)
        in bind_res (slim_packets slim_capacity (at_age t1) t1) (\<lambda>(t2, bs). Inr (t2, as @ bs)))
     else Inr (t1, as))"

definition ARPTable_run_timer :: "u32 \<Rightarrow> ARPTable \<Rightarrow> (ARPTable \<times> action list) res" where
  "ARPTable_run_timer now t = bind_res (slim now t) (\<lambda>(t1, as).
     Inr (t1, as @ (if at_timeout_j t1 \<noteq> 0
                    then [Schedule 0 ((at_timeout_j t1 div CLICK_HZ + 1) * 1000)] else [])))"

text \<open>\<^verbatim>\<open>ensure\<close> returns whether there is an entry for the address now; \<open>ok\<close> is whether the
  allocation succeeds.\<close>

definition ensure :: "bool \<Rightarrow> u32 \<Rightarrow> u32 \<Rightarrow> ARPTable \<Rightarrow> (bool \<times> ARPTable \<times> action list) res" where
  "ensure ok ip now t = (case at_table t ip of
       Some _ \<Rightarrow> Inr (True, t, [])
     | None \<Rightarrow>
         if \<not> ok then Inr (False, t, [])
         else let t1 = t\<lparr>at_entry_count := at_entry_count t + 1\<rparr> in
           bind_res (if at_entry_capacity t1 \<noteq> 0 \<and> at_entry_capacity t1 < at_entry_count t1
                     then slim now t1 else Inr (t1, []))
             (\<lambda>(t2, as). let t3 = put_entry ip (ARPEntry_new now (now - CLICK_HZ)) t2 in
                Inr (True, t3\<lparr>at_age := at_age t3 @ [ip]\<rparr>, as)))"

definition ENOMEM :: int where "ENOMEM = 12"
definition EAGAIN :: int where "EAGAIN = 11"

text \<open>\<^verbatim>\<open>insert\<close>: its third argument is null unless \<open>want_head\<close>; what it stores there is the
  second component, nothing when it stores nothing.\<close>

definition ARPTable_insert :: "bool \<Rightarrow> u32 \<Rightarrow> bool \<Rightarrow> u32 \<Rightarrow> bytes \<Rightarrow> ARPTable
    \<Rightarrow> (int \<times> packet list option \<times> ARPTable \<times> action list) res" where
  "ARPTable_insert ok now want_head ip eth t = bind_res (ensure ok ip now t) (\<lambda>(there, t1, as).
     if \<not> there then Inr (- ENOMEM, None, t1, as)
     else bind_res (deref t1 ip) (\<lambda>ae.
       let ae1 = ae\<lparr>ae_eth := eth, ae_known := \<not> is_broadcast eth, ae_live_at_j := now,
             ae_num_polls_since_reply := 0, ae_polled_at_j := now - CLICK_HZ\<rparr>;
           t2 = (if last (at_age t1) \<noteq> ip
                 then t1\<lparr>at_age := remove1 ip (at_age t1) @ [ip]\<rparr> else t1)
       in if want_head
          then Inr (0, Some (ae_queue ae),
                 put_entry ip (ae1\<lparr>ae_queue := [], ae_entry_packet_count := 0\<rparr>)
                   (t2\<lparr>at_packet_count := at_packet_count t2 - ae_entry_packet_count ae\<rparr>), as)
          else Inr (0, None, put_entry ip ae1 t2, as)))"

text \<open>\<^verbatim>\<open>append_query\<close>: an entry that is about to expire is kept just this side of expiring,
  which moves it forward in the age list past the entries that are older now.\<close>

fun age_walk :: "ARPTable \<Rightarrow> u32 \<Rightarrow> u32 list \<Rightarrow> (u32 list \<times> u32 list) res" where
  "age_walk t live_at_j [] = Inr ([], [])"
| "age_walk t live_at_j (k # ks) = bind_res (deref t k) (\<lambda>next.
     if click_jiffies_less (ae_live_at_j next) live_at_j
     then bind_res (age_walk t live_at_j ks) (\<lambda>(older, rest). Inr (k # older, rest))
     else Inr ([], k # ks))"

definition keep_alive :: "u32 \<Rightarrow> u32 \<Rightarrow> ARPTable \<Rightarrow> ARPTable res" where
  "keep_alive now ip t = bind_res (deref t ip) (\<lambda>ae.
     let live_at_j_min = now - at_timeout_j t in
     if at_timeout_j t \<noteq> 0 \<and> click_jiffies_less (ae_live_at_j ae) live_at_j_min
     then let t1 = put_entry ip (ae\<lparr>ae_live_at_j := live_at_j_min\<rparr>) t;
              before = takeWhile (\<lambda>k. k \<noteq> ip) (at_age t);
              after = tl (dropWhile (\<lambda>k. k \<noteq> ip) (at_age t))
          in bind_res (age_walk t1 live_at_j_min after)
               (\<lambda>(older, rest). Inr (t1\<lparr>at_age := before @ older @ ip # rest\<rparr>))
     else Inr t)"

definition ARPTable_append_query ::
  "bool \<Rightarrow> u32 \<Rightarrow> u32 \<Rightarrow> packet \<Rightarrow> ARPTable \<Rightarrow> (int \<times> ARPTable \<times> action list) res" where
  "ARPTable_append_query ok now ip p t = bind_res (ensure ok ip now t) (\<lambda>(there, t1, as).
     if \<not> there then Inr (- ENOMEM, t1, as)
     else bind_res (deref t1 ip) (\<lambda>ae.
       if known ae now (at_timeout_j t1) then Inr (- EAGAIN, t1, as)
       else bind_res (keep_alive now ip t1) (\<lambda>t2.
         if at_entry_packet_capacity t2 \<noteq> 0 \<and> at_entry_packet_capacity t2 \<le> ae_entry_packet_count ae
         then Inr (- ENOMEM, t2\<lparr>at_drops := at_drops t2 + 1\<rparr>, as)
         else let t3 = t2\<lparr>at_packet_count := at_packet_count t2 + 1\<rparr> in
           bind_res (if at_packet_capacity t3 \<noteq> 0 \<and> at_packet_capacity t3 < at_packet_count t3
                     then slim now t3 else Inr (t3, []))
             (\<lambda>(t4, bs). bind_res (deref t4 ip) (\<lambda>ae4.
               let ae5 = ae4\<lparr>ae_queue := ae_queue ae4 @ [p],
                     ae_entry_packet_count := ae_entry_packet_count ae4 + 1\<rparr>
               in if allow_poll ae5 now
                  then Inr (1, put_entry ip (mark_poll now ae5) t4, as @ bs)
                  else Inr (0, put_entry ip ae5 t4, as @ bs))))))"

text \<open>\<^verbatim>\<open>lookup\<close>: the result and, when it is not negative, the address stored through
  \<^verbatim>\<open>eth\<close>.\<close>

definition ARPTable_lookup :: "u32 \<Rightarrow> u32 \<Rightarrow> u32 \<Rightarrow> ARPTable \<Rightarrow> int \<times> bytes \<times> ARPTable" where
  "ARPTable_lookup now ip poll_timeout_j t = (case at_table t ip of
       None \<Rightarrow> (- 1, [], t)
     | Some ae \<Rightarrow>
         if known ae now (at_timeout_j t)
         then if poll_timeout_j \<noteq> 0 \<and> \<not> click_jiffies_less now (ae_live_at_j ae + poll_timeout_j)
                \<and> allow_poll ae now
              then (1, ae_eth ae, put_entry ip (mark_poll now ae) t)
              else (0, ae_eth ae, t)
         else (- 1, [], t))"

fun reverse_loop :: "bytes \<Rightarrow> u32 list \<Rightarrow> ARPTable \<Rightarrow> u32 res" where
  "reverse_loop eth [] t = Inr 0"
| "reverse_loop eth (k # ks) t = bind_res (deref t k) (\<lambda>ae.
     if ae_eth ae = eth then Inr k else reverse_loop eth ks t)"

datatype arp_command =
    H_insert "(u32 \<times> bytes) option"
  | H_delete "u32 option"
  | H_clear "u32 list"

fun ARPTable_write_handler ::
  "bool \<Rightarrow> u32 \<Rightarrow> arp_command \<Rightarrow> ARPTable \<Rightarrow> (int \<times> ARPTable \<times> action list) res" where
  "ARPTable_write_handler ok now (H_insert args) t = (case args of
       None \<Rightarrow> Inr (- 1, t, [])
     | Some (ip, eth) \<Rightarrow> bind_res (ARPTable_insert ok now False ip eth t) (\<lambda>(_, _, t', as). Inr (0, t', as)))"
| "ARPTable_write_handler ok now (H_delete args) t = (case args of
       None \<Rightarrow> Inr (- 1, t, [])
     | Some ip \<Rightarrow> bind_res (ARPTable_insert ok now False ip make_broadcast t) (\<lambda>(_, _, t', as). Inr (0, t', as)))"
| "ARPTable_write_handler ok now (H_clear order) t =
     bind_res (ARPTable_clear order t) (\<lambda>(t', as). Inr (0, t', as))"

definition ARPTable_take_state :: "ARPTable \<Rightarrow> ARPTable \<Rightarrow> ARPTable \<times> ARPTable" where
  "ARPTable_take_state arpt t =
     (if dom (at_table t) \<noteq> {} then (t, arpt)
      else (t\<lparr>at_table := at_table arpt, at_age := at_age arpt, at_entry_count := at_entry_count arpt,
              at_packet_count := at_packet_count arpt, at_drops := at_drops arpt\<rparr>,
            arpt\<lparr>at_table := at_table t, at_age := at_age t, at_entry_count := 0, at_packet_count := 0\<rparr>))"

section \<open>Invariant\<close>

definition queue_of :: "ARPTable \<Rightarrow> u32 \<Rightarrow> packet list" where
  "queue_of t k = (case at_table t k of None \<Rightarrow> [] | Some ae \<Rightarrow> ae_queue ae)"

definition waiting :: "ARPTable \<Rightarrow> u32 list \<Rightarrow> packet list" where
  "waiting t age = concat (map (queue_of t) age)"

definition entry_ok :: "ARPEntry \<Rightarrow> bool" where
  "entry_ok ae \<longleftrightarrow> ae_entry_packet_count ae = of_nat (length (ae_queue ae)) \<and> length (ae_eth ae) = 6
     \<and> (ae_known ae \<longrightarrow> \<not> is_broadcast (ae_eth ae))"

text \<open>The counters may run ahead of the table by \<open>a\<close> entries and \<open>b\<close> packets, as they do while
  room is made for a new one.\<close>

definition arp_ok :: "nat \<Rightarrow> nat \<Rightarrow> u32 list \<Rightarrow> ARPTable \<Rightarrow> bool" where
  "arp_ok a b age t \<longleftrightarrow> distinct age \<and> set age = dom (at_table t)
     \<and> at_entry_count t = of_nat (length age + a) \<and> length age + a < 2 ^ 32
     \<and> at_packet_count t = of_nat (length (waiting t age) + b) \<and> length (waiting t age) + b < 2 ^ 32
     \<and> (\<forall>k ae. at_table t k = Some ae \<longrightarrow> entry_ok ae)"

definition same_settings :: "ARPTable \<Rightarrow> ARPTable \<Rightarrow> bool" where
  "same_settings t t' \<longleftrightarrow> at_entry_capacity t' = at_entry_capacity t
     \<and> at_packet_capacity t' = at_packet_capacity t
     \<and> at_entry_packet_capacity t' = at_entry_packet_capacity t
     \<and> at_capacity_slim_factor t' = at_capacity_slim_factor t \<and> at_timeout_j t' = at_timeout_j t"

definition arp_inv :: "ARPTable \<Rightarrow> bool" where
  "arp_inv t \<longleftrightarrow> arp_ok 0 0 (at_age t) t
     \<and> (at_entry_capacity t \<noteq> 0 \<longrightarrow> length (at_age t) \<le> unat (at_entry_capacity t))
     \<and> (at_packet_capacity t \<noteq> 0 \<longrightarrow> at_capacity_slim_factor t \<noteq> 0)"

lemma same_settings_refl [simp]: "same_settings t t"
  by (simp add: same_settings_def)

lemma same_settings_trans: "same_settings t u \<Longrightarrow> same_settings u v \<Longrightarrow> same_settings t v"
  by (simp add: same_settings_def)

lemma waiting_Nil [simp]: "waiting t [] = []"
  and waiting_Cons [simp]: "waiting t (k # age) = queue_of t k @ waiting t age"
  and waiting_append [simp]: "waiting t (xs @ ys) = waiting t xs @ waiting t ys"
  by (simp_all add: waiting_def)

lemma waiting_cong: "(\<And>k. k \<in> set age \<Longrightarrow> queue_of t k = queue_of u k) \<Longrightarrow> waiting t age = waiting u age"
  by (simp add: waiting_def cong: map_cong)

lemma queue_of_update [simp]:
  "queue_of (t\<lparr>at_age := xs\<rparr>) = queue_of t" "queue_of (t\<lparr>at_drops := w\<rparr>) = queue_of t"
  "queue_of (t\<lparr>at_entry_count := w\<rparr>) = queue_of t" "queue_of (t\<lparr>at_packet_count := w\<rparr>) = queue_of t"
  by (simp_all add: queue_of_def fun_eq_iff)

lemma waiting_update [simp]:
  "waiting (t\<lparr>at_age := xs\<rparr>) = waiting t" "waiting (t\<lparr>at_drops := w\<rparr>) = waiting t"
  "waiting (t\<lparr>at_entry_count := w\<rparr>) = waiting t" "waiting (t\<lparr>at_packet_count := w\<rparr>) = waiting t"
  by (simp_all add: waiting_def fun_eq_iff)

lemma arp_ok_update [simp]:
  "arp_ok a b age (t\<lparr>at_age := xs\<rparr>) = arp_ok a b age t"
  "arp_ok a b age (t\<lparr>at_drops := w\<rparr>) = arp_ok a b age t"
  by (simp_all add: arp_ok_def)

lemma queue_of_put [simp]: "queue_of (put_entry k ae t) j = (if j = k then ae_queue ae else queue_of t j)"
  by (simp add: queue_of_def put_entry_def)

lemma waiting_put_count [simp]: "waiting (put_entry k ae (t\<lparr>at_packet_count := w\<rparr>)) = waiting (put_entry k ae t)"
  by (rule ext) (rule waiting_cong, simp)

text \<open>Changing the entry of a name on the list.\<close>

lemma arp_ok_put:
  assumes "arp_ok a b age t" "k \<in> set age" "at_table t' = (at_table t)(k \<mapsto> ae)" "entry_ok ae"
    and "at_entry_count t' = at_entry_count t"
    and "at_packet_count t' = of_nat (length (waiting t' age) + b')" "length (waiting t' age) + b' < 2 ^ 32"
  shows "arp_ok a b' age t'"
  using assms unfolding arp_ok_def by (auto split: if_splits)

lemma unat_of_small: "n < 2 ^ 32 \<Longrightarrow> unat (of_nat n :: u32) = n"
  by (simp add: unat_of_nat)

lemma unat_counters:
  assumes "arp_ok a b age t"
  shows "unat (at_entry_count t) = length age + a"
    and "unat (at_packet_count t) = length (waiting t age) + b"
  using assms unat_of_small [of "length age + a"] unat_of_small [of "length (waiting t age) + b"]
  by (simp_all only: arp_ok_def)

lemma arp_ok_deref: "arp_ok a b age t \<Longrightarrow> k \<in> set age \<Longrightarrow> \<exists>ae. at_table t k = Some ae \<and> deref t k = Inr ae \<and> entry_ok ae"
  by (auto simp: arp_ok_def deref_def)

section \<open>Eviction\<close>

lemma free_entry_sel [simp]:
  "at_table (free_entry k ae t) = (at_table t)(k := None)"
  "at_entry_capacity (free_entry k ae t) = at_entry_capacity t"
  "at_timeout_j (free_entry k ae t) = at_timeout_j t"
  "at_drops (free_entry k ae t) = at_drops t + of_nat (length (ae_queue ae))"
  "same_settings t (free_entry k ae t)"
  by (simp_all add: free_entry_def same_settings_def)

lemma queue_of_free: "queue_of (free_entry k ae t) j = (if j = k then [] else queue_of t j)"
  by (simp add: queue_of_def)

lemma free_entry_ok:
  assumes "arp_ok a b (k # age) t" "at_table t k = Some ae"
  shows "arp_ok a b age (free_entry k ae t)" and "waiting (free_entry k ae t) age = waiting t age"
proof -
  have k: "k \<notin> set age" using assms by (simp add: arp_ok_def)
  then show w: "waiting (free_entry k ae t) age = waiting t age"
    by (intro waiting_cong) (auto simp: queue_of_free)
  show "arp_ok a b age (free_entry k ae t)"
    using assms k w by (auto simp: arp_ok_def free_entry_def queue_of_def split: if_splits)
qed

text \<open>The first loop removes a prefix of the age list with its packets, and stops at an entry
  that has not expired, when there are not too many.\<close>

lemma slim_entries_ok:
  assumes "arp_ok a b age t"
  shows "\<exists>n ps t'. slim_entries now age t = Inr (t', map Kill ps) \<and> at_age t' = drop n age
    \<and> arp_ok a b (drop n age) t' \<and> waiting t age = ps @ waiting t' (drop n age)
    \<and> same_settings t t' \<and> at_drops t' = at_drops t + of_nat (length ps)
    \<and> at_table t' = at_table t |` set (drop n age)
    \<and> (at_entry_capacity t \<noteq> 0 \<longrightarrow> drop n age = [] \<or> length (drop n age) + a \<le> unat (at_entry_capacity t))"
  using assms
proof (induction age arbitrary: t)
  case Nil
  then have "at_table t = Map.empty" by (simp add: arp_ok_def) (metis dom_eq_empty_conv)
  with Nil show ?case
    by (auto simp: arp_ok_def waiting_def same_settings_def)
next
  case (Cons k age)
  obtain ae where ae: "at_table t k = Some ae" "deref t k = Inr ae"
    using arp_ok_deref [OF Cons.prems, of k] by auto
  show ?case
  proof (cases "expired ae now (at_timeout_j t)
      \<or> at_entry_capacity t \<noteq> 0 \<and> at_entry_capacity t < at_entry_count t")
    case True
    obtain n ps t' where IH: "slim_entries now age (free_entry k ae t) = Inr (t', map Kill ps)"
      "at_age t' = drop n age" "arp_ok a b (drop n age) t'"
      "waiting (free_entry k ae t) age = ps @ waiting t' (drop n age)" "same_settings (free_entry k ae t) t'"
      "at_drops t' = at_drops (free_entry k ae t) + of_nat (length ps)"
      "at_table t' = at_table (free_entry k ae t) |` set (drop n age)"
      "at_entry_capacity (free_entry k ae t) \<noteq> 0 \<longrightarrow>
        drop n age = [] \<or> length (drop n age) + a \<le> unat (at_entry_capacity (free_entry k ae t))"
      using Cons.IH [OF free_entry_ok(1) [OF Cons.prems ae(1)]] by blast
    have "k \<notin> set (drop n age)" using Cons.prems by (auto simp: arp_ok_def dest: in_set_dropD)
    then have "at_table t' = at_table t |` set (drop (Suc n) (k # age))"
      using IH(7) by (auto simp: restrict_map_def)
    moreover have "waiting t (k # age) = (ae_queue ae @ ps) @ waiting t' (drop (Suc n) (k # age))"
      using IH(4) free_entry_ok(2) [OF Cons.prems ae(1)] by (simp add: queue_of_def ae)
    ultimately show ?thesis
      using IH True ae same_settings_trans [OF free_entry_sel(5) IH(5)]
      by (intro exI [of _ "Suc n"] exI [of _ "ae_queue ae @ ps"] exI [of _ t'])
        (simp add: add.assoc)
  next
    case False
    have "at_table t = at_table t |` set (k # age)"
      using Cons.prems by (auto simp: arp_ok_def restrict_map_def fun_eq_iff)
    then show ?thesis
      using False ae unat_counters(1) [OF Cons.prems] Cons.prems
      by (intro exI [of _ 0] exI [of _ "[]"] exI [of _ "t\<lparr>at_age := k # age\<rparr>"])
        (auto simp: same_settings_def word_less_nat_alt)
  qed
qed

text \<open>An entry that has not expired survives when there are not too many entries.\<close>

lemma slim_entries_keeps:
  assumes "arp_ok a b age t" "slim_entries now age t = Inr (t', as)" "k \<in> set age"
    and "at_table t k = Some ae" "\<not> expired ae now (at_timeout_j t)"
    and "at_entry_capacity t \<noteq> 0 \<Longrightarrow> length age + a \<le> unat (at_entry_capacity t)"
  shows "k \<in> set (at_age t')"
  using assms
proof (induction age arbitrary: t as)
  case (Cons j age)
  obtain ae' where j: "at_table t j = Some ae'" "deref t j = Inr ae'"
    using arp_ok_deref [OF Cons.prems(1), of j] by auto
  have few: "\<not> (at_entry_capacity t \<noteq> 0 \<and> at_entry_capacity t < at_entry_count t)"
    using Cons.prems(6) unat_counters(1) [OF Cons.prems(1)] by (auto simp: word_less_nat_alt)
  show ?case
  proof (cases "expired ae' now (at_timeout_j t)")
    case True
    then have kj: "k \<noteq> j" using j Cons.prems(4,5) by auto
    obtain bs where bs: "slim_entries now age (free_entry j ae' t) = Inr (t', bs)"
      using Cons.prems(2) j True by (auto simp: bind_res_Inr)
    show ?thesis
    proof (rule Cons.IH [OF free_entry_ok(1) [OF Cons.prems(1) j(1)] bs])
      show "at_entry_capacity (free_entry j ae' t) \<noteq> 0 \<Longrightarrow>
          length age + a \<le> unat (at_entry_capacity (free_entry j ae' t))"
        using Cons.prems(6) by simp
    qed (use kj Cons.prems in simp_all)
  next
    case False
    then show ?thesis using Cons.prems j few by (auto split: if_splits)
  qed
qed simp

lemma pop_packets_eq:
  "pop_packets cap n ps = (let m = min (length ps) (unat n - unat cap) in (take m ps, drop m ps))"
proof (induction ps arbitrary: n)
  case (Cons p ps)
  show ?case
  proof (cases "cap < n")
    case True
    then have less: "unat cap < unat n" by (simp add: word_less_nat_alt)
    then have "n \<noteq> 0" by auto
    then have "unat (n - 1) = unat n - 1" by (rule unat_minus_one)
    with less have "min (length (p # ps)) (unat n - unat cap) = Suc (min (length ps) (unat (n - 1) - unat cap))"
      by auto
    with True Cons.IH show ?thesis by (simp add: Let_def)
  next
    case False
    then show ?thesis by (simp add: Let_def word_less_nat_alt)
  qed
qed simp

text \<open>The packets of one entry after \<open>m\<close> of them were dropped.\<close>

definition drop_packets :: "u32 \<Rightarrow> nat \<Rightarrow> ARPTable \<Rightarrow> ARPTable" where
  "drop_packets k m t = (case at_table t k of None \<Rightarrow> t | Some ae \<Rightarrow>
     (put_entry k (ae\<lparr>ae_queue := drop m (ae_queue ae),
        ae_entry_packet_count := ae_entry_packet_count ae - of_nat m\<rparr>) t)
     \<lparr>at_packet_count := at_packet_count t - of_nat m, at_drops := at_drops t + of_nat m\<rparr>)"

lemma queue_of_drop: "queue_of (drop_packets k m t) j = (if j = k then drop m (queue_of t k) else queue_of t j)"
  by (auto simp: queue_of_def drop_packets_def put_entry_def split: option.splits)

lemma drop_packets_sel:
  "at_table t k = Some ae \<Longrightarrow> at_drops (drop_packets k m t) = at_drops t + of_nat m"
  "same_settings t (drop_packets k m t)" "at_age (drop_packets k m t) = at_age t"
  by (auto simp: drop_packets_def put_entry_def same_settings_def split: option.splits)

lemma drop_packets_ok:
  assumes ok: "arp_ok a b (pre @ k # age) t" and m: "m \<le> length (queue_of t k)"
    and pre: "waiting t pre = []"
  shows "arp_ok a b (pre @ k # age) (drop_packets k m t)"
    and "waiting t (pre @ k # age) = take m (queue_of t k) @ waiting (drop_packets k m t) (pre @ k # age)"
proof -
  obtain ae where ae: "at_table t k = Some ae" "entry_ok ae"
    using arp_ok_deref [OF ok, of k] by auto
  have k: "k \<notin> set pre" "k \<notin> set age" using ok by (auto simp: arp_ok_def)
  have "waiting (drop_packets k m t) pre = waiting t pre"
    by (rule waiting_cong) (use k in \<open>auto simp: queue_of_drop\<close>)
  moreover have "waiting (drop_packets k m t) age = waiting t age"
    by (rule waiting_cong) (use k in \<open>auto simp: queue_of_drop\<close>)
  ultimately show w: "waiting t (pre @ k # age)
      = take m (queue_of t k) @ waiting (drop_packets k m t) (pre @ k # age)"
    using pre by (simp add: queue_of_drop)
  have len: "length (waiting t (pre @ k # age)) = m + length (waiting (drop_packets k m t) (pre @ k # age))"
    using m by (subst w) simp
  have cnt: "at_packet_count t = of_nat (length (waiting t (pre @ k # age)) + b)"
      "length (waiting t (pre @ k # age)) + b < 2 ^ 32"
    using ok by (simp_all only: arp_ok_def)
  show "arp_ok a b (pre @ k # age) (drop_packets k m t)"
  proof (rule arp_ok_put [OF ok])
    show "at_packet_count (drop_packets k m t)
        = of_nat (length (waiting (drop_packets k m t) (pre @ k # age)) + b)"
      using cnt(1) unfolding len by (simp add: drop_packets_def ae)
    show "length (waiting (drop_packets k m t) (pre @ k # age)) + b < 2 ^ 32"
      using cnt(2) unfolding len by linarith
    show "entry_ok (ae\<lparr>ae_queue := drop m (ae_queue ae),
        ae_entry_packet_count := ae_entry_packet_count ae - of_nat m\<rparr>)"
      using ae m by (simp add: entry_ok_def queue_of_def of_nat_diff)
  qed (simp_all add: drop_packets_def put_entry_def ae)
qed

lemma slim_packets_Cons:
  assumes "at_table t k = Some ae" "cap < at_packet_count t"
    and "m = min (length (ae_queue ae)) (unat (at_packet_count t) - unat cap)"
  shows "slim_packets cap (k # age) t = bind_res (slim_packets cap age (drop_packets k m t))
     (\<lambda>(t', as). Inr (t', map Kill (take m (queue_of t k)) @ as))"
  using assms
  by (simp add: deref_def pop_packets_eq Let_def drop_packets_def put_entry_def queue_of_def)

lemma slim_packets_done: "\<not> cap < at_packet_count t \<Longrightarrow> slim_packets cap age t = Inr (t, [])"
  by (cases age) simp_all

text \<open>Entries that only lost packets from the front of their queues.\<close>

definition identity_of :: "ARPTable \<Rightarrow> u32 \<Rightarrow> ARPEntry option" where
  "identity_of t k = map_option (\<lambda>ae. ae\<lparr>ae_queue := [], ae_entry_packet_count := 0\<rparr>) (at_table t k)"

definition slimmed :: "u32 set \<Rightarrow> ARPTable \<Rightarrow> ARPTable \<Rightarrow> bool" where
  "slimmed K t t' \<longleftrightarrow> (\<forall>k \<in> K. identity_of t' k = identity_of t k \<and> (\<exists>m. queue_of t' k = drop m (queue_of t k)))"

lemma slimmed_refl [simp]: "slimmed K t t"
  by (auto simp: slimmed_def intro: exI [of _ "0 :: nat"])

lemma slimmed_trans: "slimmed K t u \<Longrightarrow> slimmed K u v \<Longrightarrow> slimmed K t v"
  unfolding slimmed_def by (metis drop_drop)

lemma slimmed_drop: "slimmed K t (drop_packets k m t)"
  unfolding slimmed_def identity_of_def queue_of_drop
  by (auto simp: drop_packets_def put_entry_def intro: exI [of _ "0 :: nat"] split: option.splits)

text \<open>
  The second loop drops a prefix of all waiting packets.  It never leaves the age list: once
  every queue is empty, the count is at most the one packet not yet queued, and the slim
  capacity is at least one.
\<close>

lemma slim_packets_ok:
  assumes "arp_ok a b (pre @ age) t" "waiting t pre = []" "b \<le> unat cap"
  shows "\<exists>ps t'. slim_packets cap age t = Inr (t', map Kill ps) \<and> at_age t' = at_age t
    \<and> arp_ok a b (pre @ age) t' \<and> waiting t (pre @ age) = ps @ waiting t' (pre @ age)
    \<and> same_settings t t' \<and> at_drops t' = at_drops t + of_nat (length ps)
    \<and> length (waiting t' (pre @ age)) + b \<le> unat cap \<and> slimmed UNIV t t'"
  using assms
proof (induction age arbitrary: pre t)
  case Nil
  then have "\<not> cap < at_packet_count t"
    using unat_counters(2) [OF Nil.prems(1)] by (simp add: word_less_nat_alt)
  with Nil show ?case by simp
next
  case (Cons k age)
  show ?case
  proof (cases "cap < at_packet_count t")
    case False
    with Cons.prems unat_counters(2) [OF Cons.prems(1)] show ?thesis
      by (intro exI [of _ "[]"] exI [of _ t]) (auto simp: word_less_nat_alt)
  next
    case True
    obtain ae where ae: "at_table t k = Some ae"
      using arp_ok_deref [OF Cons.prems(1), of k] by auto
    define m where "m = min (length (ae_queue ae)) (unat (at_packet_count t) - unat cap)"
    have m: "m \<le> length (queue_of t k)" by (simp add: m_def queue_of_def ae)
    note step = slim_packets_Cons [OF ae True m_def]
    note dropped = drop_packets_ok [OF Cons.prems(1) m Cons.prems(2)]
    let ?t = "drop_packets k m t"
    have "\<exists>ps t'. slim_packets cap age ?t = Inr (t', map Kill ps) \<and> at_age t' = at_age ?t
      \<and> arp_ok a b (pre @ k # age) t' \<and> waiting ?t (pre @ k # age) = ps @ waiting t' (pre @ k # age)
      \<and> same_settings ?t t' \<and> at_drops t' = at_drops ?t + of_nat (length ps)
      \<and> length (waiting t' (pre @ k # age)) + b \<le> unat cap \<and> slimmed UNIV ?t t'"
    proof (cases "m = length (queue_of t k)")
      case True
      have "k \<notin> set pre" using Cons.prems(1) by (auto simp: arp_ok_def)
      then have "waiting ?t pre = waiting t pre"
        by (intro waiting_cong) (auto simp: queue_of_drop)
      then have "waiting ?t (pre @ [k]) = []" using True Cons.prems(2) by (simp add: queue_of_drop)
      then show ?thesis using Cons.IH [of "pre @ [k]" ?t] dropped(1) Cons.prems(3) by simp
    next
      case False
      then have "m = unat (at_packet_count t) - unat cap" using m by (simp add: m_def queue_of_def ae)
      moreover have "length (waiting t (pre @ k # age)) = m + length (waiting ?t (pre @ k # age))"
        using dropped(2) m by simp
      ultimately have few: "length (waiting ?t (pre @ k # age)) + b = unat cap"
        using unat_counters(2) [OF Cons.prems(1)] \<open>cap < at_packet_count t\<close>
        by (simp add: word_less_nat_alt)
      then have "\<not> cap < at_packet_count ?t"
        using unat_counters(2) [OF dropped(1)] by (simp add: word_less_nat_alt)
      then show ?thesis using few dropped(1) by (simp add: slim_packets_done)
    qed
    then obtain ps t' where t': "slim_packets cap age ?t = Inr (t', map Kill ps)" "at_age t' = at_age ?t"
      "arp_ok a b (pre @ k # age) t'" "waiting ?t (pre @ k # age) = ps @ waiting t' (pre @ k # age)"
      "same_settings ?t t'" "at_drops t' = at_drops ?t + of_nat (length ps)"
      "length (waiting t' (pre @ k # age)) + b \<le> unat cap" "slimmed UNIV ?t t'" by blast
    show ?thesis
    proof (intro exI conjI)
      show "slim_packets cap (k # age) t = Inr (t', map Kill (take m (queue_of t k) @ ps))"
        using step t'(1) by simp
      show "waiting t (pre @ k # age) = (take m (queue_of t k) @ ps) @ waiting t' (pre @ k # age)"
        using dropped(2) t'(4) by simp
      show "at_drops t' = at_drops t + of_nat (length (take m (queue_of t k) @ ps))"
        using t'(6) m by (simp add: drop_packets_sel(1) [OF ae] min_absorb2)
      show "at_age t' = at_age t" using t'(2) by (simp add: drop_packets_sel(3))
      show "same_settings t t'" using same_settings_trans [OF drop_packets_sel(2) t'(5)] .
      show "slimmed UNIV t t'" using slimmed_trans [OF slimmed_drop t'(8)] .
    qed (use t' in auto)
  qed
qed

text \<open>\<^verbatim>\<open>slim\<close>: never faults, drops the oldest entries and then the oldest packets, keeps the
  rest in order, and leaves the table within both capacities.\<close>

lemma slim_ok:
  assumes ok: "arp_ok a b (at_age t) t" and b: "b \<le> 1" "a \<le> 1"
    and factor: "at_packet_capacity t \<noteq> 0 \<Longrightarrow> at_capacity_slim_factor t \<noteq> 0"
  shows "\<exists>n ps t'. slim now t = Inr (t', map Kill ps) \<and> at_age t' = drop n (at_age t)
    \<and> arp_ok a b (at_age t') t' \<and> waiting t (at_age t) = ps @ waiting t' (at_age t')
    \<and> same_settings t t' \<and> at_drops t' = at_drops t + of_nat (length ps)
    \<and> slimmed (set (at_age t')) t t'
    \<and> (at_entry_capacity t \<noteq> 0 \<longrightarrow> length (at_age t') + a \<le> unat (at_entry_capacity t))
    \<and> (at_packet_capacity t \<noteq> 0 \<longrightarrow> length (waiting t' (at_age t')) + b \<le> unat (at_packet_capacity t))"
proof -
  obtain n ps t1 where t1: "slim_entries now (at_age t) t = Inr (t1, map Kill ps)"
    "at_age t1 = drop n (at_age t)" "arp_ok a b (drop n (at_age t)) t1"
    "waiting t (at_age t) = ps @ waiting t1 (drop n (at_age t))" "same_settings t t1"
    "at_drops t1 = at_drops t + of_nat (length ps)" "at_table t1 = at_table t |` set (drop n (at_age t))"
    "at_entry_capacity t \<noteq> 0 \<longrightarrow> drop n (at_age t) = [] \<or> length (drop n (at_age t)) + a \<le> unat (at_entry_capacity t)"
    using slim_entries_ok [OF ok] by blast
  have entries: "at_entry_capacity t \<noteq> 0 \<longrightarrow> length (at_age t1) + a \<le> unat (at_entry_capacity t)"
    using t1(2,8) b(2) by (auto simp: Suc_le_eq unat_gt_0 intro: order_trans)
  have kept: "slimmed (set (at_age t1)) t t1"
    by (auto simp: slimmed_def identity_of_def queue_of_def t1(2,7) intro: exI [of _ "0 :: nat"])
  have cap: "at_packet_capacity t1 = at_packet_capacity t" "at_capacity_slim_factor t1 = at_capacity_slim_factor t"
    using t1(5) by (simp_all add: same_settings_def)
  show ?thesis
  proof (cases "at_packet_capacity t1 \<noteq> 0 \<and> at_packet_capacity t1 < at_packet_count t1")
    case False
    then have "slim now t = Inr (t1, map Kill ps)" using t1(1) by (auto simp: slim_def)
    moreover have "at_packet_capacity t \<noteq> 0 \<longrightarrow> length (waiting t1 (at_age t1)) + b \<le> unat (at_packet_capacity t)"
      using False unat_counters(2) [OF t1(3)] cap t1(2) by (auto simp: word_less_nat_alt)
    ultimately show ?thesis using t1(2-6) entries kept by metis
  next
    case True
    let ?c = "at_packet_capacity t1 - at_packet_capacity t1 div at_capacity_slim_factor t1"
    let ?sc = "if ?c = 0 then 1 else ?c"
    have "at_packet_capacity t1 div at_capacity_slim_factor t1 \<le> at_packet_capacity t1"
      by (simp add: word_le_nat_alt unat_div)
    then have sc1: "unat ?sc \<le> unat (at_packet_capacity t)"
      using True cap by (auto simp: Suc_le_eq unat_gt_0 unat_sub)
    have fac: "at_capacity_slim_factor t1 \<noteq> 0" using True factor cap by simp
    have "0 < unat ?sc" by (simp add: unat_gt_0)
    then have sc2: "b \<le> unat ?sc" using b(1) by linarith
    note sc = sc1 sc2
    obtain qs t2 where t2: "slim_packets ?sc (at_age t1) t1 = Inr (t2, map Kill qs)" "at_age t2 = at_age t1"
      "arp_ok a b (at_age t1) t2" "waiting t1 (at_age t1) = qs @ waiting t2 (at_age t1)" "same_settings t1 t2"
      "at_drops t2 = at_drops t1 + of_nat (length qs)" "length (waiting t2 (at_age t1)) + b \<le> unat ?sc"
      "slimmed UNIV t1 t2"
      using slim_packets_ok [of a b "[]" "at_age t1" t1 ?sc] t1(2,3) sc(2) by (auto simp: append_Nil)
    have "slim now t = Inr (t2, map Kill (ps @ qs))"
      using t1(1) t2(1) True fac by (auto simp: slim_def Let_def split: if_splits)
    moreover have "slimmed (set (at_age t2)) t t2"
      using kept t2(2,8) slimmed_trans by (metis UNIV_I slimmed_def)
    moreover have "waiting t (at_age t) = (ps @ qs) @ waiting t2 (at_age t2)"
      using t1(2,4) t2(2,4) by simp
    moreover have "at_drops t2 = at_drops t + of_nat (length (ps @ qs))"
      using t1(6) t2(6) by simp
    moreover have "at_age t2 = drop n (at_age t)" "arp_ok a b (at_age t2) t2"
      using t1(2) t2(2,3) by simp_all
    moreover have "length (waiting t2 (at_age t2)) + b \<le> unat (at_packet_capacity t)"
      using order_trans [OF t2(7) sc(1)] t2(2) by simp
    moreover have "at_entry_capacity t \<noteq> 0 \<longrightarrow> length (at_age t2) + a \<le> unat (at_entry_capacity t)"
      using entries t2(2) by simp
    ultimately show ?thesis using same_settings_trans [OF t1(5) t2(5)] by blast
  qed
qed

lemma slim_keeps:
  assumes ok: "arp_ok a b (at_age t) t" and run: "slim now t = Inr (t', as)" and k: "k \<in> set (at_age t)"
    and ae: "at_table t k = Some ae" "\<not> expired ae now (at_timeout_j t)"
    and few: "at_entry_capacity t \<noteq> 0 \<Longrightarrow> length (at_age t) + a \<le> unat (at_entry_capacity t)"
    and b: "b \<le> 1"
  shows "k \<in> set (at_age t')"
proof -
  obtain n ps t1 where t1: "slim_entries now (at_age t) t = Inr (t1, map Kill ps)"
    "at_age t1 = drop n (at_age t)" "arp_ok a b (drop n (at_age t)) t1"
    using slim_entries_ok [OF ok] by blast
  have "k \<in> set (at_age t1)"
    by (rule slim_entries_keeps [OF ok t1(1) k ae]) (use few in simp)
  moreover have "at_age t' = at_age t1"
  proof (cases "at_packet_capacity t1 \<noteq> 0 \<and> at_packet_capacity t1 < at_packet_count t1")
    case True
    let ?c = "at_packet_capacity t1 - at_packet_capacity t1 div at_capacity_slim_factor t1"
    let ?sc = "if ?c = 0 then 1 else ?c"
    have "0 < unat ?sc" by (simp add: unat_gt_0)
    then have "b \<le> unat ?sc" using b by linarith
    then obtain qs t2 where "slim_packets ?sc (at_age t1) t1 = Inr (t2, map Kill qs)" "at_age t2 = at_age t1"
      using slim_packets_ok [of a b "[]" "at_age t1" t1 ?sc] t1(2,3) by (auto simp: append_Nil)
    then show ?thesis using run t1(1) True by (auto simp: slim_def Let_def guard_Inr)
  next
    case False
    then show ?thesis using run t1(1) by (auto simp: slim_def)
  qed
  ultimately show ?thesis by simp
qed

section \<open>Entries for new addresses\<close>

definition arp_room :: "ARPTable \<Rightarrow> bool" where
  "arp_room t \<longleftrightarrow> length (at_age t) + 1 < 2 ^ 32 \<and> length (waiting t (at_age t)) + 1 < 2 ^ 32"

lemma entry_ok_new: "entry_ok (ARPEntry_new l p)"
  by (simp add: entry_ok_def ARPEntry_new_def make_broadcast_def)

text \<open>An entry is added at the end of the age list, after older ones were dropped to keep within
  the capacity.\<close>

lemma arp_ok_add:
  assumes ok: "arp_ok 1 0 (at_age t) t" and ip: "at_table t ip = None" and ae: "entry_ok ae" "ae_queue ae = []"
  shows "arp_ok 0 0 (at_age t @ [ip]) (put_entry ip ae t)"
    and "waiting (put_entry ip ae t) (at_age t @ [ip]) = waiting t (at_age t)"
proof -
  have new: "ip \<notin> set (at_age t)" using ok ip by (auto simp: arp_ok_def)
  have "waiting (put_entry ip ae t) (at_age t) = waiting t (at_age t)"
    by (rule waiting_cong) (use new in auto)
  then show w: "waiting (put_entry ip ae t) (at_age t @ [ip]) = waiting t (at_age t)"
    using ae by simp
  show "arp_ok 0 0 (at_age t @ [ip]) (put_entry ip ae t)"
    using ok new ae w unfolding arp_ok_def by (auto simp: put_entry_def split: if_splits)
qed

lemma make_room_ok:
  assumes inv: "arp_inv t" and room: "arp_room t" and t1: "t1 = t\<lparr>at_entry_count := at_entry_count t + 1\<rparr>"
  shows "\<exists>n ps t2. (if at_entry_capacity t1 \<noteq> 0 \<and> at_entry_capacity t1 < at_entry_count t1
        then slim now t1 else Inr (t1, [])) = Inr (t2, map Kill ps) \<and> at_age t2 = drop n (at_age t)
    \<and> arp_ok 1 0 (at_age t2) t2 \<and> waiting t (at_age t) = ps @ waiting t2 (at_age t2)
    \<and> same_settings t t2 \<and> at_drops t2 = at_drops t + of_nat (length ps)
    \<and> slimmed (set (at_age t2)) t t2
    \<and> (at_entry_capacity t \<noteq> 0 \<longrightarrow> length (at_age t2) + 1 \<le> unat (at_entry_capacity t))"
proof -
  have ok1: "arp_ok 1 0 (at_age t) t1"
    using inv room by (simp add: t1 arp_inv_def arp_ok_def arp_room_def)
  have same: "at_age t1 = at_age t" "same_settings t t1" "waiting t1 = waiting t" "at_drops t1 = at_drops t"
    "at_entry_capacity t1 = at_entry_capacity t" "\<And>K u. slimmed K t1 u = slimmed K t u"
    by (simp_all add: t1 same_settings_def slimmed_def identity_of_def)
  show ?thesis
  proof (cases "at_entry_capacity t1 \<noteq> 0 \<and> at_entry_capacity t1 < at_entry_count t1")
    case True
    have fac: "at_packet_capacity t1 \<noteq> 0 \<Longrightarrow> at_capacity_slim_factor t1 \<noteq> 0"
      using inv by (simp add: t1 arp_inv_def)
    have ok2: "arp_ok 1 0 (at_age t1) t1" using ok1 same(1) by simp
    obtain n ps t2 where "slim now t1 = Inr (t2, map Kill ps)" "at_age t2 = drop n (at_age t1)"
      "arp_ok 1 0 (at_age t2) t2" "waiting t1 (at_age t1) = ps @ waiting t2 (at_age t2)"
      "same_settings t1 t2" "at_drops t2 = at_drops t1 + of_nat (length ps)"
      "slimmed (set (at_age t2)) t1 t2"
      "at_entry_capacity t1 \<noteq> 0 \<longrightarrow> length (at_age t2) + 1 \<le> unat (at_entry_capacity t1)"
      using slim_ok [OF ok2 zero_le order_refl fac, of now] by blast
    then show ?thesis using True same same_settings_trans [OF same(2)]
      by (intro exI [of _ n] exI [of _ ps] exI [of _ t2]) simp
  next
    case False
    have "slimmed (set (at_age t)) t t1" by (simp add: same(6) [symmetric])
    then show ?thesis using False ok1 same unat_counters(1) [OF ok1]
      by (intro exI [of _ 0] exI [of _ "[]"] exI [of _ t1]) (auto simp: word_less_nat_alt)
  qed
qed

lemma ensure_ok:
  assumes inv: "arp_inv t" and room: "arp_room t"
  shows "\<exists>there ps t'. ensure ok ip now t = Inr (there, t', map Kill ps) \<and> arp_inv t' \<and> same_settings t t'
    \<and> (there \<longleftrightarrow> ok \<or> ip \<in> set (at_age t)) \<and> (there \<longrightarrow> ip \<in> set (at_age t'))
    \<and> (ip \<in> set (at_age t) \<or> \<not> ok \<longrightarrow> t' = t \<and> ps = [])
    \<and> (ip \<notin> set (at_age t) \<and> ok \<longrightarrow> at_table t' ip = Some (ARPEntry_new now (now - CLICK_HZ)))
    \<and> waiting t (at_age t) = ps @ waiting t' (at_age t')
    \<and> at_drops t' = at_drops t + of_nat (length ps)
    \<and> slimmed (set (at_age t') - {ip}) t t' \<and> set (at_age t') \<subseteq> insert ip (set (at_age t))"
proof (cases "at_table t ip")
  case (Some ae)
  then have "ip \<in> set (at_age t)" using inv by (auto simp: arp_inv_def arp_ok_def)
  then show ?thesis using Some inv
    by (intro exI [of _ True] exI [of _ "[]"] exI [of _ t]) (auto simp: ensure_def)
next
  case None
  then have new: "ip \<notin> set (at_age t)" using inv by (auto simp: arp_inv_def arp_ok_def)
  show ?thesis
  proof (cases ok)
    case False
    then show ?thesis using None new inv
      by (intro exI [of _ False] exI [of _ "[]"] exI [of _ t]) (auto simp: ensure_def)
  next
    case True
    define t1 where "t1 = t\<lparr>at_entry_count := at_entry_count t + 1\<rparr>"
    obtain n ps t2 where t2: "(if at_entry_capacity t1 \<noteq> 0 \<and> at_entry_capacity t1 < at_entry_count t1
        then slim now t1 else Inr (t1, [])) = Inr (t2, map Kill ps)" "at_age t2 = drop n (at_age t)"
      "arp_ok 1 0 (at_age t2) t2" "waiting t (at_age t) = ps @ waiting t2 (at_age t2)"
      "same_settings t t2" "at_drops t2 = at_drops t + of_nat (length ps)"
      "slimmed (set (at_age t2)) t t2"
      "at_entry_capacity t \<noteq> 0 \<longrightarrow> length (at_age t2) + 1 \<le> unat (at_entry_capacity t)"
      using make_room_ok [OF inv room t1_def] by blast
    let ?ae = "ARPEntry_new now (now - CLICK_HZ)"
    let ?t3 = "put_entry ip ?ae t2"
    have new2: "ip \<notin> set (at_age t2)" using new t2(2) by (auto dest: in_set_dropD)
    then have "at_table t2 ip = None" using t2(3) by (auto simp: arp_ok_def)
    note added = arp_ok_add [OF t2(3) this entry_ok_new, of now "now - CLICK_HZ"]
    have age: "at_age ?t3 = at_age t2" by (simp add: put_entry_def)
    have run: "ensure ok ip now t = Inr (True, ?t3\<lparr>at_age := at_age t2 @ [ip]\<rparr>, map Kill ps)"
      using True None t2(1) by (simp add: ensure_def Let_def t1_def [symmetric] age)
    have "same_settings t (?t3\<lparr>at_age := at_age t2 @ [ip]\<rparr>)"
      using t2(5) by (simp add: same_settings_def put_entry_def)
    moreover have "slimmed (set (at_age t2)) t (?t3\<lparr>at_age := at_age t2 @ [ip]\<rparr>)"
      using t2(7) new2 by (auto simp: slimmed_def identity_of_def put_entry_def queue_of_def)
    moreover have "ae_queue ?ae = []" by (simp add: ARPEntry_new_def)
    moreover from calculation have "arp_inv (?t3\<lparr>at_age := at_age t2 @ [ip]\<rparr>)"
      using added(1) t2(8) inv by (auto simp: arp_inv_def same_settings_def)
    moreover have "set (at_age (?t3\<lparr>at_age := at_age t2 @ [ip]\<rparr>)) \<subseteq> insert ip (set (at_age t))"
      using t2(2) by (auto dest: in_set_dropD)
    moreover have "at_table (?t3\<lparr>at_age := at_age t2 @ [ip]\<rparr>) ip = Some ?ae" by (simp add: put_entry_def)
    ultimately show ?thesis using run True new new2 t2(4,6) added(2)
      by (intro exI [of _ True] exI [of _ ps] exI [of _ "?t3\<lparr>at_age := at_age t2 @ [ip]\<rparr>"] conjI)
        (simp_all add: put_entry_def)
  qed
qed

lemma ensure_there:
  assumes inv: "arp_inv t" and room: "arp_room t" and there: "ok \<or> ip \<in> set (at_age t)"
  obtains ps t1 ae where "ensure ok ip now t = Inr (True, t1, map Kill ps)" "arp_inv t1" "same_settings t t1"
    "ip \<in> set (at_age t1)" "ip \<in> set (at_age t) \<longrightarrow> t1 = t \<and> ps = []"
    "slimmed (set (at_age t1) - {ip}) t t1" "at_table t1 ip = Some ae" "deref t1 ip = Inr ae" "entry_ok ae"
    "ae_queue ae = queue_of t ip"
    "length (waiting t (at_age t)) = length ps + length (waiting t1 (at_age t1))"
    "ip \<notin> set (at_age t) \<longrightarrow> ae = ARPEntry_new now (now - CLICK_HZ)"
    "set (at_age t1) \<subseteq> insert ip (set (at_age t))"
proof -
  obtain b ps t1 where e: "ensure ok ip now t = Inr (b, t1, map Kill ps)" "arp_inv t1" "same_settings t t1"
    "b \<longleftrightarrow> ok \<or> ip \<in> set (at_age t)" "b \<longrightarrow> ip \<in> set (at_age t1)"
    "ip \<in> set (at_age t) \<or> \<not> ok \<longrightarrow> t1 = t \<and> ps = []"
    "ip \<notin> set (at_age t) \<and> ok \<longrightarrow> at_table t1 ip = Some (ARPEntry_new now (now - CLICK_HZ))"
    "waiting t (at_age t) = ps @ waiting t1 (at_age t1)" "slimmed (set (at_age t1) - {ip}) t t1"
    "set (at_age t1) \<subseteq> insert ip (set (at_age t))"
    using ensure_ok [OF inv room, of ok ip now] by blast
  have b: "b = True" using e(4) there by simp
  have ok1: "arp_ok 0 0 (at_age t1) t1" using e(2) by (simp add: arp_inv_def)
  obtain ae where ae: "at_table t1 ip = Some ae" "deref t1 ip = Inr ae" "entry_ok ae"
    using arp_ok_deref [OF ok1, of ip] e(5) b by auto
  have "ae_queue ae = queue_of t ip"
  proof (cases "ip \<in> set (at_age t)")
    case True
    then show ?thesis using e(6) ae(1) by (auto simp: queue_of_def)
  next
    case False
    then have "at_table t ip = None" using inv by (auto simp: arp_inv_def arp_ok_def)
    then show ?thesis using False e(7) there ae(1) by (simp add: queue_of_def ARPEntry_new_def)
  qed
  moreover have "ip \<notin> set (at_age t) \<longrightarrow> ae = ARPEntry_new now (now - CLICK_HZ)"
    using e(7) there ae(1) by auto
  ultimately show thesis
    using e(1-3,5,6,8-10) ae b by (intro that [of t1 ps ae]) simp_all
qed

section \<open>Reordering and replacing\<close>

lemma waiting_length: "distinct age \<Longrightarrow> length (waiting t age) = (\<Sum>k \<in> set age. length (queue_of t k))"
  by (simp add: waiting_def length_concat sum_list_distinct_conv_sum_set comp_def)

lemma arp_ok_reorder:
  assumes "arp_ok a b age t" "distinct age'" "set age' = set age"
  shows "arp_ok a b age' t"
proof -
  have "length age' = length age"
    using assms distinct_card [of age'] distinct_card [of age] by (simp add: arp_ok_def)
  moreover have "length (waiting t age') = length (waiting t age)"
    using assms waiting_length [of age' t] waiting_length [of age t] by (simp add: arp_ok_def)
  ultimately show ?thesis using assms by (simp add: arp_ok_def)
qed

lemma waiting_put_length:
  assumes "distinct age" "k \<in> set age"
  shows "length (waiting (put_entry k ae t) age) + length (queue_of t k) = length (waiting t age) + length (ae_queue ae)"
proof -
  have "(\<Sum>j \<in> set age - {k}. length (queue_of (put_entry k ae t) j)) = (\<Sum>j \<in> set age - {k}. length (queue_of t j))"
    by (rule sum.cong) auto
  then show ?thesis
    using assms(2) sum.remove [of "set age" k "\<lambda>j. length (queue_of t j)"]
      sum.remove [of "set age" k "\<lambda>j. length (queue_of (put_entry k ae t) j)"]
    by (simp add: waiting_length [OF assms(1)])
qed

lemma entry_ok_mark_poll [simp]: "entry_ok (mark_poll now ae) = entry_ok ae" "ae_queue (mark_poll now ae) = ae_queue ae"
  by (simp_all add: entry_ok_def mark_poll_def)

lemma put_entry_sel [simp]:
  "at_table (put_entry k ae t) = (at_table t)(k \<mapsto> ae)" "at_age (put_entry k ae t) = at_age t"
  "at_entry_count (put_entry k ae t) = at_entry_count t" "at_packet_count (put_entry k ae t) = at_packet_count t"
  "at_drops (put_entry k ae t) = at_drops t" "at_timeout_j (put_entry k ae t) = at_timeout_j t"
  "same_settings t (put_entry k ae t)"
  by (simp_all add: put_entry_def same_settings_def)

text \<open>An entry replaced by one with as many packets.\<close>

lemma arp_ok_same_queue:
  assumes "arp_ok a b age t" "k \<in> set age" "entry_ok ae" "length (ae_queue ae) = length (queue_of t k)"
  shows "arp_ok a b age (put_entry k ae t)"
proof (rule arp_ok_put [OF assms(1,2) _ assms(3)])
  have "distinct age" using assms(1) by (simp add: arp_ok_def)
  then have "length (waiting (put_entry k ae t) age) = length (waiting t age)"
    using waiting_put_length [of age k ae t] assms(2,4) by simp
  then show "at_packet_count (put_entry k ae t) = of_nat (length (waiting (put_entry k ae t) age) + b)"
    "length (waiting (put_entry k ae t) age) + b < 2 ^ 32"
    using assms(1) by (simp_all add: arp_ok_def)
qed simp_all

section \<open>Insertion\<close>

lemma moved_to_end:
  assumes "distinct age" "ip \<in> set age"
  shows "distinct (if last age \<noteq> ip then remove1 ip age @ [ip] else age)"
    and "set (if last age \<noteq> ip then remove1 ip age @ [ip] else age) = set age"
    and "last (if last age \<noteq> ip then remove1 ip age @ [ip] else age) = ip"
  using assms by (auto simp: distinct_remove1)

lemma insert_ok:
  assumes inv: "arp_inv t" and room: "arp_room t" and eth: "length eth = 6"
    and there: "ok \<or> ip \<in> set (at_age t)"
  shows "\<exists>ps t' ae. ARPTable_insert ok now want ip eth t
      = Inr (0, if want then Some (queue_of t ip) else None, t', map Kill ps)
    \<and> arp_inv t' \<and> same_settings t t' \<and> last (at_age t') = ip \<and> (ip \<in> set (at_age t) \<longrightarrow> ps = [])
    \<and> at_table t' ip = Some ae \<and> ae_eth ae = eth \<and> ae_known ae = (\<not> is_broadcast eth)
    \<and> ae_live_at_j ae = now \<and> ae_queue ae = (if want then [] else queue_of t ip)
    \<and> slimmed (set (at_age t') - {ip}) t t' \<and> set (at_age t') \<subseteq> insert ip (set (at_age t)) \<and> ip \<in> set (at_age t')
    \<and> length (waiting t' (at_age t')) + length ps + (if want then length (queue_of t ip) else 0)
      = length (waiting t (at_age t))"
proof -
  obtain ps t1 ae where t1: "ensure ok ip now t = Inr (True, t1, map Kill ps)" "arp_inv t1" "same_settings t t1"
    "ip \<in> set (at_age t1)" "ip \<in> set (at_age t) \<longrightarrow> t1 = t \<and> ps = []"
    "slimmed (set (at_age t1) - {ip}) t t1" and ae: "at_table t1 ip = Some ae" "deref t1 ip = Inr ae" "entry_ok ae"
    and queue: "ae_queue ae = queue_of t ip"
    and len1: "length (waiting t (at_age t)) = length ps + length (waiting t1 (at_age t1))"
    and sub1: "set (at_age t1) \<subseteq> insert ip (set (at_age t))"
    by (rule ensure_there [OF inv room there])
  have ok1: "arp_ok 0 0 (at_age t1) t1" using t1(2) by (simp add: arp_inv_def)
  define age where "age = (if last (at_age t1) \<noteq> ip then remove1 ip (at_age t1) @ [ip] else at_age t1)"
  have "distinct (at_age t1)" using ok1 by (simp add: arp_ok_def)
  note moved = moved_to_end [OF this t1(4), folded age_def]
  define t2 where "t2 = t1\<lparr>at_age := age\<rparr>"
  have ok2: "arp_ok 0 0 age t2"
    using arp_ok_reorder [OF ok1 moved(1,2)] by (simp add: t2_def)
  have q2: "queue_of t2 = queue_of t1" by (simp add: t2_def)
  let ?ae1 = "ae\<lparr>ae_eth := eth, ae_known := \<not> is_broadcast eth, ae_live_at_j := now,
             ae_num_polls_since_reply := 0, ae_polled_at_j := now - CLICK_HZ\<rparr>"
  have t2_eq: "(if last (at_age t1) \<noteq> ip then t1\<lparr>at_age := remove1 ip (at_age t1) @ [ip]\<rparr> else t1) = t2"
    by (simp add: t2_def age_def)
  have len: "length age = length (at_age t1)"
    using moved(1,2) \<open>distinct (at_age t1)\<close> by (metis distinct_card)
  have waits: "length (waiting t2 age) = length (waiting t1 (at_age t1))"
    using unat_counters(2) [OF ok1] unat_counters(2) [OF ok2] by (simp add: t2_def)
  have ends: "ip \<in> set age" "set age \<subseteq> insert ip (set (at_age t))" using moved(2) t1(4) sub1 by auto
  have invI: "arp_ok 0 0 age t' \<Longrightarrow> at_age t' = age \<Longrightarrow> same_settings t1 t' \<Longrightarrow> arp_inv t'" for t'
    using t1(2) len by (auto simp: arp_inv_def same_settings_def)
  have slimI: "(\<And>k. k \<noteq> ip \<Longrightarrow> at_table t' k = at_table t1 k) \<Longrightarrow> at_age t' = age \<Longrightarrow>
      slimmed (set (at_age t') - {ip}) t t'" for t'
    using t1(6) moved(2) by (auto simp: slimmed_def identity_of_def queue_of_def)
  show ?thesis
  proof (cases want)
    case False
    let ?t = "put_entry ip ?ae1 t2"
    have w: "length (waiting ?t age) = length (waiting t1 (at_age t1))"
      using waiting_put_length [of age ip ?ae1 t2] moved(1,2) t1(4) ae(1) q2 waits by (simp add: queue_of_def)
    have run: "ARPTable_insert ok now want ip eth t = Inr (0, None, ?t, map Kill ps)"
      using False t1(1) ae(2) t2_eq by (simp add: ARPTable_insert_def Let_def)
    have "entry_ok ?ae1" using ae(3) eth by (simp add: entry_ok_def)
    then have "arp_ok 0 0 age ?t"
      using moved(2) t1(4) ae(1) q2 by (intro arp_ok_same_queue [OF ok2]) (simp_all add: queue_of_def)
    moreover have "same_settings t1 ?t" by (simp add: t2_def same_settings_def put_entry_def)
    moreover have "at_age ?t = age" by (simp add: t2_def)
    ultimately show ?thesis
      using run False queue moved(3) t1(5) same_settings_trans [OF t1(3)] slimI [of ?t] w len1 ends
      by (intro exI [of _ ps] exI [of _ ?t] exI [of _ ?ae1]) (simp add: invI t2_def)
  next
    case True
    let ?ae2 = "?ae1\<lparr>ae_queue := [], ae_entry_packet_count := 0\<rparr>"
    let ?t = "put_entry ip ?ae2 (t2\<lparr>at_packet_count := at_packet_count t2 - ae_entry_packet_count ae\<rparr>)"
    have run: "ARPTable_insert ok now want ip eth t = Inr (0, Some (ae_queue ae), ?t, map Kill ps)"
      using True t1(1) ae(2) t2_eq by (simp add: ARPTable_insert_def Let_def)
    have w: "length (waiting ?t age) + length (ae_queue ae) = length (waiting t2 age)"
      using waiting_put_length [of age ip ?ae2 "t2\<lparr>at_packet_count := at_packet_count t2 - ae_entry_packet_count ae\<rparr>"]
        moved(1,2) t1(4) ae(1) q2 by (simp add: queue_of_def)
    have "arp_ok 0 0 age ?t"
    proof (rule arp_ok_put [OF ok2])
      have "at_packet_count t2 = of_nat (length (waiting t2 age))" "length (waiting t2 age) < 2 ^ 32"
        using ok2 by (simp_all add: arp_ok_def)
      then show "at_packet_count ?t = of_nat (length (waiting ?t age) + 0)" "length (waiting ?t age) + 0 < 2 ^ 32"
        using ae(3) unfolding w [symmetric] by (simp_all add: entry_ok_def)
      show "entry_ok ?ae2" using eth by (simp add: entry_ok_def)
    qed (use moved(2) t1(4) in simp_all)
    moreover have "same_settings t1 ?t" by (simp add: t2_def same_settings_def put_entry_def)
    moreover have "at_age ?t = age" by (simp add: t2_def)
    ultimately show ?thesis
      using run True queue moved(3) t1(5) same_settings_trans [OF t1(3)] slimI [of ?t] w len1 ends waits
      by (intro exI [of _ ps] exI [of _ ?t] exI [of _ ?ae2]) (simp add: invI t2_def)
  qed
qed

section \<open>Queueing a packet\<close>

lemma age_walk_ok:
  assumes "\<And>k. k \<in> set ks \<Longrightarrow> at_table t k \<noteq> None"
  shows "\<exists>older rest. age_walk t l ks = Inr (older, rest) \<and> ks = older @ rest"
  using assms by (induction ks) (fastforce simp: deref_def)+

text \<open>The entry does not expire after it was kept alive.\<close>

lemma keep_alive_ok:
  assumes ok: "arp_ok a b (at_age t) t" and ip: "ip \<in> set (at_age t)" and ae: "at_table t ip = Some ae"
  shows "\<exists>t' l. keep_alive now ip t = Inr t' \<and> arp_ok a b (at_age t') t' \<and> set (at_age t') = set (at_age t)
    \<and> at_table t' = (at_table t)(ip \<mapsto> ae\<lparr>ae_live_at_j := l\<rparr>) \<and> same_settings t t' \<and> at_drops t' = at_drops t
    \<and> at_packet_count t' = at_packet_count t
    \<and> \<not> expired (ae\<lparr>ae_live_at_j := l\<rparr>) now (at_timeout_j t)"
proof (cases "at_timeout_j t \<noteq> 0 \<and> click_jiffies_less (ae_live_at_j ae) (now - at_timeout_j t)")
  case False
  have "\<not> expired ae now (at_timeout_j t)"
    using False by (auto simp: expired_def click_jiffies_less_def diff_diff_eq2)
  then show ?thesis
    using False ok ae by (intro exI [of _ t] exI [of _ "ae_live_at_j ae"])
      (auto simp: keep_alive_def deref_def fun_upd_idem)
next
  case True
  let ?l = "now - at_timeout_j t"
  let ?t1 = "put_entry ip (ae\<lparr>ae_live_at_j := ?l\<rparr>) t"
  obtain before after where split: "at_age t = before @ ip # after" "ip \<notin> set before"
    using ip by (meson split_list_first)
  have before: "takeWhile (\<lambda>k. k \<noteq> ip) (at_age t) = before" "tl (dropWhile (\<lambda>k. k \<noteq> ip) (at_age t)) = after"
    using split by (auto simp: takeWhile_append dropWhile_append)
  have "k \<in> set after \<Longrightarrow> at_table ?t1 k \<noteq> None" for k
    using ok split(1) by (auto simp: arp_ok_def dom_def)
  then obtain older rest where walk: "age_walk ?t1 ?l after = Inr (older, rest)" "after = older @ rest"
    using age_walk_ok [of after ?t1 ?l] by blast
  let ?t2 = "?t1\<lparr>at_age := before @ older @ ip # rest\<rparr>"
  have run: "keep_alive now ip t = Inr ?t2"
    using True ae walk(1) by (simp add: keep_alive_def deref_def before Let_def)
  have "entry_ok ae" using ok ae by (auto simp: arp_ok_def)
  then have "arp_ok a b (at_age t) ?t1"
    using ip ae by (intro arp_ok_same_queue [OF ok]) (simp_all add: entry_ok_def queue_of_def)
  then have "arp_ok a b (before @ older @ ip # rest) ?t2"
    by (simp, rule arp_ok_reorder) (use ok in \<open>auto simp: arp_ok_def split walk(2)\<close>)
  moreover have "\<not> expired (ae\<lparr>ae_live_at_j := ?l\<rparr>) now (at_timeout_j t)"
    by (simp add: expired_def click_jiffies_less_def)
  ultimately show ?thesis
    using run by (intro exI [of _ ?t2] exI [of _ ?l]) (auto simp: split(1) walk(2) same_settings_def put_entry_def)
qed

text \<open>Queueing the packet on the entry, once there is room for it.\<close>

lemma enqueue_ok:
  assumes ok: "arp_ok 0 1 (at_age t) t" and ip: "ip \<in> set (at_age t)" and ae: "at_table t ip = Some ae"
    and ae': "ae' = ae\<lparr>ae_queue := ae_queue ae @ [p], ae_entry_packet_count := ae_entry_packet_count ae + 1\<rparr>"
    and ae'': "ae'' = ae' \<or> ae'' = mark_poll now ae'"
  shows "arp_ok 0 0 (at_age t) (put_entry ip ae'' t)" and "ae_queue ae'' = ae_queue ae @ [p]"
proof -
  show q: "ae_queue ae'' = ae_queue ae @ [p]" using ae' ae'' by auto
  have "entry_ok ae" using ok ae by (auto simp: arp_ok_def)
  then have good: "entry_ok ae''" using ae' ae'' by (auto simp: entry_ok_def mark_poll_def)
  have "distinct (at_age t)" using ok by (simp add: arp_ok_def)
  then have w: "length (waiting (put_entry ip ae'' t) (at_age t)) = length (waiting t (at_age t)) + 1"
    using waiting_put_length [OF _ ip, of ae'' t] q ae by (simp add: queue_of_def)
  show "arp_ok 0 0 (at_age t) (put_entry ip ae'' t)"
    using ok by (intro arp_ok_put [OF ok ip _ good]) (simp_all add: w arp_ok_def)
qed

lemma append_room_ok:
  assumes inv: "arp_inv t" and room: "length (waiting t (at_age t)) + 1 < 2 ^ 32"
    and ip: "ip \<in> set (at_age t)" "at_table t ip = Some ae" "\<not> expired ae now (at_timeout_j t)"
    and t3: "t3 = t\<lparr>at_packet_count := at_packet_count t + 1\<rparr>"
  shows "\<exists>ps t4. (if at_packet_capacity t3 \<noteq> 0 \<and> at_packet_capacity t3 < at_packet_count t3
        then slim now t3 else Inr (t3, [])) = Inr (t4, map Kill ps) \<and> ip \<in> set (at_age t4)
    \<and> set (at_age t4) \<subseteq> set (at_age t)
    \<and> arp_ok 0 1 (at_age t4) t4 \<and> same_settings t t4 \<and> slimmed (set (at_age t4)) t t4
    \<and> length (waiting t (at_age t)) = length ps + length (waiting t4 (at_age t4))
    \<and> (at_entry_capacity t \<noteq> 0 \<longrightarrow> length (at_age t4) \<le> unat (at_entry_capacity t))
    \<and> (at_packet_capacity t \<noteq> 0 \<longrightarrow> length (waiting t4 (at_age t4)) + 1 \<le> unat (at_packet_capacity t))"
proof -
  have ok3: "arp_ok 0 1 (at_age t) t3" using inv room by (simp add: t3 arp_inv_def arp_ok_def)
  have same: "at_age t3 = at_age t" "same_settings t t3" "waiting t3 = waiting t"
    "at_entry_capacity t3 = at_entry_capacity t" "at_packet_capacity t3 = at_packet_capacity t"
    "\<And>K u. slimmed K t3 u = slimmed K t u"
    by (simp_all add: t3 same_settings_def slimmed_def identity_of_def)
  show ?thesis
  proof (cases "at_packet_capacity t3 \<noteq> 0 \<and> at_packet_capacity t3 < at_packet_count t3")
    case True
    have fac: "at_packet_capacity t3 \<noteq> 0 \<Longrightarrow> at_capacity_slim_factor t3 \<noteq> 0"
      using inv by (simp add: t3 arp_inv_def)
    have ok: "arp_ok 0 1 (at_age t3) t3" using ok3 same(1) by simp
    obtain n ps t4 where t4: "slim now t3 = Inr (t4, map Kill ps)" "arp_ok 0 1 (at_age t4) t4"
      "waiting t3 (at_age t3) = ps @ waiting t4 (at_age t4)" "same_settings t3 t4"
      "slimmed (set (at_age t4)) t3 t4"
      "at_entry_capacity t3 \<noteq> 0 \<longrightarrow> length (at_age t4) + 0 \<le> unat (at_entry_capacity t3)"
      "at_packet_capacity t3 \<noteq> 0 \<longrightarrow> length (waiting t4 (at_age t4)) + 1 \<le> unat (at_packet_capacity t3)"
      "at_age t4 = drop n (at_age t3)"
      using slim_ok [OF ok order_refl zero_le fac, of now] by blast
    have "ip \<in> set (at_age t4)"
      by (rule slim_keeps [OF ok t4(1)]) (use ip inv in \<open>auto simp: t3 arp_inv_def\<close>)
    moreover have "set (at_age t4) \<subseteq> set (at_age t)" using t4(8) same(1) by (auto dest: in_set_dropD)
    ultimately show ?thesis using t4 True same same_settings_trans [OF same(2) t4(4)]
      by (intro exI [of _ ps] exI [of _ t4]) (simp add: arg_cong [OF t4(3), of length])
  next
    case False
    have "slimmed (set (at_age t)) t t3" by (simp add: same(6) [symmetric])
    then show ?thesis using False ok3 same ip(1) inv unat_counters(2) [OF ok3]
      by (intro exI [of _ "[]"] exI [of _ t3]) (auto simp: word_less_nat_alt arp_inv_def)
  qed
qed

definition known_at :: "ARPTable \<Rightarrow> u32 \<Rightarrow> u32 \<Rightarrow> bool" where
  "known_at t now ip = (case at_table t ip of None \<Rightarrow> False | Some ae \<Rightarrow> known ae now (at_timeout_j t))"

definition entry_full :: "ARPTable \<Rightarrow> u32 \<Rightarrow> bool" where
  "entry_full t ip \<longleftrightarrow> at_entry_packet_capacity t \<noteq> 0
     \<and> unat (at_entry_packet_capacity t) \<le> length (queue_of t ip)"

lemma known_new: "\<not> known (ARPEntry_new l q) now j"
  by (simp add: known_def ARPEntry_new_def)

lemma allow_poll_new: "allow_poll (ARPEntry_new now (now - CLICK_HZ)) now"
  by (simp add: allow_poll_def ARPEntry_new_def click_jiffies_less_def CLICK_HZ_def Let_def)

lemma slimmed_mono: "slimmed K t u \<Longrightarrow> K' \<subseteq> K \<Longrightarrow> slimmed K' t u"
  by (auto simp: slimmed_def)

lemma slimmed_keep: "slimmed K t u \<Longrightarrow> (\<And>k. k \<in> K' \<Longrightarrow> k \<in> K \<and> at_table v k = at_table u k) \<Longrightarrow> slimmed K' t v"
  by (auto simp: slimmed_def identity_of_def queue_of_def)

lemma slimmed_at:
  assumes "slimmed K t u" "k \<in> K" "at_table t k = Some ae" "at_table u k = Some ae'"
  shows "\<exists>m. ae_queue ae' = drop m (ae_queue ae)"
    and "ae_polled_at_j ae' = ae_polled_at_j ae"
    and "ae_num_polls_since_reply ae' = ae_num_polls_since_reply ae"
proof -
  show "\<exists>m. ae_queue ae' = drop m (ae_queue ae)"
    using assms by (auto simp: slimmed_def queue_of_def dest!: bspec [of K _ k])
  have same: "ae'\<lparr>ae_queue := [], ae_entry_packet_count := 0\<rparr> = ae\<lparr>ae_queue := [], ae_entry_packet_count := 0\<rparr>"
    using assms by (auto simp: slimmed_def identity_of_def dest!: bspec [of K _ k])
  show "ae_polled_at_j ae' = ae_polled_at_j ae" using same by (cases ae; cases ae') simp
  show "ae_num_polls_since_reply ae' = ae_num_polls_since_reply ae" using same by (cases ae; cases ae') simp
qed

lemma queue_le_waiting: "k \<in> set age \<Longrightarrow> length (queue_of t k) \<le> length (waiting t age)"
  by (induction age) auto

lemma entry_full_count:
  assumes ok: "arp_ok a b age t" and ae: "at_table t ip = Some ae"
  shows "unat (ae_entry_packet_count ae) = length (ae_queue ae)"
proof -
  have "ip \<in> set age" using ok ae by (auto simp: arp_ok_def)
  then have "length (ae_queue ae) < 2 ^ 32"
    using queue_le_waiting [of ip age t] ok ae by (simp add: arp_ok_def queue_of_def)
  moreover have "entry_ok ae" using ok ae by (auto simp: arp_ok_def)
  ultimately show ?thesis using unat_of_small by (simp add: entry_ok_def)
qed

text \<open>Queueing for an entry that is there and whose address is not known.\<close>

lemma append_query_there:
  assumes inv: "arp_inv t" and room: "arp_room t" and there: "ok \<or> ip \<in> set (at_age t)"
    and unknown: "\<not> known_at t now ip" and space: "\<not> entry_full t ip"
  shows "\<exists>r ps t' m. ARPTable_append_query ok now ip p t = Inr (r, t', map Kill ps) \<and> (r = 0 \<or> r = 1)
    \<and> (ip \<notin> set (at_age t) \<longrightarrow> r = 1) \<and> arp_inv t' \<and> same_settings t t'
    \<and> slimmed (set (at_age t') - {ip}) t t' \<and> ip \<in> set (at_age t')
    \<and> set (at_age t') \<subseteq> insert ip (set (at_age t)) \<and> queue_of t' ip = drop m (queue_of t ip) @ [p]
    \<and> length (waiting t' (at_age t')) + length ps = length (waiting t (at_age t)) + 1
    \<and> (at_packet_capacity t \<noteq> 0 \<longrightarrow> length (waiting t' (at_age t')) \<le> unat (at_packet_capacity t))"
proof -
  obtain as t1 ae where t1: "ensure ok ip now t = Inr (True, t1, map Kill as)" "arp_inv t1" "same_settings t t1"
    "ip \<in> set (at_age t1)" "ip \<in> set (at_age t) \<longrightarrow> t1 = t \<and> as = []"
    "slimmed (set (at_age t1) - {ip}) t t1" and ae: "at_table t1 ip = Some ae" "deref t1 ip = Inr ae" "entry_ok ae"
    and queue: "ae_queue ae = queue_of t ip"
    and len1: "length (waiting t (at_age t)) = length as + length (waiting t1 (at_age t1))"
    and new: "ip \<notin> set (at_age t) \<longrightarrow> ae = ARPEntry_new now (now - CLICK_HZ)"
    and sub1: "set (at_age t1) \<subseteq> insert ip (set (at_age t))"
    by (rule ensure_there [OF inv room there])
  have unk: "\<not> known ae now (at_timeout_j t1)"
    using unknown t1(5) ae(1) new known_new by (cases "ip \<in> set (at_age t)") (auto simp: known_at_def)
  have ok1: "arp_ok 0 0 (at_age t1) t1" using t1(2) by (simp add: arp_inv_def)
  obtain t2 l where t2: "keep_alive now ip t1 = Inr t2" "arp_ok 0 0 (at_age t2) t2"
    "set (at_age t2) = set (at_age t1)" "at_table t2 = (at_table t1)(ip \<mapsto> ae\<lparr>ae_live_at_j := l\<rparr>)"
    "same_settings t1 t2" "at_packet_count t2 = at_packet_count t1"
    "\<not> expired (ae\<lparr>ae_live_at_j := l\<rparr>) now (at_timeout_j t1)"
    using keep_alive_ok [OF ok1 t1(4) ae(1)] by blast
  have ages: "length (at_age t2) = length (at_age t1)"
    using t2(2,3) ok1 by (metis arp_ok_def distinct_card)
  have len2: "length (waiting t2 (at_age t2)) = length (waiting t1 (at_age t1))"
    using unat_counters(2) [OF t2(2)] unat_counters(2) [OF ok1] t2(6) by simp
  have set12: "same_settings t t2" using same_settings_trans [OF t1(3) t2(5)] .
  have inv2: "arp_inv t2"
    using t1(2) t2(2,5) ages by (simp add: arp_inv_def same_settings_def)
  define t3 where "t3 = t2\<lparr>at_packet_count := at_packet_count t2 + 1\<rparr>"
  have "length (waiting t2 (at_age t2)) + 1 < 2 ^ 32"
    using room len1 len2 by (simp add: arp_room_def)
  moreover have "ip \<in> set (at_age t2)" "at_table t2 ip = Some (ae\<lparr>ae_live_at_j := l\<rparr>)"
    "\<not> expired (ae\<lparr>ae_live_at_j := l\<rparr>) now (at_timeout_j t2)"
    using t1(4) t2(3,4,5,7) by (auto simp: same_settings_def)
  ultimately obtain ps t4 where t4: "(if at_packet_capacity t3 \<noteq> 0 \<and> at_packet_capacity t3 < at_packet_count t3
        then slim now t3 else Inr (t3, [])) = Inr (t4, map Kill ps)" "ip \<in> set (at_age t4)"
    "arp_ok 0 1 (at_age t4) t4" "same_settings t2 t4" "slimmed (set (at_age t4)) t2 t4"
    "length (waiting t2 (at_age t2)) = length ps + length (waiting t4 (at_age t4))"
    "at_entry_capacity t2 \<noteq> 0 \<longrightarrow> length (at_age t4) \<le> unat (at_entry_capacity t2)"
    "at_packet_capacity t2 \<noteq> 0 \<longrightarrow> length (waiting t4 (at_age t4)) + 1 \<le> unat (at_packet_capacity t2)"
    "set (at_age t4) \<subseteq> set (at_age t2)"
    using append_room_ok [OF inv2 _ _ _ _ t3_def] by blast
  obtain ae4 where ae4: "at_table t4 ip = Some ae4" "deref t4 ip = Inr ae4"
    using arp_ok_deref [OF t4(3,2)] by auto
  have at2: "at_table t2 ip = Some (ae\<lparr>ae_live_at_j := l\<rparr>)" using t2(4) by simp
  note same4 = slimmed_at [OF t4(5,2) at2 ae4(1)]
  obtain m where m: "ae_queue ae4 = drop m (queue_of t ip)" using same4(1) queue by auto
  define ae5 where "ae5 = ae4\<lparr>ae_queue := ae_queue ae4 @ [p],
    ae_entry_packet_count := ae_entry_packet_count ae4 + 1\<rparr>"
  define ae6 where "ae6 = (if allow_poll ae5 now then mark_poll now ae5 else ae5)"
  have "ae6 = ae5 \<or> ae6 = mark_poll now ae5" by (simp add: ae6_def)
  note queued = enqueue_ok [OF t4(3,2) ae4(1) ae5_def this]
  have "\<not> (at_entry_packet_capacity t2 \<noteq> 0 \<and> at_entry_packet_capacity t2 \<le> ae_entry_packet_count ae)"
    using space entry_full_count [OF ok1 ae(1)] set12 queue
    by (auto simp: entry_full_def same_settings_def word_le_nat_alt)
  then have run: "ARPTable_append_query ok now ip p t
      = Inr (if allow_poll ae5 now then 1 else 0, put_entry ip ae6 t4, map Kill (as @ ps))"
    using t1(1) ae(2) unk t2(1) t4(1) ae4(2)
    by (auto simp: ARPTable_append_query_def Let_def t3_def [symmetric] ae5_def [symmetric] ae6_def)
  have poll: "ip \<notin> set (at_age t) \<longrightarrow> allow_poll ae5 now"
    using allow_poll_new [of now] new same4(2,3) by (auto simp: allow_poll_def ae5_def)
  have set4: "same_settings t (put_entry ip ae6 t4)"
    using same_settings_trans [OF set12 same_settings_trans [OF t4(4) put_entry_sel(7)]] .
  have inv4: "arp_inv (put_entry ip ae6 t4)"
    using queued(1) t4(7) set4 set12 inv by (auto simp: arp_inv_def same_settings_def)
  have sub4: "set (at_age t4) \<subseteq> set (at_age t1)" using t4(9) t2(3) by simp
  have slim12: "slimmed (set (at_age t1) - {ip}) t t2"
    by (rule slimmed_keep [OF t1(6)]) (auto simp: t2(4))
  have "slimmed (set (at_age t4) - {ip}) t t4"
    by (rule slimmed_trans [OF slimmed_mono [OF slim12] slimmed_mono [OF t4(5)]]) (use sub4 in auto)
  then have slim4: "slimmed (set (at_age t4) - {ip}) t (put_entry ip ae6 t4)"
    by (rule slimmed_keep) auto
  have "length (waiting (put_entry ip ae6 t4) (at_age t4)) = length (waiting t4 (at_age t4)) + 1"
    using unat_counters(2) [OF t4(3)] unat_counters(2) [OF queued(1)] by simp
  then show ?thesis
    using run poll set4 inv4 slim4 t4(2,6,8) queued(2) m len1 len2 set12 subset_trans [OF sub4 sub1]
    by (intro exI [of _ "if allow_poll ae5 now then 1 else 0"] exI [of _ "as @ ps"]
        exI [of _ "put_entry ip ae6 t4"] exI [of _ m] conjI) (simp_all add: same_settings_def)
qed

lemma append_query_full:
  assumes inv: "arp_inv t" and room: "arp_room t" and ip: "ip \<in> set (at_age t)"
    and unknown: "\<not> known_at t now ip" and full: "entry_full t ip"
  shows "\<exists>t'. ARPTable_append_query ok now ip p t = Inr (- ENOMEM, t', []) \<and> arp_inv t' \<and> same_settings t t'
    \<and> queue_of t' = queue_of t \<and> at_drops t' = at_drops t + 1 \<and> set (at_age t') = set (at_age t)"
proof -
  have ok: "arp_ok 0 0 (at_age t) t" using inv by (simp add: arp_inv_def)
  obtain ae where ae: "at_table t ip = Some ae" "deref t ip = Inr ae"
    using arp_ok_deref [OF ok ip] by auto
  obtain t2 l where t2: "keep_alive now ip t = Inr t2" "arp_ok 0 0 (at_age t2) t2"
    "set (at_age t2) = set (at_age t)" "at_table t2 = (at_table t)(ip \<mapsto> ae\<lparr>ae_live_at_j := l\<rparr>)"
    "same_settings t t2" "at_drops t2 = at_drops t"
    using keep_alive_ok [OF ok ip ae(1)] by blast
  have ages: "length (at_age t2) = length (at_age t)"
    using t2(2,3) ok by (metis arp_ok_def distinct_card)
  have "at_entry_packet_capacity t2 \<noteq> 0 \<and> at_entry_packet_capacity t2 \<le> ae_entry_packet_count ae"
    using full entry_full_count [OF ok ae(1)] t2(5) ae(1)
    by (simp add: entry_full_def same_settings_def word_le_nat_alt queue_of_def)
  then have "ARPTable_append_query ok now ip p t = Inr (- ENOMEM, t2\<lparr>at_drops := at_drops t2 + 1\<rparr>, [])"
    using ae unknown t2(1) by (simp add: ARPTable_append_query_def ensure_def known_at_def)
  moreover have "arp_inv (t2\<lparr>at_drops := at_drops t2 + 1\<rparr>)"
    using inv t2(2,5) ages by (simp add: arp_inv_def same_settings_def)
  moreover have "queue_of t2 = queue_of t"
    using ae(1) by (auto simp: queue_of_def t2(4) fun_eq_iff)
  ultimately show ?thesis using t2(3,5,6) by (auto simp: same_settings_def)
qed

section \<open>Properties\<close>

text \<open>A table that was configured and never filled.\<close>

lemma arp_inv_new:
  assumes "ARPTable_configure (Some c) (ARPTable_new junk) = (0, t, as)"
  shows "arp_inv t \<and> waiting t (at_age t) = [] \<and> at_age t = []"
  using assms
  by (auto simp: ARPTable_configure_def ARPTable_new_def arp_inv_def arp_ok_def set_timeout_def Let_def
      split: if_splits)

text \<open>(C7) Eviction (\<^verbatim>\<open>slim\<close>, the body of the expiry timer): whatever the capacities and the time, it
  returns without following a null or freed entry, removes the oldest entries and then the oldest
  waiting packets, kills exactly the packets it removes in the order they were waiting, and leaves
  the table consistent and within both capacities.
\<close>

theorem arp_timer_evicts_oldest:
  assumes "arp_inv t"
  shows "\<exists>n ps t'. ARPTable_run_timer now t = Inr (t', map Kill ps
        @ (if at_timeout_j t \<noteq> 0 then [Schedule 0 ((at_timeout_j t div CLICK_HZ + 1) * 1000)] else []))
    \<and> arp_inv t'
    \<and> at_age t' = drop n (at_age t) \<and> waiting t (at_age t) = ps @ waiting t' (at_age t')
    \<and> at_drops t' = at_drops t + of_nat (length ps)
    \<and> unat (at_entry_count t') = length (at_age t')
    \<and> unat (at_packet_count t') = length (waiting t' (at_age t'))
    \<and> (at_packet_capacity t \<noteq> 0 \<longrightarrow> at_packet_count t' \<le> at_packet_capacity t)
    \<and> (\<forall>k ae. at_table t k = Some ae \<and> \<not> expired ae now (at_timeout_j t) \<longrightarrow> k \<in> set (at_age t'))"
proof -
  have ok: "arp_ok 0 0 (at_age t) t" using assms by (simp add: arp_inv_def)
  have fac: "at_packet_capacity t \<noteq> 0 \<Longrightarrow> at_capacity_slim_factor t \<noteq> 0"
    using assms by (simp add: arp_inv_def)
  obtain n ps t' where t': "slim now t = Inr (t', map Kill ps)" "at_age t' = drop n (at_age t)"
    "arp_ok 0 0 (at_age t') t'" "waiting t (at_age t) = ps @ waiting t' (at_age t')"
    "same_settings t t'" "at_drops t' = at_drops t + of_nat (length ps)"
    "at_entry_capacity t \<noteq> 0 \<longrightarrow> length (at_age t') + 0 \<le> unat (at_entry_capacity t)"
    "at_packet_capacity t \<noteq> 0 \<longrightarrow> length (waiting t' (at_age t')) + 0 \<le> unat (at_packet_capacity t)"
    using slim_ok [OF ok zero_le zero_le fac, of now] by blast
  have "arp_inv t'" using t'(3,5,7) fac by (simp add: arp_inv_def same_settings_def)
  moreover have "k \<in> set (at_age t')" if "at_table t k = Some ae" "\<not> expired ae now (at_timeout_j t)" for k ae
    by (rule slim_keeps [OF ok t'(1) _ that]) (use that assms in \<open>auto simp: arp_inv_def arp_ok_def\<close>)
  moreover have "at_packet_capacity t \<noteq> 0 \<longrightarrow> at_packet_count t' \<le> at_packet_capacity t"
    using t'(8) unat_counters(2) [OF t'(3)] by (simp add: word_le_nat_alt)
  ultimately show ?thesis
    using t'(1,2,4,6) unat_counters [OF t'(3)] t'(5)
    by (intro exI [of _ n] exI [of _ ps] exI [of _ t'])
      (auto simp: ARPTable_run_timer_def same_settings_def)
qed

text \<open>A small table: room for one packet, no expiry, one packet waiting for the address 1.\<close>

definition tiny_conf :: arp_conf where
  "tiny_conf = \<lparr>cf_capacity = Some 1, cf_entry_capacity = None, cf_entry_packet_capacity = None,
     cf_capacity_slim_factor = None, cf_timeout = Some (0, 0)\<rparr>"

definition tiny_table :: "packet \<Rightarrow> ARPTable" where
  "tiny_table p = (case ARPTable_append_query True 0 1 p (fst (snd (ARPTable_configure (Some tiny_conf) (ARPTable_new 0)))) of
       Inr (r, t, as) \<Rightarrow> t
     | Inl e \<Rightarrow> ARPTable_new 0)"

lemmas arp_eval = ARPTable_append_query_def ARPTable_insert_def ARPTable_configure_def ARPTable_new_def ensure_def
  deref_def put_entry_def known_def expired_def keep_alive_def allow_poll_def mark_poll_def ARPEntry_new_def
  click_jiffies_less_def CLICK_HZ_def set_timeout_def timeout_jiffies_def with_default_def is_broadcast_def
  slim_def free_entry_def Let_def ENOMEM_def EAGAIN_def

lemma tiny_table_eq:
  "tiny_table p = \<lparr>at_table = [1 \<mapsto> \<lparr>ae_eth = make_broadcast, ae_known = False, ae_num_polls_since_reply = 1,
       ae_live_at_j = 0, ae_polled_at_j = 0, ae_queue = [p], ae_entry_packet_count = 1\<rparr>], at_age = [1],
     at_entry_count = 1, at_packet_count = 1, at_entry_capacity = 0, at_packet_capacity = 1,
     at_entry_packet_capacity = 0, at_capacity_slim_factor = 2, at_timeout_j = 0, at_drops = 0\<rparr>"
  by (simp add: tiny_table_def tiny_conf_def arp_eval)

theorem arp_timer_evicts_oldest_witness:
  "arp_inv (tiny_table (fresh_packet [] [] 0)) \<and>
   (\<exists>t' as. ARPTable_run_timer 7 (tiny_table (fresh_packet [] [] 0)) = Inr (t', as) \<and> arp_inv t' \<and> 1 \<in> set (at_age t'))"
proof -
  have inv: "arp_inv (tiny_table (fresh_packet [] [] 0))"
    by (simp add: tiny_table_eq arp_inv_def arp_ok_def waiting_def queue_of_def entry_ok_def make_broadcast_def)
  from arp_timer_evicts_oldest [OF inv, of 7] inv show ?thesis
    by (auto simp: tiny_table_eq expired_def)
qed

text \<open>A finding on live reconfiguration: ARPTable accepts a smaller ENTRY_CAPACITY without evicting
  entries.  The next packet for an entry that is already there can then evict that very entry
  while making room, and \<^verbatim>\<open>append_query\<close> goes on to queue the packet on the freed entry.
\<close>

theorem append_query_uses_freed_entry:
  "\<exists>t2 t3. ARPTable_insert True 0 False 2 [2, 0, 0, 0, 0, 1] (tiny_table p) = Inr (0, None, t2, [])
    \<and> ARPTable_configure (Some (tiny_conf\<lparr>cf_entry_capacity := Some 1\<rparr>)) t2 = (0, t3, [])
    \<and> ARPTable_append_query True 0 1 q t3 = Inl UseAfterFree"
  by (simp add: tiny_table_eq tiny_conf_def arp_eval)

text \<open>
  A second one: a live reconfiguration with CAPACITY_SLIM_FACTOR zero is rejected, but only after
  the zero was stored; the next packet over the capacity divides by it.
\<close>

theorem rejected_slim_factor_divides:
  "\<exists>t2. ARPTable_configure (Some (tiny_conf\<lparr>cf_capacity_slim_factor := Some 0\<rparr>)) (tiny_table p) = (error_result, t2, [])
    \<and> ARPTable_append_query True 0 2 q t2 = Inl DivByZero"
  by (simp add: tiny_table_eq tiny_conf_def arp_eval)

end
