(* ===== verification/ARPElements.thy ===== *)
theory ARPElements
  imports ARPTable IPPath
begin

text \<open>
  \<^verbatim>\<open>elements/ethernet/arpquerier.cc\<close> and \<^verbatim>\<open>arpresponder.cc\<close>: the querier puts Ethernet
  headers on IP packets, asking for addresses it does not know while the packets wait in its ARP
  table; the responder answers for the addresses it owns.

  The readings of the clock during one call are the function \<open>clock\<close> of a counter that also
  numbers the packet allocations.  The loop behind \<^verbatim>\<open>retry_read_lock\<close> is a partial function,
  \<open>None\<close> standing for a call that never returns.  Timestamp, device and VLAN annotations and
  chatter are left out.

  Shown: a packet for an unknown address, the query it causes, the responder's answer and the
  packet finally sent fit together; the querier never faults and always returns, as long as the
  table can allocate an entry, and what happens when it cannot.
\<close>

section \<open>Messages\<close>

definition be16 :: "u16 \<Rightarrow> bytes" where
  "be16 x = put16 (zeros 2) 0 (htons x)"

definition ip_bytes :: "u32 \<Rightarrow> bytes" where
  "ip_bytes a = put32 (zeros 4) 0 a"

definition ETHERTYPE_IP :: u16 where "ETHERTYPE_IP = 0x0800"
definition ETHERTYPE_ARP :: u16 where "ETHERTYPE_ARP = 0x0806"
definition ARPHRD_ETHER :: u16 where "ARPHRD_ETHER = 1"
definition ARPOP_REQUEST :: u16 where "ARPOP_REQUEST = 1"
definition ARPOP_REPLY :: u16 where "ARPOP_REPLY = 2"

text \<open>An Ethernet header with an ARP message: the fields of \<^verbatim>\<open>click_ether\<close> and
  \<^verbatim>\<open>click_ether_arp\<close> in their order, 42 bytes in all.\<close>

definition arp_message :: "bytes \<Rightarrow> bytes \<Rightarrow> u16 \<Rightarrow> bytes \<Rightarrow> bytes \<Rightarrow> bytes \<Rightarrow> bytes \<Rightarrow> bytes" where
  "arp_message dhost shost op sha spa tha tpa =
     dhost @ shost @ be16 ETHERTYPE_ARP
     @ be16 ARPHRD_ETHER @ be16 ETHERTYPE_IP @ [6, 4] @ be16 op
     @ sha @ spa @ tha @ tpa"

definition arp_sha :: "bytes \<Rightarrow> bytes" where "arp_sha b = take 6 (drop 22 b)"
definition arp_spa :: "bytes \<Rightarrow> bytes" where "arp_spa b = take 4 (drop 28 b)"
definition arp_tpa :: "bytes \<Rightarrow> bytes" where "arp_tpa b = take 4 (drop 38 b)"

definition is_arp :: "u16 \<Rightarrow> bytes \<Rightarrow> bool" where
  "is_arp op b \<longleftrightarrow> ntohs (get16 b 12) = ETHERTYPE_ARP \<and> ntohs (get16 b 14) = ARPHRD_ETHER
     \<and> ntohs (get16 b 16) = ETHERTYPE_IP \<and> ntohs (get16 b 20) = op"

section \<open>ARPQuerier\<close>

record ARPQuerier =
  aq_arpt :: ARPTable
  aq_my_arpt :: bool
  aq_my_ip :: u32
  aq_my_en :: bytes
  aq_my_bcast_ip :: u32
  aq_poll_timeout_j :: u32
  aq_broadcast_poll :: bool
  aq_zero_warned :: bool
  aq_arp_queries :: u32
  aq_drops :: u32
  aq_arp_responses :: u32

text \<open>The arguments: those handed to a table of its own, BROADCAST, an element for TABLE,
  POLL_TIMEOUT, BROADCAST_POLL; then IP with its mask and ETH, each parse of which may fail.\<close>

record querier_conf =
  qc_table_conf :: arp_conf
  qc_broadcast :: "u32 option"
  qc_table :: "ARPTable option"
  qc_poll_timeout :: "timestamp option"
  qc_broadcast_poll :: "bool option"

definition subnet_broadcast :: "u32 option \<Rightarrow> u32 \<Rightarrow> u32 \<Rightarrow> u32" where
  "subnet_broadcast given ip my_mask = (case given of
       Some b \<Rightarrow> b
     | None \<Rightarrow> let b = ip OR NOT my_mask in if b = ip then 0xFFFFFFFF else b)"

definition ARPQuerier_configure ::
  "u32 \<Rightarrow> querier_conf option \<Rightarrow> (u32 \<times> u32 \<times> bytes) option \<Rightarrow> ARPQuerier \<Rightarrow> int \<times> ARPQuerier \<times> action list" where
  "ARPQuerier_configure junk conf addrs s = (case conf of
       None \<Rightarrow> (- 1, s, [])
     | Some c \<Rightarrow>
         let (s1, as) = (case qc_table c of
                Some t \<Rightarrow> (s\<lparr>aq_arpt := t\<rparr>, [])
              | None \<Rightarrow> (case ARPTable_configure (Some (qc_table_conf c)) (ARPTable_new junk) of
                  (_, t, as) \<Rightarrow> (s\<lparr>aq_arpt := t, aq_my_arpt := True\<rparr>, as)));
             s2 = (case qc_broadcast c of Some b \<Rightarrow> s1\<lparr>aq_my_bcast_ip := b\<rparr> | None \<Rightarrow> s1)
         in (case addrs of
              None \<Rightarrow> (- 1, s2, as)
            | Some (ip, my_mask, en) \<Rightarrow>
                (0, s2\<lparr>aq_my_ip := ip, aq_my_en := en,
                       aq_my_bcast_ip := subnet_broadcast (qc_broadcast c) ip my_mask,
                       aq_broadcast_poll := with_default False (qc_broadcast_poll c),
                       aq_poll_timeout_j := timeout_jiffies (with_default (60, 0) (qc_poll_timeout c))\<rparr>, as)))"

text \<open>\<^verbatim>\<open>live_reconfigure\<close>; a POLL_TIMEOUT that is not given keeps its value.\<close>

definition set_capacities :: "arp_conf \<Rightarrow> ARPTable \<Rightarrow> ARPTable" where
  "set_capacities c t =
     (let t1 = t\<lparr>at_packet_capacity := with_default (at_packet_capacity t) (cf_capacity c),
            at_entry_capacity := with_default (at_entry_capacity t) (cf_entry_capacity c),
            at_entry_packet_capacity :=
              with_default (at_entry_packet_capacity t) (cf_entry_packet_capacity c),
            at_capacity_slim_factor :=
              with_default (at_capacity_slim_factor t) (cf_capacity_slim_factor c)\<rparr>
      in case cf_timeout c of Some ts \<Rightarrow> set_timeout ts t1 | None \<Rightarrow> t1)"

definition ARPQuerier_live_reconfigure ::
  "u32 list \<Rightarrow> querier_conf option \<Rightarrow> (u32 \<times> u32 \<times> bytes) option \<Rightarrow> ARPQuerier
     \<Rightarrow> (int \<times> ARPQuerier \<times> action list) res" where
  "ARPQuerier_live_reconfigure order conf addrs s = (case (conf, addrs) of
       (Some c, Some (ip, my_mask, en)) \<Rightarrow>
         if cf_capacity_slim_factor (qc_table_conf c) = Some 0 then Inr (error_result, s, [])
         else bind_res (if (ip \<noteq> aq_my_ip s \<or> en \<noteq> aq_my_en s) \<and> aq_my_arpt s
                        then ARPTable_clear order (aq_arpt s) else Inr (aq_arpt s, []))
           (\<lambda>(t, as). Inr (0,
              s\<lparr>aq_arpt := (if aq_my_arpt s then set_capacities (qc_table_conf c) t else t),
                aq_my_ip := ip, aq_my_en := en,
                aq_my_bcast_ip := subnet_broadcast (qc_broadcast c) ip my_mask,
                aq_broadcast_poll := with_default (aq_broadcast_poll s) (qc_broadcast_poll c),
                aq_poll_timeout_j := (case qc_poll_timeout c of
                    Some ts \<Rightarrow> timeout_jiffies ts | None \<Rightarrow> aq_poll_timeout_j s)\<rparr>, as))
     | _ \<Rightarrow> Inr (- 1, s, []))"

definition ARPQuerier_initialize :: "ARPQuerier \<Rightarrow> ARPQuerier" where
  "ARPQuerier_initialize s = s\<lparr>aq_arp_queries := 0, aq_drops := 0, aq_arp_responses := 0\<rparr>"

text \<open>Where the Ethernet header of a packet begins in its data.\<close>

definition eth_offset :: "packet \<Rightarrow> nat option" where
  "eth_offset q = (case pk_mac q of
       None \<Rightarrow> None
     | Some m \<Rightarrow> if pk_headroom q \<le> m \<and> m + 14 \<le> pk_headroom q + pk_length q
                 then Some (m - pk_headroom q) else None)"

definition send_query_for ::
  "environ \<Rightarrow> nat \<Rightarrow> nat \<Rightarrow> packet \<Rightarrow> nat \<Rightarrow> bool \<Rightarrow> ARPQuerier \<Rightarrow> ARPQuerier \<times> action list" where
  "send_query_for env noutputs n p h ether_dhost_valid s =
     (case packet_make env n (default_headroom - 14) None 42 0 of
        None \<Rightarrow> (s, [])
      | Some q \<Rightarrow>
          let dhost = (if ether_dhost_valid \<and> \<not> aq_broadcast_poll s
                       then ether_dhost (pk_data p) h else replicate 6 0xFF)
          in (s\<lparr>aq_arp_queries := aq_arp_queries s + 1\<rparr>,
              [Emit (noutputs - 1) (set_mac_header 0 14 (with_data q (\<lambda>_.
                 arp_message dhost (aq_my_en s) ARPOP_REQUEST (aq_my_en s) (ip_bytes (aq_my_ip s))
                   (zeros 6) (ip_bytes (pk_dst_ip p)))))]))"

definition multicast_eth :: "u32 \<Rightarrow> bytes" where
  "multicast_eth dst_ip = (let addr = ntohl dst_ip in
     [0x01, 0x00, 0x5E, ucast (drop_bit 16 addr AND 0x7F), ucast (drop_bit 8 addr), ucast addr])"

text \<open>The last lines of \<^verbatim>\<open>handle_ip\<close>: the packet goes out with the destination found and our
  own address as source.\<close>

definition send_ip :: "ARPQuerier \<Rightarrow> nat \<Rightarrow> bytes \<Rightarrow> packet \<Rightarrow> action" where
  "send_ip s h eth q =
     Emit 0 (with_data q (\<lambda>b. put_bytes (put_bytes b h eth) (h + 6) (aq_my_en s)))"

type_synonym querier_result = "(ARPQuerier \<times> action list \<times> nat) res"

partial_function (option) retry_read_lock ::
  "environ \<Rightarrow> (nat \<Rightarrow> u32) \<Rightarrow> nat \<Rightarrow> packet \<Rightarrow> nat \<Rightarrow> nat \<Rightarrow> ARPQuerier \<Rightarrow> action list \<Rightarrow> querier_result option" where
  "retry_read_lock env clock noutputs q h n s as =
     (let dst_ip = pk_dst_ip q in
      case ARPTable_lookup (clock n) dst_ip (aq_poll_timeout_j s) (aq_arpt s) of (r, eth, t1) \<Rightarrow>
      let s1 = s\<lparr>aq_arpt := t1\<rparr> in
      if 0 \<le> r
      then if is_broadcast eth then Some (Inl AssertFail)
           else let q1 = with_data q (\<lambda>b. put_bytes b h eth) in
             (case (if 0 < r then send_query_for env noutputs (n + 1) q1 h True s1 else (s1, [])) of
                (s2, bs) \<Rightarrow> Some (Inr (s2, as @ bs @ [send_ip s2 h eth q1], n + 2)))
      else if dst_ip = 0xFFFFFFFF \<or> dst_ip = aq_my_bcast_ip s
        then Some (Inr (s1, as @ [send_ip s1 h (replicate 6 0xFF) q], n + 2))
      else if is_multicast dst_ip
        then Some (Inr (s1, as @ [send_ip s1 h (multicast_eth dst_ip) q], n + 2))
      else if dst_ip = 0
        then Some (Inr (s1\<lparr>aq_zero_warned := True, aq_drops := aq_drops s1 + 1\<rparr>, as @ [Kill q], n + 2))
      else (case ARPTable_append_query (env_elt env) (clock (n + 1)) dst_ip q t1 of
          Inl e \<Rightarrow> Some (Inl e)
        | Inr (r2, t2, bs) \<Rightarrow>
            let s2 = s\<lparr>aq_arpt := t2\<rparr> in
            if r2 = - EAGAIN
              then retry_read_lock env clock noutputs q h (n + 2) s2 (as @ bs)
            else if r2 < 0 then Some (Inr (s2, as @ bs @ [Kill q], n + 2))
            else if 0 < r2
              then (case send_query_for env noutputs (n + 2) q h False s2 of
                      (s3, cs) \<Rightarrow> Some (Inr (s3, as @ bs @ cs, n + 3)))
            else Some (Inr (s2, as @ bs, n + 2))))"

definition handle_ip ::
  "environ \<Rightarrow> (nat \<Rightarrow> u32) \<Rightarrow> nat \<Rightarrow> bool \<Rightarrow> packet \<Rightarrow> nat \<Rightarrow> ARPQuerier \<Rightarrow> querier_result option" where
  "handle_ip env clock noutputs response p n s =
     (if aq_my_ip s = 0 then Some (Inr (s\<lparr>aq_drops := aq_drops s + 1\<rparr>, [Kill p], n))
      else if response
        then if shared p then Some (Inl AssertFail)
             else (case eth_offset p of
                 None \<Rightarrow> Some (Inl OutOfBounds)
               | Some h \<Rightarrow> retry_read_lock env clock noutputs p h n s [])
      else (case push_mac_header env 14 p of
          None \<Rightarrow> Some (Inr (s\<lparr>aq_drops := aq_drops s + 1\<rparr>, [], n))
        | Some q \<Rightarrow> (case eth_offset q of
            None \<Rightarrow> Some (Inl OutOfBounds)
          | Some h \<Rightarrow> retry_read_lock env clock noutputs
              (with_data q (\<lambda>b. put16 b (h + 12) (htons ETHERTYPE_IP))) h n s [])))"

text \<open>The loop over the packets that waited for the address.\<close>

fun send_cached ::
  "environ \<Rightarrow> (nat \<Rightarrow> u32) \<Rightarrow> nat \<Rightarrow> packet list \<Rightarrow> nat \<Rightarrow> ARPQuerier \<Rightarrow> querier_result option" where
  "send_cached env clock noutputs [] n s = Some (Inr (s, [], n))"
| "send_cached env clock noutputs (p # ps) n s =
     (case handle_ip env clock noutputs True p n s of
        None \<Rightarrow> None
      | Some (Inl e) \<Rightarrow> Some (Inl e)
      | Some (Inr (s1, as, n1)) \<Rightarrow> (case send_cached env clock noutputs ps n1 s1 of
          None \<Rightarrow> None
        | Some (Inl e) \<Rightarrow> Some (Inl e)
        | Some (Inr (s2, bs, n2)) \<Rightarrow> Some (Inr (s2, as @ bs, n2))))"

text \<open>\<^verbatim>\<open>cached_packet\<close> has no initial value; \<^verbatim>\<open>insert\<close> does not store to it when it cannot
  allocate an entry, and its result is not looked at.\<close>

definition handle_response ::
  "environ \<Rightarrow> (nat \<Rightarrow> u32) \<Rightarrow> nat \<Rightarrow> packet \<Rightarrow> ARPQuerier \<Rightarrow> querier_result option" where
  "handle_response env clock noutputs p s =
     (if pk_length p < 42 then Some (Inr (s, [], 0))
      else let s1 = s\<lparr>aq_arp_responses := aq_arp_responses s + 1\<rparr>;
               b = pk_data p; ipa = get32 b 28; ena = arp_sha b
        in if is_arp ARPOP_REPLY b \<and> \<not> is_group ena
           then (case ARPTable_insert (env_elt env) (clock 0) True ipa ena (aq_arpt s1) of
               Inl e \<Rightarrow> Some (Inl e)
             | Inr (r, cached, t1, as) \<Rightarrow>
                 (case cached of
                    None \<Rightarrow> Some (Inl Uninitialised)
                  | Some ps \<Rightarrow>
                      (case send_cached env clock noutputs ps 1 (s1\<lparr>aq_arpt := t1\<rparr>) of
                         None \<Rightarrow> None
                       | Some (Inl e) \<Rightarrow> Some (Inl e)
                       | Some (Inr (s2, bs, n)) \<Rightarrow> Some (Inr (s2, as @ bs, n)))))
           else Some (Inr (s1, [], 0)))"

definition ARPQuerier_push ::
  "environ \<Rightarrow> (nat \<Rightarrow> u32) \<Rightarrow> nat \<Rightarrow> nat \<Rightarrow> packet \<Rightarrow> ARPQuerier \<Rightarrow> (ARPQuerier \<times> action list) res option" where
  "ARPQuerier_push env clock noutputs port p s =
     (if port = 0
      then map_option (map_sum id (\<lambda>(s', as, n). (s', as))) (handle_ip env clock noutputs False p 0 s)
      else map_option (map_sum id (\<lambda>(s', as, n). (s', as @ [Kill p]))) (handle_response env clock noutputs p s))"

definition ARPQuerier_write_handler ::
  "bool \<Rightarrow> u32 \<Rightarrow> arp_command \<Rightarrow> ARPQuerier \<Rightarrow> (int \<times> ARPQuerier \<times> action list) res" where
  "ARPQuerier_write_handler ok now c s =
     bind_res (ARPTable_write_handler ok now c (aq_arpt s)) (\<lambda>(r, t, as).
       Inr (r, (case c of H_clear _ \<Rightarrow> s\<lparr>aq_arp_queries := 0, aq_drops := 0, aq_arp_responses := 0\<rparr>
                 | _ \<Rightarrow> s)\<lparr>aq_arpt := t\<rparr>, as))"

text \<open>\<^verbatim>\<open>take_state\<close>: this querier and the one it takes over from, after it.\<close>

definition ARPQuerier_take_state :: "ARPQuerier \<Rightarrow> ARPQuerier \<Rightarrow> ARPQuerier \<times> ARPQuerier" where
  "ARPQuerier_take_state arpq s =
     (if aq_my_ip s \<noteq> aq_my_ip arpq \<or> aq_my_en s \<noteq> aq_my_en arpq \<or> aq_my_bcast_ip s \<noteq> aq_my_bcast_ip arpq
      then (s, arpq)
      else case (if aq_my_arpt s \<and> aq_my_arpt arpq then ARPTable_take_state (aq_arpt arpq) (aq_arpt s)
                 else (aq_arpt s, aq_arpt arpq)) of
        (t, t') \<Rightarrow> (s\<lparr>aq_arpt := t, aq_arp_queries := aq_arp_queries arpq, aq_drops := aq_drops arpq,
                      aq_arp_responses := aq_arp_responses arpq\<rparr>, arpq\<lparr>aq_arpt := t'\<rparr>))"

section \<open>ARPResponder\<close>

record responder_entry =
  re_dst :: u32
  re_mask :: u32
  re_ena :: bytes

text \<open>A word of an argument: what \<^verbatim>\<open>IPPrefixArg\<close> and \<^verbatim>\<open>EtherAddressArg\<close> read from it.\<close>

type_synonym responder_word = "(u32 \<times> u32) option \<times> bytes option"

fun add_words :: "responder_word list \<Rightarrow> bytes option \<Rightarrow> (responder_entry list \<times> bytes option) option" where
  "add_words [] ena = Some ([], ena)"
| "add_words ((Some (addr, my_mask), _) # ws) ena =
     map_option (\<lambda>(es, e). (\<lparr>re_dst = addr AND my_mask, re_mask = my_mask, re_ena = []\<rparr> # es, e)) (add_words ws ena)"
| "add_words ((None, Some e) # ws) ena =
     (case ena of Some _ \<Rightarrow> None | None \<Rightarrow> add_words ws (Some e))"
| "add_words ((None, None) # ws) ena = None"

text \<open>The second loop of \<^verbatim>\<open>add\<close>: a word that is both kinds of address.\<close>

definition any_ether :: "responder_word list \<Rightarrow> bytes option" where
  "any_ether ws = (case find (\<lambda>w. snd w \<noteq> None) ws of Some w \<Rightarrow> snd w | None \<Rightarrow> None)"

definition ARPResponder_add ::
  "responder_word list \<Rightarrow> responder_entry list \<Rightarrow> int \<times> responder_entry list" where
  "ARPResponder_add ws v = (case add_words ws None of
       None \<Rightarrow> (error_result, v)
     | Some (es, e) \<Rightarrow>
         (case (case e of Some _ \<Rightarrow> e | None \<Rightarrow> any_ether ws) of
            ena \<Rightarrow> if es = [] then (error_result, v)
                   else (case ena of
                      None \<Rightarrow> (error_result, v)
                    | Some eth \<Rightarrow> (0, v @ map (\<lambda>x. x\<lparr>re_ena := eth\<rparr>) es))))"

definition entry_compare :: "responder_entry list \<Rightarrow> nat \<Rightarrow> nat \<Rightarrow> int" where
  "entry_compare es a b =
     (let ea = es ! a; eb = es ! b in
      if re_dst ea = re_dst eb \<and> re_mask ea = re_mask eb then int b - int a
      else if re_dst ea AND re_mask eb = re_dst eb then - 1
      else if re_dst eb AND re_mask ea = re_dst ea then 1
      else int a - int b)"

text \<open>The order \<^verbatim>\<open>click_qsort\<close> leaves is an argument: a permutation of the indices.\<close>

fun drop_repeats :: "responder_entry list \<Rightarrow> responder_entry list" where
  "drop_repeats (a # b # es) =
     (if re_dst a = re_dst b \<and> re_mask a = re_mask b then drop_repeats (a # es)
      else a # drop_repeats (b # es))"
| "drop_repeats es = es"

definition normalize ::
  "((nat \<Rightarrow> nat \<Rightarrow> int) \<Rightarrow> nat list \<Rightarrow> nat list) \<Rightarrow> responder_entry list \<Rightarrow> responder_entry list" where
  "normalize qsort v = drop_repeats (map (\<lambda>i. v ! i) (qsort (entry_compare v) [0..<length v]))"

definition ARPResponder_configure ::
  "((nat \<Rightarrow> nat \<Rightarrow> int) \<Rightarrow> nat list \<Rightarrow> nat list) \<Rightarrow> responder_word list list \<Rightarrow> responder_entry list
     \<Rightarrow> int \<times> responder_entry list" where
  "ARPResponder_configure qsort conf v0 =
     (case fold (\<lambda>ws (bad, v). case ARPResponder_add ws v of (r, v') \<Rightarrow> (bad \<or> r < 0, v')) conf (False, []) of
        (bad, v) \<Rightarrow> if bad then (- 1, v0) else (0, normalize qsort v))"

definition ARPResponder_add_handler ::
  "((nat \<Rightarrow> nat \<Rightarrow> int) \<Rightarrow> nat list \<Rightarrow> nat list) \<Rightarrow> responder_word list \<Rightarrow> responder_entry list
     \<Rightarrow> int \<times> responder_entry list" where
  "ARPResponder_add_handler qsort ws v0 = (case ARPResponder_add ws v0 of (r, v) \<Rightarrow>
     if 0 \<le> r then (0, normalize qsort v) else (- 1, v0))"

fun remove_entry :: "u32 \<Rightarrow> u32 \<Rightarrow> responder_entry list \<Rightarrow> responder_entry list option" where
  "remove_entry addr my_mask [] = None"
| "remove_entry addr my_mask (e # es) =
     (if re_dst e = addr \<and> re_mask e = my_mask then Some es
      else map_option (Cons e) (remove_entry addr my_mask es))"

definition ARPResponder_remove_handler ::
  "(u32 \<times> u32) option \<Rightarrow> responder_entry list \<Rightarrow> int \<times> responder_entry list" where
  "ARPResponder_remove_handler arg v = (case arg of
       None \<Rightarrow> (error_result, v)
     | Some (addr, my_mask) \<Rightarrow> (case remove_entry (addr AND my_mask) my_mask v of
          Some v' \<Rightarrow> (0, v') | None \<Rightarrow> (error_result, v)))"

definition ARPResponder_lookup :: "u32 \<Rightarrow> responder_entry list \<Rightarrow> bytes option" where
  "ARPResponder_lookup addr v = map_option re_ena (find (\<lambda>e. addr AND re_mask e = re_dst e) v)"

text \<open>\<^verbatim>\<open>Packet::make(length)\<close> leaves the default headroom.\<close>

definition make_response :: "environ \<Rightarrow> bytes \<Rightarrow> bytes \<Rightarrow> bytes \<Rightarrow> bytes \<Rightarrow> packet option" where
  "make_response env target_eth target_ip src_eth src_ip =
     map_option (\<lambda>q. set_mac_header 0 14 (with_data q (\<lambda>_.
         arp_message target_eth src_eth ARPOP_REPLY src_eth src_ip target_eth target_ip)))
       (packet_make env 0 default_headroom None 42 0)"

definition ARPResponder_simple_action ::
  "environ \<Rightarrow> nat \<Rightarrow> responder_entry list \<Rightarrow> packet \<Rightarrow> simple_result" where
  "ARPResponder_simple_action env noutputs v p =
     (let b = pk_data p;
          q = (if 42 \<le> pk_length p \<and> is_arp ARPOP_REQUEST b
               then (case ARPResponder_lookup (get32 b 38) v of
                   Some ena \<Rightarrow> make_response env (arp_sha b) (arp_spa b) ena (arp_tpa b)
                 | None \<Rightarrow> None)
               else None)
      in case q of Some r \<Rightarrow> (q, [Kill p]) | None \<Rightarrow> (None, checked_output_push noutputs 1 p))"

section \<open>Reading messages\<close>

lemma get16_append_right: "length xs \<le> k \<Longrightarrow> get16 (xs @ ys) k = get16 ys (k - length xs)"
  by (simp add: get16_def nth_append Suc_diff_le)

lemma get32_append_right: "length xs \<le> k \<Longrightarrow> get32 (xs @ ys) k = get32 ys (k - length xs)"
  by (simp add: get32_def nth_append Suc_diff_le)

lemma get16_Cons: "0 < k \<Longrightarrow> get16 (x # ys) k = get16 ys (k - 1)"
  and get32_Cons: "0 < k \<Longrightarrow> get32 (x # ys) k = get32 ys (k - 1)"
  using get16_append_right [of "[x]" k ys] get32_append_right [of "[x]" k ys] by simp_all

lemma be16_sel [simp]: "length (be16 x) = 2" "get16 (be16 x) 0 = htons x"
  by (simp_all add: be16_def zeros_def get16_put16 f16.length_put)

lemma ip_bytes_sel [simp]: "length (ip_bytes a) = 4" "get32 (ip_bytes a) 0 = a"
  by (simp_all add: ip_bytes_def zeros_def get32_put32 f32.length_put)

lemma get16_be16_append [simp]: "get16 (be16 x @ ys) 0 = htons x"
  by (simp add: f16.get_append)

lemma arp_message_fields:
  assumes "length dhost = 6" "length shost = 6" "length sha = 6" "length spa = 4" "length tha = 6" "length tpa = 4"
  shows "length (arp_message dhost shost op sha spa tha tpa) = 42"
    and "is_arp op' (arp_message dhost shost op sha spa tha tpa) \<longleftrightarrow> op' = op"
    and "arp_sha (arp_message dhost shost op sha spa tha tpa) = sha"
    and "arp_spa (arp_message dhost shost op sha spa tha tpa) = spa"
    and "arp_tpa (arp_message dhost shost op sha spa tha tpa) = tpa"
    and "get32 (arp_message dhost shost op sha spa tha tpa) 28 = get32 spa 0"
    and "get32 (arp_message dhost shost op sha spa tha tpa) 38 = get32 tpa 0"
  using assms
  by (auto simp: arp_message_def is_arp_def arp_sha_def arp_spa_def arp_tpa_def get16_append_right
      get32_append_right f32.get_append get16_Cons get32_Cons)

lemma is_group_broadcast:
  assumes "is_broadcast e"
  shows "is_group e"
proof -
  have "unat (get16 e 0) = 65535"
    using assms unat_u16_bound [of "get16 e 0"] unat_u16_bound [of "get16 e 2"] unat_u16_bound [of "get16 e 4"]
    by (simp add: is_broadcast_def)
  then have "get16 e 0 = 0xFFFF" by (simp add: word_unat_eq_iff)
  then have "bit (get16 e 0) 0" by simp
  then have "bit (e ! 0) 0" by (simp add: get16_def bit_simps)
  then show ?thesis using bit_test [of 0 "e ! 0"] by (simp add: is_group_def get8_def)
qed

section \<open>Waiting packets\<close>

text \<open>What the querier puts on an entry's queue: an unshared packet for that address with an
  Ethernet header in front of its data.\<close>

definition sendable :: "u32 \<Rightarrow> packet \<Rightarrow> bool" where
  "sendable ip p \<longleftrightarrow> pk_dst_ip p = ip \<and> \<not> shared p \<and> pk_mac p = Some (pk_headroom p) \<and> 14 \<le> pk_length p
     \<and> get16 (pk_data p) 12 = htons ETHERTYPE_IP"

definition querier_inv :: "ARPQuerier \<Rightarrow> bool" where
  "querier_inv s \<longleftrightarrow> arp_inv (aq_arpt s) \<and> length (aq_my_en s) = 6
     \<and> (\<forall>k p. p \<in> set (queue_of (aq_arpt s) k) \<longrightarrow> sendable k p)"

lemma sendable_offset: "sendable ip p \<Longrightarrow> eth_offset p = Some 0"
  by (simp add: sendable_def eth_offset_def)

lemma move_data_left_sel: "shared (move_data_left n p) = shared p" "pk_dst_ip (move_data_left n p) = pk_dst_ip p"
  by (simp_all add: move_data_left_def shared_def Let_def)

lemma expensive_push_sel:
  assumes "expensive_push env n p = Some q"
  shows "\<not> shared q \<and> pk_dst_ip q = pk_dst_ip p"
proof -
  obtain e r where "expensive_uniqueify env e 0 p = Some r" "q = move_data_left n r"
    using assms by (auto simp: expensive_push_def simp del: split_paired_Ex)
  moreover from this have "\<not> shared r" using expensive_uniqueify_data by blast
  moreover from calculation have "pk_dst_ip r = pk_dst_ip p"
    by (auto simp: expensive_uniqueify_def Let_def split: if_splits)
  ultimately show ?thesis by (simp add: move_data_left_sel)
qed

lemma pushed_sendable:
  assumes "push_mac_header env 14 p = Some q"
  shows "sendable (pk_dst_ip p) (with_data q (\<lambda>b. put16 b 12 (htons ETHERTYPE_IP)))"
    and "eth_offset q = Some 0" and "drop 14 (pk_data q) = pk_data p" and "14 \<le> length (pk_data q)"
proof -
  show "drop 14 (pk_data q) = pk_data p" "14 \<le> length (pk_data q)"
    using push_mac_data [OF assms] by auto
  obtain r where r: "q = set_mac_header 0 14 r" "\<not> shared r" "pk_dst_ip r = pk_dst_ip p"
    using assms expensive_push_sel [of env 14 p]
    by (auto simp: push_mac_header_def move_data_left_sel split: if_splits)
  have "14 \<le> pk_length r"
    using \<open>14 \<le> length (pk_data q)\<close> r(1) by (simp add: set_mac_header_def pk_length_def)
  with r show "eth_offset q = Some 0"
    by (simp add: eth_offset_def set_mac_header_def pk_headroom_def pk_length_def)
  from r \<open>14 \<le> pk_length r\<close> show "sendable (pk_dst_ip p) (with_data q (\<lambda>b. put16 b 12 (htons ETHERTYPE_IP)))"
    by (simp add: sendable_def with_data_def set_mac_header_def pk_headroom_def pk_length_def shared_def
        get16_put16 f16.length_put)
qed

section \<open>Looking up\<close>

lemma lookup_unknown:
  "\<not> known_at t now ip \<Longrightarrow> ARPTable_lookup now ip j t = (- 1, [], t)"
  by (auto simp: ARPTable_lookup_def known_at_def split: option.splits)

lemma lookup_known:
  assumes "known_at t now ip"
  shows "\<exists>r ae t1. ARPTable_lookup now ip j t = (r, ae_eth ae, t1) \<and> at_table t ip = Some ae
    \<and> (r = 0 \<and> t1 = t \<or> r = 1 \<and> t1 = put_entry ip (mark_poll now ae) t)"
  using assms by (auto simp: ARPTable_lookup_def known_at_def split: option.splits)

lemma arp_inv_mark_poll:
  assumes "arp_inv t" "at_table t ip = Some ae"
  shows "arp_inv (put_entry ip (mark_poll now ae) t)"
    and "queue_of (put_entry ip (mark_poll now ae) t) = queue_of t"
proof -
  have ok: "arp_ok 0 0 (at_age t) t" using assms(1) by (simp add: arp_inv_def)
  have "ip \<in> set (at_age t)" "entry_ok ae" using ok assms(2) by (auto simp: arp_ok_def)
  then have "arp_ok 0 0 (at_age t) (put_entry ip (mark_poll now ae) t)"
    using assms(2) by (intro arp_ok_same_queue [OF ok]) (simp_all add: queue_of_def)
  then show "arp_inv (put_entry ip (mark_poll now ae) t)"
    using assms(1) by (simp add: arp_inv_def put_entry_def)
  show "queue_of (put_entry ip (mark_poll now ae) t) = queue_of t"
    using assms(2) by (auto simp: fun_eq_iff queue_of_def put_entry_def mark_poll_def)
qed

lemma known_not_broadcast:
  assumes "arp_inv t" "at_table t ip = Some ae" "known_at t now ip"
  shows "\<not> is_broadcast (ae_eth ae)" and "length (ae_eth ae) = 6"
  using assms by (auto simp: arp_inv_def arp_ok_def entry_ok_def known_at_def known_def)

section \<open>The querier always returns\<close>

lemma querier_inv_update [simp]:
  "querier_inv (s\<lparr>aq_arp_queries := w\<rparr>) = querier_inv s" "querier_inv (s\<lparr>aq_drops := w\<rparr>) = querier_inv s"
  "querier_inv (s\<lparr>aq_zero_warned := b\<rparr>) = querier_inv s" "querier_inv (s\<lparr>aq_arp_responses := w\<rparr>) = querier_inv s"
  by (simp_all add: querier_inv_def)

lemma send_query_for_state:
  assumes "send_query_for env noutputs n p h valid s = (s', bs)"
  shows "aq_arpt s' = aq_arpt s" "querier_inv s' = querier_inv s" "aq_my_ip s' = aq_my_ip s"
  using assms by (auto simp: send_query_for_def Let_def split: option.splits)

lemma querier_inv_table:
  assumes "querier_inv s" "arp_inv t" "\<And>k p. p \<in> set (queue_of t k) \<Longrightarrow> sendable k p"
  shows "querier_inv (s\<lparr>aq_arpt := t\<rparr>)"
  using assms by (simp add: querier_inv_def)

text \<open>How far one call can fill the table.\<close>

definition grown :: "u32 \<Rightarrow> ARPTable \<Rightarrow> ARPTable \<Rightarrow> bool" where
  "grown ip t t' \<longleftrightarrow> set (at_age t') \<subseteq> insert ip (set (at_age t))
     \<and> length (waiting t' (at_age t')) \<le> length (waiting t (at_age t)) + 1"

lemma grown_refl [simp]: "grown ip t t"
  by (auto simp: grown_def)

lemma queue_of_slimmed:
  assumes "slimmed (set (at_age t') - {ip}) t t'" "arp_inv t'" "k \<noteq> ip"
  shows "set (queue_of t' k) \<subseteq> set (queue_of t k)"
proof (cases "k \<in> set (at_age t')")
  case True
  then obtain m where "queue_of t' k = drop m (queue_of t k)"
    using assms(1,3) by (auto simp: slimmed_def)
  then show ?thesis by (auto dest: in_set_dropD)
next
  case False
  then have "at_table t' k = None" using assms(2) by (auto simp: arp_inv_def arp_ok_def)
  then show ?thesis by (simp add: queue_of_def)
qed

lemma append_query_total:
  assumes inv: "arp_inv t" and room: "arp_room t" and unknown: "\<not> known_at t now ip"
  shows "\<exists>r ps t'. ARPTable_append_query True now ip q t = Inr (r, t', map Kill ps) \<and> r \<noteq> - EAGAIN
    \<and> arp_inv t' \<and> grown ip t t' \<and> set (queue_of t' ip) \<subseteq> insert q (set (queue_of t ip))
    \<and> (\<forall>k. k \<noteq> ip \<longrightarrow> set (queue_of t' k) \<subseteq> set (queue_of t k))"
proof (cases "entry_full t ip")
  case True
  have ip: "ip \<in> set (at_age t)"
  proof (rule ccontr)
    assume "ip \<notin> set (at_age t)"
    then have "at_table t ip = None" using inv by (auto simp: arp_inv_def arp_ok_def)
    then show False using True by (simp add: entry_full_def queue_of_def unat_eq_zero)
  qed
  obtain t' where t': "ARPTable_append_query True now ip q t = Inr (- ENOMEM, t', [])" "arp_inv t'"
    "queue_of t' = queue_of t" "set (at_age t') = set (at_age t)"
    using append_query_full [OF inv room ip unknown True] by blast
  have "length (waiting t' (at_age t')) = length (waiting t (at_age t))"
    using t'(2-4) inv by (simp add: waiting_length arp_inv_def arp_ok_def)
  with t' show ?thesis
    by (intro exI [of _ "- ENOMEM"] exI [of _ "[]"] exI [of _ t']) (auto simp: grown_def ENOMEM_def EAGAIN_def)
next
  case False
  obtain r ps t' m where t': "ARPTable_append_query True now ip q t = Inr (r, t', map Kill ps)" "r = 0 \<or> r = 1"
    "arp_inv t'" "slimmed (set (at_age t') - {ip}) t t'" "set (at_age t') \<subseteq> insert ip (set (at_age t))"
    "queue_of t' ip = drop m (queue_of t ip) @ [q]"
    "length (waiting t' (at_age t')) + length ps = length (waiting t (at_age t)) + 1"
    using append_query_there [OF inv room _ unknown False, of True q] by blast
  then show ?thesis
    using queue_of_slimmed [OF t'(4,3)]
    by (intro exI [of _ r] exI [of _ ps] exI [of _ t']) (auto simp: grown_def EAGAIN_def dest: in_set_dropD)
qed

lemma sint_negative: "sint (w :: u32) < 0 \<longleftrightarrow> 2 ^ 31 \<le> unat w"
proof -
  have "sint w = (uint w + 2 ^ 31) mod 2 ^ 32 - 2 ^ 31"
    by (simp add: sint_uint signed_take_bit_eq_take_bit_shift take_bit_eq_mod)
  moreover have "uint w < 2 ^ 32" "0 \<le> uint w" using uint_bounded [of w] by simp_all
  moreover have "(u + 2147483648) mod 4294967296 - 2147483648 < 0 \<longleftrightarrow> 2147483648 \<le> u"
    if "0 \<le> u" "u < 4294967296" for u :: int
  proof (cases "u < 2147483648")
    case False
    have "(u + 2147483648) mod 4294967296 = (u - 2147483648) mod 4294967296"
      using mod_add_self2 [of "u - 2147483648" 4294967296] by (simp add: add.commute)
    also have "\<dots> = u - 2147483648" using that False by (intro mod_pos_pos_trivial) linarith+
    finally show ?thesis using that False by linarith
  qed (use that in \<open>simp add: mod_pos_pos_trivial\<close>)
  ultimately have "sint w < 0 \<longleftrightarrow> 2147483648 \<le> uint w" by simp
  moreover have "uint w = int (unat w)" by simp
  ultimately have "sint w < 0 \<longleftrightarrow> 2147483648 \<le> unat w" by linarith
  then show ?thesis by simp
qed

text \<open>
  The clock during one call: its readings do not go back, and the call takes less than \<open>2\<^sup>31\<close> jiffies, about 24.8 days.
  Jiffies are compared by the sign of their difference, so that an entry that expired \<open>2\<^sup>31\<close> jiffies ago counts as fresh again;
  in such a call that happens at most once, and the other way round at most once.
\<close>

definition steady_clock :: "(nat \<Rightarrow> u32) \<Rightarrow> bool" where
  "steady_clock clock \<longleftrightarrow> (\<exists>start d. mono d \<and> (\<forall>i. d i < 2 ^ 31 \<and> clock i = start + of_nat (d i)))"

lemma steady_clock_const: "(\<And>i. clock i = now) \<Longrightarrow> steady_clock clock"
  unfolding steady_clock_def by (intro exI [of _ now] exI [of _ "\<lambda>_. 0"]) (simp add: mono_def)

lemma jiffies_less_offset:
  assumes "d < 2 ^ 31"
  shows "click_jiffies_less x (start + of_nat d) \<longleftrightarrow> unat (x - start) < d \<or> 2 ^ 31 + d \<le> unat (x - start)"
proof -
  let ?v = "x - start"
  have d: "unat (of_nat d :: u32) = d" using assms by (simp add: unat_of_nat)
  have "unat (?v - of_nat d) = (if d \<le> unat ?v then unat ?v - d else unat ?v + 2 ^ 32 - d)"
    using d by (simp add: unat_sub_if')
  moreover have "x - (start + of_nat d) = ?v - of_nat d" by (simp only: diff_diff_eq)
  moreover have "unat ?v < 2 ^ 32" using unsigned_less [of ?v] by simp
  ultimately show ?thesis
    unfolding click_jiffies_less_def sint_negative using assms by (simp only:) (auto split: if_splits)
qed

lemma known_again:
  assumes "steady_clock clock" "i \<le> j" "j \<le> k" "\<not> known_at t (clock i) ip" "known_at t (clock j) ip"
  shows "known_at t (clock k) ip"
proof -
  obtain start d where d: "mono d" "\<And>i. d i < 2 ^ 31" "\<And>i. clock i = start + of_nat (d i)"
    using assms(1) by (auto simp: steady_clock_def)
  have le: "d i \<le> d j" "d j \<le> d k" using d(1) assms(2,3) by (auto simp: mono_def)
  note less = jiffies_less_offset [OF d(2)]
  show ?thesis
    using assms(4,5) le d(2) [of i] d(2) [of j] d(2) [of k]
    by (auto simp: known_at_def known_def expired_def d(3) less split: option.splits)
qed

lemma append_query_again:
  assumes "known_at t now ip"
  shows "ARPTable_append_query ok now ip q t = Inr (- EAGAIN, t, [])"
  using assms by (auto simp: known_at_def ARPTable_append_query_def ensure_def deref_def split: option.splits)

text \<open>The first reading of the clock finds the address known: the packet is sent.\<close>

lemma retry_known:
  assumes inv: "querier_inv s" and known: "known_at (aq_arpt s) (clock n) (pk_dst_ip q)"
  shows "\<exists>s' bs n'. retry_read_lock env clock noutputs q 0 n s as = Some (Inr (s', bs, n')) \<and> querier_inv s'
    \<and> grown (pk_dst_ip q) (aq_arpt s) (aq_arpt s') \<and> aq_my_ip s' = aq_my_ip s"
proof -
  let ?ip = "pk_dst_ip q" and ?t = "aq_arpt s"
  have tinv: "arp_inv ?t" and queued: "\<And>k p. p \<in> set (queue_of ?t k) \<Longrightarrow> sendable k p"
    using inv by (auto simp: querier_inv_def)
  obtain r ae t1 where l: "ARPTable_lookup (clock n) ?ip (aq_poll_timeout_j s) ?t = (r, ae_eth ae, t1)"
    "at_table ?t ?ip = Some ae" "r = 0 \<and> t1 = ?t \<or> r = 1 \<and> t1 = put_entry ?ip (mark_poll (clock n) ae) ?t"
    using lookup_known [OF known, of "aq_poll_timeout_j s"] by blast
  have t1: "arp_inv t1" "queue_of t1 = queue_of ?t" "at_age t1 = at_age ?t"
    using l(3) tinv arp_inv_mark_poll [OF tinv l(2)] by auto
  then have s1: "querier_inv (s\<lparr>aq_arpt := t1\<rparr>)" "grown ?ip ?t t1"
    using inv queued by (auto intro!: querier_inv_table simp: grown_def waiting_def)
  let ?q1 = "with_data q (\<lambda>b. put_bytes b 0 (ae_eth ae))"
  obtain s2 bs where s2: "(if 0 < r then send_query_for env noutputs (n + 1) ?q1 0 True (s\<lparr>aq_arpt := t1\<rparr>)
      else (s\<lparr>aq_arpt := t1\<rparr>, [])) = (s2, bs)" by fastforce
  then have "querier_inv s2 \<and> aq_arpt s2 = t1 \<and> aq_my_ip s2 = aq_my_ip s"
    using s1(1) send_query_for_state [of env noutputs "n + 1" ?q1 0 True "s\<lparr>aq_arpt := t1\<rparr>" s2 bs]
    by (auto split: if_splits)
  moreover have "retry_read_lock env clock noutputs q 0 n s as
      = Some (Inr (s2, as @ bs @ [send_ip s2 0 (ae_eth ae) ?q1], n + 2))"
    using l s2 known_not_broadcast [OF tinv l(2) known]
    by (subst retry_read_lock.simps) (auto simp: Let_def)
  ultimately show ?thesis using s1(2) by auto
qed

text \<open>Both readings find it unknown: the packet waits, or is dropped.\<close>

lemma retry_unknown:
  assumes inv: "querier_inv s" and room: "arp_room (aq_arpt s)" and elt: "env_elt env" and q: "sendable (pk_dst_ip q) q"
    and unknown: "\<not> known_at (aq_arpt s) (clock n) (pk_dst_ip q)" "\<not> known_at (aq_arpt s) (clock (n + 1)) (pk_dst_ip q)"
  shows "\<exists>s' bs n'. retry_read_lock env clock noutputs q 0 n s as = Some (Inr (s', bs, n')) \<and> querier_inv s'
    \<and> grown (pk_dst_ip q) (aq_arpt s) (aq_arpt s') \<and> aq_my_ip s' = aq_my_ip s"
proof -
  let ?ip = "pk_dst_ip q" and ?t = "aq_arpt s"
  have tinv: "arp_inv ?t" and queued: "\<And>k p. p \<in> set (queue_of ?t k) \<Longrightarrow> sendable k p"
    using inv by (auto simp: querier_inv_def)
  obtain r ps t2 where t2: "ARPTable_append_query True (clock (n + 1)) ?ip q ?t = Inr (r, t2, map Kill ps)" "r \<noteq> - EAGAIN"
    "arp_inv t2" "grown ?ip ?t t2" "set (queue_of t2 ?ip) \<subseteq> insert q (set (queue_of ?t ?ip))"
    "\<forall>k. k \<noteq> ?ip \<longrightarrow> set (queue_of t2 k) \<subseteq> set (queue_of ?t k)"
    using append_query_total [OF tinv room unknown(2), of q] by blast
  have s2: "querier_inv (s\<lparr>aq_arpt := t2\<rparr>)"
  proof (rule querier_inv_table [OF inv t2(3)])
    show "sendable k p" if "p \<in> set (queue_of t2 k)" for k p
      using that t2(5,6) q queued by (cases "k = ?ip") blast+
  qed
  obtain s3 cs where s3: "send_query_for env noutputs (n + 2) q 0 False (s\<lparr>aq_arpt := t2\<rparr>) = (s3, cs)"
    by fastforce
  show ?thesis
    using t2(1,2,4) s2 s3 send_query_for_state [OF s3] inv elt lookup_unknown [OF unknown(1)]
    by (subst retry_read_lock.simps) (simp add: Let_def)
qed

lemma retry_total:
  assumes inv: "querier_inv s" and room: "arp_room (aq_arpt s)" and elt: "env_elt env"
    and clock: "steady_clock clock" and q: "sendable (pk_dst_ip q) q"
  shows "\<exists>s' bs n'. retry_read_lock env clock noutputs q 0 n s as = Some (Inr (s', bs, n')) \<and> querier_inv s'
    \<and> grown (pk_dst_ip q) (aq_arpt s) (aq_arpt s') \<and> aq_my_ip s' = aq_my_ip s"
proof -
  let ?known = "\<lambda>i. known_at (aq_arpt s) (clock i) (pk_dst_ip q)"
  consider "?known n" | "\<not> ?known n" "\<not> ?known (n + 1)" | "\<not> ?known n" "?known (n + 1)" "?known (n + 2)"
    using known_again [OF clock, of n "n + 1" "n + 2"] by force
  then show ?thesis
  proof cases
    case 1
    then show ?thesis by (rule retry_known [OF inv])
  next
    case 2
    then show ?thesis by (rule retry_unknown [OF inv room elt q])
  next
    case 3
    have "retry_read_lock env clock noutputs q 0 n s as = retry_read_lock env clock noutputs q 0 (n + 2) s as
      \<or> (\<exists>s' bs n'. retry_read_lock env clock noutputs q 0 n s as = Some (Inr (s', bs, n')) \<and> querier_inv s'
          \<and> aq_arpt s' = aq_arpt s \<and> aq_my_ip s' = aq_my_ip s)"
      using lookup_unknown [OF 3(1)] append_query_again [OF 3(2)] inv
      by (subst (1 3) retry_read_lock.simps) (simp add: Let_def)
    then show ?thesis using retry_known [where clock = clock and n = "n + 2" and as = as and env = env and noutputs = noutputs, OF inv 3(3)] by fastforce
  qed
qed

lemma age_card: "arp_inv t \<Longrightarrow> length (at_age t) = card (set (at_age t))"
  by (metis arp_inv_def arp_ok_def distinct_card)

lemma room_card:
  assumes "arp_inv t" "card (insert ip (set (at_age t))) + 1 < 2 ^ 32" "length (waiting t (at_age t)) + 1 < 2 ^ 32"
  shows "arp_room t"
  using assms card_mono [of "insert ip (set (at_age t))" "set (at_age t)"]
  by (simp add: arp_room_def age_card subset_insertI)

lemma send_cached_total:
  assumes "\<And>p. p \<in> set ps \<Longrightarrow> sendable ip p" "querier_inv s" "env_elt env" "steady_clock clock"
    and "card (insert ip (set (at_age (aq_arpt s)))) + 1 < 2 ^ 32"
    and "length (waiting (aq_arpt s) (at_age (aq_arpt s))) + length ps + 1 < 2 ^ 32"
  shows "\<exists>s' as n'. send_cached env clock noutputs ps n s = Some (Inr (s', as, n')) \<and> querier_inv s'"
  using assms(1,2,5,6)
proof (induction ps arbitrary: n s)
  case (Cons p ps)
  let ?t = "aq_arpt s"
  have p: "sendable ip p" and ip: "pk_dst_ip p = ip" using Cons.prems(1) by (auto simp: sendable_def)
  have tinv: "arp_inv ?t" using Cons.prems(2) by (simp add: querier_inv_def)
  have room: "arp_room ?t" by (rule room_card [OF tinv Cons.prems(3)]) (use Cons.prems(4) in simp)
  have "\<exists>s1 as n1. handle_ip env clock noutputs True p n s = Some (Inr (s1, as, n1)) \<and> querier_inv s1
      \<and> grown ip ?t (aq_arpt s1)"
  proof (cases "aq_my_ip s = 0")
    case True
    then show ?thesis using Cons.prems(2) by (auto simp: handle_ip_def)
  next
    case False
    then show ?thesis
      using retry_total [where clock = clock and noutputs = noutputs and q = p and n = n and as = "[]", OF Cons.prems(2) room assms(3,4)] p sendable_offset [OF p] ip
      by (auto simp: handle_ip_def sendable_def)
  qed
  then obtain s1 as n1 where s1: "handle_ip env clock noutputs True p n s = Some (Inr (s1, as, n1))"
    "querier_inv s1" "grown ip ?t (aq_arpt s1)" by blast
  have "card (insert ip (set (at_age (aq_arpt s1)))) \<le> card (insert ip (set (at_age ?t)))"
    using s1(3) by (intro card_mono) (auto simp: grown_def)
  then have "card (insert ip (set (at_age (aq_arpt s1)))) + 1 < 2 ^ 32" using Cons.prems(3) by linarith
  moreover have "length (waiting (aq_arpt s1) (at_age (aq_arpt s1))) + length ps + 1 < 2 ^ 32"
    using s1(3) Cons.prems(4) by (simp add: grown_def)
  ultimately obtain s2 bs n2 where "send_cached env clock noutputs ps n1 s1 = Some (Inr (s2, bs, n2))" "querier_inv s2"
    using Cons.IH [of s1 n1] Cons.prems(1) s1(2) by auto
  with s1(1) show ?case by simp
qed simp

definition arp_space :: "ARPTable \<Rightarrow> bool" where
  "arp_space t \<longleftrightarrow> length (at_age t) + 2 < 2 ^ 32 \<and> length (waiting t (at_age t)) + 2 < 2 ^ 32"

lemma arp_space_room: "arp_space t \<Longrightarrow> arp_room t"
  by (simp add: arp_space_def arp_room_def)

lemma handle_ip_total:
  assumes inv: "querier_inv s" and space: "arp_space (aq_arpt s)" and elt: "env_elt env" and clock: "steady_clock clock"
  shows "\<exists>s' as n'. handle_ip env clock noutputs False p n s = Some (Inr (s', as, n')) \<and> querier_inv s'"
proof (cases "aq_my_ip s = 0 \<or> push_mac_header env 14 p = None")
  case True
  then show ?thesis using inv by (auto simp: handle_ip_def)
next
  case False
  then obtain q where q: "push_mac_header env 14 p = Some q" by auto
  note sent = pushed_sendable [OF q]
  let ?q = "with_data q (\<lambda>b. put16 b 12 (htons ETHERTYPE_IP))"
  have "sendable (pk_dst_ip ?q) ?q" using sent(1) by (simp add: sendable_def)
  then obtain s' as n' where "retry_read_lock env clock noutputs ?q 0 n s [] = Some (Inr (s', as, n'))" "querier_inv s'"
    using retry_total [where clock = clock and noutputs = noutputs and q = ?q and n = n and as = "[]", OF inv arp_space_room [OF space] elt clock] by blast
  then show ?thesis using False q sent(2) by (simp add: handle_ip_def)
qed

lemma handle_response_total:
  assumes inv: "querier_inv s" and space: "arp_space (aq_arpt s)" and elt: "env_elt env" and clock: "steady_clock clock"
  shows "\<exists>s' as n'. handle_response env clock noutputs p s = Some (Inr (s', as, n')) \<and> querier_inv s'"
proof (cases "42 \<le> pk_length p \<and> is_arp ARPOP_REPLY (pk_data p) \<and> \<not> is_group (arp_sha (pk_data p))")
  case False
  then show ?thesis using inv by (auto simp: handle_response_def Let_def)
next
  case True
  let ?t = "aq_arpt s" and ?ip = "get32 (pk_data p) 28" and ?eth = "arp_sha (pk_data p)"
  have tinv: "arp_inv ?t" using inv by (simp add: querier_inv_def)
  have "length ?eth = 6" using True by (auto simp: arp_sha_def pk_length_def)
  then obtain ps t1 ae where t1: "ARPTable_insert True (clock 0) True ?ip ?eth ?t = Inr (0, Some (queue_of ?t ?ip), t1, map Kill ps)"
    "arp_inv t1" "at_table t1 ?ip = Some ae" "ae_queue ae = []" "slimmed (set (at_age t1) - {?ip}) ?t t1"
    "set (at_age t1) \<subseteq> insert ?ip (set (at_age ?t))"
    "length (waiting t1 (at_age t1)) + length ps + length (queue_of ?t ?ip) = length (waiting ?t (at_age ?t))"
    using insert_ok [OF tinv arp_space_room [OF space], of ?eth True ?ip "clock 0" True] by auto
  define s1 where "s1 = s\<lparr>aq_arp_responses := aq_arp_responses s + 1, aq_arpt := t1\<rparr>"
  have "sendable k q" if "q \<in> set (queue_of t1 k)" for k q
    using that inv queue_of_slimmed [OF t1(5,2), of k] t1(3,4)
    by (cases "k = ?ip") (auto simp: querier_inv_def queue_of_def split: option.splits)
  then have s1: "querier_inv s1" "aq_arpt s1 = t1"
    using inv t1(2) by (simp_all add: s1_def querier_inv_def)
  have "card (insert ?ip (set (at_age t1))) \<le> card (insert ?ip (set (at_age ?t)))"
    using t1(6) by (intro card_mono) auto
  also have "\<dots> \<le> length (at_age ?t) + 1"
    using card_insert_le_m1 [of "length (at_age ?t) + 1" "set (at_age ?t)" ?ip] card_length [of "at_age ?t"] by simp
  finally have "card (insert ?ip (set (at_age (aq_arpt s1)))) + 1 < 2 ^ 32"
    using space s1(2) by (simp add: arp_space_def)
  moreover have "length (waiting (aq_arpt s1) (at_age (aq_arpt s1))) + length (queue_of ?t ?ip) + 1 < 2 ^ 32"
    using t1(7) space s1(2) by (simp add: arp_space_def)
  moreover have "\<And>q. q \<in> set (queue_of ?t ?ip) \<Longrightarrow> sendable ?ip q" using inv by (simp add: querier_inv_def)
  ultimately obtain s2 as n' where "send_cached env clock noutputs (queue_of ?t ?ip) 1 s1 = Some (Inr (s2, as, n'))" "querier_inv s2"
    using send_cached_total [of "queue_of ?t ?ip" ?ip s1 env clock noutputs 1] s1(1) elt clock by blast
  then show ?thesis using True t1(1) elt by (simp add: handle_response_def Let_def s1_def)
qed

section \<open>Resolution\<close>

lemma known_at_learnt:
  assumes "at_table t ip = Some ae" "ae_known ae = (\<not> is_broadcast eth)" "ae_live_at_j ae = now"
  shows "known_at t now ip \<longleftrightarrow> \<not> is_broadcast eth \<and> unat (at_timeout_j t) < 2 ^ 31"
  using assms sint_negative [of "at_timeout_j t"]
  by (auto simp: known_at_def known_def expired_def click_jiffies_less_def)

lemma unat_negated: "j \<noteq> 0 \<Longrightarrow> unat (- j) = 2 ^ 32 - unat (j :: u32)"
proof -
  assume "j \<noteq> 0"
  then have "uint j \<noteq> 0" by (simp add: unsigned_eq_0_iff)
  moreover have nat: "uint j = int (unat j)" by simp
  ultimately have "0 < uint j" by linarith
  moreover have "uint j < 4294967296" using uint_bounded [of j] by simp
  ultimately have "- uint j mod 4294967296 = 4294967296 - uint j" by (simp add: zmod_zminus1_eq_if)
  then have "uint (- j) = 4294967296 - uint j" by (simp add: uint_word_ariths)
  moreover have "uint (- j) = int (unat (- j))" by simp
  ultimately have "unat (- j) = 4294967296 - unat j" using nat by linarith
  then show ?thesis by simp
qed

lemma lookup_learnt:
  assumes "at_table t ip = Some ae" "known_at t now ip" "ae_live_at_j ae = now" "unat j < 2 ^ 31"
  shows "ARPTable_lookup now ip j t = (0, ae_eth ae, t)"
proof -
  have "j \<noteq> 0 \<Longrightarrow> 2 ^ 31 \<le> unat (- j)"
    using assms(4) unat_negated [of j] by simp
  then have "j \<noteq> 0 \<Longrightarrow> click_jiffies_less now (ae_live_at_j ae + j)"
    using assms(3) by (simp add: click_jiffies_less_def sint_negative)
  then show ?thesis using assms(1,2) by (auto simp: ARPTable_lookup_def known_at_def)
qed

text \<open>Asking for an address that has no entry: one query goes out, and the packet waits.\<close>

definition plain_address :: "ARPQuerier \<Rightarrow> u32 \<Rightarrow> bool" where
  "plain_address s ip \<longleftrightarrow> ip \<noteq> 0 \<and> ip \<noteq> 0xFFFFFFFF \<and> ip \<noteq> aq_my_bcast_ip s \<and> \<not> is_multicast ip"

definition query_data :: "ARPQuerier \<Rightarrow> u32 \<Rightarrow> bytes" where
  "query_data s ip = arp_message (replicate 6 0xFF) (aq_my_en s) ARPOP_REQUEST (aq_my_en s)
     (ip_bytes (aq_my_ip s)) (zeros 6) (ip_bytes ip)"

lemma send_query_sent:
  assumes "env_packet env n"
  shows "\<exists>q. send_query_for env noutputs n p h False s
      = (s\<lparr>aq_arp_queries := aq_arp_queries s + 1\<rparr>, [Emit (noutputs - 1) q]) \<and> pk_data q = query_data s (pk_dst_ip p)"
  using assms by (simp add: send_query_for_def packet_make_def Let_def set_mac_header_def with_data_def query_data_def)

lemma ask_for_address:
  assumes inv: "querier_inv s" and space: "arp_space (aq_arpt s)" and elt: "env_elt env" "env_packet env 2"
    and clock: "\<And>i. clock i = now" and on: "aq_my_ip s \<noteq> 0" and plain: "plain_address s (pk_dst_ip p)"
    and new: "pk_dst_ip p \<notin> set (at_age (aq_arpt s))" and q0: "push_mac_header env 14 p = Some q0"
  shows "\<exists>s1 ps q. ARPQuerier_push env clock noutputs 0 p s = Some (Inr (s1, map Kill ps @ [Emit (noutputs - 1) q]))
    \<and> pk_data q = query_data s (pk_dst_ip p) \<and> querier_inv s1 \<and> arp_room (aq_arpt s1)
    \<and> pk_dst_ip p \<in> set (at_age (aq_arpt s1)) \<and> same_settings (aq_arpt s) (aq_arpt s1)
    \<and> queue_of (aq_arpt s1) (pk_dst_ip p) = [with_data q0 (\<lambda>b. put16 b 12 (htons ETHERTYPE_IP))]
    \<and> aq_my_ip s1 = aq_my_ip s \<and> aq_my_en s1 = aq_my_en s \<and> aq_poll_timeout_j s1 = aq_poll_timeout_j s"
proof -
  let ?ip = "pk_dst_ip p" and ?t = "aq_arpt s" and ?q = "with_data q0 (\<lambda>b. put16 b 12 (htons ETHERTYPE_IP))"
  note sent = pushed_sendable [OF q0]
  have q: "pk_dst_ip ?q = ?ip" using sent(1) by (simp add: sendable_def)
  have tinv: "arp_inv ?t" using inv by (simp add: querier_inv_def)
  have none: "at_table ?t ?ip = None" using tinv new by (auto simp: arp_inv_def arp_ok_def)
  then have unknown: "\<not> known_at ?t now ?ip" and "\<not> entry_full ?t ?ip" and empty: "queue_of ?t ?ip = []"
    by (auto simp: known_at_def entry_full_def queue_of_def unat_eq_zero)
  then obtain r ps t1 m where t1: "ARPTable_append_query True now ?ip ?q ?t = Inr (r, t1, map Kill ps)"
    "?ip \<notin> set (at_age ?t) \<longrightarrow> r = 1" "arp_inv t1" "same_settings ?t t1"
    "slimmed (set (at_age t1) - {?ip}) ?t t1" "?ip \<in> set (at_age t1)"
    "set (at_age t1) \<subseteq> insert ?ip (set (at_age ?t))" "queue_of t1 ?ip = drop m (queue_of ?t ?ip) @ [?q]"
    "length (waiting t1 (at_age t1)) + length ps = length (waiting ?t (at_age ?t)) + 1"
    using append_query_there [OF tinv arp_space_room [OF space] _ unknown, of True ?q] by blast
  let ?s1 = "s\<lparr>aq_arpt := t1\<rparr>"
  obtain qq where qq: "send_query_for env noutputs 2 ?q 0 False ?s1
      = (?s1\<lparr>aq_arp_queries := aq_arp_queries ?s1 + 1\<rparr>, [Emit (noutputs - 1) qq])" "pk_data qq = query_data ?s1 ?ip"
    using send_query_sent [OF elt(2), of noutputs ?q 0 ?s1] q by auto
  have run: "ARPQuerier_push env clock noutputs 0 p s = Some (Inr
      (?s1\<lparr>aq_arp_queries := aq_arp_queries ?s1 + 1\<rparr>, map Kill ps @ [Emit (noutputs - 1) qq]))"
    using on q0 sent(2) plain q lookup_unknown [OF unknown] t1(1,2) new elt(1) qq(1)
    by (subst ARPQuerier_push_def, simp add: handle_ip_def, subst retry_read_lock.simps)
      (simp add: plain_address_def clock Let_def EAGAIN_def)
  have "sendable k x" if "x \<in> set (queue_of t1 k)" for k x
    using that sent(1) t1(8) empty inv queue_of_slimmed [OF t1(5,3), of k]
    by (cases "k = ?ip") (auto simp: querier_inv_def)
  then have "querier_inv ?s1" by (rule querier_inv_table [OF inv t1(3)])
  moreover have "length (at_age t1) \<le> length (at_age ?t) + 1"
  proof -
    have "card (set (at_age t1)) \<le> card (insert ?ip (set (at_age ?t)))"
      using t1(7) by (intro card_mono) auto
    also have "\<dots> = card (set (at_age ?t)) + 1" using new by simp
    finally show ?thesis using age_card [OF t1(3)] age_card [OF tinv] by simp
  qed
  then have "arp_room t1" using space t1(9) by (simp add: arp_room_def arp_space_def)
  ultimately show ?thesis using run qq(2) t1(4,6,8) empty by (auto simp: query_data_def)
qed

text \<open>The responder's answer to such a query.\<close>

lemma responder_answers:
  assumes q: "pk_data q = query_data s ip" and en: "length (aq_my_en s) = 6" "length eth = 6"
    and owner: "ARPResponder_lookup ip v = Some eth" and alloc: "env_packet env 0"
  shows "\<exists>r. ARPResponder_simple_action env noutputs v q = (Some r, [Kill q])
    \<and> pk_data r = arp_message (aq_my_en s) eth ARPOP_REPLY eth (ip_bytes ip) (aq_my_en s) (ip_bytes (aq_my_ip s))"
proof -
  note fields = arp_message_fields [of "replicate 6 0xFF" "aq_my_en s" "aq_my_en s" "ip_bytes (aq_my_ip s)" "zeros 6" "ip_bytes ip"]
  have "pk_length q = 42" "is_arp ARPOP_REQUEST (pk_data q)" "get32 (pk_data q) 38 = ip"
    "arp_sha (pk_data q) = aq_my_en s" "arp_spa (pk_data q) = ip_bytes (aq_my_ip s)" "arp_tpa (pk_data q) = ip_bytes ip"
    using fields en by (simp_all add: q query_data_def pk_length_def zeros_def)
  then show ?thesis
    using owner alloc by (simp add: ARPResponder_simple_action_def make_response_def packet_make_def Let_def
        set_mac_header_def with_data_def)
qed

text \<open>What the receiver of a sent packet sees.\<close>

lemma send_ip_fields:
  assumes "length eth = 6" "length (aq_my_en s) = 6" "14 \<le> length b"
  shows "ether_dhost (put_bytes (put_bytes (put_bytes b 0 eth) 0 eth) 6 (aq_my_en s)) 0 = eth"
    and "ether_shost (put_bytes (put_bytes (put_bytes b 0 eth) 0 eth) 6 (aq_my_en s)) 0 = aq_my_en s"
    and "drop 14 (put_bytes (put_bytes (put_bytes b 0 eth) 0 eth) 6 (aq_my_en s)) = drop 14 b"
    and "get16 (put_bytes (put_bytes (put_bytes b 0 eth) 0 eth) 6 (aq_my_en s)) 12 = get16 b 12"
  using assms
  by (simp_all add: put_bytes_def ether_dhost_def ether_shost_def get16_append_right)

text \<open>The reply to a query for which one packet waits.\<close>

lemma reply_sends:
  assumes inv: "querier_inv s" and room: "arp_room (aq_arpt s)" and on: "aq_my_ip s \<noteq> 0"
    and r: "pk_data r = arp_message dh sh ARPOP_REPLY eth (ip_bytes ip) th tp" "length dh = 6" "length sh = 6"
      "length th = 6" "length tp = 4"
    and eth: "length eth = 6" "\<not> is_group eth" and ip: "ip \<in> set (at_age (aq_arpt s))"
    and clock: "\<And>i. clock i = now" and q: "queue_of (aq_arpt s) ip = [q]"
    and times: "unat (at_timeout_j (aq_arpt s)) < 2 ^ 31" "unat (aq_poll_timeout_j s) < 2 ^ 31"
  shows "\<exists>s' out. ARPQuerier_push env clock noutputs 1 r s = Some (Inr (s', [Emit 0 out, Kill r]))
    \<and> pk_data out = put_bytes (put_bytes (put_bytes (pk_data q) 0 eth) 0 eth) 6 (aq_my_en s)
    \<and> known_at (aq_arpt s') now ip"
proof -
  let ?t = "aq_arpt s"
  have tinv: "arp_inv ?t" using inv by (simp add: querier_inv_def)
  have "sendable ip q" using inv q by (simp add: querier_inv_def)
  then have q': "pk_dst_ip q = ip" "\<not> shared q" "eth_offset q = Some 0"
    using sendable_offset by (auto simp: sendable_def)
  have fields: "\<not> pk_length r < 42" "is_arp ARPOP_REPLY (pk_data r)" "get32 (pk_data r) 28 = ip" "arp_sha (pk_data r) = eth"
    using arp_message_fields [of dh sh eth "ip_bytes ip" th tp] r eth(1) by (simp_all add: pk_length_def)
  obtain t1 ae where t1: "ARPTable_insert (env_elt env) now True ip eth ?t = Inr (0, Some [q], t1, [])"
    "same_settings ?t t1" "at_table t1 ip = Some ae" "ae_eth ae = eth" "ae_known ae = (\<not> is_broadcast eth)"
    "ae_live_at_j ae = now"
    using insert_ok [OF tinv room eth(1), of "env_elt env" ip now True] ip q by auto
  let ?s1 = "s\<lparr>aq_arp_responses := aq_arp_responses s + 1, aq_arpt := t1\<rparr>"
  have bc: "\<not> is_broadcast eth" using is_group_broadcast eth(2) by blast
  then have known: "known_at t1 now ip"
    using known_at_learnt [OF t1(3,5,6)] times(1) t1(2) by (simp add: same_settings_def)
  have look: "ARPTable_lookup now ip (aq_poll_timeout_j s) t1 = (0, eth, t1)"
    using lookup_learnt [OF t1(3) known t1(6) times(2)] t1(4) by simp
  let ?out = "with_data (with_data q (\<lambda>b. put_bytes b 0 eth)) (\<lambda>b. put_bytes (put_bytes b 0 eth) (0 + 6) (aq_my_en s))"
  have "handle_ip env clock noutputs True q 1 ?s1 = Some (Inr (?s1, [Emit 0 ?out], 3))"
    using on q' look bc clock
    by (simp add: handle_ip_def, subst retry_read_lock.simps) (simp add: Let_def send_ip_def)
  then have "ARPQuerier_push env clock noutputs 1 r s = Some (Inr (?s1, [Emit 0 ?out, Kill r]))"
    using fields t1(1) clock eth(2) by (simp add: ARPQuerier_push_def handle_response_def Let_def)
  moreover have "pk_data ?out = put_bytes (put_bytes (put_bytes (pk_data q) 0 eth) 0 eth) 6 (aq_my_en s)"
    by (simp add: with_data_def)
  ultimately show ?thesis using known by auto
qed

section \<open>Properties\<close>

text \<open>(C5) Address resolution, end to end.  A packet for a neighbour without an entry makes the querier
  send one broadcast query and keep the packet; a responder that owns the address answers that
  query; the answer, whenever it arrives, makes the querier send exactly that packet, with the
  neighbour's address as destination, its own as source, type IP and the original data, and
  leaves the address known.  The querier satisfies its invariant, has an address and room for another entry, the destination is an
  ordinary unicast address, the allocations succeed, the clock stands still during each call, and both timeouts are below \<open>2\<^sup>31\<close> milliseconds.
\<close>

theorem arp_resolves:
  assumes "querier_inv s" "arp_space (aq_arpt s)" "aq_my_ip s \<noteq> 0" "plain_address s (pk_dst_ip p)"
    and "pk_dst_ip p \<notin> set (at_age (aq_arpt s))"
    and "unat (at_timeout_j (aq_arpt s)) < 2 ^ 31" "unat (aq_poll_timeout_j s) < 2 ^ 31"
    and "env_elt env" "env_packet env 2" "env_copy env" "\<And>i. clock i = now" "env_packet envr 0"
    and "ARPResponder_lookup (pk_dst_ip p) v = Some eth" "length eth = 6" "\<not> is_group eth"
  shows "\<exists>s1 ps q r. ARPQuerier_push env clock noutputs 0 p s = Some (Inr (s1, map Kill ps @ [Emit (noutputs - 1) q]))
    \<and> ARPResponder_simple_action envr routputs v q = (Some r, [Kill q])
    \<and> (\<forall>now'. \<exists>s2 out. ARPQuerier_push env (\<lambda>_. now') noutputs 1 r s1 = Some (Inr (s2, [Emit 0 out, Kill r]))
        \<and> ether_dhost (pk_data out) 0 = eth \<and> ether_shost (pk_data out) 0 = aq_my_en s
        \<and> get16 (pk_data out) 12 = htons ETHERTYPE_IP \<and> drop 14 (pk_data out) = pk_data p
        \<and> known_at (aq_arpt s2) now' (pk_dst_ip p))"
proof -
  have "push_mac_header env 14 p \<noteq> None"
    using assms(10) by (simp add: push_mac_header_def expensive_push_def expensive_uniqueify_def Let_def)
  then obtain q0 where q0: "push_mac_header env 14 p = Some q0" by blast
  note sent = pushed_sendable [OF q0]
  let ?w = "with_data q0 (\<lambda>b. put16 b 12 (htons ETHERTYPE_IP))"
  obtain s1 ps q where s1: "ARPQuerier_push env clock noutputs 0 p s = Some (Inr (s1, map Kill ps @ [Emit (noutputs - 1) q]))"
    "pk_data q = query_data s (pk_dst_ip p)" "querier_inv s1" "arp_room (aq_arpt s1)"
    "pk_dst_ip p \<in> set (at_age (aq_arpt s1))" "same_settings (aq_arpt s) (aq_arpt s1)"
    "queue_of (aq_arpt s1) (pk_dst_ip p) = [?w]" "aq_my_ip s1 = aq_my_ip s" "aq_my_en s1 = aq_my_en s"
    "aq_poll_timeout_j s1 = aq_poll_timeout_j s"
    using ask_for_address [where clock = clock and noutputs = noutputs, OF assms(1,2,8,9,11,3,4,5) q0] by blast
  have en: "length (aq_my_en s) = 6" using assms(1) by (simp add: querier_inv_def)
  obtain r where r: "ARPResponder_simple_action envr routputs v q = (Some r, [Kill q])"
    "pk_data r = arp_message (aq_my_en s) eth ARPOP_REPLY eth (ip_bytes (pk_dst_ip p)) (aq_my_en s) (ip_bytes (aq_my_ip s))"
    using responder_answers [OF s1(2) en assms(14,13,12)] by blast
  have "\<exists>s2 out. ARPQuerier_push env (\<lambda>_. now') noutputs 1 r s1 = Some (Inr (s2, [Emit 0 out, Kill r]))
        \<and> pk_data out = put_bytes (put_bytes (put_bytes (pk_data ?w) 0 eth) 0 eth) 6 (aq_my_en s)
        \<and> known_at (aq_arpt s2) now' (pk_dst_ip p)" for now'
    using reply_sends [OF s1(3,4) _ r(2) en assms(14) en _ assms(14,15) s1(5) _ s1(7), of "\<lambda>_. now'" now'] s1(6,8,9,10) assms(3,6,7)
    by (simp add: same_settings_def)
  moreover have "14 \<le> length (pk_data ?w)" "get16 (pk_data ?w) 12 = htons ETHERTYPE_IP" "drop 14 (pk_data ?w) = pk_data p"
    using sent(3,4) by (simp_all add: with_data_def f16.length_put get16_put16 f16.drop_put_before)
  ultimately show ?thesis
    using s1(1) r(1) send_ip_fields [OF assms(14) en, of "pk_data ?w"] by metis
qed

definition sample_querier :: ARPQuerier where
  "sample_querier = \<lparr>aq_arpt = fst (snd (ARPTable_configure (Some \<lparr>cf_capacity = None, cf_entry_capacity = None,
       cf_entry_packet_capacity = None, cf_capacity_slim_factor = None, cf_timeout = None\<rparr>) (ARPTable_new 0))),
     aq_my_arpt = True, aq_my_ip = 1, aq_my_en = [2, 0, 0, 0, 0, 1], aq_my_bcast_ip = 0xFF000001,
     aq_poll_timeout_j = 60000, aq_broadcast_poll = False, aq_zero_warned = False, aq_arp_queries = 0,
     aq_drops = 0, aq_arp_responses = 0\<rparr>"

definition arp_env :: environ where
  "arp_env = \<lparr>env_mem = (\<lambda>_. 0), env_packet = (\<lambda>_. True), env_copy = True, env_elt = True, env_rand = (\<lambda>_. 0)\<rparr>"

lemma sample_table_eq: "aq_arpt sample_querier = \<lparr>at_table = Map.empty, at_age = [], at_entry_count = 0,
    at_packet_count = 0, at_entry_capacity = 0, at_packet_capacity = 2048, at_entry_packet_capacity = 0,
    at_capacity_slim_factor = 2, at_timeout_j = 300000, at_drops = 0\<rparr>"
  by (simp add: sample_querier_def arp_eval)

lemma sample_querier_ok:
  "querier_inv sample_querier" "arp_space (aq_arpt sample_querier)" "aq_my_ip sample_querier = 1"
  "aq_my_en sample_querier = [2, 0, 0, 0, 0, 1]" "aq_poll_timeout_j sample_querier = 60000"
  "aq_my_bcast_ip sample_querier = 0xFF000001"
  by (simp_all add: querier_inv_def sample_table_eq arp_inv_def arp_ok_def queue_of_def arp_space_def)
    (simp_all add: sample_querier_def)

theorem arp_resolves_witness:
  "\<exists>s1 ps q r. ARPQuerier_push arp_env (\<lambda>_. 5) 2 0 (set_dst_ip_anno 2 (fresh_packet [] [7] 0)) sample_querier
      = Some (Inr (s1, map Kill ps @ [Emit 1 q]))
    \<and> ARPResponder_simple_action arp_env 1 [\<lparr>re_dst = 2, re_mask = 0xFFFFFFFF, re_ena = [2, 0, 0, 0, 0, 9]\<rparr>] q = (Some r, [Kill q])
    \<and> (\<exists>s2 out. ARPQuerier_push arp_env (\<lambda>_. 9) 2 1 r s1 = Some (Inr (s2, [Emit 0 out, Kill r]))
        \<and> ether_dhost (pk_data out) 0 = [2, 0, 0, 0, 0, 9] \<and> drop 14 (pk_data out) = [7])"
proof -
  let ?v = "[\<lparr>re_dst = 2 :: u32, re_mask = 0xFFFFFFFF, re_ena = [2, 0, 0, 0, 0, 9]\<rparr>]"
  let ?p = "set_dst_ip_anno 2 (fresh_packet [] [7] 0)"
  have "plain_address sample_querier (pk_dst_ip ?p)"
    by (simp add: plain_address_def sample_querier_ok set_dst_ip_anno_def is_multicast_def htonl_def)
  moreover have "ARPResponder_lookup (pk_dst_ip ?p) ?v = Some [2, 0, 0, 0, 0, 9]"
    by (simp add: ARPResponder_lookup_def set_dst_ip_anno_def)
  moreover have "\<not> is_group [2, 0, 0, 0, 0, 9]" by (simp add: is_group_def get8_def)
  ultimately show ?thesis
    using arp_resolves [where s = sample_querier and p = ?p and env = arp_env and envr = arp_env and v = ?v
        and clock = "\<lambda>_. 5" and now = 5 and noutputs = 2 and routputs = 1 and eth = "[2, 0, 0, 0, 0, 9]"]
      sample_querier_ok
    by (fastforce simp: sample_table_eq arp_env_def set_dst_ip_anno_def)
qed

text \<open>(C6) The querier never faults and always returns, on either port and for every packet, from every state that
  satisfies its invariant, as long as the table can allocate an entry, holds fewer than \<open>2\<^sup>32 - 2\<close> entries and waiting
  packets, and the clock does not go back during the call, which takes less than \<open>2\<^sup>31\<close> jiffies (about 24.8 days); the retry
  loop then ends after at most one turn.  The invariant, which holds again afterwards, says that the counters of the table are right, it is within
  its ENTRY_CAPACITY, the queues hold unshared packets for their address with room for the Ethernet
  header, and known addresses are never the broadcast address, so that no assertion fails.  A live
  reconfiguration to a smaller ENTRY_CAPACITY leaves it.
\<close>

theorem arp_querier_total:
  assumes "querier_inv s" "arp_space (aq_arpt s)" "env_elt env" "steady_clock clock"
  shows "\<exists>s' as. ARPQuerier_push env clock noutputs port p s = Some (Inr (s', as)) \<and> querier_inv s'"
proof (cases "port = 0")
  case True
  obtain s' as n where "handle_ip env clock noutputs False p 0 s = Some (Inr (s', as, n))" "querier_inv s'"
    using handle_ip_total [where clock = clock, OF assms] by blast
  with True show ?thesis by (simp add: ARPQuerier_push_def)
next
  case False
  obtain s' as n where "handle_response env clock noutputs p s = Some (Inr (s', as, n))" "querier_inv s'"
    using handle_response_total [where clock = clock, OF assms] by blast
  with False show ?thesis by (simp add: ARPQuerier_push_def)
qed

theorem arp_querier_total_witness:
  "querier_inv sample_querier \<and>
   (\<exists>s' as. ARPQuerier_push arp_env (\<lambda>i. of_nat (min i 5)) 2 0 (set_dst_ip_anno 2 (fresh_packet [] [7] 0)) sample_querier = Some (Inr (s', as)))"
proof -
  have "steady_clock (\<lambda>i. of_nat (min i 5))" unfolding steady_clock_def
    by (intro exI [of _ 0] exI [of _ "\<lambda>i. min i 5"]) (auto simp: mono_def)
  then show ?thesis
    using arp_querier_total [where s = sample_querier and env = arp_env and clock = "\<lambda>i. of_nat (min i 5)" and port = 0
      and noutputs = 2 and p = "set_dst_ip_anno 2 (fresh_packet [] [7] 0)"] sample_querier_ok
    by (auto simp: arp_env_def)
qed

text \<open>An ARP reply that would need a new entry while none can be allocated makes
  \<^verbatim>\<open>handle_response\<close> follow its uninitialised \<^verbatim>\<open>cached_packet\<close>, for every such reply.
\<close>

theorem arp_reply_uninitialised:
  assumes "\<not> env_elt env" "42 \<le> pk_length p" "is_arp ARPOP_REPLY (pk_data p)" "\<not> is_group (arp_sha (pk_data p))"
    and "at_table (aq_arpt s) (get32 (pk_data p) 28) = None"
  shows "ARPQuerier_push env clock noutputs 1 p s = Some (Inl Uninitialised)"
  using assms by (simp add: ARPQuerier_push_def handle_response_def ARPTable_insert_def ensure_def Let_def)

definition sample_reply :: packet where
  "sample_reply = fresh_packet [] (arp_message (zeros 6) (zeros 6) ARPOP_REPLY (zeros 6) (zeros 4) (zeros 6) (zeros 4)) 0"

theorem arp_reply_uninitialised_witness:
  "ARPQuerier_push (arp_env\<lparr>env_elt := False\<rparr>) (\<lambda>_. 0) 2 1 sample_reply sample_querier = Some (Inl Uninitialised)"
proof (rule arp_reply_uninitialised)
  note f = arp_message_fields [of "zeros 6" "zeros 6" "zeros 6" "zeros 4" "zeros 6" "zeros 4"]
  show "42 \<le> pk_length sample_reply" "is_arp ARPOP_REPLY (pk_data sample_reply)"
    using f by (simp_all add: sample_reply_def zeros_def)
  show "\<not> is_group (arp_sha (pk_data sample_reply))"
    using f by (simp add: sample_reply_def zeros_def is_group_def get8_def)
qed (simp_all add: arp_env_def sample_table_eq)

text \<open>What a TIMEOUT means: an address just learnt is known if and only if it is not the broadcast
  address and the timeout is below \<open>2\<^sup>31\<close> milliseconds, about 24.8 days.  With a longer one every
  entry has expired as soon as it is made, so that no packet is ever sent.
\<close>

theorem learnt_address_known:
  assumes "arp_inv t" "arp_room t" "length eth = 6" "ok \<or> ip \<in> set (at_age t)"
  shows "\<exists>head t' as. ARPTable_insert ok now want ip eth t = Inr (0, head, t', as) \<and> arp_inv t'
    \<and> (known_at t' now ip \<longleftrightarrow> \<not> is_broadcast eth \<and> unat (at_timeout_j t) < 2 ^ 31)"
proof -
  obtain ps t' ae where t': "ARPTable_insert ok now want ip eth t
      = Inr (0, if want then Some (queue_of t ip) else None, t', map Kill ps)" "arp_inv t'" "same_settings t t'"
    "at_table t' ip = Some ae" "ae_known ae = (\<not> is_broadcast eth)" "ae_live_at_j ae = now"
    using insert_ok [OF assms, of now want] by blast
  then show ?thesis using known_at_learnt [OF t'(4,5,6)] by (auto simp: same_settings_def)
qed

theorem learnt_address_known_witness:
  "\<exists>head t' as. ARPTable_insert True 7 False 2 [2, 0, 0, 0, 0, 9] (aq_arpt sample_querier) = Inr (0, head, t', as)
    \<and> known_at t' 7 2"
proof -
  have "arp_inv (aq_arpt sample_querier)" "arp_room (aq_arpt sample_querier)"
    using sample_querier_ok arp_space_room by (auto simp: querier_inv_def)
  moreover have "\<not> is_broadcast [2, 0, 0, 0, 0, 9]" by (simp add: is_broadcast_def get16_def)
  ultimately show ?thesis
    using learnt_address_known [of "aq_arpt sample_querier" "[2, 0, 0, 0, 0, 9]" True 2 7 False]
    by (fastforce simp: sample_table_eq)
qed

end
