(* ===== verification/TimerHeap.thy ===== *)
theory TimerHeap
  imports Prelude "HOL-Library.Multiset"
begin

text \<open>
  \<^verbatim>\<open>include/click/heap.hh\<close>: the d-ary heap, in the instance with arity 4, \<^verbatim>\<open>heap_less\<close> and
  \<^verbatim>\<open>heap_place\<close> that \<^verbatim>\<open>TimerSet\<close> uses.  An element is an expiry time with the timer it
  belongs to; \<open>place\<close> writes the position of an element, counted from one, into its timer, so the
  heap functions work on the vector and on the positions of all timers together.  Positions run
  from zero in a layout where the parent of \<open>i\<close> is \<open>i div 4\<close>.

  Shown: moving an element to its place and removing one keep the heap order on the other
  elements, permute them, and leave every timer knowing its position.
\<close>

section \<open>The code\<close>

type_synonym timer = nat
type_synonym timestamp = int
type_synonym heap_element = "timestamp \<times> timer"
type_synonym positions = "timer \<Rightarrow> int"

definition heap_less :: "heap_element \<Rightarrow> heap_element \<Rightarrow> bool" where
  "heap_less a b \<longleftrightarrow> fst a < fst b"

definition heap_place :: "heap_element list \<Rightarrow> nat \<Rightarrow> positions \<Rightarrow> positions" where
  "heap_place h i pos = pos(snd (h ! i) := int i + 1)"

definition click_swap :: "'a list \<Rightarrow> nat \<Rightarrow> nat \<Rightarrow> 'a list" where
  "click_swap h i j = h[i := h ! j, j := h ! i]"

function sift_up :: "heap_element list \<Rightarrow> positions \<Rightarrow> nat \<Rightarrow> heap_element list \<times> positions \<times> nat" where
  "sift_up h pos i =
     (if 0 < i \<and> heap_less (h ! i) (h ! (i div 4))
      then let h' = click_swap h i (i div 4) in sift_up h' (heap_place h' i pos) (i div 4)
      else (h, pos, i))"
  by auto
termination
  by (relation "measure (\<lambda>(h, pos, i). i)") auto

text \<open>The smallest of an element and its children.\<close>

definition first_child :: "nat \<Rightarrow> nat" where
  "first_child i = (if i = 0 then 1 else i * 4)"

definition end_child :: "nat \<Rightarrow> nat" where
  "end_child i = (if i = 0 then 4 else i * 4 + 4)"

definition smallest_child :: "heap_element list \<Rightarrow> nat \<Rightarrow> nat" where
  "smallest_child h i =
     fold (\<lambda>trial smallest. if heap_less (h ! trial) (h ! smallest) then trial else smallest)
       [first_child i..<min (end_child i) (length h)] i"

lemma fold_smallest:
  fixes f :: "nat \<Rightarrow> int"
  defines "s xs a \<equiv> fold (\<lambda>t m. if f t < f m then t else m) xs a"
  shows "s xs a \<in> insert a (set xs)" and "f (s xs a) \<le> f a" and "\<And>x. x \<in> set xs \<Longrightarrow> f (s xs a) \<le> f x"
proof -
  have "s xs a \<in> insert a (set xs) \<and> f (s xs a) \<le> f a \<and> (\<forall>x \<in> set xs. f (s xs a) \<le> f x)" for xs a
    unfolding s_def by (induction xs arbitrary: a) (fastforce split: if_splits)+
  then show "s xs a \<in> insert a (set xs)" "f (s xs a) \<le> f a" "\<And>x. x \<in> set xs \<Longrightarrow> f (s xs a) \<le> f x" by auto
qed

definition key :: "heap_element list \<Rightarrow> nat \<Rightarrow> timestamp" where
  "key h i = fst (h ! i)"

lemma smallest_child_props:
  shows "smallest_child h i = i \<or> (first_child i \<le> smallest_child h i \<and> smallest_child h i < end_child i \<and> smallest_child h i < length h)"
    and "key h (smallest_child h i) \<le> key h i"
    and "first_child i \<le> c \<Longrightarrow> c < end_child i \<Longrightarrow> c < length h \<Longrightarrow> key h (smallest_child h i) \<le> key h c"
  using fold_smallest [where f = "key h" and xs = "[first_child i..<min (end_child i) (length h)]" and a = i]
  by (auto simp: smallest_child_def heap_less_def key_def)

lemma child_after: "first_child i \<le> c \<Longrightarrow> i < c"
  by (auto simp: first_child_def split: if_splits)

lemma child_iff: "0 < c \<Longrightarrow> (first_child i \<le> c \<and> c < end_child i) \<longleftrightarrow> c div 4 = i"
  by (auto simp: first_child_def end_child_def)

function sift_down :: "heap_element list \<Rightarrow> positions \<Rightarrow> nat \<Rightarrow> heap_element list \<times> positions \<times> nat" where
  "sift_down h pos i =
     (let smallest = smallest_child h i in
      if smallest = i then (h, pos, i)
      else let h' = click_swap h i smallest in sift_down h' (heap_place h' i pos) smallest)"
  by auto
termination
proof (relation "measure (\<lambda>(h, pos, i). length h - i)", goal_cases)
  case (2 h pos i s h')
  then have "i < s" "s < length h"
    using smallest_child_props(1) [of h i] child_after by auto
  then show ?case using 2 by (simp add: click_swap_def)
qed simp

definition change_heap :: "heap_element list \<Rightarrow> positions \<Rightarrow> nat \<Rightarrow> (heap_element list \<times> positions \<times> nat) res" where
  "change_heap h pos element =
     guard (element < length h) AssertFail
       (case sift_up h pos element of (h1, pos1, i) \<Rightarrow>
        case sift_down h1 pos1 i of (h2, pos2, j) \<Rightarrow>
          Inr (h2, if j \<noteq> element then heap_place h2 j pos2 else pos2, j))"

text \<open>\<^verbatim>\<open>remove_heap\<close> leaves the removed element at the end of the vector.\<close>

definition remove_heap :: "heap_element list \<Rightarrow> positions \<Rightarrow> nat \<Rightarrow> (heap_element list \<times> positions) res" where
  "remove_heap h pos element =
     guard (element < length h) AssertFail
       (if element + 1 \<noteq> length h
        then let n = length h - 1; h1 = click_swap h element n in
          bind_res (change_heap (take n h1) (heap_place h1 element pos) element)
            (\<lambda>(h2, pos2, j). Inr (h2 @ [h1 ! n], pos2))
        else Inr (h, pos))"

definition pop_heap :: "heap_element list \<Rightarrow> positions \<Rightarrow> (heap_element list \<times> positions) res" where
  "pop_heap h pos = remove_heap h pos 0"

declare sift_up.simps [simp del] sift_down.simps [simp del]

section \<open>Order\<close>

definition heap_ordered :: "heap_element list \<Rightarrow> bool" where
  "heap_ordered h \<longleftrightarrow> (\<forall>i. 0 < i \<and> i < length h \<longrightarrow> key h (i div 4) \<le> key h i)"

text \<open>Ordered but for the element at \<open>e\<close>, whose children are still above its parent.\<close>

definition ordered_except :: "nat \<Rightarrow> heap_element list \<Rightarrow> bool" where
  "ordered_except e h \<longleftrightarrow>
     (\<forall>i. 0 < i \<and> i < length h \<and> i \<noteq> e \<and> i div 4 \<noteq> e \<longrightarrow> key h (i div 4) \<le> key h i)
     \<and> (\<forall>c. 0 < e \<and> 0 < c \<and> c < length h \<and> c div 4 = e \<longrightarrow> key h (e div 4) \<le> key h c)"

lemma length_swap [simp]: "length (click_swap h i j) = length h"
  by (simp add: click_swap_def)

lemma key_swap:
  "i < length h \<Longrightarrow> j < length h \<Longrightarrow> key (click_swap h i j) k = (if k = i then key h j else if k = j then key h i else key h k)"
  by (auto simp: click_swap_def key_def nth_list_update)

lemma heap_ordered_except:
  assumes "heap_ordered h" "e < length h"
  shows "ordered_except e h"
  unfolding ordered_except_def
proof (intro conjI allI impI)
  fix c assume c: "0 < e \<and> 0 < c \<and> c < length h \<and> c div 4 = e"
  then have "key h (e div 4) \<le> key h e" "key h e \<le> key h c"
    using assms by (auto simp: heap_ordered_def)
  then show "key h (e div 4) \<le> key h c" by simp
qed (use assms in \<open>auto simp: heap_ordered_def\<close>)

lemma ordered_exceptD:
  assumes "ordered_except e h"
  shows "0 < i \<Longrightarrow> i < length h \<Longrightarrow> i \<noteq> e \<Longrightarrow> i div 4 \<noteq> e \<Longrightarrow> key h (i div 4) \<le> key h i"
    and "0 < e \<Longrightarrow> 0 < c \<Longrightarrow> c < length h \<Longrightarrow> c div 4 = e \<Longrightarrow> key h (e div 4) \<le> key h c"
  using assms by (auto simp: ordered_except_def)

lemma parent_less: "0 < i \<Longrightarrow> i div 4 < (i :: nat)"
  by simp

lemma swap_up_ordered:
  assumes ok: "ordered_except i h" and i: "0 < i" "i < length h" and less: "key h i \<le> key h (i div 4)"
  shows "ordered_except (i div 4) (click_swap h i (i div 4))"
proof -
  let ?p = "i div 4"
  have p: "?p < i" "?p < length h" using i by auto
  note K = key_swap [OF i(2) p(2)]
  have parent: "key h (?p div 4) \<le> key h ?p" if "0 < ?p"
    using ordered_exceptD(1) [OF ok that p(2)] p(1) by simp
  show ?thesis
    unfolding ordered_except_def
  proof (intro conjI allI impI)
    fix j assume j: "0 < j \<and> j < length (click_swap h i ?p) \<and> j \<noteq> ?p \<and> j div 4 \<noteq> ?p"
    then have "j \<noteq> i" by auto
    with j ordered_exceptD(2) [OF ok i(1), of j] ordered_exceptD(1) [OF ok, of j]
    show "key (click_swap h i ?p) (j div 4) \<le> key (click_swap h i ?p) j" by (auto simp: K)
  next
    fix c assume c: "0 < ?p \<and> 0 < c \<and> c < length (click_swap h i ?p) \<and> c div 4 = ?p"
    then have "c \<noteq> ?p" "?p div 4 < ?p" by auto
    moreover have "key h ?p \<le> key h c" if "c \<noteq> i"
      using ordered_exceptD(1) [OF ok, of c] c that p(1) by simp
    ultimately show "key (click_swap h i ?p) (?p div 4) \<le> key (click_swap h i ?p) c"
      using parent c p(1) by (auto simp: K intro: order_trans)
  qed
qed

lemma sift_up_ordered:
  assumes "sift_up h pos i = (h', pos', j)" "i < length h" "ordered_except i h"
  shows "length h' = length h \<and> j \<le> i \<and> ordered_except j h' \<and> (0 < j \<longrightarrow> key h' (j div 4) \<le> key h' j)"
  using assms
proof (induction h pos i arbitrary: h' pos' j rule: sift_up.induct)
  case (1 h pos i)
  show ?case
  proof (cases "0 < i \<and> heap_less (h ! i) (h ! (i div 4))")
    case False
    then show ?thesis using 1 by (auto simp: sift_up.simps [of h pos i] heap_less_def key_def)
  next
    case True
    let ?h = "click_swap h i (i div 4)"
    have "ordered_except (i div 4) ?h"
      by (rule swap_up_ordered) (use True 1(3,4) in \<open>auto simp: heap_less_def key_def\<close>)
    moreover have "sift_up ?h (heap_place ?h i pos) (i div 4) = (h', pos', j)" "i div 4 < length ?h"
      using True 1(2,3) by (auto simp: sift_up.simps [of h pos i] Let_def)
    ultimately show ?thesis using 1(1) [OF True refl] by fastforce
  qed
qed

lemma swap_down_ordered:
  assumes ok: "ordered_except i h" and i: "i < length h" and s: "s = smallest_child h i" "s \<noteq> i"
  shows "ordered_except s (click_swap h i s)" and "key (click_swap h i s) (s div 4) \<le> key (click_swap h i s) s"
    and "i < s" and "s < length h"
proof -
  have range: "first_child i \<le> s" "s < end_child i" "s < length h"
    using smallest_child_props(1) [of h i] s by auto
  show less: "i < s" "s < length h" using child_after [OF range(1)] range(3) by auto
  then have parent: "s div 4 = i" using child_iff [of s i] range by simp
  note K = key_swap [OF i less(2)]
  have least: "key h s \<le> key h c" if "0 < c" "c < length h" "c div 4 = i" for c
    using smallest_child_props(3) [of i c h] child_iff [of c i] that s(1) by simp
  show "key (click_swap h i s) (s div 4) \<le> key (click_swap h i s) s"
    using smallest_child_props(2) [of h i] s(2) parent unfolding s(1) [symmetric] by (simp add: K)
  show "ordered_except s (click_swap h i s)"
    unfolding ordered_except_def
  proof (intro conjI allI impI)
    fix j assume j: "0 < j \<and> j < length (click_swap h i s) \<and> j \<noteq> s \<and> j div 4 \<noteq> s"
    show "key (click_swap h i s) (j div 4) \<le> key (click_swap h i s) j"
    proof (cases "j = i")
      case True
      then have "key h (i div 4) \<le> key h s" using ordered_exceptD(2) [OF ok _ _ less(2) parent] j less(1) by simp
      moreover have "i div 4 < i" using j True by simp
      ultimately show ?thesis using True less(1) by (auto simp: K)
    next
      case False
      then show ?thesis using j least [of j] ordered_exceptD(1) [OF ok, of j] by (auto simp: K)
    qed
  next
    fix c assume c: "0 < s \<and> 0 < c \<and> c < length (click_swap h i s) \<and> c div 4 = s"
    then have "s < c" using parent_less [of c] by simp
    moreover have "key h s \<le> key h c"
      using ordered_exceptD(1) [OF ok, of c] c \<open>s < c\<close> less(1) by simp
    ultimately show "key (click_swap h i s) (s div 4) \<le> key (click_swap h i s) c"
      using parent less(1) by (auto simp: K)
  qed
qed

lemma smallest_is_ordered:
  assumes ok: "ordered_except i h" and i: "smallest_child h i = i" and parent: "0 < i \<longrightarrow> key h (i div 4) \<le> key h i"
  shows "heap_ordered h"
  unfolding heap_ordered_def
proof (intro allI impI)
  fix j assume j: "0 < j \<and> j < length h"
  show "key h (j div 4) \<le> key h j"
    using j parent ordered_exceptD(1) [OF ok, of j] smallest_child_props(3) [of i j h] child_iff [of j i] i
    by (cases "j = i"; cases "j div 4 = i") auto
qed

lemma sift_down_ordered:
  assumes "sift_down h pos i = (h', pos', j)" "i < length h" "ordered_except i h" "0 < i \<longrightarrow> key h (i div 4) \<le> key h i"
  shows "length h' = length h \<and> j < length h \<and> heap_ordered h'"
  using assms
proof (induction h pos i arbitrary: h' pos' j rule: sift_down.induct)
  case (1 h pos i)
  let ?s = "smallest_child h i"
  show ?case
  proof (cases "?s = i")
    case True
    then show ?thesis using 1(2-5) smallest_is_ordered by (auto simp: sift_down.simps [of h pos i])
  next
    case False
    let ?h = "click_swap h i ?s"
    note down = swap_down_ordered [OF 1(4,3) refl False]
    have "sift_down ?h (heap_place ?h i pos) ?s = (h', pos', j)"
      using False 1(2) by (simp add: sift_down.simps [of h pos i] Let_def)
    then show ?thesis using 1(1) [OF refl False refl, of h' pos' j] down by simp
  qed
qed

section \<open>Contents and positions\<close>

definition placed_except :: "nat \<Rightarrow> heap_element list \<Rightarrow> positions \<Rightarrow> bool" where
  "placed_except e h pos \<longleftrightarrow> (\<forall>k < length h. k \<noteq> e \<longrightarrow> pos (snd (h ! k)) = int k + 1)"

definition placed :: "heap_element list \<Rightarrow> positions \<Rightarrow> bool" where
  "placed h pos \<longleftrightarrow> (\<forall>k < length h. pos (snd (h ! k)) = int k + 1)"

text \<open>One step of either loop: the element at \<open>i\<close> moves to \<open>j\<close>, and what was there is placed.\<close>

definition moved :: "heap_element \<Rightarrow> nat \<Rightarrow> heap_element list \<Rightarrow> positions \<Rightarrow> nat \<Rightarrow> heap_element list \<Rightarrow> positions \<Rightarrow> bool" where
  "moved x i h pos j h' pos' \<longleftrightarrow> mset h' = mset h \<and> j < length h' \<and> h' ! j = x \<and> pos' (snd x) = pos (snd x)
     \<and> placed_except j h' pos' \<and> (\<forall>t. t \<notin> snd ` set h \<longrightarrow> pos' t = pos t)"

lemma distinct_mset: "mset h' = mset h \<Longrightarrow> distinct (map snd h') = distinct (map snd h)"
  by (metis mset_eq_imp_distinct_iff mset_map)

lemma snd_nth_eq:
  assumes "distinct (map snd h)" "i < length h" "j < length h"
  shows "snd (h ! i) = snd (h ! j) \<longleftrightarrow> i = j"
  using assms by (metis length_map nth_eq_iff_index_eq nth_map)

lemma swap_moved:
  assumes d: "distinct (map snd h)" and i: "i < length h" "j < length h" "i \<noteq> j" and p: "placed_except i h pos"
  shows "moved (h ! i) i h pos j (click_swap h i j) (heap_place (click_swap h i j) i pos)"
proof -
  let ?h = "click_swap h i j"
  have nth: "?h ! k = (if k = i then h ! j else if k = j then h ! i else h ! k)" for k
    using i by (auto simp: click_swap_def nth_list_update)
  have "mset ?h = mset h" using i by (simp add: click_swap_def mset_swap)
  moreover have "snd (h ! i) \<noteq> snd (h ! j)" using snd_nth_eq [OF d i(1,2)] i(3) by simp
  moreover have "placed_except j ?h (heap_place ?h i pos)"
    using p snd_nth_eq [OF d _ i(2)] i(3) by (auto simp: placed_except_def heap_place_def nth)
  moreover have "snd (h ! j) \<in> snd ` set h" using i(2) by simp
  ultimately show ?thesis using i by (auto simp: moved_def nth heap_place_def)
qed

lemma moved_trans:
  assumes "moved x i h pos j h' pos'" "moved x j h' pos' k h'' pos''"
  shows "moved x i h pos k h'' pos''"
proof -
  have "set h' = set h" using assms(1) by (metis moved_def set_mset_mset)
  then show ?thesis using assms by (auto simp: moved_def)
qed

lemma moved_nth: "moved x i h pos j h' pos' \<Longrightarrow> h' ! j = x"
  by (simp add: moved_def)

lemma moved_refl: "i < length h \<Longrightarrow> placed_except i h pos \<Longrightarrow> moved (h ! i) i h pos i h pos"
  by (simp add: moved_def)

lemma sift_up_moved:
  assumes "sift_up h pos i = (h', pos', j)" "i < length h" "distinct (map snd h)" "placed_except i h pos"
  shows "moved (h ! i) i h pos j h' pos'"
  using assms
proof (induction h pos i arbitrary: h' pos' j rule: sift_up.induct)
  case (1 h pos i)
  show ?case
  proof (cases "0 < i \<and> heap_less (h ! i) (h ! (i div 4))")
    case False
    then show ?thesis using 1(2-5) moved_refl by (auto simp: sift_up.simps [of h pos i])
  next
    case True
    let ?h = "click_swap h i (i div 4)"
    have step: "moved (h ! i) i h pos (i div 4) ?h (heap_place ?h i pos)"
      by (rule swap_moved) (use True 1(3-5) in auto)
    have "sift_up ?h (heap_place ?h i pos) (i div 4) = (h', pos', j)"
      using True 1(2) by (simp add: sift_up.simps [of h pos i] Let_def)
    then have "moved (?h ! (i div 4)) (i div 4) ?h (heap_place ?h i pos) j h' pos'"
      using step 1(3,4) distinct_mset by (intro 1(1) [OF True refl]) (auto simp: moved_def)
    then show ?thesis unfolding moved_nth [OF step] by (rule moved_trans [OF step])
  qed
qed

lemma sift_down_moved:
  assumes "sift_down h pos i = (h', pos', j)" "i < length h" "distinct (map snd h)" "placed_except i h pos"
  shows "moved (h ! i) i h pos j h' pos'"
  using assms
proof (induction h pos i arbitrary: h' pos' j rule: sift_down.induct)
  case (1 h pos i)
  let ?s = "smallest_child h i"
  show ?case
  proof (cases "?s = i")
    case True
    then show ?thesis using 1(2-5) moved_refl by (auto simp: sift_down.simps [of h pos i])
  next
    case False
    let ?h = "click_swap h i ?s"
    have s: "?s < length h" using smallest_child_props(1) [of h i] False by auto
    have step: "moved (h ! i) i h pos ?s ?h (heap_place ?h i pos)"
      by (rule swap_moved) (use False s 1(3-5) in auto)
    have "sift_down ?h (heap_place ?h i pos) ?s = (h', pos', j)"
      using False 1(2) by (simp add: sift_down.simps [of h pos i] Let_def)
    then have "moved (?h ! ?s) ?s ?h (heap_place ?h i pos) j h' pos'"
      using step s 1(4) distinct_mset by (intro 1(1) [OF refl False refl]) (auto simp: moved_def)
    then show ?thesis unfolding moved_nth [OF step] by (rule moved_trans [OF step])
  qed
qed

text \<open>\<^verbatim>\<open>change_heap\<close> and \<^verbatim>\<open>remove_heap\<close>.\<close>

lemma change_heap_ok:
  assumes e: "e < length h" and d: "distinct (map snd h)" and ord: "ordered_except e h" and pl: "placed h pos"
  shows "\<exists>h' pos' j. change_heap h pos e = Inr (h', pos', j) \<and> heap_ordered h' \<and> mset h' = mset h \<and> placed h' pos'
    \<and> (\<forall>t. t \<notin> snd ` set h \<longrightarrow> pos' t = pos t)"
proof -
  obtain h1 pos1 i where up: "sift_up h pos e = (h1, pos1, i)" by (metis prod_cases3)
  obtain h2 pos2 j where down: "sift_down h1 pos1 i = (h2, pos2, j)" by (metis prod_cases3)
  have pe: "placed_except e h pos" using pl by (simp add: placed_def placed_except_def)
  note m1 = sift_up_moved [OF up e d pe] and o1 = sift_up_ordered [OF up e ord]
  have d1: "distinct (map snd h1)" using m1 d distinct_mset by (auto simp: moved_def)
  have i: "i < length h1" "placed_except i h1 pos1" using m1 by (auto simp: moved_def)
  note m2 = sift_down_moved [OF down i(1) d1 i(2)]
  have o2: "heap_ordered h2" using sift_down_ordered [OF down i(1)] o1 by blast
  have m: "moved (h ! e) e h pos j h2 pos2"
    using m2 unfolding moved_nth [OF m1] by (rule moved_trans [OF m1])
  let ?pos = "if j \<noteq> e then heap_place h2 j pos2 else pos2"
  have d2: "distinct (map snd h2)" using m d distinct_mset by (auto simp: moved_def)
  have "placed h2 ?pos"
  proof (cases "j = e")
    case True
    have "pos (snd (h ! e)) = int e + 1" using pl e by (simp add: placed_def)
    then show ?thesis using True m by (auto simp: placed_def placed_except_def moved_def)
  next
    case False
    then show ?thesis using m snd_nth_eq [OF d2, of _ j]
      by (auto simp: placed_def placed_except_def moved_def heap_place_def)
  qed
  moreover have "?pos t = pos t" if "t \<notin> snd ` set h" for t
    using m that e by (auto simp: moved_def heap_place_def)
  moreover have "change_heap h pos e = Inr (h2, ?pos, j)" using e up down by (simp add: change_heap_def)
  ultimately show ?thesis using o2 m by (auto simp: moved_def)
qed

lemma nth_swap:
  "i < length h \<Longrightarrow> j < length h \<Longrightarrow> click_swap h i j ! k = (if k = i then h ! j else if k = j then h ! i else h ! k)"
  by (auto simp: click_swap_def nth_list_update)

lemma swap_last_ordered:
  assumes ord: "heap_ordered h" and len: "length h = Suc n" and n: "e < n"
  shows "ordered_except e (take n (click_swap h e n))"
  unfolding ordered_except_def
proof (intro conjI allI impI)
  let ?t = "take n (click_swap h e n)"
  have lt: "length ?t = n" using len by simp
  have kt: "key ?t k = key h k" if "k < n" "k \<noteq> e" for k
    using that n len by (simp add: key_def nth_swap)
  { fix i assume i: "0 < i \<and> i < length ?t \<and> i \<noteq> e \<and> i div 4 \<noteq> e"
    then have "key h (i div 4) \<le> key h i" using ord len by (auto simp: heap_ordered_def)
    moreover have "i div 4 < n" using i parent_less [of i] by auto
    ultimately show "key ?t (i div 4) \<le> key ?t i" using i kt [of i] kt [of "i div 4"] lt by simp }
  { fix c assume c: "0 < e \<and> 0 < c \<and> c < length ?t \<and> c div 4 = e"
    then have "c < n" "c \<noteq> e" "e div 4 < e" using lt by auto
    then have "key ?t c = key h c" "key ?t (e div 4) = key h (e div 4)" using n by (auto intro!: kt)
    moreover have "key h (e div 4) \<le> key h c"
      using ordered_exceptD(2) [OF heap_ordered_except [OF ord], of e c] c len n by auto
    ultimately show "key ?t (e div 4) \<le> key ?t c" by simp }
qed

lemma remove_last_ok:
  assumes e: "e + 1 = length h" and ord: "heap_ordered h" and pl: "placed h pos"
  shows "remove_heap h pos e = Inr (butlast h @ [h ! e], pos) \<and> heap_ordered (butlast h)
    \<and> mset h = add_mset (h ! e) (mset (butlast h)) \<and> placed (butlast h) pos"
proof -
  have "h \<noteq> []" "e = length h - 1" using e by auto
  then have "last h = h ! e" using last_conv_nth by blast
  with \<open>h \<noteq> []\<close> have h: "h = butlast h @ [h ! e]" by (metis append_butlast_last_id)
  have "heap_ordered (butlast h)" using ord by (auto simp: heap_ordered_def key_def nth_butlast)
  moreover have "placed (butlast h) pos" using pl by (auto simp: placed_def nth_butlast)
  moreover have "remove_heap h pos e = Inr (butlast h @ [h ! e], pos)" using e h by (simp add: remove_heap_def)
  moreover have "mset h = add_mset (h ! e) (mset (butlast h))" by (subst h) simp
  ultimately show ?thesis by blast
qed

lemma remove_heap_ok:
  assumes e: "e < length h" and d: "distinct (map snd h)" and ord: "heap_ordered h" and pl: "placed h pos"
  shows "\<exists>h' pos'. remove_heap h pos e = Inr (h' @ [h ! e], pos') \<and> heap_ordered h'
    \<and> mset h = add_mset (h ! e) (mset h') \<and> placed h' pos' \<and> (\<forall>t. t \<notin> snd ` set h' \<longrightarrow> pos' t = pos t)"
proof (cases "e + 1 = length h")
  case True
  then show ?thesis using remove_last_ok [OF _ ord pl] by blast
next
  case False
  obtain n where len: "length h = Suc n" using e by (cases h) auto
  let ?h1 = "click_swap h e n"
  have n: "e < n" "n < length h" using e False len by auto
  have nth: "?h1 ! k = (if k = e then h ! n else if k = n then h ! e else h ! k)" for k
    using e n by (simp add: nth_swap)
  let ?t = "take n ?h1"
  have lt: "length ?t = n" using len by simp
  have "take (Suc n) ?h1 = ?t @ [?h1 ! n]"
    by (rule take_Suc_conv_app_nth) (use n in simp)
  then have app: "?h1 = ?t @ [h ! e]" using len nth [of n] n by simp
  have "mset ?h1 = mset h" using e n by (simp add: click_swap_def mset_swap)
  then have ms: "mset h = add_mset (h ! e) (mset ?t)" using arg_cong [OF app, of mset] by simp
  have dt: "distinct (map snd ?t)"
    using d distinct_mset [OF \<open>mset ?h1 = mset h\<close>] distinct_take [of "map snd ?h1" n] by (simp add: take_map)
  have "ordered_except e ?t" by (rule swap_last_ordered [OF ord len n(1)])
  moreover have "placed ?t (heap_place ?h1 e pos)"
    using pl n snd_nth_eq [OF d _ n(2)] by (auto simp: placed_def heap_place_def nth)
  ultimately obtain h' pos' j where h': "change_heap ?t (heap_place ?h1 e pos) e = Inr (h', pos', j)" "heap_ordered h'"
    "mset h' = mset ?t" "placed h' pos'" "\<forall>t. t \<notin> snd ` set ?t \<longrightarrow> pos' t = heap_place ?h1 e pos t"
    using change_heap_ok [of e ?t "heap_place ?h1 e pos"] n lt dt by auto
  have "set h' = set ?t" using h'(3) by (metis set_mset_mset)
  moreover have "snd (?h1 ! e) \<in> snd ` set ?t" using n nth_mem [of e ?t] by (simp add: image_iff) (metis nth_take)
  ultimately have "\<forall>t. t \<notin> snd ` set h' \<longrightarrow> pos' t = pos t" using h'(5) by (auto simp: heap_place_def)
  moreover have "remove_heap h pos e = Inr (h' @ [h ! e], pos')"
    using e False h'(1) nth [of n] n len by (simp add: remove_heap_def Let_def)
  ultimately show ?thesis using h' ms by auto
qed

lemma root_least:
  assumes "heap_ordered h" "i < length h"
  shows "key h 0 \<le> key h i"
  using assms(2)
proof (induction i rule: less_induct)
  case (less i)
  show ?case
  proof (cases "i = 0")
    case False
    then have "i div 4 < i" "key h (i div 4) \<le> key h i" using assms(1) less.prems by (auto simp: heap_ordered_def)
    then show ?thesis using less.IH [of "i div 4"] less.prems by simp
  qed simp
qed

lemma root_least_mem: "heap_ordered h \<Longrightarrow> x \<in> set h \<Longrightarrow> key h 0 \<le> fst x"
  using root_least by (fastforce simp: in_set_conv_nth key_def)

lemma placed_pos: "placed h pos \<Longrightarrow> t \<in> snd ` set h \<Longrightarrow> 0 < pos t"
  by (auto simp: placed_def in_set_conv_nth) (metis of_nat_0_le_iff zle_add1_eq_le add.commute snd_conv)

text \<open>What the timers know of the heap: their positions, and the keys of the elements.\<close>

definition heap_ok :: "heap_element list \<Rightarrow> positions \<Rightarrow> (timer \<Rightarrow> timestamp) \<Rightarrow> bool" where
  "heap_ok h pos ex \<longleftrightarrow> heap_ordered h \<and> distinct (map snd h) \<and> placed h pos \<and> set h = {(ex t, t) |t. 0 < pos t}"

lemma heap_ok_position:
  assumes "heap_ok h pos ex" "0 < pos t"
  shows "nat (pos t - 1) < length h" "h ! nat (pos t - 1) = (ex t, t)"
proof -
  have "(ex t, t) \<in> set h" using assms by (auto simp: heap_ok_def)
  then obtain k where k: "k < length h" "h ! k = (ex t, t)" by (auto simp: in_set_conv_nth)
  moreover have "pos t = int k + 1" using assms(1) k by (auto simp: heap_ok_def placed_def)
  ultimately show "nat (pos t - 1) < length h" "h ! nat (pos t - 1) = (ex t, t)" by auto
qed

lemma heap_ok_at:
  assumes "heap_ok h pos ex" "i < length h"
  shows "h ! i = (ex (snd (h ! i)), snd (h ! i))" "pos (snd (h ! i)) = int i + 1"
  using assms nth_mem [of i h] by (auto simp: heap_ok_def placed_def)

lemma heap_ok_outside:
  assumes ok: "heap_ok h pos ex" and t: "pos t \<le> 0" "p \<le> 0"
  shows "heap_ok h (pos(t := p)) (ex(t := v))"
proof -
  have "snd (h ! k) \<noteq> t" if "k < length h" for k using heap_ok_at(2) [OF ok that] t by auto
  then have "placed h (pos(t := p))" using ok by (simp add: heap_ok_def placed_def)
  moreover have "{(ex u, u) |u. 0 < pos u} = {((ex(t := v)) u, u) |u. 0 < (pos(t := p)) u}"
    using t by (intro Collect_cong) (metis fun_upd_apply not_le)
  ultimately show ?thesis using ok by (simp add: heap_ok_def del: fun_upd_apply)
qed

text \<open>A heap in which one timer has a new key, or a new timer stands at the end.\<close>

definition heap_but :: "nat \<Rightarrow> heap_element list \<Rightarrow> positions \<Rightarrow> (timer \<Rightarrow> timestamp) \<Rightarrow> bool" where
  "heap_but i h pos ex \<longleftrightarrow> i < length h \<and> ordered_except i h \<and> distinct (map snd h) \<and> placed h pos
     \<and> set h = {(ex t, t) |t. 0 < pos t}"

lemma set_by_key:
  assumes "distinct (map snd h)" "set h = {(ex t, t) |t. P t}"
  shows "t \<in> snd ` set h \<longleftrightarrow> P t"
  using assms by force

lemma keyed_update:
  assumes ex: "\<And>u. u \<noteq> t \<Longrightarrow> ex' u = ex u"
  shows "insert (ex' t, t) ({(ex u, u) |u. P u} - {(ex t, t)}) = {(ex' u, u) |u. P u \<or> u = t}"
proof (rule set_eqI)
  fix z :: "'b \<times> 'a"
  show "z \<in> insert (ex' t, t) ({(ex u, u) |u. P u} - {(ex t, t)}) \<longleftrightarrow> z \<in> {(ex' u, u) |u. P u \<or> u = t}"
    using ex [of "snd z"] by (cases z; cases "snd z = t") auto
qed

lemma heap_but_push:
  assumes ok: "heap_ok h pos ex" and t: "pos t \<le> 0" and ex: "\<And>u. u \<noteq> t \<Longrightarrow> ex' u = ex u"
  shows "heap_but (length h) (h @ [(ex' t, t)]) (pos(t := int (length h) + 1)) ex'"
proof -
  let ?pos = "pos(t := int (length h) + 1)"
  have t': "t \<notin> snd ` set h" using ok t set_by_key [of h ex "\<lambda>u. 0 < pos u"] by (auto simp: heap_ok_def)
  have "ordered_except (length h) (h @ [(ex' t, t)])"
    using ok by (auto simp: ordered_except_def heap_ok_def heap_ordered_def key_def nth_append)
  moreover have "placed (h @ [(ex' t, t)]) ?pos"
    using ok t' by (auto simp: placed_def heap_ok_def nth_append image_iff)
  moreover have "set (h @ [(ex' t, t)]) = {(ex' u, u) |u. 0 < ?pos u}"
  proof -
    have "set h - {(ex t, t)} = set h" using t' by force
    moreover have "{(ex' u, u) |u. 0 < pos u \<or> u = t} = {(ex' u, u) |u. 0 < ?pos u}" by auto
    ultimately show ?thesis
      using keyed_update [of t ex' ex "\<lambda>u. 0 < pos u", OF ex] ok by (simp add: heap_ok_def)
  qed
  ultimately show ?thesis using ok t' by (simp add: heap_but_def heap_ok_def)
qed

lemma heap_but_rekey:
  assumes ok: "heap_ok h pos ex" and t: "0 < pos t" and ex: "\<And>u. u \<noteq> t \<Longrightarrow> ex' u = ex u"
  shows "heap_but (nat (pos t - 1)) (h[nat (pos t - 1) := (ex' t, t)]) pos ex'"
proof -
  let ?i = "nat (pos t - 1)"
  let ?h = "h[?i := (ex' t, t)]"
  note i = heap_ok_position [OF ok t]
  have "heap_ordered h" using ok by (simp add: heap_ok_def)
  note ord = heap_ordered_except [OF this i(1)]
  have kt: "key ?h k = key h k" if "k \<noteq> ?i" for k using that by (simp add: key_def)
  have "ordered_except ?i ?h"
    unfolding ordered_except_def
  proof (intro conjI allI impI)
    fix c assume c: "0 < ?i \<and> 0 < c \<and> c < length ?h \<and> c div 4 = ?i"
    then have "key ?h c = key h c" "key ?h (?i div 4) = key h (?i div 4)" by (auto intro!: kt)
    then show "key ?h (?i div 4) \<le> key ?h c" using ordered_exceptD(2) [OF ord, of c] c by simp
  qed (use ordered_exceptD(1) [OF ord] kt in simp)
  moreover have "map snd ?h = map snd h"
    using i by (auto simp: list_eq_iff_nth_eq nth_list_update)
  moreover have "placed ?h pos"
    using ok i t by (auto simp: placed_def heap_ok_def nth_list_update)
  moreover have "set ?h = {(ex' u, u) |u. 0 < pos u}"
  proof -
    have "distinct h" using ok by (simp add: heap_ok_def distinct_map)
    then have "set ?h = insert (ex' t, t) (set h - {(ex t, t)})"
      using set_update_distinct [of h ?i "(ex' t, t)"] i by simp
    moreover have "{(ex' u, u) |u. 0 < pos u \<or> u = t} = {(ex' u, u) |u. 0 < pos u}" using t by auto
    ultimately show ?thesis using ok keyed_update [of t ex' ex "\<lambda>u. 0 < pos u", OF ex] by (simp add: heap_ok_def)
  qed
  ultimately show ?thesis using ok i by (simp add: heap_but_def heap_ok_def)
qed

text \<open>\<open>same_place\<close>: a timer stays where it is, up to its index in the heap.\<close>

definition same_place :: "int \<Rightarrow> int \<Rightarrow> bool" where
  "same_place p q \<longleftrightarrow> (0 < p \<longleftrightarrow> 0 < q) \<and> (p \<le> 0 \<longrightarrow> p = q)"

lemma same_place_refl [simp]: "same_place p p"
  by (simp add: same_place_def)

lemma same_place_trans: "same_place p q \<Longrightarrow> same_place q r \<Longrightarrow> same_place p r"
  by (auto simp: same_place_def)

lemma change_heap_heap_ok:
  assumes "heap_but i h pos ex"
  shows "\<exists>h' pos' j. change_heap h pos i = Inr (h', pos', j) \<and> heap_ok h' pos' ex \<and> length h' = length h
    \<and> (\<forall>t. same_place (pos t) (pos' t))"
proof -
  from assms have a: "i < length h" "distinct (map snd h)" "ordered_except i h" "placed h pos"
    and s: "set h = {(ex t, t) |t. 0 < pos t}" by (auto simp: heap_but_def)
  obtain h' pos' j where h': "change_heap h pos i = Inr (h', pos', j)" "heap_ordered h'" "mset h' = mset h" "placed h' pos'"
    "\<forall>t. t \<notin> snd ` set h \<longrightarrow> pos' t = pos t" using change_heap_ok [OF a] by blast
  have same: "set h' = set h" "length h' = length h" using h'(3) mset_eq_setD mset_eq_length by blast+
  have mem: "t \<in> snd ` set h \<longleftrightarrow> 0 < pos t" for t using set_by_key [OF a(2) s] .
  have "0 < pos' t" if "0 < pos t" for t
    using that same(1) mem [of t] placed_pos [OF h'(4)] by simp
  then have places: "same_place (pos t) (pos' t)" for t
    using h'(5) mem [of t] by (auto simp: same_place_def)
  have "{(ex t, t) |t. 0 < pos t} = {(ex t, t) |t. 0 < pos' t}" using places by (simp add: same_place_def)
  then have "heap_ok h' pos' ex"
    using h'(2,4) same(1) s a(2) distinct_mset [OF h'(3)] by (simp add: heap_ok_def)
  then show ?thesis using h'(1) same(2) places by blast
qed

lemma remove_heap_heap_ok:
  assumes ok: "heap_ok h pos ex" and i: "i < length h" and t: "t = snd (h ! i)"
  shows "\<exists>h' pos'. remove_heap h pos i = Inr (h' @ [h ! i], pos') \<and> heap_ok h' (pos'(t := 0)) ex
    \<and> mset h = add_mset (h ! i) (mset h') \<and> (\<forall>u. u \<noteq> t \<longrightarrow> same_place (pos u) (pos' u))"
proof -
  from ok have a: "distinct (map snd h)" "heap_ordered h" "placed h pos" and s: "set h = {(ex t, t) |t. 0 < pos t}"
    by (auto simp: heap_ok_def)
  obtain h' pos' where h': "remove_heap h pos i = Inr (h' @ [h ! i], pos')" "heap_ordered h'"
    "mset h = add_mset (h ! i) (mset h')" "placed h' pos'" "\<forall>t. t \<notin> snd ` set h' \<longrightarrow> pos' t = pos t"
    using remove_heap_ok [OF i a] by blast
  have perm: "mset h = mset (h ! i # h')" using h'(3) by simp
  have d: "distinct (map snd (h ! i # h'))" using a(1) distinct_mset [OF perm] by simp
  have set: "set h = insert (h ! i) (set h')" using mset_eq_setD [OF perm] by simp
  have hi: "h ! i = (ex t, t)" using heap_ok_at [OF ok i] t by simp
  have t': "t \<notin> snd ` set h'" using d t by simp
  have s': "set h' = {(ex u, u) |u. 0 < pos u \<and> u \<noteq> t}"
    using set s t' hi by (auto simp: image_iff) force+
  have mem: "u \<in> snd ` set h' \<longleftrightarrow> 0 < pos u \<and> u \<noteq> t" for u
    using set_by_key [of h' ex "\<lambda>u. 0 < pos u \<and> u \<noteq> t"] d s' by simp
  have places: "same_place (pos u) (pos' u)" if "u \<noteq> t" for u
  proof (cases "0 < pos u")
    case True
    then have "u \<in> snd ` set h'" using mem that by blast
    then have "0 < pos' u" by (rule placed_pos [OF h'(4)])
    then show ?thesis using True by (simp add: same_place_def)
  next
    case False
    then show ?thesis using h'(5) mem [of u] by (simp add: same_place_def)
  qed
  have "placed h' (pos'(t := 0))" using h'(4) t' by (auto simp: placed_def)
  moreover have "set h' = {(ex u, u) |u. 0 < (pos'(t := 0)) u}"
    using s' places by (auto simp: same_place_def)
  ultimately have "heap_ok h' (pos'(t := 0)) ex" using h'(2) d by (simp add: heap_ok_def)
  then show ?thesis using h'(1,3) places by blast
qed

end
