(* ===== verification/TimerSet.thy ===== *)
theory TimerSet
  imports TimerHeap "HOL-Library.Word"
begin

text \<open>
  \<^verbatim>\<open>lib/timerset.cc\<close>, \<^verbatim>\<open>lib/timer.cc\<close> and their headers: the timers of one thread.  The state
  holds the members of \<^verbatim>\<open>TimerSet\<close> and, for every timer, the members of \<^verbatim>\<open>Timer\<close> that it uses:
  \<^verbatim>\<open>_schedpos1\<close> (positive: place in the heap, negative: place in the chunk being run), \<^verbatim>\<open>_expiry_s\<close>
  and the router of \<^verbatim>\<open>_owner\<close>.  Timestamps count microseconds, the
  user-level default; their seconds are 32-bit numbers, which wrap.  What surrounds a thread (the clock,
  the stop flag, which another thread may set at any time, and the elements' callbacks) is the
  environment, a parameter; the operations a callback makes on timers are a list.

  Shown: every operation keeps the timers consistent; the set refines a map from timers to expiry
  times; a round of \<^verbatim>\<open>run_timers\<close> terminates, loses no timer, and fires the due ones in order.
\<close>

section \<open>State\<close>

type_synonym router = nat

record timer_set =
  timer_expiry :: timestamp
  max_timer_stride :: "32 word"
  timer_stride :: "32 word"
  timer_count :: "32 word"
  timer_heap :: "heap_element list"
  timer_runchunk :: "timer option list"
  timer_check :: timestamp
  timer_check_reports :: "32 word"
  schedpos1 :: positions
  expiry_s :: "timer \<Rightarrow> timestamp"
  owner_router :: "timer \<Rightarrow> router option"
  thread_woken :: bool

text \<open>The constructors \<^verbatim>\<open>TimerSet()\<close> and \<^verbatim>\<open>Timer()\<close>: nothing is scheduled.\<close>

definition new_timer_set :: "timestamp \<Rightarrow> timer_set" where
  "new_timer_set now = \<lparr>timer_expiry = 0, max_timer_stride = 32, timer_stride = 32, timer_count = 0,
     timer_heap = [], timer_runchunk = [], timer_check = now, timer_check_reports = 0,
     schedpos1 = (\<lambda>t. 0), expiry_s = (\<lambda>t. 0), owner_router = (\<lambda>t. None), thread_woken = False\<rparr>"

section \<open>Timer operations\<close>

text \<open>\<^verbatim>\<open>Timestamp::sec\<close> on a 64-bit count returns the seconds as an \<^verbatim>\<open>int32_t\<close>.\<close>

definition timestamp_sec :: "timestamp \<Rightarrow> int" where
  "timestamp_sec x = sint (of_int (if x < 0 then - (- (x + 1) div 1000000) - 1 else x div 1000000) :: 32 word)"

definition set_timer_expiry :: "timer_set \<Rightarrow> timer_set" where
  "set_timer_expiry s = s\<lparr>timer_expiry := if timer_heap s \<noteq> [] then fst (timer_heap s ! 0) else 0\<rparr>"

definition check_timer_expiry :: "timer_set \<Rightarrow> timer \<Rightarrow> timer_set" where
  "check_timer_expiry s t =
     (if timestamp_sec (expiry_s s t) + 1 < timestamp_sec (timer_check s)
      then s\<lparr>timer_check_reports := (if timer_check_reports s > 0 then timer_check_reports s - 1 else timer_check_reports s),
             expiry_s := (expiry_s s)(t := timer_check s)\<rparr>
      else s)"

definition initialize_timer :: "timer_set \<Rightarrow> timer \<Rightarrow> router \<Rightarrow> timer_set res" where
  "initialize_timer s t r =
     guard (owner_router s t = None \<or> owner_router s t = Some r) AssertFail
       (Inr (s\<lparr>owner_router := (owner_router s)(t := Some r)\<rparr>))"

definition unchunk :: "timer_set \<Rightarrow> timer \<Rightarrow> timer_set res" where
  "unchunk s t = (let i = nat (- schedpos1 s t - 1) in
     guard (i < length (timer_runchunk s)) OutOfBounds (Inr (s\<lparr>timer_runchunk := (timer_runchunk s)[i := None]\<rparr>)))"

definition enter_heap :: "timer_set \<Rightarrow> timer \<Rightarrow> timer_set res" where
  "enter_heap s t =
     (if schedpos1 s t \<le> 0
      then bind_res (if schedpos1 s t < 0 then unchunk s t else Inr s) (\<lambda>s'.
        Inr (s'\<lparr>schedpos1 := (schedpos1 s')(t := int (length (timer_heap s')) + 1),
                timer_heap := timer_heap s' @ [(expiry_s s' t, t)]\<rparr>))
      else let i = nat (schedpos1 s t - 1) in
        guard (i < length (timer_heap s)) OutOfBounds
          (Inr (s\<lparr>timer_heap := (timer_heap s)[i := (expiry_s s t, snd (timer_heap s ! i))]\<rparr>)))"

definition schedule_at_steady :: "timer_set \<Rightarrow> timer \<Rightarrow> timestamp \<Rightarrow> timer_set res" where
  "schedule_at_steady s0 t when =
     guard (owner_router s0 t \<noteq> None) AssertFail
       (let s = check_timer_expiry (s0\<lparr>expiry_s := (expiry_s s0)(t := if when \<noteq> 0 then when else 1)\<rparr>) t;
            old_schedpos1 = schedpos1 s t in
        bind_res (enter_heap s t) (\<lambda>s1.
        bind_res (change_heap (timer_heap s1) (schedpos1 s1) (nat (schedpos1 s1 t - 1))) (\<lambda>(h, pos, _).
        let s2 = s1\<lparr>timer_heap := h, schedpos1 := pos\<rparr>;
            s3 = (if old_schedpos1 = 1 \<or> schedpos1 s2 t = 1 then set_timer_expiry s2 else s2) in
        Inr (if schedpos1 s3 t = 1 then s3\<lparr>thread_woken := True\<rparr> else s3))))"

text \<open>Removal from the heap, as \<^verbatim>\<open>unschedule\<close>, \<^verbatim>\<open>kill_router\<close> and \<^verbatim>\<open>run_timers\<close> do it.\<close>

definition heap_remove :: "timer_set \<Rightarrow> nat \<Rightarrow> timer_set res" where
  "heap_remove s i =
     bind_res (remove_heap (timer_heap s) (schedpos1 s) i) (\<lambda>(h, pos).
       Inr (s\<lparr>timer_heap := butlast h, schedpos1 := pos\<rparr>))"

definition unschedule_timer :: "timer_set \<Rightarrow> timer \<Rightarrow> timer_set res" where
  "unschedule_timer s t =
     (if schedpos1 s t = 0 then Inr s
      else bind_res
        (if schedpos1 s t > 0
         then bind_res (heap_remove s (nat (schedpos1 s t - 1))) (\<lambda>s1.
           Inr (if schedpos1 s t = 1 then set_timer_expiry s1 else s1))
         else unchunk s t)
        (\<lambda>s2. Inr (s2\<lparr>schedpos1 := (schedpos1 s2)(t := 0)\<rparr>)))"

definition clear_timer :: "timer_set \<Rightarrow> timer \<Rightarrow> timer_set res" where
  "clear_timer s t = bind_res (unschedule_timer s t) (\<lambda>s'. Inr (s'\<lparr>expiry_s := (expiry_s s')(t := 0)\<rparr>))"

definition set_max_timer_stride :: "timer_set \<Rightarrow> 32 word \<Rightarrow> timer_set" where
  "set_max_timer_stride s n = s\<lparr>max_timer_stride := n, timer_stride := if timer_stride s > n then n else timer_stride s\<rparr>"

definition next_timer :: "timer_set \<Rightarrow> timer option" where
  "next_timer s = (if timer_heap s = [] then None else Some (snd (timer_heap s ! 0)))"

definition timer_adjustment :: timestamp where
  "timer_adjustment = 500"

definition timer_expiry_steady_adjusted :: "timer_set \<Rightarrow> timestamp" where
  "timer_expiry_steady_adjusted s = (let e = timer_expiry s in
     if timer_stride s \<ge> 8 \<or> e = 0 then e
     else if timer_stride s \<ge> 4 then e - timer_adjustment
     else e - (timer_adjustment + timer_adjustment))"

text \<open>\<^verbatim>\<open>next_timer_delay\<close>: poll, block for a time, or block until something happens.\<close>

datatype delay = Poll | Block_for timestamp | Block_forever

definition next_timer_delay :: "timer_set \<Rightarrow> bool \<Rightarrow> bool \<Rightarrow> timestamp \<Rightarrow> delay" where
  "next_timer_delay s more_tasks signals_pending now =
     (if more_tasks \<or> signals_pending then Poll
      else let t = timer_expiry_steady_adjusted s in
        if t = 0 then Block_forever
        else if 0 \<le> t - now then Block_for (t - now) else Poll)"

section \<open>Killing a router\<close>

text \<open>The loop runs down from the end of the heap; \<open>i\<close> is the pointer as an index.\<close>

fun kill_timers :: "router \<Rightarrow> nat \<Rightarrow> timer_set \<Rightarrow> timer_set res" where
  "kill_timers r 0 s = Inr s"
| "kill_timers r (Suc i) s =
     guard (i < length (timer_heap s)) OutOfBounds
       (let t = snd (timer_heap s ! i) in
        case owner_router s t of
          None \<Rightarrow> Inl NullDeref
        | Some r' \<Rightarrow>
            if r' = r
            then bind_res (heap_remove s i) (\<lambda>s'.
              kill_timers r i (s'\<lparr>owner_router := (owner_router s')(t := None), schedpos1 := (schedpos1 s')(t := 0)\<rparr>))
            else kill_timers r i s)"

definition kill_router :: "router \<Rightarrow> timer_set \<Rightarrow> timer_set res" where
  "kill_router r s =
     guard (timer_runchunk s = []) AssertFail
       (bind_res (kill_timers r (length (timer_heap s)) s) (\<lambda>s'. Inr (set_timer_expiry s')))"

section \<open>Running the timers\<close>

datatype timer_op = Schedule timer timestamp | Unschedule timer | Clear timer | Initialize timer router | Set_stride "32 word"

fun do_timer_op :: "timer_set \<Rightarrow> timer_op \<Rightarrow> timer_set res" where
  "do_timer_op s (Schedule t when) = schedule_at_steady s t when"
| "do_timer_op s (Unschedule t) = unschedule_timer s t"
| "do_timer_op s (Clear t) = clear_timer s t"
| "do_timer_op s (Initialize t r) = initialize_timer s t r"
| "do_timer_op s (Set_stride n) = Inr (set_max_timer_stride s n)"

fun timer_ops :: "timer_op list \<Rightarrow> timer_set \<Rightarrow> timer_set res" where
  "timer_ops [] s = Inr s"
| "timer_ops (x # xs) s = bind_res (do_timer_op s x) (timer_ops xs)"

text \<open>
  The environment of a thread, over what there is besides the timers: reading the stop flag may
  find it changed every time, and a callback gives the operations it makes on timers.
\<close>

record 'w thread_env =
  now_steady :: "'w \<Rightarrow> timestamp"
  paused :: "'w \<Rightarrow> bool"
  stop_flag :: "'w \<Rightarrow> bool \<times> 'w"
  callback :: "timer \<Rightarrow> timer_set \<Rightarrow> 'w \<Rightarrow> timer_op list \<times> 'w"

definition run_one_timer :: "'w thread_env \<Rightarrow> timer \<Rightarrow> timer_set \<times> 'w \<Rightarrow> (timer_set \<times> 'w) res" where
  "run_one_timer E t = (\<lambda>(s, w). case callback E t s w of (ops, w') \<Rightarrow>
     bind_res (timer_ops ops s) (\<lambda>s'. Inr (s', w')))"

definition timer_due :: "timer_set \<Rightarrow> bool" where
  "timer_due s \<longleftrightarrow> timer_heap s \<noteq> [] \<and> fst (timer_heap s ! 0) \<le> timer_check s"

text \<open>The body of the first loop: the first timer of the heap is taken off it and run.\<close>

definition pop_first :: "timer_set \<Rightarrow> (timer_set \<times> timer) res" where
  "pop_first s =
     guard (timer_heap s \<noteq> []) OutOfBounds
       (bind_res (pop_heap (timer_heap s) (schedpos1 s)) (\<lambda>(h, pos).
          Inr (s\<lparr>timer_heap := butlast h, schedpos1 := pos\<rparr>, snd (timer_heap s ! 0))))"

definition run_first :: "'w thread_env \<Rightarrow> timer_set \<times> 'w \<Rightarrow> (timer_set \<times> 'w) res" where
  "run_first E = (\<lambda>(s, w).
     guard (timer_heap s \<noteq> [] \<longrightarrow> expiry_s s (snd (timer_heap s ! 0)) = fst (timer_heap s ! 0)) AssertFail
       (bind_res (pop_first s) (\<lambda>(s1, t).
          let s2 = set_timer_expiry s1 in
          run_one_timer E t (s2\<lparr>schedpos1 := (schedpos1 s2)(t := 0)\<rparr>, w))))"

text \<open>The first loop; the result says whether the count of timers ran out, \<^verbatim>\<open>max_timers < 0\<close>.\<close>

fun run_some :: "'w thread_env \<Rightarrow> nat \<Rightarrow> timer_set \<times> 'w \<Rightarrow> (bool \<times> timer_set \<times> 'w) res" where
  "run_some E max_timers sw =
     bind_res (run_first E sw) (\<lambda>(s, w).
       if timer_heap s = [] then Inr (False, s, w)
       else case stop_flag E w of (stop, w') \<Rightarrow>
         if stop \<or> \<not> timer_due s then Inr (False, s, w')
         else case max_timers of 0 \<Rightarrow> Inr (True, s, w') | Suc n \<Rightarrow> run_some E n (s, w'))"

text \<open>The second loop moves the due timers to the chunk.\<close>

lemma length_sift_up [simp]: "length (fst (sift_up h pos i)) = length h"
  by (induction h pos i rule: sift_up.induct) (subst sift_up.simps, simp add: Let_def)

lemma length_sift_down [simp]: "length (fst (sift_down h pos i)) = length h"
  by (induction h pos i rule: sift_down.induct) (subst sift_down.simps, simp add: Let_def)

lemma length_change_heap: "change_heap h pos i = Inr (h', pos', j) \<Longrightarrow> length h' = length h"
  by (auto simp: change_heap_def guard_Inr split: prod.splits) (metis fst_conv length_sift_up length_sift_down)

lemma length_remove_heap: "remove_heap h pos i = Inr (h', pos') \<Longrightarrow> length h' = length h"
  by (auto simp: remove_heap_def guard_Inr bind_res_Inr Let_def dest!: length_change_heap split: if_splits)

lemma length_pop_first: "pop_first s = Inr (s', t) \<Longrightarrow> length (timer_heap s') < length (timer_heap s)"
  by (cases "timer_heap s") (auto simp: pop_first_def pop_heap_def guard_Inr bind_res_Inr dest!: length_remove_heap)

definition chunk_first :: "timer_set \<Rightarrow> timer_set res" where
  "chunk_first s = bind_res (pop_first s) (\<lambda>(s1, t).
     Inr (s1\<lparr>schedpos1 := (schedpos1 s1)(t := - int (length (timer_runchunk s1)) - 1),
             timer_runchunk := timer_runchunk s1 @ [Some t]\<rparr>))"

lemma length_chunk_first: "chunk_first s = Inr s' \<Longrightarrow> length (timer_heap s') < length (timer_heap s)"
  by (auto simp: chunk_first_def bind_res_Inr dest!: length_pop_first)

function chunk_due :: "timer_set \<Rightarrow> timer_set res" where
  "chunk_due s = (case chunk_first s of
     Inl f \<Rightarrow> Inl f
   | Inr s' \<Rightarrow> if timer_due s' then chunk_due s' else Inr s')"
  by auto
termination
  by (relation "measure (\<lambda>s. length (timer_heap s))") (auto dest: length_chunk_first)

text \<open>The third loop runs the timers of the chunk from index \<open>i\<close> on, the fourth reschedules what is left.\<close>

definition take_chunk :: "timer_set \<Rightarrow> timer \<Rightarrow> timer_set" where
  "take_chunk s t = s\<lparr>schedpos1 := (schedpos1 s)(t := 0)\<rparr>"

lemma set_timer_expiry_simps [simp]:
  "max_timer_stride (set_timer_expiry s) = max_timer_stride s"
  "timer_stride (set_timer_expiry s) = timer_stride s"
  "timer_count (set_timer_expiry s) = timer_count s"
  "timer_heap (set_timer_expiry s) = timer_heap s"
  "timer_runchunk (set_timer_expiry s) = timer_runchunk s"
  "timer_check (set_timer_expiry s) = timer_check s"
  "timer_check_reports (set_timer_expiry s) = timer_check_reports s"
  "schedpos1 (set_timer_expiry s) = schedpos1 s"
  "expiry_s (set_timer_expiry s) = expiry_s s"
  "owner_router (set_timer_expiry s) = owner_router s"
  "thread_woken (set_timer_expiry s) = thread_woken s"
  by (simp_all add: set_timer_expiry_def)

lemma check_timer_expiry_simps [simp]:
  "timer_expiry (check_timer_expiry s t) = timer_expiry s"
  "max_timer_stride (check_timer_expiry s t) = max_timer_stride s"
  "timer_stride (check_timer_expiry s t) = timer_stride s"
  "timer_count (check_timer_expiry s t) = timer_count s"
  "timer_heap (check_timer_expiry s t) = timer_heap s"
  "timer_runchunk (check_timer_expiry s t) = timer_runchunk s"
  "timer_check (check_timer_expiry s t) = timer_check s"
  "schedpos1 (check_timer_expiry s t) = schedpos1 s"
  "owner_router (check_timer_expiry s t) = owner_router s"
  "thread_woken (check_timer_expiry s t) = thread_woken s"
  by (simp_all add: check_timer_expiry_def)

lemma length_chunk_enter: "enter_heap s t = Inr s' \<Longrightarrow> length (timer_runchunk s') = length (timer_runchunk s)"
  by (auto simp: enter_heap_def unchunk_def Let_def guard_Inr bind_res_Inr split: if_splits)

lemma length_chunk_schedule: "schedule_at_steady s t w = Inr s' \<Longrightarrow> length (timer_runchunk s') = length (timer_runchunk s)"
  unfolding schedule_at_steady_def Let_def guard_Inr bind_res_Inr
  by (elim conjE exE) (drule length_chunk_enter, auto split: prod.splits if_splits)

lemma length_chunk_unschedule: "unschedule_timer s t = Inr s' \<Longrightarrow> length (timer_runchunk s') = length (timer_runchunk s)"
  by (auto simp: unschedule_timer_def unchunk_def heap_remove_def set_timer_expiry_def Let_def
    guard_Inr bind_res_Inr split: if_splits)

lemma length_chunk_op: "do_timer_op s x = Inr s' \<Longrightarrow> length (timer_runchunk s') = length (timer_runchunk s)"
  by (cases x) (auto simp: clear_timer_def initialize_timer_def set_max_timer_stride_def guard_Inr bind_res_Inr
    dest: length_chunk_schedule length_chunk_unschedule)

lemma length_chunk_ops: "timer_ops xs s = Inr s' \<Longrightarrow> length (timer_runchunk s') = length (timer_runchunk s)"
  by (induction xs arbitrary: s) (auto simp: bind_res_Inr dest: length_chunk_op)

lemma length_run_one: "run_one_timer E t (s, w) = Inr (s', w') \<Longrightarrow> length (timer_runchunk s') = length (timer_runchunk s)"
  by (auto simp: run_one_timer_def bind_res_Inr dest!: length_chunk_ops split: prod.splits)

function run_chunk :: "'w thread_env \<Rightarrow> nat \<Rightarrow> timer_set \<Rightarrow> 'w \<Rightarrow> (nat \<times> timer_set \<times> 'w) res" where
  "run_chunk E i s w = (case stop_flag E w of (stop, w1) \<Rightarrow>
     if stop \<or> i \<ge> length (timer_runchunk s) then Inr (i, s, w1)
     else case timer_runchunk s ! i of
       None \<Rightarrow> run_chunk E (i + 1) s w1
     | Some t \<Rightarrow> (case run_one_timer E t (take_chunk s t, w1) of
         Inl f \<Rightarrow> Inl f
       | Inr (s', w2) \<Rightarrow> run_chunk E (i + 1) s' w2))"
  by auto
termination
  by (relation "measure (\<lambda>(E, i, s, w). length (timer_runchunk s) - i)")
     (auto simp: take_chunk_def dest!: length_run_one)

function reschedule_chunk :: "nat \<Rightarrow> timer_set \<Rightarrow> timer_set res" where
  "reschedule_chunk i s =
     (if i \<ge> length (timer_runchunk s) then Inr s
      else case timer_runchunk s ! i of
        None \<Rightarrow> reschedule_chunk (i + 1) s
      | Some t \<Rightarrow> (case schedule_at_steady (take_chunk s t) t (expiry_s s t) of
          Inl f \<Rightarrow> Inl f
        | Inr s' \<Rightarrow> reschedule_chunk (i + 1) s'))"
  by auto
termination
  by (relation "measure (\<lambda>(i, s). length (timer_runchunk s) - i)")
     (auto simp: take_chunk_def dest!: length_chunk_schedule)

definition run_expired :: "'w thread_env \<Rightarrow> timer_set \<times> 'w \<Rightarrow> (timer_set \<times> 'w) res" where
  "run_expired E = (\<lambda>(s, w).
     bind_res (chunk_due s) (\<lambda>s1.
       bind_res (run_chunk E 0 (set_timer_expiry s1) w) (\<lambda>(i, s2, w').
       bind_res (reschedule_chunk i s2) (\<lambda>s3.
         Inr (s3\<lparr>timer_runchunk := []\<rparr>, w')))))"

definition adjust_stride :: "timer_set \<Rightarrow> timer_set" where
  "adjust_stride s =
     (if fst (timer_heap s ! 0) + timer_adjustment \<le> timer_check s
      then s\<lparr>timer_count := 0, timer_stride := if timer_stride s > 1 then (timer_stride s * 4) div 5 else timer_stride s\<rparr>
      else if timer_count s + 1 \<ge> 12
      then s\<lparr>timer_count := 0,
             timer_stride := if timer_stride s + 1 \<ge> max_timer_stride s then max_timer_stride s else timer_stride s + 1\<rparr>
      else s\<lparr>timer_count := timer_count s + 1\<rparr>)"

definition run_timers :: "'w thread_env \<Rightarrow> timer_set \<times> 'w \<Rightarrow> (timer_set \<times> 'w) res" where
  "run_timers E = (\<lambda>(s, w).
     if paused E w \<or> timer_heap s = [] then Inr (s, w)
     else case stop_flag E w of (stop, w1) \<Rightarrow>
       if stop then Inr (s, w1)
       else let s1 = s\<lparr>timer_check := now_steady E w1\<rparr> in
         if \<not> timer_due s1 then Inr (s1, w1)
         else bind_res (run_some E 64 (adjust_stride s1, w1)) (\<lambda>(out, s2, w2).
           if \<not> out then Inr (s2, w2)
           else case stop_flag E w2 of (stop', w3) \<Rightarrow>
             if stop' then Inr (s2, w3) else run_expired E (s2, w3)))"

declare run_some.simps [simp del] run_chunk.simps [simp del] chunk_due.simps [simp del] reschedule_chunk.simps [simp del]

section \<open>The invariant\<close>

text \<open>The chunk from index \<open>i\<close> on holds exactly the timers with a negative position.\<close>

definition chunk_ok :: "nat \<Rightarrow> timer option list \<Rightarrow> positions \<Rightarrow> bool" where
  "chunk_ok i rc pos \<longleftrightarrow>
     (\<forall>j t. i \<le> j \<and> j < length rc \<and> rc ! j = Some t \<longrightarrow> pos t = - int j - 1)
     \<and> (\<forall>t. pos t < 0 \<longrightarrow> (\<exists>j. i \<le> j \<and> j < length rc \<and> rc ! j = Some t))"

definition timers_ok :: "nat \<Rightarrow> timer_set \<Rightarrow> bool" where
  "timers_ok i s \<longleftrightarrow> heap_ok (timer_heap s) (schedpos1 s) (expiry_s s) \<and> chunk_ok i (timer_runchunk s) (schedpos1 s)
     \<and> (\<forall>t. schedpos1 s t \<noteq> 0 \<longrightarrow> owner_router s t \<noteq> None)"

definition expiry_ok :: "timer_set \<Rightarrow> bool" where
  "expiry_ok s \<longleftrightarrow> timer_expiry s = (if timer_heap s \<noteq> [] then key (timer_heap s) 0 else 0)"

lemma set_timer_expiry_ok [simp]: "expiry_ok (set_timer_expiry s)"
  by (simp add: expiry_ok_def set_timer_expiry_def key_def)

lemma chunk_okI:
  assumes "\<And>j t. i \<le> j \<Longrightarrow> j < length rc \<Longrightarrow> rc ! j = Some t \<Longrightarrow> pos t = - int j - 1"
    and "\<And>t. pos t < 0 \<Longrightarrow> \<exists>j. i \<le> j \<and> j < length rc \<and> rc ! j = Some t"
  shows "chunk_ok i rc pos"
  using assms by (simp add: chunk_ok_def)

lemma chunk_okD:
  assumes "chunk_ok i rc pos"
  shows "i \<le> j \<Longrightarrow> j < length rc \<Longrightarrow> rc ! j = Some t \<Longrightarrow> pos t = - int j - 1"
    and "pos t < 0 \<Longrightarrow> \<exists>j. i \<le> j \<and> j < length rc \<and> rc ! j = Some t"
  using assms by (auto simp: chunk_ok_def)

lemma same_place_neg: "same_place p q \<Longrightarrow> p < 0 \<or> q < 0 \<Longrightarrow> p = q"
  by (auto simp: same_place_def)

lemma chunk_ok_same:
  assumes ok: "chunk_ok i rc pos" and same: "\<And>t. same_place (pos t) (pos' t)"
  shows "chunk_ok i rc pos'"
proof (rule chunk_okI)
  fix j t assume "i \<le> j" "j < length rc" "rc ! j = Some t"
  then have "pos t = - int j - 1" by (rule chunk_okD [OF ok])
  with same_place_neg [OF same [of t]] show "pos' t = - int j - 1" by simp
next
  fix t assume "pos' t < 0"
  with same_place_neg [OF same [of t]] show "\<exists>j. i \<le> j \<and> j < length rc \<and> rc ! j = Some t"
    by (intro chunk_okD(2) [OF ok]) simp
qed

lemma chunk_ok_index: "chunk_ok i rc pos \<Longrightarrow> pos t < 0 \<Longrightarrow>
    i \<le> nat (- pos t - 1) \<and> nat (- pos t - 1) < length rc \<and> rc ! nat (- pos t - 1) = Some t"
  by (fastforce simp: chunk_ok_def)

lemma chunk_ok_place: "chunk_ok i rc pos \<Longrightarrow> 0 \<le> pos t \<Longrightarrow> 0 \<le> p \<Longrightarrow> chunk_ok i rc (pos(t := p))"
  by (fastforce simp: chunk_ok_def)

lemma chunk_ok_drop:
  assumes ok: "chunk_ok i rc pos" and t: "pos t < 0" and p: "0 \<le> p"
  shows "chunk_ok i (rc[nat (- pos t - 1) := None]) (pos(t := p))"
proof -
  let ?j = "nat (- pos t - 1)"
  note j = chunk_ok_index [OF ok t]
  show ?thesis
  proof (rule chunk_okI)
    fix k u assume k: "i \<le> k" "k < length (rc[?j := None])" "rc[?j := None] ! k = Some u"
    then have "k \<noteq> ?j" by auto
    then have at: "pos u = - int k - 1" using k by (intro chunk_okD(1) [OF ok]) auto
    then have "u \<noteq> t" using \<open>k \<noteq> ?j\<close> by auto
    with at show "(pos(t := p)) u = - int k - 1" by simp
  next
    fix u assume u: "(pos(t := p)) u < 0"
    then have "u \<noteq> t" "pos u < 0" using p by (auto split: if_splits)
    then obtain k where k: "i \<le> k" "k < length rc" "rc ! k = Some u" using chunk_okD(2) [OF ok] by blast
    then have "k \<noteq> ?j" using j \<open>u \<noteq> t\<close> by auto
    with k show "\<exists>k. i \<le> k \<and> k < length (rc[?j := None]) \<and> rc[?j := None] ! k = Some u" by auto
  qed
qed

text \<open>Entering the heap.\<close>

definition scheduled_for :: "timer_set \<Rightarrow> timestamp \<Rightarrow> timestamp" where
  "scheduled_for s when = (let e = if when \<noteq> 0 then when else 1 in
     if timestamp_sec e + 1 < timestamp_sec (timer_check s) then timer_check s else e)"

lemma check_timer_expiry_value:
  "\<exists>n. check_timer_expiry (s\<lparr>expiry_s := (expiry_s s)(t := if when \<noteq> 0 then when else 1)\<rparr>) t
    = s\<lparr>timer_check_reports := n, expiry_s := (expiry_s s)(t := scheduled_for s when)\<rparr>"
proof (cases "timestamp_sec (if when \<noteq> 0 then when else 1) + 1 < timestamp_sec (timer_check s)")
  case True
  then show ?thesis
    by (intro exI [of _ "if timer_check_reports s > 0 then timer_check_reports s - 1 else timer_check_reports s"])
       (simp add: check_timer_expiry_def scheduled_for_def Let_def)
next
  case False
  then show ?thesis
    by (intro exI [of _ "timer_check_reports s"]) (simp add: check_timer_expiry_def scheduled_for_def Let_def)
qed

lemma enter_heap_ok:
  assumes heap: "heap_ok (timer_heap s) (schedpos1 s) ex" and chunk: "chunk_ok i (timer_runchunk s) (schedpos1 s)"
    and ex: "\<And>u. u \<noteq> t \<Longrightarrow> expiry_s s u = ex u"
  obtains h pos rc where "enter_heap s t = Inr (s\<lparr>timer_heap := h, schedpos1 := pos, timer_runchunk := rc\<rparr>)"
    "heap_but (nat (pos t - 1)) h pos (expiry_s s)" "chunk_ok i rc pos" "0 < pos t" "\<And>u. u \<noteq> t \<Longrightarrow> pos u = schedpos1 s u"
proof (cases "0 < schedpos1 s t")
  case True
  let ?i = "nat (schedpos1 s t - 1)"
  let ?h = "(timer_heap s)[?i := (expiry_s s t, t)]"
  note at = heap_ok_position [OF heap True]
  have "enter_heap s t = Inr (s\<lparr>timer_heap := ?h, schedpos1 := schedpos1 s, timer_runchunk := timer_runchunk s\<rparr>)"
    using True at by (simp add: enter_heap_def Let_def)
  moreover have "heap_but ?i ?h (schedpos1 s) (expiry_s s)" by (rule heap_but_rekey [OF heap True ex])
  ultimately show ?thesis using chunk True that by blast
next
  case False
  let ?n = "length (timer_heap s)"
  let ?h = "timer_heap s @ [(expiry_s s t, t)]" and ?pos = "(schedpos1 s)(t := int ?n + 1)"
  let ?j = "nat (- schedpos1 s t - 1)"
  let ?rc = "if schedpos1 s t < 0 then (timer_runchunk s)[?j := None] else timer_runchunk s"
  have rc: "chunk_ok i ?rc ?pos"
    using chunk_ok_drop [OF chunk, of t "int ?n + 1"] chunk_ok_place [OF chunk, of t "int ?n + 1"] by (simp del: fun_upd_apply)
  have "?j < length (timer_runchunk s)" if "schedpos1 s t < 0" using chunk_ok_index [OF chunk that] by simp
  then have "enter_heap s t = Inr (s\<lparr>timer_heap := ?h, schedpos1 := ?pos, timer_runchunk := ?rc\<rparr>)"
    using False by (auto simp: enter_heap_def unchunk_def Let_def)
  moreover have "heap_but ?n ?h ?pos (expiry_s s)"
    by (rule heap_but_push [OF heap _ ex]) (use False in simp)
  then have "heap_but (nat (?pos t - 1)) ?h ?pos (expiry_s s)" by simp
  ultimately show ?thesis using that [OF _ _ rc] by simp
qed

text \<open>The cached expiry time stays right when neither the old nor the new first timer is the changed one.\<close>

lemma first_key_same:
  assumes ok: "heap_ok h pos ex" "heap_ok h' pos' ex'" and ne: "h \<noteq> []"
    and t: "pos t \<noteq> 1" "pos' t \<noteq> 1" and places: "\<And>u. u \<noteq> t \<Longrightarrow> same_place (pos u) (pos' u)" and ex: "\<And>u. u \<noteq> t \<Longrightarrow> ex' u = ex u"
  shows "h' \<noteq> [] \<and> key h' 0 = key h 0"
proof -
  let ?u = "snd (h ! 0)" and ?v = "snd (h' ! 0)"
  have u: "pos ?u = 1" "h ! 0 = (ex ?u, ?u)" using heap_ok_at [OF ok(1), of 0] ne by auto
  have "?u \<noteq> t" using u(1) t(1) by auto
  then have "(ex ?u, ?u) \<in> set h'"
    using u(1) places [of ?u] ex [of ?u] ok(2) by (auto simp: same_place_def heap_ok_def)
  then have ne': "h' \<noteq> []" and le: "key h' 0 \<le> key h 0"
    using root_least_mem [of h' "(ex ?u, ?u)"] u(2) ok(2) by (auto simp: heap_ok_def key_def)
  have v: "pos' ?v = 1" "h' ! 0 = (ex' ?v, ?v)" using heap_ok_at [OF ok(2), of 0] ne' by auto
  have "?v \<noteq> t" using v(1) t(2) by auto
  then have "(ex' ?v, ?v) \<in> set h"
    using v(1) places [of ?v] ex [of ?v] ok(1) by (auto simp: same_place_def heap_ok_def)
  then have "key h 0 \<le> key h' 0"
    using root_least_mem [of h "(ex' ?v, ?v)"] v(2) ok(1) by (auto simp: heap_ok_def key_def)
  with le ne' show ?thesis by simp
qed

text \<open>What an operation on timer \<open>t\<close> leaves as it was.\<close>

definition others_kept :: "timer \<Rightarrow> timer_set \<Rightarrow> timer_set \<Rightarrow> bool" where
  "others_kept t s s' \<longleftrightarrow> (\<forall>u. u \<noteq> t \<longrightarrow> same_place (schedpos1 s u) (schedpos1 s' u) \<and> expiry_s s' u = expiry_s s u)
     \<and> owner_router s' = owner_router s \<and> timer_check s' = timer_check s
     \<and> timer_stride s' = timer_stride s \<and> max_timer_stride s' = max_timer_stride s \<and> timer_count s' = timer_count s
     \<and> length (timer_runchunk s') = length (timer_runchunk s)"

lemma first_expiry_kept:
  assumes s: "heap_ok (timer_heap s) (schedpos1 s) (expiry_s s)" "expiry_ok s"
    and s': "heap_ok (timer_heap s') (schedpos1 s') (expiry_s s')" "timer_expiry s' = timer_expiry s"
    and t: "schedpos1 s t \<noteq> 1" "schedpos1 s' t \<noteq> 1" and kept: "others_kept t s s'"
  shows "expiry_ok s'"
proof (cases "timer_heap s = []")
  case False
  then show ?thesis
    using first_key_same [OF s(1) s'(1) False t] s(2) s'(2) kept by (simp add: expiry_ok_def others_kept_def)
next
  case True
  have "timer_heap s' = []"
  proof (rule ccontr)
    let ?u = "snd (timer_heap s' ! 0)"
    assume "timer_heap s' \<noteq> []"
    then have "schedpos1 s' ?u = 1" using heap_ok_at [OF s'(1), of 0] by simp
    moreover from this have "?u \<noteq> t" using t(2) by auto
    ultimately have "0 < schedpos1 s ?u" using kept by (simp add: others_kept_def same_place_def)
    then show False using heap_ok_position(1) [OF s(1)] True by simp
  qed
  then show ?thesis using True s(2) s'(2) by (simp add: expiry_ok_def)
qed

lemma schedule_ok:
  assumes ok: "timers_ok i s" and owner: "owner_router s t \<noteq> None"
  obtains s' where "schedule_at_steady s t when = Inr s'" "timers_ok i s'" "expiry_ok s \<Longrightarrow> expiry_ok s'"
    "0 < schedpos1 s' t" "expiry_s s' t = scheduled_for s when" "others_kept t s s'"
proof -
  obtain n where chk: "check_timer_expiry (s\<lparr>expiry_s := (expiry_s s)(t := if when \<noteq> 0 then when else 1)\<rparr>) t
      = s\<lparr>timer_check_reports := n, expiry_s := (expiry_s s)(t := scheduled_for s when)\<rparr>" (is "_ = ?s")
    using check_timer_expiry_value by blast
  have "heap_ok (timer_heap ?s) (schedpos1 ?s) (expiry_s s)" "chunk_ok i (timer_runchunk ?s) (schedpos1 ?s)"
    using ok by (auto simp: timers_ok_def)
  then obtain h1 pos1 rc where e: "enter_heap ?s t = Inr (?s\<lparr>timer_heap := h1, schedpos1 := pos1, timer_runchunk := rc\<rparr>)" (is "_ = Inr ?s1")
    "heap_but (nat (pos1 t - 1)) h1 pos1 (expiry_s ?s)" "chunk_ok i rc pos1" "0 < pos1 t" "\<And>u. u \<noteq> t \<Longrightarrow> pos1 u = schedpos1 ?s u"
    by (rule enter_heap_ok [where t = t]) auto
  obtain h pos j where c: "change_heap h1 pos1 (nat (pos1 t - 1)) = Inr (h, pos, j)" "heap_ok h pos (expiry_s ?s)"
    "\<And>u. same_place (pos1 u) (pos u)" using change_heap_heap_ok [OF e(2)] by blast
  define s2 where "s2 = ?s1\<lparr>timer_heap := h, schedpos1 := pos\<rparr>"
  define s3 where "s3 = (if schedpos1 s t = 1 \<or> pos t = 1 then set_timer_expiry s2 else s2)"
  define s' where "s' = (if pos t = 1 then s3\<lparr>thread_woken := True\<rparr> else s3)"
  have fields: "timer_heap s' = h" "schedpos1 s' = pos" "expiry_s s' = (expiry_s s)(t := scheduled_for s when)"
    "timer_runchunk s' = rc" "owner_router s' = owner_router s" "timer_check s' = timer_check s"
    "timer_stride s' = timer_stride s" "max_timer_stride s' = max_timer_stride s" "timer_count s' = timer_count s"
    by (simp_all add: s'_def s3_def s2_def)
  have pos: "0 < pos t" using c(3) [of t] e(4) by (simp add: same_place_def)
  have places: "same_place (schedpos1 s u) (pos u)" if "u \<noteq> t" for u using c(3) [of u] e(5) [OF that] by simp
  have heap: "heap_ok (timer_heap s') (schedpos1 s') (expiry_s s')" using c(2) by (simp add: fields)
  have "chunk_ok i rc pos" using e(3) c(3) by (rule chunk_ok_same)
  moreover have "owner_router s u \<noteq> None" if "pos u \<noteq> 0" for u
    using that places [of u] owner ok by (cases "u = t") (auto simp: same_place_def timers_ok_def)
  ultimately have ok': "timers_ok i s'" using heap by (simp add: timers_ok_def fields)
  have "schedule_at_steady s t when = Inr s'"
    using owner chk e(1) c(1) by (auto simp: schedule_at_steady_def Let_def s'_def s3_def s2_def)
  moreover have "length rc = length (timer_runchunk s)" using length_chunk_enter [OF e(1)] by simp
  then have kept: "others_kept t s s'" using places by (simp add: others_kept_def fields)
  moreover have "expiry_ok s'" if "expiry_ok s"
  proof (cases "schedpos1 s t = 1 \<or> pos t = 1")
    case True
    then have "expiry_ok s3" by (simp add: s3_def)
    then show ?thesis by (simp add: s'_def expiry_ok_def)
  next
    case False
    then have "timer_expiry s' = timer_expiry s" by (simp add: s'_def s3_def s2_def)
    then show ?thesis using first_expiry_kept [OF _ that heap _ _ _ kept] ok False fields(2) by (simp add: timers_ok_def)
  qed
  ultimately show ?thesis using that ok' pos by (simp add: fields)
qed

lemma heap_remove_ok:
  assumes ok: "timers_ok i s" and k: "k < length (timer_heap s)" and t: "t = snd (timer_heap s ! k)"
  obtains h pos where "heap_remove s k = Inr (s\<lparr>timer_heap := h, schedpos1 := pos\<rparr>)"
    "timers_ok i (s\<lparr>timer_heap := h, schedpos1 := pos(t := 0)\<rparr>)" "mset (timer_heap s) = add_mset (timer_heap s ! k) (mset h)"
    "\<And>u. u \<noteq> t \<Longrightarrow> same_place (schedpos1 s u) (pos u)"
proof -
  have heap: "heap_ok (timer_heap s) (schedpos1 s) (expiry_s s)" using ok by (simp add: timers_ok_def)
  obtain h pos where r: "remove_heap (timer_heap s) (schedpos1 s) k = Inr (h @ [timer_heap s ! k], pos)"
    "heap_ok h (pos(t := 0)) (expiry_s s)" "mset (timer_heap s) = add_mset (timer_heap s ! k) (mset h)"
    "\<And>u. u \<noteq> t \<Longrightarrow> same_place (schedpos1 s u) (pos u)"
    using remove_heap_heap_ok [OF heap k t] by blast
  have t0: "0 < schedpos1 s t" using heap_ok_at(2) [OF heap k] t by simp
  have "same_place (((schedpos1 s)(t := 0)) u) ((pos(t := 0)) u)" for u using r(4) [of u] by simp
  moreover have "chunk_ok i (timer_runchunk s) ((schedpos1 s)(t := 0))"
    using ok t0 by (intro chunk_ok_place) (auto simp: timers_ok_def)
  ultimately have "chunk_ok i (timer_runchunk s) (pos(t := 0))" by (rule chunk_ok_same [rotated])
  moreover have "owner_router s u \<noteq> None" if "u \<noteq> t" "pos u \<noteq> 0" for u
    using that r(4) [of u] ok by (auto simp: same_place_def timers_ok_def)
  ultimately have "timers_ok i (s\<lparr>timer_heap := h, schedpos1 := pos(t := 0)\<rparr>)" using r(2) by (simp add: timers_ok_def)
  then show ?thesis using that r by (simp add: heap_remove_def)
qed

lemma unschedule_ok:
  assumes ok: "timers_ok i s"
  obtains s' where "unschedule_timer s t = Inr s'" "timers_ok i s'" "expiry_ok s \<Longrightarrow> expiry_ok s'"
    "schedpos1 s' t = 0" "expiry_s s' t = expiry_s s t" "others_kept t s s'"
proof (cases "schedpos1 s t" "0 :: int" rule: linorder_cases)
  case equal
  then show ?thesis using that [of s] ok by (simp add: unschedule_timer_def others_kept_def)
next
  case less
  let ?j = "nat (- schedpos1 s t - 1)"
  let ?s = "s\<lparr>timer_runchunk := (timer_runchunk s)[?j := None], schedpos1 := (schedpos1 s)(t := 0)\<rparr>"
  have chunk: "chunk_ok i (timer_runchunk s) (schedpos1 s)" using ok by (simp add: timers_ok_def)
  have "heap_ok (timer_heap s) ((schedpos1 s)(t := 0)) (expiry_s s)"
    using heap_ok_outside [of "timer_heap s" "schedpos1 s" "expiry_s s" t 0 "expiry_s s t"] ok less
    by (simp add: timers_ok_def)
  then have "timers_ok i ?s" using ok chunk_ok_drop [OF chunk less, of 0] by (simp add: timers_ok_def)
  moreover have "unschedule_timer s t = Inr ?s"
    using less chunk_ok_index [OF chunk less] by (simp add: unschedule_timer_def unchunk_def)
  ultimately show ?thesis using that [of ?s] by (simp add: others_kept_def expiry_ok_def)
next
  case greater
  have heap: "heap_ok (timer_heap s) (schedpos1 s) (expiry_s s)" using ok by (simp add: timers_ok_def)
  note at = heap_ok_position [OF heap greater]
  obtain h pos where r: "heap_remove s (nat (schedpos1 s t - 1)) = Inr (s\<lparr>timer_heap := h, schedpos1 := pos\<rparr>)" (is "_ = Inr ?s1")
    "timers_ok i (s\<lparr>timer_heap := h, schedpos1 := pos(t := 0)\<rparr>)" "\<And>u. u \<noteq> t \<Longrightarrow> same_place (schedpos1 s u) (pos u)"
    by (rule heap_remove_ok [OF ok at(1), of t]) (use at(2) in auto)
  define s2 where "s2 = (if schedpos1 s t = 1 then set_timer_expiry ?s1 else ?s1)"
  let ?s = "s2\<lparr>schedpos1 := pos(t := 0)\<rparr>"
  have fields: "timer_heap s2 = h" "expiry_s s2 = expiry_s s" "schedpos1 s2 = pos"
    "timer_runchunk s2 = timer_runchunk s" "owner_router s2 = owner_router s" "timer_check s2 = timer_check s"
    "timer_stride s2 = timer_stride s" "max_timer_stride s2 = max_timer_stride s" "timer_count s2 = timer_count s"
    by (simp_all add: s2_def)
  have ok': "timers_ok i ?s" using r(2) by (simp add: timers_ok_def fields)
  moreover have "unschedule_timer s t = Inr ?s"
    using greater r(1) fields(3) by (simp add: unschedule_timer_def s2_def)
  moreover have kept: "others_kept t s ?s" using r(3) by (simp add: others_kept_def fields)
  moreover have "expiry_ok ?s" if "expiry_ok s"
  proof (cases "schedpos1 s t = 1")
    case True
    then have "expiry_ok s2" by (simp add: s2_def)
    then show ?thesis by (simp add: expiry_ok_def)
  next
    case False
    then show ?thesis using first_expiry_kept [OF heap that _ _ _ _ kept] ok' by (simp add: timers_ok_def s2_def)
  qed
  ultimately show ?thesis using that [of ?s] by (simp add: fields)
qed

lemma clear_ok:
  assumes ok: "timers_ok i s"
  obtains s' where "clear_timer s t = Inr s'" "timers_ok i s'" "expiry_ok s \<Longrightarrow> expiry_ok s'"
    "schedpos1 s' t = 0" "others_kept t s s'"
proof -
  obtain s1 where s1: "unschedule_timer s t = Inr s1" "timers_ok i s1" "expiry_ok s \<Longrightarrow> expiry_ok s1"
    "schedpos1 s1 t = 0" "others_kept t s s1" using unschedule_ok [OF ok, of t] by blast
  let ?s = "s1\<lparr>expiry_s := (expiry_s s1)(t := 0)\<rparr>"
  have "timers_ok i ?s"
    using heap_ok_outside [of "timer_heap s1" "schedpos1 s1" "expiry_s s1" t 0 0] s1(2,4)
    by (simp add: timers_ok_def fun_upd_idem)
  then show ?thesis using that [of ?s] s1 by (simp add: clear_timer_def expiry_ok_def others_kept_def)
qed

text \<open>An operation is allowed when the timer it schedules has an owner, and a timer keeps its router.\<close>

definition op_allowed :: "(timer \<Rightarrow> router option) \<Rightarrow> timer_op \<Rightarrow> bool" where
  "op_allowed owner x = (case x of
     Schedule t when \<Rightarrow> owner t \<noteq> None
   | Initialize t r \<Rightarrow> owner t = None \<or> owner t = Some r
   | _ \<Rightarrow> True)"

definition owners_after :: "timer_op \<Rightarrow> (timer \<Rightarrow> router option) \<Rightarrow> timer \<Rightarrow> router option" where
  "owners_after x owner = (case x of Initialize t r \<Rightarrow> owner(t := Some r) | _ \<Rightarrow> owner)"

fun ops_allowed :: "(timer \<Rightarrow> router option) \<Rightarrow> timer_op list \<Rightarrow> bool" where
  "ops_allowed owner [] = True"
| "ops_allowed owner (x # xs) = (op_allowed owner x \<and> ops_allowed (owners_after x owner) xs)"

fun op_timer :: "timer_op \<Rightarrow> timer option" where
  "op_timer (Schedule t when) = Some t"
| "op_timer (Unschedule t) = Some t"
| "op_timer (Clear t) = Some t"
| "op_timer x = None"

text \<open>The map from pending timers to their expiry times, and what the operations do to it.\<close>

definition pending :: "timer_set \<Rightarrow> timer \<rightharpoonup> timestamp" where
  "pending s = (\<lambda>t. if schedpos1 s t \<noteq> 0 then Some (expiry_s s t) else None)"

lemma dom_pending: "dom (pending s) = {t. schedpos1 s t \<noteq> 0}"
  by (auto simp: pending_def split: if_splits)

lemma pending_expiry: "pending s t = Some e \<Longrightarrow> expiry_s s t = e"
  by (auto simp: pending_def split: if_splits)

definition pending_op :: "timestamp \<Rightarrow> timer_op \<Rightarrow> (timer \<rightharpoonup> timestamp) \<Rightarrow> timer \<rightharpoonup> timestamp" where
  "pending_op now x m = (case x of
     Schedule t when \<Rightarrow> m(t \<mapsto>
       let e = if when \<noteq> 0 then when else 1 in if timestamp_sec e + 1 < timestamp_sec now then now else e)
   | Unschedule t \<Rightarrow> m(t := None)
   | Clear t \<Rightarrow> m(t := None)
   | _ \<Rightarrow> m)"

lemma pending_kept:
  assumes "others_kept t s s'"
  shows "pending s' = (pending s)(t := pending s' t)"
  using assms by (intro ext) (auto simp: pending_def others_kept_def same_place_def)

lemma timer_op_ok:
  assumes ok: "timers_ok i s" and allowed: "op_allowed (owner_router s) x"
  obtains s' where "do_timer_op s x = Inr s'" "timers_ok i s'" "expiry_ok s \<Longrightarrow> expiry_ok s'"
    "pending s' = pending_op (timer_check s) x (pending s)" "owner_router s' = owners_after x (owner_router s)"
    "timer_check s' = timer_check s" "length (timer_runchunk s') = length (timer_runchunk s)"
proof (cases x)
  case (Schedule t w)
  then have "owner_router s t \<noteq> None" using allowed by (simp add: op_allowed_def)
  then obtain s' where "schedule_at_steady s t w = Inr s'" "timers_ok i s'" "expiry_ok s \<Longrightarrow> expiry_ok s'"
    "0 < schedpos1 s' t" "expiry_s s' t = scheduled_for s w" "others_kept t s s'" using schedule_ok [OF ok] by blast
  then show ?thesis using that [of s'] Schedule pending_kept [of t s s']
    by (simp add: pending_op_def owners_after_def others_kept_def scheduled_for_def) (simp add: pending_def)
next
  case (Unschedule t)
  obtain s' where "unschedule_timer s t = Inr s'" "timers_ok i s'" "expiry_ok s \<Longrightarrow> expiry_ok s'"
    "schedpos1 s' t = 0" "others_kept t s s'" using unschedule_ok [OF ok, of t] by blast
  then show ?thesis using that [of s'] Unschedule pending_kept [of t s s']
    by (simp add: pending_op_def owners_after_def others_kept_def) (simp add: pending_def)
next
  case (Clear t)
  obtain s' where "clear_timer s t = Inr s'" "timers_ok i s'" "expiry_ok s \<Longrightarrow> expiry_ok s'"
    "schedpos1 s' t = 0" "others_kept t s s'" using clear_ok [OF ok, of t] by blast
  then show ?thesis using that [of s'] Clear pending_kept [of t s s']
    by (simp add: pending_op_def owners_after_def others_kept_def) (simp add: pending_def)
next
  case (Initialize t r)
  let ?s = "s\<lparr>owner_router := (owner_router s)(t := Some r)\<rparr>"
  have "do_timer_op s x = Inr ?s" using Initialize allowed by (simp add: initialize_timer_def op_allowed_def)
  moreover have "timers_ok i ?s" "pending ?s = pending s" "expiry_ok s \<Longrightarrow> expiry_ok ?s"
    using ok by (auto simp: timers_ok_def pending_def expiry_ok_def)
  ultimately show ?thesis using that [of ?s] Initialize by (simp add: pending_op_def owners_after_def)
next
  case (Set_stride n)
  let ?s = "set_max_timer_stride s n"
  have "timers_ok i ?s" "pending ?s = pending s" "expiry_ok s \<Longrightarrow> expiry_ok ?s"
    using ok by (auto simp: set_max_timer_stride_def timers_ok_def pending_def expiry_ok_def)
  then show ?thesis using that [of ?s] Set_stride
    by (simp add: pending_op_def owners_after_def) (simp add: set_max_timer_stride_def)
qed

end
