(* ===== verification/TimerRuns.thy ===== *)
theory TimerRuns
  imports TimerSet
begin

text \<open>
  Sequences of timer operations against the map they implement, and the rounds of
  \<^verbatim>\<open>TimerSet::run_timers\<close>: they end, keep the timers consistent whatever the callbacks do, and
  fire the due timers in order.  \<^verbatim>\<open>TimerSet::kill_router\<close> and the timer it misses.
\<close>

section \<open>Refinement\<close>

text \<open>
  Steps that may fault, on states that satisfy an invariant, implement steps of an abstract state
  as long as these are allowed there.
\<close>

locale step_refinement =
  fixes step :: "'s \<Rightarrow> 'x \<Rightarrow> 's res"
    and inv :: "'s \<Rightarrow> bool"
    and absf :: "'s \<Rightarrow> 'a"
    and allowed :: "'a \<Rightarrow> 'x \<Rightarrow> bool"
    and astep :: "'x \<Rightarrow> 'a \<Rightarrow> 'a"
  assumes step_ok: "inv s \<Longrightarrow> allowed (absf s) x \<Longrightarrow> \<exists>s'. step s x = Inr s' \<and> inv s' \<and> absf s' = astep x (absf s)"
begin

fun all_allowed :: "'a \<Rightarrow> 'x list \<Rightarrow> bool" where
  "all_allowed a [] = True"
| "all_allowed a (x # xs) = (allowed a x \<and> all_allowed (astep x a) xs)"

fun steps :: "'x list \<Rightarrow> 's \<Rightarrow> 's res" where
  "steps [] s = Inr s"
| "steps (x # xs) s = bind_res (step s x) (steps xs)"

lemma steps_ok:
  "inv s \<Longrightarrow> all_allowed (absf s) xs \<Longrightarrow> \<exists>s'. steps xs s = Inr s' \<and> inv s' \<and> absf s' = fold astep xs (absf s)"
proof (induction xs arbitrary: s)
  case (Cons x xs)
  then obtain s' where s': "step s x = Inr s'" "inv s'" "absf s' = astep x (absf s)" using step_ok by fastforce
  then show ?case using Cons.IH [of s'] Cons.prems by simp
qed simp

end

text \<open>The abstract timers: what is pending, whose timers they are, and the time of the last check.\<close>

type_synonym timers = "(timer \<rightharpoonup> timestamp) \<times> (timer \<Rightarrow> router option) \<times> timestamp"

definition timers_of :: "timer_set \<Rightarrow> timers" where
  "timers_of s = (pending s, owner_router s, timer_check s)"

definition timers_allow :: "timers \<Rightarrow> timer_op \<Rightarrow> bool" where
  "timers_allow a x = op_allowed (fst (snd a)) x"

definition timers_op :: "timer_op \<Rightarrow> timers \<Rightarrow> timers" where
  "timers_op x a = (pending_op (snd (snd a)) x (fst a), owners_after x (fst (snd a)), snd (snd a))"

text \<open>The chunk counts from an index, which is not zero while the chunk is being run.\<close>

interpretation timers: step_refinement do_timer_op "\<lambda>s. timers_ok i s \<and> expiry_ok s \<and> length (timer_runchunk s) = n"
  timers_of timers_allow timers_op for i n
proof unfold_locales
  fix s x assume "timers_ok i s \<and> expiry_ok s \<and> length (timer_runchunk s) = n" "timers_allow (timers_of s) x"
  then obtain s' where "do_timer_op s x = Inr s'" "timers_ok i s'" "expiry_ok s'"
    "pending s' = pending_op (timer_check s) x (pending s)" "owner_router s' = owners_after x (owner_router s)"
    "timer_check s' = timer_check s" "length (timer_runchunk s') = length (timer_runchunk s)"
    using timer_op_ok [of i s x] by (auto simp: timers_allow_def timers_of_def)
  with \<open>timers_ok i s \<and> _\<close> show "\<exists>s'. do_timer_op s x = Inr s' \<and> (timers_ok i s' \<and> expiry_ok s' \<and> length (timer_runchunk s') = n)
      \<and> timers_of s' = timers_op x (timers_of s)"
    by (auto simp: timers_of_def timers_op_def)
qed

lemma steps_timer_ops: "timers.steps = timer_ops"
proof (intro ext)
  show "timers.steps xs s = timer_ops xs s" for xs s
    by (induction xs arbitrary: s) (simp_all add: bind_res_def split: sum.splits)
qed

lemma all_allowed_ops: "timers.all_allowed a xs = ops_allowed (fst (snd a)) xs"
  by (induction xs arbitrary: a) (simp_all add: timers_allow_def timers_op_def)

lemma fold_timers_op: "fold timers_op xs (m, ow, now) = (fold (pending_op now) xs m, fold owners_after xs ow, now)"
  by (induction xs arbitrary: m ow) (simp_all add: timers_op_def)

lemma timer_ops_ok:
  assumes "timers_ok i s" "expiry_ok s" "ops_allowed (owner_router s) xs"
  obtains s' where "timer_ops xs s = Inr s'" "timers_ok i s'" "expiry_ok s'" "length (timer_runchunk s') = length (timer_runchunk s)"
    "pending s' = fold (pending_op (timer_check s)) xs (pending s)" "timer_check s' = timer_check s"
    "owner_router s' = fold owners_after xs (owner_router s)"
proof -
  have "\<exists>s'. timer_ops xs s = Inr s' \<and> (timers_ok i s' \<and> expiry_ok s' \<and> length (timer_runchunk s') = length (timer_runchunk s))
      \<and> timers_of s' = fold timers_op xs (timers_of s)"
    using timers.steps_ok [of i s "length (timer_runchunk s)" xs] assms
    by (simp add: steps_timer_ops all_allowed_ops timers_of_def)
  then show ?thesis using that by (auto simp: timers_of_def fold_timers_op)
qed

lemma next_timer_least:
  assumes ok: "timers_ok i s" "expiry_ok s" and rc: "timer_runchunk s = []"
  shows "case next_timer s of
      None \<Rightarrow> pending s = Map.empty \<and> timer_expiry s = 0
    | Some t \<Rightarrow> pending s t = Some (timer_expiry s) \<and> (\<forall>u e. pending s u = Some e \<longrightarrow> timer_expiry s \<le> e)"
proof (cases "timer_heap s = []")
  case True
  then have "schedpos1 s t = 0" for t
    using ok(1) rc by (cases "schedpos1 s t" "0 :: int" rule: linorder_cases) (auto simp: timers_ok_def heap_ok_def chunk_ok_def)
  then show ?thesis using True ok(2) by (simp add: next_timer_def pending_def expiry_ok_def)
next
  case False
  have heap: "heap_ok (timer_heap s) (schedpos1 s) (expiry_s s)" using ok(1) by (simp add: timers_ok_def)
  have first: "timer_expiry s = key (timer_heap s) 0" using False ok(2) by (simp add: expiry_ok_def)
  have "timer_expiry s \<le> expiry_s s u" if "schedpos1 s u \<noteq> 0" for u
  proof -
    have "\<not> schedpos1 s u < 0" using ok(1) rc by (auto simp: timers_ok_def chunk_ok_def)
    then have "(expiry_s s u, u) \<in> set (timer_heap s)" using that heap by (auto simp: heap_ok_def)
    then show ?thesis using root_least_mem [of "timer_heap s" "(expiry_s s u, u)"] heap first by (simp add: heap_ok_def)
  qed
  then show ?thesis using heap_ok_at [OF heap, of 0] False first
    by (auto simp: next_timer_def pending_def key_def) (metis fst_conv)
qed

section \<open>Rounds\<close>

lemma pop_first_ok:
  assumes ok: "timers_ok i s" and ne: "timer_heap s \<noteq> []" and t: "t = snd (timer_heap s ! 0)"
  shows "\<exists>h pos. pop_first s = Inr (s\<lparr>timer_heap := h, schedpos1 := pos\<rparr>, t)
    \<and> timers_ok i (s\<lparr>timer_heap := h, schedpos1 := pos(t := 0)\<rparr>) \<and> (\<forall>u. u \<noteq> t \<longrightarrow> same_place (schedpos1 s u) (pos u))
    \<and> timer_heap s ! 0 = (expiry_s s t, t) \<and> 0 < schedpos1 s t \<and> (\<forall>u. 0 < schedpos1 s u \<longrightarrow> expiry_s s t \<le> expiry_s s u)"
proof -
  have heap: "heap_ok (timer_heap s) (schedpos1 s) (expiry_s s)" using ok by (simp add: timers_ok_def)
  have len: "0 < length (timer_heap s)" using ne by simp
  obtain h pos where r: "heap_remove s 0 = Inr (s\<lparr>timer_heap := h, schedpos1 := pos\<rparr>)"
    "timers_ok i (s\<lparr>timer_heap := h, schedpos1 := pos(t := 0)\<rparr>)" "\<And>u. u \<noteq> t \<Longrightarrow> same_place (schedpos1 s u) (pos u)"
    using heap_remove_ok [OF ok len t] by blast
  have "pop_first s = Inr (s\<lparr>timer_heap := h, schedpos1 := pos\<rparr>, t)"
    using r(1) ne t by (auto simp: pop_first_def pop_heap_def heap_remove_def bind_res_def split: sum.splits)
  moreover have at: "timer_heap s ! 0 = (expiry_s s t, t)" "0 < schedpos1 s t" using heap_ok_at [OF heap len] t by auto
  moreover have "expiry_s s t \<le> expiry_s s u" if "0 < schedpos1 s u" for u
    using root_least_mem [of "timer_heap s" "(expiry_s s u, u)"] heap that at(1) by (auto simp: heap_ok_def key_def)
  ultimately show ?thesis using r(2,3) by blast
qed

text \<open>The callbacks of an environment schedule only timers that have an owner.\<close>

definition callbacks_allowed :: "'w thread_env \<Rightarrow> bool" where
  "callbacks_allowed E \<longleftrightarrow> (\<forall>t s w. ops_allowed (owner_router s) (fst (callback E t s w)))"

lemma run_one_ok:
  assumes E: "callbacks_allowed E" and s: "timers_ok i s" "expiry_ok s"
  obtains s' w' where "run_one_timer E t (s, w) = Inr (s', w')" "timers_ok i s'" "expiry_ok s'"
    "length (timer_runchunk s') = length (timer_runchunk s)" "timer_check s' = timer_check s"
proof -
  obtain ops w' where cb: "callback E t s w = (ops, w')" by fastforce
  then have "ops_allowed (owner_router s) ops" using E by (metis callbacks_allowed_def fst_conv)
  then obtain s' where "timer_ops ops s = Inr s'" "timers_ok i s'" "expiry_ok s'"
    "length (timer_runchunk s') = length (timer_runchunk s)" "timer_check s' = timer_check s"
    using timer_ops_ok [OF s] by blast
  then show ?thesis using that cb by (simp add: run_one_timer_def)
qed

lemma run_first_ok:
  assumes E: "callbacks_allowed E" and s: "timers_ok i s" and ne: "timer_heap s \<noteq> []"
  obtains s' w' where "run_first E (s, w) = Inr (s', w')" "timers_ok i s'" "expiry_ok s'"
    "length (timer_runchunk s') = length (timer_runchunk s)" "timer_check s' = timer_check s"
proof -
  obtain h pos t where p: "pop_first s = Inr (s\<lparr>timer_heap := h, schedpos1 := pos\<rparr>, t)" (is "_ = Inr (?s1, _)")
    "timers_ok i (s\<lparr>timer_heap := h, schedpos1 := pos(t := 0)\<rparr>)" "timer_heap s ! 0 = (expiry_s s t, t)"
    using pop_first_ok [OF s ne refl] by (elim exE conjE) (rule that)
  let ?s2 = "set_timer_expiry ?s1\<lparr>schedpos1 := pos(t := 0)\<rparr>"
  have "timers_ok i ?s2" "expiry_ok ?s2"
    using p(2) set_timer_expiry_ok [of ?s1] by (simp_all add: timers_ok_def expiry_ok_def)
  then obtain s' w' where r: "run_one_timer E t (?s2, w) = Inr (s', w')" "timers_ok i s'" "expiry_ok s'"
    "length (timer_runchunk s') = length (timer_runchunk ?s2)" "timer_check s' = timer_check ?s2"
    using run_one_ok [OF E] by blast
  then show ?thesis using that p(1,3) ne by (simp add: run_first_def Let_def)
qed

lemma run_some_ok:
  assumes E: "callbacks_allowed E"
  shows "timers_ok i s \<Longrightarrow> timer_heap s \<noteq> [] \<Longrightarrow> \<exists>out s' w'. run_some E n (s, w) = Inr (out, s', w')
    \<and> timers_ok i s' \<and> expiry_ok s' \<and> length (timer_runchunk s') = length (timer_runchunk s) \<and> (out \<longrightarrow> timer_due s')"
proof (induction n arbitrary: s w)
  case 0
  obtain s' w' where r: "run_first E (s, w) = Inr (s', w')" "timers_ok i s'" "expiry_ok s'"
    "length (timer_runchunk s') = length (timer_runchunk s)" using run_first_ok [OF E 0] by blast
  then show ?case by (subst run_some.simps) (auto split: prod.splits)
next
  case (Suc n)
  obtain s' w' where r: "run_first E (s, w) = Inr (s', w')" "timers_ok i s'" "expiry_ok s'"
    "length (timer_runchunk s') = length (timer_runchunk s)" using run_first_ok [OF E Suc.prems] by blast
  show ?case
  proof (cases "timer_heap s' = [] \<or> fst (stop_flag E w') \<or> \<not> timer_due s'")
    case True
    then show ?thesis using r by (subst run_some.simps) (auto split: prod.splits)
  next
    case False
    then have "run_some E (Suc n) (s, w) = run_some E n (s', snd (stop_flag E w'))"
      using r(1) by (subst run_some.simps) (auto split: prod.splits)
    then show ?thesis using Suc.IH [OF r(2)] r(4) False by simp
  qed
qed

text \<open>Moving the due timers to the chunk.\<close>

lemma chunk_ok_push:
  assumes ok: "chunk_ok i rc pos" and t: "pos t \<ge> 0" and i: "i \<le> length rc"
  shows "chunk_ok i (rc @ [Some t]) (pos(t := - int (length rc) - 1))"
proof (rule chunk_okI)
  fix j u assume "i \<le> j" "j < length (rc @ [Some t])" "(rc @ [Some t]) ! j = Some u"
  then show "(pos(t := - int (length rc) - 1)) u = - int j - 1"
    using chunk_okD(1) [OF ok, of j u] t by (cases "j = length rc") (auto simp: nth_append)
next
  fix u assume u: "(pos(t := - int (length rc) - 1)) u < 0"
  show "\<exists>j. i \<le> j \<and> j < length (rc @ [Some t]) \<and> (rc @ [Some t]) ! j = Some u"
  proof (cases "u = t")
    case True
    then show ?thesis using i by (intro exI [of _ "length rc"]) simp
  next
    case False
    then obtain j where "i \<le> j" "j < length rc" "rc ! j = Some u" using chunk_okD(2) [OF ok] u by auto
    then show ?thesis by (intro exI [of _ j]) (simp add: nth_append)
  qed
qed

lemma chunk_first_ok:
  assumes s: "timers_ok 0 s" and ne: "timer_heap s \<noteq> []" and t: "t = snd (timer_heap s ! 0)"
  shows "\<exists>s'. chunk_first s = Inr s' \<and> timers_ok 0 s' \<and> timer_runchunk s' = timer_runchunk s @ [Some t]
    \<and> expiry_s s' = expiry_s s \<and> timer_check s' = timer_check s \<and> owner_router s' = owner_router s
    \<and> (\<forall>u. u \<noteq> t \<longrightarrow> same_place (schedpos1 s u) (schedpos1 s' u)) \<and> schedpos1 s' t < 0 \<and> 0 < schedpos1 s t
    \<and> timer_heap s ! 0 = (expiry_s s t, t) \<and> (\<forall>u. 0 < schedpos1 s u \<longrightarrow> expiry_s s t \<le> expiry_s s u)"
proof -
  obtain h pos where p: "pop_first s = Inr (s\<lparr>timer_heap := h, schedpos1 := pos\<rparr>, t)"
    "timers_ok 0 (s\<lparr>timer_heap := h, schedpos1 := pos(t := 0)\<rparr>)" "\<forall>u. u \<noteq> t \<longrightarrow> same_place (schedpos1 s u) (pos u)"
    "timer_heap s ! 0 = (expiry_s s t, t)" "0 < schedpos1 s t" "\<forall>u. 0 < schedpos1 s u \<longrightarrow> expiry_s s t \<le> expiry_s s u"
    using pop_first_ok [OF s ne t] by (elim exE conjE) (rule that)
  let ?n = "- int (length (timer_runchunk s)) - 1"
  let ?s = "s\<lparr>timer_heap := h, schedpos1 := pos(t := ?n), timer_runchunk := timer_runchunk s @ [Some t]\<rparr>"
  have "heap_ok h ((pos(t := 0))(t := ?n)) ((expiry_s s)(t := expiry_s s t))"
    using p(2) by (intro heap_ok_outside) (auto simp: timers_ok_def)
  moreover have "chunk_ok 0 (timer_runchunk s @ [Some t]) ((pos(t := 0))(t := ?n))"
    using p(2) by (intro chunk_ok_push) (auto simp: timers_ok_def)
  moreover have "owner_router s t \<noteq> None" using s p(5) by (auto simp: timers_ok_def)
  ultimately have "timers_ok 0 ?s" using p(2) by (simp add: timers_ok_def split: if_splits)
  moreover have "chunk_first s = Inr ?s" using p(1) by (simp add: chunk_first_def)
  ultimately show ?thesis using p(3-6) by (intro exI [of _ ?s]) simp
qed

lemma chunk_due_ok:
  "timers_ok 0 s \<Longrightarrow> timer_heap s \<noteq> [] \<Longrightarrow> \<exists>s'. chunk_due s = Inr s' \<and> timers_ok 0 s' \<and> \<not> timer_due s'"
proof (induction s rule: chunk_due.induct)
  case (1 s)
  obtain s' where s': "chunk_first s = Inr s'" "timers_ok 0 s'" using chunk_first_ok [OF 1(2,3) refl] by (elim exE conjE) (rule that)
  show ?case
  proof (cases "timer_due s'")
    case True
    then show ?thesis using 1(1) [OF s'(1) True s'(2)] s'(1) by (simp add: chunk_due.simps [of s] timer_due_def)
  qed (use s' in \<open>simp add: chunk_due.simps [of s]\<close>)
qed

text \<open>Running the chunk, and what is left of it when the thread has to stop.\<close>

lemma timers_ok_skip:
  assumes "timers_ok i s" "i < length (timer_runchunk s)" "timer_runchunk s ! i = None"
  shows "timers_ok (i + 1) s"
proof -
  have "chunk_ok (i + 1) (timer_runchunk s) (schedpos1 s)"
  proof (rule chunk_okI)
    fix t assume "schedpos1 s t < 0"
    then obtain j where "i \<le> j" "j < length (timer_runchunk s)" "timer_runchunk s ! j = Some t"
      using assms(1) chunk_okD(2) unfolding timers_ok_def by blast
    moreover from this have "j \<noteq> i" using assms(3) by auto
    ultimately show "\<exists>j. i + 1 \<le> j \<and> j < length (timer_runchunk s) \<and> timer_runchunk s ! j = Some t"
      by (intro exI [of _ j]) simp
  qed (use assms(1) in \<open>simp add: timers_ok_def chunk_ok_def\<close>)
  then show ?thesis using assms(1) by (simp add: timers_ok_def)
qed

lemma timers_ok_take:
  assumes ok: "timers_ok i s" and i: "i < length (timer_runchunk s)" "timer_runchunk s ! i = Some t"
  shows "timers_ok (i + 1) (take_chunk s t)" "schedpos1 s t = - int i - 1"
proof -
  have chunk: "chunk_ok i (timer_runchunk s) (schedpos1 s)" using ok by (simp add: timers_ok_def)
  show t: "schedpos1 s t = - int i - 1" using chunk_okD(1) [OF chunk _ i] by simp
  have "chunk_ok (i + 1) (timer_runchunk s) ((schedpos1 s)(t := 0))"
  proof (rule chunk_okI)
    fix j u assume j: "i + 1 \<le> j" "j < length (timer_runchunk s)" "timer_runchunk s ! j = Some u"
    then have "schedpos1 s u = - int j - 1" by (intro chunk_okD(1) [OF chunk]) auto
    then show "((schedpos1 s)(t := 0)) u = - int j - 1" using t j(1) by auto
  next
    fix u assume "((schedpos1 s)(t := 0)) u < 0"
    then have u: "u \<noteq> t" "schedpos1 s u < 0" by (auto split: if_splits)
    then obtain j where "i \<le> j" "j < length (timer_runchunk s)" "timer_runchunk s ! j = Some u"
      using chunk_okD(2) [OF chunk] by blast
    moreover from this have "j \<noteq> i" using u(1) i(2) by auto
    ultimately show "\<exists>j. i + 1 \<le> j \<and> j < length (timer_runchunk s) \<and> timer_runchunk s ! j = Some u"
      by (intro exI [of _ j]) simp
  qed
  moreover have "heap_ok (timer_heap s) ((schedpos1 s)(t := 0)) ((expiry_s s)(t := expiry_s s t))"
    using ok t by (intro heap_ok_outside) (auto simp: timers_ok_def)
  ultimately show "timers_ok (i + 1) (take_chunk s t)" using ok by (simp add: take_chunk_def timers_ok_def)
qed

lemma expiry_ok_take [simp]: "expiry_ok (take_chunk s t) = expiry_ok s"
  by (simp add: expiry_ok_def take_chunk_def)

lemma run_chunk_ok:
  "timers_ok i s \<Longrightarrow> expiry_ok s \<Longrightarrow> i \<le> length (timer_runchunk s) \<Longrightarrow> callbacks_allowed E \<Longrightarrow>
    \<exists>j s' w'. run_chunk E i s w = Inr (j, s', w') \<and> timers_ok j s' \<and> expiry_ok s' \<and> j \<le> length (timer_runchunk s')"
proof (induction E i s w rule: run_chunk.induct)
  case (1 E i s w)
  show ?case
  proof (cases "fst (stop_flag E w) \<or> i \<ge> length (timer_runchunk s)")
    case True
    then have "run_chunk E i s w = Inr (i, s, snd (stop_flag E w))"
      by (auto simp: run_chunk.simps [of E i s w] split: prod.splits)
    then show ?thesis using 1(3-5) by simp
  next
    case False
    obtain w1 where w1: "stop_flag E w = (False, w1)" using False by (cases "stop_flag E w") auto
    show ?thesis
    proof (cases "timer_runchunk s ! i")
      case None
      have "run_chunk E i s w = run_chunk E (i + 1) s w1"
        using w1 False None by (simp add: run_chunk.simps [of E i s w])
      then show ?thesis using 1(1) [OF w1 [symmetric] _ None] timers_ok_skip [OF 1(3) _ None] 1(4,6) False by simp
    next
      case (Some t)
      have take: "timers_ok (i + 1) (take_chunk s t)" using timers_ok_take(1) [OF 1(3) _ Some] False by simp
      obtain s' w2 where r: "run_one_timer E t (take_chunk s t, w1) = Inr (s', w2)" "timers_ok (i + 1) s'" "expiry_ok s'"
        "length (timer_runchunk s') = length (timer_runchunk (take_chunk s t))"
        using run_one_ok [OF 1(6) take, of t w1] 1(4) by (metis expiry_ok_take)
      have "run_chunk E i s w = run_chunk E (i + 1) s' w2"
        using w1 False Some r(1) by (simp add: run_chunk.simps [of E i s w])
      then show ?thesis using 1(2) [OF w1 [symmetric] _ Some r(1) refl r(2,3)] 1(6) r(4) False by (simp add: take_chunk_def)
    qed
  qed
qed

lemma reschedule_chunk_ok:
  "timers_ok i s \<Longrightarrow> expiry_ok s \<Longrightarrow> i \<le> length (timer_runchunk s) \<Longrightarrow>
    \<exists>s'. reschedule_chunk i s = Inr s' \<and> timers_ok (length (timer_runchunk s')) s' \<and> expiry_ok s'
      \<and> dom (pending s') = dom (pending s) \<and> timer_check s' = timer_check s
      \<and> (\<forall>t. 0 < schedpos1 s t \<longrightarrow> 0 < schedpos1 s' t \<and> expiry_s s' t = expiry_s s t)"
proof (induction i s rule: reschedule_chunk.induct)
  case (1 i s)
  show ?case
  proof (cases "i = length (timer_runchunk s)")
    case True
    then have "reschedule_chunk i s = Inr s" by (subst reschedule_chunk.simps) simp
    then show ?thesis using 1(3,4) True by simp
  next
    case False
    then have i: "i < length (timer_runchunk s)" using 1(5) by simp
    show ?thesis
    proof (cases "timer_runchunk s ! i")
      case None
      then show ?thesis using 1(1) [OF _ None] timers_ok_skip [OF 1(3) i None] 1(4) i
        by (simp add: reschedule_chunk.simps [of i s])
    next
      case (Some t)
      note take = timers_ok_take [OF 1(3) i Some]
      have "owner_router (take_chunk s t) t \<noteq> None" using 1(3) take(2) by (auto simp: timers_ok_def take_chunk_def)
      then obtain s' where s': "schedule_at_steady (take_chunk s t) t (expiry_s s t) = Inr s'" "timers_ok (i + 1) s'"
        "expiry_ok (take_chunk s t) \<Longrightarrow> expiry_ok s'" "0 < schedpos1 s' t" "others_kept t (take_chunk s t) s'"
        using schedule_ok [OF take(1)] by blast
      have "schedpos1 s' u \<noteq> 0 \<longleftrightarrow> schedpos1 s u \<noteq> 0" for u
        using s'(4,5) take(2) by (cases "u = t") (auto simp: others_kept_def take_chunk_def same_place_def)
      then have kept: "dom (pending s') = dom (pending s)" by (simp add: pending_def dom_def)
      have heap: "0 < schedpos1 s' u \<and> expiry_s s' u = expiry_s s u" if "0 < schedpos1 s u" for u
        using that s'(4,5) take(2) by (cases "u = t") (auto simp: others_kept_def take_chunk_def same_place_def)
      have eq: "reschedule_chunk i s = reschedule_chunk (i + 1) s'"
        using i Some s'(1) by (simp add: reschedule_chunk.simps [of i s])
      have "expiry_ok s'" using s'(3) 1(4) by simp
      moreover have "i + 1 \<le> length (timer_runchunk s')" "timer_check s' = timer_check s"
        using s'(5) i by (auto simp: others_kept_def take_chunk_def)
      ultimately show ?thesis unfolding eq using 1(2) [OF _ Some s'(1,2)] i kept heap by fastforce
    qed
  qed
qed

lemma chunk_done:
  assumes "timers_ok (length (timer_runchunk s)) s" "expiry_ok s"
  shows "timers_ok 0 (s\<lparr>timer_runchunk := []\<rparr>)" "expiry_ok (s\<lparr>timer_runchunk := []\<rparr>)"
proof -
  have "chunk_ok 0 [] (schedpos1 s)" using assms(1) by (fastforce simp: timers_ok_def chunk_ok_def)
  then show "timers_ok 0 (s\<lparr>timer_runchunk := []\<rparr>)" using assms(1) by (simp add: timers_ok_def)
  show "expiry_ok (s\<lparr>timer_runchunk := []\<rparr>)" using assms(2) by (simp add: expiry_ok_def)
qed

definition idle :: "timer_set \<Rightarrow> bool" where
  "idle s \<longleftrightarrow> timers_ok 0 s \<and> expiry_ok s \<and> timer_runchunk s = []"

lemma run_expired_ok:
  assumes E: "callbacks_allowed E" and s: "timers_ok 0 s" "timer_heap s \<noteq> []"
  shows "\<exists>s' w'. run_expired E (s, w) = Inr (s', w') \<and> idle s'"
proof -
  obtain s1 where c: "chunk_due s = Inr s1" "timers_ok 0 s1" using chunk_due_ok [OF s] by blast
  then have "timers_ok 0 (set_timer_expiry s1)" by (simp add: timers_ok_def)
  then obtain j s2 w2 where r: "run_chunk E 0 (set_timer_expiry s1) w = Inr (j, s2, w2)" "timers_ok j s2" "expiry_ok s2"
    "j \<le> length (timer_runchunk s2)" using run_chunk_ok [OF _ _ _ E] by fastforce
  obtain s3 where q: "reschedule_chunk j s2 = Inr s3" "timers_ok (length (timer_runchunk s3)) s3" "expiry_ok s3"
    using reschedule_chunk_ok [OF r(2-4)] by blast
  show ?thesis using c(1) r(1) q(1) chunk_done [OF q(2,3)] by (simp add: run_expired_def idle_def)
qed

lemma adjust_stride_simps [simp]:
  "timer_expiry (adjust_stride s) = timer_expiry s"
  "timer_heap (adjust_stride s) = timer_heap s"
  "timer_runchunk (adjust_stride s) = timer_runchunk s"
  "timer_check (adjust_stride s) = timer_check s"
  "schedpos1 (adjust_stride s) = schedpos1 s"
  "expiry_s (adjust_stride s) = expiry_s s"
  "owner_router (adjust_stride s) = owner_router s"
  by (simp_all add: adjust_stride_def)

lemma run_timers_idle:
  assumes E: "callbacks_allowed E" and s: "idle s"
  shows "\<exists>s' w'. run_timers E (s, w) = Inr (s', w') \<and> idle s'"
proof -
  obtain stop w1 where w1: "stop_flag E w = (stop, w1)" by fastforce
  let ?s1 = "s\<lparr>timer_check := now_steady E w1\<rparr>"
  have ok1: "idle ?s1" using s by (auto simp: idle_def timers_ok_def expiry_ok_def)
  show ?thesis
  proof (cases "paused E w \<or> timer_heap s = [] \<or> stop \<or> \<not> timer_due ?s1")
    case True
    then show ?thesis using s ok1 w1 by (auto simp: run_timers_def Let_def)
  next
    case False
    have "timers_ok 0 (adjust_stride ?s1)" "timer_heap (adjust_stride ?s1) \<noteq> []"
      using ok1 False by (auto simp: idle_def timers_ok_def)
    then obtain out s2 w2 where r: "run_some E 64 (adjust_stride ?s1, w1) = Inr (out, s2, w2)" "timers_ok 0 s2" "expiry_ok s2"
      "timer_runchunk s2 = []" "out \<longrightarrow> timer_due s2"
      using run_some_ok [OF E, of 0 "adjust_stride ?s1" 64 w1] ok1 by (auto simp: idle_def)
    obtain stop' w3 where w3: "stop_flag E w2 = (stop', w3)" by fastforce
    have eq: "run_timers E (s, w) = (if \<not> out then Inr (s2, w2) else if stop' then Inr (s2, w3) else run_expired E (s2, w3))"
      using False w1 r(1) w3 by (simp add: run_timers_def Let_def)
    show ?thesis
    proof (cases "out \<and> \<not> stop'")
      case True
      then show ?thesis using run_expired_ok [OF E r(2), of w3] r(5) by (simp add: eq timer_due_def)
    next
      case False
      then show ?thesis using r by (auto simp: eq idle_def)
    qed
  qed
qed

section \<open>Which timers fire\<close>

text \<open>
  An environment whose callbacks only note the timer: the world is the list of timers that fired,
  the clock stands at \<open>now\<close>, and the stop flag is read as any function of that list says.
\<close>

definition noting :: "timestamp \<Rightarrow> (timer list \<Rightarrow> bool) \<Rightarrow> timer list thread_env" where
  "noting now stop = \<lparr>now_steady = (\<lambda>_. now), paused = (\<lambda>_. False), stop_flag = (\<lambda>w. (stop w, w)),
     callback = (\<lambda>t s w. ([], w @ [t]))\<rparr>"

lemma noting_allowed [simp]: "callbacks_allowed (noting now stop)"
  by (simp add: callbacks_allowed_def noting_def)

text \<open>
  \<open>fired s xs s'\<close>: from \<open>s\<close>, the timers \<open>xs\<close> left the heap in order of expiry, all of them due,
  and none of those still in the heap of \<open>s'\<close> expires before one of them.
\<close>

definition fired :: "timer_set \<Rightarrow> timer list \<Rightarrow> timer_set \<Rightarrow> bool" where
  "fired s xs s' \<longleftrightarrow> distinct xs \<and> sorted (map (expiry_s s) xs) \<and> expiry_s s' = expiry_s s \<and> timer_check s' = timer_check s
     \<and> (\<forall>t \<in> set xs. 0 < schedpos1 s t \<and> expiry_s s t \<le> timer_check s)
     \<and> (\<forall>t. 0 < schedpos1 s' t \<longleftrightarrow> 0 < schedpos1 s t \<and> t \<notin> set xs)
     \<and> (\<forall>t \<in> set xs. \<forall>u. 0 < schedpos1 s' u \<longrightarrow> expiry_s s t \<le> expiry_s s u)"

lemma fired_Nil: "fired s [] s"
  by (simp add: fired_def)

lemma fired_snoc:
  assumes "fired s xs s1" "0 < schedpos1 s1 t" "expiry_s s1 t \<le> timer_check s1" "expiry_s s2 = expiry_s s1" "timer_check s2 = timer_check s1"
    "\<forall>u. 0 < schedpos1 s2 u \<longleftrightarrow> 0 < schedpos1 s1 u \<and> u \<noteq> t" "\<forall>u. 0 < schedpos1 s1 u \<longrightarrow> expiry_s s1 t \<le> expiry_s s1 u"
  shows "fired s (xs @ [t]) s2"
  using assms unfolding fired_def by (auto simp: sorted_append)

lemma run_first_noting:
  assumes s: "timers_ok i s" and due: "timer_due s" and f: "fired s0 xs s"
  obtains s' t where "run_first (noting now stop) (s, w) = Inr (s', w @ [t])" "timers_ok i s'" "expiry_ok s'"
    "fired s0 (xs @ [t]) s'" "timer_runchunk s' = timer_runchunk s"
proof -
  define t where "t = snd (timer_heap s ! 0)"
  have ne: "timer_heap s \<noteq> []" using due by (simp add: timer_due_def)
  obtain h pos where p: "pop_first s = Inr (s\<lparr>timer_heap := h, schedpos1 := pos\<rparr>, t)" (is "_ = Inr (?s1, _)")
    "timers_ok i (s\<lparr>timer_heap := h, schedpos1 := pos(t := 0)\<rparr>)" "\<forall>u. u \<noteq> t \<longrightarrow> same_place (schedpos1 s u) (pos u)"
    "timer_heap s ! 0 = (expiry_s s t, t)" "0 < schedpos1 s t" "\<forall>u. 0 < schedpos1 s u \<longrightarrow> expiry_s s t \<le> expiry_s s u"
    using pop_first_ok [OF s ne t_def] by (elim exE conjE) (rule that)
  let ?s2 = "set_timer_expiry ?s1\<lparr>schedpos1 := pos(t := 0)\<rparr>"
  have "timers_ok i ?s2" "expiry_ok ?s2"
    using p(2) set_timer_expiry_ok [of ?s1] by (simp_all add: timers_ok_def expiry_ok_def)
  moreover have "run_first (noting now stop) (s, w) = Inr (?s2, w @ [t])"
    using p(1,4) ne by (simp add: run_first_def Let_def run_one_timer_def noting_def)
  moreover have "fired s0 (xs @ [t]) ?s2"
    by (rule fired_snoc [OF f p(5)]) (use p(3,4,6) due in \<open>auto simp: timer_due_def same_place_def\<close>)
  ultimately show ?thesis using that [of ?s2 t] by simp
qed

lemma run_some_noting:
  "timers_ok i s \<Longrightarrow> timer_due s \<Longrightarrow> fired s0 xs s \<Longrightarrow> \<exists>out s' ys. run_some (noting now stop) n (s, w) = Inr (out, s', w @ ys)
    \<and> timers_ok i s' \<and> expiry_ok s' \<and> fired s0 (xs @ ys) s' \<and> timer_runchunk s' = timer_runchunk s \<and> (out \<longrightarrow> timer_due s')
    \<and> (\<not> out \<and> (\<forall>v. \<not> stop v) \<longrightarrow> \<not> timer_due s')"
proof (induction n arbitrary: s xs w)
  case 0
  obtain s' t where r: "run_first (noting now stop) (s, w) = Inr (s', w @ [t])" "timers_ok i s'" "expiry_ok s'"
    "fired s0 (xs @ [t]) s'" "timer_runchunk s' = timer_runchunk s"
    by (rule run_first_noting [OF 0])
  have "\<exists>out. run_some (noting now stop) 0 (s, w) = Inr (out, s', w @ [t]) \<and> (out \<longrightarrow> timer_due s')
      \<and> (\<not> out \<and> (\<forall>v. \<not> stop v) \<longrightarrow> \<not> timer_due s')"
    using r(1) by (subst run_some.simps) (auto simp: noting_def timer_due_def)
  then show ?case using r by blast
next
  case (Suc n)
  obtain s' t where r: "run_first (noting now stop) (s, w) = Inr (s', w @ [t])" "timers_ok i s'" "expiry_ok s'"
    "fired s0 (xs @ [t]) s'" "timer_runchunk s' = timer_runchunk s"
    by (rule run_first_noting [OF Suc.prems])
  show ?case
  proof (cases "timer_due s' \<and> \<not> stop (w @ [t])")
    case True
    then have "run_some (noting now stop) (Suc n) (s, w) = run_some (noting now stop) n (s', w @ [t])"
      using r(1) by (subst run_some.simps) (auto simp: noting_def timer_due_def)
    then show ?thesis using Suc.IH [OF r(2) _ r(4), of "w @ [t]"] True r(5) by force
  next
    case False
    then have "run_some (noting now stop) (Suc n) (s, w) = Inr (False, s', w @ [t])"
      using r(1) by (subst run_some.simps) (auto simp: noting_def timer_due_def)
    then show ?thesis using r False by blast
  qed
qed

lemma chunk_due_fired:
  "timers_ok 0 s \<Longrightarrow> timer_due s \<Longrightarrow> fired s0 xs s \<Longrightarrow> \<exists>s' ys. chunk_due s = Inr s' \<and> timers_ok 0 s' \<and> fired s0 (xs @ ys) s'
    \<and> timer_runchunk s' = timer_runchunk s @ map Some ys \<and> \<not> timer_due s' \<and> (\<forall>t. schedpos1 s' t = 0 \<longleftrightarrow> schedpos1 s t = 0)"
proof (induction s arbitrary: xs rule: chunk_due.induct)
  case (1 s)
  define t where "t = snd (timer_heap s ! 0)"
  have ne: "timer_heap s \<noteq> []" using 1(3) by (simp add: timer_due_def)
  obtain s' where c: "chunk_first s = Inr s'" "timers_ok 0 s'" "timer_runchunk s' = timer_runchunk s @ [Some t]"
    "expiry_s s' = expiry_s s" "timer_check s' = timer_check s"
    "\<forall>u. u \<noteq> t \<longrightarrow> same_place (schedpos1 s u) (schedpos1 s' u)" "schedpos1 s' t < 0" "0 < schedpos1 s t"
    "timer_heap s ! 0 = (expiry_s s t, t)" "\<forall>u. 0 < schedpos1 s u \<longrightarrow> expiry_s s t \<le> expiry_s s u"
    using chunk_first_ok [OF 1(2) ne t_def] by (elim exE conjE) (rule that)
  have heap: "0 < schedpos1 s' u \<longleftrightarrow> 0 < schedpos1 s u \<and> u \<noteq> t" for u
    using c(6-8) by (cases "u = t") (auto simp: same_place_def)
  have zero: "schedpos1 s' u = 0 \<longleftrightarrow> schedpos1 s u = 0" for u
    using c(6-8) by (cases "u = t") (auto simp: same_place_def)
  have f: "fired s0 (xs @ [t]) s'"
    by (rule fired_snoc [OF 1(4) c(8) _ c(4,5)]) (use heap c(9,10) 1(3) in \<open>auto simp: timer_due_def\<close>)
  show ?case
  proof (cases "timer_due s'")
    case True
    then show ?thesis using 1(1) [OF c(1) True c(2) True f] c(1,3) zero by (force simp: chunk_due.simps [of s])
  next
    case False
    then have "chunk_due s = Inr s'" using c(1) by (simp add: chunk_due.simps [of s])
    then show ?thesis using c(2,3) f False zero by (intro exI [of _ s'] exI [of _ "[t]"]) simp
  qed
qed

lemma run_chunk_noting:
  assumes "length (timer_runchunk s) - i = n" "timers_ok i s" "expiry_ok s" "timer_runchunk s = map Some (us @ ys)" "i = length us"
  shows "\<exists>j s'. run_chunk (noting now stop) i s w = Inr (i + j, s', w @ take j ys) \<and> timers_ok (i + j) s' \<and> expiry_ok s'
    \<and> timer_runchunk s' = timer_runchunk s \<and> j \<le> length ys \<and> ((\<forall>v. \<not> stop v) \<longrightarrow> j = length ys)
    \<and> (\<forall>t. schedpos1 s' t = (if t \<in> set (take j ys) then 0 else schedpos1 s t))
    \<and> expiry_s s' = expiry_s s \<and> timer_check s' = timer_check s"
  using assms
proof (induction n arbitrary: i s us ys w)
  case 0
  then have "ys = []" by simp
  moreover have "run_chunk (noting now stop) i s w = Inr (i, s, w)"
    using 0 by (subst run_chunk.simps) (simp add: noting_def)
  ultimately show ?case using 0 by auto
next
  case (Suc n)
  then obtain t ys' where ys: "ys = t # ys'" by (cases ys) auto
  have i: "i < length (timer_runchunk s)" "timer_runchunk s ! i = Some t" using Suc.prems ys by (auto simp: nth_append)
  show ?case
  proof (cases "stop w")
    case True
    then have "run_chunk (noting now stop) i s w = Inr (i + 0, s, w @ take 0 ys)"
      by (subst run_chunk.simps) (simp add: noting_def)
    then show ?thesis using Suc.prems True by (intro exI [of _ 0] exI [of _ s]) auto
  next
    case False
    let ?s = "take_chunk s t"
    have eq: "run_chunk (noting now stop) i s w = run_chunk (noting now stop) (i + 1) ?s (w @ [t])"
      using False i by (subst run_chunk.simps) (simp add: noting_def run_one_timer_def)
    have ok: "timers_ok (i + 1) ?s" using timers_ok_take(1) [OF Suc.prems(2) i] .
    obtain j s' where r: "run_chunk (noting now stop) (i + 1) ?s (w @ [t]) = Inr (i + 1 + j, s', (w @ [t]) @ take j ys')"
      "timers_ok (i + 1 + j) s'" "expiry_ok s'" "timer_runchunk s' = timer_runchunk ?s" "j \<le> length ys'"
      "(\<forall>v. \<not> stop v) \<longrightarrow> j = length ys'" "\<forall>u. schedpos1 s' u = (if u \<in> set (take j ys') then 0 else schedpos1 ?s u)"
      "expiry_s s' = expiry_s ?s" "timer_check s' = timer_check ?s"
    proof -
      have pre: "length (timer_runchunk ?s) - (i + 1) = n" "expiry_ok ?s" "timer_runchunk ?s = map Some ((us @ [t]) @ ys')"
        "i + 1 = length (us @ [t])" using Suc.prems ys by (auto simp: take_chunk_def simp flip: expiry_ok_take [of s t])
      show ?thesis using Suc.IH [OF pre(1) ok pre(2-4), of "w @ [t]"] by (elim exE conjE) (rule that)
    qed
    then show ?thesis unfolding eq
      by (intro exI [of _ "Suc j"] exI [of _ s']) (auto simp: ys take_chunk_def)
  qed
qed

lemma idle_pos:
  assumes "idle s"
  shows "schedpos1 s t \<noteq> 0 \<longleftrightarrow> 0 < schedpos1 s t"
proof -
  have "\<not> schedpos1 s t < 0" using assms by (auto simp: idle_def timers_ok_def chunk_ok_def)
  then show ?thesis by auto
qed

lemma not_due:
  assumes "timers_ok i s" "\<not> timer_due s" "0 < schedpos1 s t"
  shows "timer_check s < expiry_s s t"
proof -
  have "(expiry_s s t, t) \<in> set (timer_heap s)" using assms(1,3) by (auto simp: timers_ok_def heap_ok_def)
  then have "timer_heap s \<noteq> []" "fst (timer_heap s ! 0) \<le> expiry_s s t"
    using root_least_mem [of "timer_heap s" "(expiry_s s t, t)"] assms(1) by (auto simp: timers_ok_def heap_ok_def key_def)
  then show ?thesis using assms(2) by (simp add: timer_due_def)
qed

text \<open>\<open>round_of now s xs s'\<close>: what a round at time \<open>now\<close> that fired \<open>xs\<close> makes of the timers.\<close>

definition round_of :: "timestamp \<Rightarrow> timer_set \<Rightarrow> timer list \<Rightarrow> timer_set \<Rightarrow> bool" where
  "round_of now s xs s' \<longleftrightarrow> distinct xs \<and> sorted (map (expiry_s s) xs)
     \<and> (\<forall>t \<in> set xs. t \<in> dom (pending s) \<and> expiry_s s t \<le> now)
     \<and> dom (pending s') = dom (pending s) - set xs
     \<and> (\<forall>t. now < expiry_s s t \<longrightarrow> pending s' t = pending s t)"

lemma round_of_fired:
  assumes f: "fired s xs s'" and s: "idle s" "idle s'"
  shows "round_of (timer_check s) s xs s'"
proof -
  have pos: "schedpos1 s' t \<noteq> 0 \<longleftrightarrow> schedpos1 s t \<noteq> 0 \<and> t \<notin> set xs" for t
    using f idle_pos [OF s(1), of t] idle_pos [OF s(2), of t] by (simp add: fired_def)
  have "t \<notin> set xs" if "timer_check s < expiry_s s t" for t using f that by (auto simp: fired_def)
  then have "pending s' t = pending s t" if "timer_check s < expiry_s s t" for t
    using that f pos [of t] by (simp add: pending_def fired_def)
  moreover have "t \<in> dom (pending s)" if "t \<in> set xs" for t
    using f that idle_pos [OF s(1), of t] by (simp add: fired_def dom_pending)
  moreover have "dom (pending s') = dom (pending s) - set xs" using pos by (auto simp: dom_pending)
  ultimately show ?thesis using f by (simp add: round_of_def fired_def)
qed

text \<open>
  A state \<open>s1\<close> in which \<open>xs @ ys\<close> have left the heap of \<open>s0\<close>, those of \<open>ys\<close> for the chunk, and
  a state \<open>s'\<close> in which the first \<open>j\<close> of the chunk have fired and the others are pending again.
\<close>

lemma round_of_chunk:
  assumes f: "fired s0 (xs @ ys) s1" and s0: "idle s0"
    and dom: "dom (pending s') = dom (pending s0) - set (xs @ take j ys)"
    and heap: "\<And>t. 0 < schedpos1 s1 t \<Longrightarrow> pending s' t = Some (expiry_s s1 t)"
  shows "round_of (timer_check s0) s0 (xs @ take j ys) s'"
proof -
  let ?xs = "xs @ take j ys"
  have fd: "distinct (xs @ ys)" "sorted (map (expiry_s s0) (xs @ ys))" "expiry_s s1 = expiry_s s0"
    "\<forall>t \<in> set (xs @ ys). 0 < schedpos1 s0 t \<and> expiry_s s0 t \<le> timer_check s0"
    "\<forall>t. 0 < schedpos1 s1 t \<longleftrightarrow> 0 < schedpos1 s0 t \<and> t \<notin> set (xs @ ys)" using f by (auto simp: fired_def)
  have pre: "?xs = take (length xs + j) (xs @ ys)" by simp
  have "distinct ?xs" "sorted (map (expiry_s s0) ?xs)"
    using fd(1,2) distinct_take sorted_wrt_take unfolding pre take_map [symmetric] by blast+
  moreover have "t \<in> dom (pending s0) \<and> expiry_s s0 t \<le> timer_check s0" if "t \<in> set ?xs" for t
  proof -
    have "t \<in> set (xs @ ys)" using that in_set_takeD [of t j ys] by auto
    then have "0 < schedpos1 s0 t" "expiry_s s0 t \<le> timer_check s0" using fd(4) by blast+
    then show ?thesis by (simp add: dom_pending)
  qed
  moreover have "pending s' t = pending s0 t" if t: "timer_check s0 < expiry_s s0 t" for t
  proof (cases "schedpos1 s0 t = 0")
    case True
    then have "t \<notin> dom (pending s')" unfolding dom by (simp add: dom_pending)
    then show ?thesis using True by (auto simp: pending_def)
  next
    case False
    have "t \<notin> set (xs @ ys)" using fd(4) t by force
    then have "0 < schedpos1 s1 t" using fd(5) False idle_pos [OF s0] by simp
    then show ?thesis using heap [of t] fd(3) False by (simp add: pending_def)
  qed
  ultimately show ?thesis unfolding round_of_def using dom by simp
qed

lemma run_expired_noting:
  assumes s: "idle s" "timer_due s" and f: "fired s0 xs s" and s0: "idle s0"
  shows "\<exists>s' ys. run_expired (noting now stop) (s, w) = Inr (s', w @ ys) \<and> idle s' \<and> round_of (timer_check s) s0 (xs @ ys) s'
    \<and> ((\<forall>v. \<not> stop v) \<longrightarrow> (\<forall>t. t \<in> dom (pending s') \<longrightarrow> timer_check s < expiry_s s0 t))"
proof -
  obtain s1 ys where c: "chunk_due s = Inr s1" "timers_ok 0 s1" "fired s0 (xs @ ys) s1" "timer_runchunk s1 = map Some ([] @ ys)"
    "\<not> timer_due s1" "\<forall>t. schedpos1 s1 t = 0 \<longleftrightarrow> schedpos1 s t = 0"
    using chunk_due_fired [OF _ s(2) f] s(1) by (auto simp: idle_def)
  let ?s1 = "set_timer_expiry s1"
  have ok1: "timers_ok 0 ?s1" "expiry_ok ?s1" "timer_runchunk ?s1 = map Some ([] @ ys)" using c(2,4) by (simp_all add: timers_ok_def)
  obtain j s2 where r: "run_chunk (noting now stop) 0 ?s1 w = Inr (0 + j, s2, w @ take j ys)" "timers_ok (0 + j) s2" "expiry_ok s2"
    "timer_runchunk s2 = timer_runchunk ?s1" "j \<le> length ys" "(\<forall>v. \<not> stop v) \<longrightarrow> j = length ys"
    "\<forall>t. schedpos1 s2 t = (if t \<in> set (take j ys) then 0 else schedpos1 ?s1 t)" "expiry_s s2 = expiry_s ?s1" "timer_check s2 = timer_check ?s1"
    using run_chunk_noting [OF refl ok1, of now stop w, simplified list.size, OF refl] by (elim exE conjE) (rule that)
  have "j \<le> length (timer_runchunk s2)" using r(4,5) c(4) by simp
  then obtain s3 where q: "reschedule_chunk (0 + j) s2 = Inr s3" "timers_ok (length (timer_runchunk s3)) s3" "expiry_ok s3"
    "dom (pending s3) = dom (pending s2)" "timer_check s3 = timer_check s2"
    "\<forall>t. 0 < schedpos1 s2 t \<longrightarrow> 0 < schedpos1 s3 t \<and> expiry_s s3 t = expiry_s s2 t"
    using reschedule_chunk_ok [OF r(2,3)] by auto
  let ?s = "s3\<lparr>timer_runchunk := []\<rparr>" and ?xs = "xs @ take j ys"
  have run: "run_expired (noting now stop) (s, w) = Inr (?s, w @ take j ys)"
    using c(1) r(1) q(1) by (simp add: run_expired_def)
  have ok: "idle ?s" using chunk_done [OF q(2,3)] by (simp add: idle_def)
  have check: "timer_check s1 = timer_check s0" "timer_check s0 = timer_check s" "expiry_s s1 = expiry_s s0"
    using c(3) f by (auto simp: fired_def)
  have pos: "0 < schedpos1 s1 t \<longleftrightarrow> 0 < schedpos1 s0 t \<and> t \<notin> set (xs @ ys)" for t using c(3) by (simp add: fired_def)
  have s_pos: "schedpos1 s t \<noteq> 0 \<longleftrightarrow> 0 < schedpos1 s0 t \<and> t \<notin> set xs" for t
    using idle_pos [OF s(1)] f by (simp add: fired_def)
  have "dom (pending ?s) = dom (pending s2)" using q(4) by (simp add: dom_pending)
  also have "\<dots> = {t. schedpos1 s t \<noteq> 0 \<and> t \<notin> set (take j ys)}" using r(7) c(6) by (auto simp: dom_pending)
  finally have dom: "dom (pending ?s) = dom (pending s0) - set ?xs" using s_pos idle_pos [OF s0] by (auto simp: dom_pending)
  have "round_of (timer_check s0) s0 ?xs ?s"
  proof (rule round_of_chunk [OF c(3) s0 dom])
    fix t assume "0 < schedpos1 s1 t"
    moreover from this have "t \<notin> set (take j ys)" using pos [of t] by (auto dest: in_set_takeD)
    ultimately have "0 < schedpos1 s2 t" using r(7) by simp
    then have "0 < schedpos1 s3 t" "expiry_s s3 t = expiry_s s1 t" using q(6) r(8) by simp_all
    then show "pending ?s t = Some (expiry_s s1 t)" by (simp add: pending_def)
  qed
  moreover have "timer_check s < expiry_s s0 t" if "\<forall>v. \<not> stop v" "t \<in> dom (pending ?s)" for t
  proof -
    have "j = length ys" using r(6) that(1) by blast
    then have "0 < schedpos1 s1 t" using pos [of t] that(2) idle_pos [OF s0] unfolding dom by (auto simp: dom_pending)
    then show ?thesis using not_due [OF c(2,5)] check by simp
  qed
  ultimately show ?thesis using run ok check by (intro exI [of _ ?s] exI [of _ "take j ys"]) simp
qed

lemma run_due_round:
  assumes s1: "idle s1" "timer_due s1" "timer_check s1 = now"
  shows "\<exists>s' xs. bind_res (run_some (noting now stop) 64 (adjust_stride s1, [])) (\<lambda>(out, s2, w2).
      if \<not> out then Inr (s2, w2) else if stop w2 then Inr (s2, w2) else run_expired (noting now stop) (s2, w2)) = Inr (s', xs)
    \<and> idle s' \<and> round_of now s1 xs s'
    \<and> ((\<forall>v. \<not> stop v) \<longrightarrow> (\<forall>t. t \<in> dom (pending s') \<longrightarrow> now < expiry_s s1 t))"
proof -
  let ?E = "noting now stop"
  have ok2: "timers_ok 0 (adjust_stride s1)" "timer_due (adjust_stride s1)" "fired s1 [] (adjust_stride s1)"
    using s1 by (auto simp: idle_def timers_ok_def timer_due_def fired_def)
  obtain out s2 xs where r: "run_some ?E 64 (adjust_stride s1, []) = Inr (out, s2, xs)" "timers_ok 0 s2" "expiry_ok s2"
    "fired s1 xs s2" "timer_runchunk s2 = []" "out \<longrightarrow> timer_due s2" "\<not> out \<and> (\<forall>v. \<not> stop v) \<longrightarrow> \<not> timer_due s2"
    using run_some_noting [OF ok2, of now stop 64 "[]"] s1(1) by (auto simp: idle_def)
  then have ok3: "idle s2" by (simp add: idle_def)
  have check: "timer_check s2 = now" using r(4) s1(3) by (simp add: fired_def)
  show ?thesis
  proof (cases "out \<and> \<not> stop xs")
    case True
    then show ?thesis using run_expired_noting [OF ok3 _ r(4) s1(1), of now stop xs] r(1,6) check by auto
  next
    case False
    have rd: "round_of now s1 xs s2" using round_of_fired [OF r(4) s1(1) ok3] s1(3) by simp
    moreover have "now < expiry_s s1 t" if "\<forall>v. \<not> stop v" "t \<in> dom (pending s2)" for t
      using not_due [OF r(2), of t] r(4,7) that False idle_pos [OF ok3, of t] check by (auto simp: dom_pending fired_def)
    ultimately show ?thesis using False r(1) ok3 by auto
  qed
qed

lemma run_timers_round:
  assumes s: "idle s"
  shows "\<exists>s' xs. run_timers (noting now stop) (s, []) = Inr (s', xs) \<and> idle s' \<and> round_of now (s\<lparr>timer_check := now\<rparr>) xs s'
    \<and> ((\<forall>v. \<not> stop v) \<longrightarrow> set xs = {t \<in> dom (pending s). expiry_s s t \<le> now})"
proof -
  let ?E = "noting now stop" and ?s1 = "s\<lparr>timer_check := now\<rparr>"
  have ok1: "idle ?s1" using s by (auto simp: idle_def timers_ok_def expiry_ok_def)
  have same: "pending ?s1 = pending s" by (intro ext) (simp add: pending_def)
  have none: "round_of now ?s1 [] s'" if "pending s' = pending s" for s'
    using that same by (simp add: round_of_def)
  have E: "paused ?E w = False" "stop_flag ?E w = (stop w, w)" "now_steady ?E w = now" for w by (simp_all add: noting_def)
  consider (empty) "timer_heap s = []" | (stop) "timer_heap s \<noteq> []" "stop []"
    | (early) "timer_heap s \<noteq> []" "\<not> stop []" "\<not> timer_due ?s1" | (due) "timer_heap s \<noteq> []" "\<not> stop []" "timer_due ?s1" by blast
  then show ?thesis
  proof cases
    case empty
    then have "pending s = Map.empty" using next_timer_least [of 0 s] s by (simp add: next_timer_def idle_def)
    then show ?thesis using empty s none [of s] by (simp add: run_timers_def E)
  next
    case stop
    then show ?thesis using s none [of s] by (auto simp: run_timers_def E)
  next
    case early
    then have "now < expiry_s s t" if "t \<in> dom (pending s)" for t
      using not_due [of 0 ?s1 t] that ok1 idle_pos [OF s, of t] by (simp add: idle_def dom_pending)
    then show ?thesis using early ok1 none [of ?s1] same by (force simp: run_timers_def E Let_def)
  next
    case due
    obtain s' xs where r: "run_timers ?E (s, []) = Inr (s', xs)" "idle s'" "round_of now ?s1 xs s'"
      "(\<forall>v. \<not> stop v) \<longrightarrow> (\<forall>t. t \<in> dom (pending s') \<longrightarrow> now < expiry_s s t)"
      using run_due_round [OF ok1 due(3), of now stop] due by (auto simp: run_timers_def E Let_def cong: if_cong)
    moreover have "set xs = {t \<in> dom (pending s). expiry_s s t \<le> now}" if "\<forall>v. \<not> stop v"
      using r(3,4) that same unfolding round_of_def by force
    ultimately show ?thesis by blast
  qed
qed

lemma run_timers_due:
  assumes "idle s"
  shows "\<exists>s' xs. run_timers (noting now stop) (s, []) = Inr (s', xs) \<and> round_of now s xs s'
    \<and> ((\<forall>v. \<not> stop v) \<longrightarrow> set xs = {t \<in> dom (pending s). expiry_s s t \<le> now})"
proof -
  have "pending (s\<lparr>timer_check := now\<rparr>) = pending s" by (intro ext) (simp add: pending_def)
  then show ?thesis using run_timers_round [OF assms, of now stop] by (auto simp: round_of_def)
qed

lemma new_timer_set_idle: "idle (new_timer_set now)"
  by (auto simp: idle_def timers_ok_def expiry_ok_def heap_ok_def chunk_ok_def heap_ordered_def placed_def new_timer_set_def)

lemma timer_ops_idle:
  assumes "ops_allowed (\<lambda>t. None) xs"
  shows "\<exists>s. timer_ops xs (new_timer_set now) = Inr s \<and> idle s \<and> pending s = fold (pending_op now) xs Map.empty"
proof -
  have "owner_router (new_timer_set now) = (\<lambda>t. None)" "pending (new_timer_set now) = Map.empty" "timer_check (new_timer_set now) = now"
    by (auto simp: new_timer_set_def pending_def)
  then show ?thesis using timer_ops_ok [of 0 "new_timer_set now" xs] new_timer_set_idle [of now] assms
    by (metis idle_def length_0_conv)
qed

text \<open>How long a thread may sleep: not beyond the first timer.\<close>

lemma sleep_until_first_timer:
  assumes "idle s" "next_timer_delay s busy sig now = Block_for d" "pending s t = Some e"
  shows "0 \<le> d \<and> now + d \<le> e"
proof -
  have "timer_expiry s \<le> e"
    using next_timer_least [of 0 s] assms(1,3) by (auto simp: idle_def split: option.splits)
  moreover have "timer_expiry_steady_adjusted s \<le> timer_expiry s"
    by (simp add: timer_expiry_steady_adjusted_def timer_adjustment_def Let_def)
  ultimately show ?thesis using assms(2) by (auto simp: next_timer_delay_def Let_def split: if_splits)
qed

section \<open>Properties\<close>

text \<open>(C9) Every sequence of timer operations that schedules only initialised timers, and never moves a timer to
  another router, runs without a failed assertion or an access outside the heap or the chunk, and acts on the
  pending timers as on a map from timers to expiry times; whatever the heap looks like, the next timer is one
  that expires first, and the cached expiry time the thread sleeps by is its time.\<close>

theorem timer_set_refines:
  assumes "ops_allowed (\<lambda>t. None) xs"
  shows "\<exists>s. timer_ops xs (new_timer_set now) = Inr s
    \<and> pending s = fold (pending_op now) xs Map.empty
    \<and> (case next_timer s of
         None \<Rightarrow> pending s = Map.empty \<and> timer_expiry s = 0
       | Some t \<Rightarrow> pending s t = Some (timer_expiry s) \<and> (\<forall>u e. pending s u = Some e \<longrightarrow> timer_expiry s \<le> e))"
proof -
  obtain s where s: "timer_ops xs (new_timer_set now) = Inr s" "idle s" "pending s = fold (pending_op now) xs Map.empty"
    using timer_ops_idle [OF assms] by blast
  then show ?thesis using next_timer_least [of 0 s] by (simp add: idle_def)
qed

theorem timer_set_refines_witness:
  "\<exists>s. timer_ops [Initialize 3 1, Schedule 3 20, Initialize 7 1, Schedule 7 5, Unschedule 3] (new_timer_set 0) = Inr s
    \<and> pending s = [7 \<mapsto> 5] \<and> next_timer s = Some 7"
proof -
  let ?xs = "[Initialize 3 1, Schedule 3 20, Initialize 7 1, Schedule 7 5, Unschedule 3]"
  have "ops_allowed (\<lambda>t. None) ?xs" by (simp add: op_allowed_def owners_after_def)
  from timer_set_refines [OF this, of 0] obtain s where s: "timer_ops ?xs (new_timer_set 0) = Inr s"
    "pending s = fold (pending_op 0) ?xs Map.empty" "case next_timer s of
         None \<Rightarrow> pending s = Map.empty \<and> timer_expiry s = 0
       | Some t \<Rightarrow> pending s t = Some (timer_expiry s) \<and> (\<forall>u e. pending s u = Some e \<longrightarrow> timer_expiry s \<le> e)" by blast
  have p: "pending s = [7 \<mapsto> 5]"
    unfolding s(2) by (rule ext) (simp add: pending_op_def timestamp_sec_def)
  then have "pending s 7 = Some 5" "\<forall>t. pending s t \<noteq> None \<longrightarrow> t = 7" by auto
  then have "next_timer s = Some 7" using s(3) by (cases "next_timer s") auto
  then show ?thesis using s(1) p by blast
qed

text \<open>(C10) A round of \<^verbatim>\<open>run_timers\<close> always ends and never fails an assertion, whatever the callbacks do with the
  timers (schedule, unschedule, initialise), whenever another thread raises the stop flag and however far the
  timers are behind, provided that callbacks schedule initialised timers only; afterwards the heap is ordered,
  every timer knows its place and its expiry time, the cached expiry time is right and the chunk is empty.\<close>

theorem run_timers_total:
  assumes "callbacks_allowed E" "idle s"
  shows "\<exists>s' w'. run_timers E (s, w) = Inr (s', w') \<and> idle s'"
  by (rule run_timers_idle [OF assms])

text \<open>Callbacks that reschedule their timer, as the periodic timers of the elements do.\<close>

definition periodic :: "(timestamp \<times> bool) thread_env" where
  "periodic = \<lparr>now_steady = fst, paused = (\<lambda>_. False), stop_flag = (\<lambda>w. (snd w, w)),
     callback = (\<lambda>t s w. (if owner_router s t \<noteq> None then [Schedule t (fst w + 10)] else [], w))\<rparr>"

theorem run_timers_total_witness:
  "\<exists>s s' w'. timer_ops [Initialize 3 1, Schedule 3 20, Initialize 7 1, Schedule 7 5] (new_timer_set 0) = Inr s
    \<and> run_timers periodic (s, (7, False)) = Inr (s', w') \<and> idle s'"
proof -
  obtain s where s: "timer_ops [Initialize 3 1, Schedule 3 20, Initialize 7 1, Schedule 7 5] (new_timer_set 0) = Inr s" "idle s"
    using timer_ops_idle [of "[Initialize 3 1, Schedule 3 20, Initialize 7 1, Schedule 7 5]" 0]
    by (auto simp: op_allowed_def owners_after_def)
  have "callbacks_allowed periodic" by (simp add: callbacks_allowed_def periodic_def op_allowed_def)
  then show ?thesis using run_timers_total [OF _ s(2), of periodic "(7, False)"] s(1) by blast
qed

text \<open>(C8) Which timers a round runs.  With callbacks that touch no timer and the clock at \<open>now\<close>, a round runs
  distinct timers in the order of their expiry times, only such that are due, and all that are due unless the
  stop flag was seen; every other timer is still pending afterwards, with its expiry time if it is not due.
  This covers the first loop of at most 65 timers, the chunk that follows it, and rescheduling what is left of
  the chunk after a stop.\<close>

theorem run_timers_fires:
  assumes "idle s"
  shows "\<exists>s' xs. run_timers (noting now stop) (s, []) = Inr (s', xs) \<and> distinct xs \<and> sorted (map (expiry_s s) xs)
    \<and> set xs \<subseteq> {t \<in> dom (pending s). expiry_s s t \<le> now}
    \<and> ((\<forall>v. \<not> stop v) \<longrightarrow> set xs = {t \<in> dom (pending s). expiry_s s t \<le> now})
    \<and> dom (pending s') = dom (pending s) - set xs
    \<and> (\<forall>t. now < expiry_s s t \<longrightarrow> pending s' t = pending s t)"
  using run_timers_due [OF assms, of now stop] unfolding round_of_def by blast

theorem run_timers_fires_witness:
  "\<exists>s s' xs. timer_ops [Initialize 3 1, Schedule 3 20, Initialize 7 1, Schedule 7 5, Initialize 9 1, Schedule 9 30] (new_timer_set 0) = Inr s
    \<and> run_timers (noting 25 (\<lambda>_. False)) (s, []) = Inr (s', xs) \<and> set xs = {3, 7} \<and> pending s' 9 = Some 30"
proof -
  let ?xs = "[Initialize 3 1, Schedule 3 20, Initialize 7 1, Schedule 7 5, Initialize 9 1, Schedule 9 30]"
  obtain s where s: "timer_ops ?xs (new_timer_set 0) = Inr s" "idle s" "pending s = fold (pending_op 0) ?xs Map.empty"
    using timer_ops_idle [of ?xs 0] by (auto simp: op_allowed_def owners_after_def)
  have p: "pending s = [3 \<mapsto> 20, 7 \<mapsto> 5, 9 \<mapsto> 30]"
    unfolding s(3) by (simp add: pending_op_def timestamp_sec_def)
  have e: "expiry_s s 3 = 20" "expiry_s s 7 = 5" "expiry_s s 9 = 30" by (rule pending_expiry, simp add: p)+
  obtain s' xs where "run_timers (noting 25 (\<lambda>_. False)) (s, []) = Inr (s', xs)"
    "set xs = {t \<in> dom (pending s). expiry_s s t \<le> 25}" "\<forall>t. 25 < expiry_s s t \<longrightarrow> pending s' t = pending s t"
    using run_timers_fires [OF s(2), of 25 "\<lambda>_. False"] by blast
  then show ?thesis using s(1) p e by (intro exI [of _ s] exI [of _ s'] exI [of _ xs]) auto
qed

section \<open>Killing a router\<close>

lemma kill_timers_ok:
  "timers_ok 0 s \<Longrightarrow> i \<le> length (timer_heap s) \<Longrightarrow> \<exists>s'. kill_timers r i s = Inr s' \<and> timers_ok 0 s'
    \<and> timer_runchunk s' = timer_runchunk s
    \<and> (\<forall>t. owner_router s t \<noteq> Some r \<longrightarrow> pending s' t = pending s t \<and> owner_router s' t = owner_router s t)
    \<and> ((\<forall>x \<in> set (timer_heap s). owner_router s (snd x) = Some r) \<longrightarrow> length (timer_heap s') + i = length (timer_heap s))"
proof (induction i arbitrary: s)
  case (Suc i)
  define t where "t = snd (timer_heap s ! i)"
  have i: "i < length (timer_heap s)" using Suc.prems(2) by simp
  have heap: "heap_ok (timer_heap s) (schedpos1 s) (expiry_s s)" using Suc.prems(1) by (simp add: timers_ok_def)
  then have "schedpos1 s t = int i + 1" using heap_ok_at(2) [OF heap i] t_def by simp
  then obtain r' where r': "owner_router s t = Some r'" using Suc.prems(1) by (fastforce simp: timers_ok_def)
  have mem: "timer_heap s ! i \<in> set (timer_heap s)" using i by simp
  show ?case
  proof (cases "r' = r")
    case False
    then have "kill_timers r (Suc i) s = kill_timers r i s" using i r' t_def by (simp add: Let_def)
    moreover have "\<not> (\<forall>x \<in> set (timer_heap s). owner_router s (snd x) = Some r)" using mem r' False t_def by (intro notI) (drule (1) bspec, simp)
    ultimately show ?thesis using Suc.IH [OF Suc.prems(1), of] Suc.prems(2) by auto
  next
    case True
    obtain h pos where k: "heap_remove s i = Inr (s\<lparr>timer_heap := h, schedpos1 := pos\<rparr>)"
      "timers_ok 0 (s\<lparr>timer_heap := h, schedpos1 := pos(t := 0)\<rparr>)" "mset (timer_heap s) = add_mset (timer_heap s ! i) (mset h)"
      "\<And>u. u \<noteq> t \<Longrightarrow> same_place (schedpos1 s u) (pos u)" by (rule heap_remove_ok [OF Suc.prems(1) i t_def]) (rule that)
    let ?s = "s\<lparr>timer_heap := h, owner_router := (owner_router s)(t := None), schedpos1 := pos(t := 0)\<rparr>"
    have len: "length (timer_heap s) = Suc (length h)" using arg_cong [OF k(3), of size] by simp
    have ok: "timers_ok 0 ?s" using k(2) by (simp add: timers_ok_def)
    obtain s' where s': "kill_timers r i ?s = Inr s'" "timers_ok 0 s'" "timer_runchunk s' = timer_runchunk s"
      "\<forall>u. owner_router ?s u \<noteq> Some r \<longrightarrow> pending s' u = pending ?s u \<and> owner_router s' u = owner_router ?s u"
      "(\<forall>x \<in> set h. owner_router ?s (snd x) = Some r) \<longrightarrow> length (timer_heap s') + i = length h"
      using Suc.IH [OF ok] Suc.prems(2) len by auto
    have "kill_timers r (Suc i) s = Inr s'" using i r' True k(1) s'(1) t_def by (simp add: Let_def)
    moreover have "pending s' u = pending s u \<and> owner_router s' u = owner_router s u" if "owner_router s u \<noteq> Some r" for u
    proof -
      have "u \<noteq> t" using that r' True by auto
      then show ?thesis using s'(4) that k(4) [of u] by (auto simp: pending_def same_place_def)
    qed
    moreover have "length (timer_heap s') + Suc i = length (timer_heap s)"
      if all: "\<forall>x \<in> set (timer_heap s). owner_router s (snd x) = Some r"
    proof -
      have sub: "set h \<subseteq> set (timer_heap s)" using mset_eq_setD [of "timer_heap s" "timer_heap s ! i # h"] k(3) by auto
      have "snd x \<noteq> t" if "x \<in> set h" for x
        using that k(2) by (auto simp: timers_ok_def heap_ok_def)
      then show ?thesis using all sub s'(5) len by auto
    qed
    ultimately show ?thesis using s'(2,3) by blast
  qed
qed simp

text \<open>
  \<^verbatim>\<open>TimerSet::kill_router\<close> leaves the timers of other routers alone, and removes all timers when they
  are all the router's.
\<close>

theorem kill_router_own_timers:
  assumes "idle s"
  shows "\<exists>s'. kill_router r s = Inr s' \<and> idle s'
    \<and> (\<forall>t. owner_router s t \<noteq> Some r \<longrightarrow> pending s' t = pending s t \<and> owner_router s' t = owner_router s t)
    \<and> ((\<forall>t. t \<in> dom (pending s) \<longrightarrow> owner_router s t = Some r) \<longrightarrow> pending s' = Map.empty)"
proof -
  obtain s' where s': "kill_timers r (length (timer_heap s)) s = Inr s'" "timers_ok 0 s'" "timer_runchunk s' = []"
    "\<forall>t. owner_router s t \<noteq> Some r \<longrightarrow> pending s' t = pending s t \<and> owner_router s' t = owner_router s t"
    "(\<forall>x \<in> set (timer_heap s). owner_router s (snd x) = Some r) \<longrightarrow> timer_heap s' = []"
    using kill_timers_ok [of s "length (timer_heap s)" r] assms by (auto simp: idle_def)
  let ?s = "set_timer_expiry s'"
  have ok: "idle ?s" using s'(2,3) by (simp add: idle_def timers_ok_def)
  moreover have "kill_router r s = Inr ?s" using s'(1) assms by (simp add: kill_router_def idle_def)
  moreover have same: "pending ?s = pending s'" by (intro ext) (simp add: pending_def)
  moreover have "pending s' = Map.empty" if own: "\<forall>t. t \<in> dom (pending s) \<longrightarrow> owner_router s t = Some r"
  proof -
    have "owner_router s (snd x) = Some r" if "x \<in> set (timer_heap s)" for x
      using that own assms by (auto simp: idle_def timers_ok_def heap_ok_def pending_def dom_def)
    then have "timer_heap ?s = []" using s'(5) by simp
    then show ?thesis using next_timer_least [of 0 ?s] ok same by (simp add: next_timer_def idle_def)
  qed
  ultimately show ?thesis using s'(4) by auto
qed

text \<open>Two timers of router 1, numbers 1 and 4, among timers of router 2, of which number 8 expires early.\<close>

definition missed_timers :: "timer_op list" where
  "missed_timers =
     [Initialize 0 2, Initialize 1 1, Initialize 2 2, Initialize 3 2, Initialize 4 1,
      Initialize 5 2, Initialize 6 2, Initialize 7 2, Initialize 8 2,
      Schedule 0 1, Schedule 1 10, Schedule 2 2, Schedule 3 20, Schedule 4 11,
      Schedule 5 12, Schedule 6 13, Schedule 7 14, Schedule 8 3]"

text \<open>\<^verbatim>\<open>kill_router\<close> can leave a timer of the killed router scheduled.  It walks the heap downwards and removes
  the router's timers as it meets them; when 4 is removed, the last element, 8, takes its place and moves up,
  so that 1 moves down to a place the walk has passed.  Timer 1 is still pending, with its owner.\<close>

theorem kill_router_misses_timer:
  "bind_res (timer_ops missed_timers (new_timer_set 0)) (\<lambda>s.
     bind_res (kill_router 1 s) (\<lambda>s'. Inr (map (pending s) [1, 4, 8], map (pending s') [1, 4, 8], owner_router s' 1)))
   = Inr ([Some 10, Some 11, Some 3], [Some 10, None, Some 3], Some 1)"
  by code_simp

end
