(* ===== verification/ICMPErrors.thy ===== *)
theory ICMPErrors
  imports Fragmenter
begin

text \<open>
  ICMPError (\<^verbatim>\<open>elements/icmp/icmperror.cc\<close>): the error message that answers a packet, with the
  conditions of RFC 1812 under which there is none, the reversed source route, and the quotation of
  the packet.  The arguments of \<^verbatim>\<open>configure\<close> come parsed; the static counter \<^verbatim>\<open>id\<close> is an
  argument and a result.  The timestamp annotation is left out.

  Shown: a message that is sent is well formed, goes to the sender of the packet and quotes it, within
  the MTU; what is never answered; and that a small MTU makes the element write outside its packet.
\<close>

definition ICMP_UNREACH :: int where "ICMP_UNREACH = 3"
definition ICMP_SOURCEQUENCH :: int where "ICMP_SOURCEQUENCH = 4"
definition ICMP_REDIRECT :: int where "ICMP_REDIRECT = 5"
definition ICMP_TIMXCEED :: int where "ICMP_TIMXCEED = 11"
definition ICMP_PARAMPROB :: int where "ICMP_PARAMPROB = 12"
definition ICMP_PARAMPROB_ERRATPTR :: int where "ICMP_PARAMPROB_ERRATPTR = 0"
definition ICMP_UNREACH_NEEDFRAG :: int where "ICMP_UNREACH_NEEDFRAG = 4"
definition IP_OFFMASK :: u16 where "IP_OFFMASK = 0x1FFF"

lemmas icmp_constants = ICMP_UNREACH_def ICMP_SOURCEQUENCH_def ICMP_REDIRECT_def ICMP_TIMXCEED_def
  ICMP_PARAMPROB_def ICMP_PARAMPROB_ERRATPTR_def ICMP_UNREACH_NEEDFRAG_def

record ICMPError =
  ie_src_ip :: u32
  ie_type :: int
  ie_code :: int
  ie_bad_addrs :: "u32 list"
  ie_mtu :: nat
  ie_pmtu :: u32
  ie_use_fix_anno :: bool

definition is_error_type :: "int \<Rightarrow> bool" where
  "is_error_type type \<longleftrightarrow> type = ICMP_UNREACH \<or> type = ICMP_SOURCEQUENCH
     \<or> type = ICMP_REDIRECT \<or> type = ICMP_TIMXCEED \<or> type = ICMP_PARAMPROB"

text \<open>The arguments: SRC, TYPE, what the name database makes of CODE, BADADDRS, MTU, PMTU, SET_FIX_ANNO.\<close>

definition ICMPError_configure ::
  "(u32 \<times> int \<times> int option \<times> u32 list \<times> nat option \<times> u32 option \<times> bool option) option \<Rightarrow> ICMPError \<Rightarrow> int \<times> ICMPError" where
  "ICMPError_configure conf s = (case conf of
       None \<Rightarrow> (- 1, s)
     | Some (src_ip, type, code, bad_addrs, mtu, pmtu, use_fix_anno) \<Rightarrow>
         if type < 0 \<or> type > 255 then (error_result, s)
         else if \<not> is_error_type type then (error_result, s)
         else (case code of
             None \<Rightarrow> (error_result, s)
           | Some c \<Rightarrow>
               if c < 0 \<or> c > 255 then (error_result, s)
               else (0, s\<lparr>ie_src_ip := src_ip, ie_type := type, ie_code := c, ie_bad_addrs := bad_addrs,
                      ie_mtu := (case mtu of Some m \<Rightarrow> m | None \<Rightarrow> 576),
                      ie_pmtu := (case pmtu of Some m \<Rightarrow> m | None \<Rightarrow> 0),
                      ie_use_fix_anno := (case use_fix_anno of Some b \<Rightarrow> b | None \<Rightarrow> True)\<rparr>)))"

text \<open>The write handlers, with the parsed value.\<close>

definition ICMPError_write_handler :: "string \<Rightarrow> u32 \<Rightarrow> ICMPError \<Rightarrow> ICMPError" where
  "ICMPError_write_handler name v s =
     (if name = ''src'' then s\<lparr>ie_src_ip := v\<rparr>
      else if name = ''mtu'' then s\<lparr>ie_mtu := unat v\<rparr>
      else if name = ''pmtu'' then s\<lparr>ie_pmtu := v\<rparr>
      else s)"

section \<open>Addresses and options\<close>

definition ie_unicast :: "ICMPError \<Rightarrow> u32 \<Rightarrow> bool" where
  "ie_unicast s a = (let ha = ntohl a in
     if ha = 0xFFFFFFFF then False
     else if ha AND 0xF0000000 = 0xE0000000 then False
     else a \<notin> set (ie_bad_addrs s))"

definition ie_valid_source :: "ICMPError \<Rightarrow> u32 \<Rightarrow> bool" where
  "ie_valid_source s a = (let ha = ntohl a; net = drop_bit 24 ha AND 0xFF in
     if \<not> ie_unicast s a then False
     else if net = 0 then False
     else if net = 127 then False
     else net AND 0xF0 \<noteq> 0xF0)"

text \<open>\<^verbatim>\<open>valid_source_route\<close>, from option \<open>oi\<close> of the header at \<open>n\<close> on: the place of the source route.\<close>

function source_route_from :: "bytes \<Rightarrow> nat \<Rightarrow> nat \<Rightarrow> nat \<Rightarrow> nat option res" where
  "source_route_from b n hlen oi =
     (if hlen \<le> oi then Inr None
      else if length b \<le> n + oi then Inl OutOfBounds
      else if b ! (n + oi) = IPOPT_NOP then source_route_from b n hlen (oi + 1)
      else if b ! (n + oi) = IPOPT_EOL then Inr None
      else if length b \<le> n + oi + 1 then Inl OutOfBounds
      else if b ! (n + oi + 1) < 2 \<or> hlen < oi + unat (b ! (n + oi + 1)) then Inr None
      else if b ! (n + oi) = IPOPT_LSRR \<or> b ! (n + oi) = IPOPT_SSRR
      then (if length b \<le> n + oi + 2 then Inl OutOfBounds
            else if 4 \<le> b ! (n + oi + 2) \<and> b ! (n + oi + 2) mod 4 = 0
                 \<and> unat (b ! (n + oi + 2)) \<le> unat (b ! (n + oi + 1)) + 1
            then Inr (Some oi)
            else source_route_from b n hlen (oi + unat (b ! (n + oi + 1))))
      else source_route_from b n hlen (oi + unat (b ! (n + oi + 1))))"
  by pat_completeness auto
termination
  by (relation "measure (\<lambda>(b, n, hlen, oi). hlen - oi)") (auto simp: word_less_nat_alt)

declare source_route_from.simps [simp del]

definition valid_source_route :: "bytes \<Rightarrow> nat \<Rightarrow> nat option res" where
  "valid_source_route b n = source_route_from b n (4 * unat (ip_hl b n)) 20"

section \<open>When there is no answer\<close>

definition is_icmp_error :: "packet \<Rightarrow> bytes \<Rightarrow> nat \<Rightarrow> bool res" where
  "is_icmp_error p b n =
     (if ip_p b n = IP_PROTO_ICMP
      then if pk_length p < 4 * unat (ip_hl b n) + 4 then Inr True
        else (case pk_h p of
            None \<Rightarrow> Inl NullDeref
          | Some t \<Rightarrow> guard (t < length b) OutOfBounds (Inr (is_error_type (int (unat (b ! t))))))
      else Inr False)"

definition IP_FIRSTFRAG :: "bytes \<Rightarrow> nat \<Rightarrow> bool" where
  "IP_FIRSTFRAG b n \<longleftrightarrow> ip_off b n AND htons IP_OFFMASK = 0"

definition may_answer :: "ICMPError \<Rightarrow> packet \<Rightarrow> bytes \<Rightarrow> nat \<Rightarrow> bool" where
  "may_answer s p b n \<longleftrightarrow> ie_unicast s (ip_dst b n) \<and> pk_type p \<noteq> BROADCAST \<and> pk_type p \<noteq> MULTICAST
     \<and> ie_valid_source s (ip_src b n) \<and> IP_FIRSTFRAG b n"

text \<open>The source route to reverse: \<open>None\<close> when there is to be no answer at all.\<close>

definition choose_route :: "ICMPError \<Rightarrow> packet \<Rightarrow> bytes \<Rightarrow> nat \<Rightarrow> nat option \<Rightarrow> nat option option" where
  "choose_route s p b n route = (case route of
       None \<Rightarrow> Some None
     | Some oi \<Rightarrow>
         if ie_type s = ICMP_REDIRECT then None
         else if ie_type s = ICMP_PARAMPROB \<and> ie_code s = ICMP_PARAMPROB_ERRATPTR
           \<and> oi \<le> unat (pk_paramprob p) \<and> unat (pk_paramprob p) < oi + unat (b ! (n + oi + 1))
         then Some None else Some (Some oi))"

section \<open>The message\<close>

definition icmp_ip_stores :: "ICMPError \<Rightarrow> int \<Rightarrow> u32 \<Rightarrow> bytes \<Rightarrow> bytes" where
  "icmp_ip_stores s ident dst d =
     (let d1 = set_ip_v d 0 4;
          d2 = put8 d1 1 0;
          d3 = set_ip_id d2 0 (htons (of_int ident));
          d4 = set_ip_off d3 0 0;
          d5 = set_ip_ttl d4 0 200;
          d6 = set_ip_p d5 0 IP_PROTO_ICMP;
          d7 = set_ip_sum d6 0 0;
          d8 = set_ip_src d7 0 (ie_src_ip s)
      in set_ip_dst d8 0 dst)"

text \<open>The loop that copies the addresses of the route at \<open>sr\<close> backwards; \<open>oo\<close> runs down in the packet, \<open>o'\<close> up in the message.\<close>

function copy_route :: "bytes \<Rightarrow> int \<Rightarrow> int \<Rightarrow> nat \<Rightarrow> bytes \<Rightarrow> bytes" where
  "copy_route b sr oo o' d =
     (if sr + 3 \<le> oo then copy_route b sr (oo - 4) (o' + 4) (put_bytes d o' (take 4 (drop (nat oo) b))) else d)"
  by auto
termination
  by (relation "measure (\<lambda>(b, sr, oo, o', d). nat (oo - sr))") auto

declare copy_route.simps [simp del]

definition reverse_route :: "bytes \<Rightarrow> nat \<Rightarrow> bytes \<Rightarrow> bytes" where
  "reverse_route b sr d =
     (let ptr = unat (b ! (sr + 2)); olen = ptr - 1;
          d1 = put8 (put8 (put8 (put8 d 20 (b ! sr)) 21 (of_nat olen)) 22 4) (20 + olen) IPOPT_EOL
      in copy_route b (int sr) (int sr + int ptr - 5) 23 d1)"

definition route_header_words :: "bytes \<Rightarrow> nat \<Rightarrow> nat option \<Rightarrow> nat" where
  "route_header_words b n route = (case route of
       None \<Rightarrow> 5
     | Some oi \<Rightarrow> (20 + (unat (b ! (n + oi + 2)) - 1) + 3) div 4)"

text \<open>What the loop reads of the packet is in its buffer.\<close>

definition route_in_buffer :: "bytes \<Rightarrow> nat \<Rightarrow> nat option \<Rightarrow> bool" where
  "route_in_buffer b n route = (case route of
       None \<Rightarrow> True
     | Some oi \<Rightarrow> n + oi + unat (b ! (n + oi + 2)) - 1 \<le> length b)"

definition icmp_stores :: "ICMPError \<Rightarrow> packet \<Rightarrow> nat \<Rightarrow> bytes \<Rightarrow> bytes" where
  "icmp_stores s p h d =
     (let d1 = put8 d h (of_int (ie_type s));
          d2 = put8 d1 (h + 1) (of_int (ie_code s));
          d3 = put16 d2 (h + 2) 0;
          d4 = put32 d3 (h + 4) 0;
          d5 = (if ie_type s = ICMP_PARAMPROB \<and> ie_code s = ICMP_PARAMPROB_ERRATPTR
                then put8 d4 (h + 4) (pk_paramprob p) else d4);
          d6 = (if ie_type s = ICMP_REDIRECT then put32 d5 (h + 4) (pk_dst_ip p) else d5)
      in if ie_type s = ICMP_UNREACH \<and> ie_code s = ICMP_UNREACH_NEEDFRAG
         then put16 d6 (h + 6) (htons (ucast (ie_pmtu s))) else d6)"

text \<open>Quoting the packet behind the headers, and the length and checksum fields.\<close>

definition quote_packet :: "bytes \<Rightarrow> nat \<Rightarrow> nat \<Rightarrow> bytes \<Rightarrow> bytes" where
  "quote_packet b n h d3 =
     (let nlen = length b - n;
          xlen0 = length d3 - (h + 8);
          xlen = (if xlen0 > nlen then nlen else xlen0);
          d4 = put_bytes (if xlen0 > nlen then take (length d3 - (xlen0 - nlen)) d3 else d3) (h + 8) (take xlen (drop n b));
          d5 = put16 d4 (h + 2) (click_in_cksum (take (8 + xlen) (drop h d4)));
          d6 = set_ip_len d5 0 (htons (of_nat (length d5)))
      in set_ip_sum d6 0 (click_in_cksum (take h d6)))"

text \<open>The data of the message, from fresh memory \<open>d\<close> of the size of the MTU.\<close>

definition write_route :: "bytes \<Rightarrow> nat \<Rightarrow> nat option \<Rightarrow> bytes \<Rightarrow> bytes" where
  "write_route b n route d = (case route of None \<Rightarrow> d | Some oi \<Rightarrow> reverse_route b (n + oi) d)"

definition icmp_message :: "ICMPError \<Rightarrow> int \<Rightarrow> packet \<Rightarrow> nat \<Rightarrow> nat option \<Rightarrow> bytes \<Rightarrow> bytes res" where
  "icmp_message s ident p n route d =
     (let b = pk_buffer p; hl = route_header_words b n route; h = 4 * hl in
      guard (h + 8 \<le> length d \<and> route_in_buffer b n route) OutOfBounds
        (let d1 = icmp_ip_stores s ident (ip_src b n) d;
             d2 = write_route b n route d1;
             d3 = icmp_stores s p h (set_ip_hl d2 0 (of_nat hl))
         in Inr (quote_packet b n h d3)))"

definition ICMPError_simple_action :: "environ \<Rightarrow> ICMPError \<Rightarrow> int \<Rightarrow> packet \<Rightarrow> (int \<times> simple_result) res" where
  "ICMPError_simple_action env s ident p =
     (case pk_nh p of
        None \<Rightarrow> Inr (ident, None, [Kill p])
      | Some n \<Rightarrow>
          let b = pk_buffer p in
          guard (n + 20 \<le> length b) OutOfBounds
            (bind_res (is_icmp_error p b n) (\<lambda>err.
              if err \<or> \<not> may_answer s p b n then Inr (ident, None, [Kill p])
              else bind_res (valid_source_route b n) (\<lambda>route.
                case choose_route s p b n route of
                  None \<Rightarrow> Inr (ident, None, [Kill p])
                | Some route' \<Rightarrow>
                    (case packet_make env 0 default_headroom None (ie_mtu s) 0 of
                       None \<Rightarrow> Inr (ident, None, [Kill p])
                     | Some q \<Rightarrow>
                         guard (int32_range (ident + 1)) SignedOverflow
                           (bind_res (icmp_message s ident p n route' (pk_data q)) (\<lambda>d.
                              let q1 = set_network_header 0 (4 * route_header_words b n route')
                                         (q\<lparr>pk_data := d, pk_tailroom := pk_tailroom q + (pk_length q - length d)\<rparr>);
                                  q2 = set_dst_ip_anno (ip_dst d 0) q1;
                                  q3 = (if ie_use_fix_anno s then q2\<lparr>pk_fix_ip_src := 1\<rparr> else q2)
                              in Inr (ident + 1, Some q3, [Kill p]))))))))"

section \<open>Copying and reversing\<close>

text \<open>The addresses of the route with \<open>k\<close> of them behind the three bytes at \<open>sr\<close>, in order.\<close>

definition route_addrs :: "bytes \<Rightarrow> nat \<Rightarrow> nat \<Rightarrow> bytes list" where
  "route_addrs b sr k = map (\<lambda>i. take 4 (drop (sr + 3 + 4 * i) b)) [0..<k]"

definition route_back :: "bytes \<Rightarrow> nat \<Rightarrow> nat \<Rightarrow> bytes" where
  "route_back b sr k = concat (rev (route_addrs b sr k))"

lemma route_back_simps [simp]:
  "route_back b sr 0 = []" "route_back b sr (Suc k) = take 4 (drop (sr + 3 + 4 * k) b) @ route_back b sr k"
  by (simp_all add: route_back_def route_addrs_def)

lemma length_route_addrs:
  "sr + 3 + 4 * k \<le> length b \<Longrightarrow> length (route_back b sr k) = 4 * k"
  by (induction k) simp_all

lemma copy_route_addrs:
  assumes "sr + 3 + 4 * k \<le> length b" "o' + 4 * k \<le> length d"
  shows "copy_route b (int sr) (int sr + 4 * int k - 1) o' d = put_bytes d o' (route_back b sr k)"
  using assms
proof (induction k arbitrary: o' d)
  case 0
  then show ?case by (subst copy_route.simps) simp
next
  case (Suc k)
  let ?x = "take 4 (drop (sr + 3 + 4 * k) b)"
  have len: "length ?x = 4" using Suc.prems(1) by simp
  have oo: "int sr + 4 * int (Suc k) - 1 - 4 = int sr + 4 * int k - 1" "nat (int sr + 4 * int (Suc k) - 1) = sr + 3 + 4 * k"
    "int sr + 3 \<le> int sr + 4 * int (Suc k) - 1" by auto
  have "copy_route b (int sr) (int sr + 4 * int (Suc k) - 1) o' d = copy_route b (int sr) (int sr + 4 * int k - 1) (o' + 4) (put_bytes d o' ?x)"
    by (subst copy_route.simps) (simp only: oo if_True)
  also have "\<dots> = put_bytes (put_bytes d o' ?x) (o' + 4) (route_back b sr k)"
    using Suc len by (intro Suc.IH) simp_all
  also have "\<dots> = put_bytes d o' (route_back b sr (Suc k))"
    using put_bytes_append [of o' ?x d "route_back b sr k"] len Suc.prems(2) by simp
  finally show ?case .
qed

text \<open>The option written: type, length and pointer, the addresses in reverse, and the end of the options.\<close>

definition route_option :: "bytes \<Rightarrow> nat \<Rightarrow> bytes" where
  "route_option b sr = (let ptr = unat (b ! (sr + 2)) in
     [b ! sr, of_nat (ptr - 1), 4] @ route_back b sr (ptr div 4 - 1) @ [IPOPT_EOL])"

lemma reverse_route_bytes:
  assumes ptr: "unat (b ! (sr + 2)) = 4 * Suc k" and b: "sr + 3 + 4 * k \<le> length b" and d: "24 + 4 * k \<le> length d"
  shows "reverse_route b sr d = put_bytes d 20 (route_option b sr)" "length (route_option b sr) = 4 * Suc k"
proof -
  let ?a = "route_back b sr k" and ?d = "put8 (put8 (put8 (put8 d 20 (b ! sr)) 21 (of_nat (3 + 4 * k))) 22 4) (23 + 4 * k) IPOPT_EOL"
  have la: "length ?a = 4 * k" by (rule length_route_addrs [OF b])
  have opt: "route_option b sr = [b ! sr, of_nat (3 + 4 * k), 4] @ ?a @ [IPOPT_EOL]"
    by (simp add: route_option_def ptr)
  then show "length (route_option b sr) = 4 * Suc k" by (simp add: la)
  have "reverse_route b sr d = copy_route b (int sr) (int sr + 4 * int k - 1) 23 ?d"
    by (simp add: reverse_route_def ptr algebra_simps)
  also have "\<dots> = put_bytes ?d 23 ?a" by (rule copy_route_addrs [OF b]) (use d in simp)
  also have "\<dots> = put_bytes d 20 (route_option b sr)"
  proof (rule nth_equalityI)
    show "length (put_bytes ?d 23 ?a) = length (put_bytes d 20 (route_option b sr))" using d la by (simp add: opt)
    fix i assume "i < length (put_bytes ?d 23 ?a)"
    then have i: "i < length d" using d la by simp
    consider "i < 20" | "i = 20" | "i = 21" | "i = 22" | "23 \<le> i" "i < 23 + 4 * k" | "i = 23 + 4 * k" | "23 + 4 * k < i"
      by linarith
    then show "put_bytes ?d 23 ?a ! i = put_bytes d 20 (route_option b sr) ! i"
      using i d la by cases (auto simp: put_bytes_def opt nth_append put8_def nth_list_update min_absorb2 nth_Cons')
  qed
  finally show "reverse_route b sr d = put_bytes d 20 (route_option b sr)" .
qed

lemma ptr_words: "4 \<le> x \<Longrightarrow> x mod 4 = 0 \<Longrightarrow> \<exists>k. unat x = 4 * Suc k" for x :: u8
proof -
  assume a: "4 \<le> x" "x mod 4 = 0"
  have "unat (x mod 4) = 0" using a(2) by simp
  then have "unat x mod 4 = 0" by (simp only: unat_mod_distrib) simp
  moreover have "4 \<le> unat x" using a(1) by (simp add: word_le_nat_alt)
  ultimately show ?thesis by (intro exI [of _ "unat x div 4 - 1"]) auto
qed

text \<open>An option that is a source route as \<^verbatim>\<open>valid_source_route\<close> wants it.\<close>

definition is_route :: "bytes \<Rightarrow> nat \<Rightarrow> nat \<Rightarrow> nat \<Rightarrow> bool" where
  "is_route b n hlen sr \<longleftrightarrow> n + sr + 2 < length b \<and> sr + unat (b ! (n + sr + 1)) \<le> hlen
     \<and> (\<exists>k. unat (b ! (n + sr + 2)) = 4 * Suc k) \<and> unat (b ! (n + sr + 2)) \<le> unat (b ! (n + sr + 1)) + 1
     \<and> (b ! (n + sr) = IPOPT_LSRR \<or> b ! (n + sr) = IPOPT_SSRR)"

lemma source_route_from_found:
  "source_route_from b n hlen oi = Inr (Some sr) \<Longrightarrow> oi \<le> sr \<and> is_route b n hlen sr"
proof (induction "hlen - oi" arbitrary: oi rule: less_induct)
  case less
  let ?xlen = "unat (b ! (n + oi + 1))"
  note f = less.prems [unfolded source_route_from.simps [of b n hlen oi]]
  have oi: "oi < hlen" "n + oi < length b" using f by (simp_all split: if_splits)
  show ?case
  proof (cases "b ! (n + oi) = IPOPT_NOP")
    case True
    then have "source_route_from b n hlen (oi + 1) = Inr (Some sr)" using f oi by simp
    moreover have "hlen - (oi + 1) < hlen - oi" using oi by linarith
    ultimately show ?thesis using less.hyps [of "oi + 1"] by auto
  next
    case False
    then have x: "n + oi + 1 < length b" "\<not> b ! (n + oi + 1) < 2" "oi + ?xlen \<le> hlen" using f oi by (simp_all split: if_splits)
    have "2 \<le> ?xlen" using x(2) by (simp add: word_less_nat_alt)
    have skip: ?thesis if "source_route_from b n hlen (oi + ?xlen) = Inr (Some sr)"
    proof -
      have "hlen - (oi + ?xlen) < hlen - oi" using \<open>2 \<le> ?xlen\<close> oi by linarith
      then show ?thesis using less.hyps [OF _ that] by simp
    qed
    show ?thesis
    proof (cases "(b ! (n + oi) = IPOPT_LSRR \<or> b ! (n + oi) = IPOPT_SSRR)
        \<and> 4 \<le> b ! (n + oi + 2) \<and> b ! (n + oi + 2) mod 4 = 0 \<and> unat (b ! (n + oi + 2)) \<le> ?xlen + 1")
      case True
      then have "sr = oi" "n + oi + 2 < length b" using f oi False x by (auto split: if_splits)
      then show ?thesis using True x(3) ptr_words by (simp add: is_route_def)
    next
      case other: False
      then have "source_route_from b n hlen (oi + ?xlen) = Inr (Some sr)" using f oi False x by (auto split: if_splits)
      then show ?thesis by (rule skip)
    qed
  qed
qed

lemma source_route_from_total:
  "n + hlen < length b \<Longrightarrow> \<exists>r. source_route_from b n hlen oi = Inr r"
proof (induction "hlen - oi" arbitrary: oi rule: less_induct)
  case less
  let ?xlen = "unat (b ! (n + oi + 1))"
  show ?case
  proof (cases "hlen \<le> oi")
    case True
    then show ?thesis by (subst source_route_from.simps) simp
  next
    case False
    then have in_buf: "n + oi < length b" "n + oi + 1 < length b" using less.prems by auto
    show ?thesis
    proof (cases "b ! (n + oi) = IPOPT_NOP")
      case True
      then show ?thesis using less.hyps [of "oi + 1"] less.prems False in_buf by (subst source_route_from.simps) simp
    next
      case nop: False
      show ?thesis
      proof (cases "b ! (n + oi) = IPOPT_EOL \<or> b ! (n + oi + 1) < 2 \<or> hlen < oi + ?xlen")
        case True
        then show ?thesis using False in_buf nop by (subst source_route_from.simps) auto
      next
        case x: False
        then have "2 \<le> ?xlen" by (simp add: word_less_nat_alt)
        then have "n + oi + 2 < length b" "\<exists>r. source_route_from b n hlen (oi + ?xlen) = Inr r"
          using x less False by auto
        then show ?thesis using False in_buf nop x by (subst source_route_from.simps) auto
      qed
    qed
  qed
qed

section \<open>The message is well formed\<close>

lemma length_icmp_stores [simp]: "length (icmp_stores s p h d) = length d" "length (icmp_ip_stores s ident dst d) = length d"
  by (simp_all add: icmp_stores_def icmp_ip_stores_def set_ip_v_def Let_def)

lemma take_icmp_stores: "take h (icmp_stores s p h d) = take h d"
  by (simp add: icmp_stores_def Let_def)

lemma icmp_stores_get:
  assumes "h + 8 \<le> length d"
  shows "icmp_stores s p h d ! h = of_int (ie_type s)" "icmp_stores s p h d ! (h + 1) = of_int (ie_code s)"
    "get16 (icmp_stores s p h d) (h + 2) = 0"
proof -
  have "get8 (icmp_stores s p h d) h = of_int (ie_type s)" "get8 (icmp_stores s p h d) (h + 1) = of_int (ie_code s)"
    using assms by (simp_all add: icmp_stores_def Let_def)
  then show "icmp_stores s p h d ! h = of_int (ie_type s)" "icmp_stores s p h d ! (h + 1) = of_int (ie_code s)"
    by (simp_all add: get8_def)
  show "get16 (icmp_stores s p h d) (h + 2) = 0" using assms by (simp add: icmp_stores_def Let_def)
qed

lemma icmp_ip_stores_get:
  assumes "20 \<le> length d"
  shows "ip_v (icmp_ip_stores s ident dst d) 0 = 4" "ip_sum (icmp_ip_stores s ident dst d) 0 = 0"
    "ip_src (icmp_ip_stores s ident dst d) 0 = ie_src_ip s" "ip_dst (icmp_ip_stores s ident dst d) 0 = dst"
    "ip_p (icmp_ip_stores s ident dst d) 0 = IP_PROTO_ICMP" "ip_off (icmp_ip_stores s ident dst d) 0 = 0"
    "ip_id (icmp_ip_stores s ident dst d) 0 = htons (of_int ident)"
  using assms set_ip_vhl_get(3) [OF assms] by (simp_all add: icmp_ip_stores_def Let_def)

text \<open>The last stores: the ICMP checksum, the length and the header checksum.\<close>

definition seal :: "nat \<Rightarrow> bytes \<Rightarrow> bytes" where
  "seal h d = (let d6 = set_ip_len (put16 d (h + 2) (click_in_cksum (drop h d))) 0 (htons (of_nat (length d)))
     in set_ip_sum d6 0 (click_in_cksum (take h d6)))"

lemma length_seal [simp]: "length (seal h d) = length d"
  by (simp add: seal_def Let_def)

lemma seal_get:
  assumes "20 \<le> h" "h + 8 \<le> length d"
  shows "get8 (seal h d) 0 = get8 d 0" "get8 (seal h d) 9 = get8 d 9" "get16 (seal h d) 6 = get16 d 6"
    "get32 (seal h d) 12 = get32 d 12" "get32 (seal h d) 16 = get32 d 16"
    "drop 20 (take h (seal h d)) = drop 20 (take h d)" "drop (h + 8) (seal h d) = drop (h + 8) d"
    "seal h d ! h = d ! h" "seal h d ! (h + 1) = d ! (h + 1)"
proof -
  show "get8 (seal h d) 0 = get8 d 0" "get8 (seal h d) 9 = get8 d 9" "get16 (seal h d) 6 = get16 d 6"
    "get32 (seal h d) 12 = get32 d 12" "get32 (seal h d) 16 = get32 d 16"
    "drop 20 (take h (seal h d)) = drop 20 (take h d)" "drop (h + 8) (seal h d) = drop (h + 8) d"
    using assms by (simp_all add: seal_def Let_def)
  show "seal h d ! h = d ! h" "seal h d ! (h + 1) = d ! (h + 1)"
    using assms by (simp_all add: seal_def Let_def put16_def nth_list_update)
qed

lemma seal_sums:
  assumes h: "20 \<le> h" "h + 8 \<le> length d" and len: "length d \<le> 65535" and zero: "get16 d 10 = 0" "get16 d (h + 2) = 0"
  shows "unat (ntohs (ip_len (seal h d) 0)) = length d" "click_in_cksum (take h (seal h d)) = 0" "click_in_cksum (drop h (seal h d)) = 0"
proof -
  define d6 where "d6 = set_ip_len (put16 d (h + 2) (click_in_cksum (drop h d))) 0 (htons (of_nat (length d)))"
  have seal: "seal h d = set_ip_sum d6 0 (click_in_cksum (take h d6))" by (simp add: seal_def d6_def Let_def)
  have len6: "length d6 = length d" by (simp add: d6_def)
  have "unat (of_nat (length d) :: u16) = length d" using len by (simp only: unat_of_nat) (simp add: take_bit_eq_mod)
  then show "unat (ntohs (ip_len (seal h d) 0)) = length d" using h by (simp add: seal d6_def)
  have "take h (seal h d) = put16 (take h d6) 10 (click_in_cksum (take h d6))" using h by (simp add: seal len6)
  moreover have "get16 (take h d6) 10 = 0" using h zero(1) by (simp add: d6_def)
  ultimately show "click_in_cksum (take h (seal h d)) = 0"
    using click_in_cksum_verifies [of 10 "take h d6"] h len by (simp add: len6)
  have "drop h (seal h d) = put16 (drop h d) 2 (click_in_cksum (drop h d))"
    using h by (simp add: seal d6_def put16_def drop_update_swap)
  then show "click_in_cksum (drop h (seal h d)) = 0"
    using click_in_cksum_verifies [of 2 "drop h d"] h len zero(2) by simp
qed

text \<open>
  The message for a header of \<open>hl\<close> words: \<open>d2\<close> is the memory after the route was written.
\<close>

lemma finish_message:
  fixes d2 :: bytes and p :: packet and quote :: bytes and s :: ICMPError
  assumes h: "h = 4 * hl" "5 \<le> hl" "hl \<le> 15" and len: "h + 8 + length quote \<le> length d2" "h + 8 + length quote \<le> 65535" and sum: "ip_sum d2 0 = 0"
  defines "d4 \<equiv> take (h + 8) (icmp_stores s p h (set_ip_hl d2 0 (of_nat hl))) @ quote"
  defines "d7 \<equiv> seal h d4"
  shows "length d7 = h + 8 + length quote" "click_in_cksum (take h d7) = 0" "click_in_cksum (drop h d7) = 0"
    "4 * unat (ip_hl d7 0) = h" "ip_v d7 0 = ip_v d2 0" "unat (ntohs (ip_len d7 0)) = length d7"
    "ip_src d7 0 = ip_src d2 0" "ip_dst d7 0 = ip_dst d2 0" "ip_p d7 0 = ip_p d2 0" "ip_off d7 0 = ip_off d2 0"
    "drop 20 (take h d7) = take (h - 20) (drop 20 d2)" "drop (h + 8) d7 = quote"
    "d7 ! h = of_int (ie_type s)" "d7 ! (h + 1) = of_int (ie_code s)"
proof -
  let ?e = "set_ip_hl d2 0 (of_nat hl)"
  have len4: "length d4 = h + 8 + length quote" using len by (simp add: d4_def set_ip_hl_def)
  then show len7: "length d7 = h + 8 + length quote" by (simp add: d7_def)
  have h20: "20 \<le> h" using h by simp
  have take4: "take h d4 = take h ?e" using len by (simp add: d4_def take_icmp_stores)
  have g8: "get8 d4 k = get8 ?e k" if "k + 1 \<le> 20" for k using that h20 by (intro get_take_eq [OF take4]) simp
  have g16: "get16 d4 k = get16 ?e k" if "k + 2 \<le> 20" for k using that h20 by (intro get_take_eq [OF take4]) simp
  have g32: "get32 d4 k = get32 ?e k" if "k + 4 \<le> 20" for k using that h20 by (intro get_take_eq [OF take4]) simp
  have h8: "h + 8 \<le> length d4" using len4 by simp
  note seal = seal_get [OF h20 h8, folded d7_def]
  have "0 < length d2" using len h20 by linarith
  have "ip_hl d7 0 = ip_hl ?e 0" "ip_v d7 0 = ip_v ?e 0" by (simp_all add: ip_hl_def ip_v_def seal g8)
  then show "4 * unat (ip_hl d7 0) = h" "ip_v d7 0 = ip_v d2 0"
    using ip_hl_set [OF \<open>0 < length d2\<close> h(3)] h(1) set_ip_vhl_get(2) [of d2] len h20 by simp_all
  show "ip_src d7 0 = ip_src d2 0" "ip_dst d7 0 = ip_dst d2 0" "ip_p d7 0 = ip_p d2 0" "ip_off d7 0 = ip_off d2 0"
    by (simp_all add: seal g8 g16 g32)
  have "get16 d4 (h + 2) = 0" "d4 ! h = of_int (ie_type s)" "d4 ! (h + 1) = of_int (ie_code s)"
    using icmp_stores_get [of h ?e s p] len by (simp_all add: d4_def nth_append set_ip_hl_def)
  then show "unat (ntohs (ip_len d7 0)) = length d7" "click_in_cksum (take h d7) = 0" "click_in_cksum (drop h d7) = 0"
    "d7 ! h = of_int (ie_type s)" "d7 ! (h + 1) = of_int (ie_code s)"
    using seal_sums [OF h20, of d4, folded d7_def] len4 len len7 sum g16 [of 10] seal by simp_all
  show "drop (h + 8) d7 = quote" unfolding seal using len by (simp add: d4_def set_ip_hl_def)
  have "drop 20 (take h ?e) = drop 20 (take h d2)" by (simp add: set_ip_hl_def drop_take)
  then show "drop 20 (take h d7) = take (h - 20) (drop 20 d2)" unfolding seal take4 by (simp add: drop_take)
qed

text \<open>A route found in a header of at most 60 bytes, and the options the message gets from it.\<close>

definition route_ok :: "bytes \<Rightarrow> nat \<Rightarrow> nat option \<Rightarrow> bool" where
  "route_ok b n route = (case route of None \<Rightarrow> True | Some oi \<Rightarrow> 20 \<le> oi \<and> is_route b n 60 oi)"

definition message_options :: "bytes \<Rightarrow> nat \<Rightarrow> nat option \<Rightarrow> bytes" where
  "message_options b n route = (case route of None \<Rightarrow> [] | Some oi \<Rightarrow> route_option b (n + oi))"

lemma route_words:
  assumes "route_ok b n (Some oi)" "route_in_buffer b n (Some oi)"
  obtains k where "unat (b ! (n + oi + 2)) = 4 * Suc k" "route_header_words b n (Some oi) = 6 + k" "k \<le> 9" "n + oi + 3 + 4 * k \<le> length b"
proof -
  obtain k where k: "unat (b ! (n + oi + 2)) = 4 * Suc k" using assms(1) by (auto simp: route_ok_def is_route_def)
  have "oi + unat (b ! (n + oi + 1)) \<le> 60" "unat (b ! (n + oi + 2)) \<le> unat (b ! (n + oi + 1)) + 1" "20 \<le> oi"
    using assms(1) by (auto simp: route_ok_def is_route_def)
  then have "4 * Suc k \<le> 41" using k by linarith
  then have "k \<le> 9" by simp
  moreover have "route_header_words b n (Some oi) = 6 + k" unfolding route_header_words_def using k by simp
  moreover have "n + oi + 3 + 4 * k \<le> length b" using assms(2) k by (simp add: route_in_buffer_def)
  ultimately show ?thesis using that k by blast
qed

lemma route_written:
  assumes ok: "route_ok b n route" "route_in_buffer b n route" and d: "4 * route_header_words b n route + 8 \<le> length d"
  defines "d2 \<equiv> write_route b n route d"
  shows "5 \<le> route_header_words b n route \<and> route_header_words b n route \<le> 15 \<and> length d2 = length d \<and> take 20 d2 = take 20 d
    \<and> take (4 * route_header_words b n route - 20) (drop 20 d2) = message_options b n route"
proof (cases route)
  case None
  then show ?thesis using d by (simp add: d2_def write_route_def route_header_words_def message_options_def)
next
  case (Some oi)
  obtain k where k: "unat (b ! (n + oi + 2)) = 4 * Suc k" "route_header_words b n (Some oi) = 6 + k" "k \<le> 9" "n + oi + 3 + 4 * k \<le> length b"
    using route_words ok Some by blast
  have d24: "24 + 4 * k \<le> length d" using d k(2) Some by simp
  note rr = reverse_route_bytes [OF k(1,4) d24]
  have "d2 = put_bytes d 20 (route_option b (n + oi))" by (simp add: d2_def write_route_def Some rr(1))
  then show ?thesis using rr(2) d24 k(2,3) Some by (simp add: message_options_def put_bytes_def)
qed

text \<open>The message for a packet \<open>p\<close> whose network header is at \<open>n\<close>, in memory of \<open>mtu\<close> bytes.\<close>

definition error_message :: "ICMPError \<Rightarrow> packet \<Rightarrow> nat \<Rightarrow> nat \<Rightarrow> nat option \<Rightarrow> bytes \<Rightarrow> bool" where
  "error_message s p n mtu route m \<longleftrightarrow> (let b = pk_buffer p; h = 4 * unat (ip_hl m 0) in
     ip_v m 0 = 4 \<and> 20 \<le> h \<and> h + 8 \<le> length m \<and> length m \<le> mtu \<and> unat (ntohs (ip_len m 0)) = length m
     \<and> click_in_cksum (take h m) = 0 \<and> click_in_cksum (drop h m) = 0
     \<and> ip_p m 0 = IP_PROTO_ICMP \<and> ip_off m 0 = 0 \<and> ip_src m 0 = ie_src_ip s \<and> ip_dst m 0 = ip_src b n
     \<and> m ! h = of_int (ie_type s) \<and> m ! (h + 1) = of_int (ie_code s)
     \<and> drop 20 (take h m) = message_options b n route
     \<and> drop (h + 8) m = take (mtu - (h + 8)) (drop n b))"

lemma quote_packet_eq:
  assumes h: "h + 8 \<le> length d3" and n: "n \<le> length b"
  shows "quote_packet b n h d3 = seal h (take (h + 8) d3 @ take (length d3 - (h + 8)) (drop n b))" (is "_ = seal h ?d4")
proof -
  let ?nlen = "length b - n" and ?room = "length d3 - (h + 8)"
  let ?xlen = "if ?room > ?nlen then ?nlen else ?room"
  have d4: "put_bytes (if ?room > ?nlen then take (length d3 - (?room - ?nlen)) d3 else d3) (h + 8) (take ?xlen (drop n b)) = ?d4"
    using h by (auto simp: put_bytes_end)
  have c: "take (8 + ?xlen) (drop h ?d4) = drop h ?d4" using h by simp
  show ?thesis unfolding quote_packet_def seal_def Let_def d4 c f16.length_put by (rule refl)
qed

lemma icmp_message_ok:
  assumes m: "icmp_message s ident p n route d = Inr m" and ok: "route_ok (pk_buffer p) n route"
    and mtu: "length d \<le> 65535" and n: "n \<le> length (pk_buffer p)"
  shows "error_message s p n (length d) route m \<and> 4 * unat (ip_hl m 0) = 4 * route_header_words (pk_buffer p) n route"
proof -
  let ?b = "pk_buffer p"
  let ?hl = "route_header_words ?b n route"
  let ?h = "4 * ?hl"
  have g: "?h + 8 \<le> length d" "route_in_buffer ?b n route" using m by (auto simp: icmp_message_def Let_def guard_Inr)
  define d1 where "d1 = icmp_ip_stores s ident (ip_src ?b n) d"
  define d2 where "d2 = write_route ?b n route d1"
  have len1: "length d1 = length d" by (simp add: d1_def)
  have w: "5 \<le> ?hl" "?hl \<le> 15" "length d2 = length d" "take 20 d2 = take 20 d1" "take (?h - 20) (drop 20 d2) = message_options ?b n route"
    using route_written [OF ok g(2), of d1] g(1) by (simp_all add: d2_def len1)
  define d3 where "d3 = icmp_stores s p ?h (set_ip_hl d2 0 (of_nat ?hl))"
  have len3: "length d3 = length d" using w(3) by (simp add: d3_def set_ip_hl_def)
  have m3: "m = quote_packet ?b n ?h d3"
    using m g by (simp add: icmp_message_def Let_def d1_def d2_def d3_def)
  define quote where "quote = take (length d - (?h + 8)) (drop n ?b)"
  have h3: "?h + 8 \<le> length d3" using g(1) len3 by simp
  note get = get_take_eq [OF w(4)]
  have L20: "20 \<le> length d" using g(1) w(1) by linarith
  note st = icmp_ip_stores_get [OF L20, of s ident "ip_src ?b n", folded d1_def]
  have e: "get8 d2 0 = get8 d1 0" "get16 d2 (0 + 10) = get16 d1 (0 + 10)" "get32 d2 (0 + 12) = get32 d1 (0 + 12)"
    "get32 d2 (0 + 16) = get32 d1 (0 + 16)" "get8 d2 (0 + 9) = get8 d1 (0 + 9)" "get16 d2 (0 + 6) = get16 d1 (0 + 6)"
    by (rule get, simp)+
  have f1: "ip_v d2 0 = 4" "ip_sum d2 0 = 0" "ip_src d2 0 = ie_src_ip s" "ip_dst d2 0 = ip_src ?b n"
    "ip_p d2 0 = IP_PROTO_ICMP" "ip_off d2 0 = 0"
    using st(1) by (simp_all only: e st(2-6) ip_v_def)
  have lens: "?h + 8 + length quote \<le> length d2" "?h + 8 + length quote \<le> 65535" using g(1) w(3) mtu by (auto simp: quote_def)
  note fin = finish_message [OF refl w(1,2) lens f1(2), of s p, folded d3_def,
    folded quote_packet_eq [OF h3 n, unfolded len3, folded quote_def], folded m3]
  have "length m \<le> length d" using fin(1) lens(1) w(3) by simp
  moreover have "20 \<le> ?h" "?h + 8 \<le> length m" using w(1) fin(1) by simp_all
  ultimately show ?thesis
    unfolding error_message_def Let_def fin(4) by (simp only: fin(2-14) f1 w(5) quote_def simp_thms)
qed

section \<open>Answers\<close>

text \<open>A packet as the elements before this one leave it: the network header is known and in the buffer
  with at least one byte behind it, and the transport header of an ICMP packet is known.\<close>

definition routed_packet :: "packet \<Rightarrow> nat \<Rightarrow> bool" where
  "routed_packet p n \<longleftrightarrow> pk_nh p = Some n \<and> (let b = pk_buffer p in
     n + 20 \<le> length b \<and> n + 4 * unat (ip_hl b n) < length b
     \<and> (ip_p b n = IP_PROTO_ICMP \<longrightarrow> (case pk_h p of Some t \<Rightarrow> t < length b | None \<Rightarrow> False)))"

definition answers :: "ICMPError \<Rightarrow> packet \<Rightarrow> nat \<Rightarrow> bool" where
  "answers s p n \<longleftrightarrow> (let b = pk_buffer p in
     is_icmp_error p b n = Inr False \<and> may_answer s p b n
     \<and> (ie_type s = ICMP_REDIRECT \<longrightarrow> valid_source_route b n = Inr None))"

lemma routed_total:
  assumes "routed_packet p n"
  obtains err route where "is_icmp_error p (pk_buffer p) n = Inr err" "valid_source_route (pk_buffer p) n = Inr route"
    "route_ok (pk_buffer p) n route" "route_in_buffer (pk_buffer p) n route"
proof -
  let ?b = "pk_buffer p" and ?hlen = "4 * unat (ip_hl (pk_buffer p) n)"
  have "\<exists>err. is_icmp_error p ?b n = Inr err"
    using assms unfolding routed_packet_def is_icmp_error_def Let_def by (cases "ip_p ?b n = IP_PROTO_ICMP") (auto split: option.splits)
  then obtain err where err: "is_icmp_error p ?b n = Inr err" by blast
  obtain route where route: "valid_source_route ?b n = Inr route"
    using source_route_from_total [of n ?hlen ?b] assms by (auto simp: routed_packet_def valid_source_route_def Let_def)
  have hlen: "?hlen \<le> 60" using ip_hl_bound [of ?b n] by simp
  have "route_ok ?b n route \<and> route_in_buffer ?b n route"
  proof (cases route)
    case (Some oi)
    then have r: "20 \<le> oi" "is_route ?b n ?hlen oi"
      using source_route_from_found [of ?b n ?hlen 20 oi] route by (auto simp: valid_source_route_def)
    have lens: "oi + unat (?b ! (n + oi + 1)) \<le> ?hlen" "unat (?b ! (n + oi + 2)) \<le> unat (?b ! (n + oi + 1)) + 1"
      using r(2) by (simp_all add: is_route_def)
    moreover have "n + ?hlen < length ?b" using assms by (simp add: routed_packet_def Let_def)
    ultimately have "n + oi + unat (?b ! (n + oi + 2)) - 1 \<le> length ?b" by linarith
    moreover have "is_route ?b n 60 oi" using r(2) hlen unfolding is_route_def by auto
    ultimately show ?thesis using r(1) Some by (simp add: route_ok_def route_in_buffer_def)
  qed (simp add: route_ok_def route_in_buffer_def)
  then show ?thesis using that err route by blast
qed

lemma choose_route_ok:
  assumes "choose_route s p b n route = Some route'" "route_ok b n route" "route_in_buffer b n route"
  shows "route_ok b n route' \<and> route_in_buffer b n route'"
  using assms by (auto simp: choose_route_def route_ok_def route_in_buffer_def split: option.splits if_splits)

lemma choose_route_None: "choose_route s p b n route = None \<longleftrightarrow> ie_type s = ICMP_REDIRECT \<and> route \<noteq> None"
  by (auto simp: choose_route_def split: option.splits if_splits)

lemma route_words_le: "route_ok b n route \<Longrightarrow> route_in_buffer b n route \<Longrightarrow> route_header_words b n route \<le> 15"
  by (cases route) (auto simp: route_header_words_def elim: route_words)

lemma not_answered:
  assumes p: "routed_packet p n" and no: "\<not> answers s p n \<or> \<not> env_packet env 0"
  shows "ICMPError_simple_action env s ident p = Inr (ident, None, [Kill p])"
proof -
  obtain err route where r: "is_icmp_error p (pk_buffer p) n = Inr err" "valid_source_route (pk_buffer p) n = Inr route"
    using routed_total [OF p] by blast
  have n: "pk_nh p = Some n" "n + 20 \<le> length (pk_buffer p)" using p by (auto simp: routed_packet_def Let_def)
  have "err \<or> \<not> may_answer s p (pk_buffer p) n \<or> choose_route s p (pk_buffer p) n route = None \<or> \<not> env_packet env 0"
    using no r by (auto simp: answers_def Let_def choose_route_None)
  then show ?thesis
    using n r by (auto simp: ICMPError_simple_action_def Let_def packet_make_def split: option.splits)
qed

text \<open>The packet with the message: its network header at the start, its annotations.\<close>

definition error_packet :: "environ \<Rightarrow> ICMPError \<Rightarrow> packet \<Rightarrow> nat \<Rightarrow> packet \<Rightarrow> bool" where
  "error_packet env s p n q \<longleftrightarrow> pk_nh q = Some (pk_headroom q) \<and> pk_h q = Some (pk_headroom q + 4 * unat (ip_hl (pk_data q) 0))
     \<and> pk_dst_ip q = ip_src (pk_buffer p) n \<and> pk_fix_ip_src q = (if ie_use_fix_anno s then 1 else 0)"

lemma answered:
  assumes p: "routed_packet p n" and yes: "answers s p n" "env_packet env 0"
    and mtu: "68 \<le> ie_mtu s" "ie_mtu s \<le> 65535" and ident: "int32_range (ident + 1)"
  shows "\<exists>q r route. ICMPError_simple_action env s ident p = Inr (ident + 1, Some q, [Kill p])
    \<and> valid_source_route (pk_buffer p) n = Inr r \<and> choose_route s p (pk_buffer p) n r = Some route
    \<and> error_message s p n (ie_mtu s) route (pk_data q) \<and> error_packet env s p n q"
proof -
  let ?b = "pk_buffer p"
  obtain err r where r: "is_icmp_error p ?b n = Inr err" "valid_source_route ?b n = Inr r" "route_ok ?b n r" "route_in_buffer ?b n r"
    using routed_total [OF p] by blast
  have n: "pk_nh p = Some n" "n + 20 \<le> length ?b" using p by (auto simp: routed_packet_def Let_def)
  obtain route where c: "choose_route s p ?b n r = Some route"
    using yes(1) r(2) choose_route_None [of s p ?b n r] by (auto simp: answers_def Let_def)
  note ok = choose_route_ok [OF c r(3,4)]
  obtain q where q: "packet_make env 0 default_headroom None (ie_mtu s) 0 = Some q" "length (pk_data q) = ie_mtu s"
    using yes(2) by (simp add: packet_make_def Let_def)
  have "4 * route_header_words ?b n route + 8 \<le> length (pk_data q)" using route_words_le ok q(2) mtu by fastforce
  then obtain d where d: "icmp_message s ident p n route (pk_data q) = Inr d" using ok by (simp add: icmp_message_def Let_def)
  have msg: "error_message s p n (ie_mtu s) route d" "4 * unat (ip_hl d 0) = 4 * route_header_words ?b n route"
    using icmp_message_ok [OF d] ok q(2) mtu(2) n(2) by auto
  then have dst: "ip_dst d 0 = ip_src ?b n" by (simp add: error_message_def Let_def)
  define q1 where "q1 = set_network_header 0 (4 * route_header_words ?b n route)
    (q\<lparr>pk_data := d, pk_tailroom := pk_tailroom q + (pk_length q - length d)\<rparr>)"
  define q2 where "q2 = set_dst_ip_anno (ip_dst d 0) q1"
  define q' where "q' = (if ie_use_fix_anno s then q2\<lparr>pk_fix_ip_src := 1\<rparr> else q2)"
  have "err = False" "may_answer s p ?b n" using yes(1) r(1) by (simp_all add: answers_def Let_def)
  then have act: "ICMPError_simple_action env s ident p = Inr (ident + 1, Some q', [Kill p])"
    using n r(1,2) c q(1) d ident by (simp add: ICMPError_simple_action_def Let_def q'_def q2_def q1_def)
  have "pk_fix_ip_src q = 0" using q(1) yes(2) by (auto simp: packet_make_def Let_def fresh_packet_def)
  then have "pk_data q' = d" "error_packet env s p n q'"
    using dst msg(2) by (simp_all add: q'_def q2_def q1_def error_packet_def set_dst_ip_anno_def set_network_header_def pk_headroom_def)
  then show ?thesis using act msg(1) r(2) c by auto
qed

section \<open>Properties\<close>

text \<open>(C22) Which packets are answered, and with what.  For a packet whose header is in the buffer, an answer is
  sent exactly when RFC 1812 allows it (the packet is no ICMP error, its destination and its source are
  unicast addresses, it came in no broadcast frame, it is a first fragment, and a redirect is not for a
  source-routed packet) and memory is there, by an element with an MTU of 68 to 65535 bytes whose identification counter has not reached its
  largest value.  The packet is killed in any case.  The answer is a well-formed
  ICMP message within the MTU: lengths and both checksums are right, it goes from the configured address to
  the source of the packet, its options are the reversed source route of the packet and nothing else, and
  behind the ICMP header it quotes the packet from its network header on, as far as the MTU allows.\<close>

theorem icmp_error_answers:
  assumes "routed_packet p n" "68 \<le> ie_mtu s" "ie_mtu s \<le> 65535" "int32_range (ident + 1)"
  shows "if answers s p n \<and> env_packet env 0
    then \<exists>q r route. ICMPError_simple_action env s ident p = Inr (ident + 1, Some q, [Kill p])
      \<and> valid_source_route (pk_buffer p) n = Inr r \<and> choose_route s p (pk_buffer p) n r = Some route
      \<and> error_message s p n (ie_mtu s) route (pk_data q) \<and> error_packet env s p n q
    else ICMPError_simple_action env s ident p = Inr (ident, None, [Kill p])"
  using answered [OF assms(1) _ _ assms(2-4)] not_answered [OF assms(1)] by simp

text \<open>A UDP packet of 40 bytes with the source route option of a single address, from 18.26.4.9 to 18.26.4.1.\<close>

definition routed_udp :: packet where
  "routed_udp = set_network_header 0 28 (fresh_packet []
     ([0x47, 0, 0, 40, 0, 1, 0, 0, 1, 17, 0, 0, 18, 26, 4, 9, 18, 26, 4, 1,
       131, 7, 8, 10, 0, 0, 1, 0,
       0, 7, 0, 7, 0, 12, 0, 0, 1, 2, 3, 4]) 0)"

definition time_exceeded :: ICMPError where
  "time_exceeded = \<lparr>ie_src_ip = 0x0104000A, ie_type = ICMP_TIMXCEED, ie_code = 0, ie_bad_addrs = [], ie_mtu = 576,
     ie_pmtu = 0, ie_use_fix_anno = True\<rparr>"

lemma routed_udp_facts:
  "choose_route time_exceeded routed_udp (pk_buffer routed_udp) 0 (Some 20) = Some (Some 20)"
  "message_options (pk_buffer routed_udp) 0 (Some 20) = [131, 7, 4, 10, 0, 0, 1, 0]"
  "routed_packet routed_udp 0" "answers time_exceeded routed_udp 0"
  "valid_source_route (pk_buffer routed_udp) 0 = Inr (Some 20)"
  by code_simp+

theorem icmp_error_answers_witness:
  "\<exists>q. ICMPError_simple_action sample_env time_exceeded 1 routed_udp = Inr (2, Some q, [Kill routed_udp])
    \<and> length (pk_data q) = 76 \<and> drop 20 (take 28 (pk_data q)) = [131, 7, 4, 10, 0, 0, 1, 0]
    \<and> drop 36 (pk_data q) = pk_data routed_udp"
proof -
  have "68 \<le> ie_mtu time_exceeded" "ie_mtu time_exceeded \<le> 65535" "int32_range (1 + 1)" "env_packet sample_env 0"
    by (simp_all add: time_exceeded_def int32_range_def)
  from icmp_error_answers [OF routed_udp_facts(3) this(1-3), of sample_env] routed_udp_facts(4,5) this(4)
  obtain q route where q: "ICMPError_simple_action sample_env time_exceeded 1 routed_udp = Inr (2, Some q, [Kill routed_udp])"
    "choose_route time_exceeded routed_udp (pk_buffer routed_udp) 0 (Some 20) = Some route"
    "error_message time_exceeded routed_udp 0 576 route (pk_data q)" by (auto simp: time_exceeded_def)
  have m: "20 \<le> 4 * unat (ip_hl (pk_data q) 0)" "4 * unat (ip_hl (pk_data q) 0) + 8 \<le> length (pk_data q)"
    "drop 20 (take (4 * unat (ip_hl (pk_data q) 0)) (pk_data q)) = [131, 7, 4, 10, 0, 0, 1, 0]"
    "drop (4 * unat (ip_hl (pk_data q) 0) + 8) (pk_data q) = take (576 - (4 * unat (ip_hl (pk_data q) 0) + 8)) (pk_buffer routed_udp)"
    using q(2,3) routed_udp_facts(1,2) by (auto simp: error_message_def Let_def)
  have "length (drop 20 (take (4 * unat (ip_hl (pk_data q) 0)) (pk_data q))) = 8" unfolding m(3) by simp
  then have h: "4 * unat (ip_hl (pk_data q) 0) = 28" using m(1,2) by (simp only: length_drop length_take min_def split: if_splits)
  have "drop 36 (pk_data q) = pk_data routed_udp" "length (pk_data routed_udp) = 40"
    using m(4) unfolding h by (simp_all add: routed_udp_def pk_buffer_def set_network_header_def)
  moreover from this have "length (pk_data q) - 36 = 40" by (metis length_drop)
  ultimately show ?thesis using q(1) m(3) unfolding h by auto
qed

text \<open>(C23) No error message is ever answered with another: the answer of an element for an error type with an MTU of 68 to 65535
  bytes, whose identification counter has not reached its largest value, to a packet whose header is in the buffer, handed to any ICMPError element, is dropped.\<close>

theorem icmp_error_no_storm:
  assumes "is_error_type (ie_type s)" "routed_packet p n" "ICMPError_simple_action env s ident p = Inr (ident', Some q, acts)"
    "68 \<le> ie_mtu s" "ie_mtu s \<le> 65535" "int32_range (ident + 1)"
  shows "ICMPError_simple_action env2 s2 ident2 q = Inr (ident2, None, [Kill q])"
proof -
  have "answers s p n \<and> env_packet env 0" using not_answered [OF assms(2), of s env ident] assms(3) by auto
  then obtain route where m: "error_message s p n (ie_mtu s) route (pk_data q)" "error_packet env s p n q"
    using answered [OF assms(2) _ _ assms(4-6), of env] assms(3) by auto
  let ?m = "pk_data q" and ?b = "pk_buffer q" and ?k = "pk_headroom q"
  let ?h = "4 * unat (ip_hl ?m 0)"
  have mf: "20 \<le> ?h" "?h + 8 \<le> length ?m" "ip_p ?m 0 = IP_PROTO_ICMP" "?m ! ?h = of_int (ie_type s)"
    using m(1) by (auto simp: error_message_def Let_def)
  have hl: "ip_hl ?b ?k = ip_hl ?m 0" "ip_p ?b ?k = ip_p ?m 0" "?b ! (?k + ?h) = ?m ! ?h" "length ?b = ?k + length ?m"
    by (simp_all add: pk_buffer_def pk_headroom_def ip_hl_def get8_def nth_append)
  have "is_error_type (int (unat (?m ! ?h)))"
    using assms(1) by (auto simp: mf(4) is_error_type_def icmp_constants)
  then have "is_icmp_error q ?b ?k = Inr True"
    using m(2) mf hl by (simp add: is_icmp_error_def error_packet_def pk_length_def)
  then have "\<not> answers s2 q ?k" by (simp add: answers_def)
  moreover have "routed_packet q ?k" using m(2) mf hl by (simp add: routed_packet_def error_packet_def)
  ultimately show ?thesis using not_answered by blast
qed

theorem icmp_error_no_storm_witness:
  "\<exists>q. ICMPError_simple_action sample_env time_exceeded 1 routed_udp = Inr (2, Some q, [Kill routed_udp])
    \<and> ICMPError_simple_action sample_env time_exceeded 2 q = Inr (2, None, [Kill q])"
proof -
  have c: "68 \<le> ie_mtu time_exceeded" "ie_mtu time_exceeded \<le> 65535" "int32_range (1 + 1)" "env_packet sample_env 0"
    "is_error_type (ie_type time_exceeded)"
    by (simp_all add: time_exceeded_def int32_range_def is_error_type_def)
  obtain q where q: "ICMPError_simple_action sample_env time_exceeded 1 routed_udp = Inr (1 + 1, Some q, [Kill routed_udp])"
    using answered [OF routed_udp_facts(3,4) c(4,1,2,3)] by blast
  show ?thesis using icmp_error_no_storm [OF c(5) routed_udp_facts(3) q c(1-3), of sample_env time_exceeded 2] q by auto
qed

text \<open>An MTU below 28 bytes, which configuration accepts, makes every answer write outside the new packet.\<close>

theorem icmp_error_small_mtu:
  assumes "routed_packet p n" "answers s p n" "env_packet env 0" "ie_mtu s < 28" "int32_range (ident + 1)"
  shows "ICMPError_simple_action env s ident p = Inl OutOfBounds"
proof -
  let ?b = "pk_buffer p"
  obtain err r where r: "is_icmp_error p ?b n = Inr err" "valid_source_route ?b n = Inr r" "route_ok ?b n r" "route_in_buffer ?b n r"
    using routed_total [OF assms(1)] by blast
  obtain route where c: "choose_route s p ?b n r = Some route"
    using assms(2) r(2) choose_route_None [of s p ?b n r] by (auto simp: answers_def Let_def)
  have "5 \<le> route_header_words ?b n route"
    using choose_route_ok [OF c r(3,4)] by (cases route) (auto simp: route_header_words_def elim: route_words)
  moreover obtain q where q: "packet_make env 0 default_headroom None (ie_mtu s) 0 = Some q" "length (pk_data q) = ie_mtu s"
    using assms(3) by (simp add: packet_make_def Let_def)
  ultimately have "icmp_message s ident p n route (pk_data q) = Inl OutOfBounds"
    using assms(4) by (simp add: icmp_message_def Let_def)
  moreover have "err = False" "may_answer s p ?b n" "pk_nh p = Some n" "n + 20 \<le> length ?b"
    using assms(1,2) r(1) by (auto simp: answers_def routed_packet_def Let_def)
  ultimately show ?thesis using r(1,2) c q(1) assms(5) by (simp add: ICMPError_simple_action_def Let_def)
qed

theorem icmp_error_small_mtu_witness:
  "ICMPError_simple_action sample_env (time_exceeded\<lparr>ie_mtu := 27\<rparr>) 1 routed_udp = Inl OutOfBounds"
proof -
  have "answers (time_exceeded\<lparr>ie_mtu := 27\<rparr>) routed_udp 0" by code_simp
  then show ?thesis
    using icmp_error_small_mtu [OF routed_udp_facts(3), of "time_exceeded\<lparr>ie_mtu := 27\<rparr>" sample_env 1] by (simp add: int32_range_def)
qed

end
