(* ===== verification/IntText.thy ===== *)
theory IntText
  imports Prelude
begin

text \<open>
  Numbers as text: how \<^verbatim>\<open>StringAccum::append_numeric\<close> (\<^verbatim>\<open>lib/straccum.cc\<close>) prints an integer,
  and how \<^verbatim>\<open>IntArg\<close> (\<^verbatim>\<open>lib/args.cc\<close>, \<^verbatim>\<open>include/click/args.hh\<close>) reads one for every element
  that is configured, with the arithmetic on limbs of \<^verbatim>\<open>include/click/bigint.hh\<close> below it.

  Shown: the division by ten out of shifts ends with quotient and remainder, so that printing is
  positional notation; products of halves are products; reading gives the number the digits denote,
  saturated at the bounds of the type; what is printed is read back; and negative 64-bit numbers
  with two non-zero limbs are read wrongly.
\<close>

type_synonym u64 = "64 word"

section \<open>Printing\<close>

definition approx_tenth :: "u64 \<Rightarrow> u64" where
  "approx_tenth num = drop_bit 4 num + drop_bit 5 num + drop_bit 8 num + drop_bit 9 num
     + drop_bit 12 num + drop_bit 13 num + drop_bit 16 num + drop_bit 17 num"

definition tenth_delta :: "u64 \<Rightarrow> u64" where
  "tenth_delta m =
     (let delta = drop_bit 4 m + drop_bit 5 m + drop_bit 8 m + drop_bit 9 m
      in if 0x1000 \<le> m then delta + (drop_bit 12 m + drop_bit 13 m + drop_bit 16 m + drop_bit 17 m) else delta)"

text \<open>The inner loop: the quotient \<open>k\<close> grows until the remainder is a digit.\<close>

partial_function (option) tenth_loop :: "u64 \<Rightarrow> u64 \<Rightarrow> (u64 \<times> u64) option" where
  "tenth_loop num k =
     (let m = num - (push_bit 3 k + push_bit 1 k)
      in if m < 10 then Some (k, m)
         else tenth_loop num (k + (if tenth_delta m \<noteq> 0 then tenth_delta m else 1)))"

text \<open>The outer loop writes the digits backwards in front of \<open>trav\<close>.\<close>

partial_function (option) decimal_loop :: "u64 \<Rightarrow> string \<Rightarrow> string option" where
  "decimal_loop num trav =
     (if 0 < num
      then Option.bind (tenth_loop num (approx_tenth num)) (\<lambda>km. decimal_loop (fst km) (char_of (48 + unat (snd km)) # trav))
      else Some trav)"

declare tenth_loop.simps [code] decimal_loop.simps [code]

definition numeric_digits :: "bool \<Rightarrow> string" where
  "numeric_digits uppercase = (if uppercase then ''0123456789ABCDEF'' else ''0123456789abcdef'')"

function radix_loop :: "int \<Rightarrow> bool \<Rightarrow> u64 \<Rightarrow> string \<Rightarrow> u64 \<times> string" where
  "radix_loop base uppercase num trav =
     (if 0 < num
      then radix_loop base uppercase (drop_bit (nat (drop_bit 3 base) + 2) num)
             (numeric_digits uppercase ! unat (num AND of_int (base - 1)) # trav)
      else (num, trav))"
  by auto
termination
proof (relation "measure (\<lambda>(base, uppercase, num, trav). unat num)")
  fix base :: int and uppercase :: bool and num :: u64 and trav :: string
  assume "0 < num"
  then have "unat num > 0" by (simp add: word_less_nat_alt)
  moreover have "unat (drop_bit (nat (drop_bit 3 base) + 2) num) = unat num div 2 ^ (nat (drop_bit 3 base) + 2)"
    by (subst unat_drop_bit_eq) (rule drop_bit_eq_div)
  moreover have "(1 :: nat) < 2 ^ (nat (drop_bit 3 base) + 2)" by (rule one_less_power) simp_all
  ultimately show "((base, uppercase, drop_bit (nat (drop_bit 3 base) + 2) num, numeric_digits uppercase ! unat (num AND of_int (base - 1)) # trav),
      (base, uppercase, num, trav)) \<in> measure (\<lambda>(base, uppercase, num, trav). unat num)" by simp
qed simp

declare radix_loop.simps [simp del]

text \<open>What is appended; \<open>None\<close> when a loop does not end.\<close>

definition append_numeric :: "u64 \<Rightarrow> int \<Rightarrow> bool \<Rightarrow> string res option" where
  "append_numeric num base uppercase =
     (if base \<noteq> 10 \<and> base \<noteq> 16 \<and> base \<noteq> 8 then Some (Inl AssertFail)
      else case (if base \<noteq> 10 then radix_loop base uppercase num [] else (num, [])) of (num1, trav1) \<Rightarrow>
        Option.bind (decimal_loop num1 trav1) (\<lambda>trav. Some (Inr (if trav = [] then ''0'' else trav))))"

definition int64_range :: "int \<Rightarrow> bool" where
  "int64_range i \<longleftrightarrow> - 9223372036854775808 \<le> i \<and> i \<le> 9223372036854775807"

definition append_numeric_signed :: "int \<Rightarrow> int \<Rightarrow> bool \<Rightarrow> string res option" where
  "append_numeric_signed num base uppercase =
     (if num < 0
      then if int64_range (- num)
        then map_option (map_sum id (\<lambda>s. CHR ''-'' # s)) (append_numeric (of_int (- num)) base uppercase)
        else Some (Inl SignedOverflow)
      else append_numeric (of_int num) base uppercase)"

section \<open>Products of limbs\<close>

definition low16 :: "u32 \<Rightarrow> u32" where "low16 x = x AND 0xFFFF"

definition high16 :: "u32 \<Rightarrow> u32" where "high16 x = drop_bit 16 x"

text \<open>\<^verbatim>\<open>int_multiply\<close> for processors without the instruction: low and high limb of a product.\<close>

definition int_multiply :: "u32 \<Rightarrow> u32 \<Rightarrow> u32 \<times> u32" where
  "int_multiply a b =
     (let al = low16 a; ah = high16 a; bl = low16 b; bh = high16 b;
          r0 = al * bl; r3 = ah * bh; r1 = ah * bl; r2 = al * bh + high16 r0 + r1;
          r3' = (if r2 < r1 then r3 + 0x10000 else r3)
      in (push_bit 16 r2 + low16 r0, r3' + high16 r2))"

text \<open>\<^verbatim>\<open>Bigint::multiply_half\<close>: high and low limb of the product with a half limb, and its array version.\<close>

definition multiply_half :: "u32 \<Rightarrow> u32 \<Rightarrow> u32 \<times> u32" where
  "multiply_half a b =
     (let al = low16 a; ah = high16 a; r0 = al * b; r1 = ah * b; r2 = high16 r0 + r1
      in ((if r2 < r1 then 0x10000 else 0) + high16 r2, push_bit 16 r2 + low16 r0))"

fun multiply_half_limbs :: "u32 list \<Rightarrow> u32 \<Rightarrow> u32 \<Rightarrow> u32 list \<times> u32" where
  "multiply_half_limbs [] b carry = ([], carry)"
| "multiply_half_limbs (a # as) b carry =
     (case multiply_half a b of (x1, x0) \<Rightarrow>
        let x0' = x0 + carry; carry' = (if x0' < carry then 1 else 0) + x1
        in case multiply_half_limbs as b carry' of (xs, c) \<Rightarrow> (x0' # xs, c))"

section \<open>Reading\<close>

text \<open>A \<^verbatim>\<open>char\<close> is signed.\<close>

definition char_code :: "char \<Rightarrow> int" where
  "char_code c = (let n = of_char c in if n < 128 then n else n - 256)"

definition span_digit :: "int \<Rightarrow> int \<Rightarrow> char \<Rightarrow> bool" where
  "span_digit ndigits nletters c \<longleftrightarrow>
     (48 \<le> char_code c \<and> char_code c < 48 + ndigits)
     \<or> (65 \<le> char_code c \<and> char_code c < 65 + nletters)
     \<or> (97 \<le> char_code c \<and> char_code c < 97 + nletters)"

text \<open>The scan of \<^verbatim>\<open>IntArg::span\<close> from position \<open>s\<close>; \<open>lastdigit\<close> is the position behind the last digit.\<close>

fun span_loop :: "int \<Rightarrow> int \<Rightarrow> int \<Rightarrow> int \<Rightarrow> string \<Rightarrow> int \<times> int" where
  "span_loop ndigits nletters s lastdigit [] = (s, lastdigit)"
| "span_loop ndigits nletters s lastdigit (c # cs) =
     (if c = CHR ''_'' \<and> lastdigit = s then span_loop ndigits nletters (s + 1) lastdigit cs
      else if span_digit ndigits nletters c then span_loop ndigits nletters (s + 1) (s + 1) cs
      else (s, lastdigit))"

definition sign_length :: "string \<Rightarrow> bool \<Rightarrow> nat" where
  "sign_length str is_signed = (if str \<noteq> [] \<and> (is_signed \<and> hd str = CHR ''-'' \<or> hd str = CHR ''+'') then 1 else 0)"

definition span_prefix :: "string \<Rightarrow> nat \<Rightarrow> int \<Rightarrow> nat \<times> int" where
  "span_prefix str s b =
     (if (b = 0 \<or> b = 16) \<and> s + 2 < length str \<and> str ! s = CHR ''0'' \<and> (str ! (s + 1) = CHR ''x'' \<or> str ! (s + 1) = CHR ''X'')
      then (s + 2, 16)
      else if b = 0 \<and> s + 2 < length str \<and> str ! s = CHR ''0'' \<and> (str ! (s + 1) = CHR ''b'' \<or> str ! (s + 1) = CHR ''B'')
      then (s + 2, 2)
      else if b = 0 \<and> s < length str \<and> str ! s = CHR ''0'' then (s, 8)
      else if b = 0 then (s, 10)
      else (s, b))"

definition base_letters :: "int \<Rightarrow> int" where "base_letters b = (if b > 10 then b - 10 else 0)"

definition IntArg_span :: "string \<Rightarrow> bool \<Rightarrow> int \<Rightarrow> nat \<times> int" where
  "IntArg_span str is_signed base =
     (case span_prefix str (sign_length str is_signed) base of (firstdigit, b) \<Rightarrow>
      case span_loop (if b > 10 then 10 else b) (base_letters b) (int firstdigit) (int firstdigit - 1) (drop firstdigit str) of (s, lastdigit) \<Rightarrow>
        (if s \<noteq> int firstdigit then nat lastdigit
         else if firstdigit > 1 then firstdigit - 1
         else 0, b))"

datatype num_status = status_ok | status_inval | status_range

definition digit_value :: "int \<Rightarrow> char \<Rightarrow> int option" where
  "digit_value nletters c =
     (if 48 \<le> char_code c \<and> char_code c \<le> 57 then Some (char_code c - 48)
      else if 65 \<le> char_code c \<and> char_code c < 65 + nletters then Some (char_code c - 65 + 10)
      else if 97 \<le> char_code c \<and> char_code c < 97 + nletters then Some (char_code c - 97 + 10)
      else None)"

definition limb_threshold :: u32 where "limb_threshold = 0xFFFFFFFF div 36"

text \<open>One character of the digits: \<open>v0\<close> is the value as long as it is below the threshold.\<close>

definition digit_step :: "int \<Rightarrow> char \<Rightarrow> u32 \<times> u32 list \<times> num_status \<Rightarrow> u32 \<times> u32 list \<times> num_status" where
  "digit_step b c = (\<lambda>(v0, value, status).
     (case digit_value (base_letters b) c of
        None \<Rightarrow> (v0, value, status)
      | Some digit \<Rightarrow>
          if v0 < limb_threshold
          then let v = v0 * of_int b + of_int digit in (v, value[0 := v], status)
          else case multiply_half_limbs value (of_int b) (of_int digit) of (value', carry) \<Rightarrow>
            (v0, value', if carry \<noteq> 0 then status_range else status)))"

fun out_of_range :: "int \<Rightarrow> bool \<Rightarrow> int \<Rightarrow> u32 list \<Rightarrow> bool" where
  "out_of_range bitsize negative bpos [] = False"
| "out_of_range bitsize negative bpos (x # xs) =
     (bpos \<ge> bitsize \<and> x \<noteq> 0
      \<or> bpos < bitsize \<and> bitsize < bpos + 32 \<and> x \<ge> push_bit (nat (bitsize - bpos)) 1 + (if negative then 1 else 0)
      \<or> out_of_range bitsize negative (bpos + 32) xs)"

text \<open>\<^verbatim>\<open>memset\<close> over the first bytes of the limbs.\<close>

fun memset_limbs :: "nat \<Rightarrow> u32 \<Rightarrow> u32 list \<Rightarrow> u32 list" where
  "memset_limbs sz fill [] = []"
| "memset_limbs sz fill (x # xs) =
     (let k = min 4 sz in ((x AND NOT (mask (8 * k))) OR (fill AND mask (8 * k))) # memset_limbs (sz - k) fill xs)"

definition saturate_limbs :: "bool \<Rightarrow> bool \<Rightarrow> nat \<Rightarrow> nat \<Rightarrow> u32 list \<Rightarrow> u32 list" where
  "saturate_limbs is_signed negative sz bitsize value =
     (let v = memset_limbs sz (if negative then 0 else 0xFFFFFFFF) value
      in if is_signed then v[bitsize div 32 := v ! (bitsize div 32) XOR push_bit (bitsize mod 32) 1] else v)"

text \<open>The negation: \<^verbatim>\<open>first_zero\<close> ends behind the last limb that is not zero.\<close>

fun first_zero :: "nat \<Rightarrow> nat \<Rightarrow> u32 list \<Rightarrow> nat" where
  "first_zero i fz [] = fz"
| "first_zero i fz (x # xs) = first_zero (i + 1) (if x \<noteq> 0 then i + 1 else fz) xs"

definition negate_limbs :: "u32 list \<Rightarrow> u32 list" where
  "negate_limbs value =
     (let v = map uminus value; fz = first_zero 0 (length v) v in take fz v @ map (\<lambda>x. x - 1) (drop fz v))"

text \<open>\<^verbatim>\<open>IntArg::parse\<close> into the limbs \<open>value\<close>: where it stopped, the status, the limbs.\<close>

definition IntArg_parse_limbs :: "int \<Rightarrow> string \<Rightarrow> bool \<Rightarrow> nat \<Rightarrow> u32 list \<Rightarrow> nat \<times> num_status \<times> u32 list" where
  "IntArg_parse_limbs base str is_signed sz value =
     (case IntArg_span str is_signed base of (xend, b) \<Rightarrow>
        if b < 2 \<or> b > 36 \<or> xend = 0 then (0, status_inval, value)
        else case fold (digit_step b) (take xend str) (0, replicate (length value) 0, status_ok) of (v0, v, st) \<Rightarrow>
          let negative = (is_signed \<and> hd str = CHR ''-'');
              bitsize = sz * 8 - (if is_signed then 1 else 0);
              st' = (if st = status_ok \<and> out_of_range (int bitsize) negative 0 v then status_range else st);
              v' = (if st' = status_range then saturate_limbs is_signed negative sz bitsize v else v)
          in (xend, st', if negative then negate_limbs v' else v'))"

fun extract_integer :: "u32 list \<Rightarrow> 'v :: len word" where
  "extract_integer [] = 0"
| "extract_integer [x] = ucast x"
| "extract_integer (x # y # ys) = push_bit 32 (extract_integer (y # ys)) OR ucast x"

text \<open>The parsers for a type of \<^verbatim>\<open>sizeof(V)\<close> bytes: the status and what is stored.\<close>

definition IntArg_parse_saturating :: "int \<Rightarrow> bool \<Rightarrow> string \<Rightarrow> num_status \<times> 'v :: len word option" where
  "IntArg_parse_saturating base is_signed str =
     (let sz = LENGTH('v) div 8; nlimb = (sz + 3) div 4 in
      case IntArg_parse_limbs base str is_signed sz (replicate nlimb 0) of (xend, st, x) \<Rightarrow>
        let st' = (if xend \<noteq> length str then status_inval else st)
        in (st', if st' \<noteq> status_ok \<and> st' \<noteq> status_range then None else Some (extract_integer x)))"

definition IntArg_parse :: "int \<Rightarrow> bool \<Rightarrow> string \<Rightarrow> 'v :: len word option" where
  "IntArg_parse base is_signed str =
     (case IntArg_parse_saturating base is_signed str of (st, x) \<Rightarrow> if st = status_ok then x else None)"

section \<open>Positional notation\<close>

fun positional :: "nat \<Rightarrow> nat \<Rightarrow> nat list" where
  "positional b n = (if b \<le> 1 \<or> n < b then [n] else positional b (n div b) @ [n mod b])"

declare positional.simps [simp del]

definition numeral_text :: "nat \<Rightarrow> bool \<Rightarrow> nat \<Rightarrow> string" where
  "numeral_text b uppercase n = map (\<lambda>d. numeric_digits uppercase ! d) (positional b n)"

lemma numeric_digits_decimal:
  assumes "d < 10"
  shows "numeric_digits uppercase ! d = char_of (48 + d)"
proof -
  have "\<forall>d \<in> set [0..<10]. numeric_digits True ! d = char_of (48 + d) \<and> numeric_digits False ! d = char_of (48 + d)" by code_simp
  then show ?thesis using assms by (cases uppercase) simp_all
qed

text \<open>Shifts are divisions; a sum of shifts is no more than a tenth, and none of its sums wraps.\<close>

lemma unat_shift: "unat (drop_bit n x) = unat x div 2 ^ n" for x :: u64
  by (subst unat_drop_bit_eq) (rule drop_bit_eq_div)

lemma div_le_part: "n * (x div n) \<le> x" for x n :: nat
  by simp

lemma unat_add_le: "unat (x + y) \<le> unat x + unat y" for x y :: u64
  by (simp add: unat_plus_if')

lemma unat_add_small: "unat x + unat y < 2 ^ 64 \<Longrightarrow> unat (x + y) = unat x + unat y" for x y :: u64
  by (simp add: unat_plus_if')

lemma u64_bound: "unat (x :: u64) < 2 ^ 64"
  using unsigned_less [of x] by simp


lemma shift_part: "2 ^ n * unat (drop_bit n m) \<le> unat m" for m :: u64
  by (simp only: unat_shift div_le_part)

lemma tenth_bound:
  fixes m :: u64
  assumes "x \<le> unat (drop_bit 4 m) + unat (drop_bit 5 m) + unat (drop_bit 8 m) + unat (drop_bit 9 m)
    + (unat (drop_bit 12 m) + unat (drop_bit 13 m) + unat (drop_bit 16 m) + unat (drop_bit 17 m))"
    (is "_ \<le> ?a + ?b + ?c + ?d + (?e + ?f + ?g + ?h)")
  shows "10 * x \<le> unat m"
proof -
  have "16 * ?a \<le> unat m" "32 * ?b \<le> unat m" "256 * ?c \<le> unat m" "512 * ?d \<le> unat m"
    "4096 * ?e \<le> unat m" "8192 * ?f \<le> unat m" "65536 * ?g \<le> unat m" "131072 * ?h \<le> unat m"
    using shift_part [of 4 m] shift_part [of 5 m] shift_part [of 8 m] shift_part [of 9 m]
      shift_part [of 12 m] shift_part [of 13 m] shift_part [of 16 m] shift_part [of 17 m] by simp_all
  with assms show ?thesis by linarith
qed

lemma unat_add4_le: "unat (a + b + c + d) \<le> unat a + unat b + unat c + unat d" for a b c d :: u64
  by (intro order_trans [OF unat_add_le] add_mono order_refl)

lemma approx_tenth_le: "10 * unat (approx_tenth num) \<le> unat num"
  unfolding approx_tenth_def
  by (rule tenth_bound) (simp add: add.assoc [symmetric] order_trans [OF unat_add_le] unat_add_le add_mono)

lemma tenth_delta_le: "10 * unat (tenth_delta m) \<le> unat m"
proof (rule tenth_bound)
  note s = unat_add4_le [of "drop_bit 4 m" "drop_bit 5 m" "drop_bit 8 m" "drop_bit 9 m"]
  note s' = unat_add4_le [of "drop_bit 12 m" "drop_bit 13 m" "drop_bit 16 m" "drop_bit 17 m"]
  show "unat (tenth_delta m) \<le> unat (drop_bit 4 m) + unat (drop_bit 5 m) + unat (drop_bit 8 m) + unat (drop_bit 9 m)
    + (unat (drop_bit 12 m) + unat (drop_bit 13 m) + unat (drop_bit 16 m) + unat (drop_bit 17 m))"
    using s order_trans [OF unat_add_le add_mono [OF s s']] by (simp add: tenth_delta_def Let_def trans_le_add1)
qed

lemma shifted_ten:
  fixes num k :: u64
  assumes "10 * unat k \<le> unat num"
  shows "unat (num - (push_bit 3 k + push_bit 1 k)) = unat num - 10 * unat k"
proof -
  have "push_bit 3 k + push_bit 1 k = 10 * k" by (simp add: push_bit_eq_mult)
  moreover have "unat (10 * k) = 10 * unat k"
    using assms u64_bound [of num] by (simp add: unat_word_ariths)
  ultimately show ?thesis using assms by (simp add: unat_sub word_le_nat_alt)
qed

lemma tenth_loop_returns:
  assumes "10 * unat k \<le> unat num"
  shows "tenth_loop num k = Some (num div 10, num mod 10)"
  using assms
proof (induction "unat num - 10 * unat k" arbitrary: k rule: less_induct)
  case less
  define m where "m = num - (push_bit 3 k + push_bit 1 k)"
  have m: "unat m = unat num - 10 * unat k" using shifted_ten [OF less.prems] by (simp add: m_def)
  note step = tenth_loop.simps [of num k, unfolded Let_def, folded m_def]
  show ?case
  proof (cases "m < 10")
    case True
    then have "unat m < 10" "unat num = 10 * unat k + unat m" using m less.prems by (simp_all add: word_less_nat_alt)
    then have "unat num div 10 = unat k" "unat num mod 10 = unat m" by simp_all
    then have "num div 10 = k" "num mod 10 = m" by (simp_all add: word_unat_eq_iff unat_div unat_mod)
    then show ?thesis using True by (simp add: step)
  next
    case False
    define d where "d = (if tenth_delta m \<noteq> 0 then tenth_delta m else 1)"
    have "10 \<le> unat m" using False by (simp add: word_less_nat_alt)
    then have d: "0 < unat d" "10 * unat d \<le> unat m"
      using tenth_delta_le [of m] by (auto simp: d_def unat_gt_0)
    have kd: "unat (k + d) = unat k + unat d"
      using d(2) m less.prems u64_bound [of num] by (intro unat_add_small) linarith
    have "tenth_loop num (k + d) = Some (num div 10, num mod 10)"
      by (rule less.hyps) (use kd d m less.prems \<open>10 \<le> unat m\<close> in linarith)+
    then show ?thesis using False by (simp add: step d_def)
  qed
qed


lemma decimal_loop_eq:
  "decimal_loop num trav = Some (if num = 0 then trav else numeral_text 10 uppercase (unat num) @ trav)"
proof (induction "unat num" arbitrary: num trav rule: less_induct)
  case less
  show ?case
  proof (cases "num = 0")
    case True
    then show ?thesis by (subst decimal_loop.simps) simp
  next
    case False
    define c where "c = numeric_digits uppercase ! (unat num mod 10)"
    have "unat (num div 10) < unat num" using False by (simp add: unat_div unat_gt_0)
    then have rest: "decimal_loop (num div 10) (c # trav)
      = Some (if num div 10 = 0 then c # trav else numeral_text 10 uppercase (unat num div 10) @ c # trav)"
      using less.hyps [of "num div 10" "c # trav"] by (simp add: unat_div)
    have "char_of (48 + unat (num mod 10)) = c" by (simp add: c_def numeric_digits_decimal unat_mod)
    then have "decimal_loop num trav = decimal_loop (num div 10) (c # trav)"
      using False by (subst decimal_loop.simps) (simp add: tenth_loop_returns [OF approx_tenth_le] word_gt_0)
    moreover have "num div 10 = 0 \<longleftrightarrow> unat num < 10" by (simp add: word_unat_eq_iff unat_div div_eq_0_iff)
    moreover have "numeral_text 10 uppercase (unat num) = (if unat num < 10 then [c] else numeral_text 10 uppercase (unat num div 10) @ [c])"
      using positional.simps [of 10 "unat num"] by (simp add: numeral_text_def c_def)
    ultimately show ?thesis using rest False by simp
  qed
qed

lemma radix_loop_eq:
  assumes s: "2 ^ s = b" "nat (drop_bit 3 (int b)) + 2 = s" "1 < b" "b \<le> 16"
  shows "radix_loop (int b) uppercase num trav = (0, if num = 0 then trav else numeral_text b uppercase (unat num) @ trav)"
proof (induction "unat num" arbitrary: num trav rule: less_induct)
  case less
  show ?case
  proof (cases "num = 0")
    case True
    then show ?thesis by (subst radix_loop.simps) simp
  next
    case False
    define c where "c = numeric_digits uppercase ! (unat num mod b)"
    define n where "n = drop_bit s num"
    have n: "unat n = unat num div b" unfolding n_def unat_shift s(1) ..
    have "num AND of_int (int b - 1) = take_bit s num" by (simp add: take_bit_eq_mask mask_eq_exp_minus_1 flip: s(1))
    then have "unat (num AND of_int (int b - 1)) = take_bit s (unat num)" by (simp only: unsigned_take_bit_eq)
    then have "unat (num AND of_int (int b - 1)) = unat num mod b" unfolding take_bit_eq_mod s(1) .
    then have "radix_loop (int b) uppercase num trav = radix_loop (int b) uppercase n (c # trav)"
      using False s(2) by (subst radix_loop.simps) (simp add: n_def c_def word_gt_0)
    moreover have "unat n < unat num" using False s(3) n by (simp add: unat_gt_0)
    moreover have "n = 0 \<longleftrightarrow> unat num < b" using s(3) n by (auto simp: word_unat_eq_iff div_eq_0_iff)
    moreover have "numeral_text b uppercase (unat num) = (if unat num < b then [c] else numeral_text b uppercase (unat num div b) @ [c])"
      using positional.simps [of b "unat num"] s(3) by (simp add: numeral_text_def c_def)
    ultimately show ?thesis using less.hyps [of n "c # trav"] False n by simp
  qed
qed


lemma append_numeric_eq:
  assumes "b = 8 \<or> b = 10 \<or> b = 16"
  shows "append_numeric num (int b) uppercase = Some (Inr (numeral_text b uppercase (unat num)))"
proof -
  have zero: "numeral_text b uppercase 0 = ''0''"
    using assms by (auto simp: numeral_text_def positional.simps numeric_digits_def)
  have ne: "numeral_text b uppercase n \<noteq> []" for n by (simp add: numeral_text_def positional.simps)
  have radix: "radix_loop (int b) uppercase num [] = (0, if num = 0 then [] else numeral_text b uppercase (unat num))" if "b \<noteq> 10"
    using assms that radix_loop_eq [of 3 8 uppercase num "[]"] radix_loop_eq [of 4 16 uppercase num "[]"] by auto
  show ?thesis
    using assms zero ne radix by (auto simp: append_numeric_def decimal_loop_eq [of _ _ uppercase])
qed


section \<open>Facts about products\<close>

lemma unat_low16: "unat (low16 x) = unat x mod 65536"
proof -
  have "low16 x = take_bit 16 x" by (simp add: low16_def take_bit_eq_mask mask_eq_exp_minus_1)
  then have "unat (low16 x) = take_bit 16 (unat x)" by (simp only: unsigned_take_bit_eq)
  then show ?thesis by (simp add: take_bit_eq_mod)
qed

lemma unat_high16: "unat (high16 x) = unat x div 65536"
proof -
  have "unat (high16 x) = drop_bit 16 (unat x)" unfolding high16_def by (rule unat_drop_bit_eq)
  then show ?thesis by (simp add: drop_bit_eq_div)
qed

lemma u32_bound: "unat (x :: u32) < 4294967296"
  using unsigned_less [of x] by simp

lemma unat_high16_less: "unat (high16 x) < 65536"
  using u32_bound [of x] by (simp add: unat_high16)

lemma unat_mult_half: "unat a < 65536 \<Longrightarrow> unat b < 65536 \<Longrightarrow> unat (a * b) = unat a * unat b" for a b :: u32
  using mult_strict_mono [of "unat a" 65536 "unat b" 65536] by (simp add: unat_word_ariths)

lemma unat_push16: "unat (push_bit 16 x + low16 y) = (unat x mod 65536) * 65536 + unat y mod 65536" for x y :: u32
proof -
  have "unat (push_bit 16 x) = (unat x * 65536) mod 4294967296" by (simp add: push_bit_eq_mult unat_word_ariths mult.commute)
  also have "\<dots> = (unat x mod 65536) * 65536" using mult_mod_left [of "unat x" 65536 65536] by simp
  finally have "unat (push_bit 16 x) = (unat x mod 65536) * 65536" .
  moreover have "unat x mod 65536 < 65536" "unat y mod 65536 < 65536" by simp_all
  ultimately show ?thesis by (simp add: unat_word_ariths unat_low16)
qed

text \<open>The carry of a sum shows in the result.\<close>

lemma unat_add_carry: "unat (p + q) + (if p + q < q then 4294967296 else 0) = unat p + unat q" for p q :: u32
  using u32_bound [of p] u32_bound [of q] by (auto simp: unat_plus_if' word_less_nat_alt split: if_splits)

lemma product_parts:
  fixes al ah bl bh r0 r2 c :: nat
  assumes "r0 = al * bl" "r2 + 4294967296 * c = al * bh + r0 div 65536 + ah * bl"
  shows "(r2 mod 65536) * 65536 + r0 mod 65536 + 4294967296 * (ah * bh + 65536 * c + r2 div 65536) = (al + 65536 * ah) * (bl + 65536 * bh)"
proof -
  obtain q2 m2 q0 m0 where q: "r2 = 65536 * q2 + m2" "r2 div 65536 = q2" "r2 mod 65536 = m2"
    "r0 = 65536 * q0 + m0" "r0 div 65536 = q0" "r0 mod 65536 = m0" by (metis mult_div_mod_eq)
  have "65536 * (al * bh + ah * bl) + 65536 * q0 = 65536 * (65536 * q2 + m2 + 4294967296 * c)"
    using assms(2) unfolding q(2,3,5,6) q(1) by simp
  moreover have "(al + 65536 * ah) * (bl + 65536 * bh) = 65536 * q0 + m0 + 65536 * (al * bh + ah * bl) + 4294967296 * (ah * bh)"
    unfolding q(4) [symmetric] by (simp add: algebra_simps assms(1))
  ultimately show ?thesis unfolding q(2,3,5,6) by simp
qed

lemma unat_halves: "unat x = unat (low16 x) + 65536 * unat (high16 x)"
  by (simp add: unat_low16 unat_high16)


lemma int_multiply_full:
  assumes "int_multiply a b = (xlow, xhigh)"
  shows "unat xlow + 4294967296 * unat xhigh = unat a * unat b"
proof -
  let ?al = "low16 a" and ?ah = "high16 a" and ?bl = "low16 b" and ?bh = "high16 b"
  define r0 where "r0 = ?al * ?bl"
  define r1 where "r1 = ?ah * ?bl"
  define p where "p = ?al * ?bh + high16 r0"
  define r2 where "r2 = p + r1"
  define c :: nat where "c = (if r2 < r1 then 1 else 0)"
  have half: "unat (low16 x) < 65536" "unat (high16 x) < 65536" for x
    by (simp_all add: unat_low16 unat_high16_less)
  have bound: "unat (low16 x) * unat (high16 y) \<le> 65535 * 65535" for x y
    using half(1) [of x] half(2) [of y] by (intro mult_le_mono) simp_all
  have n: "unat r0 = unat ?al * unat ?bl" "unat r1 = unat ?ah * unat ?bl" "unat (?ah * ?bh) = unat ?ah * unat ?bh"
    "unat (?al * ?bh) = unat ?al * unat ?bh"
    by (simp_all add: r0_def r1_def unat_mult_half half)
  have "unat p = unat ?al * unat ?bh + unat r0 div 65536"
    using bound [of a b] half(2) [of r0] by (simp add: p_def unat_plus_if' n(4) unat_high16 [of r0])
  then have r2: "unat r2 + 4294967296 * c = unat ?al * unat ?bh + unat r0 div 65536 + unat ?ah * unat ?bl"
    using unat_add_carry [of p r1] by (auto simp: r2_def c_def n(2))
  have x: "xlow = push_bit 16 r2 + low16 r0" "xhigh = (if r2 < r1 then ?ah * ?bh + 0x10000 else ?ah * ?bh) + high16 r2"
    using assms by (simp_all add: int_multiply_def Let_def r0_def r1_def r2_def p_def)
  let ?h = "unat ?ah * unat ?bh + 65536 * c + unat r2 div 65536"
  have prod: "(unat r2 mod 65536) * 65536 + unat r0 mod 65536 + 4294967296 * ?h = unat a * unat b"
    using product_parts [OF n(1) r2] unat_halves [of a] unat_halves [of b] by simp
  have "4294967296 * ?h \<le> unat a * unat b" unfolding prod [symmetric] by (rule le_add2)
  also have "\<dots> < 4294967296 * 4294967296" using u32_bound [of a] u32_bound [of b] by (intro mult_strict_mono) simp_all
  finally have "4294967296 * ?h < 4294967296 * 4294967296" .
  then have "?h < 4294967296" by (simp only: nat_mult_less_cancel_disj)
  then have "unat xhigh = ?h"
    using unat_high16 [of r2] unfolding x(2) by (auto simp: unat_plus_if' n(3) c_def split: if_splits)
  then show ?thesis using prod unat_push16 [of r2 r0] x(1) by simp
qed

lemma multiply_half_full:
  assumes "multiply_half a b = (x1, x0)" "unat b < 65536"
  shows "unat x0 + 4294967296 * unat x1 = unat a * unat b"
proof -
  have "low16 b = b" "high16 b = 0"
    using assms(2) by (simp_all add: word_unat_eq_iff unat_low16 unat_high16)
  then have "int_multiply a b = (x0, x1)" using assms(1) by (auto simp: int_multiply_def multiply_half_def Let_def)
  then show ?thesis by (rule int_multiply_full)
qed

text \<open>The number in a list of limbs, the least significant first.\<close>

definition limbs_value :: "u32 list \<Rightarrow> nat" where
  "limbs_value = horner_sum unat 4294967296"

lemma limbs_value_simps [simp]:
  "limbs_value [] = 0" "limbs_value (x # xs) = unat x + 4294967296 * limbs_value xs"
  by (simp_all add: limbs_value_def)

lemma multiply_half_limbs_full:
  assumes "multiply_half_limbs xs b c = (ys, c')" "unat b < 65536"
  shows "length ys = length xs \<and> limbs_value ys + 4294967296 ^ length xs * unat c' = limbs_value xs * unat b + unat c"
  using assms(1)
proof (induction xs arbitrary: c ys)
  case (Cons a xs)
  obtain x1 x0 where m: "multiply_half a b = (x1, x0)" by (cases "multiply_half a b")
  define x0' where "x0' = x0 + c"
  define d where "d = (if x0' < c then 1 else 0) + x1"
  obtain zs where r: "multiply_half_limbs xs b d = (zs, c')" "ys = x0' # zs"
    using Cons.prems by (auto simp: m x0'_def d_def Let_def split: prod.splits)
  note full = multiply_half_full [OF m assms(2)]
  have "unat a * unat b \<le> 4294967295 * 65535" using u32_bound [of a] assms(2) by (intro mult_le_mono) simp_all
  then have "unat x1 < 65536" using full by linarith
  then have "unat d = (if x0' < c then 1 else 0) + unat x1" by (auto simp: d_def unat_plus_if')
  then have "unat x0' + 4294967296 * unat d = unat a * unat b + unat c"
    using unat_add_carry [of x0 c] full by (auto simp: x0'_def split: if_splits)
  moreover have "length zs = length xs" "limbs_value zs + 4294967296 ^ length xs * unat c' = limbs_value xs * unat b + unat d"
    using Cons.IH [OF r(1)] by simp_all
  ultimately show ?case using r(2) by (simp add: algebra_simps)
qed simp


section \<open>What the digits denote\<close>

definition denote_step :: "int \<Rightarrow> char \<Rightarrow> nat \<Rightarrow> nat" where
  "denote_step b c n = (case digit_value (base_letters b) c of None \<Rightarrow> n | Some d \<Rightarrow> n * nat b + nat d)"

definition denoted :: "int \<Rightarrow> string \<Rightarrow> nat" where
  "denoted b str = fold (denote_step b) str 0"

lemma digit_value_bound:
  assumes "digit_value (base_letters b) c = Some d" "b \<le> 36"
  shows "0 \<le> d \<and> d < 36"
  using assms by (auto simp: digit_value_def base_letters_def split: if_splits)

text \<open>The limbs hold the number as long as there was no carry, and a carry means that they cannot.\<close>

definition digits_inv :: "nat \<Rightarrow> nat \<Rightarrow> u32 \<times> u32 list \<times> num_status \<Rightarrow> bool" where
  "digits_inv N n = (\<lambda>(v0, value, status). length value = N \<and>
     (if status = status_ok then limbs_value value = n \<and> (v0 < limb_threshold \<longrightarrow> n = unat v0)
      else status = status_range \<and> 4294967296 ^ N \<le> n \<and> limb_threshold \<le> v0))"

lemma unat_of_int_small:
  assumes "0 \<le> k" "k < 4294967296"
  shows "unat (of_int k :: u32) = nat k"
proof -
  have "uint (of_int k :: u32) = k" using assms by (simp add: uint_word_of_int)
  then show ?thesis by (metis unat_eq_nat_uint)
qed

lemma digits_inv_step:
  assumes inv: "digits_inv N n (v0, value, status)" and b: "2 \<le> b" "b \<le> 36" and N: "0 < N"
  shows "digits_inv N (denote_step b c n) (digit_step b c (v0, value, status))"
proof (cases "digit_value (base_letters b) c")
  case None
  then show ?thesis using inv by (simp add: denote_step_def digit_step_def)
next
  case (Some d)
  have d: "0 \<le> d" "d < 36" using digit_value_bound [OF Some b(2)] by simp_all
  have u: "unat (of_int b :: u32) = nat b" "unat (of_int d :: u32) = nat d"
    using b d by (simp_all add: unat_of_int_small)
  have n': "denote_step b c n = n * nat b + nat d" using Some by (simp add: denote_step_def)
  show ?thesis
  proof (cases "v0 < limb_threshold")
    case True
    define v where "v = v0 * of_int b + of_int d"
    have ok: "status = status_ok" "limbs_value value = n" "n = unat v0" "length value = N"
      using inv True by (auto simp: digits_inv_def split: if_splits)
    have "unat v0 < 119304647" using True by (simp add: limb_threshold_def word_less_nat_alt)
    then have "unat v0 * nat b \<le> 119304646 * 36" using b by (intro mult_le_mono) simp_all
    then have "unat v = n * nat b + nat d" using d ok(3) by (simp add: v_def unat_word_ariths u)
    moreover obtain x xs where xs: "value = x # xs" using ok(4) N by (cases "value") auto
    moreover have "limbs_value xs = 0" using ok(2,3) xs u32_bound [of v0] by simp
    ultimately show ?thesis using True ok Some n' by (simp add: digits_inv_def digit_step_def v_def [symmetric] Let_def)
  next
    case False
    obtain ys c' where m: "multiply_half_limbs value (of_int b) (of_int d) = (ys, c')" by fastforce
    have full: "length ys = length value" "limbs_value ys + 4294967296 ^ length value * unat c' = limbs_value value * nat b + nat d"
      using multiply_half_limbs_full [OF m] b by (simp_all add: u)
    have big: "4294967296 ^ N \<le> n * nat b + nat d" if "status \<noteq> status_ok"
    proof -
      have "4294967296 ^ N \<le> n" using inv that by (auto simp: digits_inv_def)
      also have "n * 1 \<le> n * nat b" using b by (intro mult_le_mono2) linarith
      finally show ?thesis by simp
    qed
    have carry: "4294967296 ^ N \<le> n * nat b + nat d" if "status = status_ok" "c' \<noteq> 0"
    proof -
      have "4294967296 ^ N * 1 \<le> 4294967296 ^ N * unat c'" using that(2) by (intro mult_le_mono2) (simp add: Suc_le_eq unat_gt_0)
      also have "\<dots> \<le> n * nat b + nat d" using full(2) inv that(1) by (auto simp: digits_inv_def intro: le_add2)
      finally show ?thesis by simp
    qed
    show ?thesis using inv False full Some n' big carry
      by (cases "status = status_ok"; cases "c' = 0") (simp_all add: digits_inv_def digit_step_def m)
  qed
qed

lemma digits_inv_fold:
  assumes "digits_inv N n st" "2 \<le> b" "b \<le> 36" "0 < N"
  shows "digits_inv N (fold (denote_step b) str n) (fold (digit_step b) str st)"
  using assms(1)
proof (induction str arbitrary: n st)
  case (Cons c str)
  obtain v0 v s where "st = (v0, v, s)" by (cases st)
  then show ?case using Cons digits_inv_step [OF _ assms(2-4)] by simp
qed simp


section \<open>One limb\<close>

lemma negate_one_limb: "negate_limbs [x] = [- x]"
  by (simp add: negate_limbs_def)

lemma take_bit_minus_take_bit:
  fixes x :: int
  assumes "m \<le> n"
  shows "take_bit m (- take_bit n x) = take_bit m (- x)"
proof -
  have "take_bit m (- take_bit n x) = take_bit m (- take_bit m (take_bit n x))" by (simp only: take_bit_minus)
  also have "\<dots> = take_bit m (- x)" using assms by (simp add: take_bit_minus)
  finally show ?thesis .
qed

lemma ucast_uminus32:
  fixes x :: u32
  assumes "LENGTH('v :: len) \<le> 32"
  shows "(ucast (- x) :: 'v word) = - ucast x"
  using assms by transfer (simp add: take_bit_minus_take_bit take_bit_minus)

lemma ucast_memset:
  fixes x :: u32
  assumes "LENGTH('v :: len) \<in> {8, 16, 32}"
  shows "(ucast (hd (memset_limbs (LENGTH('v) div 8) fill [x])) :: 'v word) = ucast fill"
proof -
  have "8 * min 4 (LENGTH('v) div 8) = LENGTH('v)" using assms by auto
  then show ?thesis by (intro bit_word_eqI) (auto simp: Let_def bit_simps)
qed


lemma length_memset_limbs [simp]: "length (memset_limbs sz fill v) = length v"
  by (induction sz fill v rule: memset_limbs.induct) (simp_all add: Let_def)

lemma length_saturate_limbs [simp]: "length (saturate_limbs is_signed negative sz bs v) = length v"
  by (simp add: saturate_limbs_def Let_def)

lemma singleton_hd: "length v = 1 \<Longrightarrow> v = [hd v]"
  by (cases v) simp_all

text \<open>The word of a type of 8, 16 or 32 bits after saturation, before the negation.\<close>

lemma ucast_saturate:
  fixes x :: u32
  assumes L: "LENGTH('v :: len) \<in> {8, 16, 32}"
  shows "(ucast (hd (saturate_limbs is_signed negative (LENGTH('v) div 8) (LENGTH('v) - (if is_signed then 1 else 0)) [x])) :: 'v word)
    = (if is_signed then (if negative then 0 else - 1) XOR push_bit (LENGTH('v) - 1) 1 else if negative then 0 else - 1)"
proof -
  define y where "y = hd (memset_limbs (LENGTH('v) div 8) (if negative then 0 else 0xFFFFFFFF) [x])"
  have y: "(ucast y :: 'v word) = (if negative then 0 else - 1)"
  proof -
    have "(0xFFFFFFFF :: u32) = - 1" by simp
    then have "(ucast (0xFFFFFFFF :: u32) :: 'v word) = - 1" using L by (simp only:) (intro bit_word_eqI, auto simp: bit_simps)
    then show ?thesis unfolding y_def ucast_memset [OF L] by simp
  qed
  have one: "(ucast (push_bit (LENGTH('v) - 1) 1 :: u32) :: 'v word) = push_bit (LENGTH('v) - 1) 1"
    using L by (intro bit_word_eqI) (auto simp: bit_simps)
  have "memset_limbs (LENGTH('v) div 8) (if negative then 0 else 0xFFFFFFFF) [x] = [y]" by (simp add: y_def Let_def)
  then show ?thesis
    using L y one by (auto simp: saturate_limbs_def Let_def unsigned_xor_eq)
qed


text \<open>The digits of a string that is a numeral as a whole.\<close>

definition numeral_in :: "int \<Rightarrow> bool \<Rightarrow> string \<Rightarrow> int \<Rightarrow> bool" where
  "numeral_in base is_signed str b \<longleftrightarrow> IntArg_span str is_signed base = (length str, b) \<and> str \<noteq> [] \<and> 2 \<le> b \<and> b \<le> 36"

definition is_negative :: "bool \<Rightarrow> string \<Rightarrow> bool" where
  "is_negative is_signed str \<longleftrightarrow> is_signed \<and> hd str = CHR ''-''"

definition number_of :: "int \<Rightarrow> bool \<Rightarrow> string \<Rightarrow> int" where
  "number_of b is_signed str = (if is_negative is_signed str then - int (denoted b str) else int (denoted b str))"

text \<open>The bounds of a type of \<open>L\<close> bits.\<close>

definition type_min :: "bool \<Rightarrow> nat \<Rightarrow> int" where "type_min is_signed L = (if is_signed then - (2 ^ (L - 1)) else 0)"
definition type_max :: "bool \<Rightarrow> nat \<Rightarrow> int" where "type_max is_signed L = (if is_signed then 2 ^ (L - 1) - 1 else 2 ^ L - 1)"

text \<open>Reading a numeral: the limbs \<open>v\<close> of its digits, whether they are too large, and the result.\<close>

definition limbs_result :: "bool \<Rightarrow> bool \<Rightarrow> nat \<Rightarrow> bool \<Rightarrow> u32 list \<Rightarrow> u32 list" where
  "limbs_result is_signed negative sz big v =
     (let v' = (if big then saturate_limbs is_signed negative sz (sz * 8 - (if is_signed then 1 else 0)) v else v)
      in if negative then negate_limbs v' else v')"

lemma parse_limbs_eq:
  assumes num: "numeral_in base is_signed str b" and N: "0 < N"
  defines "negative \<equiv> is_negative is_signed str" and "n \<equiv> denoted b str"
  obtains v big where "length v = N" "big \<and> 4294967296 ^ N \<le> n \<or> limbs_value v = n \<and> big = out_of_range (int (sz * 8 - (if is_signed then 1 else 0))) negative 0 v"
    and "IntArg_parse_limbs base str is_signed sz (replicate N 0) =
      (length str, if big then status_range else status_ok, limbs_result is_signed negative sz big v)"
proof -
  have b: "IntArg_span str is_signed base = (length str, b)" "str \<noteq> []" "2 \<le> b" "b \<le> 36"
    using num by (auto simp: numeral_in_def)
  obtain v0 v st where f: "fold (digit_step b) str (0, replicate N 0, status_ok) = (v0, v, st)" by (metis prod_cases3)
  have "limbs_value (replicate N 0) = 0" by (induction N) simp_all
  then have "digits_inv N 0 (0, replicate N 0, status_ok)" by (simp add: digits_inv_def)
  from digits_inv_fold [OF this b(3,4) N, of str] have inv: "digits_inv N n (v0, v, st)"
    by (simp add: f denoted_def n_def)
  let ?oor = "out_of_range (int (sz * 8 - (if is_signed then 1 else 0))) negative 0 v"
  define big where "big = (st = status_range \<or> ?oor)"
  have st: "st = status_ok \<or> st = status_range" using inv by (auto simp: digits_inv_def split: if_splits)
  have 1: "length v = N" "big \<and> 4294967296 ^ N \<le> n \<or> limbs_value v = n \<and> big = ?oor"
    using inv st by (auto simp: digits_inv_def big_def split: if_splits)
  have "IntArg_parse_limbs base str is_signed sz (replicate N 0) =
      (length str, if big then status_range else status_ok, limbs_result is_signed negative sz big v)"
    using b st by (auto simp: IntArg_parse_limbs_def f negative_def is_negative_def limbs_result_def big_def Let_def)
  with 1 show ?thesis using that by blast
qed

lemma out_of_range_one_limb:
  assumes "0 < bs" "bs \<le> 32" "negative \<Longrightarrow> bs < 32"
  shows "out_of_range (int bs) negative 0 [x] \<longleftrightarrow> 2 ^ bs + (if negative then 1 else 0) \<le> unat x"
proof (cases "bs < 32")
  case True
  have "unat (push_bit bs 1 :: u32) = take_bit 32 (2 ^ bs)" by (subst unsigned_push_bit_eq) simp
  then have "unat (push_bit bs 1 :: u32) = 2 ^ bs" using True by (simp only: take_bit_nat_eq_self_iff power_strict_increasing_iff)
  moreover have "(2 :: nat) ^ bs \<le> 2 ^ 31" using True by (intro power_increasing) simp_all
  ultimately have "unat (push_bit bs 1 + (if negative then 1 else 0) :: u32) = 2 ^ bs + (if negative then 1 else 0)"
    by (simp add: unat_plus_if')
  then show ?thesis using True assms(1) by (simp add: word_le_nat_alt)
next
  case False
  then show ?thesis using assms u32_bound [of x] by auto
qed


definition clamp :: "int \<Rightarrow> int \<Rightarrow> int \<Rightarrow> int" where "clamp lo hi i = max lo (min hi i)"

lemma in_type_iff:
  assumes "0 < L"
  shows "type_min is_signed L \<le> number_of b is_signed str \<and> number_of b is_signed str \<le> type_max is_signed L
    \<longleftrightarrow> denoted b str < 2 ^ (L - (if is_signed then 1 else 0)) + (if is_negative is_signed str then 1 else 0)"
proof -
  have "int (denoted b str) < 2 ^ k \<longleftrightarrow> denoted b str < 2 ^ k" "int (denoted b str) \<le> 2 ^ k \<longleftrightarrow> denoted b str \<le> 2 ^ k" for k
    by (metis of_nat_less_iff of_nat_numeral of_nat_power) (metis of_nat_le_iff of_nat_numeral of_nat_power)
  moreover have "- int (denoted b str) \<le> 2 ^ k - 1" for k :: nat by (smt (verit) of_nat_0_le_iff zero_less_power)
  moreover have "- (2 ^ k) \<le> int (denoted b str)" for k :: nat by (smt (verit) of_nat_0_le_iff zero_less_power)
  ultimately show ?thesis
    by (cases "is_negative is_signed str") (auto simp: type_min_def type_max_def number_of_def is_negative_def less_Suc_eq_le)
qed

lemma clamp_number:
  assumes "0 < L"
  shows "clamp (type_min is_signed L) (type_max is_signed L) (number_of b is_signed str) =
    (if type_min is_signed L \<le> number_of b is_signed str \<and> number_of b is_signed str \<le> type_max is_signed L then number_of b is_signed str
     else if is_negative is_signed str then type_min is_signed L else type_max is_signed L)"
proof -
  have "type_min is_signed L \<le> 0" "0 \<le> type_max is_signed L" by (auto simp: type_min_def type_max_def)
  then show ?thesis by (cases "is_negative is_signed str") (auto simp: clamp_def number_of_def)
qed

text \<open>The bounds as words.\<close>

lemma type_bounds_word:
  fixes is_signed :: bool
  defines "w \<equiv> push_bit (LENGTH('v) - 1) 1 :: 'v :: len word"
  shows "(of_int (type_max True LENGTH('v)) :: 'v word) = - 1 XOR w" "(of_int (type_max False LENGTH('v)) :: 'v word) = - 1"
    "(of_int (type_min True LENGTH('v)) :: 'v word) = - w"
proof -
  have w: "w = 2 ^ (LENGTH('v) - 1)" by (simp add: w_def)
  have "w + w = 2 * 2 ^ (LENGTH('v) - 1)" by (simp add: w)
  also have "\<dots> = (2 :: 'v word) ^ LENGTH('v)" by (simp add: power_Suc [symmetric] del: power_Suc)
  finally have ww: "w = - w" by (simp add: eq_neg_iff_add_eq_0)
  have "- 1 XOR w = NOT w" by (simp add: xor.commute)
  also have "\<dots> = - w - 1" by (simp add: not_eq_complement)
  finally show "of_int (type_max True LENGTH('v)) = - 1 XOR w" using ww by (simp add: type_max_def w)
qed (simp_all add: type_max_def type_min_def w_def)

text \<open>The status and the value of a numeral for a type of up to 32 bits.\<close>

lemma parse_one_limb:
  assumes num: "numeral_in base is_signed str b" and L: "LENGTH('v :: len) \<in> {8, 16, 32}"
  defines "n \<equiv> number_of b is_signed str" and "lo \<equiv> type_min is_signed LENGTH('v)" and "hi \<equiv> type_max is_signed LENGTH('v)"
  shows "(IntArg_parse_saturating base is_signed str :: num_status \<times> 'v word option) =
    (if lo \<le> n \<and> n \<le> hi then status_ok else status_range, Some (of_int (clamp lo hi n)))"
proof -
  let ?L = "LENGTH('v)" and ?neg = "is_negative is_signed str" and ?d = "denoted b str"
  let ?bs = "?L - (if is_signed then 1 else 0)"
  have sizes: "?L div 8 * 8 = ?L" "(?L div 8 + 3) div 4 = 1" "0 < ?L" "?L \<le> 32" using L by auto
  obtain v big where v: "length v = 1" "big \<and> 4294967296 ^ 1 \<le> ?d \<or> limbs_value v = ?d \<and> big = out_of_range (int ?bs) ?neg 0 v"
    and p: "IntArg_parse_limbs base str is_signed (?L div 8) (replicate 1 0) =
      (length str, if big then status_range else status_ok, limbs_result is_signed ?neg (?L div 8) big v)"
    using parse_limbs_eq [OF num zero_less_one, where sz = "?L div 8", unfolded sizes(1)] by blast
  obtain x where x: "v = [x]" using v(1) by (auto simp: length_Suc_conv)
  have bs: "0 < ?bs" "?bs \<le> 32" "?neg \<Longrightarrow> ?bs < 32" using L by (auto simp: is_negative_def)
  have "(2 :: nat) ^ ?bs + (if ?neg then 1 else 0) \<le> 4294967296"
    using L by (auto simp: is_negative_def)
  then have big: "big \<longleftrightarrow> \<not> (lo \<le> n \<and> n \<le> hi)"
    using v(2) out_of_range_one_limb [OF bs] in_type_iff [OF sizes(3), of is_signed b str]
    unfolding x lo_def hi_def n_def by auto
  have "(extract_integer (limbs_result is_signed ?neg (?L div 8) big v) :: 'v word) = of_int (clamp lo hi n)"
  proof (cases big)
    case True
    define y where "y = hd (saturate_limbs is_signed ?neg (?L div 8) ?bs v)"
    have "saturate_limbs is_signed ?neg (?L div 8) ?bs v = [y]" unfolding y_def by (rule singleton_hd) (simp add: v(1))
    then have "(extract_integer (limbs_result is_signed ?neg (?L div 8) big v) :: 'v word) = (if ?neg then - ucast y else ucast y)"
      using True sizes by (simp add: limbs_result_def negate_one_limb ucast_uminus32)
    moreover have "clamp lo hi n = (if ?neg then lo else hi)"
      using True big clamp_number [OF sizes(3), of is_signed b str] by (auto simp: lo_def hi_def n_def)
    moreover have "?neg \<Longrightarrow> is_signed" by (simp add: is_negative_def)
    ultimately show ?thesis
      unfolding y_def x ucast_saturate [OF L] lo_def hi_def by (cases ?neg; cases is_signed) (simp_all add: type_bounds_word)
  next
    case False
    then have "?d = unat x" using v(2) by (simp add: x)
    then have "(extract_integer (limbs_result is_signed ?neg (?L div 8) big v) :: 'v word) = of_int n"
      using False sizes(4) by (simp add: limbs_result_def x negate_one_limb ucast_uminus32 n_def number_of_def)
    moreover have "clamp lo hi n = n" using False big by (simp add: clamp_def)
    ultimately show ?thesis by simp
  qed
  then show ?thesis unfolding IntArg_parse_saturating_def Let_def sizes(2) p using big by simp
qed


section \<open>Two limbs\<close>

lemma extract_two_limbs: "(extract_integer [x, y] :: u64) = of_nat (limbs_value [x, y])"
proof -
  have "push_bit 32 (ucast y) AND ucast x = (0 :: u64)" by (rule bit_word_eqI) (auto simp: bit_simps dest: bit_imp_le_length)
  then have "(extract_integer [x, y] :: u64) = push_bit 32 (ucast y) + ucast x" by (simp add: disjunctive_add_eq_or)
  then show ?thesis by (simp add: push_bit_eq_mult)
qed

lemma out_of_range_two_limbs:
  "out_of_range 63 negative 0 [x, y] \<longleftrightarrow> 9223372036854775808 + (if negative then 4294967296 else 0) \<le> limbs_value [x, y]"
  "\<not> out_of_range 64 negative 0 [x, y]"
  using u32_bound [of x] by (auto simp: word_le_nat_alt)

lemma mask_limb: "(mask 32 :: u32) = - 1"
  by (rule bit_word_eqI) (simp add: bit_simps)

lemma saturate_two_limbs:
  "saturate_limbs True False 8 63 [x, y] = [0xFFFFFFFF, 0x7FFFFFFF]" "saturate_limbs False False 8 64 [x, y] = [0xFFFFFFFF, 0xFFFFFFFF]"
  by (simp_all add: saturate_limbs_def Let_def mask_limb)

lemma unat_uminus_limb: "x \<noteq> 0 \<Longrightarrow> unat (- x) = 4294967296 - unat x" for x :: u32
  using unat_plus_if' [of "- x" x] u32_bound [of x] u32_bound [of "- x"] by (auto simp: unat_eq_zero split: if_splits)

lemma negate_two_limbs: "negate_limbs [x, y] = (if x \<noteq> 0 \<and> y = 0 then [- x, - 1] else [- x, - y])"
  by (simp add: negate_limbs_def Let_def)

text \<open>A 64-bit numeral that is not negative.\<close>

lemma parse_two_limbs:
  assumes num: "numeral_in base is_signed str b" and pos: "\<not> is_negative is_signed str"
  defines "n \<equiv> number_of b is_signed str" and "lo \<equiv> type_min is_signed 64" and "hi \<equiv> type_max is_signed 64"
  shows "(IntArg_parse_saturating base is_signed str :: num_status \<times> u64 option) =
    (if lo \<le> n \<and> n \<le> hi then status_ok else status_range, Some (of_int (clamp lo hi n)))"
proof -
  let ?d = "denoted b str" and ?bs = "8 * 8 - (if is_signed then 1 else 0)"
  have two: "0 < (2 :: nat)" and neg: "is_negative is_signed str = False" using pos by simp_all
  obtain v big where v: "length v = 2" "big \<and> 4294967296 ^ 2 \<le> ?d \<or> limbs_value v = ?d \<and> big = out_of_range (int ?bs) False 0 v"
    and p: "IntArg_parse_limbs base str is_signed 8 (replicate 2 0) =
      (length str, if big then status_range else status_ok, limbs_result is_signed False 8 big v)"
    using parse_limbs_eq [OF num two, where sz = 8, unfolded neg] by blast
  obtain x y where xy: "v = [x, y]" using v(1) by (auto simp: length_Suc_conv numeral_2_eq_2)
  have bound: "limbs_value v < 18446744073709551616" using u32_bound [of x] u32_bound [of y] by (simp add: xy)
  have n: "n = int ?d" using pos by (simp add: n_def number_of_def)
  have big: "big \<longleftrightarrow> \<not> (lo \<le> n \<and> n \<le> hi)"
    using v(2) out_of_range_two_limbs [of False x y] bound
    by (cases is_signed) (auto simp: n lo_def hi_def type_min_def type_max_def xy)
  have "(extract_integer (limbs_result is_signed False 8 big v) :: u64) = of_int (clamp lo hi n)"
  proof (cases big)
    case True
    then have "clamp lo hi n = hi" using big n by (auto simp: clamp_def lo_def hi_def type_min_def type_max_def)
    then show ?thesis using True
      by (cases is_signed) (simp_all add: limbs_result_def xy saturate_two_limbs hi_def type_max_def push_bit_eq_mult)
  next
    case False
    then have "limbs_value v = ?d" "clamp lo hi n = int ?d" using v(2) big n by (auto simp: clamp_def)
    then show ?thesis using False extract_two_limbs [of x y] by (simp add: limbs_result_def xy)
  qed
  then show ?thesis unfolding IntArg_parse_saturating_def Let_def using p big by simp
qed


section \<open>Round trips\<close>

text \<open>The digits of a numeral are digits of its base and are read as themselves.\<close>

lemma numeric_digit_read:
  assumes "d < b" "b = 8 \<or> b = 10 \<or> b = 16"
  shows "digit_value (base_letters (int b)) (numeric_digits uppercase ! d) = Some (int d)"
    and "span_digit (if int b > 10 then 10 else int b) (base_letters (int b)) (numeric_digits uppercase ! d)"
    and "numeric_digits uppercase ! d \<notin> set ''+-xX_''"
proof -
  have "\<forall>b \<in> {8, 10, 16}. \<forall>d \<in> set [0..<b]. \<forall>u \<in> {True, False}.
      digit_value (base_letters (int b)) (numeric_digits u ! d) = Some (int d)
      \<and> span_digit (if int b > 10 then 10 else int b) (base_letters (int b)) (numeric_digits u ! d)
      \<and> numeric_digits u ! d \<notin> set ''+-xX_''" by code_simp
  then show "digit_value (base_letters (int b)) (numeric_digits uppercase ! d) = Some (int d)"
    "span_digit (if int b > 10 then 10 else int b) (base_letters (int b)) (numeric_digits uppercase ! d)"
    "numeric_digits uppercase ! d \<notin> set ''+-xX_''"
    using assms by (cases uppercase; auto)+
qed

lemma positional_less: "1 < b \<Longrightarrow> d \<in> set (positional b n) \<Longrightarrow> d < b"
proof (induction b n rule: positional.induct)
  case (1 b n)
  then show ?case using positional.simps [of b n] by (auto split: if_splits)
qed

lemma positional_hd: "1 < b \<Longrightarrow> 0 < n \<Longrightarrow> 0 < hd (positional b n)"
proof (induction b n rule: positional.induct)
  case (1 b n)
  have "positional b (n div b) \<noteq> []" by (subst positional.simps) simp
  then show ?case using 1 positional.simps [of b n] by (auto simp: div_greater_zero_iff)
qed

lemma denoted_numeral:
  assumes "b = 8 \<or> b = 10 \<or> b = 16"
  shows "fold (denote_step (int b)) (numeral_text b uppercase n) 0 = n"
proof (induction n rule: less_induct)
  case (less n)
  have step: "denote_step (int b) (numeric_digits uppercase ! d) k = k * b + d" if "d < b" for d k
    using numeric_digit_read(1) [OF that assms] by (simp add: denote_step_def)
  show ?case
  proof (cases "n < b")
    case True
    then show ?thesis using step [of n 0] by (simp add: numeral_text_def positional.simps)
  next
    case False
    then have "numeral_text b uppercase n = numeral_text b uppercase (n div b) @ [numeric_digits uppercase ! (n mod b)]"
      using assms by (subst numeral_text_def, subst positional.simps) (auto simp: numeral_text_def)
    moreover have "n div b < n" "n mod b < b" using False assms by auto
    ultimately show ?thesis using less.IH [of "n div b"] step [of "n mod b"] by simp
  qed
qed

lemma span_loop_all:
  assumes "\<And>c. c \<in> set cs \<Longrightarrow> span_digit nd nl c \<and> c \<noteq> CHR ''_''"
  shows "span_loop nd nl s l cs = (s + int (length cs), if cs = [] then l else s + int (length cs))"
  using assms by (induction cs arbitrary: s l) auto

text \<open>A numeral, with or without a minus sign, is read as a whole, also when the base is left open.\<close>

lemma numeral_text_chars:
  assumes "b = 8 \<or> b = 10 \<or> b = 16" "c \<in> set (numeral_text b uppercase n)"
  shows "span_digit (if int b > 10 then 10 else int b) (base_letters (int b)) c \<and> c \<notin> set ''+-xX_''"
proof -
  obtain d where "d \<in> set (positional b n)" "c = numeric_digits uppercase ! d" using assms(2) by (auto simp: numeral_text_def)
  moreover have "1 < b" using assms(1) by auto
  ultimately show ?thesis using numeric_digit_read(2,3) [OF positional_less assms(1)] by auto
qed

lemma numeral_text_ne [simp]: "numeral_text b uppercase n \<noteq> []"
  by (simp add: numeral_text_def positional.simps)

lemma span_text:
  assumes b: "b = 8 \<or> b = 10 \<or> b = 16" and pre: "pre = [] \<or> is_signed \<and> pre = ''-''"
  shows "numeral_in (int b) is_signed (pre @ numeral_text b uppercase n) (int b)"
proof -
  let ?t = "numeral_text b uppercase n" and ?str = "pre @ numeral_text b uppercase n"
  note chars = numeral_text_chars [OF b, of _ uppercase n]
  have "hd ?t \<notin> set ''+-''" using chars [of "hd ?t"] by auto
  then have sign: "sign_length ?str is_signed = length pre" using pre by (auto simp: sign_length_def)
  have "?t ! 1 \<notin> set ''xX''" if "2 < length ?t" using chars [OF nth_mem, of 1] that by auto
  then have "span_prefix ?str (length pre) (int b) = (length pre, int b)"
    using b by (auto simp: span_prefix_def nth_append)
  moreover have "span_loop (if int b > 10 then 10 else int b) (base_letters (int b)) (int (length pre)) (int (length pre) - 1) ?t
      = (int (length pre) + int (length ?t), int (length pre) + int (length ?t))"
    using chars by (subst span_loop_all) auto
  ultimately have "IntArg_span ?str is_signed (int b) = (length ?str, int b)"
    by (simp add: IntArg_span_def sign nat_add_distrib)
  then show ?thesis using b by (auto simp: numeral_in_def)
qed


lemma span_text_default:
  assumes pre: "pre = [] \<or> is_signed \<and> pre = ''-''" and n: "0 < n"
  shows "numeral_in 0 is_signed (pre @ numeral_text 10 uppercase n) 10"
proof -
  let ?t = "numeral_text 10 uppercase n" and ?str = "pre @ numeral_text 10 uppercase n"
  have span: "IntArg_span ?str is_signed 10 = (length ?str, 10)"
    using span_text [OF _ pre, of 10 uppercase n] by (simp add: numeral_in_def)
  define d where "d = hd (positional 10 n)"
  have "positional 10 n \<noteq> []" by (simp add: positional.simps)
  then have "0 < d" "d < 10" "hd ?t = numeric_digits uppercase ! d"
    using positional_hd [of 10 n] positional_less [of 10 d n] n by (auto simp: d_def numeral_text_def hd_map)
  moreover have "\<forall>d \<in> set [1..<10]. \<forall>u \<in> {True, False}. numeric_digits u ! d \<noteq> CHR ''0''" by code_simp
  ultimately have "hd ?t \<noteq> CHR ''0''" by (cases uppercase) auto
  moreover have "?str ! length pre = hd ?t" by (simp add: nth_append hd_conv_nth)
  moreover have "hd ?t \<notin> set ''+-''" using numeral_text_chars [of 10 "hd ?t" uppercase n] by auto
  then have "sign_length ?str is_signed = length pre" using pre by (auto simp: sign_length_def)
  ultimately have "IntArg_span ?str is_signed 0 = IntArg_span ?str is_signed 10"
    by (simp add: IntArg_span_def span_prefix_def)
  then show ?thesis using span by (simp add: numeral_in_def)
qed

lemma span_text_zero: "numeral_in 0 is_signed (numeral_text 10 uppercase 0) 8 \<and> denoted 8 (numeral_text 10 uppercase 0) = 0"
proof -
  have "numeral_text 10 uppercase 0 = ''0''" by (simp add: numeral_text_def positional.simps numeric_digits_def)
  moreover have "\<forall>s \<in> {True, False}. numeral_in 0 s ''0'' 8 \<and> denoted 8 ''0'' = 0" by code_simp
  ultimately show ?thesis by (cases is_signed) simp_all
qed

text \<open>The printed text of \<open>n\<close>, with a minus sign or without, as a numeral: in base \<open>b\<close> for its own base or for no base.\<close>

lemma text_numeral:
  assumes b: "b = 8 \<or> b = 10 \<or> b = 16" and base: "base = int b \<or> base = 0 \<and> b = 10" and pre: "pre = [] \<or> is_signed \<and> pre = ''-'' \<and> 0 < n"
  obtains b' where "numeral_in base is_signed (pre @ numeral_text b uppercase n) b'"
    "number_of b' is_signed (pre @ numeral_text b uppercase n) = (if pre = [] then int n else - int n)"
proof -
  let ?str = "pre @ numeral_text b uppercase n"
  have "denote_step (int b) CHR ''-'' k = k" for k by (simp add: denote_step_def digit_value_def char_code_def)
  then have d: "denoted (int b) ?str = n" using pre denoted_numeral [OF b, of uppercase n] by (auto simp: denoted_def)
  have "hd (numeral_text b uppercase n) \<noteq> CHR ''-''" using numeral_text_chars [OF b, of "hd (numeral_text b uppercase n)" uppercase n] by auto
  then have neg: "is_negative is_signed ?str \<longleftrightarrow> pre \<noteq> []" using pre by (auto simp: is_negative_def)
  show ?thesis
  proof (cases "base = 0 \<and> n = 0")
    case True
    then show ?thesis
      using that [of 8] span_text_zero [of is_signed uppercase] base b pre neg by (auto simp: number_of_def)
  next
    case False
    then have "numeral_in base is_signed ?str (int b)"
      using base b pre span_text [OF b, of pre is_signed uppercase n] span_text_default [of pre is_signed n uppercase] by auto
    then show ?thesis using that [of "int b"] d neg by (auto simp: number_of_def)
  qed
qed

section \<open>Properties\<close>

text \<open>(C31) Printing an unsigned number in base 8, 10 or 16 always ends, with the positional numeral of the number;
  in particular the division by ten out of shifts and additions is division by ten.\<close>

theorem append_numeric_prints:
  assumes "b = 8 \<or> b = 10 \<or> b = 16"
  shows "append_numeric num (int b) uppercase = Some (Inr (numeral_text b uppercase (unat num)))"
  by (rule append_numeric_eq [OF assms])

theorem append_numeric_prints_witness:
  "append_numeric 18446744073709551615 10 False = Some (Inr ''18446744073709551615'')"
proof -
  have "numeral_text 10 False 18446744073709551615 = ''18446744073709551615''"
    by (simp add: numeral_text_def positional.simps numeric_digits_def)
  then show ?thesis using append_numeric_prints [of 10 18446744073709551615 False] by simp
qed

text \<open>What reading a number into a type of the width of \<open>'v\<close> is to give.\<close>

definition read_as :: "bool \<Rightarrow> int \<Rightarrow> num_status \<times> 'v :: len word option \<Rightarrow> bool" where
  "read_as is_signed n r \<longleftrightarrow> (let lo = type_min is_signed LENGTH('v); hi = type_max is_signed LENGTH('v) in
     fst r = (if lo \<le> n \<and> n \<le> hi then status_ok else status_range)
     \<and> map_option (if is_signed then sint else uint) (snd r) = Some (clamp lo hi n))"

lemma read_as_of_int:
  fixes is_signed :: bool and n :: int
  defines "lo \<equiv> type_min is_signed LENGTH('v :: len)" and "hi \<equiv> type_max is_signed LENGTH('v)"
  shows "read_as is_signed n (if lo \<le> n \<and> n \<le> hi then status_ok else status_range, Some (of_int (clamp lo hi n) :: 'v word))"
proof -
  have "lo \<le> clamp lo hi n" "clamp lo hi n \<le> hi" by (auto simp: clamp_def lo_def hi_def type_min_def type_max_def)
  then have "(if is_signed then sint else uint) (of_int (clamp lo hi n) :: 'v word) = clamp lo hi n"
    by (auto simp: lo_def hi_def type_min_def type_max_def uint_word_of_int sint_sbintrunc' signed_take_bit_int_eq_self split: if_splits)
  then show ?thesis by (simp add: read_as_def lo_def hi_def Let_def)
qed

text \<open>(C30) A numeral is read as the number its digits denote, and as the nearest bound with a range status when
  that is no value of the type: for types of 8, 16 and 32 bits, and for 64 bits when there is no minus sign.\<close>

theorem int_parse_saturates:
  assumes "numeral_in base is_signed str b" "LENGTH('v :: len) \<in> {8, 16, 32}"
  shows "read_as is_signed (number_of b is_signed str) (IntArg_parse_saturating base is_signed str :: num_status \<times> 'v word option)
    \<and> (\<not> is_negative is_signed str \<longrightarrow> read_as is_signed (number_of b is_signed str) (IntArg_parse_saturating base is_signed str :: num_status \<times> u64 option))"
proof -
  have "read_as is_signed (number_of b is_signed str) (IntArg_parse_saturating base is_signed str :: num_status \<times> 'v word option)"
    unfolding parse_one_limb [OF assms] by (rule read_as_of_int)
  moreover have "read_as is_signed (number_of b is_signed str) (IntArg_parse_saturating base is_signed str :: num_status \<times> u64 option)"
    if "\<not> is_negative is_signed str"
    using read_as_of_int [where 'v = 64, of is_signed "number_of b is_signed str"] unfolding parse_two_limbs [OF assms(1) that] by simp
  ultimately show ?thesis by blast
qed

theorem int_parse_saturates_witness:
  "numeral_in 0 True ''-0x1F_f'' 16 \<and> number_of 16 True ''-0x1F_f'' = - 511
    \<and> read_as True (- 511) (IntArg_parse_saturating 0 True ''-0x1F_f'' :: num_status \<times> 8 word option)
    \<and> (IntArg_parse_saturating 0 True ''-0x1F_f'' :: num_status \<times> 8 word option) = (status_range, Some 128)"
proof -
  have n: "numeral_in 0 True ''-0x1F_f'' 16" "number_of 16 True ''-0x1F_f'' = - 511"
    "(IntArg_parse_saturating 0 True ''-0x1F_f'' :: num_status \<times> 8 word option) = (status_range, Some 128)" by code_simp+
  then show ?thesis using int_parse_saturates [OF n(1), where 'v = 8] by simp
qed

text \<open>(C38) A negative 64-bit number is read wrongly as soon as both its limbs are not zero: the result is too large by
  \<open>2 ^ 32\<close>, since the loop that negates the limbs borrows only from limbs behind the last one that is not zero.
  The numbers up to \<open>2 ^ 32\<close> below the least value of the type are accepted as well.\<close>

theorem int64_negative_wrong:
  assumes "numeral_in base True str b" "hd str = CHR ''-''" "4294967296 < denoted b str"
    "denoted b str < 9223372041149743104" "denoted b str mod 4294967296 \<noteq> 0"
  shows "IntArg_parse base True str = Some (of_int (4294967296 + number_of b True str) :: u64)"
proof -
  let ?d = "denoted b str"
  have two: "0 < (2 :: nat)" and neg: "is_negative True str = True" using assms(2) by (simp_all add: is_negative_def)
  obtain v big where v: "length v = 2" "big \<and> 4294967296 ^ 2 \<le> ?d \<or> limbs_value v = ?d \<and> big = out_of_range (int (8 * 8 - (if True then 1 else 0))) True 0 v"
    and p: "IntArg_parse_limbs base str True 8 (replicate 2 0) =
      (length str, if big then status_range else status_ok, limbs_result True True 8 big v)"
    using parse_limbs_eq [OF assms(1) two, where sz = 8, unfolded neg] by blast
  obtain x y where xy: "v = [x, y]" using v(1) by (auto simp: length_Suc_conv numeral_2_eq_2)
  have d: "\<not> big" "limbs_value v = ?d"
    using v(2) assms(4) out_of_range_two_limbs(1) [of True x y] by (auto simp: xy)
  have "?d = unat x + 4294967296 * unat y" using d(2) by (simp add: xy)
  then have "x \<noteq> 0" "y \<noteq> 0" using assms(3,5) u32_bound [of x] by auto
  then have "limbs_result True True 8 big v = [- x, - y]" using d(1) by (simp add: limbs_result_def xy negate_two_limbs)
  moreover have "limbs_value [- x, - y] = 18446744073709551616 + 4294967296 - ?d"
    using \<open>x \<noteq> 0\<close> \<open>y \<noteq> 0\<close> d(2) u32_bound [of x] u32_bound [of y] by (simp add: xy unat_uminus_limb)
  ultimately have "(extract_integer (limbs_result True True 8 big v) :: u64) = of_nat (18446744073709551616 + 4294967296 - ?d)"
    using extract_two_limbs [of "- x" "- y"] by simp
  also have "\<dots> = of_int (4294967296 + number_of b True str)"
    using assms(4) by (simp add: of_nat_diff number_of_def neg)
  finally show ?thesis using d(1) p by (simp add: IntArg_parse_def IntArg_parse_saturating_def Let_def)
qed

theorem int64_negative_wrong_witness:
  "IntArg_parse 0 True ''-4294967297'' = Some (of_int (- 1) :: u64)"
proof -
  have "numeral_in 0 True ''-4294967297'' 10" by code_simp
  moreover have "denoted 10 ''-4294967297'' = 4294967297"
    by (simp add: denoted_def denote_step_def digit_value_def base_letters_def char_code_def)
  ultimately show ?thesis
    using int64_negative_wrong [of 0 "''-4294967297''" 10] by (simp add: number_of_def is_negative_def)
qed

text \<open>(C29) What is printed is read back: every unsigned 64-bit number and every 32-bit \<^verbatim>\<open>int\<close>, in base 8, 10 and 16,
  and in base 10 also by a reader that finds out the base itself.\<close>

theorem number_text_roundtrip:
  assumes "b = 8 \<or> b = 10 \<or> b = 16" "base = int b \<or> base = 0 \<and> b = 10" "int32_range i"
  shows "\<exists>s t. append_numeric num (int b) uppercase = Some (Inr s) \<and> IntArg_parse base False s = Some num
    \<and> append_numeric_signed i (int b) uppercase = Some (Inr t) \<and> IntArg_parse base True t = Some (of_int i :: u32)"
proof -
  obtain b1 where b1: "numeral_in base False (numeral_text b uppercase (unat num)) b1"
    "number_of b1 False (numeral_text b uppercase (unat num)) = int (unat num)"
    using text_numeral [OF assms(1,2), of "[]" False "unat num" uppercase] by auto
  have "type_min False 64 \<le> int (unat num)" "int (unat num) \<le> type_max False 64"
    using unsigned_less [of num, where 'a = int] by (simp_all add: type_min_def type_max_def)
  then have u: "IntArg_parse base False (numeral_text b uppercase (unat num)) = Some num"
    using parse_two_limbs [OF b1(1)] b1(2) by (simp add: IntArg_parse_def is_negative_def clamp_def)
  define pre where "pre = (if i < 0 then ''-'' else [])"
  define n where "n = nat \<bar>i\<bar>"
  have pre: "pre = [] \<or> True \<and> pre = ''-'' \<and> 0 < n" and i: "(if pre = [] then int n else - int n) = i"
    by (auto simp: pre_def n_def)
  obtain b2 where b2: "numeral_in base True (pre @ numeral_text b uppercase n) b2"
    "number_of b2 True (pre @ numeral_text b uppercase n) = i"
    using text_numeral [OF assms(1,2) pre, of uppercase] unfolding i by blast
  have "type_min True 32 \<le> i" "i \<le> type_max True 32" using assms(3) by (simp_all add: int32_range_def type_min_def type_max_def)
  then have "IntArg_parse base True (pre @ numeral_text b uppercase n) = Some (of_int i :: u32)"
    using parse_one_limb [OF b2(1), where 'v = 32] b2(2) by (simp add: IntArg_parse_def clamp_def)
  moreover have "\<bar>i\<bar> < 18446744073709551616" using assms(3) by (auto simp: int32_range_def)
  then have "unat (of_int \<bar>i\<bar> :: u64) = n" by (simp add: n_def unat_eq_nat_uint uint_word_of_int)
  then have "append_numeric_signed i (int b) uppercase = Some (Inr (pre @ numeral_text b uppercase n))"
    using assms(3) append_numeric_eq [OF assms(1), of "of_int \<bar>i\<bar>" uppercase]
    by (auto simp: append_numeric_signed_def int64_range_def int32_range_def pre_def)
  ultimately show ?thesis using append_numeric_eq [OF assms(1), of num uppercase] u by auto
qed

theorem number_text_roundtrip_witness:
  "\<exists>s t. append_numeric 255 16 True = Some (Inr s) \<and> IntArg_parse 16 False s = Some (255 :: u64)
    \<and> append_numeric_signed (- 2147483648) 16 True = Some (Inr t) \<and> IntArg_parse 16 True t = Some (of_int (- 2147483648) :: u32)"
  using number_text_roundtrip [of 16 16 "- 2147483648" 255 True] by (simp add: int32_range_def)

end
