(* ===== verification/Timestamps.thy ===== *)
theory Timestamps
  imports IntText "HOL-Library.Signed_Division"
begin

text \<open>
  Timestamp (\<^verbatim>\<open>include/click/timestamp.hh\<close>): moments and intervals.  The class has three
  representations, chosen when the program is compiled: one 64-bit count of subseconds
  (\<^verbatim>\<open>TIMESTAMP_REP_FLAT64\<close>, here \<open>flat\<close>), two 32-bit fields (here \<open>pair\<close>), and the same two fields
  on which additions, subtractions and comparisons work as on one 64-bit integer
  (\<^verbatim>\<open>TIMESTAMP_MATH_FLAT64\<close> on a little-endian host, here \<open>math\<close>).  A subsecond is a microsecond or,
  with \<open>nano\<close>, a nanosecond.  Overflow of a signed operation is a fault.

  The contract \<open>timestamp_rep\<close> says that a representation is an integer number of subseconds;
  its three interpretations are the three representations.  Shown: expressions over timestamps
  have the same seconds, subseconds and order in all of them; whatever does not overflow is well
  formed; conversions from milliseconds are undone; and the conversions of negative timestamps
  round differently.
\<close>

section \<open>Units\<close>

definition subsec_per_sec :: "bool \<Rightarrow> int" where
  "subsec_per_sec nano = (if nano then 1000000000 else 1000000)"

definition msec_to_subsec :: "bool \<Rightarrow> u32 \<Rightarrow> u32" where "msec_to_subsec nano x = x * of_int (subsec_per_sec nano div 1000)"
definition usec_to_subsec :: "bool \<Rightarrow> u32 \<Rightarrow> u32" where "usec_to_subsec nano x = x * of_int (subsec_per_sec nano div 1000000)"
definition nsec_to_subsec :: "bool \<Rightarrow> u32 \<Rightarrow> u32" where "nsec_to_subsec nano x = x div of_int (1000000000 div subsec_per_sec nano)"
definition subsec_to_msec :: "bool \<Rightarrow> u32 \<Rightarrow> u32" where "subsec_to_msec nano x = x div of_int (subsec_per_sec nano div 1000)"
definition subsec_to_usec :: "bool \<Rightarrow> u32 \<Rightarrow> u32" where "subsec_to_usec nano x = x div of_int (subsec_per_sec nano div 1000000)"
definition subsec_to_nsec :: "bool \<Rightarrow> u32 \<Rightarrow> u32" where "subsec_to_nsec nano x = x * of_int (1000000000 div subsec_per_sec nano)"

text \<open>Conversion to a 32-bit \<^verbatim>\<open>int\<close>, division of 64-bit integers (towards zero), and \<^verbatim>\<open>int_remainder\<close>: quotient and remainder.\<close>

definition to_int32 :: "int \<Rightarrow> int" where "to_int32 i = sint (of_int i :: u32)"

definition int_divide :: "int \<Rightarrow> int \<Rightarrow> int" where "int_divide a b = a sdiv b"

definition int_remainder :: "int \<Rightarrow> int \<Rightarrow> int \<times> u32" where
  "int_remainder a b =
     (let quot = (if a < 0 then - ((- (a + 1)) sdiv b) - 1 else a sdiv b) in (quot, of_int (a - quot * b)))"

text \<open>
  The same two on a 32-bit Linux kernel, which divides with the kernel's \<^verbatim>\<open>do_div\<close>: a parameter,
  which takes dividend and divisor and returns quotient and remainder.
\<close>

definition int_divide_kernel :: "(int \<Rightarrow> int \<Rightarrow> int \<times> int) \<Rightarrow> int \<Rightarrow> int \<Rightarrow> int" where
  "int_divide_kernel do_div a b =
     (if a < 0 then - fst (do_div (- (a + 1)) b) - 1 else fst (do_div a b))"

definition int_remainder_kernel :: "(int \<Rightarrow> int \<Rightarrow> int \<times> int) \<Rightarrow> int \<Rightarrow> int \<Rightarrow> int \<times> u32" where
  "int_remainder_kernel do_div a b =
     (if a < 0
      then (case do_div (- (a + 1)) b of (a_abs, rem) \<Rightarrow> (- a_abs - 1, if rem \<noteq> 0 then of_int (b - rem) else 0))
      else (case do_div a b of (quot, rem) \<Rightarrow> (quot, of_int rem)))"

section \<open>One count\<close>

definition flat_assign :: "bool \<Rightarrow> int \<Rightarrow> u32 \<Rightarrow> int" where
  "flat_assign nano sec subsec = sec * subsec_per_sec nano + uint subsec"

definition flat_sec :: "bool \<Rightarrow> int \<Rightarrow> int" where
  "flat_sec nano x = to_int32 (if x < 0 then - int_divide (- (x + 1)) (subsec_per_sec nano) - 1
     else int_divide x (subsec_per_sec nano))"

definition flat_subsec :: "bool \<Rightarrow> int \<Rightarrow> u32" where
  "flat_subsec nano x = of_int x - of_int (flat_sec nano x) * of_int (subsec_per_sec nano)"

definition flat_less :: "int \<Rightarrow> int \<Rightarrow> bool" where "flat_less a b \<longleftrightarrow> a < b"

definition flat_plus :: "int \<Rightarrow> int \<Rightarrow> int res" where
  "flat_plus a b = guard (int64_range (a + b)) SignedOverflow (Inr (a + b))"

definition flat_minus :: "int \<Rightarrow> int \<Rightarrow> int res" where
  "flat_minus a b = guard (int64_range (a - b)) SignedOverflow (Inr (a - b))"

definition flat_negate :: "int \<Rightarrow> int res" where
  "flat_negate a = guard (int64_range (- a)) SignedOverflow (Inr (- a))"

definition flat_msecval :: "bool \<Rightarrow> int \<Rightarrow> int" where
  "flat_msecval nano x = int_divide x (subsec_per_sec nano div 1000)"

definition flat_usecval :: "bool \<Rightarrow> int \<Rightarrow> int" where
  "flat_usecval nano x = int_divide x (subsec_per_sec nano div 1000000)"

definition flat_make_msec :: "bool \<Rightarrow> int \<Rightarrow> int res" where
  "flat_make_msec nano m = guard (int64_range (m * (subsec_per_sec nano div 1000))) SignedOverflow
     (Inr (m * (subsec_per_sec nano div 1000)))"

definition flat_make_usec :: "bool \<Rightarrow> int \<Rightarrow> int res" where
  "flat_make_usec nano m = guard (int64_range (m * (subsec_per_sec nano div 1000000))) SignedOverflow
     (Inr (m * (subsec_per_sec nano div 1000000)))"

definition flat_make_nsec :: "bool \<Rightarrow> int \<Rightarrow> int" where
  "flat_make_nsec nano n = int_divide n (1000000000 div subsec_per_sec nano)"

section \<open>Two fields\<close>

record ts_pair =
  tp_sec :: int
  tp_subsec :: int

definition pair_assign :: "int \<Rightarrow> u32 \<Rightarrow> ts_pair" where
  "pair_assign sec subsec = \<lparr>tp_sec = sec, tp_subsec = sint subsec\<rparr>"

definition pair_subsec :: "ts_pair \<Rightarrow> u32" where "pair_subsec t = of_int (tp_subsec t)"

definition pair_less :: "ts_pair \<Rightarrow> ts_pair \<Rightarrow> bool" where
  "pair_less a b \<longleftrightarrow> tp_sec a < tp_sec b \<or> tp_sec a = tp_sec b \<and> pair_subsec a < pair_subsec b"

definition pair_add_fix :: "bool \<Rightarrow> ts_pair \<Rightarrow> ts_pair res" where
  "pair_add_fix nano t =
     (if subsec_per_sec nano \<le> tp_subsec t
      then guard (int32_range (tp_sec t + 1)) SignedOverflow
        (Inr \<lparr>tp_sec = tp_sec t + 1, tp_subsec = tp_subsec t - subsec_per_sec nano\<rparr>)
      else Inr t)"

definition pair_sub_fix :: "bool \<Rightarrow> ts_pair \<Rightarrow> ts_pair res" where
  "pair_sub_fix nano t =
     (if tp_subsec t < 0
      then guard (int32_range (tp_sec t - 1)) SignedOverflow
        (Inr \<lparr>tp_sec = tp_sec t - 1, tp_subsec = tp_subsec t + subsec_per_sec nano\<rparr>)
      else Inr t)"

definition pair_plus :: "bool \<Rightarrow> ts_pair \<Rightarrow> ts_pair \<Rightarrow> ts_pair res" where
  "pair_plus nano a b =
     guard (int32_range (tp_sec a + tp_sec b) \<and> int32_range (tp_subsec a + tp_subsec b)) SignedOverflow
       (pair_add_fix nano \<lparr>tp_sec = tp_sec a + tp_sec b, tp_subsec = tp_subsec a + tp_subsec b\<rparr>)"

definition pair_minus :: "bool \<Rightarrow> ts_pair \<Rightarrow> ts_pair \<Rightarrow> ts_pair res" where
  "pair_minus nano a b =
     guard (int32_range (tp_sec a - tp_sec b) \<and> int32_range (tp_subsec a - tp_subsec b)) SignedOverflow
       (pair_sub_fix nano \<lparr>tp_sec = tp_sec a - tp_sec b, tp_subsec = tp_subsec a - tp_subsec b\<rparr>)"

text \<open>The negation of both representations with fields, with their own \<^verbatim>\<open>sec\<close>, \<^verbatim>\<open>subsec\<close> and \<^verbatim>\<open>assign\<close>.\<close>

definition fields_negate :: "bool \<Rightarrow> (int \<Rightarrow> u32 \<Rightarrow> 't) \<Rightarrow> ('t \<Rightarrow> int) \<Rightarrow> ('t \<Rightarrow> u32) \<Rightarrow> 't \<Rightarrow> 't res" where
  "fields_negate nano asg sec subsec a =
     (if subsec a \<noteq> 0
      then guard (int32_range (sec a + 1) \<and> int32_range (- (sec a + 1))) SignedOverflow
        (Inr (asg (- (sec a + 1)) (of_int (subsec_per_sec nano) - subsec a)))
      else guard (int32_range (- sec a)) SignedOverflow (Inr (asg (- sec a) 0)))"

definition fields_msecval :: "bool \<Rightarrow> int \<Rightarrow> u32 \<Rightarrow> int" where
  "fields_msecval nano sec subsec = sec * 1000 + uint (subsec_to_msec nano subsec)"

definition fields_usecval :: "bool \<Rightarrow> int \<Rightarrow> u32 \<Rightarrow> int" where
  "fields_usecval nano sec subsec = sec * 1000000 + uint (subsec_to_usec nano subsec)"

definition pair_make_msec :: "bool \<Rightarrow> int \<Rightarrow> ts_pair" where
  "pair_make_msec nano m =
     (case int_remainder m 1000 of (quot, rem) \<Rightarrow>
        \<lparr>tp_sec = to_int32 quot, tp_subsec = sint rem * (subsec_per_sec nano div 1000)\<rparr>)"

definition pair_make_usec :: "bool \<Rightarrow> int \<Rightarrow> ts_pair" where
  "pair_make_usec nano m =
     (case int_remainder m 1000000 of (quot, rem) \<Rightarrow>
        \<lparr>tp_sec = to_int32 quot, tp_subsec = sint rem * (subsec_per_sec nano div 1000000)\<rparr>)"

definition pair_make_nsec :: "bool \<Rightarrow> int \<Rightarrow> ts_pair" where
  "pair_make_nsec nano n =
     (case int_remainder n 1000000000 of (quot, rem) \<Rightarrow>
        \<lparr>tp_sec = to_int32 quot, tp_subsec = sint rem sdiv (1000000000 div subsec_per_sec nano)\<rparr>)"

section \<open>Two fields in one integer\<close>

text \<open>The union: the integer \<open>x\<close> with the subseconds in its lower half.\<close>

definition math_rep :: "int \<Rightarrow> int \<Rightarrow> int" where "math_rep sec subsec = sec * 4294967296 + subsec mod 4294967296"

definition math_sec :: "int \<Rightarrow> int" where "math_sec x = x div 4294967296"

definition math_field :: "int \<Rightarrow> int" where "math_field x = to_int32 x"

definition math_assign :: "int \<Rightarrow> u32 \<Rightarrow> int" where "math_assign sec subsec = math_rep sec (sint subsec)"

definition math_subsec :: "int \<Rightarrow> u32" where "math_subsec x = of_int (math_field x)"

definition math_add_fix :: "bool \<Rightarrow> int \<Rightarrow> int res" where
  "math_add_fix nano x =
     (if subsec_per_sec nano \<le> math_field x
      then let y = x + uint (of_int (- subsec_per_sec nano) :: u32) in guard (int64_range y) SignedOverflow (Inr y)
      else Inr x)"

definition math_sub_fix :: "bool \<Rightarrow> int \<Rightarrow> int" where
  "math_sub_fix nano x = (if math_field x < 0 then math_rep (math_sec x) (math_field x + subsec_per_sec nano) else x)"

definition math_plus :: "bool \<Rightarrow> int \<Rightarrow> int \<Rightarrow> int res" where
  "math_plus nano a b = guard (int64_range (a + b)) SignedOverflow (math_add_fix nano (a + b))"

definition math_minus :: "bool \<Rightarrow> int \<Rightarrow> int \<Rightarrow> int res" where
  "math_minus nano a b = guard (int64_range (a - b)) SignedOverflow (Inr (math_sub_fix nano (a - b)))"

definition math_less :: "int \<Rightarrow> int \<Rightarrow> bool" where "math_less a b \<longleftrightarrow> a < b"

section \<open>Operations of every representation\<close>

text \<open>\<^verbatim>\<open>msec_ceil\<close> and \<^verbatim>\<open>usec_ceil\<close>, for a unit of \<open>n\<close> subseconds.\<close>

definition ts_ceil :: "(int \<Rightarrow> u32 \<Rightarrow> 't) \<Rightarrow> ('t \<Rightarrow> u32) \<Rightarrow> ('t \<Rightarrow> 't \<Rightarrow> 't res) \<Rightarrow> u32 \<Rightarrow> 't \<Rightarrow> 't res" where
  "ts_ceil asg subsec add n t =
     (let x = subsec t mod n in if x \<noteq> 0 then add t (asg 0 (n - x)) else Inr t)"

text \<open>Expressions over timestamps.\<close>

datatype ts_expr = TAssign int u32 | TPlus ts_expr ts_expr | TMinus ts_expr ts_expr | TNegate ts_expr

fun ts_eval :: "(int \<Rightarrow> u32 \<Rightarrow> 't) \<Rightarrow> ('t \<Rightarrow> 't \<Rightarrow> 't res) \<Rightarrow> ('t \<Rightarrow> 't \<Rightarrow> 't res) \<Rightarrow> ('t \<Rightarrow> 't res) \<Rightarrow> ts_expr \<Rightarrow> 't res" where
  "ts_eval asg add sub neg (TAssign sec subsec) = Inr (asg sec subsec)"
| "ts_eval asg add sub neg (TPlus e f) =
     bind_res (ts_eval asg add sub neg e) (\<lambda>a. bind_res (ts_eval asg add sub neg f) (add a))"
| "ts_eval asg add sub neg (TMinus e f) =
     bind_res (ts_eval asg add sub neg e) (\<lambda>a. bind_res (ts_eval asg add sub neg f) (sub a))"
| "ts_eval asg add sub neg (TNegate e) = bind_res (ts_eval asg add sub neg e) neg"


section \<open>The contract of a representation\<close>

text \<open>Counts of subseconds: those whose seconds fit 32 bits, and those that stay away from both ends by a second.\<close>

definition ts_range :: "int \<Rightarrow> int \<Rightarrow> bool" where
  "ts_range P v \<longleftrightarrow> - 2147483648 * P \<le> v \<and> v < 2147483648 * P"

definition ts_safe :: "int \<Rightarrow> int \<Rightarrow> bool" where
  "ts_safe P v \<longleftrightarrow> - 2147483647 * P \<le> v \<and> v < 2147483647 * P"

text \<open>The count an expression stands for; constants are well formed and no subexpression leaves the safe range.\<close>

fun ts_value :: "int \<Rightarrow> ts_expr \<Rightarrow> int" where
  "ts_value P (TAssign sec subsec) = sec * P + uint subsec"
| "ts_value P (TPlus e f) = ts_value P e + ts_value P f"
| "ts_value P (TMinus e f) = ts_value P e - ts_value P f"
| "ts_value P (TNegate e) = - ts_value P e"

fun ts_consts :: "int \<Rightarrow> ts_expr \<Rightarrow> bool" where
  "ts_consts P (TAssign sec subsec) \<longleftrightarrow> int32_range sec \<and> uint subsec < P"
| "ts_consts P (TPlus e f) \<longleftrightarrow> ts_consts P e \<and> ts_consts P f"
| "ts_consts P (TMinus e f) \<longleftrightarrow> ts_consts P e \<and> ts_consts P f"
| "ts_consts P (TNegate e) \<longleftrightarrow> ts_consts P e"

fun ts_safe_expr :: "int \<Rightarrow> ts_expr \<Rightarrow> bool" where
  "ts_safe_expr P (TAssign sec subsec) \<longleftrightarrow> True"
| "ts_safe_expr P (TPlus e f) \<longleftrightarrow> ts_safe_expr P e \<and> ts_safe_expr P f \<and> ts_safe P (ts_value P e + ts_value P f)"
| "ts_safe_expr P (TMinus e f) \<longleftrightarrow> ts_safe_expr P e \<and> ts_safe_expr P f \<and> ts_safe P (ts_value P e - ts_value P f)"
| "ts_safe_expr P (TNegate e) \<longleftrightarrow> ts_safe_expr P e \<and> ts_safe P (- ts_value P e)"

lemma least_multiple:
  fixes c v k :: int
  assumes "k dvd c" "v \<le> c" "c < v + k"
  shows "c = (v + k - 1) div k * k"
proof -
  obtain q where c: "c = k * q" using assms(1) ..
  then have "v + k - 1 = k * q + (v + k - 1 - c)" by simp
  then have "(v + k - 1) div k = q" by (rule int_div_pos_eq) (use assms in linarith)+
  then show ?thesis using c by simp
qed

locale timestamp_rep =
  fixes P :: int
    and ok :: "'t \<Rightarrow> bool"
    and val :: "'t \<Rightarrow> int"
    and asg :: "int \<Rightarrow> u32 \<Rightarrow> 't"
    and sec :: "'t \<Rightarrow> int"
    and subsec :: "'t \<Rightarrow> u32"
    and lt :: "'t \<Rightarrow> 't \<Rightarrow> bool"
    and add :: "'t \<Rightarrow> 't \<Rightarrow> 't res"
    and sub :: "'t \<Rightarrow> 't \<Rightarrow> 't res"
    and neg :: "'t \<Rightarrow> 't res"
  assumes unit: "1000 \<le> P" "P \<le> 1000000000"
    and assigned: "int32_range s \<Longrightarrow> uint u < P \<Longrightarrow> ok (asg s u) \<and> val (asg s u) = s * P + uint u"
    and seconds: "ok t \<Longrightarrow> ts_range P (val t) \<Longrightarrow> sec t = val t div P"
    and subseconds: "ok t \<Longrightarrow> uint (subsec t) = val t mod P"
    and ordered: "ok a \<Longrightarrow> ok b \<Longrightarrow> lt a b \<longleftrightarrow> val a < val b"
    and add_ok: "ok a \<Longrightarrow> ok b \<Longrightarrow> add a b = Inr c \<Longrightarrow> ok c \<and> val c = val a + val b"
    and add_returns: "ok a \<Longrightarrow> ok b \<Longrightarrow> ts_safe P (val a + val b) \<Longrightarrow> \<exists>c. add a b = Inr c"
    and sub_ok: "ok a \<Longrightarrow> ok b \<Longrightarrow> sub a b = Inr c \<Longrightarrow> ok c \<and> val c = val a - val b"
    and sub_returns: "ok a \<Longrightarrow> ok b \<Longrightarrow> ts_safe P (val a - val b) \<Longrightarrow> \<exists>c. sub a b = Inr c"
    and neg_ok: "ok a \<Longrightarrow> neg a = Inr c \<Longrightarrow> ok c \<and> val c = - val a"
    and neg_returns: "ok a \<Longrightarrow> ts_safe P (- val a) \<Longrightarrow> \<exists>c. neg a = Inr c"
begin

lemma eval_ok:
  assumes "ts_consts P e" "ts_eval asg add sub neg e = Inr t"
  shows "ok t \<and> val t = ts_value P e"
  using assms
proof (induction e arbitrary: t)
  case (TAssign s u)
  then show ?case using assigned by auto
next
  case (TPlus e f)
  then obtain a b where "ts_eval asg add sub neg e = Inr a" "ts_eval asg add sub neg f = Inr b" "add a b = Inr t"
    by (auto simp: bind_res_Inr)
  then show ?case using TPlus add_ok [of a b t] by simp
next
  case (TMinus e f)
  then obtain a b where "ts_eval asg add sub neg e = Inr a" "ts_eval asg add sub neg f = Inr b" "sub a b = Inr t"
    by (auto simp: bind_res_Inr)
  then show ?case using TMinus sub_ok [of a b t] by simp
next
  case (TNegate e)
  then obtain a where "ts_eval asg add sub neg e = Inr a" "neg a = Inr t" by (auto simp: bind_res_Inr)
  then show ?case using TNegate neg_ok [of a t] by simp
qed

lemma eval_returns:
  assumes "ts_consts P e" "ts_safe_expr P e"
  obtains t where "ts_eval asg add sub neg e = Inr t" "ok t" "val t = ts_value P e"
proof -
  have "\<exists>t. ts_eval asg add sub neg e = Inr t" using assms
  proof (induction e)
    case (TPlus e f)
    then obtain a b where ab: "ts_eval asg add sub neg e = Inr a" "ts_eval asg add sub neg f = Inr b" by auto
    then show ?case using TPlus.prems eval_ok [OF _ ab(1)] eval_ok [OF _ ab(2)] add_returns [of a b] by auto
  next
    case (TMinus e f)
    then obtain a b where ab: "ts_eval asg add sub neg e = Inr a" "ts_eval asg add sub neg f = Inr b" by auto
    then show ?case using TMinus.prems eval_ok [OF _ ab(1)] eval_ok [OF _ ab(2)] sub_returns [of a b] by auto
  next
    case (TNegate e)
    then obtain a where a: "ts_eval asg add sub neg e = Inr a" by auto
    then show ?case using TNegate.prems eval_ok [OF _ a] neg_returns [of a] by auto
  qed simp
  then show ?thesis using that eval_ok [OF assms(1)] by blast
qed

text \<open>Rounding up goes to the least multiple of the unit that is not smaller.\<close>

lemma ceil_least:
  assumes t: "ok t" "ts_safe P (val t)" "ts_safe P (val t + uint n)" and n: "0 < uint n" "uint n dvd P"
  obtains c where "ts_ceil asg subsec add n t = Inr c" "ok c" "uint n dvd val c" "val t \<le> val c" "val c < val t + uint n"
proof -
  have "uint n \<le> P" using n(2) unit(1) by (intro zdvd_imp_le) simp_all
  define x where "x = subsec t mod n"
  have x: "uint x = val t mod uint n" using subseconds [OF t(1)] n(2) by (simp add: x_def uint_mod mod_mod_cancel)
  then have less: "uint x < uint n" "0 \<le> uint x" using n(1) by simp_all
  show ?thesis
  proof (cases "uint x = 0")
    case True
    then have "x = 0" by (simp add: unsigned_eq_0_iff)
    moreover have "uint n dvd val t" using x True by (simp add: dvd_eq_mod_eq_0)
    ultimately show ?thesis using that [of t] t(1) n(1) by (simp add: ts_ceil_def x_def Let_def)
  next
    case False
    then have ne: "x \<noteq> 0" by (simp add: unsigned_eq_0_iff)
    have "uint (n - x) = uint n - uint x" using less by (simp add: uint_sub_if')
    then have a: "ok (asg 0 (n - x))" "val (asg 0 (n - x)) = uint n - uint x"
      using assigned [of 0 "n - x"] less False \<open>uint n \<le> P\<close> by (simp_all add: int32_range_def)
    have "ts_safe P (val t + (uint n - uint x))" using t(2,3) less unfolding ts_safe_def by linarith
    then obtain c where c: "add t (asg 0 (n - x)) = Inr c" using add_returns [OF t(1) a(1)] a(2) by auto
    then have "ok c" "val c = val t + (uint n - uint x)" using add_ok [OF t(1) a(1) c] a(2) by simp_all
    moreover from this(2) have "val c = (val t - val t mod uint n) + uint n" using x by linarith
    then have "uint n dvd val c" by (simp only: dvd_add dvd_minus_mod dvd_refl)
    moreover have "ts_ceil asg subsec add n t = Inr c" using c ne by (simp add: ts_ceil_def x_def [symmetric] Let_def)
    moreover have "val t \<le> val c" "val c < val t + uint n" using calculation(2) less False by linarith+
    ultimately show ?thesis using that by blast
  qed
qed

lemma ceil_assigned:
  assumes "int32_range s" "uint u < P" "ts_safe P (s * P + uint u)" "ts_safe P (s * P + uint u + uint n)" "0 < uint n" "uint n dvd P"
  shows "\<exists>c. ts_ceil asg subsec add n (asg s u) = Inr c \<and> val c = (s * P + uint u + uint n - 1) div uint n * uint n"
proof -
  have t: "ok (asg s u)" "val (asg s u) = s * P + uint u" using assigned [OF assms(1,2)] by simp_all
  obtain c where c: "ts_ceil asg subsec add n (asg s u) = Inr c" "uint n dvd val c" "s * P + uint u \<le> val c" "val c < s * P + uint u + uint n"
    using ceil_least [OF t(1) _ _ assms(5,6)] assms(3,4) unfolding t(2) by blast
  show ?thesis using c(1) least_multiple [OF c(2-4)] by simp
qed

end

section \<open>The three representations satisfy it\<close>

lemma unit_bounds [simp]: "0 < subsec_per_sec nano" "1000 \<le> subsec_per_sec nano" "subsec_per_sec nano \<le> 1000000000" "subsec_per_sec nano \<noteq> 0" "0 \<le> subsec_per_sec nano"
  by (simp_all add: subsec_per_sec_def)

lemma sdiv_nonneg: "0 \<le> a \<Longrightarrow> 0 < b \<Longrightarrow> a sdiv b = a div b" for a b :: int
  by (cases "a = 0") (simp_all add: signed_divide_int_def)

lemma floor_by_truncation:
  fixes x P :: int
  assumes "0 < P"
  shows "(if x < 0 then - ((- (x + 1)) sdiv P) - 1 else x sdiv P) = x div P"
proof (cases "x < 0")
  case True
  have "- (x + 1) = P * (- (x div P) - 1) + (P - 1 - x mod P)" using mult_div_mod_eq [of P x] by (simp add: algebra_simps)
  then have "(- (x + 1)) div P = - (x div P) - 1"
    by (rule int_div_pos_eq) (use pos_mod_bound [OF assms, of x] pos_mod_sign [OF assms, of x] in linarith)+
  then show ?thesis using True assms by (simp add: sdiv_nonneg)
qed (use assms sdiv_nonneg [of x P] in simp)

lemma to_int32_self: "int32_range i \<Longrightarrow> to_int32 i = i"
  by (simp add: to_int32_def int32_range_def sint_sbintrunc' signed_take_bit_int_eq_self)

lemma of_int_to_int32 [simp]: "(of_int (to_int32 i) :: u32) = of_int i"
  by (simp add: to_int32_def)

lemma uint_of_int_small: "0 \<le> i \<Longrightarrow> i < 4294967296 \<Longrightarrow> uint (of_int i :: u32) = i"
  by (simp add: uint_word_of_int)

lemma flat_sec_floor: "flat_sec nano x = to_int32 (x div subsec_per_sec nano)"
  by (simp only: flat_sec_def int_divide_def floor_by_truncation [OF unit_bounds(1)])

lemma mod_unit:
  "0 \<le> x mod subsec_per_sec nano" "x mod subsec_per_sec nano < subsec_per_sec nano" "x mod subsec_per_sec nano < 4294967296"
  using pos_mod_bound [OF unit_bounds(1) [of nano], of x] unit_bounds(3) [of nano] by (simp_all, linarith)

lemma flat_subsec_mod: "uint (flat_subsec nano x) = x mod subsec_per_sec nano"
proof -
  let ?P = "subsec_per_sec nano"
  have "flat_subsec nano x = of_int (x - x div ?P * ?P)" by (simp add: flat_subsec_def flat_sec_floor)
  also have "x - x div ?P * ?P = x mod ?P" by (simp add: minus_div_mult_eq_mod)
  finally show ?thesis
    using mod_unit [of x nano] uint_of_int_small [of "x mod ?P"] by simp
qed

lemma div_bounds:
  fixes v P :: int
  assumes "0 < P"
  shows "a * P \<le> v \<Longrightarrow> a \<le> v div P" "v < b * P \<Longrightarrow> v div P < b"
proof -
  show "a \<le> v div P" if "a * P \<le> v" using zdiv_mono1 [OF that assms] assms by simp
  show "v div P < b" if "v < b * P"
    using zdiv_mono1 [of v "b * P - 1" P] that assms int_div_pos_eq [of "b * P - 1" P "b - 1" "P - 1"] by (simp add: algebra_simps)
qed

lemma range_seconds: "0 < P \<Longrightarrow> ts_range P v \<Longrightarrow> int32_range (v div P)"
  using div_bounds(1) [of P "- 2147483648" v] div_bounds(2) [of P v 2147483648] by (simp add: ts_range_def int32_range_def)

lemma safe_int64:
  assumes "ts_safe (subsec_per_sec nano) v"
  shows "int64_range v"
  using assms by (cases nano) (simp_all add: ts_safe_def int64_range_def subsec_per_sec_def)

interpretation flat: timestamp_rep "subsec_per_sec nano" int64_range "\<lambda>x. x" "flat_assign nano" "flat_sec nano" "flat_subsec nano"
  flat_less flat_plus flat_minus flat_negate for nano
proof
  fix s :: int and u :: u32
  assume "int32_range s" "uint u < subsec_per_sec nano"
  then show "int64_range (flat_assign nano s u) \<and> flat_assign nano s u = s * subsec_per_sec nano + uint u"
    unfolding flat_assign_def int32_range_def int64_range_def subsec_per_sec_def
    using uint_ge_0 [of u] by (cases nano) (simp_all only: if_True if_False, linarith+)
next
  fix t
  assume "ts_range (subsec_per_sec nano) t"
  then show "flat_sec nano t = t div subsec_per_sec nano"
    using range_seconds [OF unit_bounds(1)] by (simp add: flat_sec_floor to_int32_self)
qed (auto simp: flat_subsec_mod flat_less_def flat_plus_def flat_minus_def flat_negate_def guard_def safe_int64 split: if_splits)


text \<open>The fields of a well-formed timestamp.\<close>

definition fields_ok :: "bool \<Rightarrow> int \<Rightarrow> int \<Rightarrow> bool" where
  "fields_ok nano s u \<longleftrightarrow> int32_range s \<and> 0 \<le> u \<and> u < subsec_per_sec nano"

definition fields_val :: "bool \<Rightarrow> int \<Rightarrow> int \<Rightarrow> int" where
  "fields_val nano s u = s * subsec_per_sec nano + u"

lemma fields_div_mod:
  assumes "fields_ok nano s u"
  shows "fields_val nano s u div subsec_per_sec nano = s" "fields_val nano s u mod subsec_per_sec nano = u"
  using assms by (simp_all add: fields_ok_def fields_val_def)

lemma fields_less:
  assumes "fields_ok nano s u" "fields_ok nano s' u'"
  shows "fields_val nano s u < fields_val nano s' u' \<longleftrightarrow> s < s' \<or> s = s' \<and> u < u'"
proof -
  let ?P = "subsec_per_sec nano"
  have "s * ?P + u < s' * ?P + u'" if "s < s'"
  proof -
    have "(s + 1) * ?P \<le> s' * ?P" using that by (intro mult_right_mono) simp_all
    then show ?thesis using assms by (simp add: fields_ok_def algebra_simps)
  qed
  moreover have "s' * ?P + u' < s * ?P + u" if "s' < s"
  proof -
    have "(s' + 1) * ?P \<le> s * ?P" using that by (intro mult_right_mono) simp_all
    then show ?thesis using assms by (simp add: fields_ok_def algebra_simps)
  qed
  ultimately show ?thesis unfolding fields_val_def by (cases s s' rule: linorder_cases) auto
qed

text \<open>A small unsigned number keeps its value as a field.\<close>

lemma sint_small: "uint u < 2147483648 \<Longrightarrow> sint u = uint u" for u :: u32
proof -
  assume "uint u < 2147483648"
  then have "int32_range (uint u)" unfolding int32_range_def using uint_ge_0 [of u] by linarith
  then show ?thesis using to_int32_self [of "uint u"] by (simp add: to_int32_def)
qed

lemma unit_less: "uint u < subsec_per_sec nano \<Longrightarrow> sint u = uint u" for u :: u32
  using unit_bounds(3) [of nano] by (intro sint_small) linarith

text \<open>Where the sum of the seconds goes: nothing overflows in the safe range.\<close>

lemma safe_sum:
  assumes "ts_safe (subsec_per_sec nano) (fields_val nano s u)" "- subsec_per_sec nano < u" "u < 2 * subsec_per_sec nano"
  shows "int32_range s" "subsec_per_sec nano \<le> u \<Longrightarrow> int32_range (s + 1)" "u < 0 \<Longrightarrow> int32_range (s - 1)"
  using assms by (cases nano; simp add: ts_safe_def fields_val_def int32_range_def subsec_per_sec_def)+

lemma uint_unit [simp]: "uint (of_int (subsec_per_sec nano) :: u32) = subsec_per_sec nano"
  using unit_bounds(3) [of nano] by (intro uint_of_int_small) (simp, linarith)

lemma uint_eq_0: "uint u = 0 \<longleftrightarrow> u = 0" for u :: u32
  by (rule unsigned_eq_0_iff)

text \<open>Negation on fields.\<close>

lemma negate_fields:
  assumes ok: "fields_ok nano (sec a) (uint (subsec a))" and c: "fields_negate nano asg sec subsec a = Inr c"
  obtains s u where "c = asg s u" "int32_range s" "uint u < subsec_per_sec nano"
    "s * subsec_per_sec nano + uint u = - fields_val nano (sec a) (uint (subsec a))"
proof (cases "subsec a = 0")
  case True
  then show ?thesis using that [of "- sec a" 0] c by (simp add: fields_negate_def guard_Inr fields_val_def)
next
  case False
  let ?u = "of_int (subsec_per_sec nano) - subsec a :: u32"
  have "0 < uint (subsec a)" using False uint_eq_0 [of "subsec a"] uint_ge_0 [of "subsec a"] by linarith
  moreover have "uint ?u = subsec_per_sec nano - uint (subsec a)" using ok by (simp add: uint_sub_if' fields_ok_def)
  ultimately show ?thesis
    using that [of "- (sec a + 1)" ?u] c False by (simp add: fields_negate_def guard_Inr fields_val_def algebra_simps)
qed

lemma negate_safe:
  assumes "fields_ok nano s u" "ts_safe (subsec_per_sec nano) (- fields_val nano s u)"
  shows "int32_range (- s)" "int32_range (- (s + 1))" "u \<noteq> 0 \<Longrightarrow> int32_range (s + 1)"
  using assms unfolding ts_safe_def fields_val_def fields_ok_def int32_range_def subsec_per_sec_def
  by (cases nano; simp only: if_True if_False; linarith)+

lemma negate_returns:
  assumes "fields_ok nano (sec a) (uint (subsec a))" "ts_safe (subsec_per_sec nano) (- fields_val nano (sec a) (uint (subsec a)))"
  shows "\<exists>c. fields_negate nano asg sec subsec a = Inr c"
  using negate_safe [OF assms] uint_eq_0 [of "subsec a"] by (auto simp: fields_negate_def)

lemma pair_subsec_uint:
  assumes "fields_ok nano (tp_sec t) (tp_subsec t)"
  shows "uint (pair_subsec t) = tp_subsec t"
proof -
  have "0 \<le> tp_subsec t" "tp_subsec t < 4294967296"
    using assms unit_bounds(3) [of nano] unfolding fields_ok_def by linarith+
  then show ?thesis by (simp add: pair_subsec_def uint_of_int_small)
qed

lemma pair_assigned:
  assumes "int32_range s" "uint u < subsec_per_sec nano"
  shows "fields_ok nano (tp_sec (pair_assign s u)) (tp_subsec (pair_assign s u))
    \<and> fields_val nano (tp_sec (pair_assign s u)) (tp_subsec (pair_assign s u)) = s * subsec_per_sec nano + uint u"
  using assms unit_less [of u nano] by (simp add: pair_assign_def fields_ok_def fields_val_def)

text \<open>Addition and subtraction on the fields, before and after the fix.\<close>

lemma pair_plus_ok:
  assumes "fields_ok nano (tp_sec a) (tp_subsec a)" "fields_ok nano (tp_sec b) (tp_subsec b)"
  shows "pair_plus nano a b = Inr c \<Longrightarrow> fields_ok nano (tp_sec c) (tp_subsec c)
      \<and> fields_val nano (tp_sec c) (tp_subsec c) = fields_val nano (tp_sec a) (tp_subsec a) + fields_val nano (tp_sec b) (tp_subsec b)"
    and "ts_safe (subsec_per_sec nano) (fields_val nano (tp_sec a) (tp_subsec a) + fields_val nano (tp_sec b) (tp_subsec b))
      \<Longrightarrow> \<exists>c. pair_plus nano a b = Inr c"
proof -
  show "fields_ok nano (tp_sec c) (tp_subsec c)
      \<and> fields_val nano (tp_sec c) (tp_subsec c) = fields_val nano (tp_sec a) (tp_subsec a) + fields_val nano (tp_sec b) (tp_subsec b)"
    if "pair_plus nano a b = Inr c"
    using that assms by (auto simp: pair_plus_def pair_add_fix_def guard_Inr fields_ok_def fields_val_def algebra_simps split: if_splits)
next
  assume "ts_safe (subsec_per_sec nano) (fields_val nano (tp_sec a) (tp_subsec a) + fields_val nano (tp_sec b) (tp_subsec b))"
  then have safe: "ts_safe (subsec_per_sec nano) (fields_val nano (tp_sec a + tp_sec b) (tp_subsec a + tp_subsec b))"
    by (simp add: fields_val_def algebra_simps)
  have u: "- subsec_per_sec nano < tp_subsec a + tp_subsec b" "tp_subsec a + tp_subsec b < 2 * subsec_per_sec nano"
    "int32_range (tp_subsec a + tp_subsec b)"
    using assms unit_bounds [of nano] unfolding fields_ok_def int32_range_def by linarith+
  show "\<exists>c. pair_plus nano a b = Inr c"
    using safe_sum [OF safe u(1,2)] u(3) by (simp add: pair_plus_def pair_add_fix_def)
qed

lemma pair_minus_ok:
  assumes "fields_ok nano (tp_sec a) (tp_subsec a)" "fields_ok nano (tp_sec b) (tp_subsec b)"
  shows "pair_minus nano a b = Inr c \<Longrightarrow> fields_ok nano (tp_sec c) (tp_subsec c)
      \<and> fields_val nano (tp_sec c) (tp_subsec c) = fields_val nano (tp_sec a) (tp_subsec a) - fields_val nano (tp_sec b) (tp_subsec b)"
    and "ts_safe (subsec_per_sec nano) (fields_val nano (tp_sec a) (tp_subsec a) - fields_val nano (tp_sec b) (tp_subsec b))
      \<Longrightarrow> \<exists>c. pair_minus nano a b = Inr c"
proof -
  show "fields_ok nano (tp_sec c) (tp_subsec c)
      \<and> fields_val nano (tp_sec c) (tp_subsec c) = fields_val nano (tp_sec a) (tp_subsec a) - fields_val nano (tp_sec b) (tp_subsec b)"
    if "pair_minus nano a b = Inr c"
    using that assms by (auto simp: pair_minus_def pair_sub_fix_def guard_Inr fields_ok_def fields_val_def algebra_simps split: if_splits)
next
  assume "ts_safe (subsec_per_sec nano) (fields_val nano (tp_sec a) (tp_subsec a) - fields_val nano (tp_sec b) (tp_subsec b))"
  then have safe: "ts_safe (subsec_per_sec nano) (fields_val nano (tp_sec a - tp_sec b) (tp_subsec a - tp_subsec b))"
    by (simp add: fields_val_def algebra_simps)
  have u: "- subsec_per_sec nano < tp_subsec a - tp_subsec b" "tp_subsec a - tp_subsec b < 2 * subsec_per_sec nano"
    "int32_range (tp_subsec a - tp_subsec b)"
    using assms unit_bounds [of nano] unfolding fields_ok_def int32_range_def by linarith+
  show "\<exists>c. pair_minus nano a b = Inr c"
    using safe_sum [OF safe u(1,2)] u(3) by (simp add: pair_minus_def pair_sub_fix_def)
qed

interpretation pair: timestamp_rep "subsec_per_sec nano" "\<lambda>t. fields_ok nano (tp_sec t) (tp_subsec t)"
  "\<lambda>t. fields_val nano (tp_sec t) (tp_subsec t)" pair_assign tp_sec pair_subsec pair_less "pair_plus nano" "pair_minus nano"
  "fields_negate nano pair_assign tp_sec pair_subsec" for nano
proof
  fix s :: int and u :: u32
  assume "int32_range s" "uint u < subsec_per_sec nano"
  then show "fields_ok nano (tp_sec (pair_assign s u)) (tp_subsec (pair_assign s u))
      \<and> fields_val nano (tp_sec (pair_assign s u)) (tp_subsec (pair_assign s u)) = s * subsec_per_sec nano + uint u"
    by (rule pair_assigned)
next
  fix a b c :: ts_pair
  assume a: "fields_ok nano (tp_sec a) (tp_subsec a)"
  then have a': "fields_ok nano (tp_sec a) (uint (pair_subsec a))" by (simp add: pair_subsec_uint)
  show "uint (pair_subsec a) = fields_val nano (tp_sec a) (tp_subsec a) mod subsec_per_sec nano"
    and "tp_sec a = fields_val nano (tp_sec a) (tp_subsec a) div subsec_per_sec nano"
    using fields_div_mod [OF a] pair_subsec_uint [OF a] by simp_all
  show "fields_ok nano (tp_sec c) (tp_subsec c) \<and> fields_val nano (tp_sec c) (tp_subsec c) = - fields_val nano (tp_sec a) (tp_subsec a)"
    if c: "fields_negate nano pair_assign tp_sec pair_subsec a = Inr c"
  proof -
    obtain s u where "c = pair_assign s u" "int32_range s" "uint u < subsec_per_sec nano"
      "s * subsec_per_sec nano + uint u = - fields_val nano (tp_sec a) (uint (pair_subsec a))"
      using negate_fields [where sec = tp_sec and subsec = pair_subsec, OF a' c] by blast
    then show ?thesis using pair_assigned [of s u nano] pair_subsec_uint [OF a] by simp
  qed
  show "\<exists>c. fields_negate nano pair_assign tp_sec pair_subsec a = Inr c"
    if "ts_safe (subsec_per_sec nano) (- fields_val nano (tp_sec a) (tp_subsec a))"
    using negate_returns [where sec = tp_sec and subsec = pair_subsec, OF a'] that pair_subsec_uint [OF a] by simp
  assume b: "fields_ok nano (tp_sec b) (tp_subsec b)"
  show "pair_less a b \<longleftrightarrow> fields_val nano (tp_sec a) (tp_subsec a) < fields_val nano (tp_sec b) (tp_subsec b)"
    using fields_less [OF a b] by (simp add: pair_less_def word_less_def pair_subsec_uint [OF a] pair_subsec_uint [OF b])
  note ops = pair_plus_ok [OF a b] pair_minus_ok [OF a b]
  show "pair_plus nano a b = Inr c \<Longrightarrow> fields_ok nano (tp_sec c) (tp_subsec c)
      \<and> fields_val nano (tp_sec c) (tp_subsec c) = fields_val nano (tp_sec a) (tp_subsec a) + fields_val nano (tp_sec b) (tp_subsec b)"
    "pair_minus nano a b = Inr c \<Longrightarrow> fields_ok nano (tp_sec c) (tp_subsec c)
      \<and> fields_val nano (tp_sec c) (tp_subsec c) = fields_val nano (tp_sec a) (tp_subsec a) - fields_val nano (tp_sec b) (tp_subsec b)"
    by (fact ops)+
  show "ts_safe (subsec_per_sec nano) (fields_val nano (tp_sec a) (tp_subsec a) + fields_val nano (tp_sec b) (tp_subsec b))
      \<Longrightarrow> \<exists>c. pair_plus nano a b = Inr c"
    "ts_safe (subsec_per_sec nano) (fields_val nano (tp_sec a) (tp_subsec a) - fields_val nano (tp_sec b) (tp_subsec b))
      \<Longrightarrow> \<exists>c. pair_minus nano a b = Inr c"
    by (fact ops)+
qed (fact unit_bounds)+


text \<open>The packed representation: an integer with the field \<open>u\<close> in its lower half.\<close>

definition math_ok :: "bool \<Rightarrow> int \<Rightarrow> bool" where "math_ok nano x \<longleftrightarrow> fields_ok nano (math_sec x) (x mod 4294967296)"

definition math_val :: "bool \<Rightarrow> int \<Rightarrow> int" where "math_val nano x = fields_val nano (math_sec x) (x mod 4294967296)"

lemma packed_field: "int32_range u \<Longrightarrow> math_field (s * 4294967296 + u) = u"
proof -
  have zero: "(4294967296 :: u32) = 0" by simp
  have "(of_int (s * 4294967296 + u) :: u32) = of_int s * 4294967296 + of_int u" by (simp only: of_int_add of_int_mult of_int_numeral)
  also have "\<dots> = of_int u" unfolding zero by simp
  finally have "(of_int (s * 4294967296 + u) :: u32) = of_int u" .
  then show "math_field (s * 4294967296 + u) = u" if "int32_range u"
    using to_int32_self [OF that] by (simp add: math_field_def to_int32_def)
qed

lemma packed:
  assumes "0 \<le> u" "u < 4294967296"
  shows "math_sec (s * 4294967296 + u) = s" "(s * 4294967296 + u) mod 4294967296 = u" "int64_range (s * 4294967296 + u) \<longleftrightarrow> int32_range s"
    "math_rep s u = s * 4294967296 + u"
  using assms by (auto simp: math_sec_def math_rep_def int64_range_def int32_range_def)

lemma math_ok_packed:
  assumes "math_ok nano x"
  obtains s u where "x = s * 4294967296 + u" "fields_ok nano s u" "0 \<le> u" "u < 1000000000" "math_val nano x = fields_val nano s u"
proof -
  have "x = math_sec x * 4294967296 + x mod 4294967296" by (simp add: math_sec_def)
  moreover have "fields_ok nano (math_sec x) (x mod 4294967296)" using assms by (simp add: math_ok_def)
  moreover from this have "x mod 4294967296 < 1000000000" using unit_bounds(3) [of nano] unfolding fields_ok_def by linarith
  ultimately show ?thesis using that [of "math_sec x" "x mod 4294967296"] by (simp add: math_val_def)
qed

lemma math_packed_ok:
  assumes "fields_ok nano s u"
  shows "math_ok nano (s * 4294967296 + u) \<and> math_val nano (s * 4294967296 + u) = fields_val nano s u"
proof -
  have "0 \<le> u" "u < 4294967296" using assms unit_bounds(3) [of nano] unfolding fields_ok_def by linarith+
  then show ?thesis using assms by (simp add: math_ok_def math_val_def packed)
qed

lemma math_plus_packed:
  assumes a: "fields_ok nano s u" and b: "fields_ok nano s' u'"
  shows "math_plus nano (s * 4294967296 + u) (s' * 4294967296 + u') =
    guard (int32_range (s + s')) SignedOverflow
      (if subsec_per_sec nano \<le> u + u'
       then guard (int32_range (s + s' + 1)) SignedOverflow (Inr ((s + s' + 1) * 4294967296 + (u + u' - subsec_per_sec nano)))
       else Inr ((s + s') * 4294967296 + (u + u')))"
proof -
  let ?P = "subsec_per_sec nano"
  have u: "0 \<le> u + u'" "u + u' < 2000000000" using a b unit_bounds(3) [of nano] unfolding fields_ok_def by linarith+
  have sum: "s * 4294967296 + u + (s' * 4294967296 + u') = (s + s') * 4294967296 + (u + u')" by (simp add: algebra_simps)
  have field: "math_field ((s + s') * 4294967296 + (u + u')) = u + u'" using u by (intro packed_field) (simp add: int32_range_def)
  have "uint (of_int (- ?P) :: u32) = 4294967296 - ?P" by (cases nano) (simp_all add: subsec_per_sec_def)
  then have fixed: "(s + s') * 4294967296 + (u + u') + uint (of_int (- ?P) :: u32) = (s + s' + 1) * 4294967296 + (u + u' - ?P)"
    by (simp add: algebra_simps)
  have r1: "int64_range ((s + s') * 4294967296 + (u + u')) \<longleftrightarrow> int32_range (s + s')" using u by (intro packed) linarith+
  have r2: "int64_range ((s + s' + 1) * 4294967296 + (u + u' - ?P)) \<longleftrightarrow> int32_range (s + s' + 1)" if "?P \<le> u + u'"
    using u that unit_bounds(1) [of nano] by (intro packed) linarith+
  show ?thesis unfolding math_plus_def math_add_fix_def sum field Let_def fixed r1 using r2 by (simp add: guard_def)
qed

lemma math_minus_packed:
  assumes a: "fields_ok nano s u" and b: "fields_ok nano s' u'"
  shows "math_minus nano (s * 4294967296 + u) (s' * 4294967296 + u') =
    (if u < u'
     then guard (int32_range (s - s' - 1)) SignedOverflow (Inr ((s - s' - 1) * 4294967296 + (u - u' + subsec_per_sec nano)))
     else guard (int32_range (s - s')) SignedOverflow (Inr ((s - s') * 4294967296 + (u - u'))))"
proof -
  let ?P = "subsec_per_sec nano" and ?d = "(s - s') * 4294967296 + (u - u')"
  have u: "- ?P < u - u'" "u - u' < ?P" "- 1000000000 < u - u'" "u - u' < 1000000000"
    using a b unit_bounds(3) [of nano] unfolding fields_ok_def by linarith+
  have diff: "s * 4294967296 + u - (s' * 4294967296 + u') = ?d" by (simp add: algebra_simps)
  have field: "math_field ?d = u - u'" using u(3,4) by (intro packed_field) (simp add: int32_range_def)
  have low: "?d = (s - s' - 1) * 4294967296 + (u - u' + 4294967296)" by (simp add: algebra_simps)
  have 1: "math_sec ?d = s - s' - 1" "int64_range ?d \<longleftrightarrow> int32_range (s - s' - 1)" if "u < u'"
    unfolding low by (rule packed; use that u(3) in linarith)+
  have 2: "int64_range ?d \<longleftrightarrow> int32_range (s - s')" if "\<not> u < u'" by (rule packed; use that u(4) in linarith)
  have 3: "math_rep (s - s' - 1) (u - u' + ?P) = (s - s' - 1) * 4294967296 + (u - u' + ?P)" if "u < u'"
    by (rule packed; use that u unit_bounds(3) [of nano] in linarith)
  show ?thesis unfolding math_minus_def math_sub_fix_def diff field using 1 2 3 by (simp add: guard_def)
qed


lemma math_plus_ok:
  assumes "math_ok nano a" "math_ok nano b"
  shows "math_plus nano a b = Inr c \<Longrightarrow> math_ok nano c \<and> math_val nano c = math_val nano a + math_val nano b"
    and "ts_safe (subsec_per_sec nano) (math_val nano a + math_val nano b) \<Longrightarrow> \<exists>c. math_plus nano a b = Inr c"
proof -
  obtain s u where a: "a = s * 4294967296 + u" "fields_ok nano s u" "math_val nano a = fields_val nano s u" by (rule math_ok_packed [OF assms(1)])
  obtain s' u' where b: "b = s' * 4294967296 + u'" "fields_ok nano s' u'" "math_val nano b = fields_val nano s' u'" by (rule math_ok_packed [OF assms(2)])
  note plus = math_plus_packed [OF a(2) b(2), folded a(1) b(1)]
  let ?P = "subsec_per_sec nano"
  have "fields_ok nano (s + s' + 1) (u + u' - ?P)" if "int32_range (s + s' + 1)" "?P \<le> u + u'"
    using that a(2) b(2) by (simp add: fields_ok_def)
  moreover have "fields_ok nano (s + s') (u + u')" if "int32_range (s + s')" "\<not> ?P \<le> u + u'"
    using that a(2) b(2) by (simp add: fields_ok_def)
  moreover have "fields_val nano (s + s' + 1) (u + u' - ?P) = fields_val nano s u + fields_val nano s' u'"
    "fields_val nano (s + s') (u + u') = fields_val nano s u + fields_val nano s' u'"
    by (simp_all add: fields_val_def algebra_simps)
  ultimately show "math_ok nano c \<and> math_val nano c = math_val nano a + math_val nano b" if "math_plus nano a b = Inr c"
    using that math_packed_ok [of nano] unfolding plus a(3) b(3) by (auto simp: guard_Inr simp del: distrib_right_numeral left_diff_distrib_numeral split: if_splits)
  assume "ts_safe ?P (math_val nano a + math_val nano b)"
  then have safe: "ts_safe ?P (fields_val nano (s + s') (u + u'))" by (simp add: a(3) b(3) fields_val_def algebra_simps)
  have "- ?P < u + u'" "u + u' < 2 * ?P" using a(2) b(2) unit_bounds(1) [of nano] unfolding fields_ok_def by linarith+
  then show "\<exists>c. math_plus nano a b = Inr c" unfolding plus using safe_sum [OF safe] by (simp add: guard_def)
qed

lemma math_minus_ok:
  assumes "math_ok nano a" "math_ok nano b"
  shows "math_minus nano a b = Inr c \<Longrightarrow> math_ok nano c \<and> math_val nano c = math_val nano a - math_val nano b"
    and "ts_safe (subsec_per_sec nano) (math_val nano a - math_val nano b) \<Longrightarrow> \<exists>c. math_minus nano a b = Inr c"
proof -
  obtain s u where a: "a = s * 4294967296 + u" "fields_ok nano s u" "math_val nano a = fields_val nano s u" by (rule math_ok_packed [OF assms(1)])
  obtain s' u' where b: "b = s' * 4294967296 + u'" "fields_ok nano s' u'" "math_val nano b = fields_val nano s' u'" by (rule math_ok_packed [OF assms(2)])
  note minus = math_minus_packed [OF a(2) b(2), folded a(1) b(1)]
  let ?P = "subsec_per_sec nano"
  have "fields_ok nano (s - s' - 1) (u - u' + ?P)" if "int32_range (s - s' - 1)" "u < u'"
    using that a(2) b(2) by (simp add: fields_ok_def)
  moreover have "fields_ok nano (s - s') (u - u')" if "int32_range (s - s')" "\<not> u < u'"
    using that a(2) b(2) by (simp add: fields_ok_def)
  moreover have "fields_val nano (s - s' - 1) (u - u' + ?P) = fields_val nano s u - fields_val nano s' u'"
    "fields_val nano (s - s') (u - u') = fields_val nano s u - fields_val nano s' u'"
    by (simp_all add: fields_val_def algebra_simps)
  ultimately show "math_ok nano c \<and> math_val nano c = math_val nano a - math_val nano b" if "math_minus nano a b = Inr c"
    using that math_packed_ok [of nano] unfolding minus a(3) b(3) by (auto simp: guard_Inr simp del: distrib_right_numeral left_diff_distrib_numeral split: if_splits)
  assume "ts_safe ?P (math_val nano a - math_val nano b)"
  then have safe: "ts_safe ?P (fields_val nano (s - s') (u - u'))" by (simp add: a(3) b(3) fields_val_def algebra_simps)
  have "- ?P < u - u'" "u - u' < 2 * ?P" using a(2) b(2) unit_bounds(1) [of nano] unfolding fields_ok_def by linarith+
  then show "\<exists>c. math_minus nano a b = Inr c" unfolding minus using safe_sum [OF safe] by (simp add: guard_def)
qed

lemma math_assigned:
  assumes "int32_range s" "uint u < subsec_per_sec nano"
  shows "math_ok nano (math_assign s u) \<and> math_val nano (math_assign s u) = s * subsec_per_sec nano + uint u"
proof -
  have "math_assign s u = s * 4294967296 + uint u"
    using unit_less [OF assms(2)] unsigned_less [of u, where 'a = int] by (simp add: math_assign_def math_rep_def)
  moreover have "fields_ok nano s (uint u)" using assms by (simp add: fields_ok_def)
  ultimately show ?thesis using math_packed_ok by (simp add: fields_val_def)
qed

lemma math_subsec_uint:
  assumes "math_ok nano x"
  shows "uint (math_subsec x) = x mod 4294967296" "fields_ok nano (math_sec x) (uint (math_subsec x))"
    "math_val nano x = fields_val nano (math_sec x) (uint (math_subsec x))"
proof -
  obtain s u where x: "x = s * 4294967296 + u" "0 \<le> u" "u < 1000000000" by (rule math_ok_packed [OF assms])
  have "math_field x = u" unfolding x(1) using x(2,3) by (intro packed_field) (simp add: int32_range_def)
  then show "uint (math_subsec x) = x mod 4294967296" using x by (simp add: math_subsec_def uint_of_int_small)
  then show "fields_ok nano (math_sec x) (uint (math_subsec x))" "math_val nano x = fields_val nano (math_sec x) (uint (math_subsec x))"
    using assms by (simp_all add: math_ok_def math_val_def)
qed

interpretation math: timestamp_rep "subsec_per_sec nano" "math_ok nano" "math_val nano" math_assign math_sec math_subsec math_less
  "math_plus nano" "math_minus nano" "fields_negate nano math_assign math_sec math_subsec" for nano
proof
  fix s :: int and u :: u32
  assume "int32_range s" "uint u < subsec_per_sec nano"
  then show "math_ok nano (math_assign s u) \<and> math_val nano (math_assign s u) = s * subsec_per_sec nano + uint u" by (rule math_assigned)
next
  fix a b c
  assume a: "math_ok nano a"
  note a' = math_subsec_uint [OF a]
  show "uint (math_subsec a) = math_val nano a mod subsec_per_sec nano" and "math_sec a = math_val nano a div subsec_per_sec nano"
    using fields_div_mod [OF a'(2)] unfolding a'(3) by simp_all
  show "math_ok nano c \<and> math_val nano c = - math_val nano a" if c: "fields_negate nano math_assign math_sec math_subsec a = Inr c"
  proof -
    obtain s u where "c = math_assign s u" "int32_range s" "uint u < subsec_per_sec nano"
      "s * subsec_per_sec nano + uint u = - fields_val nano (math_sec a) (uint (math_subsec a))"
      using negate_fields [where sec = math_sec and subsec = math_subsec, OF a'(2) c] by blast
    then show ?thesis using math_assigned [of s u nano] a'(3) by simp
  qed
  show "\<exists>c. fields_negate nano math_assign math_sec math_subsec a = Inr c" if "ts_safe (subsec_per_sec nano) (- math_val nano a)"
    using negate_returns [where sec = math_sec and subsec = math_subsec, OF a'(2)] that a'(3) by simp
  assume b: "math_ok nano b"
  note ops = math_plus_ok [OF a b] math_minus_ok [OF a b]
  show "math_plus nano a b = Inr c \<Longrightarrow> math_ok nano c \<and> math_val nano c = math_val nano a + math_val nano b"
    "math_minus nano a b = Inr c \<Longrightarrow> math_ok nano c \<and> math_val nano c = math_val nano a - math_val nano b"
    "ts_safe (subsec_per_sec nano) (math_val nano a + math_val nano b) \<Longrightarrow> \<exists>c. math_plus nano a b = Inr c"
    "ts_safe (subsec_per_sec nano) (math_val nano a - math_val nano b) \<Longrightarrow> \<exists>c. math_minus nano a b = Inr c"
    by (fact ops)+
  obtain s u where x: "a = s * 4294967296 + u" "fields_ok nano s u" "0 \<le> u" "u < 1000000000" "math_val nano a = fields_val nano s u"
    by (rule math_ok_packed [OF a])
  obtain s' u' where y: "b = s' * 4294967296 + u'" "fields_ok nano s' u'" "0 \<le> u'" "u' < 1000000000" "math_val nano b = fields_val nano s' u'"
    by (rule math_ok_packed [OF b])
  have "a < b \<longleftrightarrow> s < s' \<or> s = s' \<and> u < u'" unfolding x(1) y(1) using x(3,4) y(3,4) by auto
  then show "math_less a b \<longleftrightarrow> math_val nano a < math_val nano b"
    using fields_less [OF x(2) y(2)] by (simp add: math_less_def x(5) y(5))
qed (fact unit_bounds)+


section \<open>Properties\<close>

abbreviation flat_eval :: "bool \<Rightarrow> ts_expr \<Rightarrow> int res" where
  "flat_eval nano \<equiv> ts_eval (flat_assign nano) flat_plus flat_minus flat_negate"

abbreviation pair_eval :: "bool \<Rightarrow> ts_expr \<Rightarrow> ts_pair res" where
  "pair_eval nano \<equiv> ts_eval pair_assign (pair_plus nano) (pair_minus nano) (fields_negate nano pair_assign tp_sec pair_subsec)"

abbreviation math_eval :: "bool \<Rightarrow> ts_expr \<Rightarrow> int res" where
  "math_eval nano \<equiv> ts_eval math_assign (math_plus nano) (math_minus nano) (fields_negate nano math_assign math_sec math_subsec)"

lemma expr_range:
  assumes "ts_consts (subsec_per_sec nano) e" "ts_safe_expr (subsec_per_sec nano) e"
  shows "ts_range (subsec_per_sec nano) (ts_value (subsec_per_sec nano) e)"
proof (cases e)
  case (TAssign s u)
  then show ?thesis
    using assms(1) uint_ge_0 [of u] unfolding TAssign ts_consts.simps ts_value.simps ts_range_def int32_range_def subsec_per_sec_def
    by (cases nano) (simp_all only: if_True if_False, linarith+)
qed (use assms(2) unit_bounds(1) [of nano] in \<open>auto simp: ts_range_def ts_safe_def\<close>)

text \<open>(C32) Every expression whose values stay a second away from the ends of the range has the same seconds and
  subseconds in all three representations, those of its integer value; so has every comparison of two of them.\<close>

theorem timestamps_agree:
  fixes nano :: bool
  defines "P \<equiv> subsec_per_sec nano"
  assumes "ts_consts P e" "ts_safe_expr P e" "ts_consts P e'" "ts_safe_expr P e'"
  shows "\<exists>a b c a' b' c'. flat_eval nano e = Inr a \<and> pair_eval nano e = Inr b \<and> math_eval nano e = Inr c
    \<and> flat_eval nano e' = Inr a' \<and> pair_eval nano e' = Inr b' \<and> math_eval nano e' = Inr c'
    \<and> flat_sec nano a = ts_value P e div P \<and> uint (flat_subsec nano a) = ts_value P e mod P
    \<and> tp_sec b = ts_value P e div P \<and> uint (pair_subsec b) = ts_value P e mod P
    \<and> math_sec c = ts_value P e div P \<and> uint (math_subsec c) = ts_value P e mod P
    \<and> (flat_less a a' \<longleftrightarrow> ts_value P e < ts_value P e') \<and> (pair_less b b' \<longleftrightarrow> ts_value P e < ts_value P e')
    \<and> (math_less c c' \<longleftrightarrow> ts_value P e < ts_value P e')"
proof -
  note e = assms(2,3) [unfolded P_def] and e' = assms(4,5) [unfolded P_def] and range = expr_range [OF assms(2,3) [unfolded P_def]]
  obtain a a' where a: "flat_eval nano e = Inr a" "flat_eval nano e' = Inr a'" "int64_range a" "int64_range a'" "a = ts_value P e" "a' = ts_value P e'"
    using flat.eval_returns [OF e] flat.eval_returns [OF e'] P_def by metis
  obtain b b' where b: "pair_eval nano e = Inr b" "pair_eval nano e' = Inr b'" "fields_ok nano (tp_sec b) (tp_subsec b)" "fields_ok nano (tp_sec b') (tp_subsec b')"
    "fields_val nano (tp_sec b) (tp_subsec b) = ts_value P e" "fields_val nano (tp_sec b') (tp_subsec b') = ts_value P e'"
    using pair.eval_returns [OF e] pair.eval_returns [OF e'] P_def by metis
  obtain c c' where c: "math_eval nano e = Inr c" "math_eval nano e' = Inr c'" "math_ok nano c" "math_ok nano c'" "math_val nano c = ts_value P e" "math_val nano c' = ts_value P e'"
    using math.eval_returns [OF e] math.eval_returns [OF e'] P_def by metis
  have "flat_sec nano a = ts_value P e div P" "uint (flat_subsec nano a) = ts_value P e mod P" "flat_less a a' \<longleftrightarrow> ts_value P e < ts_value P e'"
    using flat.seconds [OF a(3)] flat.subseconds [OF a(3)] flat.ordered [OF a(3,4)] range a(5,6) by (simp_all add: P_def)
  moreover have "tp_sec b = ts_value P e div P" "uint (pair_subsec b) = ts_value P e mod P" "pair_less b b' \<longleftrightarrow> ts_value P e < ts_value P e'"
    using pair.seconds [OF b(3)] pair.subseconds [OF b(3)] pair.ordered [OF b(3,4)] range b(5,6) by (simp_all add: P_def)
  moreover have "math_sec c = ts_value P e div P" "uint (math_subsec c) = ts_value P e mod P" "math_less c c' \<longleftrightarrow> ts_value P e < ts_value P e'"
    using math.seconds [OF c(3)] math.subseconds [OF c(3)] math.ordered [OF c(3,4)] range c(5,6) by (simp_all add: P_def)
  ultimately show ?thesis using a(1,2) b(1,2) c(1,2) by blast
qed

theorem timestamps_agree_witness:
  "\<exists>a b c. flat_eval True (TNegate (TPlus (TAssign 1 999999999) (TAssign 0 2))) = Inr a
    \<and> pair_eval True (TNegate (TPlus (TAssign 1 999999999) (TAssign 0 2))) = Inr b
    \<and> math_eval True (TNegate (TPlus (TAssign 1 999999999) (TAssign 0 2))) = Inr c
    \<and> flat_sec True a = - 3 \<and> uint (pair_subsec b) = 999999999 \<and> math_sec c = - 3"
  using timestamps_agree [of True "TNegate (TPlus (TAssign 1 999999999) (TAssign 0 2))" "TAssign 0 0"]
  by (auto simp: subsec_per_sec_def int32_range_def ts_safe_def)

text \<open>(C33) Whatever an expression over well-formed constants returns is well formed: the count fits 64 bits, and
  the fields are 32-bit seconds and subseconds below a second.\<close>

theorem timestamp_type_sound:
  assumes "ts_consts (subsec_per_sec nano) e"
  shows "(\<forall>a. flat_eval nano e = Inr a \<longrightarrow> int64_range a \<and> uint (flat_subsec nano a) < subsec_per_sec nano)
    \<and> (\<forall>b. pair_eval nano e = Inr b \<longrightarrow> int32_range (tp_sec b) \<and> 0 \<le> tp_subsec b \<and> tp_subsec b < subsec_per_sec nano)
    \<and> (\<forall>c. math_eval nano e = Inr c \<longrightarrow> int64_range c \<and> int32_range (math_sec c) \<and> 0 \<le> math_field c \<and> math_field c < subsec_per_sec nano)"
proof (intro conjI allI impI)
  show "int64_range a" "uint (flat_subsec nano a) < subsec_per_sec nano" if "flat_eval nano e = Inr a" for a
    using flat.eval_ok [OF assms that, THEN conjunct1] mod_unit(2) by (simp_all add: flat_subsec_mod)
  show "int32_range (tp_sec b)" "0 \<le> tp_subsec b" "tp_subsec b < subsec_per_sec nano" if "pair_eval nano e = Inr b" for b
    using pair.eval_ok [OF assms that] by (simp_all add: fields_ok_def)
  fix c
  assume "math_eval nano e = Inr c"
  then obtain s u where c: "c = s * 4294967296 + u" "fields_ok nano s u" "0 \<le> u" "u < 1000000000"
    using math.eval_ok [OF assms] math_ok_packed by metis
  then have "math_field c = u" unfolding c(1) by (intro packed_field) (simp add: int32_range_def)
  then show "int64_range c" "int32_range (math_sec c)" "0 \<le> math_field c" "math_field c < subsec_per_sec nano"
    using c packed [of u s] by (simp_all add: fields_ok_def)
qed

theorem timestamp_type_sound_witness:
  "pair_eval False (TMinus (TAssign 5 100) (TAssign 2 200)) = Inr \<lparr>tp_sec = 2, tp_subsec = 999900\<rparr>
    \<and> (999900 :: int) < subsec_per_sec False"
proof -
  have eval: "pair_eval False (TMinus (TAssign 5 100) (TAssign 2 200)) = Inr \<lparr>tp_sec = 2, tp_subsec = 999900\<rparr>" by code_simp
  have "ts_consts (subsec_per_sec False) (TMinus (TAssign 5 100) (TAssign 2 200))" by (simp add: subsec_per_sec_def int32_range_def)
  from timestamp_type_sound [OF this] eval show ?thesis by auto
qed

subsection \<open>Conversions\<close>

lemma int_remainder_floor: "0 < b \<Longrightarrow> int_remainder a b = (a div b, of_int (a mod b))"
  by (simp only: int_remainder_def floor_by_truncation Let_def minus_div_mult_eq_mod)

lemma unit_split:
  fixes m N k :: int
  assumes "0 < N" "0 < k"
  shows "0 \<le> m mod N * k" "m mod N * k < N * k" "m div N * (N * k) + m mod N * k = m * k"
proof -
  show "0 \<le> m mod N * k" "m mod N * k < N * k" using assms by simp_all
  have "m div N * (N * k) + m mod N * k = (m div N * N + m mod N) * k" by (simp only: algebra_simps)
  then show "m div N * (N * k) + m mod N * k = m * k" by simp
qed

lemma units:
  "1000 * (subsec_per_sec nano div 1000) = subsec_per_sec nano" "1000000 * (subsec_per_sec nano div 1000000) = subsec_per_sec nano"
  "0 < subsec_per_sec nano div 1000" "0 < subsec_per_sec nano div 1000000"
  by (simp_all add: subsec_per_sec_def)

lemma fields_int64: "fields_ok nano s u \<Longrightarrow> int64_range (fields_val nano s u)"
  unfolding fields_ok_def fields_val_def int32_range_def int64_range_def subsec_per_sec_def
  by (cases nano; simp only: if_True if_False; linarith)

text \<open>The fields made of \<open>m\<close> units of \<open>k\<close> subseconds.\<close>

lemma made_fields:
  assumes "0 < N" "0 < k" "N * k = subsec_per_sec nano" "int32_range (m div N)"
  defines "t \<equiv> \<lparr>tp_sec = to_int32 (m div N), tp_subsec = sint (of_int (m mod N) :: u32) * k\<rparr>"
  shows "fields_ok nano (tp_sec t) (tp_subsec t)" "fields_val nano (tp_sec t) (tp_subsec t) = m * k"
proof -
  have "N \<le> subsec_per_sec nano" using assms(1-3) mult_left_mono [of 1 k N] by simp
  moreover have "m mod N < N" "0 \<le> m mod N" using assms(1) by simp_all
  ultimately have "int32_range (m mod N)" unfolding int32_range_def using unit_bounds(3) [of nano] by linarith
  then have "sint (of_int (m mod N) :: u32) = m mod N" using to_int32_self by (simp add: to_int32_def)
  then have "t = \<lparr>tp_sec = m div N, tp_subsec = m mod N * k\<rparr>" unfolding t_def using assms(4) by (simp add: to_int32_self)
  then show "fields_ok nano (tp_sec t) (tp_subsec t)" "fields_val nano (tp_sec t) (tp_subsec t) = m * k"
    using unit_split [OF assms(1,2), of m] assms(3,4) by (simp_all add: fields_ok_def fields_val_def)
qed

text \<open>Reading units off the fields rounds down.\<close>

lemma field_units:
  assumes "0 < k" "N * k = subsec_per_sec nano" "uint (w :: u32) = k"
  shows "s * N + uint (u div w) = fields_val nano s (uint u) div k"
proof -
  have "fields_val nano s (uint u) = uint u + k * (s * N)" by (simp add: fields_val_def assms(2) [symmetric])
  then show ?thesis using assms(1,3) by (simp add: uint_div)
qed

lemma uint_per_unit:
  "uint (of_int (subsec_per_sec nano div 1000) :: u32) = subsec_per_sec nano div 1000"
  "uint (of_int (subsec_per_sec nano div 1000000) :: u32) = subsec_per_sec nano div 1000000"
  by (cases nano; simp add: subsec_per_sec_def)+

lemma fields_unitval:
  "fields_msecval nano s u = fields_val nano s (uint u) div (subsec_per_sec nano div 1000)"
  "fields_usecval nano s u = fields_val nano s (uint u) div (subsec_per_sec nano div 1000000)"
  unfolding fields_msecval_def fields_usecval_def subsec_to_msec_def subsec_to_usec_def
  using field_units [OF units(3,1) uint_per_unit(1)] field_units [OF units(4,2) uint_per_unit(2)] by simp_all

lemma truncated: "0 < k \<Longrightarrow> v sdiv k = v div k + (if v < 0 \<and> \<not> k dvd v then 1 else 0)" for v k :: int
proof (cases "v < 0")
  case True
  assume k: "0 < k"
  have "v sdiv k = - (- v div k)" using True k by (simp add: signed_divide_int_def sgn_if)
  then show ?thesis using True k zdiv_zminus1_eq_if [of k v] by (simp add: dvd_eq_mod_eq_0)
qed (simp add: sdiv_nonneg)

lemma mult_sdiv: "0 < k \<Longrightarrow> (m * k) sdiv k = m" for m k :: int
  by (simp add: truncated)

text \<open>A timestamp made of milliseconds or of microseconds is the same number of subseconds in both
  representations, and gives the milliseconds or microseconds back, negative ones included.\<close>

theorem conversions_undone:
  assumes "int32_range (m div 1000)" "int32_range (n div 1000000)"
  shows "(\<exists>a. flat_make_msec nano m = Inr a \<and> flat_msecval nano a = m
      \<and> (let t = pair_make_msec nano m in fields_ok nano (tp_sec t) (tp_subsec t)
          \<and> fields_val nano (tp_sec t) (tp_subsec t) = a \<and> fields_msecval nano (tp_sec t) (pair_subsec t) = m))
    \<and> (\<exists>a. flat_make_usec nano n = Inr a \<and> flat_usecval nano a = n
      \<and> (let t = pair_make_usec nano n in fields_ok nano (tp_sec t) (tp_subsec t)
          \<and> fields_val nano (tp_sec t) (tp_subsec t) = a \<and> fields_usecval nano (tp_sec t) (pair_subsec t) = n))"
proof -
  let ?s = "pair_make_msec nano m" and ?t = "pair_make_usec nano n"
  have s: "fields_ok nano (tp_sec ?s) (tp_subsec ?s)" "fields_val nano (tp_sec ?s) (tp_subsec ?s) = m * (subsec_per_sec nano div 1000)"
    using made_fields [OF _ units(3,1) assms(1)] by (simp_all add: pair_make_msec_def int_remainder_floor)
  have t: "fields_ok nano (tp_sec ?t) (tp_subsec ?t)" "fields_val nano (tp_sec ?t) (tp_subsec ?t) = n * (subsec_per_sec nano div 1000000)"
    using made_fields [OF _ units(4,2) assms(2)] by (simp_all add: pair_make_usec_def int_remainder_floor)
  have "fields_msecval nano (tp_sec ?s) (pair_subsec ?s) = m" "fields_usecval nano (tp_sec ?t) (pair_subsec ?t) = n"
    using units(3,4) [of nano] by (simp_all add: fields_unitval pair_subsec_uint [OF s(1)] pair_subsec_uint [OF t(1)] s(2) t(2))
  moreover have "int64_range (m * (subsec_per_sec nano div 1000))" "int64_range (n * (subsec_per_sec nano div 1000000))"
    using fields_int64 [OF s(1)] fields_int64 [OF t(1)] by (simp_all only: s(2) t(2))
  then have "flat_make_msec nano m = Inr (m * (subsec_per_sec nano div 1000))" "flat_make_usec nano n = Inr (n * (subsec_per_sec nano div 1000000))"
    by (simp_all only: flat_make_msec_def flat_make_usec_def guard_def if_True)
  moreover have "flat_msecval nano (m * (subsec_per_sec nano div 1000)) = m" "flat_usecval nano (n * (subsec_per_sec nano div 1000000)) = n"
    by (simp_all only: flat_msecval_def flat_usecval_def int_divide_def mult_sdiv [OF units(3)] mult_sdiv [OF units(4)])
  ultimately show ?thesis unfolding Let_def using s t by blast
qed

theorem conversions_undone_witness:
  "flat_make_msec True (- 1500) = Inr (- 1500000000) \<and> flat_msecval True (- 1500000000) = - 1500
    \<and> pair_make_msec True (- 1500) = \<lparr>tp_sec = - 2, tp_subsec = 500000000\<rparr>
    \<and> fields_msecval True (- 2) 500000000 = - 1500"
proof -
  have pair: "pair_make_msec True (- 1500) = \<lparr>tp_sec = - 2, tp_subsec = 500000000\<rparr>" by code_simp
  have flat: "flat_make_msec True (- 1500) = Inr (- 1500000000)" by code_simp
  show ?thesis
    using conversions_undone [of "- 1500" 0 True] by (simp add: pair flat int32_range_def pair_subsec_def)
qed

lemma made_of_nsec:
  fixes nano :: bool
  assumes "int32_range (n div 1000000000)"
  defines "k \<equiv> 1000000000 div subsec_per_sec nano"
  shows "fields_val nano (tp_sec (pair_make_nsec nano n)) (tp_subsec (pair_make_nsec nano n)) = n div k"
    and "flat_make_nsec nano n = n div k + (if n < 0 \<and> \<not> k dvd n then 1 else 0)"
proof -
  have k: "0 < k" "subsec_per_sec nano * k = 1000000000" by (simp_all add: k_def subsec_per_sec_def)
  have "int32_range (n mod 1000000000)" unfolding int32_range_def
    using pos_mod_sign [of 1000000000 n] pos_mod_bound [of 1000000000 n] by linarith
  then have "sint (of_int (n mod 1000000000) :: u32) = n mod 1000000000" using to_int32_self by (simp add: to_int32_def)
  then have "fields_val nano (tp_sec (pair_make_nsec nano n)) (tp_subsec (pair_make_nsec nano n)) =
      n div 1000000000 * subsec_per_sec nano + n mod 1000000000 div k"
    using assms(1) k(1) by (simp add: pair_make_nsec_def int_remainder_floor fields_val_def to_int32_self sdiv_nonneg k_def [symmetric])
  also have "\<dots> = (n mod 1000000000 + k * (n div 1000000000 * subsec_per_sec nano)) div k" using k(1) by simp
  also have "n mod 1000000000 + k * (n div 1000000000 * subsec_per_sec nano) = n mod 1000000000 + n div 1000000000 * (subsec_per_sec nano * k)"
    by (simp only: ac_simps)
  also have "\<dots> = n" unfolding k(2) by simp
  finally show "fields_val nano (tp_sec (pair_make_nsec nano n)) (tp_subsec (pair_make_nsec nano n)) = n div k" .
  show "flat_make_nsec nano n = n div k + (if n < 0 \<and> \<not> k dvd n then 1 else 0)"
    using truncated [OF k(1), of n] by (simp only: flat_make_nsec_def int_divide_def k_def)
qed

text \<open>Negative timestamps with a fraction of the unit: reading milliseconds off the 64-bit count, and making the
  count from nanoseconds, rounds up, towards zero, where the two fields round down.\<close>

theorem negative_rounding_differs:
  assumes "uint u < subsec_per_sec nano" "int32_range (n div 1000000000)"
  shows "flat_msecval nano (flat_assign nano s u) =
      fields_msecval nano (tp_sec (pair_assign s u)) (pair_subsec (pair_assign s u))
      + (if s < 0 \<and> \<not> subsec_per_sec nano div 1000 dvd uint u then 1 else 0)
    \<and> flat_make_nsec nano n =
      fields_val nano (tp_sec (pair_make_nsec nano n)) (tp_subsec (pair_make_nsec nano n))
      + (if n < 0 \<and> \<not> 1000000000 div subsec_per_sec nano dvd n then 1 else 0)"
proof -
  let ?P = "subsec_per_sec nano" and ?k = "subsec_per_sec nano div 1000"
  have "?k dvd ?P" using units(1) [of nano] by (metis dvd_triv_right)
  then have "?k dvd s * ?P + uint u \<longleftrightarrow> ?k dvd uint u" by (simp add: dvd_add_right_iff)
  moreover have "s * ?P + uint u < 0 \<longleftrightarrow> s < 0"
  proof -
    have "s * ?P \<le> - ?P" if "s < 0" using mult_right_mono [of s "- 1" ?P] that by simp
    moreover have "0 \<le> s * ?P" if "\<not> s < 0" using that by simp
    ultimately show ?thesis using assms(1) uint_ge_0 [of u] by linarith
  qed
  moreover have "pair_subsec (pair_assign s u) = u" by (simp add: pair_subsec_def pair_assign_def)
  ultimately show ?thesis
    using truncated [OF units(3), of "s * ?P + uint u" nano] made_of_nsec [OF assms(2), of nano]
    by (simp add: flat_msecval_def flat_assign_def int_divide_def fields_unitval pair_assign_def fields_val_def)
qed

theorem negative_rounding_differs_witness:
  "flat_msecval False (flat_assign False (- 1) 999999) = 0 \<and> fields_msecval False (- 1) 999999 = - 1
    \<and> flat_make_nsec False (- 1) = 0 \<and> pair_make_nsec False (- 1) = \<lparr>tp_sec = - 1, tp_subsec = 999999\<rparr>"
proof -
  have "fields_msecval False (- 1) 999999 = - 1" by code_simp
  moreover have "tp_sec (pair_assign (- 1) 999999) = - 1" "pair_subsec (pair_assign (- 1) 999999) = 999999" by code_simp+
  moreover have "pair_make_nsec False (- 1) = \<lparr>tp_sec = - 1, tp_subsec = 999999\<rparr>" by code_simp
  ultimately show ?thesis
    using negative_rounding_differs [of 999999 False "- 1" "- 1"] by (simp add: subsec_per_sec_def int32_range_def fields_val_def)
qed

text \<open>\<^verbatim>\<open>msec_ceil\<close> returns the least whole number of milliseconds that is no smaller, in every representation.\<close>

theorem msec_ceil_least:
  fixes nano :: bool and s :: int and u :: u32
  defines "P \<equiv> subsec_per_sec nano" and "k \<equiv> subsec_per_sec nano div 1000"
  defines "v \<equiv> s * P + uint u"
  assumes "int32_range s" "uint u < P" "ts_safe P v" "ts_safe P (v + k)"
  shows "ts_ceil (flat_assign nano) (flat_subsec nano) flat_plus (of_int k) (flat_assign nano s u) = Inr ((v + k - 1) div k * k)
    \<and> (\<exists>b. ts_ceil pair_assign pair_subsec (pair_plus nano) (of_int k) (pair_assign s u) = Inr b
        \<and> fields_val nano (tp_sec b) (tp_subsec b) = (v + k - 1) div k * k)
    \<and> (\<exists>c. ts_ceil math_assign math_subsec (math_plus nano) (of_int k) (math_assign s u) = Inr c
        \<and> math_val nano c = (v + k - 1) div k * k)"
proof -
  have n: "uint (of_int k :: u32) = k" unfolding k_def by (rule uint_per_unit)
  have k: "0 < uint (of_int k :: u32)" "uint (of_int k :: u32) dvd subsec_per_sec nano"
    unfolding n using units(3) [of nano] dvd_triv_right [of k 1000] units(1) [of nano] by (simp_all add: k_def)
  note ok = assms(4) assms(5) [unfolded P_def] assms(6) [unfolded v_def P_def] _ k
  have safe: "ts_safe (subsec_per_sec nano) (s * subsec_per_sec nano + uint u + uint (of_int k :: u32))"
    using assms(7) unfolding n v_def P_def .
  show ?thesis
    using flat.ceil_assigned [OF ok, OF safe] pair.ceil_assigned [OF ok, OF safe] math.ceil_assigned [OF ok, OF safe]
    unfolding n v_def P_def by simp
qed

theorem msec_ceil_least_witness:
  "ts_ceil (flat_assign False) (flat_subsec False) flat_plus 1000 (flat_assign False (- 1) 1) = Inr (- 999000)"
  using msec_ceil_least [of "- 1" 1 False] by (simp add: subsec_per_sec_def int32_range_def ts_safe_def)

text \<open>(C34) The division of a negative number on a 32-bit Linux kernel: the quotient is rounded down, where the other version
  of \<^verbatim>\<open>int_divide\<close> truncates; the remainder is one too large, and zero where the largest is due.
\<close>

theorem kernel_remainder_off_by_one:
  assumes do_div: "\<And>n d. 0 \<le> n \<Longrightarrow> 0 < d \<Longrightarrow> do_div n d = (n div d, n mod d)"
    and "a < 0" "0 < b"
  shows "int_divide_kernel do_div a b = a div b
    \<and> int_divide a b = a div b + (if b dvd a then 0 else 1)
    \<and> int_remainder a b = (a div b, of_int (a mod b))
    \<and> int_remainder_kernel do_div a b = (a div b, of_int ((a mod b + 1) mod b))"
proof -
  have split: "- (a + 1) = b * (- (a div b) - 1) + (b - 1 - a mod b)" using mult_div_mod_eq [of b a] by (simp add: algebra_simps)
  have r: "0 \<le> b - 1 - a mod b" "b - 1 - a mod b < b" using pos_mod_bound [OF assms(3), of a] pos_mod_sign [OF assms(3), of a] by linarith+
  have parts: "(- (a + 1)) div b = - (a div b) - 1" "(- (a + 1)) mod b = b - 1 - a mod b"
    using int_div_pos_eq [OF split r] int_mod_pos_eq [OF split r] by simp_all
  have d: "do_div (- (a + 1)) b = (- (a div b) - 1, b - 1 - a mod b)" using do_div [of "- (a + 1)" b] assms(2,3) by (simp only: parts)
  have "(a mod b + 1) mod b = (if b - 1 - a mod b \<noteq> 0 then b - (b - 1 - a mod b) else 0)"
  proof (cases "a mod b + 1 = b")
    case True
    then show ?thesis using r by (simp only: mod_self) simp
  qed (use r pos_mod_sign [OF assms(3), of a] in \<open>auto simp: mod_pos_pos_trivial\<close>)
  then have "int_remainder_kernel do_div a b = (a div b, of_int ((a mod b + 1) mod b))"
    using assms(2) unfolding int_remainder_kernel_def d by (simp split: if_splits)
  moreover have "int_divide_kernel do_div a b = a div b" using assms(2) unfolding int_divide_kernel_def d by simp
  ultimately show ?thesis
    using assms(2,3) truncated [OF assms(3), of a] by (simp add: int_divide_def int_remainder_floor)
qed

theorem kernel_remainder_off_by_one_witness:
  "int_remainder_kernel (\<lambda>n d. (n div d, n mod d)) (- 1) 1000 = (- 1, 0) \<and> int_remainder (- 1) 1000 = (- 1, 999)"
  using kernel_remainder_off_by_one [of "\<lambda>n d. (n div d, n mod d)" "- 1" 1000] by simp

end
