(* ===== verification/Classification.thy ===== *)
theory Classification
  imports Elements
begin

text \<open>
  Packet classification (\<^verbatim>\<open>elements/standard/classification.{hh,cc}\<close>): the programs into which
  classifiers translate their patterns.  An instruction masks four bytes of the packet, compares
  them with a value and jumps; a positive jump goes to an instruction, any other to the output of
  its negation.  A packet too short for an instruction takes the jump its \<^verbatim>\<open>short_output\<close> says.

  The theory has the instructions with the tests by which the optimiser compares them, and the
  execution of a program in both forms the code has: with the length of the packet checked at every
  instruction, and without, for packets of the safe length.  \<open>deliver\<close> is the reference: the
  output of a packet, given only what each instruction answers.  Shown: both executions end, stay inside the
  buffer and compute it, whatever lies behind the packet; and which of the optimiser's tests are
  right.
\<close>

section \<open>Instructions\<close>

definition j_never :: int where "j_never = - 2147483647"
definition j_failure :: int where "j_failure = j_never + 1"
definition j_success :: int where "j_success = j_never + 2"

record insn =
  in_offset :: u16
  in_short :: bool
  in_mask :: u32
  in_value :: u32
  in_no :: int
  in_yes :: int

definition new_insn :: "int \<Rightarrow> u32 \<Rightarrow> u32 \<Rightarrow> insn" where
  "new_insn offset v m = \<lparr>in_offset = of_int offset, in_short = False, in_mask = m, in_value = v AND m,
     in_no = j_failure, in_yes = j_success\<rparr>"

text \<open>The member \<^verbatim>\<open>j\<close>, indexed by the result of the test, and byte \<open>k\<close> of a mask.\<close>

definition in_jump :: "insn \<Rightarrow> bool \<Rightarrow> int" where "in_jump i b = (if b then in_yes i else in_no i)"

definition mask_byte :: "u32 \<Rightarrow> nat \<Rightarrow> u32" where "mask_byte m k = drop_bit (8 * k) m AND 0xFF"

definition required_length :: "insn \<Rightarrow> nat" where
  "required_length i =
     (if in_mask i = 0 then 0
      else if mask_byte (in_mask i) 3 \<noteq> 0 then unat (in_offset i) + 4
      else if mask_byte (in_mask i) 2 \<noteq> 0 then unat (in_offset i) + 3
      else if mask_byte (in_mask i) 1 \<noteq> 0 then unat (in_offset i) + 2
      else unat (in_offset i) + 1)"

definition hard_implies_short_ok :: "insn \<Rightarrow> bool \<Rightarrow> insn \<Rightarrow> bool \<Rightarrow> nat \<Rightarrow> bool" where
  "hard_implies_short_ok i direction x next_direction known_length \<longleftrightarrow>
     in_short i \<noteq> direction \<or> required_length i \<le> known_length
     \<or> required_length i \<le> required_length x \<and> next_direction = in_short x"

definition implies_short_ok :: "insn \<Rightarrow> bool \<Rightarrow> insn \<Rightarrow> bool \<Rightarrow> nat \<Rightarrow> bool" where
  "implies_short_ok i direction x next_direction known_length \<longleftrightarrow>
     (if in_short i \<noteq> direction \<or> unat (in_offset i) + 4 \<le> known_length then True
      else hard_implies_short_ok i direction x next_direction known_length)"

definition insn_implies :: "insn \<Rightarrow> insn \<Rightarrow> nat \<Rightarrow> bool" where
  "insn_implies i x known_length \<longleftrightarrow>
     (if in_mask x = 0 then True
      else if in_offset x \<noteq> in_offset i \<or> \<not> implies_short_ok i True x True known_length then False
      else let both_mask = in_mask i AND in_mask x in
        both_mask = in_mask x \<and> in_value i AND both_mask = in_value x)"

definition insn_not_implies :: "insn \<Rightarrow> insn \<Rightarrow> nat \<Rightarrow> bool" where
  "insn_not_implies i x known_length \<longleftrightarrow>
     (if in_mask x = 0 then True
      else if in_offset x \<noteq> in_offset i \<or> \<not> implies_short_ok i False x True known_length then False
      else in_mask i AND (in_mask i - 1) = 0 \<and> in_mask i = in_mask x \<and> in_value i \<noteq> in_value x)"

definition insn_implies_not :: "insn \<Rightarrow> insn \<Rightarrow> nat \<Rightarrow> bool" where
  "insn_implies_not i x known_length \<longleftrightarrow>
     (if in_mask x = 0 \<or> in_offset x \<noteq> in_offset i \<or> \<not> implies_short_ok i True x False known_length then False
      else let both_mask = in_mask i AND in_mask x in
        both_mask = in_mask x \<and> in_value i AND both_mask \<noteq> in_value x)"

definition insn_not_implies_not :: "insn \<Rightarrow> insn \<Rightarrow> nat \<Rightarrow> bool" where
  "insn_not_implies_not i x known_length \<longleftrightarrow>
     (if in_mask i = 0 then True
      else if in_offset x \<noteq> in_offset i \<or> \<not> implies_short_ok i False x False known_length then False
      else let both_mask = in_mask i AND in_mask x in
        both_mask = in_mask i \<and> in_value i = in_value x AND both_mask)"

definition insn_compatible :: "insn \<Rightarrow> insn \<Rightarrow> bool \<Rightarrow> bool" where
  "insn_compatible i x consider_short \<longleftrightarrow>
     (if in_mask i = 0 \<or> in_mask x = 0 then True
      else if in_offset x \<noteq> in_offset i
        \<or> consider_short \<and> in_short x \<noteq> in_short i \<and> required_length i < required_length x then False
      else let both_mask = in_mask i AND in_mask x in in_value i AND both_mask = in_value x AND both_mask)"

definition generalizable_or_pair :: "insn \<Rightarrow> insn \<Rightarrow> bool" where
  "generalizable_or_pair i x \<longleftrightarrow>
     (let value_diff = in_value i XOR in_value x in
      if in_offset i \<noteq> 0 \<and> in_offset x = in_offset i \<and> in_mask i \<noteq> 0 \<and> in_mask x = in_mask i
         \<and> (in_short i \<or> \<not> in_short x) \<and> in_yes i = in_yes x \<and> value_diff AND (value_diff - 1) = 0
      then required_length (new_insn (uint (in_offset i)) (in_value i AND NOT value_diff) (in_mask i AND NOT value_diff)) = required_length i
      else False)"

definition flippable :: "insn \<Rightarrow> bool" where
  "flippable i \<longleftrightarrow> (if in_mask i = 0 then False else in_mask i AND (in_mask i - 1) = 0)"

definition insn_flip :: "insn \<Rightarrow> insn res" where
  "insn_flip i = guard (flippable i) AssertFail
     (Inr (i\<lparr>in_value := in_value i XOR in_mask i, in_no := in_yes i, in_yes := in_no i, in_short := \<not> in_short i\<rparr>))"

section \<open>Execution\<close>

record program =
  pr_insn :: "insn list"
  pr_output_everything :: int
  pr_safe_length :: u32
  pr_align_offset :: u32

definition new_program :: "u32 \<Rightarrow> program" where
  "new_program align_offset =
     \<lparr>pr_insn = [], pr_output_everything = - j_never, pr_safe_length = - 1, pr_align_offset = align_offset\<rparr>"

text \<open>One test.  \<open>buf\<close> is the memory from \<^verbatim>\<open>packet_data\<close> to the end of the buffer.\<close>

definition load_test :: "bytes \<Rightarrow> insn \<Rightarrow> bool res" where
  "load_test buf i = guard (unat (in_offset i) + 4 \<le> length buf) OutOfBounds
     (Inr (get32 buf (unat (in_offset i)) AND in_mask i = in_value i))"

definition checked_test :: "bytes \<Rightarrow> nat \<Rightarrow> insn \<Rightarrow> bool res" where
  "checked_test buf packet_length i =
     (let offset = unat (in_offset i) in
      if packet_length < offset + 4
      then if offset < packet_length
             \<and> \<not> (mask_byte (in_mask i) 3 \<noteq> 0
                 \<or> mask_byte (in_mask i) 2 \<noteq> 0 \<and> packet_length - offset \<le> 2
                 \<or> mask_byte (in_mask i) 1 \<noteq> 0 \<and> packet_length - offset = 1)
           then load_test buf i else Inr (in_short i)
      else load_test buf i)"

text \<open>The loop of both executions.\<close>

partial_function (option) match_loop :: "(insn \<Rightarrow> bool res) \<Rightarrow> insn list \<Rightarrow> nat \<Rightarrow> int res option" where
  "match_loop test ex pos =
     (if pos < length ex
      then case test (ex ! pos) of
          Inl f \<Rightarrow> Some (Inl f)
        | Inr b \<Rightarrow> let j = in_jump (ex ! pos) b in
            if j > 0 then match_loop test ex (nat j) else Some (Inr (- j))
      else Some (Inl OutOfBounds))"

declare match_loop.simps [code]

text \<open>
  The memory \<^verbatim>\<open>packet_data\<close> points to; \<open>room\<close> is what the tailroom holds.
\<close>

definition packet_window :: "u32 \<Rightarrow> (nat \<Rightarrow> u8) \<Rightarrow> packet \<Rightarrow> bytes" where
  "packet_window align_offset room p =
     drop (pk_headroom p - unat align_offset) (pk_head p) @ pk_data p @ map room [0..<pk_tailroom p]"

definition Program_match :: "program \<Rightarrow> (nat \<Rightarrow> u8) \<Rightarrow> packet \<Rightarrow> int res option" where
  "Program_match prog room p =
     (if 0 \<le> pr_output_everything prog then Some (Inr (pr_output_everything prog))
      else if pk_headroom p < unat (pr_align_offset prog) then Some (Inl OutOfBounds)
      else let buf = packet_window (pr_align_offset prog) room p in
        if of_nat (pk_length p) < pr_safe_length prog
        then match_loop (checked_test buf (pk_length p + unat (pr_align_offset prog))) (pr_insn prog) 0
        else match_loop (load_test buf) (pr_insn prog) 0)"

text \<open>The end of \<^verbatim>\<open>Program::optimize\<close>, where the safe length is computed.\<close>

definition max_required :: "insn list \<Rightarrow> nat" where
  "max_required ex = fold (\<lambda>i n. if required_length i > n then required_length i else n) ex 0"

definition finish_optimize :: "program \<Rightarrow> program" where
  "finish_optimize prog =
     (let prog1 =
        (if pr_insn prog = [] \<and> pr_output_everything prog < 0 then prog\<lparr>pr_output_everything := - j_never\<rparr>
         else if 0 \<le> pr_output_everything prog then prog\<lparr>pr_insn := []\<rparr> else prog)
      in prog1\<lparr>pr_safe_length := of_nat (max_required (pr_insn prog1)) - pr_align_offset prog1\<rparr>)"

text \<open>\<^verbatim>\<open>Classifier::push\<close>.\<close>

definition Classifier_push :: "nat \<Rightarrow> program \<Rightarrow> (nat \<Rightarrow> u8) \<Rightarrow> packet \<Rightarrow> action list res option" where
  "Classifier_push noutputs prog room p =
     map_option (map_sum id (\<lambda>port. checked_output_push noutputs (nat port) p)) (Program_match prog room p)"

section \<open>The reference\<close>

text \<open>
  What an instruction answers for a packet of \<open>len\<close> bytes whose words are given by \<open>w\<close>: an empty
  mask matches everything.
\<close>

definition insn_test :: "nat \<Rightarrow> (nat \<Rightarrow> u32) \<Rightarrow> insn \<Rightarrow> bool" where
  "insn_test len w i \<longleftrightarrow> in_mask i = 0 \<or>
     (if len < required_length i then in_short i else w (unat (in_offset i)) AND in_mask i = in_value i)"

text \<open>
  The output a program delivers to, from instruction \<open>pos\<close> on, if instruction \<open>i\<close> answers \<open>t i\<close>; \<open>None\<close>
  if a jump goes backward or leaves the program.
\<close>

function deliver :: "(insn \<Rightarrow> bool) \<Rightarrow> insn list \<Rightarrow> nat \<Rightarrow> int option" where
  "deliver t ex pos =
     (if pos < length ex
      then let j = in_jump (ex ! pos) (t (ex ! pos)) in
        if j \<le> 0 then Some (- j) else if int pos < j then deliver t ex (nat j) else None
      else None)"
  by pat_completeness auto
termination by (relation "measure (\<lambda>(t, ex, pos). length ex - pos)") auto

declare deliver.simps [simp del]

definition target :: "(insn \<Rightarrow> bool) \<Rightarrow> insn list \<Rightarrow> int \<Rightarrow> int option" where
  "target t ex j = (if j \<le> 0 then Some (- j) else deliver t ex (nat j))"

text \<open>Programs whose jumps lead forward, and instructions that can match.\<close>

definition jump_ok :: "nat \<Rightarrow> nat \<Rightarrow> int \<Rightarrow> bool" where
  "jump_ok n pos j \<longleftrightarrow> j \<le> 0 \<or> int pos < j \<and> j < int n"

definition insn_ok :: "nat \<Rightarrow> nat \<Rightarrow> insn \<Rightarrow> bool" where
  "insn_ok n pos i \<longleftrightarrow> jump_ok n pos (in_no i) \<and> jump_ok n pos (in_yes i) \<and> in_value i AND in_mask i = in_value i"

definition insns_ok :: "insn list \<Rightarrow> bool" where
  "insns_ok ex \<longleftrightarrow> (\<forall>pos < length ex. insn_ok (length ex) pos (ex ! pos))"

lemma insns_okD: "insns_ok ex \<Longrightarrow> pos < length ex \<Longrightarrow> insn_ok (length ex) pos (ex ! pos)"
  by (simp add: insns_ok_def)

lemma insn_ok_jump: "insn_ok n pos i \<Longrightarrow> jump_ok n pos (in_jump i b)"
  by (simp add: insn_ok_def in_jump_def)

lemma deliver_step:
  assumes "insns_ok ex" "pos < length ex"
  shows "deliver t ex pos = target t ex (in_jump (ex ! pos) (t (ex ! pos)))"
  using insn_ok_jump [OF insns_okD [OF assms], of "t (ex ! pos)"] assms(2)
  by (subst deliver.simps) (auto simp: target_def jump_ok_def Let_def)

text \<open>Induction from the end of a program.\<close>

lemma program_induct [consumes 1, case_names step]:
  assumes "pos < (n :: nat)" "\<And>pos. pos < n \<Longrightarrow> (\<And>k. pos < k \<Longrightarrow> k < n \<Longrightarrow> P k) \<Longrightarrow> P pos"
  shows "P pos"
  using assms(1)
proof (induction "n - pos" arbitrary: pos rule: less_induct)
  case less
  then show ?case using assms(2) [of pos] by (meson diff_less_mono2 less_trans)
qed

lemma deliver_total:
  assumes "insns_ok ex"
  shows "pos < length ex \<Longrightarrow> \<exists>r. deliver t ex pos = Some r"
proof (induction pos rule: program_induct)
  case (step pos)
  then show ?case
    using insn_ok_jump [OF insns_okD [OF assms step(1)], of "t (ex ! pos)"]
    unfolding deliver_step [OF assms step(1)] target_def jump_ok_def by auto
qed

text \<open>The loop computes it, if each test answers what the reference says.\<close>

lemma match_loop_delivers:
  assumes ok: "insns_ok ex" and test: "\<And>i. i \<in> set ex \<Longrightarrow> test i = Inr (t i)"
  shows "pos < length ex \<Longrightarrow> \<exists>r. match_loop test ex pos = Some (Inr r) \<and> deliver t ex pos = Some r"
proof (induction pos rule: program_induct)
  case (step pos)
  let ?j = "in_jump (ex ! pos) (t (ex ! pos))"
  have "jump_ok (length ex) pos ?j" by (rule insn_ok_jump [OF insns_okD [OF ok step(1)]])
  then show ?case
    using step test [OF nth_mem [OF step(1)]]
    by (subst match_loop.simps) (auto simp: deliver_step [OF ok] target_def jump_ok_def Let_def)
qed

section \<open>Masks and packets\<close>

lemma mask_byte_bit: "mask_byte m k = 0 \<longleftrightarrow> (\<forall>n < 8. \<not> bit m (8 * k + n))"
proof
  assume *: "mask_byte m k = 0"
  show "\<forall>n < 8. \<not> bit m (8 * k + n)"
  proof (intro allI impI)
    fix n :: nat
    assume "n < 8"
    then have "bit (mask_byte m k) n \<longleftrightarrow> bit m (8 * k + n)"
      by (auto simp: mask_byte_def bit_simps less_Suc_eq numeral_eq_Suc)
    then show "\<not> bit m (8 * k + n)" using * by simp
  qed
next
  assume *: "\<forall>n < 8. \<not> bit m (8 * k + n)"
  show "mask_byte m k = 0"
  proof (rule bit_word_eqI)
    fix n assume "n < LENGTH(32)"
    have "(0xFF :: u32) = mask 8" by (simp add: mask_eq_exp_minus_1)
    then have "bit (0xFF :: u32) n \<Longrightarrow> n < 8" by (simp only: bit_mask_iff)
    then show "bit (mask_byte m k) n = bit 0 n"
      using * by (auto simp: mask_byte_def bit_simps)
  qed
qed

lemma mask_within:
  assumes "bit (in_mask i) n"
  shows "unat (in_offset i) + n div 8 < required_length i"
proof -
  let ?m = "in_mask i"
  have n: "n < 32" using bit_imp_le_length [OF assms] by simp
  have "mask_byte ?m (n div 8) \<noteq> 0" unfolding mask_byte_bit
    using assms by (auto intro!: exI [of _ "n mod 8"] simp: mult_div_mod_eq)
  moreover have "?m \<noteq> 0" using assms by auto
  moreover have "n div 8 < 4" using n by linarith
  then have "n div 8 = 0 \<or> n div 8 = 1 \<or> n div 8 = 2 \<or> n div 8 = 3" by linarith
  ultimately show ?thesis unfolding required_length_def by (elim disjE) simp_all
qed

lemma required_length_bounds:
  assumes "in_mask i \<noteq> 0"
  shows "unat (in_offset i) < required_length i" "required_length i \<le> unat (in_offset i) + 4"
  using assms by (auto simp: required_length_def)

text \<open>The length check of the loop is the required length.\<close>

lemma checked_test_required:
  assumes "in_mask i \<noteq> 0"
  shows "checked_test buf len i = (if len < required_length i then Inr (in_short i) else load_test buf i)"
  using assms by (auto simp: checked_test_def required_length_def Let_def)

lemma bit_get32:
  assumes "n < 32"
  shows "bit (get32 b k) n \<longleftrightarrow> bit (b ! (k + n div 8)) (n mod 8)"
proof -
  consider "n < 8" | "8 \<le> n" "n < 16" | "16 \<le> n" "n < 24" | "24 \<le> n" using assms by linarith
  then show ?thesis
  proof cases
    case 1
    then show ?thesis by (simp add: get32_def bit_simps)
  next
    case 2
    then have "n div 8 = 1" "n mod 8 = n - 8" by (simp_all add: div_nat_eqI mod_nat_eqI)
    then show ?thesis using 2 by (auto simp: get32_def bit_simps dest: bit_imp_le_length)
  next
    case 3
    then have "n div 8 = 2" "n mod 8 = n - 16" by (simp_all add: div_nat_eqI mod_nat_eqI)
    then show ?thesis using 3 by (auto simp: get32_def bit_simps dest: bit_imp_le_length)
  next
    case 4
    then have "n div 8 = 3" "n mod 8 = n - 24" using assms by (simp_all add: div_nat_eqI mod_nat_eqI)
    then show ?thesis using 4 assms by (auto simp: get32_def bit_simps dest: bit_imp_le_length)
  qed
qed

lemma masked_bytes:
  assumes "\<And>k. k < required_length i \<Longrightarrow> b ! k = c ! k"
  shows "get32 b (unat (in_offset i)) AND in_mask i = get32 c (unat (in_offset i)) AND in_mask i"
proof (rule bit_word_eqI)
  fix n assume "n < LENGTH(32)"
  then show "bit (get32 b (unat (in_offset i)) AND in_mask i) n = bit (get32 c (unat (in_offset i)) AND in_mask i) n"
    using assms mask_within [of i n] by (auto simp: bit_and_iff bit_get32)
qed

text \<open>The words of a packet, as if three zero bytes were behind it.\<close>

definition packet_word :: "u32 \<Rightarrow> packet \<Rightarrow> nat \<Rightarrow> u32" where
  "packet_word a p = get32 (packet_window a (\<lambda>_. 0) (p\<lparr>pk_tailroom := 3\<rparr>))"

lemma window_length:
  assumes "unat a \<le> pk_headroom p"
  shows "length (packet_window a room p) = pk_length p + unat a + pk_tailroom p"
  using assms by (simp add: packet_window_def pk_length_def pk_headroom_def)

lemma window_nth:
  assumes "unat a \<le> pk_headroom p" "k < pk_length p + unat a"
  shows "packet_window a room p ! k = packet_window a room' (p\<lparr>pk_tailroom := n\<rparr>) ! k"
  using assms by (auto simp: packet_window_def pk_length_def pk_headroom_def nth_append)

lemma load_test_packet:
  assumes "unat a \<le> pk_headroom p" "3 \<le> pk_tailroom p" "in_mask i \<noteq> 0" "required_length i \<le> pk_length p + unat a"
  shows "load_test (packet_window a room p) i = Inr (packet_word a p (unat (in_offset i)) AND in_mask i = in_value i)"
proof -
  have "unat (in_offset i) + 4 \<le> length (packet_window a room p)"
    using required_length_bounds(1) [OF assms(3)] assms(2,4) window_length [OF assms(1), of room] by linarith
  moreover have "get32 (packet_window a room p) (unat (in_offset i)) AND in_mask i = packet_word a p (unat (in_offset i)) AND in_mask i"
    unfolding packet_word_def using assms(4) by (intro masked_bytes window_nth [OF assms(1)]) simp
  ultimately show ?thesis by (simp add: load_test_def)
qed

lemma fold_max_ge: "n \<le> fold (\<lambda>i n. if required_length i > n then required_length i else n) ex n"
  by (induction ex arbitrary: n) (simp, smt (verit, best) fold_simps(2) le_trans less_imp_le_nat)

lemma max_required_ge:
  "i \<in> set ex \<Longrightarrow> required_length i \<le> fold (\<lambda>i n. if required_length i > n then required_length i else n) ex n"
proof (induction ex arbitrary: n)
  case (Cons x ex)
  then show ?case using order_trans [OF _ fold_max_ge [of "if required_length x > n then required_length x else n" ex], of "required_length x"] by auto
qed simp

definition program_ok :: "program \<Rightarrow> bool" where
  "program_ok prog \<longleftrightarrow> insns_ok (pr_insn prog) \<and> pr_insn prog \<noteq> [] \<and> (\<forall>i \<in> set (pr_insn prog). in_mask i \<noteq> 0)
     \<and> pr_output_everything prog < 0 \<and> unat (pr_align_offset prog) \<le> max_required (pr_insn prog)
     \<and> pr_safe_length prog = of_nat (max_required (pr_insn prog)) - pr_align_offset prog"

lemma required_length_less: "required_length i < 65540"
  using unat_u16_bound [of "in_offset i"] by (auto simp: required_length_def)

lemma max_required_less: "max_required ex < 65540"
proof -
  have "fold (\<lambda>i n. if required_length i > n then required_length i else n) ex n < 65540" if "n < 65540" for n
    using that by (induction ex arbitrary: n) (auto simp: required_length_less)
  then show ?thesis by (simp add: max_required_def)
qed

lemma safe_length_required:
  assumes "unat a \<le> max_required ex" "\<not> of_nat l < (of_nat (max_required ex) - a :: u32)" "l < 4294967296" "i \<in> set ex"
  shows "required_length i \<le> l + unat a"
proof -
  have m: "unat (of_nat (max_required ex) :: u32) = max_required ex" using max_required_less [of ex] by (simp add: unat_of_nat)
  then have "a \<le> of_nat (max_required ex)" using assms(1) by (simp add: word_le_nat_alt)
  then have "unat (of_nat (max_required ex) - a) = max_required ex - unat a" using m by (simp add: unat_sub)
  moreover have "unat (of_nat l :: u32) = l" using assms(3) by (simp add: unat_of_nat)
  ultimately have "max_required ex \<le> l + unat a" using assms(2) by (simp add: word_less_nat_alt)
  then show ?thesis using max_required_ge [OF assms(4), of 0] by (simp add: max_required_def)
qed

section \<open>Properties\<close>

text \<open>
  A program whose jumps lead forward classifies every packet: the execution ends, reads only inside the
  buffer, which has three bytes behind the packet, and gives the output of the reference, whichever of the two loops runs and whatever the bytes
  behind the packet are.
\<close>

theorem match_delivers:
  assumes "program_ok prog" "unat (pr_align_offset prog) \<le> pk_headroom p" "3 \<le> pk_tailroom p" "pk_length p < 4294967296"
  shows "\<exists>r. Program_match prog room p = Some (Inr r)
    \<and> deliver (insn_test (pk_length p + unat (pr_align_offset prog)) (packet_word (pr_align_offset prog) p)) (pr_insn prog) 0 = Some r"
proof -
  let ?a = "pr_align_offset prog" and ?ex = "pr_insn prog"
  let ?L = "pk_length p + unat ?a" and ?buf = "packet_window ?a room p"
  let ?t = "insn_test ?L (packet_word ?a p)"
  note ok = assms(1) [unfolded program_ok_def]
  have pos: "insns_ok ?ex" "0 < length ?ex" using ok by auto
  have load: "load_test ?buf i = Inr (?t i)" if "i \<in> set ?ex" "required_length i \<le> ?L" for i
    using load_test_packet [OF assms(2,3) _ that(2)] that ok by (auto simp: insn_test_def)
  have checked: "checked_test ?buf ?L i = Inr (?t i)" if "i \<in> set ?ex" for i
    using that load [OF that] ok by (auto simp: checked_test_required insn_test_def)
  show ?thesis
  proof (cases "of_nat (pk_length p) < pr_safe_length prog")
    case True
    then show ?thesis
      using match_loop_delivers [OF pos(1) checked pos(2)] ok assms(2) by (simp add: Program_match_def Let_def)
  next
    case False
    then have "required_length i \<le> ?L" if "i \<in> set ?ex" for i
      using safe_length_required [OF _ _ assms(4) that, of ?a] ok by simp
    then show ?thesis
      using match_loop_delivers [OF pos(1) load pos(2)] ok assms(2) False by (simp add: Program_match_def Let_def)
  qed
qed

lemma test_short_ok:
  assumes "implies_short_ok i d x n kl" "kl \<le> len" "insn_test len w i = d" "in_mask i \<noteq> 0" "in_mask x \<noteq> 0" "len < required_length i"
  shows "n = in_short x \<and> len < required_length x"
  using assms required_length_bounds(2) [OF assms(4)]
  by (auto simp: implies_short_ok_def hard_implies_short_ok_def insn_test_def split: if_splits)

text \<open>A smaller mask needs no more of the packet.\<close>

lemma required_length_mono:
  assumes "in_offset x = in_offset i" "in_mask i AND in_mask x = in_mask x"
  shows "required_length x \<le> required_length i"
proof (cases "in_mask x = 0")
  case False
  have sub: "mask_byte (in_mask i) k \<noteq> 0" if "mask_byte (in_mask x) k \<noteq> 0" for k
    using that assms(2) by (metis bit_and_iff mask_byte_bit)
  then have "in_mask i \<noteq> 0" using False assms(2) by auto
  then show ?thesis using False sub [of 1] sub [of 2] sub [of 3] assms(1) by (auto simp: required_length_def)
qed (simp add: required_length_def)

lemma and_chain: "w AND m = v \<Longrightarrow> m AND m' = m' \<Longrightarrow> w AND m' = v AND m'" for w :: u32
  by (metis and.assoc)

text \<open>The idiom \<^verbatim>\<open>(x & (x - 1)) == 0\<close>: at most one bit.\<close>

lemma single_bit_nat: "0 < a \<Longrightarrow> a AND (a - 1) = 0 \<Longrightarrow> \<exists>n. a = 2 ^ n" for a :: nat
proof (induction a rule: less_induct)
  case (less a)
  show ?case
  proof (cases "even a")
    case True
    then obtain b where b: "a = 2 * b" ..
    have "(a - 1) div 2 = b - 1" "a div 2 = b" "odd (a - 1)" using b less.prems(1) by simp_all
    then have "b AND (b - 1) = 0" using less.prems(2) True by (subst (asm) and_nat_rec) simp
    then obtain n where "b = 2 ^ n" using less.IH [of b] b less.prems(1) by auto
    then have "a = 2 ^ Suc n" using b by simp
    then show ?thesis ..
  next
    case False
    then obtain b where b: "a = 2 * b + 1" by (rule oddE)
    have "(a - 1) div 2 = b" "a div 2 = b" using b by simp_all
    then have "b = 0" using less.prems(2) b by (subst (asm) and_nat_rec) simp
    then have "a = 2 ^ 0" using b by simp
    then show ?thesis ..
  qed
qed

lemma single_bit_index:
  fixes m :: u32
  assumes "m AND (m - 1) = 0" "m \<noteq> 0"
  obtains n where "\<And>k. bit m k \<longleftrightarrow> k = n"
proof -
  have "unat (m - 1) = unat m - 1" using assms(2) by (simp add: unat_minus_one)
  then have "unat m AND (unat m - 1) = 0" using assms(1) by (metis unsigned_0 unsigned_and_eq)
  then obtain n where n: "unat m = 2 ^ n" using single_bit_nat [of "unat m"] assms(2) by (auto simp: unat_gt_0)
  have "bit m k \<longleftrightarrow> k = n" for k
  proof -
    have "bit m k \<longleftrightarrow> bit (unat m) k" by (simp add: bit_unsigned_iff)
    then show ?thesis unfolding n by (auto simp: bit_exp_iff)
  qed
  then show ?thesis using that by blast
qed

lemma single_bit:
  fixes m :: u32
  assumes "m AND (m - 1) = 0" "y AND m = y"
  shows "y = 0 \<or> y = m"
proof (cases "m = 0")
  case False
  then obtain n where bit: "\<And>k. bit m k \<longleftrightarrow> k = n" using single_bit_index [OF assms(1)] by blast
  have y: "k = n" if "bit y k" for k
  proof -
    have "bit (y AND m) k" using that by (simp only: assms(2))
    then show ?thesis unfolding bit_and_iff bit by (rule conjunct2)
  qed
  show ?thesis
  proof (cases "bit y n")
    case True
    then have "bit y k \<longleftrightarrow> bit m k" for k unfolding bit using y [of k] by (cases "k = n") auto
    then have "y = m" by (intro bit_word_eqI) simp
    then show ?thesis ..
  next
    case False
    then have "\<not> bit y k" for k using y by blast
    then have "y = 0" by (intro bit_word_eqI) simp
    then show ?thesis ..
  qed
qed (use assms in simp)

lemma word_eq_bits: "x = y \<longleftrightarrow> (\<forall>k. bit x k \<longleftrightarrow> bit y k)" for x y :: u32
  by (auto intro: bit_word_eqI)

text \<open>
  What one instruction's answer says about another's, for packets of at least the known length: three of
  the optimiser's four tests are right, and the fourth is if the second instruction is not the one that
  short packets match, or the packet is known to be long enough for it.
\<close>

theorem implications_sound:
  assumes "in_value i AND in_mask i = in_value i" "in_value x AND in_mask x = in_value x" "kl \<le> len"
  shows "(insn_implies i x kl \<and> insn_test len w i \<longrightarrow> insn_test len w x)
    \<and> (insn_not_implies i x kl \<and> \<not> insn_test len w i \<longrightarrow> insn_test len w x)
    \<and> (insn_implies_not i x kl \<and> insn_test len w i \<longrightarrow> \<not> insn_test len w x)
    \<and> (insn_not_implies_not i x kl \<and> (\<not> in_short x \<or> required_length x \<le> kl) \<and> \<not> insn_test len w i \<longrightarrow> \<not> insn_test len w x)"
proof (intro conjI impI; elim conjE)
  assume *: "insn_implies i x kl" "insn_test len w i"
  show "insn_test len w x"
  proof (cases "in_mask x = 0")
    case False
    then have i: "in_offset x = in_offset i" "implies_short_ok i True x True kl" "in_mask i AND in_mask x = in_mask x" "in_value i AND in_mask x = in_value x"
      using *(1) by (auto simp: insn_implies_def Let_def split: if_splits)
    then have "in_mask i \<noteq> 0" using False by auto
    then show ?thesis
      using test_short_ok [OF i(2) assms(3) _ \<open>in_mask i \<noteq> 0\<close> False, of w] required_length_mono [OF i(1,3)] *(2) False i
        and_chain [of "w (unat (in_offset i))" "in_mask i" "in_value i" "in_mask x"]
      by (cases "len < required_length i") (auto simp: insn_test_def)
  qed (simp add: insn_test_def)
next
  assume *: "insn_not_implies i x kl" "\<not> insn_test len w i"
  show "insn_test len w x"
  proof (cases "in_mask x = 0")
    case False
    then have i: "in_offset x = in_offset i" "implies_short_ok i False x True kl" "in_mask i = in_mask x" "in_mask i AND (in_mask i - 1) = 0" "in_value i \<noteq> in_value x"
      using *(1) by (auto simp: insn_not_implies_def split: if_splits)
    have "in_value i = 0 \<or> in_value i = in_mask i" "in_value x = 0 \<or> in_value x = in_mask i"
      "w (unat (in_offset i)) AND in_mask i = 0 \<or> w (unat (in_offset i)) AND in_mask i = in_mask i"
      using single_bit [OF i(4)] assms(1,2) i(3) by (auto simp: and.assoc)
    then show ?thesis
      using test_short_ok [OF i(2) assms(3), of w] required_length_mono [OF i(1)] *(2) False i
      by (cases "len < required_length i") (auto simp: insn_test_def)
  qed (simp add: insn_test_def)
next
  assume *: "insn_implies_not i x kl" "insn_test len w i"
  then have i: "in_offset x = in_offset i" "implies_short_ok i True x False kl" "in_mask i AND in_mask x = in_mask x" "in_value i AND in_mask x \<noteq> in_value x" "in_mask x \<noteq> 0"
    by (auto simp: insn_implies_not_def Let_def split: if_splits)
  then have "in_mask i \<noteq> 0" by auto
  then show "\<not> insn_test len w x"
    using test_short_ok [OF i(2) assms(3) _ \<open>in_mask i \<noteq> 0\<close> i(5), of w] required_length_mono [OF i(1,3)] *(2) i
      and_chain [of "w (unat (in_offset i))" "in_mask i" "in_value i" "in_mask x"]
    by (cases "len < required_length i") (auto simp: insn_test_def)
next
  assume *: "insn_not_implies_not i x kl" "\<not> in_short x \<or> required_length x \<le> kl" "\<not> insn_test len w i"
  then have "in_mask i \<noteq> 0" by (auto simp: insn_test_def)
  then have i: "in_offset x = in_offset i" "implies_short_ok i False x False kl" "in_mask i AND in_mask x = in_mask i" "in_value i = in_value x AND in_mask i"
    using *(1) by (auto simp: insn_not_implies_not_def Let_def split: if_splits)
  then have "in_mask x \<noteq> 0" using \<open>in_mask i \<noteq> 0\<close> by auto
  then show "\<not> insn_test len w x"
    using test_short_ok [OF i(2) assms(3) _ \<open>in_mask i \<noteq> 0\<close>, of w] *(2,3) i \<open>in_mask i \<noteq> 0\<close> assms(3)
      and_chain [of "w (unat (in_offset i))" "in_mask x" "in_value x" "in_mask i"]
    by (cases "len < required_length i") (auto simp: insn_test_def and.commute)
qed

end
