(* ===== verification/ClassifierPasses.thy ===== *)
theory ClassifierPasses
  imports Classification
begin

text \<open>
  The passes that improve a classification program (\<^verbatim>\<open>Program::combine_compatible_states\<close>,
  \<^verbatim>\<open>remove_unused_states\<close> and the end of \<^verbatim>\<open>optimize\<close> of
  \<^verbatim>\<open>elements/standard/classification.cc\<close>).  A pass works in place on the vector of
  instructions, so it is a function on the list of them.
\<close>

section \<open>Combining instructions\<close>

definition flip_at :: "insn list \<Rightarrow> nat \<Rightarrow> insn list res" where
  "flip_at ex i = bind_res (insn_flip (ex ! i)) (\<lambda>f. Inr (ex[i := f]))"

definition merged_insn :: "insn \<Rightarrow> insn \<Rightarrow> insn" where
  "merged_insn i yes_in = i\<lparr>in_yes := in_yes yes_in,
     in_offset := (if in_mask i = 0 then in_offset yes_in else in_offset i),
     in_value := (in_value i AND in_mask i) OR (in_value yes_in AND in_mask yes_in),
     in_mask := in_mask i OR in_mask yes_in\<rparr>"

definition general_insn :: "insn \<Rightarrow> insn \<Rightarrow> insn" where
  "general_insn i no_in = (let the_bit = in_value i XOR in_value no_in in
     i\<lparr>in_value := in_value i AND NOT the_bit, in_mask := in_mask i AND NOT the_bit, in_no := in_no no_in\<rparr>)"

text \<open>The second half of the body of the loop, and the body; the flag says that the same instruction is looked at again.\<close>

definition combine_yes :: "insn list \<Rightarrow> nat \<Rightarrow> (insn list \<times> bool) res" where
  "combine_yes ex i =
     (let y = in_yes (ex ! i) in
      if y \<le> 0 then Inr (ex, False)
      else guard (y < int (length ex)) OutOfBounds
        (bind_res (if in_no (ex ! i) = in_yes (ex ! nat y) \<and> flippable (ex ! nat y) then flip_at ex (nat y) else Inr ex)
          (\<lambda>ex1. if in_no (ex1 ! i) = in_no (ex1 ! nat y) \<and> insn_compatible (ex1 ! nat y) (ex1 ! i) True
             then Inr (ex1[i := merged_insn (ex1 ! i) (ex1 ! nat y)], True)
             else Inr (ex1, False))))"

definition combine_step :: "insn list \<Rightarrow> nat \<Rightarrow> (insn list \<times> bool) res" where
  "combine_step ex i =
     (let n = in_no (ex ! i) in
      if n \<le> 0 then combine_yes ex i
      else guard (n < int (length ex)) OutOfBounds
        (if insn_compatible (ex ! nat n) (ex ! i) False \<and> flippable (ex ! i)
         then bind_res (flip_at ex i) (\<lambda>ex1. combine_yes ex1 i)
         else if generalizable_or_pair (ex ! i) (ex ! nat n)
           then Inr (ex[i := general_insn (ex ! i) (ex ! nat n)], True)
           else combine_yes ex i))"

partial_function (option) combine_loop :: "insn list \<Rightarrow> nat \<Rightarrow> insn list res option" where
  "combine_loop ex n =
     (if n = 0 then Some (Inr ex)
      else case combine_step ex (n - 1) of
          Inl f \<Rightarrow> Some (Inl f)
        | Inr r \<Rightarrow> combine_loop (fst r) (if snd r then n else n - 1))"

declare combine_loop.simps [code]

definition combine_compatible_states :: "insn list \<Rightarrow> insn list res option" where
  "combine_compatible_states ex = combine_loop ex (length ex)"

section \<open>Replacing one instruction\<close>

lemma insns_ok_update:
  assumes "insns_ok ex" "insn_ok (length ex) i f"
  shows "insns_ok (ex[i := f])"
  unfolding insns_ok_def length_list_update
proof (intro allI impI)
  fix pos assume "pos < length ex"
  then show "insn_ok (length ex) pos (ex[i := f] ! pos)"
    using assms insns_okD [OF assms(1), of pos] by (cases "pos = i") simp_all
qed

lemma deliver_update:
  assumes ok: "insns_ok ex" "insn_ok (length ex) i f" and i: "i < length ex"
    and same: "target t ex (in_jump f (t f)) = deliver t ex i"
  shows "pos < length ex \<Longrightarrow> deliver t (ex[i := f]) pos = deliver t ex pos"
proof (induction pos rule: program_induct)
  case (step pos)
  have ok': "insns_ok (ex[i := f])" using ok by (simp add: insns_ok_update)
  have jump: "target t (ex[i := f]) j = target t ex j" if "jump_ok (length ex) pos j" for j
    using that step(2) [of "nat j"] by (auto simp: target_def jump_ok_def)
  show ?case
  proof (cases "pos = i")
    case True
    then show ?thesis
      using jump [OF insn_ok_jump [OF ok(2) [folded True]], of "t f"] same i deliver_step [OF ok', of pos t] by simp
  next
    case False
    then show ?thesis
      using jump [OF insn_ok_jump [OF insns_okD [OF ok(1) step(1)]]] step(1) deliver_step [OF ok(1) step(1), of t] deliver_step [OF ok', of pos t] by simp
  qed
qed

text \<open>What an instruction answers for a packet long enough for it.\<close>

lemma long_test:
  assumes "required_length i \<le> len" "in_value i AND in_mask i = in_value i"
  shows "insn_test len w i \<longleftrightarrow> w (unat (in_offset i)) AND in_mask i = in_value i"
  using assms by (auto simp: insn_test_def)

definition long_enough :: "nat \<Rightarrow> insn list \<Rightarrow> bool" where
  "long_enough len ex \<longleftrightarrow> (\<forall>i \<in> set ex. required_length i \<le> len)"

text \<open>A program that is equivalent to another for every packet of a length.\<close>

definition equivalent :: "nat \<Rightarrow> insn list \<Rightarrow> insn list \<Rightarrow> bool" where
  "equivalent len ex ex' \<longleftrightarrow> length ex' = length ex \<and> insns_ok ex' \<and> long_enough len ex'
     \<and> (\<forall>w. \<forall>pos < length ex. deliver (insn_test len w) ex' pos = deliver (insn_test len w) ex pos)"

lemma equivalent_refl: "insns_ok ex \<Longrightarrow> long_enough len ex \<Longrightarrow> equivalent len ex ex"
  by (simp add: equivalent_def)

lemma equivalent_trans: "equivalent len ex ex' \<Longrightarrow> equivalent len ex' ex'' \<Longrightarrow> equivalent len ex ex''"
  by (simp add: equivalent_def)

lemma equivalent_update:
  assumes "insns_ok ex" "long_enough len ex" "insn_ok (length ex) i f" "i < length ex" "required_length f \<le> len"
    and "\<And>w. target (insn_test len w) ex (in_jump f (insn_test len w f)) = deliver (insn_test len w) ex i"
  shows "equivalent len ex (ex[i := f])"
  using assms deliver_update [OF assms(1,3,4,6)] set_update_subset_insert [of ex i f]
  by (auto simp: equivalent_def insns_ok_update long_enough_def)

section \<open>The three changes\<close>

lemma flip_required: "required_length (i\<lparr>in_value := v, in_no := n, in_yes := y, in_short := s\<rparr>) = required_length i"
  by (simp add: required_length_def)

lemma flip_test:
  assumes "flippable i" "in_value i AND in_mask i = in_value i" "insn_flip i = Inr f"
  shows "insn_test len w f \<longleftrightarrow> \<not> insn_test len w i" "in_jump f b = in_jump i (\<not> b)" "required_length f = required_length i"
    "in_value f AND in_mask f = in_value f" "in_no f = in_yes i" "in_yes f = in_no i" "in_mask f = in_mask i"
proof -
  have f: "f = i\<lparr>in_value := in_value i XOR in_mask i, in_no := in_yes i, in_yes := in_no i, in_short := \<not> in_short i\<rparr>"
    using assms(1,3) by (simp add: insn_flip_def)
  have m: "in_mask i \<noteq> 0" "in_mask i AND (in_mask i - 1) = 0" using assms(1) by (auto simp: flippable_def split: if_splits)
  have "in_value i = 0 \<or> in_value i = in_mask i" using single_bit [OF m(2) assms(2)] .
  moreover have "w (unat (in_offset i)) AND in_mask i = 0 \<or> w (unat (in_offset i)) AND in_mask i = in_mask i"
    using single_bit [OF m(2)] by (simp add: and.assoc)
  ultimately show "insn_test len w f \<longleftrightarrow> \<not> insn_test len w i" "in_value f AND in_mask f = in_value f"
    using m(1) by (auto simp: f insn_test_def flip_required)
  show "in_jump f b = in_jump i (\<not> b)" "required_length f = required_length i" "in_no f = in_yes i" "in_yes f = in_no i" "in_mask f = in_mask i"
    by (simp_all add: f in_jump_def flip_required)
qed

lemma flip_equivalent:
  assumes "insns_ok ex" "long_enough len ex" "i < length ex" "flippable (ex ! i)"
  obtains f where "flip_at ex i = Inr (ex[i := f])" "insn_flip (ex ! i) = Inr f" "equivalent len ex (ex[i := f])"
proof -
  obtain f where f: "insn_flip (ex ! i) = Inr f" using assms(4) by (simp add: insn_flip_def)
  note ok = insns_okD [OF assms(1,3)]
  have v: "in_value (ex ! i) AND in_mask (ex ! i) = in_value (ex ! i)" using ok by (simp add: insn_ok_def)
  note flip = flip_test [OF assms(4) v f]
  have "insn_ok (length ex) i f" using ok flip(4,5,6) by (auto simp: insn_ok_def)
  moreover have "required_length f \<le> len" using assms(2,3) by (simp add: flip(3) long_enough_def)
  moreover have "target (insn_test len w) ex (in_jump f (insn_test len w f)) = deliver (insn_test len w) ex i" for w
    by (simp add: flip(1,2) deliver_step [OF assms(1,3)])
  ultimately have "equivalent len ex (ex[i := f])" using equivalent_update [OF assms(1,2) _ assms(3)] by blast
  then show ?thesis using that f by (simp add: flip_at_def)
qed

text \<open>Two instructions that differ in one bit of their value.\<close>

lemma general_word:
  fixes w m v v' :: u32
  defines "d \<equiv> v XOR v'"
  assumes "v AND m = v" "v' AND m = v'" "d AND (d - 1) = 0"
  shows "w AND (m AND NOT d) = v AND NOT d \<longleftrightarrow> w AND m = v \<or> w AND m = v'"
proof (cases "d = 0")
  case True
  then have "v' = v" unfolding d_def word_eq_bits by (simp add: bit_xor_iff)
  then show ?thesis using True by simp
next
  case False
  then obtain n where n: "\<And>k. bit d k \<longleftrightarrow> k = n" using single_bit_index [OF assms(4)] by blast
  have len: "n < 32" using n bit_imp_le_length [of d n] by simp
  have other: "bit v' k \<longleftrightarrow> bit v k" if "k \<noteq> n" for k using n [of k] that by (auto simp: d_def bit_xor_iff)
  have at: "bit v' n \<longleftrightarrow> \<not> bit v n" using n [of n] by (auto simp: d_def bit_xor_iff)
  have "bit m n" using at arg_cong [OF assms(2), of "\<lambda>x. bit x n"] arg_cong [OF assms(3), of "\<lambda>x. bit x n"]
    unfolding bit_and_iff by argo
  have 1: "w AND (m AND NOT d) = v AND NOT d \<longleftrightarrow> (\<forall>k. k \<noteq> n \<longrightarrow> (bit (w AND m) k \<longleftrightarrow> bit v k))"
  proof -
    have nd: "bit (NOT d) k \<longleftrightarrow> k < 32 \<and> k \<noteq> n" for k by (simp add: bit_not_iff n)
    have "bit (w AND (m AND NOT d)) k = bit (v AND NOT d) k \<longleftrightarrow> (k \<noteq> n \<longrightarrow> (bit (w AND m) k \<longleftrightarrow> bit v k))" for k
      unfolding bit_and_iff nd using bit_imp_le_length [of w k] bit_imp_le_length [of v k] by (cases "k < 32") auto
    then show ?thesis unfolding word_eq_bits by (simp only:)
  qed
  have 2: "w AND m = x \<longleftrightarrow> (\<forall>k. k \<noteq> n \<longrightarrow> (bit (w AND m) k \<longleftrightarrow> bit x k)) \<and> (bit (w AND m) n \<longleftrightarrow> bit x n)" for x
    unfolding word_eq_bits by metis
  show ?thesis unfolding 1 2 [of v] 2 [of v'] using other at by auto
qed

lemma general_required:
  assumes "generalizable_or_pair i x"
  shows "required_length (general_insn i x) = required_length i" "required_length x = required_length i"
  using assms by (auto simp: generalizable_or_pair_def general_insn_def Let_def required_length_def new_insn_def split: if_splits)

lemma general_equivalent:
  assumes "insns_ok ex" "long_enough len ex" "i < length ex" "in_no (ex ! i) > 0" "generalizable_or_pair (ex ! i) (ex ! nat (in_no (ex ! i)))"
  shows "equivalent len ex (ex[i := general_insn (ex ! i) (ex ! nat (in_no (ex ! i)))])"
proof -
  let ?n = "nat (in_no (ex ! i))" and ?f = "general_insn (ex ! i) (ex ! nat (in_no (ex ! i)))"
  note ok = insns_okD [OF assms(1,3)]
  have n: "i < ?n" "?n < length ex" using ok assms(4) by (auto simp: insn_ok_def jump_ok_def)
  note okn = insns_okD [OF assms(1) n(2)]
  have g: "in_offset (ex ! ?n) = in_offset (ex ! i)" "in_mask (ex ! ?n) = in_mask (ex ! i)" "in_yes (ex ! i) = in_yes (ex ! ?n)"
    "(in_value (ex ! i) XOR in_value (ex ! ?n)) AND ((in_value (ex ! i) XOR in_value (ex ! ?n)) - 1) = 0"
    using assms(5) by (auto simp: generalizable_or_pair_def Let_def split: if_splits)
  have f: "in_yes ?f = in_yes (ex ! i)" "in_no ?f = in_no (ex ! ?n)" "in_offset ?f = in_offset (ex ! i)"
    "in_value ?f AND in_mask ?f = in_value ?f"
    using ok by (auto simp: general_insn_def Let_def insn_ok_def word_eq_bits bit_simps)
  have vm: "in_value ?f = in_value (ex ! i) AND NOT (in_value (ex ! i) XOR in_value (ex ! ?n))"
    "in_mask ?f = in_mask (ex ! i) AND NOT (in_value (ex ! i) XOR in_value (ex ! ?n))"
    by (simp_all add: general_insn_def Let_def)
  have "insn_ok (length ex) i ?f" using ok okn n f by (auto simp: insn_ok_def jump_ok_def)
  moreover have r: "required_length (ex ! i) \<le> len" "required_length (ex ! ?n) \<le> len" "required_length ?f \<le> len"
    using assms(2,3) n general_required [OF assms(5)] by (simp_all add: long_enough_def)
  moreover have "target (insn_test len w) ex (in_jump ?f (insn_test len w ?f)) = deliver (insn_test len w) ex i" for w
  proof -
    have "insn_test len w ?f \<longleftrightarrow> insn_test len w (ex ! i) \<or> insn_test len w (ex ! ?n)"
      using general_word [OF _ _ g(4), of "in_mask (ex ! i)" "w (unat (in_offset (ex ! i)))"] ok okn g
      by (simp add: long_test [OF r(3) f(4)] long_test [OF r(1)] long_test [OF r(2)] insn_ok_def f(3) vm)
    then show ?thesis
      using assms(4) f g(3) deliver_step [OF assms(1) n(2)] by (auto simp: deliver_step [OF assms(1,3)] in_jump_def target_def)
  qed
  ultimately show ?thesis by (intro equivalent_update [OF assms(1,2) _ assms(3)])
qed

text \<open>Two instructions on the same word whose values agree where both look.\<close>

lemma merged_word:
  fixes w m v m' v' :: u32
  assumes "v AND m = v" "v' AND m' = v'" "v AND (m AND m') = v' AND (m AND m')"
  shows "w AND (m OR m') = v OR v' \<longleftrightarrow> w AND m = v \<and> w AND m' = v'"
proof -
  have "bit (w AND (m OR m')) k = bit (v OR v') k \<longleftrightarrow> bit (w AND m) k = bit v k \<and> bit (w AND m') k = bit v' k" for k
    using arg_cong [OF assms(1), of "\<lambda>x. bit x k"] arg_cong [OF assms(2), of "\<lambda>x. bit x k"] arg_cong [OF assms(3), of "\<lambda>x. bit x k"]
    unfolding bit_and_iff bit_or_iff by argo
  then show ?thesis unfolding word_eq_bits by blast
qed

lemma mask_byte_or: "mask_byte (m OR m') k = 0 \<longleftrightarrow> mask_byte m k = 0 \<and> mask_byte m' k = 0"
  unfolding mask_byte_bit bit_or_iff by blast

lemma required_length_cong: "in_offset i = in_offset x \<Longrightarrow> in_mask i = in_mask x \<Longrightarrow> required_length i = required_length x"
  by (simp add: required_length_def)

lemma required_length_0: "in_mask i = 0 \<Longrightarrow> required_length i = 0"
  by (simp add: required_length_def)

lemma merged_required:
  assumes "in_mask i \<noteq> 0 \<Longrightarrow> in_mask y \<noteq> 0 \<Longrightarrow> in_offset y = in_offset i"
  shows "required_length (merged_insn i y) = max (required_length i) (required_length y)"
proof -
  have f: "in_mask (merged_insn i y) = in_mask i OR in_mask y"
    "in_offset (merged_insn i y) = (if in_mask i = 0 then in_offset y else in_offset i)"
    by (simp_all add: merged_insn_def)
  consider "in_mask i = 0" | "in_mask y = 0" "in_mask i \<noteq> 0" | "in_mask i \<noteq> 0" "in_mask y \<noteq> 0" by blast
  then show ?thesis
  proof cases
    case 1
    then show ?thesis using required_length_cong [of "merged_insn i y" y] f by (simp add: required_length_0)
  next
    case 2
    then show ?thesis using required_length_cong [of "merged_insn i y" i] f by (simp add: required_length_0)
  next
    case 3
    then have "in_mask i OR in_mask y \<noteq> 0" by (metis or_eq_0_iff)
    then show ?thesis using assms 3 by (simp add: required_length_def f mask_byte_or max_def)
  qed
qed

lemma merged_test:
  assumes "in_value i AND in_mask i = in_value i" "in_value y AND in_mask y = in_value y" "insn_compatible y i True"
    "required_length i \<le> len" "required_length y \<le> len"
  shows "insn_test len w (merged_insn i y) \<longleftrightarrow> insn_test len w i \<and> insn_test len w y"
    "required_length (merged_insn i y) \<le> len" "in_value (merged_insn i y) AND in_mask (merged_insn i y) = in_value (merged_insn i y)"
proof -
  have off: "in_offset y = in_offset i" if "in_mask i \<noteq> 0" "in_mask y \<noteq> 0"
    using assms(3) that by (auto simp: insn_compatible_def split: if_splits)
  then show len: "required_length (merged_insn i y) \<le> len" using merged_required assms(4,5) by simp
  have f: "in_value (merged_insn i y) = in_value i OR in_value y" "in_mask (merged_insn i y) = in_mask i OR in_mask y"
    "in_offset (merged_insn i y) = (if in_mask i = 0 then in_offset y else in_offset i)"
    using assms(1,2) by (simp_all add: merged_insn_def)
  show v: "in_value (merged_insn i y) AND in_mask (merged_insn i y) = in_value (merged_insn i y)"
    using assms(1,2) unfolding f word_eq_bits bit_and_iff bit_or_iff by blast
  consider "in_mask i = 0" | "in_mask y = 0" | "in_mask i \<noteq> 0" "in_mask y \<noteq> 0" by blast
  then show "insn_test len w (merged_insn i y) \<longleftrightarrow> insn_test len w i \<and> insn_test len w y"
  proof cases
    case 3
    then have "in_value i AND (in_mask i AND in_mask y) = in_value y AND (in_mask i AND in_mask y)"
      using assms(3) by (auto simp: insn_compatible_def Let_def and.commute split: if_splits)
    from merged_word [OF assms(1,2) this, of "w (unat (in_offset i))"] show ?thesis
      using 3 off by (simp add: long_test [OF len v] long_test [OF assms(4,1)] long_test [OF assms(5,2)] f)
  qed (use assms in \<open>auto simp: long_test [OF len v] long_test [OF assms(4,1)] long_test [OF assms(5,2)] f\<close>)
qed

lemma merge_equivalent:
  assumes "insns_ok ex" "long_enough len ex" "i < length ex" "in_yes (ex ! i) > 0"
    "in_no (ex ! i) = in_no (ex ! nat (in_yes (ex ! i)))" "insn_compatible (ex ! nat (in_yes (ex ! i))) (ex ! i) True"
  shows "equivalent len ex (ex[i := merged_insn (ex ! i) (ex ! nat (in_yes (ex ! i)))])"
proof -
  let ?y = "nat (in_yes (ex ! i))" and ?f = "merged_insn (ex ! i) (ex ! nat (in_yes (ex ! i)))"
  note ok = insns_okD [OF assms(1,3)]
  have y: "i < ?y" "?y < length ex" using ok assms(4) by (auto simp: insn_ok_def jump_ok_def)
  note oky = insns_okD [OF assms(1) y(2)]
  have r: "required_length (ex ! i) \<le> len" "required_length (ex ! ?y) \<le> len" using assms(2,3) y by (simp_all add: long_enough_def)
  have v: "in_value (ex ! i) AND in_mask (ex ! i) = in_value (ex ! i)" "in_value (ex ! ?y) AND in_mask (ex ! ?y) = in_value (ex ! ?y)"
    using ok oky by (simp_all add: insn_ok_def)
  note m = merged_test [OF v assms(6) r]
  have f: "in_yes ?f = in_yes (ex ! ?y)" "in_no ?f = in_no (ex ! i)" by (simp_all add: merged_insn_def)
  have "insn_ok (length ex) i ?f" using ok oky y f m(3) by (auto simp: insn_ok_def jump_ok_def)
  moreover have "target (insn_test len w) ex (in_jump ?f (insn_test len w ?f)) = deliver (insn_test len w) ex i" for w
    using assms(4,5) f m(1) [of w] deliver_step [OF assms(1) y(2)] by (auto simp: deliver_step [OF assms(1,3)] in_jump_def target_def)
  ultimately show ?thesis by (intro equivalent_update [OF assms(1,2) _ assms(3) m(2)])
qed

section \<open>The loop\<close>

text \<open>How far the jumps of an instruction are from the end of the program: what makes the loop end.\<close>

definition jump_rank :: "nat \<Rightarrow> int \<Rightarrow> nat" where "jump_rank n j = (if j \<le> 0 then 0 else n - nat j)"

definition insn_rank :: "insn list \<Rightarrow> nat \<Rightarrow> nat" where
  "insn_rank ex i = jump_rank (length ex) (in_no (ex ! i)) + jump_rank (length ex) (in_yes (ex ! i))"

lemma jump_rank_less: "0 < j \<Longrightarrow> j < int n \<Longrightarrow> jump_ok n (nat j) k \<Longrightarrow> jump_rank n k < jump_rank n j"
  by (auto simp: jump_rank_def jump_ok_def)

lemma combine_yes_ok:
  assumes "insns_ok ex" "long_enough len ex" "i < length ex"
  shows "\<exists>ex' again. combine_yes ex i = Inr (ex', again) \<and> equivalent len ex ex' \<and> (again \<longrightarrow> insn_rank ex' i < insn_rank ex i)"
proof (cases "in_yes (ex ! i) \<le> 0")
  case True
  then show ?thesis using equivalent_refl [OF assms(1,2)] by (auto simp: combine_yes_def)
next
  case False
  let ?y = "nat (in_yes (ex ! i))"
  have y: "0 < in_yes (ex ! i)" "i < ?y" "?y < length ex" "in_yes (ex ! i) < int (length ex)"
    using insns_okD [OF assms(1,3)] False by (auto simp: insn_ok_def jump_ok_def)
  obtain ex1 where ex1: "(if in_no (ex ! i) = in_yes (ex ! ?y) \<and> flippable (ex ! ?y) then flip_at ex ?y else Inr ex) = Inr ex1"
    "equivalent len ex ex1" "ex1 ! i = ex ! i"
    using flip_equivalent [OF assms(1,2) y(3)] equivalent_refl [OF assms(1,2)] y(2) by (metis nat_neq_iff nth_list_update_neq)
  then have ok1: "insns_ok ex1" "long_enough len ex1" "length ex1 = length ex" by (simp_all add: equivalent_def)
  let ?m = "in_no (ex ! i) = in_no (ex1 ! ?y) \<and> insn_compatible (ex1 ! ?y) (ex ! i) True"
  let ?f = "merged_insn (ex1 ! i) (ex1 ! ?y)"
  have eq: "equivalent len ex1 (ex1[i := ?f])" if ?m
    using merge_equivalent [OF ok1(1,2), of i] assms(3) y(1) that by (simp add: ok1 ex1(3))
  have "insn_rank (ex1[i := ?f]) i < insn_rank ex i"
    using jump_rank_less [OF y(1,4), of "in_yes (ex1 ! ?y)"] insns_okD [OF ok1(1), of ?y] y(3) assms(3)
    by (simp add: insn_rank_def ok1(3) ex1(3) merged_insn_def insn_ok_def)
  moreover have "combine_yes ex i = (if ?m then Inr (ex1[i := ?f], True) else Inr (ex1, False))"
    unfolding combine_yes_def Let_def ex1(1) using False y(4) by (simp add: ex1(3))
  ultimately show ?thesis using equivalent_trans [OF ex1(2) eq] ex1(2) by (cases ?m) auto
qed

lemma combine_step_ok:
  assumes "insns_ok ex" "long_enough len ex" "i < length ex"
  shows "\<exists>ex' again. combine_step ex i = Inr (ex', again) \<and> equivalent len ex ex' \<and> (again \<longrightarrow> insn_rank ex' i < insn_rank ex i)"
proof (cases "in_no (ex ! i) \<le> 0")
  case True
  then show ?thesis using combine_yes_ok [OF assms] by (simp add: combine_step_def)
next
  case False
  let ?n = "nat (in_no (ex ! i))"
  have n: "0 < in_no (ex ! i)" "?n < length ex" "in_no (ex ! i) < int (length ex)"
    using insns_okD [OF assms(1,3)] False by (auto simp: insn_ok_def jump_ok_def)
  consider "insn_compatible (ex ! ?n) (ex ! i) False" "flippable (ex ! i)"
    | "\<not> (insn_compatible (ex ! ?n) (ex ! i) False \<and> flippable (ex ! i))" "generalizable_or_pair (ex ! i) (ex ! ?n)"
    | "\<not> (insn_compatible (ex ! ?n) (ex ! i) False \<and> flippable (ex ! i))" "\<not> generalizable_or_pair (ex ! i) (ex ! ?n)" by blast
  then show ?thesis
  proof cases
    case 1
    obtain f where f: "flip_at ex i = Inr (ex[i := f])" "insn_flip (ex ! i) = Inr f" "equivalent len ex (ex[i := f])"
      using flip_equivalent [OF assms 1(2)] .
    have "insn_rank (ex[i := f]) i = insn_rank ex i"
      using f(2) 1(2) assms(3) by (auto simp: insn_rank_def insn_flip_def)
    moreover have ok1: "insns_ok (ex[i := f])" "long_enough len (ex[i := f])" using f(3) by (simp_all add: equivalent_def)
    ultimately show ?thesis
      using combine_yes_ok [OF ok1, of i] assms(3) n 1 f(1) equivalent_trans [OF f(3)] by (auto simp: combine_step_def Let_def)
  next
    case 2
    have "insn_rank (ex[i := general_insn (ex ! i) (ex ! ?n)]) i < insn_rank ex i"
      using jump_rank_less [OF n(1,3), of "in_no (ex ! ?n)"] insns_okD [OF assms(1) n(2)] assms(3)
      by (simp add: insn_rank_def general_insn_def Let_def insn_ok_def)
    then show ?thesis using 2 n general_equivalent [OF assms n(1) 2(2)] by (auto simp: combine_step_def Let_def)
  next
    case 3
    then show ?thesis using combine_yes_ok [OF assms] n by (auto simp: combine_step_def Let_def)
  qed
qed

lemma combine_loop_ok:
  assumes "insns_ok ex" "long_enough len ex" "n \<le> length ex"
  shows "\<exists>ex'. combine_loop ex n = Some (Inr ex') \<and> equivalent len ex ex'"
  using assms
proof (induction "(n, insn_rank ex (n - 1))" arbitrary: ex n rule: wf_induct_rule [OF wf_lex_prod [OF wf_less wf_less]])
  case (1 ex n)
  show ?case
  proof (cases n)
    case 0
    then show ?thesis using equivalent_refl [OF 1(2,3)] by (subst combine_loop.simps) simp
  next
    case (Suc i)
    then obtain ex' again where step: "combine_step ex i = Inr (ex', again)" "equivalent len ex ex'" "again \<Longrightarrow> insn_rank ex' i < insn_rank ex i"
      using combine_step_ok [OF 1(2,3), of i] 1(4) by auto
    then have ok: "insns_ok ex'" "long_enough len ex'" "length ex' = length ex" by (simp_all add: equivalent_def)
    have "\<exists>ex''. combine_loop ex' (if again then n else i) = Some (Inr ex'') \<and> equivalent len ex' ex''"
      using 1(1) [of "if again then n else i" ex'] step(3) ok 1(4) Suc by auto
    then show ?thesis
      using equivalent_trans [OF step(2)] step(1) Suc by (subst combine_loop.simps) auto
  qed
qed

text \<open>
  Combining instructions always ends, and for every packet that is long enough for all of them the program
  delivers as before.
\<close>

theorem combine_preserves:
  assumes "insns_ok ex" "\<And>i. i \<in> set ex \<Longrightarrow> required_length i \<le> len"
  shows "\<exists>ex'. combine_compatible_states ex = Some (Inr ex') \<and> length ex' = length ex \<and> insns_ok ex'
    \<and> (\<forall>i \<in> set ex'. required_length i \<le> len)
    \<and> (\<forall>w. \<forall>pos < length ex. deliver (insn_test len w) ex' pos = deliver (insn_test len w) ex pos)"
  using combine_loop_ok [of ex len "length ex"] assms
  by (auto simp: combine_compatible_states_def equivalent_def long_enough_def)

definition masked_insn :: "u16 \<Rightarrow> u32 \<Rightarrow> u32 \<Rightarrow> int \<Rightarrow> int \<Rightarrow> insn" where
  "masked_insn off m v n y = \<lparr>in_offset = off, in_short = False, in_mask = m, in_value = v, in_no = n, in_yes = y\<rparr>"

theorem combine_preserves_witness:
  "\<exists>ex'. combine_compatible_states [masked_insn 0 0x80 0x80 1 (- 1), masked_insn 0 0xFF00 0x4100 (- 1) 0] = Some (Inr ex')
    \<and> deliver (insn_test 2 (\<lambda>_. 0x4100)) ex' 0 = Some 0"
proof -
  let ?ex = "[masked_insn 0 0x80 0x80 1 (- 1), masked_insn 0 0xFF00 0x4100 (- 1) 0]"
  have "insns_ok ?ex" by code_simp
  moreover have "\<And>i. i \<in> set ?ex \<Longrightarrow> required_length i \<le> 2" by (auto simp: masked_insn_def required_length_def mask_byte_def)
  moreover have "deliver (insn_test 2 (\<lambda>_. 0x4100)) ?ex 0 = Some 0" by code_simp
  ultimately show ?thesis using combine_preserves [of ?ex 2] by fastforce
qed

text \<open>
  It is not so for short packets: of the two instructions for \<^verbatim>\<open>!0/80%80 1/41\<close> the first is flipped, which
  makes it the one that short packets match, and then swallows the second, which they do not match.  A packet of
  one zero byte, or an empty one, is delivered to output 0 instead of 1.
\<close>

theorem combine_misdelivers_short:
  "combine_compatible_states [masked_insn 0 0x80 0x80 1 (- 1), masked_insn 0 0xFF00 0x4100 (- 1) 0] =
      Some (Inr [(masked_insn 0 0xFF80 0x4100 (- 1) 0)\<lparr>in_short := True\<rparr>, masked_insn 0 0xFF00 0x4100 (- 1) 0])
    \<and> list_all (\<lambda>len.
        deliver (insn_test len (\<lambda>_. 0)) [masked_insn 0 0x80 0x80 1 (- 1), masked_insn 0 0xFF00 0x4100 (- 1) 0] 0 = Some 1
        \<and> deliver (insn_test len (\<lambda>_. 0)) [(masked_insn 0 0xFF80 0x4100 (- 1) 0)\<lparr>in_short := True\<rparr>, masked_insn 0 0xFF00 0x4100 (- 1) 0] 0 = Some 0)
      [0, 1]"
  by code_simp

section \<open>Removing instructions\<close>

text \<open>
  The first pass, from the end: jumps to an instruction that decides nothing skip it.  \<open>dest\<close> is
  the vector \<^verbatim>\<open>destination\<close>.
\<close>

definition redirect_jump :: "int list \<Rightarrow> int \<Rightarrow> int" where "redirect_jump dest j = (if j > 0 then dest ! nat j else j)"

definition redirect_insn :: "int list \<Rightarrow> insn \<Rightarrow> insn" where
  "redirect_insn dest i = i\<lparr>in_no := redirect_jump dest (in_no i), in_yes := redirect_jump dest (in_yes i)\<rparr>"

definition skip_at :: "nat \<Rightarrow> insn list \<times> int list \<Rightarrow> insn list \<times> int list" where
  "skip_at i s = (case s of (ex, dest) \<Rightarrow>
     let f = redirect_insn dest (ex ! i) in
     (ex[i := f],
      dest[i := if in_yes f \<noteq> in_no f \<and> in_mask f \<noteq> 0 then int i
        else if in_yes f \<le> 0 then in_yes f else dest ! nat (in_yes f)]))"

definition skip_unused :: "insn list \<Rightarrow> insn list \<times> int list" where
  "skip_unused ex = foldr skip_at [0..<length ex] (ex, replicate (length ex) (- 1))"

text \<open>The first instruction.\<close>

definition first_insn :: "insn list \<Rightarrow> int list \<Rightarrow> insn list \<times> int" where
  "first_insn ex dest =
     (if dest ! 0 > 0 then (ex[0 := ex ! nat (dest ! 0)], - 1)
      else if dest ! 0 < 0 then (ex, - (dest ! 0))
      else if in_yes (ex ! 0) = 0 \<and> (in_no (ex ! 0) = 0 \<or> in_mask (ex ! 0) = 0) then (ex, 0)
      else (ex, - 1))"

text \<open>The new positions of the instructions that can be reached, and their number.\<close>

definition mark_jump :: "int \<Rightarrow> int list \<Rightarrow> int list" where "mark_jump j dest = (if j > 0 then dest[nat j := 0] else dest)"

definition number_at :: "insn list \<Rightarrow> nat \<Rightarrow> int list \<times> nat \<Rightarrow> int list \<times> nat" where
  "number_at ex i s = (case s of (dest, n) \<Rightarrow>
     if dest ! i \<ge> 0 then (mark_jump (in_yes (ex ! i)) (mark_jump (in_no (ex ! i)) (dest[i := int n])), n + 1)
     else (dest, n))"

definition number_used :: "insn list \<Rightarrow> int \<Rightarrow> int list \<times> nat" where
  "number_used ex output_everything =
     fold (number_at ex) [0..<length ex]
       ((replicate (length ex) (- 1))[0 := if output_everything < 0 then 0 else - 1], 0)"

text \<open>Rearranging.\<close>

definition move_at :: "int list \<Rightarrow> nat \<Rightarrow> insn list \<Rightarrow> insn list" where
  "move_at dest i ex = (if dest ! i \<ge> 0 then ex[nat (dest ! i) := redirect_insn dest (ex ! i)] else ex)"

definition remove_unused_states :: "program \<Rightarrow> program res" where
  "remove_unused_states prog =
     (let ex = pr_insn prog in
      if ex = [] then Inr prog
      else guard (\<forall>i \<in> set ex. in_no i < int (length ex) \<and> in_yes i < int (length ex)) OutOfBounds
        (case skip_unused ex of (ex1, dest) \<Rightarrow>
         case first_insn ex1 dest of (ex2, output_everything) \<Rightarrow>
         case number_used ex2 output_everything of (dest2, n) \<Rightarrow>
           Inr (prog\<lparr>pr_insn := take n (fold (move_at dest2) [0..<length ex2] ex2), pr_output_everything := output_everything\<rparr>)))"

text \<open>
  What the removal relies on: the answer of an instruction does not depend on its jumps, and an empty mask
  matches.
\<close>

locale insn_answers =
  fixes t :: "insn \<Rightarrow> bool"
  assumes blind: "t (i\<lparr>in_no := n, in_yes := y\<rparr>) = t i"
    and empty_mask: "in_mask i = 0 \<Longrightarrow> t i"

definition interesting :: "insn \<Rightarrow> bool" where "interesting i \<longleftrightarrow> in_yes i \<noteq> in_no i \<and> in_mask i \<noteq> 0"

definition fixed_dest :: "int list \<Rightarrow> int \<Rightarrow> bool" where "fixed_dest dest j \<longleftrightarrow> j \<le> 0 \<or> j < int (length dest) \<and> dest ! nat j = j"

definition skip_inv :: "(insn \<Rightarrow> bool) \<Rightarrow> insn list \<Rightarrow> nat \<Rightarrow> insn list \<times> int list \<Rightarrow> bool" where
  "skip_inv t ex i s \<longleftrightarrow> (case s of (ex', dest) \<Rightarrow> length ex' = length ex \<and> length dest = length ex \<and> insns_ok ex'
     \<and> (\<forall>k < length ex. deliver t ex' k = deliver t ex k)
     \<and> (\<forall>k. i \<le> k \<and> k < length ex \<longrightarrow> fixed_dest dest (in_no (ex' ! k)) \<and> fixed_dest dest (in_yes (ex' ! k))
         \<and> dest ! k = (if interesting (ex' ! k) then int k else in_yes (ex' ! k))))"

context insn_answers
begin

lemma uninteresting: "insns_ok ex \<Longrightarrow> k < length ex \<Longrightarrow> \<not> interesting (ex ! k) \<Longrightarrow> deliver t ex k = target t ex (in_yes (ex ! k))"
  using empty_mask [of "ex ! k"] by (auto simp: deliver_step interesting_def in_jump_def)

lemma skip_at_inv:
  assumes "skip_inv t ex (Suc i) (ex1, dest)" "i < length ex"
  shows "skip_inv t ex i (skip_at i (ex1, dest))"
proof -
  note inv = assms(1) [unfolded skip_inv_def prod.case]
  define f where "f = redirect_insn dest (ex1 ! i)"
  define d where "d = (if in_yes f \<noteq> in_no f \<and> in_mask f \<noteq> 0 then int i else if in_yes f \<le> 0 then in_yes f else dest ! nat (in_yes f))"
  let ?n = "length ex"
  have ok1: "insns_ok ex1" "length ex1 = ?n" "length dest = ?n" and i1: "i < length ex1" using inv assms(2) by simp_all
  have at: "fixed_dest dest (in_no (ex1 ! k)) \<and> fixed_dest dest (in_yes (ex1 ! k)) \<and> dest ! k = (if interesting (ex1 ! k) then int k else in_yes (ex1 ! k))"
    if "Suc i \<le> k" "k < ?n" for k using inv that by blast
  have red: "jump_ok ?n i (redirect_jump dest j) \<and> fixed_dest dest (redirect_jump dest j) \<and> target t ex1 (redirect_jump dest j) = target t ex1 j"
    if j: "jump_ok ?n i j" for j
  proof (cases "j \<le> 0")
    case False
    then have k: "Suc i \<le> nat j" "nat j < ?n" using j by (auto simp: jump_ok_def)
    have r: "redirect_jump dest j = dest ! nat j" "target t ex1 j = deliver t ex1 (nat j)" using False by (simp_all add: redirect_jump_def target_def)
    show ?thesis
    proof (cases "interesting (ex1 ! nat j)")
      case True
      then have "dest ! nat j = j" using at [OF k] False by simp
      then show ?thesis using j r ok1(3) k by (auto simp: fixed_dest_def jump_ok_def)
    next
      case f: False
      then show ?thesis
        using at [OF k] j r False uninteresting [OF ok1(1), of "nat j"] insns_okD [OF ok1(1), of "nat j"] k ok1(2)
        by (auto simp: jump_ok_def insn_ok_def)
    qed
  qed (simp add: redirect_jump_def fixed_dest_def jump_ok_def)
  have jumps: "jump_ok ?n i (in_no (ex1 ! i))" "jump_ok ?n i (in_yes (ex1 ! i))" "in_value (ex1 ! i) AND in_mask (ex1 ! i) = in_value (ex1 ! i)"
    using insns_okD [OF ok1(1) i1] ok1(2) by (simp_all add: insn_ok_def)
  have f: "in_no f = redirect_jump dest (in_no (ex1 ! i))" "in_yes f = redirect_jump dest (in_yes (ex1 ! i))" "t f = t (ex1 ! i)"
    "insn_ok (length ex1) i f"
    using blind red [OF jumps(1)] red [OF jumps(2)] jumps(3) ok1(2) by (simp_all add: f_def redirect_insn_def insn_ok_def)
  have same: "target t ex1 (in_jump f (t f)) = deliver t ex1 i"
    using red [OF jumps(1)] red [OF jumps(2)] by (simp add: deliver_step [OF ok1(1) i1] in_jump_def f)
  have fixed: "fixed_dest (dest[i := d]) j" if "fixed_dest dest j" "jump_ok ?n k j" "i \<le> k" for j k
    using that by (auto simp: fixed_dest_def jump_ok_def)
  have d: "d = (if interesting f then int i else in_yes f)"
    using red [OF jumps(2)] by (auto simp: interesting_def d_def f(2) fixed_dest_def)
  have "fixed_dest (dest[i := d]) (in_no (ex1[i := f] ! k)) \<and> fixed_dest (dest[i := d]) (in_yes (ex1[i := f] ! k))
      \<and> dest[i := d] ! k = (if interesting (ex1[i := f] ! k) then int k else in_yes (ex1[i := f] ! k))" if k: "i \<le> k" "k < ?n" for k
  proof (cases "k = i")
    case True
    then show ?thesis
      using red [OF jumps(1)] red [OF jumps(2)] fixed [of _ i] i1 ok1 assms(2) by (simp add: f(1,2) d)
  next
    case False
    then show ?thesis
      using at [of k] fixed [of _ k] k insns_okD [OF ok1(1), of k] ok1(2) by (simp add: insn_ok_def)
  qed
  moreover have "deliver t (ex1[i := f]) k = deliver t ex k" if "k < ?n" for k
    using deliver_update [OF ok1(1) f(4) i1 same, of k] inv that by simp
  moreover have "insns_ok (ex1[i := f])" by (rule insns_ok_update [OF ok1(1) f(4)])
  moreover have sk: "skip_at i (ex1, dest) = (ex1[i := f], dest[i := d])" by (simp add: skip_at_def Let_def f_def d_def)
  ultimately show ?thesis using ok1 unfolding sk skip_inv_def prod.case length_list_update by blast
qed

lemma skip_unused_inv:
  assumes "insns_ok ex"
  shows "skip_inv t ex 0 (skip_unused ex)"
proof -
  let ?s = "(ex, replicate (length ex) (- 1 :: int))"
  have "skip_inv t ex i (foldr skip_at [i..<length ex] ?s)" if "i \<le> length ex" for i
    using that
  proof (induction rule: inc_induct)
    case base
    then show ?case using assms by (auto simp: skip_inv_def)
  next
    case (step i)
    then show ?case
      using skip_at_inv [of ex i] by (cases "foldr skip_at [Suc i..<length ex] ?s") (simp add: upt_conv_Cons)
  qed
  then show ?thesis by (simp add: skip_unused_def)
qed

lemma first_insn_ok:
  assumes "skip_inv t ex 0 (ex1, dest)" "0 < length ex" "first_insn ex1 dest = (ex2, oe)"
  shows "length ex2 = length ex \<and> insns_ok ex2 \<and> - 1 \<le> oe \<and> (0 \<le> oe \<longrightarrow> deliver t ex 0 = Some oe)
    \<and> (oe < 0 \<longrightarrow> deliver t ex2 0 = deliver t ex 0 \<and> interesting (ex2 ! 0))
    \<and> (\<forall>k < length ex. \<forall>b. 0 < in_jump (ex2 ! k) b \<longrightarrow> interesting (ex2 ! nat (in_jump (ex2 ! k) b)))"
proof -
  note inv = assms(1) [unfolded skip_inv_def prod.case]
  let ?n = "length ex"
  have ok1: "insns_ok ex1" "length ex1 = ?n" "length dest = ?n" and n1: "0 < length ex1" using inv assms(2) by simp_all
  have at: "fixed_dest dest (in_jump (ex1 ! k) b) \<and> dest ! k = (if interesting (ex1 ! k) then int k else in_yes (ex1 ! k))"
    if "k < ?n" for k b using inv that by (simp add: in_jump_def)
  have goes: "interesting (ex1 ! nat j)" "nat j < ?n" if "fixed_dest dest j" "0 < j" for j
  proof -
    show l: "nat j < ?n" using that ok1(3) by (auto simp: fixed_dest_def)
    show "interesting (ex1 ! nat j)"
      using that at [OF l] insns_okD [OF ok1(1), of "nat j"] l ok1(2) by (auto simp: fixed_dest_def insn_ok_def jump_ok_def split: if_splits)
  qed
  have del: "deliver t ex1 0 = deliver t ex 0" using inv assms(2) by simp
  have jumps: "interesting (ex1 ! nat (in_jump (ex1 ! k) b))" if "k < ?n" "0 < in_jump (ex1 ! k) b" for k b
    using goes(1) [OF conjunct1 [OF at [OF that(1)]] that(2)] .
  have zero: "dest ! 0 = (if interesting (ex1 ! 0) then 0 else in_yes (ex1 ! 0))" using at [OF assms(2)] by simp
  have un: "deliver t ex1 0 = target t ex1 (in_yes (ex1 ! 0))" if "\<not> interesting (ex1 ! 0)" using uninteresting [OF ok1(1) n1 that] .
  consider "0 < dest ! 0" | "dest ! 0 < 0" | "dest ! 0 = 0" "\<not> interesting (ex1 ! 0)" | "dest ! 0 = 0" "interesting (ex1 ! 0)" by linarith
  then show ?thesis
  proof cases
    case 1
    let ?f = "ex1 ! nat (dest ! 0)"
    have y: "\<not> interesting (ex1 ! 0)" "dest ! 0 = in_yes (ex1 ! 0)" using 1 zero by (auto split: if_splits)
    have g: "interesting ?f" "nat (dest ! 0) < ?n" using goes [of "dest ! 0"] at [OF assms(2), of True] 1 y(2) by (simp_all add: in_jump_def)
    have f: "insn_ok (length ex1) 0 ?f" using insns_okD [OF ok1(1), of "nat (dest ! 0)"] g(2) ok1(2) by (auto simp: insn_ok_def jump_ok_def)
    have same: "target t ex1 (in_jump ?f (t ?f)) = deliver t ex1 0"
      using deliver_step [OF ok1(1), of "nat (dest ! 0)" t] g(2) ok1(2) un [OF y(1)] 1 y(2) by (simp add: target_def)
    have e: "ex2 = ex1[0 := ?f]" "oe = - 1" using assms(3) 1 by (simp_all add: first_insn_def)
    have nth: "ex2 ! k = (if k = 0 then ?f else ex1 ! k)" for k using e n1 by simp
    have "interesting (ex2 ! nat (in_jump (ex2 ! k) b))" if "k < ?n" "0 < in_jump (ex2 ! k) b" for k b
      using jumps [of "if k = 0 then nat (dest ! 0) else k" b] that g(2) unfolding nth by (auto split: if_splits)
    then show ?thesis
      using deliver_update [OF ok1(1) f n1 same n1] insns_ok_update [OF ok1(1) f] e del g(1) ok1(2) nth [of 0] by simp
  next
    case 2
    then show ?thesis using assms(3) un del zero ok1 jumps by (auto simp: first_insn_def target_def split: if_splits)
  next
    case 3
    then have "in_yes (ex1 ! 0) = 0" using zero by simp
    then show ?thesis using 3 assms(3) un del ok1 jumps by (auto simp: first_insn_def target_def interesting_def split: if_splits)
  next
    case 4
    then show ?thesis using assms(3) del ok1 jumps by (auto simp: first_insn_def interesting_def split: if_splits)
  qed
qed

end

text \<open>The positions with a number, and what the numbering keeps.\<close>

definition used_below :: "int list \<Rightarrow> nat \<Rightarrow> nat list" where "used_below dest i = filter (\<lambda>k. 0 \<le> dest ! k) [0..<i]"

definition number_inv :: "insn list \<Rightarrow> nat \<Rightarrow> int list \<times> nat \<Rightarrow> bool" where
  "number_inv ex i s \<longleftrightarrow> (case s of (dest, n) \<Rightarrow> length dest = length ex \<and> n = length (used_below dest i)
     \<and> (\<forall>m < n. dest ! (used_below dest i ! m) = int m)
     \<and> (\<forall>k < i. 0 \<le> dest ! k \<longrightarrow> (\<forall>b. 0 < in_jump (ex ! k) b \<longrightarrow> 0 \<le> dest ! nat (in_jump (ex ! k) b)))
     \<and> (\<forall>k < length ex. 0 \<le> dest ! k \<longrightarrow> k = 0 \<or> (\<exists>k' < length ex. \<exists>b. in_jump (ex ! k') b = int k)))"

lemma used_below_Suc: "used_below dest (Suc i) = used_below dest i @ (if 0 \<le> dest ! i then [i] else [])"
  by (simp add: used_below_def)

lemma used_below_cong: "(\<And>k. k < i \<Longrightarrow> dest ! k = dest' ! k) \<Longrightarrow> used_below dest i = used_below dest' i"
  by (auto simp: used_below_def intro: filter_cong)

lemma used_below_nth: "m < length (used_below dest i) \<Longrightarrow> used_below dest i ! m < i \<and> 0 \<le> dest ! (used_below dest i ! m)"
  using nth_mem [of m "used_below dest i"] by (simp add: used_below_def)

lemma used_below_length: "length (used_below dest i) \<le> i"
  using length_filter_le [of "\<lambda>k. 0 \<le> dest ! k" "[0..<i]"] by (simp add: used_below_def)

lemma update_nonneg: "k < length dest \<Longrightarrow> 0 \<le> dest ! k \<Longrightarrow> 0 \<le> v \<Longrightarrow> 0 \<le> dest[i := v] ! k" for v :: int
  by (cases "k = i") simp_all

lemma mark_jump_nth:
  "length (mark_jump j dest) = length dest"
  "k < length dest \<Longrightarrow> 0 \<le> dest ! k \<Longrightarrow> 0 \<le> mark_jump j dest ! k"
  "0 < j \<Longrightarrow> nat j < length dest \<Longrightarrow> 0 \<le> mark_jump j dest ! nat j"
  "j \<le> 0 \<or> int k < j \<Longrightarrow> mark_jump j dest ! k = dest ! k"
  by (auto simp: mark_jump_def update_nonneg)

lemma mark_jump_marks: "0 \<le> mark_jump j dest ! k \<Longrightarrow> 0 \<le> dest ! k \<or> j = int k"
  by (cases "nat j = k") (auto simp: mark_jump_def split: if_splits)

lemma number_at_inv:
  assumes "number_inv ex i (dest, n)" "insns_ok ex" "i < length ex"
  shows "number_inv ex (Suc i) (number_at ex i (dest, n))" "0 \<le> dest ! 0 \<Longrightarrow> 0 \<le> fst (number_at ex i (dest, n)) ! 0"
proof -
  note inv = assms(1) [unfolded number_inv_def prod.case]
  define d1 where "d1 = dest[i := int n]"
  define d2 where "d2 = mark_jump (in_yes (ex ! i)) (mark_jump (in_no (ex ! i)) d1)"
  have l: "length d1 = length ex" "length d2 = length ex" using inv by (simp_all add: d1_def d2_def mark_jump_nth)
  have j: "jump_ok (length ex) i (in_no (ex ! i))" "jump_ok (length ex) i (in_yes (ex ! i))"
    using insns_okD [OF assms(2,3)] by (simp_all add: insn_ok_def)
  have same: "d2 ! k = d1 ! k" if "k \<le> i" for k
    using that j by (auto simp: d2_def mark_jump_nth jump_ok_def)
  have mono: "0 \<le> d2 ! k" if "0 \<le> dest ! k" "k < length ex" for k
    using that l inv unfolding d2_def by (intro mark_jump_nth) (auto simp: mark_jump_nth d1_def update_nonneg)
  have marked: "0 \<le> d2 ! nat (in_jump (ex ! i) b)" if "0 < in_jump (ex ! i) b" for b
    using that j l unfolding d2_def
    by (cases b) (auto simp: in_jump_def jump_ok_def mark_jump_nth)
  show "0 \<le> dest ! 0 \<Longrightarrow> 0 \<le> fst (number_at ex i (dest, n)) ! 0"
    using mono [of 0] assms(3) by (cases "ex = []") (auto simp: number_at_def d2_def d1_def)
  show "number_inv ex (Suc i) (number_at ex i (dest, n))"
  proof (cases "0 \<le> dest ! i")
    case False
    then show ?thesis using inv by (auto simp: number_at_def number_inv_def used_below_Suc less_Suc_eq)
  next
    case True
    have u: "used_below d2 (Suc i) = used_below dest i @ [i]"
      using same used_below_cong [of i d2 dest] inv assms(3) by (auto simp: used_below_Suc d1_def)
    have v: "d2 ! (used_below dest i ! m) = int m" if "m < n" for m
      using that inv used_below_nth [of m dest i] same [of "used_below dest i ! m"] by (auto simp: d1_def)
    have "d2 ! i = int n" using same [of i] inv assms(3) by (simp add: d1_def)
    moreover have "number_at ex i (dest, n) = (d2, n + 1)" using True by (simp add: number_at_def d1_def d2_def)
    moreover have "0 \<le> d2 ! nat (in_jump (ex ! k) b)" if "k < Suc i" "0 \<le> d2 ! k" "0 < in_jump (ex ! k) b" for k b
    proof (cases "k = i")
      case False
      then have "0 \<le> dest ! nat (in_jump (ex ! k) b)" using that same [of k] inv by (simp add: d1_def)
      moreover have "nat (in_jump (ex ! k) b) < length ex"
        using insn_ok_jump [OF insns_okD [OF assms(2), of k], of b] that assms(3) by (auto simp: jump_ok_def)
      ultimately show ?thesis by (rule mono)
    qed (use that marked in simp)
    moreover have "k = 0 \<or> (\<exists>k' < length ex. \<exists>b. in_jump (ex ! k') b = int k)" if k: "k < length ex" "0 \<le> d2 ! k" for k
    proof -
      consider "in_yes (ex ! i) = int k" | "in_no (ex ! i) = int k" | "0 \<le> d1 ! k"
        using k(2) mark_jump_marks unfolding d2_def by blast
      then show ?thesis
      proof cases
        case 3
        then have "0 \<le> dest ! k" using True by (cases "k = i") (simp_all add: d1_def)
        then show ?thesis using inv k(1) by blast
      qed (use assms(3) in \<open>auto simp: in_jump_def\<close>)
    qed
    ultimately show ?thesis using l inv v u by (auto simp: number_inv_def nth_append less_Suc_eq)
  qed
qed

lemma number_used_inv:
  assumes "insns_ok ex" "ex \<noteq> []"
  shows "number_inv ex (length ex) (number_used ex oe)" "oe < 0 \<Longrightarrow> 0 \<le> fst (number_used ex oe) ! 0"
    "0 \<le> oe \<Longrightarrow> snd (number_used ex oe) = 0"
proof -
  let ?s = "((replicate (length ex) (- 1))[0 := if oe < 0 then 0 else - 1], 0 :: nat)"
  have *: "number_inv ex i (fold (number_at ex) [0..<i] ?s) \<and> (oe < 0 \<longrightarrow> 0 \<le> fst (fold (number_at ex) [0..<i] ?s) ! 0)" if "i \<le> length ex" for i
    using that
  proof (induction i)
    case 0
    have "(replicate (length ex) (- 1 :: int))[0 := if oe < 0 then 0 else - 1] ! k < 0" if "k < length ex" "k \<noteq> 0" for k
      using that by simp
    then show ?case using assms(2) by (fastforce simp: number_inv_def used_below_def)
  next
    case (Suc i)
    then show ?case using number_at_inv [OF _ assms(1), of i] by (cases "fold (number_at ex) [0..<i] ?s") auto
  qed
  then show "number_inv ex (length ex) (number_used ex oe)" "oe < 0 \<Longrightarrow> 0 \<le> fst (number_used ex oe) ! 0"
    using * [of "length ex"] by (simp_all only: number_used_def)
  assume oe: "0 \<le> oe"
  have "fold (number_at ex) [0..<i] ?s = ?s" if "i \<le> length ex" for i
    using that oe assms(2) by (induction i) (auto simp: number_at_def nth_list_update)
  then show "snd (number_used ex oe) = 0" by (simp add: number_used_def)
qed

lemma moved:
  assumes "number_inv ex (length ex) (dest, n)"
  shows "take n (fold (move_at dest) [0..<length ex] ex) = map (\<lambda>k. redirect_insn dest (ex ! k)) (used_below dest (length ex))"
proof -
  note inv = assms [unfolded number_inv_def prod.case]
  have "length (fold (move_at dest) [0..<i] ex) = length ex
      \<and> (\<forall>m < length (used_below dest i). fold (move_at dest) [0..<i] ex ! m = redirect_insn dest (ex ! (used_below dest i ! m)))
      \<and> (\<forall>k. length (used_below dest i) \<le> k \<and> k < length ex \<longrightarrow> fold (move_at dest) [0..<i] ex ! k = ex ! k)" if "i \<le> length ex" for i
    using that
  proof (induction i)
    case (Suc i)
    define c where "c = fold (move_at dest) [0..<i] ex"
    let ?u = "used_below dest i"
    have IH: "length c = length ex" "\<And>m. m < length ?u \<Longrightarrow> c ! m = redirect_insn dest (ex ! (?u ! m))"
      "\<And>k. length ?u \<le> k \<Longrightarrow> k < length ex \<Longrightarrow> c ! k = ex ! k"
      using Suc by (simp_all add: c_def)
    have step: "fold (move_at dest) [0..<Suc i] ex = move_at dest i c" by (simp add: c_def)
    show ?case
    proof (cases "0 \<le> dest ! i")
      case True
      let ?w = "used_below dest (length ex)"
      have "[0..<length ex] = [0..<Suc i] @ [Suc i..<length ex]"
        using upt_add_eq_append [of 0 "Suc i" "length ex - Suc i"] Suc.prems by (simp only: le_add_diff_inverse le0)
      then have "?w = used_below dest (Suc i) @ filter (\<lambda>k. 0 \<le> dest ! k) [Suc i..<length ex]"
        by (simp only: used_below_def filter_append)
      then have w: "?w ! length ?u = i" "length ?u < length ?w" using True by (simp_all add: used_below_Suc nth_append)
      have d: "dest ! i = int (length ?u)" using inv w by auto
      have "c ! i = ex ! i" using IH(3) [of i] used_below_length [of dest i] Suc.prems by simp
      then have "move_at dest i c = c[length ?u := redirect_insn dest (ex ! i)]" using True d by (simp add: move_at_def)
      then show ?thesis unfolding step
        using True d IH w(2) used_below_length [of dest "length ex"] by (auto simp: used_below_Suc nth_append nth_list_update less_Suc_eq)
    next
      case False
      then have "move_at dest i c = c" by (simp add: move_at_def)
      then show ?thesis unfolding step using False IH by (simp add: used_below_Suc)
    qed
  qed (simp add: used_below_def)
  from this [of "length ex"] show ?thesis
    using inv used_below_length [of dest "length ex"] by (intro nth_equalityI) simp_all
qed

lemma used_below_index:
  assumes "0 \<le> dest ! k" "k < N"
  obtains m where "m < length (used_below dest N)" "used_below dest N ! m = k"
proof -
  have "k \<in> set (used_below dest N)" using assms by (simp add: used_below_def)
  then show ?thesis using that by (auto simp: in_set_conv_nth)
qed

lemma used_below_less:
  assumes "used_below dest N ! m < used_below dest N ! m'" "m < length (used_below dest N)" "m' < length (used_below dest N)"
  shows "m < m'"
proof (rule ccontr)
  assume "\<not> m < m'"
  moreover have "sorted (used_below dest N)" by (simp add: used_below_def sorted_wrt_filter)
  ultimately have "used_below dest N ! m' \<le> used_below dest N ! m" using assms(2) by (intro sorted_nth_mono) simp_all
  then show False using assms(1) by simp
qed

definition program_output :: "(insn \<Rightarrow> bool) \<Rightarrow> program \<Rightarrow> int option" where
  "program_output t prog = (if 0 \<le> pr_output_everything prog then Some (pr_output_everything prog) else deliver t (pr_insn prog) 0)"

lemma renumbered_ok:
  assumes "number_inv ex (length ex) (dest, n)" "insns_ok ex"
  defines "us \<equiv> used_below dest (length ex)"
  defines "fin \<equiv> map (\<lambda>k. redirect_insn dest (ex ! k)) us"
  shows "insns_ok fin"
    and "\<And>m b. m < n \<Longrightarrow> (let j = in_jump (ex ! (us ! m)) b; j' = in_jump (fin ! m) b in
      if j \<le> 0 then j' = j else m < nat j' \<and> nat j' < n \<and> us ! nat j' = nat j \<and> 0 < j')"
proof -
  note inv = assms(1) [unfolded number_inv_def prod.case, folded us_def]
  have n: "n = length us" "length fin = n" using inv by (simp_all add: fin_def)
  show jump: "let j = in_jump (ex ! (us ! m)) b; j' = in_jump (fin ! m) b in
      if j \<le> 0 then j' = j else m < nat j' \<and> nat j' < n \<and> us ! nat j' = nat j \<and> 0 < j'" if m: "m < n" for m b
  proof -
    let ?k = "us ! m" and ?j = "in_jump (ex ! (us ! m)) b"
    have k: "?k < length ex" "0 \<le> dest ! ?k" using used_below_nth [of m dest "length ex"] m n by (simp_all add: us_def)
    have f: "in_jump (fin ! m) b = redirect_jump dest ?j" using m n by (simp add: fin_def in_jump_def redirect_insn_def)
    show ?thesis
    proof (cases "?j \<le> 0")
      case False
      have j: "?k < nat ?j" "nat ?j < length ex"
        using insn_ok_jump [OF insns_okD [OF assms(2) k(1)], of b] False by (auto simp: jump_ok_def)
      have "0 \<le> dest ! nat ?j" using inv k False by simp
      then obtain m' where m': "m' < n" "us ! m' = nat ?j"
        using used_below_index [of dest "nat ?j" "length ex"] j(2) n(1) us_def by metis
      then have "m < m'" using used_below_less [of dest "length ex" m m'] j(1) m n(1) us_def by simp
      moreover have "dest ! nat ?j = int m'" using inv m' by metis
      ultimately show ?thesis using False f m' by (simp add: redirect_jump_def Let_def)
    qed (simp add: f redirect_jump_def)
  qed
  show "insns_ok fin" unfolding insns_ok_def n(2)
  proof (intro allI impI)
    fix m assume m: "m < n"
    have "jump_ok n m (in_jump (fin ! m) b)" for b using jump [OF m, of b] by (auto simp: Let_def jump_ok_def split: if_splits)
    from this [of False] this [of True] have "jump_ok n m (in_no (fin ! m))" "jump_ok n m (in_yes (fin ! m))" by (simp_all add: in_jump_def)
    moreover have "in_value (fin ! m) AND in_mask (fin ! m) = in_value (fin ! m)"
      using insns_okD [OF assms(2), of "us ! m"] used_below_nth [of m dest "length ex"] m n
      by (simp add: fin_def redirect_insn_def insn_ok_def us_def)
    ultimately show "insn_ok n m (fin ! m)" by (simp add: insn_ok_def)
  qed
qed

context insn_answers
begin

lemma renumbered_deliver:
  assumes "number_inv ex (length ex) (dest, n)" "insns_ok ex"
  defines "us \<equiv> used_below dest (length ex)"
  defines "fin \<equiv> map (\<lambda>k. redirect_insn dest (ex ! k)) us"
  shows "m < n \<Longrightarrow> deliver t fin m = deliver t ex (us ! m)"
proof (induction m rule: program_induct)
  case (step m)
  note ren = renumbered_ok [OF assms(1,2), folded us_def, folded fin_def]
  have n: "n = length us" "length fin = n" using assms(1) by (simp_all add: fin_def number_inv_def us_def)
  have k: "us ! m < length ex" using used_below_nth [of m dest "length ex"] step(1) n by (simp add: us_def)
  have "t (fin ! m) = t (ex ! (us ! m))" using blind step(1) n by (simp add: fin_def redirect_insn_def)
  then show ?case
    using ren(2) [OF step(1), of "t (ex ! (us ! m))"] step(2) step(1) n(2)
    by (auto simp: deliver_step [OF ren(1)] deliver_step [OF assms(2) k] target_def Let_def split: if_splits)
qed

end

interpretation test: insn_answers "insn_test len w" for len w
  by unfold_locales (simp_all add: insn_test_def required_length_def)

text \<open>The words and masks that are tested stay.\<close>

definition insn_shape :: "insn \<Rightarrow> u16 \<times> u32" where "insn_shape i = (in_offset i, in_mask i)"

lemma shape_redirect [simp]: "insn_shape (redirect_insn dest i) = insn_shape i"
  by (simp add: insn_shape_def redirect_insn_def)

lemma shape_required: "insn_shape i = insn_shape i' \<Longrightarrow> required_length i = required_length i'"
  by (rule required_length_cong) (simp_all add: insn_shape_def)

lemma skip_unused_shape: "map insn_shape (fst (skip_unused ex)) = map insn_shape ex"
proof -
  have one: "map insn_shape (fst (skip_at i s)) = map insn_shape (fst s) \<and> length (fst (skip_at i s)) = length (fst s)" if "i < length (fst s)" for i s
    using that by (cases s) (simp add: skip_at_def Let_def map_update list_update_same_conv)
  have "map insn_shape (fst (foldr skip_at is s)) = map insn_shape (fst s) \<and> length (fst (foldr skip_at is s)) = length (fst s)"
    if "\<forall>i \<in> set is. i < length (fst s)" for "is" s
    using that by (induction "is") (simp_all add: one)
  then show ?thesis by (simp add: skip_unused_def)
qed

lemma first_insn_shape:
  assumes "first_insn ex dest = (ex2, oe)" "ex \<noteq> []" "0 < dest ! 0 \<Longrightarrow> nat (dest ! 0) < length ex"
  shows "insn_shape ` set ex2 \<subseteq> insn_shape ` set ex"
  using assms set_update_subset_insert [of ex 0 "ex ! nat (dest ! 0)"] nth_mem [of "nat (dest ! 0)" ex]
  by (fastforce simp: first_insn_def split: if_splits)

lemma remove_unused_ok:
  assumes "insns_ok (pr_insn prog)" "pr_insn prog \<noteq> []"
  shows "\<exists>prog'. remove_unused_states prog = Inr prog' \<and> insns_ok (pr_insn prog')
    \<and> (\<forall>i \<in> set (pr_insn prog'). in_mask i \<noteq> 0 \<and> (\<exists>i' \<in> set (pr_insn prog). required_length i = required_length i'))
    \<and> (pr_output_everything prog' < 0 \<longrightarrow> pr_insn prog' \<noteq> [])
    \<and> pr_align_offset prog' = pr_align_offset prog
    \<and> (\<forall>len w. program_output (insn_test len w) prog' = deliver (insn_test len w) (pr_insn prog) 0)"
proof -
  let ?ex = "pr_insn prog"
  obtain ex1 dest where sk: "skip_unused ?ex = (ex1, dest)" by (cases "skip_unused ?ex")
  obtain ex2 oe where fi: "first_insn ex1 dest = (ex2, oe)" by (cases "first_insn ex1 dest")
  obtain dest2 n where nu: "number_used ex2 oe = (dest2, n)" by (cases "number_used ex2 oe")
  have inv: "skip_inv (insn_test len w) ?ex 0 (ex1, dest)" for len w using test.skip_unused_inv [OF assms(1), of len w] sk by simp
  have ne: "0 < length ?ex" using assms(2) by simp
  note first = test.first_insn_ok [OF inv ne fi]
  have ok2: "insns_ok ex2" "length ex2 = length ?ex" "ex2 \<noteq> []" using first assms(2) by auto
  have num: "number_inv ex2 (length ex2) (dest2, n)" and zero: "oe < 0 \<Longrightarrow> 0 \<le> dest2 ! 0" and none: "0 \<le> oe \<Longrightarrow> n = 0"
    using number_used_inv [OF ok2(1,3), of oe] nu by simp_all
  define us where "us = used_below dest2 (length ex2)"
  define fin where "fin = map (\<lambda>k. redirect_insn dest2 (ex2 ! k)) us"
  have n: "length fin = n" "length us = n" using num by (simp_all add: fin_def us_def number_inv_def)
  have us: "us ! m < length ex2" "0 \<le> dest2 ! (us ! m)" if "m < n" for m
    using used_below_nth [of m dest2 "length ex2"] that n(2) by (simp_all add: us_def)
  have "\<forall>i \<in> set ?ex. in_no i < int (length ?ex) \<and> in_yes i < int (length ?ex)"
    using assms(1) by (force simp: insns_ok_def insn_ok_def jump_ok_def in_set_conv_nth)
  then have res: "remove_unused_states prog = Inr (prog\<lparr>pr_insn := fin, pr_output_everything := oe\<rparr>)"
    using assms(2) moved [OF num] by (simp add: remove_unused_states_def sk fi nu fin_def us_def)
  have ok: "insns_ok fin" using renumbered_ok(1) [OF num ok2(1)] by (simp add: fin_def us_def)
  have first_used: "us ! 0 = 0 \<and> 0 < n" if oe: "oe < 0"
  proof -
    obtain m where m: "m < length us" "us ! m = 0"
      using used_below_index [of dest2 0 "length ex2"] zero [OF oe] ok2(3) unfolding us_def by auto
    moreover have "\<not> us ! 0 < us ! m \<or> m = 0 \<or> us ! 0 = 0" using m by simp
    moreover have "sorted us" by (simp add: us_def used_below_def sorted_wrt_filter)
    then have "us ! 0 \<le> us ! m" using m(1) by (intro sorted_nth_mono) simp_all
    ultimately show ?thesis using n(2) by simp
  qed
  have out: "program_output (insn_test len w) (prog\<lparr>pr_insn := fin, pr_output_everything := oe\<rparr>) = deliver (insn_test len w) ?ex 0" for len w
    using first [of len w] first_used test.renumbered_deliver [OF num ok2(1), of 0 len w] by (auto simp: program_output_def fin_def us_def)
  have int: "interesting (ex2 ! k)" if "k < length ex2" "0 \<le> dest2 ! k" "oe < 0" for k
    using num that first [of 0 "\<lambda>_. 0"] ok2(2) unfolding number_inv_def prod.case by (metis nat_int of_nat_0_less_iff not_gr_zero)
  have elem: "\<exists>m < n. i = redirect_insn dest2 (ex2 ! (us ! m))" if "i \<in> set fin" for i
    using that n by (auto simp: fin_def in_set_conv_nth)
  have mask: "in_mask i \<noteq> 0" if i: "i \<in> set fin" for i
  proof -
    obtain m where m: "m < n" "i = redirect_insn dest2 (ex2 ! (us ! m))" using elem [OF i] by blast
    then have "oe < 0" using none by (cases "oe < 0") simp_all
    then show ?thesis using int [OF us [OF m(1)]] m(2) by (simp add: interesting_def redirect_insn_def)
  qed
  have "insn_shape ` set ex2 \<subseteq> insn_shape ` set ?ex"
  proof -
    have "insn_shape ` set ex1 = insn_shape ` set ?ex" using skip_unused_shape [of ?ex] sk by (metis fst_conv list.set_map)
    moreover have "nat (dest ! 0) < length ex1" if "0 < dest ! 0"
      using inv [of 0 "\<lambda>_. 0"] that assms(2) by (auto simp: skip_inv_def fixed_dest_def split: if_splits)
    moreover have "ex1 \<noteq> []" using assms(2) inv [of 0 "\<lambda>_. 0"] by (auto simp: skip_inv_def)
    ultimately show ?thesis using first_insn_shape [OF fi] by simp
  qed
  then have "\<exists>i' \<in> set ?ex. required_length i = required_length i'" if i: "i \<in> set fin" for i
  proof -
    obtain m where m: "m < n" "i = redirect_insn dest2 (ex2 ! (us ! m))" using elem [OF i] by blast
    then have "insn_shape i \<in> insn_shape ` set ex2" using us(1) by simp
    then obtain i' where "i' \<in> set ?ex" "insn_shape i = insn_shape i'"
      using \<open>insn_shape ` set ex2 \<subseteq> insn_shape ` set ?ex\<close> by blast
    then show ?thesis using shape_required by blast
  qed
  moreover have "fin \<noteq> []" if "oe < 0" using first_used [OF that] n by auto
  ultimately show ?thesis
    using ok mask out unfolding res by (intro exI [of _ "prog\<lparr>pr_insn := fin, pr_output_everything := oe\<rparr>"]) simp
qed

text \<open>
  Removing the instructions that decide nothing or are never reached: none of the indices leaves its vector, what remains tests
  something and jumps forward, its tests are tests of the old program, and every packet is delivered as before.
\<close>

theorem remove_unused_preserves:
  assumes "insns_ok (pr_insn prog)" "pr_insn prog \<noteq> []"
  shows "\<exists>prog'. remove_unused_states prog = Inr prog' \<and> insns_ok (pr_insn prog')
    \<and> (\<forall>i \<in> set (pr_insn prog'). in_mask i \<noteq> 0 \<and> (\<exists>i' \<in> set (pr_insn prog). required_length i = required_length i'))
    \<and> (pr_output_everything prog' < 0 \<longrightarrow> pr_insn prog' \<noteq> [])
    \<and> pr_align_offset prog' = pr_align_offset prog
    \<and> (\<forall>len w. program_output (insn_test len w) prog' = deliver (insn_test len w) (pr_insn prog) 0)"
  using assms by (rule remove_unused_ok)

theorem remove_unused_preserves_witness:
  "\<exists>prog'. remove_unused_states ((new_program 0)\<lparr>pr_insn := [masked_insn 0 0 0 (- 1) 2, masked_insn 0 1 1 0 0, masked_insn 4 1 1 (- 1) 0]\<rparr>) = Inr prog'
    \<and> program_output (insn_test 8 (\<lambda>_. 1)) prog' = Some 0"
proof -
  let ?p = "(new_program 0)\<lparr>pr_insn := [masked_insn 0 0 0 (- 1) 2, masked_insn 0 1 1 0 0, masked_insn 4 1 1 (- 1) 0]\<rparr>"
  have "insns_ok (pr_insn ?p)" "pr_insn ?p \<noteq> []" by code_simp+
  moreover have "deliver (insn_test 8 (\<lambda>_. 1)) (pr_insn ?p) 0 = Some 0" by code_simp
  ultimately show ?thesis using remove_unused_preserves [of ?p] by fastforce
qed

section \<open>After the dominators\<close>

text \<open>\<^verbatim>\<open>Program::optimize\<close> from the combination of instructions on.\<close>

definition optimize_rest :: "program \<Rightarrow> program res option" where
  "optimize_rest prog =
     map_option (\<lambda>r. bind_res r (\<lambda>ex. bind_res (remove_unused_states (prog\<lparr>pr_insn := ex\<rparr>)) (\<lambda>prog1. Inr (finish_optimize prog1))))
       (combine_compatible_states (pr_insn prog))"

lemma finish_optimize_match:
  assumes "insns_ok (pr_insn prog)" "\<forall>i \<in> set (pr_insn prog). in_mask i \<noteq> 0" "pr_output_everything prog < 0 \<longrightarrow> pr_insn prog \<noteq> []"
    "pr_align_offset prog = 0" "3 \<le> pk_tailroom p" "pk_length p < 4294967296"
  shows "\<exists>r. Program_match (finish_optimize prog) room p = Some (Inr r) \<and> program_output (insn_test (pk_length p) (packet_word 0 p)) prog = Some r"
proof (cases "0 \<le> pr_output_everything prog")
  case True
  then show ?thesis by (simp add: finish_optimize_def Program_match_def program_output_def)
next
  case False
  then have f: "finish_optimize prog = prog\<lparr>pr_safe_length := of_nat (max_required (pr_insn prog))\<rparr>"
    using assms(3,4) by (simp add: finish_optimize_def)
  have "program_ok (finish_optimize prog)" using assms False by (simp add: f program_ok_def)
  from match_delivers [OF this _ assms(5,6)] show ?thesis using False assms(4) by (simp add: f program_output_def)
qed

text \<open>(C40) From a program with forward jumps to the execution of what the optimiser makes of it: a packet that is long enough
  for all its instructions goes to the output the program stands for.
\<close>

theorem optimized_program_delivers:
  assumes "insns_ok (pr_insn prog)" "pr_insn prog \<noteq> []" "pr_align_offset prog = 0"
    and "\<And>i. i \<in> set (pr_insn prog) \<Longrightarrow> required_length i \<le> pk_length p" "3 \<le> pk_tailroom p" "pk_length p < 4294967296"
  shows "\<exists>prog' r. optimize_rest prog = Some (Inr prog') \<and> Program_match prog' room p = Some (Inr r)
    \<and> deliver (insn_test (pk_length p) (packet_word 0 p)) (pr_insn prog) 0 = Some r"
proof -
  obtain ex where ex: "combine_compatible_states (pr_insn prog) = Some (Inr ex)" "length ex = length (pr_insn prog)" "insns_ok ex"
    "\<And>w. deliver (insn_test (pk_length p) w) ex 0 = deliver (insn_test (pk_length p) w) (pr_insn prog) 0"
    using combine_loop_ok [of "pr_insn prog" "pk_length p" "length (pr_insn prog)"] assms(1,2,4)
    by (auto simp: combine_compatible_states_def equivalent_def long_enough_def)
  let ?p1 = "prog\<lparr>pr_insn := ex\<rparr>"
  have "insns_ok (pr_insn ?p1)" "pr_insn ?p1 \<noteq> []" using ex(2,3) assms(2) by auto
  from remove_unused_ok [OF this] obtain prog1 where p1: "remove_unused_states ?p1 = Inr prog1" "insns_ok (pr_insn prog1)"
    "\<forall>i \<in> set (pr_insn prog1). in_mask i \<noteq> 0" "pr_output_everything prog1 < 0 \<longrightarrow> pr_insn prog1 \<noteq> []" "pr_align_offset prog1 = 0"
    "\<And>len w. program_output (insn_test len w) prog1 = deliver (insn_test len w) ex 0"
    using assms(3) by auto
  have "optimize_rest prog = Some (Inr (finish_optimize prog1))" by (simp add: optimize_rest_def ex(1) p1(1))
  then show ?thesis
    using finish_optimize_match [OF p1(2-5) assms(5,6)] p1(6) ex(4) by metis
qed

text \<open>The program of the last example, on a packet of eight bytes.\<close>

theorem optimized_program_delivers_witness:
  "\<exists>prog'. optimize_rest ((new_program 0)\<lparr>pr_insn := [masked_insn 0 0 0 (- 1) 2, masked_insn 0 1 1 0 0, masked_insn 4 1 1 (- 1) 0]\<rparr>) = Some (Inr prog')
    \<and> Program_match prog' (\<lambda>_. 7) (fresh_packet [] [9, 0, 0, 0, 1, 0, 0, 0] 3) = Some (Inr 0)"
proof -
  let ?prog = "(new_program 0)\<lparr>pr_insn := [masked_insn 0 0 0 (- 1) 2, masked_insn 0 1 1 0 0, masked_insn 4 1 1 (- 1) 0]\<rparr>"
    and ?p = "fresh_packet [] [9, 0, 0, 0, 1, 0, 0, 0] 3"
  have ok: "insns_ok (pr_insn ?prog)" "pr_insn ?prog \<noteq> []" "pr_align_offset ?prog = 0" by code_simp+
  have "list_all (\<lambda>i. required_length i \<le> pk_length ?p) (pr_insn ?prog)" by code_simp
  then have long: "required_length i \<le> pk_length ?p" if "i \<in> set (pr_insn ?prog)" for i using that by (simp only: list_all_iff)
  have room: "3 \<le> pk_tailroom ?p" "pk_length ?p < 4294967296" by (simp_all add: fresh_packet_def pk_length_def)
  have "deliver (insn_test (pk_length ?p) (packet_word 0 ?p)) (pr_insn ?prog) 0 = Some 0" by code_simp
  then show ?thesis using optimized_program_delivers [OF ok long room, of "\<lambda>_. 7"] by auto
qed

end
