(* ===== verification/Classifier.thy ===== *)
theory Classifier
  imports ClassifierPasses ConfText
begin

text \<open>
  Building programs (\<^verbatim>\<open>Program::start_subtree\<close>, \<^verbatim>\<open>add_insn\<close>, \<^verbatim>\<open>finish_subtree\<close>,
  \<^verbatim>\<open>negate_subtree\<close>, \<^verbatim>\<open>set_failure\<close> of \<^verbatim>\<open>elements/standard/classification.cc\<close>) and the
  element \<^verbatim>\<open>Classifier\<close> (\<^verbatim>\<open>elements/standard/classifier.cc\<close>), which builds one out of its patterns.
  While a program is built a vector \<^verbatim>\<open>tree\<close> goes with it: the current level, and for every
  instruction the level of the subtree that starts there, or -1.
\<close>

section \<open>Subtrees\<close>

datatype combiner = c_and | c_or | c_ternary

definition init_subtree :: "program \<Rightarrow> int list" where
  "init_subtree prog = (replicate (length (pr_insn prog) + 1) (- 1))[0 := 0]"

definition start_subtree :: "int list \<Rightarrow> int list" where "start_subtree tree = tree[0 := tree ! 0 + 1]"

definition add_insn :: "int \<Rightarrow> u32 \<Rightarrow> u32 \<Rightarrow> program \<times> int list \<Rightarrow> program \<times> int list" where
  "add_insn offset v m s = (case s of (prog, tree) \<Rightarrow>
     (prog\<lparr>pr_insn := pr_insn prog @ [new_insn offset v m], pr_output_everything := - 1\<rparr>, tree @ [tree ! 0]))"

definition relink_jump :: "int \<Rightarrow> int \<Rightarrow> int \<Rightarrow> int" where
  "relink_jump success failure j = (if j = j_success then success else if j = j_failure then failure else j)"

definition relink :: "int \<Rightarrow> int \<Rightarrow> insn \<Rightarrow> insn" where
  "relink success failure i =
     i\<lparr>in_no := relink_jump success failure (in_no i), in_yes := relink_jump success failure (in_yes i)\<rparr>"

definition redirect_subtree :: "nat \<Rightarrow> nat \<Rightarrow> int \<Rightarrow> int \<Rightarrow> insn list \<Rightarrow> insn list" where
  "redirect_subtree first next success failure ex =
     fold (\<lambda>i ex. ex[i := relink success failure (ex ! i)]) [first..<next] ex"

text \<open>\<^verbatim>\<open>finish_subtree\<close>: back to the parent, the subtrees after it, and the links between them.\<close>

fun parent_ptr :: "int list \<Rightarrow> int \<Rightarrow> nat \<Rightarrow> nat" where
  "parent_ptr tree level 0 = 0"
| "parent_ptr tree level (Suc p) =
     (if tree ! Suc p < 0 \<or> level \<le> tree ! Suc p then parent_ptr tree level p else Suc p)"

definition child_subtrees :: "int list \<Rightarrow> int \<Rightarrow> nat \<Rightarrow> nat list" where
  "child_subtrees tree level n =
     map (\<lambda>p. p - 1) (filter (\<lambda>p. tree ! p = level) [Suc (parent_ptr tree level n)..<Suc n])"

fun link_subtrees :: "combiner \<Rightarrow> int \<Rightarrow> int \<Rightarrow> nat list \<Rightarrow> insn list \<Rightarrow> insn list" where
  "link_subtrees op success failure (first # next # rest) ex =
     (case op of
        c_and \<Rightarrow> link_subtrees op success failure (next # rest) (redirect_subtree first next (int next) failure ex)
      | c_or \<Rightarrow> link_subtrees op success failure (next # rest) (redirect_subtree first next success (int next) ex)
      | c_ternary \<Rightarrow> (case rest of
            next2 # _ \<Rightarrow> link_subtrees op success failure rest
              (redirect_subtree next next2 success failure (redirect_subtree first next (int next) (int next2) ex))
          | [] \<Rightarrow> link_subtrees op success failure (next # rest) (redirect_subtree first next (int next) failure ex)))"
| "link_subtrees op success failure [first] ex = redirect_subtree first (length ex) success failure ex"
| "link_subtrees op success failure [] ex = ex"

definition finish_subtree :: "combiner \<Rightarrow> int \<Rightarrow> int \<Rightarrow> program \<times> int list \<Rightarrow> program \<times> int list" where
  "finish_subtree op success failure s = (case s of (prog, tree) \<Rightarrow>
     let level = tree ! 0; n = length (pr_insn prog) in
     case child_subtrees tree level n of
       [] \<Rightarrow> (prog, tree[0 := level - 1])
     | first # rest \<Rightarrow>
         (prog\<lparr>pr_insn := link_subtrees op success failure (first # rest) (pr_insn prog)\<rparr>,
          (fold (\<lambda>e tree. tree[e := - 1]) [first + 2..<n + 1] (tree[first + 1 := level - 1]))[0 := level - 1]))"

text \<open>\<^verbatim>\<open>negate_subtree\<close>.\<close>

fun last_subtree :: "int list \<Rightarrow> int \<Rightarrow> nat \<Rightarrow> nat option" where
  "last_subtree tree level 0 = None"
| "last_subtree tree level (Suc k) = (if tree ! Suc k = level then Some k else last_subtree tree level k)"

definition negate_jump :: "int \<Rightarrow> int" where
  "negate_jump j = (if j = j_failure then j_success else if j = j_success then j_failure else j)"

definition negate_insn :: "bool \<Rightarrow> insn \<Rightarrow> insn" where
  "negate_insn flip_short i = i\<lparr>in_yes := negate_jump (in_yes i), in_no := negate_jump (in_no i),
     in_short := (if flip_short then \<not> in_short i else in_short i)\<rparr>"

definition negate_subtree :: "bool \<Rightarrow> program \<times> int list \<Rightarrow> program \<times> int list" where
  "negate_subtree flip_short s = (case s of (prog, tree) \<Rightarrow>
     case last_subtree tree (tree ! 0) (length (pr_insn prog)) of
       None \<Rightarrow> s
     | Some first \<Rightarrow>
         (prog\<lparr>pr_insn := fold (\<lambda>i ex. ex[i := negate_insn flip_short (ex ! i)]) [first..<length (pr_insn prog)] (pr_insn prog)\<rparr>, tree))"

definition set_failure :: "int \<Rightarrow> program \<Rightarrow> program res" where
  "set_failure failure prog =
     (let prog1 = prog\<lparr>pr_insn := map (\<lambda>i. i\<lparr>in_no := (if in_no i = j_failure then failure else in_no i),
        in_yes := (if in_yes i = j_failure then failure else in_yes i)\<rparr>) (pr_insn prog)\<rparr> in
      if pr_output_everything prog = - j_failure
      then guard (failure \<le> 0) AssertFail (Inr (prog1\<lparr>pr_output_everything := - failure\<rparr>))
      else Inr prog1)"

section \<open>The element\<close>

text \<open>The digits of a pattern.\<close>

definition is_digit :: "char \<Rightarrow> bool" where "is_digit c \<longleftrightarrow> 48 \<le> (of_char c :: nat) \<and> (of_char c :: nat) \<le> 57"

definition is_xdigit :: "char \<Rightarrow> bool" where
  "is_xdigit c \<longleftrightarrow> is_digit c \<or> 65 \<le> (of_char c :: nat) \<and> (of_char c :: nat) \<le> 70 \<or> 97 \<le> (of_char c :: nat) \<and> (of_char c :: nat) \<le> 102"

definition value_mask :: "char \<Rightarrow> u8 \<times> u8" where
  "value_mask c =
     (let n = (of_char c :: nat) in
      if c = CHR ''?'' then (0, 0)
      else if is_digit c then (of_nat (n - 48), 0xF)
      else if 65 \<le> n \<and> n \<le> 70 then (of_nat (n - 55), 0xF)
      else if 97 \<le> n \<and> n \<le> 102 then (of_nat (n - 87), 0xF)
      else (0, 0xF))"

definition update_value_mask :: "char \<Rightarrow> char \<Rightarrow> u8 \<times> u8" where
  "update_value_mask hi lo = (case (value_mask hi, value_mask lo) of ((v, m), (v', m')) \<Rightarrow>
     (push_bit 4 v OR v', push_bit 4 m OR m'))"

text \<open>
  Reading a pattern.  An error makes \<^verbatim>\<open>configure\<close> fail and drop the program, so reading stops there;
  an offset beyond \<^verbatim>\<open>int\<close> is a fault.
\<close>

record clause =
  cl_negated :: bool
  cl_offset :: int
  cl_value :: string
  cl_mask :: "string option"

definition hex_digit :: "char \<Rightarrow> bool" where "hex_digit c \<longleftrightarrow> is_xdigit c \<or> c = CHR ''?''"

definition digits_value :: "string \<Rightarrow> int" where
  "digits_value ds = fold (\<lambda>c n. n * 10 + (int (of_char c) - 48)) ds 0"

definition read_mask :: "string \<Rightarrow> string option \<times> string" where
  "read_mask s = (case s of
       c # s' \<Rightarrow> if c = CHR ''%'' then (Some (takeWhile hex_digit s'), dropWhile hex_digit s') else (None, s)
     | [] \<Rightarrow> (None, s))"

definition read_clause :: "string \<Rightarrow> (clause \<times> string) option" where
  "read_clause s =
     (let neg = (s \<noteq> [] \<and> hd s = CHR ''!'');
          s1 = (if neg then dropWhile is_space (tl s) else s);
          ds = takeWhile is_digit s1 in
      case dropWhile is_digit s1 of
        [] \<Rightarrow> None
      | c # s3 \<Rightarrow>
          if ds = [] \<or> c \<noteq> CHR ''/'' then None
          else let v = takeWhile hex_digit s3 in
            case read_mask (dropWhile hex_digit s3) of (m, s5) \<Rightarrow>
              if length v < 2 \<or> odd (length v) \<or> (case m of None \<Rightarrow> False | Some ms \<Rightarrow> length ms \<noteq> length v) then None
              else Some (\<lparr>cl_negated = neg, cl_offset = digits_value ds, cl_value = v, cl_mask = m\<rparr>, s5))"

lemma length_dropWhile_Cons: "dropWhile P s = c # r \<Longrightarrow> length r < length s"
  using length_dropWhile_le [of P s] by simp

lemma read_mask_length: "read_mask s = (m, r) \<Longrightarrow> length r \<le> length s"
  using length_dropWhile_le [of hex_digit "tl s"] by (cases s) (auto simp: read_mask_def split: if_splits)

lemma read_clause_length: "read_clause s = Some (c, r) \<Longrightarrow> length r < length s"
proof -
  assume *: "read_clause s = Some (c, r)"
  define s1 where "s1 = (if s \<noteq> [] \<and> hd s = CHR ''!'' then dropWhile is_space (tl s) else s)"
  have "length s1 \<le> length s" using length_dropWhile_le [of is_space "tl s"] by (cases s) (auto simp: s1_def)
  moreover obtain d s3 m where "dropWhile is_digit s1 = d # s3" "read_mask (dropWhile hex_digit s3) = (m, r)"
    using * by (auto simp: read_clause_def Let_def s1_def [symmetric] split: list.splits if_splits prod.splits)
  ultimately show ?thesis
    using length_dropWhile_Cons [of is_digit s1 d s3] read_mask_length [of "dropWhile hex_digit s3" m r] length_dropWhile_le [of hex_digit s3] by simp
qed

function read_clauses :: "string \<Rightarrow> clause list option" where
  "read_clauses s =
     (let s1 = dropWhile is_space s in
      if s1 = [] then Some []
      else case read_clause s1 of
          None \<Rightarrow> None
        | Some (c, rest) \<Rightarrow> map_option (\<lambda>cs. c # cs) (read_clauses rest))"
  by pat_completeness auto
termination
proof (relation "measure length")
  fix s s1 :: string and a :: "clause \<times> string" and c rest
  assume "s1 = dropWhile is_space s" "s1 \<noteq> []" "read_clause s1 = Some a" "(c, rest) = a"
  then have "length rest < length s1" using read_clause_length [of s1 c rest] by simp
  then show "(rest, s) \<in> measure length" using \<open>s1 = dropWhile is_space s\<close> length_dropWhile_le [of is_space s] by simp
qed simp

definition read_pattern :: "string \<Rightarrow> clause list option" where
  "read_pattern s = (if s = ''-'' then Some [] else read_clauses s)"

text \<open>The bytes of a clause, each with its mask.\<close>

fun clause_bytes :: "string \<Rightarrow> string option \<Rightarrow> (u8 \<times> u8) list" where
  "clause_bytes (h # l # vs) None = update_value_mask h l # clause_bytes vs None"
| "clause_bytes (h # l # vs) (Some (mh # ml # ms)) =
     (case update_value_mask h l of (v, m) \<Rightarrow> case update_value_mask mh ml of (mv, mm) \<Rightarrow>
        (v, m AND mv AND mm) # clause_bytes vs (Some ms))"
| "clause_bytes _ _ = []"

definition put_byte :: "nat \<Rightarrow> u8 \<Rightarrow> u32 \<Rightarrow> u32" where
  "put_byte k b w = (w AND NOT (push_bit (8 * k) 0xFF)) OR push_bit (8 * k) (ucast b)"

definition set_back_byte :: "nat \<Rightarrow> u8 \<Rightarrow> u8 \<Rightarrow> program \<times> int list \<Rightarrow> program \<times> int list" where
  "set_back_byte k v m s = (case s of (prog, tree) \<Rightarrow>
     let i = last (pr_insn prog) in
     (prog\<lparr>pr_insn := butlast (pr_insn prog) @ [i\<lparr>in_mask := put_byte k m (in_mask i), in_value := put_byte k (v AND m) (in_value i)\<rparr>]\<rparr>, tree))"

fun add_bytes :: "bool \<Rightarrow> int \<Rightarrow> (u8 \<times> u8) list \<Rightarrow> program \<times> int list \<Rightarrow> program \<times> int list" where
  "add_bytes fst_byte offset [] s = s"
| "add_bytes fst_byte offset ((v, m) # bs) s =
     add_bytes False (offset + 1) bs (set_back_byte (nat (offset mod 4)) v m
       (if fst_byte \<or> offset mod 4 = 0 then add_insn (offset div 4 * 4) 0 0 s else s))"

definition add_clause :: "clause \<Rightarrow> program \<times> int list \<Rightarrow> program \<times> int list" where
  "add_clause c s = (case s of (prog, tree) \<Rightarrow>
     let s1 = finish_subtree c_and j_success j_failure
       (add_bytes True (cl_offset c + uint (pr_align_offset prog)) (clause_bytes (cl_value c) (cl_mask c)) (prog, start_subtree tree))
     in if cl_negated c then negate_subtree False s1 else s1)"

definition add_slot :: "nat \<Rightarrow> clause list \<Rightarrow> program \<times> int list \<Rightarrow> program \<times> int list" where
  "add_slot slot cs s = (case s of (prog, tree) \<Rightarrow>
     let s1 = fold add_clause cs (prog, start_subtree tree);
         s2 = (if cs = [] then add_insn 0 0 0 s1 else s1)
     in finish_subtree c_and (- int slot) j_failure s2)"

fun add_slots :: "nat \<Rightarrow> clause list list \<Rightarrow> program \<times> int list \<Rightarrow> program \<times> int list" where
  "add_slots slot [] s = s"
| "add_slots slot (cs # css) s = add_slots (Suc slot) css (add_slot slot cs s)"

definition build_program :: "u32 \<Rightarrow> clause list list \<Rightarrow> program" where
  "build_program align_offset css =
     (let prog = new_program align_offset in
      fst (finish_subtree c_or j_never j_never (add_slots 0 css (prog, start_subtree (init_subtree prog)))))"

text \<open>\<^verbatim>\<open>Classifier::parse_program\<close> up to the optimiser.\<close>

definition offsets_ok :: "u32 \<Rightarrow> clause list \<Rightarrow> bool" where
  "offsets_ok a cs \<longleftrightarrow> list_all (\<lambda>c. int32_range (cl_offset c + uint a + int (length (clause_bytes (cl_value c) (cl_mask c))))) cs"

definition parse_program :: "u32 \<Rightarrow> string list \<Rightarrow> program option res" where
  "parse_program align_offset conf =
     (case those (map read_pattern conf) of
        None \<Rightarrow> Inr None
      | Some css \<Rightarrow> guard (list_all (offsets_ok align_offset) css) SignedOverflow (Inr (Some (build_program align_offset css))))"

section \<open>Blocks of instructions\<close>

text \<open>
  The jump by which execution leaves a block of instructions that starts at position \<open>a\<close>, from instruction \<open>q\<close> of it.
\<close>

function block_exit :: "(insn \<Rightarrow> bool) \<Rightarrow> nat \<Rightarrow> insn list \<Rightarrow> nat \<Rightarrow> int" where
  "block_exit t a b q =
     (if q < length b
      then let j = in_jump (b ! q) (t (b ! q)) in
        if 0 < j \<and> int (a + q) < j then block_exit t a b (nat j - a) else j
      else int (a + q))"
  by pat_completeness auto
termination by (relation "measure (\<lambda>(t, a, b, q). length b - q)") auto

declare block_exit.simps [simp del]

text \<open>Jumps inside the block lead forward and stay below \<open>lim\<close>.\<close>

definition block_fits :: "nat \<Rightarrow> nat \<Rightarrow> insn list \<Rightarrow> bool" where
  "block_fits a lim b \<longleftrightarrow> (\<forall>q < length b. (\<forall>d. in_jump (b ! q) d \<le> 0 \<or> int (a + q) < in_jump (b ! q) d \<and> in_jump (b ! q) d < int lim)
     \<and> in_value (b ! q) AND in_mask (b ! q) = in_value (b ! q))"

lemma block_fitsD: "block_fits a lim b \<Longrightarrow> q < length b \<Longrightarrow> in_jump (b ! q) d \<le> 0 \<or> int (a + q) < in_jump (b ! q) d \<and> in_jump (b ! q) d < int lim"
  by (simp add: block_fits_def)

lemma block_fits_program: "block_fits 0 (length ex) ex \<Longrightarrow> insns_ok ex"
proof -
  assume *: "block_fits 0 (length ex) ex"
  have "insn_ok (length ex) q (ex ! q)" if "q < length ex" for q
    using block_fitsD [OF * that, of True] block_fitsD [OF * that, of False] * that
    by (simp add: insn_ok_def jump_ok_def in_jump_def block_fits_def)
  then show ?thesis by (simp add: insns_ok_def)
qed

lemma block_fits_append:
  "block_fits a lim (b @ c) \<longleftrightarrow> block_fits a lim b \<and> block_fits (a + length b) lim c"
proof -
  have "(\<forall>q < length (b @ c). P ((b @ c) ! q) q) \<longleftrightarrow> (\<forall>q < length b. P (b ! q) q) \<and> (\<forall>q < length c. P (c ! q) (length b + q))" for P
  proof (intro iffI conjI allI impI)
    fix q
    assume *: "\<forall>q < length (b @ c). P ((b @ c) ! q) q"
    show "P (b ! q) q" if "q < length b" using * [rule_format, of q] that by (simp add: nth_append)
    show "P (c ! q) (length b + q)" if "q < length c" using * [rule_format, of "length b + q"] that by simp
  next
    fix q
    assume *: "(\<forall>q < length b. P (b ! q) q) \<and> (\<forall>q < length c. P (c ! q) (length b + q))" "q < length (b @ c)"
    then show "P ((b @ c) ! q) q" using *(1) [THEN conjunct2, rule_format, of "q - length b"] by (cases "q < length b") (simp_all add: nth_append)
  qed
  from this [of "\<lambda>i q. (\<forall>d. in_jump i d \<le> 0 \<or> int (a + q) < in_jump i d \<and> in_jump i d < int lim) \<and> in_value i AND in_mask i = in_value i"]
  show ?thesis by (simp add: block_fits_def add.assoc)
qed

lemma in_jump_relink: "in_jump (relink s f i) d = relink_jump s f (in_jump i d)"
  by (simp add: relink_def in_jump_def)

lemma relink_jump_pos: "0 < j \<Longrightarrow> relink_jump s f j = j"
  by (simp add: relink_jump_def j_success_def j_failure_def j_never_def)

lemma block_fits_relink:
  assumes "block_fits a lim b" "lim \<le> lim'" "\<And>j. j \<in> {s, f} \<Longrightarrow> j \<le> 0 \<or> int (a + length b) \<le> j \<and> j < int lim'"
  shows "block_fits a lim' (map (relink s f) b)"
  unfolding block_fits_def length_map
proof (intro allI impI conjI)
  fix q d
  assume q: "q < length b"
  let ?j = "in_jump (b ! q) d"
  show "in_jump (map (relink s f) b ! q) d \<le> 0 \<or> int (a + q) < in_jump (map (relink s f) b ! q) d \<and> in_jump (map (relink s f) b ! q) d < int lim'"
    using block_fitsD [OF assms(1) q, of d] assms(2) assms(3) [of s] assms(3) [of f] q
    by (auto simp: in_jump_relink relink_jump_def)
  show "in_value (map (relink s f) b ! q) AND in_mask (map (relink s f) b ! q) = in_value (map (relink s f) b ! q)"
    using assms(1) q by (simp add: block_fits_def relink_def)
qed

lemma program_exit:
  assumes "block_fits 0 (length ex) ex"
  shows "q < length ex \<Longrightarrow> deliver t ex q = Some (- block_exit t 0 ex q)"
proof (induction q rule: program_induct)
  case (step q)
  show ?case
    using block_fitsD [OF assms step(1), of "t (ex ! q)"] step
    by (subst deliver.simps, subst block_exit.simps) (auto simp: Let_def)
qed

text \<open>Relinking changes the exits, and a sequence of blocks continues where an exit leads.\<close>

lemma block_exit_append_right:
  "q \<le> length c \<Longrightarrow> block_exit t a (b @ c) (length b + q) = block_exit t (a + length b) c q"
proof (induction "length c - q" arbitrary: q rule: less_induct)
  case less
  show ?case
  proof (cases "q < length c")
    case True
    let ?j = "in_jump (c ! q) (t (c ! q))"
    show ?thesis
    proof (cases "0 < ?j \<and> int (a + length b + q) < ?j")
      case j: True
      define k where "k = nat ?j - (a + length b)"
      have k: "q < k" "nat ?j - a = length b + k" using j by (auto simp: k_def)
      show ?thesis
      proof (cases "k \<le> length c")
        case True
        then show ?thesis
          using less.hyps [of k] k \<open>q < length c\<close> j
          by (subst block_exit.simps, subst (2) block_exit.simps) (simp add: nth_append Let_def k_def [symmetric] add.assoc)
      next
        case False
        then show ?thesis
          using k \<open>q < length c\<close> j
          by (subst block_exit.simps, subst block_exit.simps, subst (2) block_exit.simps, subst (2) block_exit.simps)
            (simp add: nth_append Let_def k_def [symmetric] add.assoc)
      qed
    next
      case False
      then show ?thesis
        using True by (subst block_exit.simps, subst (2) block_exit.simps) (auto simp: nth_append Let_def add.assoc)
    qed
  next
    case False
    then show ?thesis using less.prems by (subst block_exit.simps, subst (2) block_exit.simps) simp
  qed
qed

lemma block_exit_append_left:
  "q < length b \<Longrightarrow> block_exit t a (b @ c) q =
     (let e = block_exit t a b q in if int (a + length b) \<le> e then block_exit t a (b @ c) (nat e - a) else e)"
proof (induction "length b - q" arbitrary: q rule: less_induct)
  case less
  let ?j = "in_jump (b ! q) (t (b ! q))"
  show ?case
  proof (cases "0 < ?j \<and> int (a + q) < ?j")
    case j: True
    define k where "k = nat ?j - a"
    have k: "q < k" "int (a + k) = ?j" using j by (auto simp: k_def)
    have e: "block_exit t a b q = block_exit t a b k" "block_exit t a (b @ c) q = block_exit t a (b @ c) k"
      using j less.prems by (subst block_exit.simps, simp add: Let_def k_def nth_append)+
    show ?thesis
    proof (cases "k < length b")
      case True
      then show ?thesis using less.hyps [of k] k(1) e by simp
    next
      case False
      then have "block_exit t a b k = int (a + k)" by (subst block_exit.simps) simp
      then have "block_exit t a b q = int (a + k)" "nat (int (a + k)) - a = k" using e(1) by simp_all
      then show ?thesis using False e(2) by (simp only: Let_def) simp
    qed
  next
    case False
    then have "block_exit t a b q = ?j" "block_exit t a (b @ c) q = ?j"
      using less.prems by (subst block_exit.simps; auto simp: Let_def nth_append)+
    then show ?thesis using False less.prems by auto
  qed
qed

lemma block_exit_map:
  assumes "\<And>i d. in_jump (h i) d = g (in_jump i d)" "\<And>i. t (h i) = t i" "\<And>j. 0 < j \<Longrightarrow> g j = j"
    and "\<And>j. j \<le> 0 \<Longrightarrow> g j \<le> 0 \<or> int (a + length b) \<le> g j"
  shows "q < length b \<Longrightarrow> block_exit t a (map h b) q = g (block_exit t a b q)"
proof (induction "length b - q" arbitrary: q rule: less_induct)
  case less
  let ?j = "in_jump (b ! q) (t (b ! q))"
  have m: "in_jump (map h b ! q) (t (map h b ! q)) = g ?j" using less.prems by (simp add: assms(1,2))
  show ?case
  proof (cases "0 < ?j")
    case True
    then have g: "g ?j = ?j" by (rule assms(3))
    show ?thesis
    proof (cases "int (a + q) < ?j")
      case j: True
      define k where "k = nat ?j - a"
      have k: "q < k" "int (a + k) = ?j" using j by (auto simp: k_def)
      have e: "block_exit t a b q = block_exit t a b k" "block_exit t a (map h b) q = block_exit t a (map h b) k"
        using j True less.prems m g by (subst block_exit.simps, simp add: Let_def k_def)+
      show ?thesis
      proof (cases "k < length b")
        case True
        then show ?thesis using less.hyps [of k] k(1) e by simp
      next
        case False
        then have "block_exit t a b k = int (a + k)" "block_exit t a (map h b) k = int (a + k)" by (subst block_exit.simps, simp)+
        then show ?thesis using k e g by simp
      qed
    next
      case False
      then show ?thesis using less.prems m g by (subst block_exit.simps, subst (2) block_exit.simps) (simp add: Let_def)
    qed
  next
    case False
    then have e: "block_exit t a b q = ?j" using less.prems by (subst block_exit.simps) (simp add: Let_def)
    show ?thesis
    proof (cases "g ?j \<le> 0")
      case True
      then show ?thesis unfolding e using less.prems m by (subst block_exit.simps) (simp add: Let_def)
    next
      case g: False
      then have l: "int (a + length b) \<le> g ?j" using assms(4) [of ?j] False by auto
      then have "block_exit t a (map h b) q = block_exit t a (map h b) (nat (g ?j) - a)"
        using less.prems m g by (subst block_exit.simps) (simp add: Let_def)
      also have "\<dots> = g ?j" using l by (subst block_exit.simps) auto
      finally show ?thesis unfolding e .
    qed
  qed
qed

lemma negate_jump_pos: "0 < j \<Longrightarrow> negate_jump j = j"
  by (simp add: negate_jump_def j_success_def j_failure_def j_never_def)

lemma jump_constants [simp]: "j_success \<noteq> j_failure" "j_failure \<noteq> j_success" "j_success \<le> 0" "j_failure \<le> 0" "j_never \<le> 0"
  "j_never \<noteq> j_failure" "j_failure \<noteq> j_never" "j_success < 0" "j_failure < 0" "j_never < 0"
  "\<not> 0 < j_success" "\<not> 0 < j_failure" "\<not> 0 < j_never"
  by (simp_all add: j_success_def j_failure_def j_never_def)

section \<open>Sequences of blocks\<close>

text \<open>What \<^verbatim>\<open>c_and\<close> and \<^verbatim>\<open>c_or\<close> make of a sequence of blocks that starts at position \<open>a\<close>.\<close>

fun linked :: "combiner \<Rightarrow> int \<Rightarrow> int \<Rightarrow> nat \<Rightarrow> insn list list \<Rightarrow> insn list" where
  "linked op s f a [] = []"
| "linked op s f a [b] = map (relink s f) b"
| "linked op s f a (b # bs) =
     map (relink (if op = c_and then int (a + length b) else s) (if op = c_and then f else int (a + length b))) b @ linked op s f (a + length b) bs"

fun exits :: "(insn \<Rightarrow> bool) \<Rightarrow> nat \<Rightarrow> insn list list \<Rightarrow> int list" where
  "exits t a [] = []"
| "exits t a (b # bs) = block_exit t a b 0 # exits t (a + length b) bs"

fun blocks_fit :: "nat \<Rightarrow> insn list list \<Rightarrow> bool" where
  "blocks_fit a [] \<longleftrightarrow> True"
| "blocks_fit a (b # bs) \<longleftrightarrow> b \<noteq> [] \<and> block_fits a (a + length b) b \<and> blocks_fit (a + length b) bs"

lemma linked_length [simp]: "length (linked op s f a bs) = length (concat bs)"
  by (induction op s f a bs rule: linked.induct) simp_all

lemma linked_fits:
  assumes "blocks_fit a bs" "s \<le> 0" "f \<le> 0"
  shows "block_fits a (a + length (concat bs)) (linked op s f a bs)"
  using assms
proof (induction op s f a bs rule: linked.induct)
  case (1 op s f a)
  then show ?case by (simp add: block_fits_def)
next
  case (2 op s f a b)
  then show ?case by (auto intro!: block_fits_relink)
next
  case (3 op s f a b c bs)
  have "c \<noteq> []" using 3 by simp
  then have pos: "int (a + length b) < int (a + length (concat (b # c # bs)))" by (cases c) simp_all
  have "block_fits a (a + length (concat (b # c # bs)))
      (map (relink (if op = c_and then int (a + length b) else s) (if op = c_and then f else int (a + length b))) b)"
    using 3 pos by (intro block_fits_relink [of a "a + length b"]) auto
  then show ?case using 3 by (simp add: block_fits_append add.assoc)
qed

context insn_answers
begin

lemma relink_exit:
  assumes "q < length b" "s \<le> 0 \<or> int (a + length b) \<le> s" "f \<le> 0 \<or> int (a + length b) \<le> f"
  shows "block_exit t a (map (relink s f) b) q = relink_jump s f (block_exit t a b q)"
  using assms(2,3) blind
  by (intro block_exit_map [OF _ _ _ _ assms(1)] in_jump_relink relink_jump_pos) (auto simp: relink_def relink_jump_def)

lemma negate_exit:
  assumes "q < length b"
  shows "block_exit t a (map (negate_insn False) b) q = negate_jump (block_exit t a b q)"
proof (rule block_exit_map [OF _ _ _ _ assms])
  show "in_jump (negate_insn False i) d = negate_jump (in_jump i d)" for i d by (simp add: negate_insn_def in_jump_def)
  have "negate_insn False i = i\<lparr>in_no := negate_jump (in_no i), in_yes := negate_jump (in_yes i)\<rparr>" for i by (simp add: negate_insn_def)
  then show "t (negate_insn False i) = t i" for i using blind by simp
qed (auto simp: negate_jump_pos negate_jump_def)

text \<open>Where a linked sequence leaves: at the first block that fails, or at the first that does not.\<close>

lemma linked_step:
  assumes "b \<noteq> []" "bs \<noteq> []" "blocks_fit a (b # bs)" "s \<le> 0" "f \<le> 0"
  shows "block_exit t a (linked op s f a (b # bs)) 0 =
    (let e = relink_jump (if op = c_and then int (a + length b) else s) (if op = c_and then f else int (a + length b)) (block_exit t a b 0) in
     if e = int (a + length b) then block_exit t (a + length b) (linked op s f (a + length b) bs) 0 else e)"
proof -
  let ?s = "if op = c_and then int (a + length b) else s" and ?f = "if op = c_and then f else int (a + length b)"
  let ?r = "linked op s f (a + length b) bs" and ?b = "map (relink ?s ?f) b"
  obtain c cs where bs: "bs = c # cs" using assms(2) by (cases bs) auto
  have b: "0 < length b" "block_fits a (a + length b) b" using assms(1,3) by simp_all
  have l: "linked op s f a (b # bs) = ?b @ ?r" by (simp add: bs)
  have e: "block_exit t a ?b 0 = relink_jump ?s ?f (block_exit t a b 0)" using assms(4,5) b(1) by (intro relink_exit) auto
  have "block_exit t a b q \<le> 0" if "q < length b" for q
    using that
  proof (induction q rule: program_induct)
    case (step q)
    then show ?case using block_fitsD [OF b(2) step(1), of "t (b ! q)"]
      by (subst block_exit.simps) (auto simp: Let_def)
  qed
  then have le: "block_exit t a b 0 \<le> 0" using b(1) by blast
  have "int (a + length b) \<le> relink_jump ?s ?f (block_exit t a b 0) \<longleftrightarrow> relink_jump ?s ?f (block_exit t a b 0) = int (a + length b)"
    using le assms(4,5) b(1) by (auto simp: relink_jump_def)
  moreover have "nat (int a + int (length b)) = a + length b" by simp
  ultimately show ?thesis unfolding l
    using block_exit_append_left [of 0 ?b t a ?r] b(1) e block_exit_append_right [of 0 ?r t a ?b] by (auto simp: Let_def)
qed

lemma and_exit:
  assumes "bs \<noteq> []" "blocks_fit a bs" "\<forall>e \<in> set (exits t a bs). e = j_success \<or> e = j_failure" "s \<le> 0" "f \<le> 0"
  shows "block_exit t a (linked c_and s f a bs) 0 = (if j_failure \<in> set (exits t a bs) then f else s)"
  using assms
proof (induction bs arbitrary: a)
  case (Cons b bs)
  have e: "block_exit t a b 0 = j_success \<or> block_exit t a b 0 = j_failure" and b: "0 < length b" using Cons.prems by simp_all
  then have p: "\<not> int a + int (length b) \<le> 0" by linarith
  show ?case
  proof (cases "bs = []")
    case True
    then show ?thesis using e b relink_exit [of 0 b s a f] Cons.prems(4,5) by (auto simp: relink_jump_def)
  next
    case False
    then show ?thesis
      using e b p Cons linked_step [of b bs a s f c_and] by (auto simp: relink_jump_def Let_def)
  qed
qed simp

lemma or_exit:
  assumes "bs \<noteq> []" "blocks_fit a bs" "\<forall>e \<in> set (exits t a bs). e \<le> 0 \<and> e \<noteq> j_success" "f \<le> 0"
  shows "block_exit t a (linked c_or f f a bs) 0 =
    (case filter (\<lambda>e. e \<noteq> j_failure) (exits t a bs) of [] \<Rightarrow> f | e # _ \<Rightarrow> e)"
  using assms
proof (induction bs arbitrary: a)
  case (Cons b bs)
  have e: "block_exit t a b 0 \<le> 0" "block_exit t a b 0 \<noteq> j_success" and b: "0 < length b" using Cons.prems by simp_all
  then have p: "\<not> int a + int (length b) \<le> 0" by linarith
  show ?case
  proof (cases "bs = []")
    case True
    then show ?thesis using e b relink_exit [of 0 b f a f] Cons.prems(4) by (auto simp: relink_jump_def)
  next
    case False
    then show ?thesis
      using e b p Cons linked_step [of b bs a f f c_or] by (auto simp: relink_jump_def Let_def)
  qed
qed simp

end

section \<open>Finishing a subtree links its blocks\<close>

lemma upt_first_block: "0 < m \<Longrightarrow> [i..<i + m + k] = i # [Suc i..<i + m] @ [i + m..<i + m + k]"
  using upt_add_eq_append [of i "i + m" k] upt_conv_Cons [of i "i + m"] by simp

lemma fold_update_block:
  "fold (\<lambda>i ex. ex[i := g (ex ! i)]) [length pre..<length pre + length b] (pre @ b @ post) = pre @ map g b @ post"
proof (induction b arbitrary: pre)
  case (Cons x b)
  have "[length pre..<length pre + length (x # b)] = length pre # [length (pre @ [g x])..<length (pre @ [g x]) + length b]"
    using upt_first_block [of 1 "length pre" "length b"] by (simp del: upt_Suc)
  then show ?case using Cons.IH [of "pre @ [g x]"] by simp
qed simp

lemma fold_const_block:
  "fold (\<lambda>e tree. tree[e := c]) [length pre..<length pre + length b] (pre @ b @ post) = pre @ replicate (length b) c @ post"
proof (induction b arbitrary: pre)
  case (Cons x b)
  have "[length pre..<length pre + length (x # b)] = length pre # [length (pre @ [c])..<length (pre @ [c]) + length b]"
    using upt_first_block [of 1 "length pre" "length b"] by (simp del: upt_Suc)
  then show ?case using Cons.IH [of "pre @ [c]"] by simp
qed simp

fun starts :: "nat \<Rightarrow> insn list list \<Rightarrow> nat list" where
  "starts a [] = []"
| "starts a (b # bs) = a # starts (a + length b) bs"

definition block_marks :: "int \<Rightarrow> insn list \<Rightarrow> int list" where
  "block_marks level b = level # replicate (length b - 1) (- 1)"

lemma block_marks_length: "b \<noteq> [] \<Longrightarrow> length (block_marks level b) = length b"
  by (cases b) (simp_all add: block_marks_def)

lemma marks_length: "[] \<notin> set bs \<Longrightarrow> length (concat (map (block_marks level) bs)) = length (concat bs)"
  by (induction bs) (auto simp: block_marks_length)

lemma link_blocks:
  assumes "op \<noteq> c_ternary"
  shows "link_subtrees op s f (starts (length pre) bs) (pre @ concat bs) = pre @ linked op s f (length pre) bs"
proof (induction bs arbitrary: pre)
  case (Cons b bs)
  show ?case
  proof (cases bs)
    case Nil
    then show ?thesis using fold_update_block [of "relink s f" pre b "[]"] by (simp add: redirect_subtree_def)
  next
    case (Cons c cs)
    let ?h = "relink (if op = c_and then int (length pre + length b) else s) (if op = c_and then f else int (length pre + length b))"
    have "link_subtrees op s f (starts (length pre) (b # bs)) (pre @ concat (b # bs)) =
        link_subtrees op s f (starts (length (pre @ map ?h b)) bs) ((pre @ map ?h b) @ concat bs)"
      using assms fold_update_block [of ?h pre b "concat bs"] Cons by (cases op) (simp_all add: redirect_subtree_def)
    then show ?thesis using Cons.IH [of "pre @ map ?h b"] Cons by simp
  qed
qed simp

lemma parent_ptr_bound: "parent_ptr tree level n \<le> n"
  by (induction n) simp_all

lemma parent_ptr_le:
  assumes "\<And>p. k < p \<Longrightarrow> p \<le> n \<Longrightarrow> tree ! p < 0 \<or> level \<le> tree ! p" "k \<le> n"
  shows "parent_ptr tree level n \<le> k"
  using assms
proof (induction n)
  case (Suc n)
  then show ?case using parent_ptr_bound [of tree level "Suc n"] by (cases "k = Suc n") auto
qed simp

lemma marks_starts:
  assumes "[] \<notin> set bs" "0 \<le> level"
  shows "filter (\<lambda>p. (xs @ concat (map (block_marks level) bs)) ! p = level) [length xs..<length xs + length (concat bs)] = starts (length xs) bs"
  using assms(1)
proof (induction bs arbitrary: xs)
  case (Cons b bs)
  then obtain x c where b: "b = x # c" by (cases b) auto
  let ?m = "concat (map (block_marks level) bs)" and ?xs = "xs @ block_marks level b"
  have l: "length ?xs = length xs + length b" by (simp add: b block_marks_def)
  have "[length xs..<length xs + length (concat (b # bs))] = length xs # [Suc (length xs)..<length ?xs] @ [length ?xs..<length ?xs + length (concat bs)]"
    using upt_first_block [of "length b" "length xs" "length (concat bs)"] b unfolding l by (simp only: concat.simps length_append add.assoc list.size)
  moreover have "filter (\<lambda>p. (?xs @ ?m) ! p = level) [Suc (length xs)..<length ?xs] = []"
    using assms(2) by (auto simp: filter_empty_conv nth_append block_marks_def b nth_Cons')
  moreover have "(?xs @ ?m) ! length xs = level" by (simp add: block_marks_def nth_append)
  ultimately show ?case using Cons.IH [of ?xs] Cons.prems l by simp
qed simp

lemma starts_Suc: "map (\<lambda>p. p - 1) (starts (Suc a) bs) = starts a bs"
proof (induction bs arbitrary: a)
  case (Cons b bs)
  then show ?case using Cons.IH [of "a + length b"] by simp
qed simp

lemma children:
  assumes "[] \<notin> set bs" "0 \<le> level" "level \<notin> set pm"
  defines "tree \<equiv> level # pm @ concat (map (block_marks level) bs)"
  shows "child_subtrees tree level (length pm + length (concat bs)) = starts (length pm) bs"
proof -
  let ?n = "length pm + length (concat bs)" and ?m = "concat (map (block_marks level) bs)"
  have late: "tree ! p < 0 \<or> level \<le> tree ! p" if "length pm < p" "p \<le> ?n" for p
  proof -
    have "tree ! p = ?m ! (p - Suc (length pm))" using that(1) by (cases p) (simp_all add: tree_def nth_append)
    moreover have "p - Suc (length pm) < length ?m" using that marks_length [OF assms(1), of level] by simp
    then have "?m ! (p - Suc (length pm)) \<in> set ?m" by (rule nth_mem)
    moreover have "x = level \<or> x = - 1" if "x \<in> set ?m" for x using that by (auto simp: block_marks_def split: if_splits)
    ultimately show ?thesis by fastforce
  qed
  have ptr: "parent_ptr tree level ?n \<le> length pm" by (rule parent_ptr_le [OF late]) simp_all
  have none: "filter (\<lambda>p. tree ! p = level) [Suc (parent_ptr tree level ?n)..<Suc (length pm)] = []"
  proof (unfold filter_empty_conv, intro ballI)
    fix p
    assume p: "p \<in> set [Suc (parent_ptr tree level ?n)..<Suc (length pm)]"
    then have "0 < p" "p < Suc (length pm)" unfolding set_upt by simp_all
    then obtain q where q: "p = Suc q" "q < length pm" using gr0_conv_Suc [of p] by auto
    then have "tree ! p = pm ! q" by (simp add: tree_def nth_append)
    moreover have "pm ! q \<in> set pm" using q(2) by (rule nth_mem)
    ultimately show "tree ! p \<noteq> level" using assms(3) by metis
  qed
  have "[Suc (parent_ptr tree level ?n)..<Suc ?n] = [Suc (parent_ptr tree level ?n)..<Suc (length pm)] @ [Suc (length pm)..<Suc ?n]"
    using upt_add_eq_append [of "Suc (parent_ptr tree level ?n)" "Suc (length pm)" "length (concat bs)"] ptr by (simp only: Suc_le_mono add_Suc)
  then have "filter (\<lambda>p. tree ! p = level) [Suc (parent_ptr tree level ?n)..<Suc ?n] = filter (\<lambda>p. tree ! p = level) [Suc (length pm)..<Suc ?n]"
    using none by (simp only: filter_append append_Nil)
  also have "\<dots> = starts (Suc (length pm)) bs" using marks_starts [OF assms(1,2), of "level # pm"] by (simp add: tree_def del: upt_Suc)
  finally show ?thesis by (simp only: child_subtrees_def starts_Suc)
qed

lemma finish_blocks:
  assumes "pr_insn prog = pre @ concat bs" "bs \<noteq> []" "[] \<notin> set bs" "length pm = length pre" "level \<notin> set pm" "0 \<le> level" "op \<noteq> c_ternary"
  shows "finish_subtree op s f (prog, level # pm @ concat (map (block_marks level) bs)) =
    (prog\<lparr>pr_insn := pre @ linked op s f (length pre) bs\<rparr>, (level - 1) # pm @ block_marks (level - 1) (concat bs))"
proof -
  obtain b cs where bs: "bs = b # cs" using assms(2) by (cases bs) auto
  let ?m = "concat (map (block_marks level) bs)"
  obtain rest where m: "?m = level # rest" by (simp add: bs block_marks_def)
  have rest: "Suc (length rest) = length (concat bs)" using marks_length [OF assms(3), of level] unfolding m by simp
  have kids: "child_subtrees (level # pm @ ?m) level (length pre + length (concat bs)) = length pre # starts (length pre + length b) cs"
    using children [OF assms(3,6,5)] assms(4) by (simp add: bs)
  have "(level # pm @ ?m)[length pre + 1 := level - 1] = (level # pm @ [level - 1]) @ rest @ []" unfolding m using assms(4) by (simp add: list_update_append)
  then have "fold (\<lambda>e tree. tree[e := - 1]) [length pre + 2..<length pre + length (concat bs) + 1] ((level # pm @ ?m)[length pre + 1 := level - 1]) =
      (level # pm @ [level - 1]) @ replicate (length rest) (- 1) @ []"
    using fold_const_block [of "- 1" "level # pm @ [level - 1]" rest "[]"] rest [symmetric] assms(4) by (simp add: numeral_2_eq_2 del: upt_Suc)
  moreover have "block_marks (level - 1) (concat bs) = (level - 1) # replicate (length rest) (- 1)" using rest by (simp add: block_marks_def)
  moreover have "link_subtrees op s f (length pre # starts (length pre + length b) cs) (pre @ concat bs) = pre @ linked op s f (length pre) bs"
    using link_blocks [OF assms(7), of s f pre bs] by (simp add: bs)
  ultimately show ?thesis using kids by (simp add: finish_subtree_def Let_def assms(1) del: upt_Suc)
qed

section \<open>The instructions of a clause\<close>

definition with_byte :: "nat \<Rightarrow> u8 \<Rightarrow> u8 \<Rightarrow> insn \<Rightarrow> insn" where
  "with_byte k v m i = i\<lparr>in_mask := put_byte k m (in_mask i), in_value := put_byte k (v AND m) (in_value i)\<rparr>"

fun more_words :: "insn \<Rightarrow> int \<Rightarrow> (u8 \<times> u8) list \<Rightarrow> insn list" where
  "more_words i offset [] = [i]"
| "more_words i offset ((v, m) # bs) =
     (if offset mod 4 = 0 then i # more_words (with_byte 0 v m (new_insn offset 0 0)) (offset + 1) bs
      else more_words (with_byte (nat (offset mod 4)) v m i) (offset + 1) bs)"

fun clause_words :: "int \<Rightarrow> (u8 \<times> u8) list \<Rightarrow> insn list" where
  "clause_words offset [] = []"
| "clause_words offset ((v, m) # bs) =
     more_words (with_byte (nat (offset mod 4)) v m (new_insn (offset div 4 * 4) 0 0)) (offset + 1) bs"

lemma set_back_byte_last:
  "set_back_byte k v m (prog\<lparr>pr_insn := ex @ [i], pr_output_everything := oe\<rparr>, tree) =
     (prog\<lparr>pr_insn := ex @ [with_byte k v m i], pr_output_everything := oe\<rparr>, tree)"
  by (simp add: set_back_byte_def with_byte_def Let_def)

lemma add_insn_tree: "tree \<noteq> [] \<Longrightarrow> add_insn off v m (prog\<lparr>pr_insn := ex, pr_output_everything := oe\<rparr>, tree) =
    (prog\<lparr>pr_insn := ex @ [new_insn off v m], pr_output_everything := - 1\<rparr>, tree @ [hd tree])"
  by (cases tree) (simp_all add: add_insn_def)

lemma div_mult_mod_0: "offset mod 4 = 0 \<Longrightarrow> offset div 4 * 4 = offset" for offset :: int
  by (metis add.right_neutral mult_div_mod_eq mult.commute)

lemma more_words_length: "0 < length (more_words i offset bs)"
  by (induction i offset bs rule: more_words.induct) simp_all

lemma add_bytes_more:
  "tree \<noteq> [] \<Longrightarrow> add_bytes False offset bs (prog\<lparr>pr_insn := ex @ [i], pr_output_everything := - 1\<rparr>, tree) =
     (prog\<lparr>pr_insn := ex @ more_words i offset bs, pr_output_everything := - 1\<rparr>, tree @ replicate (length (more_words i offset bs) - 1) (hd tree))"
proof (induction bs arbitrary: i offset ex tree)
  case (Cons vm bs)
  obtain v m where vm: "vm = (v, m)" by (cases vm)
  show ?case
  proof (cases "offset mod 4 = 0")
    case True
    let ?i = "with_byte 0 v m (new_insn offset 0 0)"
    obtain n where n: "length (more_words ?i (offset + 1) bs) = Suc n" using more_words_length gr0_conv_Suc by blast
    have "add_bytes False offset (vm # bs) (prog\<lparr>pr_insn := ex @ [i], pr_output_everything := - 1\<rparr>, tree) =
        add_bytes False (offset + 1) bs (prog\<lparr>pr_insn := (ex @ [i]) @ [?i], pr_output_everything := - 1\<rparr>, tree @ [hd tree])"
      using True Cons.prems by (simp add: vm add_insn_tree set_back_byte_last [of _ _ _ _ "ex @ [i]", simplified] div_mult_mod_0)
    then show ?thesis using Cons.IH [of "tree @ [hd tree]" "offset + 1" "ex @ [i]" ?i] Cons.prems True n by (simp add: vm)
  next
    case False
    then show ?thesis using Cons by (simp add: vm set_back_byte_last)
  qed
qed simp

lemma add_bytes_clause:
  assumes "bs \<noteq> []" "tree \<noteq> []"
  shows "add_bytes True offset bs (prog\<lparr>pr_insn := ex, pr_output_everything := oe\<rparr>, tree) =
    (prog\<lparr>pr_insn := ex @ clause_words offset bs, pr_output_everything := - 1\<rparr>, tree @ replicate (length (clause_words offset bs)) (hd tree))"
proof -
  obtain v m cs where bs: "bs = (v, m) # cs" using assms(1) by (cases bs) auto
  let ?i = "with_byte (nat (offset mod 4)) v m (new_insn (offset div 4 * 4) 0 0)"
  obtain n where n: "length (more_words ?i (offset + 1) cs) = Suc n" using more_words_length gr0_conv_Suc by blast
  show ?thesis
    using add_bytes_more [of "tree @ [hd tree]" "offset + 1" cs ex ?i prog] assms(2) n
    by (simp add: bs add_insn_tree set_back_byte_last)
qed

text \<open>What a clause, a slot and all slots add.\<close>

definition clause_insns :: "u32 \<Rightarrow> clause \<Rightarrow> insn list" where
  "clause_insns al c = clause_words (cl_offset c + uint al) (clause_bytes (cl_value c) (cl_mask c))"

definition clause_code :: "u32 \<Rightarrow> nat \<Rightarrow> clause \<Rightarrow> insn list" where
  "clause_code al a c =
     (let b = linked c_and j_success j_failure a (map (\<lambda>i. [i]) (clause_insns al c)) in
      if cl_negated c then map (negate_insn False) b else b)"

definition clause_valid :: "clause \<Rightarrow> bool" where "clause_valid c \<longleftrightarrow> clause_bytes (cl_value c) (cl_mask c) \<noteq> []"

lemma clause_insns_length: "clause_valid c \<Longrightarrow> 0 < length (clause_insns al c)"
  using more_words_length by (cases "clause_bytes (cl_value c) (cl_mask c)") (auto simp: clause_valid_def clause_insns_def)

lemma concat_singles [simp]: "concat (map (\<lambda>i. [i]) xs) = xs" "concat (map (block_marks level \<circ> (\<lambda>i. [i])) xs) = replicate (length xs) level"
  by (induction xs) (simp_all add: block_marks_def)

lemma update_order: "prog\<lparr>pr_output_everything := oe, pr_insn := ex\<rparr> = prog\<lparr>pr_insn := ex, pr_output_everything := oe\<rparr>"
  by simp

lemma last_subtree_skip:
  "last_subtree (x # pm @ block_marks level b) level (length pm + length b) = Some (length pm)" if "b \<noteq> []" "0 \<le> level"
proof -
  have "last_subtree (x # pm @ block_marks level b) level (length pm + Suc k) = Some (length pm)" if "k < length b" for k
    using that
  proof (induction k)
    case 0
    then show ?case by (simp add: block_marks_def nth_append)
  next
    case (Suc k)
    then have "(x # pm @ block_marks level b) ! Suc (length pm + Suc k) = - 1"
      by (simp add: block_marks_def nth_append)
    then show ?case using Suc \<open>0 \<le> level\<close> by simp
  qed
  from this [of "length b - 1"] show ?thesis using \<open>b \<noteq> []\<close> by (cases b) simp_all
qed

lemma clause_code_length: "length (clause_code al a c) = length (clause_insns al c)"
  by (simp add: clause_code_def Let_def)

lemma add_clause_eq:
  assumes "clause_valid c" "length pm = length ex" "3 \<notin> set pm"
  shows "add_clause c (prog\<lparr>pr_insn := ex, pr_output_everything := oe\<rparr>, 2 # pm) =
    (prog\<lparr>pr_insn := ex @ clause_code (pr_align_offset prog) (length ex) c, pr_output_everything := - 1\<rparr>,
     2 # pm @ block_marks 2 (clause_code (pr_align_offset prog) (length ex) c))"
proof -
  let ?al = "pr_align_offset prog"
  let ?ws = "clause_insns ?al c" and ?b = "linked c_and j_success j_failure (length ex) (map (\<lambda>i. [i]) (clause_insns (pr_align_offset prog) c))"
  have ws: "?ws \<noteq> []" using clause_insns_length [OF assms(1), of ?al] by auto
  have "add_bytes True (cl_offset c + uint ?al) (clause_bytes (cl_value c) (cl_mask c)) (prog\<lparr>pr_insn := ex, pr_output_everything := oe\<rparr>, start_subtree (2 # pm)) =
      (prog\<lparr>pr_insn := ex @ ?ws, pr_output_everything := - 1\<rparr>, 3 # pm @ replicate (length ?ws) 3)"
    using add_bytes_clause [of "clause_bytes (cl_value c) (cl_mask c)" "3 # pm"] assms(1)
    by (simp add: start_subtree_def clause_insns_def clause_valid_def)
  then have "finish_subtree c_and j_success j_failure
      (add_bytes True (cl_offset c + uint ?al) (clause_bytes (cl_value c) (cl_mask c)) (prog\<lparr>pr_insn := ex, pr_output_everything := oe\<rparr>, start_subtree (2 # pm))) =
      (prog\<lparr>pr_insn := ex @ ?b, pr_output_everything := - 1\<rparr>, 2 # pm @ block_marks 2 ?ws)"
    using finish_blocks [of "prog\<lparr>pr_insn := ex @ ?ws, pr_output_everything := - 1\<rparr>" ex "map (\<lambda>i. [i]) ?ws" pm 3 c_and j_success j_failure] assms ws
    by (auto simp: update_order)
  moreover have "block_marks 2 (clause_code ?al (length ex) c) = block_marks 2 ?ws" by (simp add: block_marks_def clause_code_length)
  moreover have "negate_subtree False (prog\<lparr>pr_insn := ex @ ?b, pr_output_everything := - 1\<rparr>, 2 # pm @ block_marks 2 ?ws) =
      (prog\<lparr>pr_insn := ex @ map (negate_insn False) ?b, pr_output_everything := - 1\<rparr>, 2 # pm @ block_marks 2 ?ws)"
    using last_subtree_skip [of ?ws 2 2 pm] ws fold_update_block [of "negate_insn False" ex ?b "[]"] assms(2) by (simp add: negate_subtree_def)
  ultimately show ?thesis by (simp add: add_clause_def Let_def clause_code_def)
qed

fun clause_codes :: "u32 \<Rightarrow> nat \<Rightarrow> clause list \<Rightarrow> insn list list" where
  "clause_codes al a [] = []"
| "clause_codes al a (c # cs) = clause_code al a c # clause_codes al (a + length (clause_code al a c)) cs"

definition slot_blocks :: "u32 \<Rightarrow> nat \<Rightarrow> clause list \<Rightarrow> insn list list" where
  "slot_blocks al a cs = (if cs = [] then [[new_insn 0 0 0]] else clause_codes al a cs)"

definition slot_code :: "u32 \<Rightarrow> nat \<Rightarrow> nat \<Rightarrow> clause list \<Rightarrow> insn list" where
  "slot_code al a slot cs = linked c_and (- int slot) j_failure a (slot_blocks al a cs)"

fun slot_codes :: "u32 \<Rightarrow> nat \<Rightarrow> nat \<Rightarrow> clause list list \<Rightarrow> insn list list" where
  "slot_codes al a slot [] = []"
| "slot_codes al a slot (cs # css) = slot_code al a slot cs # slot_codes al (a + length (slot_code al a slot cs)) (Suc slot) css"

definition slot_valid :: "clause list \<Rightarrow> bool" where "slot_valid cs \<longleftrightarrow> (\<forall>c \<in> set cs. clause_valid c)"

lemma clause_code_nonempty: "clause_valid c \<Longrightarrow> clause_code al a c \<noteq> []"
  using clause_insns_length [of c al] clause_code_length [of al a c] by auto

lemma slot_blocks_nonempty: "slot_valid cs \<Longrightarrow> [] \<notin> set (slot_blocks al a cs) \<and> slot_blocks al a cs \<noteq> []"
proof -
  have "[] \<notin> set (clause_codes al a cs)" if "\<forall>c \<in> set cs. clause_valid c" for a
    using that by (induction cs arbitrary: a) (auto simp: clause_code_nonempty [THEN not_sym])
  then show "slot_valid cs \<Longrightarrow> [] \<notin> set (slot_blocks al a cs) \<and> slot_blocks al a cs \<noteq> []"
    by (cases cs) (auto simp: slot_blocks_def slot_valid_def)
qed

lemma fold_clauses:
  assumes "\<forall>c \<in> set cs. clause_valid c" "length pm = length ex" "3 \<notin> set pm"
  shows "fold add_clause cs (prog\<lparr>pr_insn := ex, pr_output_everything := oe\<rparr>, 2 # pm) =
    (prog\<lparr>pr_insn := ex @ concat (clause_codes (pr_align_offset prog) (length ex) cs), pr_output_everything := (if cs = [] then oe else - 1)\<rparr>,
     2 # pm @ concat (map (block_marks 2) (clause_codes (pr_align_offset prog) (length ex) cs)))"
  using assms
proof (induction cs arbitrary: ex pm oe)
  case (Cons c cs)
  let ?b = "clause_code (pr_align_offset prog) (length ex) c"
  have "?b \<noteq> []" using Cons.prems(1) clause_code_nonempty by simp
  then have "length (pm @ block_marks 2 ?b) = length (ex @ ?b)" using Cons.prems(2) by (simp add: block_marks_length)
  moreover have "3 \<notin> set (pm @ block_marks 2 ?b)" using Cons.prems(3) by (auto simp: block_marks_def)
  ultimately show ?case
    using Cons.IH [of "pm @ block_marks 2 ?b" "ex @ ?b" "- 1"] Cons.prems by (simp add: add_clause_eq)
qed simp

lemma add_slot_eq:
  assumes "slot_valid cs" "length pm = length ex" "set pm \<subseteq> {- 1, 1}"
  shows "add_slot slot cs (prog\<lparr>pr_insn := ex, pr_output_everything := oe\<rparr>, 1 # pm) =
    (prog\<lparr>pr_insn := ex @ slot_code (pr_align_offset prog) (length ex) slot cs, pr_output_everything := - 1\<rparr>,
     1 # pm @ block_marks 1 (slot_code (pr_align_offset prog) (length ex) slot cs))"
proof -
  let ?al = "pr_align_offset prog"
  let ?bs = "slot_blocks ?al (length ex) cs"
  have "3 \<notin> set pm" "2 \<notin> set pm" using assms(3) by auto
  note codes = fold_clauses [OF _ assms(2) this(1)]
  have "(if cs = [] then add_insn 0 0 0 (fold add_clause cs (prog\<lparr>pr_insn := ex, pr_output_everything := oe\<rparr>, 2 # pm))
      else fold add_clause cs (prog\<lparr>pr_insn := ex, pr_output_everything := oe\<rparr>, 2 # pm)) =
      (prog\<lparr>pr_insn := ex @ concat ?bs, pr_output_everything := - 1\<rparr>, 2 # pm @ concat (map (block_marks 2) ?bs))"
    using codes assms(1) by (cases "cs = []") (simp_all add: slot_blocks_def slot_valid_def add_insn_def block_marks_def)
  moreover have "finish_subtree c_and (- int slot) j_failure (prog\<lparr>pr_insn := ex @ concat ?bs, pr_output_everything := - 1\<rparr>, 2 # pm @ concat (map (block_marks 2) ?bs)) =
      (prog\<lparr>pr_insn := ex @ slot_code ?al (length ex) slot cs, pr_output_everything := - 1\<rparr>, 1 # pm @ block_marks 1 (concat ?bs))"
    using finish_blocks [of "prog\<lparr>pr_insn := ex @ concat ?bs, pr_output_everything := - 1\<rparr>" ex ?bs pm 2 c_and "- int slot" j_failure]
      slot_blocks_nonempty [OF assms(1), of ?al "length ex"] assms(2) \<open>2 \<notin> set pm\<close> by (simp add: update_order slot_code_def)
  moreover have "block_marks 1 (concat ?bs) = block_marks 1 (slot_code ?al (length ex) slot cs)" by (simp add: block_marks_def slot_code_def)
  moreover have "start_subtree (1 # pm) = 2 # pm" by (simp add: start_subtree_def)
  ultimately show ?thesis by (simp only: add_slot_def prod.case Let_def)
qed

lemma slot_code_nonempty: "slot_valid cs \<Longrightarrow> slot_code al a slot cs \<noteq> []"
proof -
  assume "slot_valid cs"
  then obtain b bs where "slot_blocks al a cs = b # bs" "b \<noteq> []" using slot_blocks_nonempty [of cs al a] by (cases "slot_blocks al a cs") auto
  then have "0 < length (slot_code al a slot cs)" by (simp add: slot_code_def)
  then show ?thesis by simp
qed

lemma add_slots_eq:
  assumes "\<forall>cs \<in> set css. slot_valid cs" "length pm = length ex" "set pm \<subseteq> {- 1, 1}" "css \<noteq> []"
  shows "add_slots slot css (prog\<lparr>pr_insn := ex, pr_output_everything := oe\<rparr>, 1 # pm) =
    (prog\<lparr>pr_insn := ex @ concat (slot_codes (pr_align_offset prog) (length ex) slot css), pr_output_everything := - 1\<rparr>,
     1 # pm @ concat (map (block_marks 1) (slot_codes (pr_align_offset prog) (length ex) slot css)))"
  using assms
proof (induction css arbitrary: slot ex pm oe)
  case (Cons cs css)
  let ?b = "slot_code (pr_align_offset prog) (length ex) slot cs"
  have "?b \<noteq> []" using Cons.prems(1) slot_code_nonempty by simp
  then have "length (pm @ block_marks 1 ?b) = length (ex @ ?b)" using Cons.prems(2) by (simp add: block_marks_length)
  moreover have "set (pm @ block_marks 1 ?b) \<subseteq> {- 1, 1}" using Cons.prems(3) by (auto simp: block_marks_def)
  ultimately show ?case
    using Cons.IH [of "pm @ block_marks 1 ?b" "ex @ ?b" "Suc slot" "- 1"] Cons.prems by (cases "css = []") (simp_all add: add_slot_eq)
qed simp

lemma build_program_eq:
  assumes "\<forall>cs \<in> set css. slot_valid cs" "css \<noteq> []"
  shows "build_program al css = (new_program al)\<lparr>pr_insn := linked c_or j_never j_never 0 (slot_codes al 0 0 css), pr_output_everything := - 1\<rparr>"
proof -
  let ?p = "new_program al" and ?bs = "slot_codes al 0 0 css"
  have p: "?p = ?p\<lparr>pr_insn := [], pr_output_everything := - j_never\<rparr>" "pr_align_offset ?p = al" by (simp_all add: new_program_def)
  have "[] \<notin> set (slot_codes al a slot css)" for a slot
    using assms(1) by (induction css arbitrary: a slot) (auto simp: slot_code_nonempty [THEN not_sym])
  moreover have "?bs \<noteq> []" using assms(2) by (cases css) simp_all
  moreover have "start_subtree (init_subtree ?p) = [1]" by (simp add: start_subtree_def init_subtree_def new_program_def)
  ultimately show ?thesis
    using add_slots_eq [of css "[]" "[]" 0 "- j_never" ?p] assms p
      finish_blocks [of "?p\<lparr>pr_insn := concat ?bs, pr_output_everything := - 1\<rparr>" "[]" ?bs "[]" 1 c_or j_never j_never]
    by (simp add: build_program_def Let_def update_order)
qed

section \<open>What the instructions of a clause test\<close>

lemma bit_put_byte:
  assumes "n < 32" "k < 4"
  shows "bit (put_byte k b w) n \<longleftrightarrow> (if n div 8 = k then bit b (n mod 8) else bit w n)"
proof (cases "n div 8 = k")
  case True
  then have n: "n = 8 * k + n mod 8" "n mod 8 < 8" by auto
  have "bit (0xFF :: u32) (n mod 8)"
  proof -
    have "(0xFF :: u32) = mask 8" by (simp add: mask_eq_exp_minus_1)
    then show ?thesis using n(2) by (simp only: bit_mask_iff) simp
  qed
  moreover have "n - 8 * k = n mod 8" "8 * k \<le> n" using n(1) by linarith+
  ultimately show ?thesis using True assms(1) by (simp add: put_byte_def bit_simps)
next
  case False
  have ff: "\<not> bit (0xFF :: u32) m" if "8 \<le> m" for m
  proof -
    have "(0xFF :: u32) = mask 8" by (simp add: mask_eq_exp_minus_1)
    then show ?thesis using that by (simp only: bit_mask_iff) simp
  qed
  have "8 * k \<le> n \<Longrightarrow> 8 \<le> n - 8 * k" using False by linarith
  then show ?thesis using False assms(1) ff [of "n - 8 * k"] by (auto simp: put_byte_def bit_simps dest: bit_imp_le_length)
qed

definition clause_word :: "insn \<Rightarrow> bool" where
  "clause_word i \<longleftrightarrow> in_no i = j_failure \<and> in_yes i = j_success \<and> \<not> in_short i \<and> in_value i AND in_mask i = in_value i"

lemma clause_word_with_byte:
  assumes "clause_word i" "k < 4"
  shows "clause_word (with_byte k v m i)"
proof -
  have "put_byte k (v AND m) (in_value i) AND put_byte k m (in_mask i) = put_byte k (v AND m) (in_value i)"
  proof (rule bit_word_eqI)
    fix n assume n: "n < LENGTH(32)"
    have "bit (in_value i) n \<Longrightarrow> bit (in_mask i) n"
      using assms(1) unfolding clause_word_def by (metis bit_and_iff)
    then show "bit (put_byte k (v AND m) (in_value i) AND put_byte k m (in_mask i)) n = bit (put_byte k (v AND m) (in_value i)) n"
      using n assms(2) by (auto simp: bit_and_iff bit_put_byte)
  qed
  then show ?thesis using assms(1) by (simp add: clause_word_def with_byte_def)
qed

lemma clause_word_new: "clause_word (new_insn off 0 0)"
  by (simp add: clause_word_def new_insn_def)

lemma nat_mod_4: "nat (x mod 4) < 4" for x :: int
  by (simp add: nat_less_iff)

lemma clause_words_word: "i \<in> set (clause_words offset bs) \<Longrightarrow> clause_word i"
proof -
  have more: "\<forall>j \<in> set (more_words i offset bs). clause_word j" if "clause_word i" for i offset bs
    using that by (induction i offset bs rule: more_words.induct) (auto simp: clause_word_with_byte clause_word_new nat_mod_4)
  show "i \<in> set (clause_words offset bs) \<Longrightarrow> clause_word i"
    using more [OF clause_word_with_byte [OF clause_word_new nat_mod_4]] by (cases "(offset, bs)" rule: clause_words.cases) auto
qed

lemma single_fits: "clause_word i \<Longrightarrow> block_fits a (a + 1) [i]"
  by (simp add: block_fits_def clause_word_def in_jump_def)

lemma singles_fit: "\<forall>i \<in> set ws. clause_word i \<Longrightarrow> blocks_fit a (map (\<lambda>i. [i]) ws)"
proof (induction ws arbitrary: a)
  case (Cons w ws)
  then show ?case using single_fits [of w a] by simp
qed simp

lemma in_jump_negate: "in_jump (negate_insn False i) d = negate_jump (in_jump i d)"
  by (simp add: negate_insn_def in_jump_def)

lemma block_fits_negate:
  assumes "block_fits a lim b"
  shows "block_fits a lim (map (negate_insn False) b)"
  unfolding block_fits_def length_map
proof (intro allI impI conjI)
  fix q d
  assume q: "q < length b"
  show "in_jump (map (negate_insn False) b ! q) d \<le> 0
      \<or> int (a + q) < in_jump (map (negate_insn False) b ! q) d \<and> in_jump (map (negate_insn False) b ! q) d < int lim"
    using block_fitsD [OF assms q, of d] q by (auto simp: in_jump_negate negate_jump_def)
  show "in_value (map (negate_insn False) b ! q) AND in_mask (map (negate_insn False) b ! q) = in_value (map (negate_insn False) b ! q)"
    using assms q by (simp add: block_fits_def negate_insn_def)
qed

lemma clause_code_fits:
  assumes "clause_valid c"
  shows "block_fits a (a + length (clause_code al a c)) (clause_code al a c)"
proof -
  let ?ws = "clause_insns al c"
  have "blocks_fit a (map (\<lambda>i. [i]) ?ws)" using clause_words_word by (intro singles_fit) (auto simp: clause_insns_def)
  then have "block_fits a (a + length ?ws) (linked c_and j_success j_failure a (map (\<lambda>i. [i]) ?ws))"
    using linked_fits [of a "map (\<lambda>i. [i]) ?ws" j_success j_failure c_and] by simp
  then show ?thesis using block_fits_negate by (simp add: clause_code_def Let_def)
qed

lemma slot_blocks_fit:
  assumes "slot_valid cs"
  shows "blocks_fit a (slot_blocks al a cs)"
proof -
  have "blocks_fit a (clause_codes al a cs)" if "\<forall>c \<in> set cs. clause_valid c" for a
    using that by (induction cs arbitrary: a) (auto simp: clause_code_nonempty clause_code_fits)
  then show ?thesis using assms single_fits [OF clause_word_new, of a 0] by (simp add: slot_blocks_def slot_valid_def)
qed

lemma slot_codes_fit:
  assumes "\<forall>cs \<in> set css. slot_valid cs"
  shows "blocks_fit a (slot_codes al a slot css)"
  using assms
proof (induction css arbitrary: a slot)
  case (Cons cs css)
  then have "block_fits a (a + length (slot_code al a slot cs)) (slot_code al a slot cs)"
    using linked_fits [OF slot_blocks_fit [of cs a al], of "- int slot" j_failure c_and] by (simp add: slot_code_def)
  then show ?case using Cons slot_code_nonempty by simp
qed simp

section \<open>Where a packet leaves\<close>

text \<open>A clause holds if all its instructions do, and the other way round if it is negated; a pattern if all its clauses do.\<close>

definition clause_holds :: "(insn \<Rightarrow> bool) \<Rightarrow> u32 \<Rightarrow> clause \<Rightarrow> bool" where
  "clause_holds t al c \<longleftrightarrow> list_all t (clause_insns al c) \<noteq> cl_negated c"

definition first_slot :: "(clause \<Rightarrow> bool) \<Rightarrow> nat \<Rightarrow> clause list list \<Rightarrow> nat option" where
  "first_slot h slot css = map_option fst (find (\<lambda>(slot, cs). list_all h cs) (zip [slot..<slot + length css] css))"

lemma first_slot_simps [simp]:
  "first_slot h slot [] = None"
  "first_slot h slot (cs # css) = (if list_all h cs then Some slot else first_slot h (Suc slot) css)"
  by (simp_all add: first_slot_def upt_conv_Cons del: upt_Suc)

lemma block_exit_single: "in_jump i d \<le> 0 \<Longrightarrow> t i = d \<Longrightarrow> block_exit t a [i] 0 = in_jump i d"
  by (subst block_exit.simps) (simp add: Let_def)

lemma exits_singles:
  "\<forall>i \<in> set ws. clause_word i \<Longrightarrow> exits t a (map (\<lambda>i. [i]) ws) = map (\<lambda>i. if t i then j_success else j_failure) ws"
proof (induction ws arbitrary: a)
  case (Cons w ws)
  then have "block_exit t a [w] 0 = (if t w then j_success else j_failure)"
    using block_exit_single [of w "t w" t a] by (simp add: clause_word_def in_jump_def)
  then show ?case using Cons by simp
qed simp

context insn_answers
begin

lemma clause_exit:
  assumes "clause_valid c"
  shows "block_exit t a (clause_code al a c) 0 = (if clause_holds t al c then j_success else j_failure)"
proof -
  let ?ws = "clause_insns al c" and ?b = "linked c_and j_success j_failure a (map (\<lambda>i. [i]) (clause_insns al c))"
  have word: "\<forall>i \<in> set ?ws. clause_word i" using clause_words_word by (auto simp: clause_insns_def)
  have ne: "?ws \<noteq> []" using clause_insns_length [OF assms, of al] by auto
  have "block_exit t a ?b 0 = (if j_failure \<in> set (exits t a (map (\<lambda>i. [i]) ?ws)) then j_failure else j_success)"
    using ne exits_singles [OF word, of t a] by (intro and_exit singles_fit [OF word]) auto
  also have "\<dots> = (if list_all t ?ws then j_success else j_failure)"
    by (auto simp: exits_singles [OF word] list_all_iff)
  finally show ?thesis
    using negate_exit [of 0 ?b a] ne by (simp add: clause_code_def clause_holds_def Let_def negate_jump_def)
qed

lemma slot_exit:
  assumes "slot_valid cs"
  shows "block_exit t a (slot_code al a slot cs) 0 = (if list_all (clause_holds t al) cs then - int slot else j_failure)"
proof (cases "cs = []")
  case True
  have "t (relink (- int slot) j_failure (new_insn 0 0 0))" using empty_mask by (simp add: new_insn_def relink_def)
  then show ?thesis
    using True block_exit_single [of "relink (- int slot) j_failure (new_insn 0 0 0)" True t a]
    by (simp add: slot_code_def slot_blocks_def in_jump_relink relink_jump_def) (simp add: in_jump_def new_insn_def)
next
  case False
  have ex: "exits t a (clause_codes al a cs) = map (\<lambda>c. if clause_holds t al c then j_success else j_failure) cs" for a
    using assms unfolding slot_valid_def by (induction cs arbitrary: a) (simp_all add: clause_exit)
  have "block_exit t a (slot_code al a slot cs) 0 = (if j_failure \<in> set (exits t a (slot_blocks al a cs)) then j_failure else - int slot)"
    unfolding slot_code_def using slot_blocks_nonempty [OF assms, of al a] False
    by (intro and_exit slot_blocks_fit [OF assms]) (auto simp: slot_blocks_def ex)
  then show ?thesis using False by (auto simp: slot_blocks_def ex list_all_iff)
qed

lemma program_exit_slots:
  assumes "\<forall>cs \<in> set css. slot_valid cs" "css \<noteq> []" "length css < 2147483645"
  shows "deliver t (pr_insn (build_program al css)) 0 =
    Some (case first_slot (clause_holds t al) 0 css of Some slot \<Rightarrow> int slot | None \<Rightarrow> - j_never)"
proof -
  let ?bs = "slot_codes al 0 0 css" and ?h = "clause_holds t al"
  have ex: "exits t a (slot_codes al a slot css) =
      map (\<lambda>(slot, cs). if list_all ?h cs then - int slot else j_failure) (zip [slot..<slot + length css] css)" for a slot
    using assms(1) by (induction css arbitrary: a slot) (simp_all add: slot_exit upt_conv_Cons del: upt_Suc)
  have large: "- int slot \<noteq> j_failure \<and> - int slot \<noteq> j_success" if "slot < 2147483645" for slot
    using that by (simp add: j_failure_def j_success_def j_never_def)
  have first: "(case filter (\<lambda>e. e \<noteq> j_failure) (exits t a (slot_codes al a slot css)) of [] \<Rightarrow> j_never | e # _ \<Rightarrow> e) =
      - (case first_slot ?h slot css of Some slot \<Rightarrow> int slot | None \<Rightarrow> - j_never)" if "slot + length css < 2147483645" for a slot
    using that assms(1)
    by (induction css arbitrary: a slot) (simp_all add: slot_exit large)
  have fit: "blocks_fit 0 ?bs" by (rule slot_codes_fit [OF assms(1)])
  have ne: "?bs \<noteq> []" using assms(2) by (cases css) simp_all
  have "\<forall>e \<in> set (exits t 0 ?bs). e \<le> 0 \<and> e \<noteq> j_success" using assms(3) large by (auto simp: ex set_zip)
  from or_exit [OF ne fit this, of j_never] first [of 0 0] assms(3)
  have exit: "block_exit t 0 (linked c_or j_never j_never 0 ?bs) 0 = - (case first_slot ?h 0 css of Some slot \<Rightarrow> int slot | None \<Rightarrow> - j_never)"
    by simp
  have "block_fits 0 (length (linked c_or j_never j_never 0 ?bs)) (linked c_or j_never j_never 0 ?bs)"
    using linked_fits [OF fit, of j_never j_never c_or] by simp
  moreover have "0 < length (concat ?bs)" using fit ne by (cases ?bs) simp_all
  ultimately show ?thesis
    using program_exit [of "linked c_or j_never j_never 0 ?bs" 0 t] exit by (simp add: build_program_eq [OF assms(1,2)])
qed

end

section \<open>Bytes\<close>

text \<open>
  What a pattern says about the bytes of a packet: a byte whose mask is not empty has to be there and to agree with the value where
  the mask looks.
\<close>

definition byte_matches :: "bytes \<Rightarrow> nat \<Rightarrow> u8 \<times> u8 \<Rightarrow> bool" where
  "byte_matches d k vm \<longleftrightarrow> snd vm = 0 \<or> k < length d \<and> d ! k AND snd vm = fst vm AND snd vm"

fun bytes_match :: "bytes \<Rightarrow> nat \<Rightarrow> (u8 \<times> u8) list \<Rightarrow> bool" where
  "bytes_match d k [] \<longleftrightarrow> True"
| "bytes_match d k (vm # bs) \<longleftrightarrow> byte_matches d k vm \<and> bytes_match d (Suc k) bs"

definition clause_matches :: "bytes \<Rightarrow> clause \<Rightarrow> bool" where
  "clause_matches d c \<longleftrightarrow> bytes_match d (nat (cl_offset c)) (clause_bytes (cl_value c) (cl_mask c)) \<noteq> cl_negated c"

definition byte_at :: "nat \<Rightarrow> u32 \<Rightarrow> u8" where "byte_at k w = ucast (drop_bit (8 * k) w)"

lemma bit_byte_at: "n < 8 \<Longrightarrow> bit (byte_at k w) n \<longleftrightarrow> bit w (8 * k + n)"
  by (simp add: byte_at_def bit_simps)

lemma byte_at_put_byte:
  assumes "k < 4" "l < 4"
  shows "byte_at k (put_byte l b w) = (if k = l then b else byte_at k w)"
proof (rule bit_word_eqI)
  fix n
  assume "n < LENGTH(8)"
  then have n: "n < 8" by simp
  then have "(8 * k + n) div 8 = k" "(8 * k + n) mod 8 = n" "8 * k + n < 32" using assms(1) by auto
  then show "bit (byte_at k (put_byte l b w)) n = bit (if k = l then b else byte_at k w) n"
    using n assms(2) by (simp add: bit_byte_at bit_put_byte)
qed

lemma byte_at_0 [simp]: "byte_at k 0 = 0"
  by (simp add: byte_at_def)

lemma byte_at_mask: "byte_at k m = 0 \<longleftrightarrow> mask_byte m k = 0"
proof -
  have "byte_at k m = 0 \<longleftrightarrow> (\<forall>n < 8. \<not> bit m (8 * k + n))"
    by (auto simp: bit_eq_iff bit_byte_at simp del: bit_0_eq dest: bit_imp_le_length) (metis bit_byte_at bit_0_eq bot_apply bot_bool_def)+
  then show ?thesis by (simp add: mask_byte_bit)
qed

lemma words_by_bytes: "w = w' \<longleftrightarrow> (\<forall>k < 4. byte_at k w = byte_at k w')" for w w' :: u32
proof
  assume *: "\<forall>k < 4. byte_at k w = byte_at k w'"
  show "w = w'"
  proof (rule bit_word_eqI)
    fix n assume "n < LENGTH(32)"
    then have "n div 8 < 4" "n = 8 * (n div 8) + n mod 8" "n mod 8 < 8" by auto
    then show "bit w n = bit w' n" using * bit_byte_at [of "n mod 8" "n div 8"] by metis
  qed
qed simp

lemma byte_at_and: "byte_at k (w AND w') = byte_at k w AND byte_at k w'"
  by (simp add: byte_at_def take_bit_and unsigned_and_eq)

lemma byte_at_get32: "k < 4 \<Longrightarrow> byte_at k (get32 b off) = b ! (off + k)"
proof (rule bit_word_eqI)
  fix n
  assume "k < 4" "n < LENGTH(8)"
  then have "(8 * k + n) div 8 = k" "(8 * k + n) mod 8 = n" "8 * k + n < 32" "n < 8" by auto
  then show "bit (byte_at k (get32 b off)) n = bit (b ! (off + k)) n" by (simp add: bit_byte_at bit_get32)
qed

text \<open>One instruction, byte by byte.\<close>

definition word_matches :: "bytes \<Rightarrow> insn \<Rightarrow> bool" where
  "word_matches d i \<longleftrightarrow> (\<forall>k < 4. byte_matches d (unat (in_offset i) + k) (byte_at k (in_value i), byte_at k (in_mask i)))"

lemma last_byte:
  assumes "in_mask i \<noteq> 0"
  obtains k where "k < 4" "byte_at k (in_mask i) \<noteq> 0" "required_length i = unat (in_offset i) + k + 1"
proof -
  have "\<exists>k < 4. byte_at k (in_mask i) \<noteq> 0" using assms words_by_bytes [of "in_mask i" 0] by auto
  then obtain k where k: "k < 4" "mask_byte (in_mask i) k \<noteq> 0" unfolding byte_at_mask by blast
  then have "k = 0 \<or> k = 1 \<or> k = 2 \<or> k = 3" by linarith
  then have "\<exists>k < 4. mask_byte (in_mask i) k \<noteq> 0 \<and> required_length i = unat (in_offset i) + k + 1"
    using k(2) assms unfolding required_length_def
    by (auto intro: exI [of _ 0] exI [of _ 1] exI [of _ 2] exI [of _ 3])
  then show ?thesis using that unfolding byte_at_mask by blast
qed

lemma byte_required: "k < 4 \<Longrightarrow> byte_at k (in_mask i) \<noteq> 0 \<Longrightarrow> unat (in_offset i) + k < required_length i"
proof -
  assume "k < 4" "byte_at k (in_mask i) \<noteq> 0"
  then obtain n where "n < 8" "bit (in_mask i) (8 * k + n)" unfolding byte_at_mask mask_byte_bit by blast
  then show ?thesis using mask_within [of i "8 * k + n"] by simp
qed

lemma word_test_bytes:
  assumes "clause_word i" "take (length d) b = d"
  shows "insn_test (length d) (get32 b) i \<longleftrightarrow> word_matches d i"
proof (cases "in_mask i = 0")
  case True
  then show ?thesis by (simp add: insn_test_def word_matches_def byte_matches_def)
next
  case False
  have short: "\<not> in_short i" and vm: "in_value i AND in_mask i = in_value i" using assms(1) by (simp_all add: clause_word_def)
  show ?thesis
  proof (cases "length d < required_length i")
    case True
    obtain k where "k < 4" "byte_at k (in_mask i) \<noteq> 0" "required_length i = unat (in_offset i) + k + 1" by (rule last_byte [OF False])
    then have "\<not> word_matches d i" using True by (auto simp: word_matches_def byte_matches_def)
    then show ?thesis using True False short by (simp add: insn_test_def)
  next
    case long: False
    have "byte_at k (get32 b (unat (in_offset i)) AND in_mask i) = byte_at k (in_value i) \<longleftrightarrow>
        byte_matches d (unat (in_offset i) + k) (byte_at k (in_value i), byte_at k (in_mask i))" if k: "k < 4" for k
    proof -
      have v: "byte_at k (in_value i) AND byte_at k (in_mask i) = byte_at k (in_value i)" using vm by (simp add: byte_at_and [symmetric])
      show ?thesis
      proof (cases "byte_at k (in_mask i) = 0")
        case True
        then show ?thesis using v by (simp add: byte_matches_def byte_at_and)
      next
        case False
        then have in_d: "unat (in_offset i) + k < length d" using byte_required [OF k False] long by simp
        then have "b ! (unat (in_offset i) + k) = d ! (unat (in_offset i) + k)" by (metis assms(2) nth_take)
        then show ?thesis using False in_d v by (simp add: byte_matches_def byte_at_and byte_at_get32 [OF k])
      qed
    qed
    then show ?thesis using False long by (auto simp: insn_test_def word_matches_def words_by_bytes [of "_ AND _"])
  qed
qed

text \<open>Adding a byte where the word had none.\<close>

lemma word_matches_with_byte:
  assumes "k < 4" "byte_at k (in_mask i) = 0"
  shows "word_matches d (with_byte k v m i) \<longleftrightarrow> word_matches d i \<and> byte_matches d (unat (in_offset i) + k) (v, m)"
proof -
  have "byte_matches d (unat (in_offset i) + l) (byte_at l (in_value (with_byte k v m i)), byte_at l (in_mask (with_byte k v m i))) \<longleftrightarrow>
      (if l = k then byte_matches d (unat (in_offset i) + k) (v, m)
       else byte_matches d (unat (in_offset i) + l) (byte_at l (in_value i), byte_at l (in_mask i)))" if "l < 4" for l
    using that assms(1) by (auto simp: with_byte_def byte_at_put_byte byte_matches_def and.assoc)
  moreover have "in_offset (with_byte k v m i) = in_offset i" by (simp add: with_byte_def)
  moreover have "byte_matches d (unat (in_offset i) + k) (byte_at k (in_value i), byte_at k (in_mask i))" using assms(2) by (simp add: byte_matches_def)
  ultimately show ?thesis unfolding word_matches_def using assms(1) by metis
qed

lemma word_matches_new: "word_matches d (new_insn off 0 0)"
  by (simp add: word_matches_def byte_matches_def new_insn_def)

text \<open>A word under construction: the bytes before \<open>offset\<close> may be set.\<close>

definition open_word :: "int \<Rightarrow> insn \<Rightarrow> bool" where
  "open_word offset i \<longleftrightarrow> offset mod 4 = 0
     \<or> int (unat (in_offset i)) = offset div 4 * 4 \<and> (\<forall>k < 4. offset mod 4 \<le> int k \<longrightarrow> byte_at k (in_mask i) = 0)"

lemma open_word_with_byte:
  assumes "int (unat (in_offset i)) = offset div 4 * 4" "\<forall>k < 4. offset mod 4 \<le> int k \<longrightarrow> byte_at k (in_mask i) = 0"
  shows "open_word (offset + 1) (with_byte (nat (offset mod 4)) v m i)"
proof (cases "(offset + 1) mod 4 = 0")
  case False
  then have "(offset + 1) mod 4 = offset mod 4 + 1" "(offset + 1) div 4 = offset div 4" by presburger+
  then show ?thesis using assms nat_mod_4 [of offset] by (auto simp: open_word_def with_byte_def byte_at_put_byte)
qed (simp add: open_word_def)

lemma new_offset: "0 \<le> offset \<Longrightarrow> offset < 65536 \<Longrightarrow> int (unat (in_offset (new_insn (offset div 4 * 4) v m))) = offset div 4 * 4"
proof -
  assume "0 \<le> offset" "offset < 65536"
  moreover have "offset div 4 * 4 \<le> offset" by presburger
  ultimately have range: "0 \<le> offset div 4 * 4" "offset div 4 * 4 < 65536" by simp_all
  have "int (unat (of_int k :: u16)) = k" if "0 \<le> k" "k < 65536" for k
    using that by (simp add: unsigned_of_int take_bit_int_eq_self)
  from this [OF range] show ?thesis by (simp only: new_insn_def insn.select_convs)
qed

lemma with_byte_matches:
  assumes "int (unat (in_offset i)) = offset div 4 * 4" "byte_at (nat (offset mod 4)) (in_mask i) = 0" "0 \<le> offset"
  shows "word_matches d (with_byte (nat (offset mod 4)) v m i) \<longleftrightarrow> word_matches d i \<and> byte_matches d (nat offset) (v, m)"
proof -
  have "unat (in_offset i) + nat (offset mod 4) = nat offset" using assms(1,3) mult_div_mod_eq [of 4 offset] nat_mod_4 [of offset] by linarith
  then show ?thesis using word_matches_with_byte [OF nat_mod_4 assms(2), of d v m] by simp
qed

lemma more_words_match:
  "open_word offset i \<Longrightarrow> 0 \<le> offset \<Longrightarrow> offset + int (length bs) \<le> 65536 \<Longrightarrow>
    list_all (word_matches d) (more_words i offset bs) \<longleftrightarrow> word_matches d i \<and> bytes_match d (nat offset) bs"
proof (induction bs arbitrary: i offset)
  case (Cons vm bs)
  obtain v m where vm: "vm = (v, m)" by (cases vm)
  have next_nat: "nat (offset + 1) = Suc (nat offset)" using Cons.prems(2) by simp
  show ?case
  proof (cases "offset mod 4 = 0")
    case True
    let ?n = "new_insn offset 0 0"
    have n: "int (unat (in_offset ?n)) = offset div 4 * 4" using new_offset [of offset 0 0] div_mult_mod_0 [OF True] Cons.prems by simp
    have z: "byte_at k (in_mask ?n) = 0" for k by (simp add: new_insn_def)
    have "open_word (offset + 1) (with_byte 0 v m ?n)" using open_word_with_byte [OF n, of v m] z True by simp
    then show ?thesis
      using Cons.IH [of "offset + 1" "with_byte 0 v m ?n"] Cons.prems True with_byte_matches [OF n z Cons.prems(2), of d v m]
      by (simp add: vm next_nat word_matches_new)
  next
    case False
    then have o: "int (unat (in_offset i)) = offset div 4 * 4" "\<forall>k < 4. offset mod 4 \<le> int k \<longrightarrow> byte_at k (in_mask i) = 0"
      using Cons.prems(1) by (auto simp: open_word_def)
    have "byte_at (nat (offset mod 4)) (in_mask i) = 0" using o(2) nat_mod_4 [of offset] by simp
    from with_byte_matches [OF o(1) this Cons.prems(2), of d v m] show ?thesis
      using Cons.IH [OF open_word_with_byte [OF o]] Cons.prems False by (simp add: vm next_nat)
  qed
qed simp

lemma clause_words_match:
  assumes "0 \<le> offset" "offset + int (length bs) \<le> 65536"
  shows "list_all (word_matches d) (clause_words offset bs) \<longleftrightarrow> bytes_match d (nat offset) bs"
proof (cases bs)
  case (Cons vm cs)
  obtain v m where vm: "vm = (v, m)" by (cases vm)
  let ?n = "new_insn (offset div 4 * 4) 0 0"
  have n: "int (unat (in_offset ?n)) = offset div 4 * 4" using new_offset [of offset 0 0] assms Cons by simp
  have z: "byte_at k (in_mask ?n) = 0" for k by (simp add: new_insn_def)
  have ow: "open_word (offset + 1) (with_byte (nat (offset mod 4)) v m ?n)" using z by (intro open_word_with_byte [OF n]) simp
  have "nat (offset + 1) = Suc (nat offset)" using assms(1) by simp
  then show ?thesis
    using more_words_match [OF ow, of cs d] with_byte_matches [OF n z assms(1), of d v m] assms Cons
    by (simp add: vm word_matches_new)
qed simp

text \<open>What is read has bytes to test, at an offset that is not negative.\<close>

lemma digits_value_nonneg: "list_all is_digit ds \<Longrightarrow> 0 \<le> digits_value ds"
proof -
  have "0 \<le> fold (\<lambda>c n. n * 10 + (int (of_char c) - 48)) ds n" if "list_all is_digit ds" "0 \<le> n" for n
    using that by (induction ds arbitrary: n) (auto simp: is_digit_def)
  then show "list_all is_digit ds \<Longrightarrow> 0 \<le> digits_value ds" by (simp add: digits_value_def)
qed

lemma clause_bytes_nonempty:
  assumes "2 \<le> length v" "case m of None \<Rightarrow> True | Some ms \<Rightarrow> length ms = length v"
  shows "clause_bytes v m \<noteq> []"
proof -
  obtain h l vs where v: "v = h # l # vs" using assms(1) by (cases v rule: remdups_adj.cases) auto
  show ?thesis
  proof (cases m)
    case None
    then show ?thesis by (simp add: v)
  next
    case (Some ms)
    then obtain mh ml ms' where "ms = mh # ml # ms'" using assms(2) v by (cases ms rule: remdups_adj.cases) auto
    then show ?thesis using Some by (simp add: v split: prod.split)
  qed
qed

lemma read_clause_ok: "read_clause s = Some (c, r) \<Longrightarrow> clause_valid c \<and> 0 \<le> cl_offset c"
proof -
  assume *: "read_clause s = Some (c, r)"
  define s1 where "s1 = (if s \<noteq> [] \<and> hd s = CHR ''!'' then dropWhile is_space (tl s) else s)"
  note e = * [unfolded read_clause_def Let_def s1_def [symmetric]]
  then obtain d s3 where d: "dropWhile is_digit s1 = d # s3" by (cases "dropWhile is_digit s1") simp_all
  obtain m s5 where m: "read_mask (dropWhile hex_digit s3) = (m, s5)" by (cases "read_mask (dropWhile hex_digit s3)")
  let ?v = "takeWhile hex_digit s3"
  have c: "cl_value c = ?v" "cl_mask c = m" "cl_offset c = digits_value (takeWhile is_digit s1)"
      "2 \<le> length ?v" "case m of None \<Rightarrow> True | Some ms \<Rightarrow> length ms = length ?v"
    using e unfolding d list.case m prod.case by (auto split: if_split_asm option.splits)
  have "list_all is_digit (takeWhile is_digit s1)" by (auto simp: list_all_iff dest: set_takeWhileD)
  then show ?thesis using clause_bytes_nonempty [OF c(4,5)] digits_value_nonneg c(1-3) by (simp add: clause_valid_def)
qed

declare read_clauses.simps [simp del]

lemma read_clauses_cases:
  assumes "read_clauses s = Some cs"
  obtains "cs = []" | c rest cs' where "dropWhile is_space s \<noteq> []" "read_clause (dropWhile is_space s) = Some (c, rest)"
    "read_clauses rest = Some cs'" "cs = c # cs'"
  using assms by (subst (asm) read_clauses.simps) (auto simp: Let_def split: if_split_asm option.split_asm)

lemma read_clauses_ok: "read_clauses s = Some cs \<Longrightarrow> c \<in> set cs \<Longrightarrow> clause_valid c \<and> 0 \<le> cl_offset c"
proof (induction s arbitrary: cs rule: read_clauses.induct)
  case (1 s)
  from 1(2) show ?case
  proof (cases rule: read_clauses_cases)
    case 1
    then show ?thesis using \<open>c \<in> set cs\<close> by simp
  next
    case (2 c1 rest cs')
    then show ?thesis using 1(1) [OF refl 2(1,2) refl 2(3)] 1(3) read_clause_ok [OF 2(2)] by auto
  qed
qed

lemma read_patterns_ok:
  assumes "those (map read_pattern conf) = Some css" "cs \<in> set css" "c \<in> set cs"
  shows "clause_valid c \<and> 0 \<le> cl_offset c"
  using assms
proof (induction conf arbitrary: css)
  case (Cons s conf)
  then obtain cs1 css' where "read_pattern s = Some cs1" "those (map read_pattern conf) = Some css'" "css = cs1 # css'"
    by (auto split: option.splits)
  then show ?case using Cons read_clauses_ok [of s cs1 c] by (auto simp: read_pattern_def split: if_splits)
qed simp

lemma those_length: "those xs = Some ys \<Longrightarrow> length ys = length xs"
  by (induction xs arbitrary: ys) (auto split: option.splits)

section \<open>Properties\<close>

lemma clause_holds_matches:
  assumes "0 \<le> cl_offset c" "cl_offset c + int (length (clause_bytes (cl_value c) (cl_mask c))) \<le> 65536" "take (length d) b = d"
  shows "clause_holds (insn_test (length d) (get32 b)) 0 c \<longleftrightarrow> clause_matches d c"
proof -
  have "list_all (insn_test (length d) (get32 b)) (clause_insns 0 c) = list_all (word_matches d) (clause_insns 0 c)"
    using word_test_bytes [OF _ assms(3)] clause_words_word by (auto simp: list_all_iff clause_insns_def)
  then show ?thesis
    using clause_words_match [OF assms(1,2), of d] by (simp add: clause_holds_def clause_matches_def clause_insns_def)
qed

lemma packet_word_0: "packet_word 0 p = get32 (pk_data p @ [0, 0, 0])"
  by (simp add: packet_word_def packet_window_def pk_headroom_def numeral_3_eq_3)

lemma first_slot_cong:
  "(\<And>cs c. cs \<in> set css \<Longrightarrow> c \<in> set cs \<Longrightarrow> h c = h' c) \<Longrightarrow> first_slot h slot css = first_slot h' slot css"
proof (induction css arbitrary: slot)
  case (Cons cs css)
  then have "list_all h cs = list_all h' cs" by (auto simp: list_all_iff)
  moreover have "first_slot h (Suc slot) css = first_slot h' (Suc slot) css"
    using Cons.prems by (intro Cons.IH) (meson list.set_intros(2))
  ultimately show ?case by simp
qed simp

text \<open>(C39) A classifier stands for its patterns.  The program built out of patterns that can be read, whose offsets stay below 65536,
  has only forward jumps, and it sends every packet to the output of the first pattern all of whose clauses hold, or to
  the port that does not exist if there is none; a clause holds if every byte it gives a mask for lies inside the
  packet and agrees with its value under the mask, or, negated, if not.
\<close>

theorem classifier_first_match:
  assumes "those (map read_pattern conf) = Some css" "conf \<noteq> []" "length conf < 2147483645"
    and "\<And>cs c. cs \<in> set css \<Longrightarrow> c \<in> set cs \<Longrightarrow> cl_offset c + int (length (clause_bytes (cl_value c) (cl_mask c))) \<le> 65536"
  shows "\<exists>prog. parse_program 0 conf = Inr (Some prog) \<and> insns_ok (pr_insn prog) \<and>
    (\<forall>p. deliver (insn_test (pk_length p) (packet_word 0 p)) (pr_insn prog) 0 =
       Some (case first_slot (clause_matches (pk_data p)) 0 css of Some slot \<Rightarrow> int slot | None \<Rightarrow> - j_never))"
proof -
  have css: "css \<noteq> []" "length css < 2147483645" "\<forall>cs \<in> set css. slot_valid cs"
    using those_length [OF assms(1)] assms(2,3) read_patterns_ok [OF assms(1)] by (auto simp: slot_valid_def)
  have nonneg: "0 \<le> cl_offset c" if "cs \<in> set css" "c \<in> set cs" for cs c using read_patterns_ok [OF assms(1) that] by simp
  have "list_all (offsets_ok 0) css"
    using nonneg assms(4) by (fastforce simp: list_all_iff offsets_ok_def int32_range_def)
  then have parse: "parse_program 0 conf = Inr (Some (build_program 0 css))" by (simp add: parse_program_def assms(1))
  have "block_fits 0 (length (linked c_or j_never j_never 0 (slot_codes 0 0 0 css))) (linked c_or j_never j_never 0 (slot_codes 0 0 0 css))"
    using linked_fits [OF slot_codes_fit [OF css(3)], where s = j_never and f = j_never and op = c_or, of 0 0 0] by simp
  then have ok: "insns_ok (pr_insn (build_program 0 css))"
    using block_fits_program by (simp add: build_program_eq [OF css(3,1)])
  have "first_slot (clause_holds (insn_test (pk_length p) (packet_word 0 p)) 0) 0 css = first_slot (clause_matches (pk_data p)) 0 css" for p
    using clause_holds_matches [OF nonneg assms(4), where d = "pk_data p" and b = "pk_data p @ [0, 0, 0]"]
    by (intro first_slot_cong) (auto simp: packet_word_0 pk_length_def)
  then have "deliver (insn_test (pk_length p) (packet_word 0 p)) (pr_insn (build_program 0 css)) 0 =
      Some (case first_slot (clause_matches (pk_data p)) 0 css of Some slot \<Rightarrow> int slot | None \<Rightarrow> - j_never)" for p
    using test.program_exit_slots [OF css(3,1,2), of "pk_length p" "packet_word 0 p" 0] by simp
  then show ?thesis using parse ok by blast
qed

text \<open>ARP queries, ARP replies, IP packets, anything else: an IP packet leaves on output 2.\<close>

theorem classifier_first_match_witness:
  "\<exists>prog. parse_program 0 [''12/0806 20/0001'', ''12/0806 20/0002'', ''12/0800'', ''-''] = Inr (Some prog) \<and>
    deliver (insn_test 14 (packet_word 0 (fresh_packet [] (zeros 12 @ [8, 0]) 0))) (pr_insn prog) 0 = Some 2"
proof -
  let ?conf = "[''12/0806 20/0001'', ''12/0806 20/0002'', ''12/0800'', ''-'']" and ?p = "fresh_packet [] (zeros 12 @ [8, 0]) 0"
  define css where "css = the (those (map read_pattern ?conf))"
  have "those (map read_pattern ?conf) \<noteq> None" by code_simp
  then have css: "those (map read_pattern ?conf) = Some css" by (simp add: css_def)
  have small: "list_all (list_all (\<lambda>c. cl_offset c + int (length (clause_bytes (cl_value c) (cl_mask c))) \<le> 65536)) css"
    unfolding css_def by code_simp
  have slot: "first_slot (clause_matches (pk_data ?p)) 0 css = Some 2" unfolding css_def by code_simp
  obtain prog where prog: "parse_program 0 ?conf = Inr (Some prog)"
      "\<forall>p. deliver (insn_test (pk_length p) (packet_word 0 p)) (pr_insn prog) 0 =
         Some (case first_slot (clause_matches (pk_data p)) 0 css of Some slot \<Rightarrow> int slot | None \<Rightarrow> - j_never)"
    using classifier_first_match [OF css] small by (auto simp: list_all_iff)
  have "pk_length ?p = 14" by (simp add: pk_length_def fresh_packet_def zeros_def)
  then show ?thesis using prog(1) prog(2) [rule_format, of ?p] slot by auto
qed

end
