(* ===== verification/Spec2Isabelle.thy ===== *)
theory Spec2Isabelle
  imports Registration LinearLookup Fragmenter ARPElements TimerRuns ICMPErrors Timestamps Classifier
begin

text \<open>
  A verification development for the Mobile IP implementation on the Click modular router.

  \<^bold>\<open>The program.\<close>  The repository is a Click source tree (\<^verbatim>\<open>src/click-master\<close>) with
  the project's own elements under \<^verbatim>\<open>elements/local/MobileIPElements\<close> and the
  configurations \<^verbatim>\<open>src/scripts/library/{ha,fa,mn}.click\<close> that wire them to standard
  elements.  A \<^emph>\<open>mobile node\<close> listens for agent advertisements, and registers with its
  \<^emph>\<open>home agent\<close>, through a \<^emph>\<open>foreign agent\<close> when it is away.  The home agent binds the node's
  address to a care-of address and tunnels packets for an absent node to it; the foreign agent
  unpacks them for its visitor.  Requests, replies and advertisements are UDP and ICMP messages;
  bindings, visitors, pending requests and heard advertisements carry lifetimes that one-second
  timers count down.

  \<^bold>\<open>How the code is modelled.\<close>  Each handler of an element (\<^verbatim>\<open>push\<close>,
  \<^verbatim>\<open>simple_action\<close>, \<^verbatim>\<open>run_timer\<close>, \<^verbatim>\<open>configure\<close>, write handlers) is a function from the
  state of the element and the packet to the state after it and the list of its actions (packets
  pushed on an output or killed, timers armed), in the result type \<open>res\<close>: \<open>Inr\<close> of that result
  or \<open>Inl\<close> of the fault the C++ would run into (access outside a buffer, null pointer, failed
  assertion).  Machine integers are words, a packet is its buffer with the fields the elements
  use, and a header field is a load or store at its offset on a little-endian host.  Allocation
  success and the content of fresh memory are parameters (\<open>env_packet\<close> and its like), as are the
  parsed arguments of configurations.  Loops over vectors are recursive functions with a
  termination proof; the loops whose end depends on more than their arguments are
  \<open>partial_function\<close>s, for which returning is a theorem: the transaction loop of the routing
  table (\<open>ctrl_loop\<close>, which does not always return), the cutting loop of the fragmenter
  (\<open>frag_loop\<close>), the walks along linked lists (\<open>dl_count\<close>, \<open>dl_clear\<close>), the retry loop of the
  ARP querier (\<open>retry_read_lock\<close>) the loops that print a number (\<open>tenth_loop\<close>, \<open>decimal_loop\<close>), and the execution and the
  improvement of classification programs (\<open>match_loop\<close>, \<open>combine_loop\<close>).  There is no fuel.

  \<^bold>\<open>The theories.\<close>
  \<^item> \<open>Prelude\<close>: integers, byte buffers, byte order, faults and actions; the contract
    \<open>byte_field\<close> of loads and stores with its interpretations.  \<open>Vectors\<close>:
    \<^verbatim>\<open>include/click/vector.hh\<close> and the erase loops.  \<open>Checksum\<close>:
    \<^verbatim>\<open>lib/in_cksum.c\<close> and the checksum functions of \<^verbatim>\<open>include/clicknet/ip.h\<close> against
    one's-complement arithmetic.  \<open>Headers\<close>: the layouts of all messages.  \<open>Packets\<close>:
    \<^verbatim>\<open>include/click/packet.hh\<close>.  \<open>HashTable\<close>: \<^verbatim>\<open>include/click/hashmap.hh\<close> with its
    collision chains and resizing, shown to satisfy the contract \<open>address_map\<close>.
    \<open>Lifetimes\<close>: the countdowns, and the contract \<open>expiring\<close> of a store whose timer runs one.
    \<open>Messages\<close>: building a message with its checksums.
  \<^item> \<open>AgentBase\<close>, \<open>HomeAgent\<close>, \<open>ForeignAgent\<close>, \<open>Tunnel\<close>: the agents
    (\<^verbatim>\<open>agentBase\<close>, \<^verbatim>\<open>registrationRequestReply\<close>, \<^verbatim>\<open>foreignAgentReqProcess\<close>,
    \<^verbatim>\<open>foreignAgentReplyProcess\<close>, \<^verbatim>\<open>ipEncapsulation\<close>, \<^verbatim>\<open>ipDecap\<close>,
    \<^verbatim>\<open>mobileIPfilter\<close>).  Shown: the bindings refine a map, every branch of both validations,
    what each timer run does to each entry, exactly when an entry expires, which error paths
    answer and which are silent.
  \<^item> \<open>Discovery\<close>, \<open>MobileNode\<close>: advertisements, solicitations, their filters and the mobile
    node (\<^verbatim>\<open>agentAdvertisements\<close>, \<^verbatim>\<open>agentSolicitation\<close>, \<^verbatim>\<open>advFilter\<close>,
    \<^verbatim>\<open>solicitationfilter\<close>, \<^verbatim>\<open>mobileinfolist\<close>, \<^verbatim>\<open>registrationRequestSource\<close>,
    \<^verbatim>\<open>advertisementsHandler\<close>, \<^verbatim>\<open>setgateway\<close>).  Shown: messages are well formed, one entry
    per agent is kept, entries expire when they should.
  \<^item> \<open>Registration\<close>: the protocol.  The agent is a transition system over its handlers and
    timers, in which packets are arbitrary and allocations may fail.  Shown: its invariant holds in
    every reachable state, the list of bindings agrees with the table unless an insertion failed, and
    which events fault is determined (a failed insertion followed by a timer run, a shared packet that
    cannot be copied or is no request, a header longer than its packet).  A whole registration is composed from the four handlers it runs through, and a tunnelled packet
    arrives as it was sent.
  \<^item> \<open>Elements\<close>, \<open>IPPath\<close>, \<open>Fragmenter\<close>: the standard elements on the data path
    (\<^verbatim>\<open>Strip\<close>, \<^verbatim>\<open>Paint\<close>, \<^verbatim>\<open>PaintTee\<close>, \<^verbatim>\<open>CheckPaint\<close>, \<^verbatim>\<open>Tee\<close>,
    \<^verbatim>\<open>Discard\<close>, \<^verbatim>\<open>DropBroadcasts\<close>, \<^verbatim>\<open>HostEtherFilter\<close>, \<^verbatim>\<open>EtherEncap\<close>;
    \<^verbatim>\<open>CheckIPHeader\<close>, \<^verbatim>\<open>CheckICMPHeader\<close>, \<^verbatim>\<open>DecIPTTL\<close>, \<^verbatim>\<open>FixIPSrc\<close>,
    \<^verbatim>\<open>IPGWOptions\<close>; \<^verbatim>\<open>IPFragmenter\<close>).  Shown: what passes the header check is well
    formed, the incremental checksum of the TTL decrement stays right, fragments fit the MTU and
    reassemble to the packet.
  \<^item> \<open>Routing\<close>, \<open>LinearLookup\<close>: routes, route commands and their transactions
    (\<^verbatim>\<open>iproutetable\<close>), the contract \<open>route_table\<close> of a table, and the linear table
    (\<^verbatim>\<open>lineariplookup\<close>, \<^verbatim>\<open>lookupiproute\<close>) that satisfies it.  Shown: the next-pointer scan
    is longest-prefix match, the caches agree with it, transactions without blank lines return and are all or
    nothing, and a blank line inside one makes the handler loop for ever.
  \<^item> \<open>ConfText\<close>: the text of configurations and handlers (\<^verbatim>\<open>lib/confparse.cc\<close>): comments, quotes,
    arguments and words, as the transactions read them.  Shown: every scan ends, and the two ways to separate words agree.
  \<^item> \<open>Classification\<close>, \<open>ClassifierPasses\<close>, \<open>Classifier\<close>: the classifier that sorts packets into
    queries, answers and IP (\<^verbatim>\<open>classification\<close>, \<^verbatim>\<open>classifier\<close>).  The reference is \<open>deliver\<close>, the
    output a program with forward jumps stands for; the contract \<open>insn_answers\<close> says what the passes
    use of a test.  Shown: the two execution loops end, stay inside the buffer and give the reference; when an instruction
    implies another; the program built out of patterns sends a packet to the first pattern that holds byte by byte; combining and removing instructions end and keep the output of packets that are long
    enough, while short packets can be misdelivered.
  \<^item> \<open>LinkedList\<close>, \<open>ARPTable\<close>, \<open>ARPElements\<close>: address resolution.  The intrusive list
    (\<^verbatim>\<open>include/click/list.hh\<close>) on explicit links with its contract \<open>linked_list\<close>; the ARP
    cache with its waiting packets, capacities and expiry (\<^verbatim>\<open>arptable\<close>); the querier and the
    responder (\<^verbatim>\<open>arpquerier\<close>, \<^verbatim>\<open>arpresponder\<close>).  Shown: the links represent a list under
    every sequence of operations, the counters of the cache are right and eviction is oldest
    first; the querier returns without a fault as long as it can allocate and the clock does not go back during a call; and
    query, answer and delivery fit together.  A reconfiguration to a smaller capacity leaves the invariant, and then a
    freed entry can be used.
  \<^item> \<open>TimerHeap\<close>, \<open>TimerSet\<close>, \<open>TimerRuns\<close>: what fires the timers of the elements.  The
    four-ary heap (\<^verbatim>\<open>include/click/heap.hh\<close>) whose elements know their positions; scheduling,
    unscheduling and the rounds of \<^verbatim>\<open>lib/timerset.cc\<close> and \<^verbatim>\<open>lib/timer.cc\<close>, with the clock, the
    stop flag and the callbacks as a parameter and times in microseconds, the default at user level; the contract \<open>step_refinement\<close> by which operations
    that may fault implement steps of an abstract state.  Shown: the set refines a map from timers
    to expiry times, every round ends whatever the callbacks do, due timers fire in order and none
    is lost (with callbacks that touch no timer), and a killed router may leave a timer behind.
  \<^item> \<open>ICMPErrors\<close>: the messages that answer packets the IP path rejects
    (\<^verbatim>\<open>elements/icmp/icmperror.cc\<close>).  Shown: exactly which packets are answered; the answer has
    valid checksums, fits the MTU, quotes the packet and carries its source route reversed; no answer
    is answered; and an MTU below 28 bytes makes the element write outside its packet.
  \<^item> \<open>IntText\<close>: numbers as text, for the configuration of every element.  Printing
    (\<^verbatim>\<open>StringAccum::append_numeric\<close>, whose loops are \<open>partial_function\<close>s shown to return), reading
    (\<^verbatim>\<open>IntArg\<close> in \<^verbatim>\<open>lib/args.cc\<close>) and the limb products below it.  Shown: the division by ten out of
    shifts is one, reading gives the number or the nearest bound of its type, what is printed is read
    back, and negative 64-bit numbers with two non-zero limbs are read wrongly.
  \<^item> \<open>Timestamps\<close>: moments and intervals (\<^verbatim>\<open>include/click/timestamp.hh\<close>) in the three
    representations a compilation can choose, each an interpretation of the contract
    \<open>timestamp_rep\<close>: a representation is an integer number of subseconds.  Shown: expressions and
    comparisons agree in all three, what does not overflow is well formed, conversions from milliseconds and microseconds are
    undone, rounding up is exact, negative timestamps convert differently, and the 32-bit kernel
    version of the remainder is off by one.

  \<^bold>\<open>Not modelled.\<close>  The router kernel (configuration language, argument parsing, ports,
  error printing), tasks and threads, strings, clocks and floating-point timestamps: the elements only
  call them.  Of the classifiers, the filter language
  of \<^verbatim>\<open>IPFilter\<close> and \<^verbatim>\<open>IPClassifier\<close>, the dominator optimisation, the sort of and-expressions
  and compressed programs.  Console output and read handlers.  Device and kernel elements, drivers, tools and the
  element packages the configurations do not use.
\<close>

end
